(* ===== verification/Prelude.thy ===== *)
theory Prelude
  imports Main "HOL-Library.Word" "HOL-Library.Multiset" "HOL-Library.Monad_Syntax"
begin

text \<open>
  Shared vocabulary of the development.  It fixes the widths of the C++ integer types the
  simulator uses, the convention for failed assertions, and the generic facts on lists,
  multisets and words that several components need.

  \<^item> \<open>uint64_t\<close>, \<open>uint32_t\<close>, \<open>uint16_t\<close> and \<open>uint8_t\<close> are words of that width.
  \<^item> A signed \<open>int\<close> that only counts resources (ports, free entries) is \<open>int\<close>.
  \<^item> The build keeps \<open>assert\<close> active (\<open>CMakeLists.txt\<close> adds \<open>-O3\<close> and no \<open>NDEBUG\<close>), so
    an operation that asserts returns an \<open>option\<close> and \<open>None\<close> is the abort.
\<close>

section \<open>Types\<close>

unbundle bit_operations_syntax

type_synonym u8 = "8 word"
type_synonym u16 = "16 word"
type_synonym u32 = "32 word"
type_synonym u64 = "64 word"

section \<open>Collections of facts\<close>

named_theorems pq_simps \<open>behaviour of the standard library's priority queue\<close>
named_theorems cset_simps \<open>pointer operations of a cache set\<close>
named_theorems step_defs \<open>definitions unfolded in one-step proofs\<close>

section \<open>Assertions\<close>

definition assert_that :: "bool \<Rightarrow> unit option" where
  "assert_that b = (if b then Some () else None)"

lemma assert_that_simps [simp]:
  "assert_that True = Some ()"
  "assert_that False = None"
  by (simp_all add: assert_that_def)

lemma bind_assert_that [simp]:
  "(assert_that b \<bind> f = Some x) \<longleftrightarrow> b \<and> f () = Some x"
  "(assert_that b \<bind> f = None) \<longleftrightarrow> (b \<longrightarrow> f () = None)"
  by (auto simp: assert_that_def)

text \<open>
  Evaluation from the inside out: with these congruences the simplifier reduces the bound
  computation to a value before it looks at the continuation.
\<close>

lemma bind_weak_cong: "x = x' \<Longrightarrow> Option.bind x f = Option.bind x' f"
  by simp

lemmas eval_congs = bind_weak_cong let_weak_cong

section \<open>Lists\<close>

lemma mset_update_swap:
  assumes "i < length xs" "j < length xs" "i \<noteq> j"
  shows "mset (xs[i := xs ! j, j := x]) = mset (xs[i := x])"
proof -
  have "xs[i := xs ! j, j := x] = (xs[i := x])[i := (xs[i := x]) ! j, j := (xs[i := x]) ! i]"
    using assms by (auto simp: list_eq_iff_nth_eq nth_list_update)
  then show ?thesis
    using assms mset_swap [of j "xs[i := x]" i] by simp
qed

lemma distinct_remove1_append:
  "distinct (xs @ x # ys) \<Longrightarrow> remove1 x (xs @ x # ys) = xs @ ys"
  by (simp add: remove1_append)

lemma map_cong_fun_upd:
  "x \<notin> set xs \<Longrightarrow> map (f(x := y)) xs = map f xs"
  by (induction xs) auto

lemma map_of_map_inj:
  assumes "distinct (map f xs)" "x \<in> set xs"
  shows "map_of (map (\<lambda>x. (f x, x)) xs) (f x) = Some x"
  using assms by (induction xs) (auto simp: rev_image_eqI)

section \<open>Integer arithmetic of the source\<close>

lemma unat_ucast_32_64: "unat (ucast (b :: u32) :: u64) = unat b"
proof -
  have "unat b < 2 ^ 64" using unsigned_less [of b] by (rule less_trans) simp
  then show ?thesis by (simp add: unsigned_ucast_eq take_bit_nat_eq_self)
qed

lemma ceil_div_covers:
  assumes "0 < (b :: nat)"
  shows "n \<le> (n + b - 1) div b * b"
  using mod_less_divisor [OF assms, of "n + b - 1"] div_mult_mod_eq [of "n + b - 1" b] assms by linarith

text \<open>
  \<open>ilog2\<close> is both \<open>static_cast<int>(log2(n))\<close> of \<open>FunctionalCache.cpp\<close> for a positive
  \<open>int\<close> (the truncation of the real logarithm) and the shift loop \<open>ilog2_u32\<close> of
  \<open>tage_branch_predictor.cpp\<close>.
\<close>

fun ilog2 :: "nat \<Rightarrow> nat" where
  "ilog2 n = (if n < 2 then 0 else Suc (ilog2 (n div 2)))"

declare ilog2.simps [simp del]

lemma ilog2_le: "0 < n \<Longrightarrow> 2 ^ ilog2 n \<le> n"
proof (induction n rule: ilog2.induct)
  case (1 n)
  show ?case
  proof (cases "n < 2")
    case False
    with "1.IH" have "2 ^ ilog2 (n div 2) \<le> n div 2" by simp
    with False show ?thesis by (simp add: ilog2.simps [of n])
  qed (use "1.prems" in \<open>simp add: ilog2.simps [of n]\<close>)
qed

lemma ilog2_power [simp]: "ilog2 (2 ^ k) = k"
  by (induction k) (simp_all add: ilog2.simps [of "Suc 0"] ilog2.simps [of "2 * _"])

text \<open>
  A left shift by a count that may reach the width of the type is undefined in C++; on the
  x86-64 the simulator is built for, the shift instruction takes the count modulo 64.
\<close>

definition shl64 :: "u64 \<Rightarrow> int \<Rightarrow> u64" where
  "shl64 x n = push_bit (nat n mod 64) x"

end
