(* ===== verification/PriorityQueue.thy ===== *)
theory PriorityQueue
  imports Prelude
begin

text \<open>
  \<open>std::priority_queue\<close> over \<open>std::vector\<close>, as the simulator's timed queues use it (the
  caches' \<open>pq\<close>, \<open>SimpleDRAM::pq\<close>, \<open>DMAEngine::pending_txns\<close>).  The comparators of the source
  all say "\<open>l\<close> is served after \<open>r\<close> when the key of \<open>r\<close> is smaller", so a queue is described by
  a key function into a linear order and the top is an element of least key.  Among equal keys
  the order is that of the binary heap of the standard library (\<open>push_heap\<close>, \<open>pop_heap\<close>),
  which is modelled step by step.  The clients only rely on the laws of the locale
  \<open>priority_queue\<close>, which leave the order among equal keys open.
\<close>

section \<open>The heap\<close>

abbreviation parent :: "nat \<Rightarrow> nat" where
  "parent i \<equiv> (i - 1) div 2"

function push_heap :: "('a \<Rightarrow> 'k::linorder) \<Rightarrow> 'a list \<Rightarrow> nat \<Rightarrow> 'a \<Rightarrow> 'a list" where
  "push_heap key v hole x =
     (if 0 < hole \<and> key x < key (v ! parent hole)
      then push_heap key (v[hole := v ! parent hole]) (parent hole) x
      else v[hole := x])"
  by pat_completeness auto
termination
  by (relation "measure (\<lambda>(key, v, hole, x). hole)") auto

function adjust_heap :: "('a \<Rightarrow> 'k::linorder) \<Rightarrow> 'a list \<Rightarrow> nat \<Rightarrow> 'a list \<times> nat" where
  "adjust_heap key v hole =
     (if hole < (length v - 1) div 2
      then let right = 2 * (hole + 1);
               c = (if key (v ! (right - 1)) < key (v ! right) then right - 1 else right)
           in adjust_heap key (v[hole := v ! c]) c
      else if even (length v) \<and> 0 < length v \<and> hole = (length v - 2) div 2
      then (v[hole := v ! (2 * (hole + 1) - 1)], 2 * (hole + 1) - 1)
      else (v, hole))"
  by pat_completeness auto
termination
  by (relation "measure (\<lambda>(key, v, hole). length v - hole)") (auto simp: Let_def)

declare push_heap.simps [simp del] adjust_heap.simps [simp del]

definition pq_push :: "('a \<Rightarrow> 'k::linorder) \<Rightarrow> 'a \<Rightarrow> 'a list \<Rightarrow> 'a list" where
  "pq_push key x v = push_heap key (v @ [x]) (length v) x"

definition pq_top :: "'a list \<Rightarrow> 'a" where
  "pq_top v = v ! 0"

definition pq_pop :: "('a \<Rightarrow> 'k::linorder) \<Rightarrow> 'a list \<Rightarrow> 'a list" where
  "pq_pop key v =
     (if length v \<le> 1 then []
      else case adjust_heap key (butlast v) 0 of
        (w, hole) \<Rightarrow> push_heap key w hole (last v))"

section \<open>The heap invariant\<close>

definition is_heap :: "('a \<Rightarrow> 'k::linorder) \<Rightarrow> 'a list \<Rightarrow> bool" where
  "is_heap key v \<longleftrightarrow> (\<forall>i < length v. 0 < i \<longrightarrow> key (v ! parent i) \<le> key (v ! i))"

text \<open>The heap order everywhere but around a hole, whose content is yet to be written.\<close>

definition heap_but :: "('a \<Rightarrow> 'k::linorder) \<Rightarrow> 'a list \<Rightarrow> nat \<Rightarrow> bool" where
  "heap_but key v h \<longleftrightarrow> h < length v \<and>
     (\<forall>i < length v. 0 < i \<longrightarrow> i \<noteq> h \<longrightarrow> parent i \<noteq> h \<longrightarrow> key (v ! parent i) \<le> key (v ! i)) \<and>
     (\<forall>i < length v. 0 < i \<longrightarrow> parent i = h \<longrightarrow> 0 < h \<longrightarrow> key (v ! parent h) \<le> key (v ! i))"

definition below_hole :: "('a \<Rightarrow> 'k::linorder) \<Rightarrow> 'a list \<Rightarrow> nat \<Rightarrow> 'a \<Rightarrow> bool" where
  "below_hole key v h x \<longleftrightarrow>
     (\<forall>i < length v. 0 < i \<longrightarrow> parent i = h \<longrightarrow> key x \<le> key (v ! i))"

lemma heap_but_up:
  assumes "heap_but key v h" "below_hole key v h x" "0 < h" "key x < key (v ! parent h)"
  shows "heap_but key (v[h := v ! parent h]) (parent h)
    \<and> below_hole key (v[h := v ! parent h]) (parent h) x"
proof -
  have hp: "parent h < h" "h < length v" using assms by (auto simp: heap_but_def)
  have edge: "key (v ! parent i) \<le> key (v ! i)"
    if "i < length v" "0 < i" "i \<noteq> h" "parent i \<noteq> h" for i
    using assms(1) that by (simp add: heap_but_def)
  have grand: "key (v ! parent h) \<le> key (v ! i)" if "i < length v" "0 < i" "parent i = h" for i
    using assms(1,3) that by (simp add: heap_but_def)
  have top: "key (v ! parent (parent h)) \<le> key (v ! parent h)" if "0 < parent h"
    using edge [of "parent h"] hp that by fastforce
  have sib: "key (v ! parent h) \<le> key (v ! i)"
    if "i < length v" "0 < i" "i \<noteq> h" "parent i = parent h" for i
    using edge [of i] hp that by fastforce
  have "heap_but key (v[h := v ! parent h]) (parent h)"
    unfolding heap_but_def
  proof (intro conjI allI impI)
    show "parent h < length (v[h := v ! parent h])" using hp by simp
  next
    fix i assume i: "i < length (v[h := v ! parent h])" "0 < i" "i \<noteq> parent h" "parent i \<noteq> parent h"
    show "key (v[h := v ! parent h] ! parent i) \<le> key (v[h := v ! parent h] ! i)"
      using i edge [of i] grand [of i] hp by (cases "parent i = h") (auto simp: nth_list_update)
  next
    fix i assume i: "i < length (v[h := v ! parent h])" "0 < i" "parent i = parent h" "0 < parent h"
    have "parent (parent h) \<noteq> h" using hp by auto
    then show "key (v[h := v ! parent h] ! parent (parent h)) \<le> key (v[h := v ! parent h] ! i)"
      using i top sib [of i] hp by (cases "i = h") (auto simp: nth_list_update)
  qed
  moreover have "below_hole key (v[h := v ! parent h]) (parent h) x"
    unfolding below_hole_def
  proof (intro allI impI)
    fix i assume i: "i < length (v[h := v ! parent h])" "0 < i" "parent i = parent h"
    show "key x \<le> key (v[h := v ! parent h] ! i)"
      using i sib [of i] hp assms(4) by (cases "i = h") (auto simp: nth_list_update)
  qed
  ultimately show ?thesis by blast
qed

lemma heap_but_fill:
  assumes "heap_but key v h" "below_hole key v h x" "\<not> (0 < h \<and> key x < key (v ! parent h))"
  shows "is_heap key (v[h := x])"
  unfolding is_heap_def
proof (intro allI impI)
  fix i assume i: "i < length (v[h := x])" "0 < i"
  have "parent i \<noteq> i" using i by auto
  then show "key (v[h := x] ! parent i) \<le> key (v[h := x] ! i)"
    using i assms by (cases "i = h"; cases "parent i = h")
      (auto simp: nth_list_update heap_but_def below_hole_def not_less)
qed

lemma push_heap_is_heap:
  "heap_but key v h \<Longrightarrow> below_hole key v h x \<Longrightarrow> is_heap key (push_heap key v h x)"
proof (induction key v h x rule: push_heap.induct)
  case (1 key v h x)
  show ?case
  proof (cases "0 < h \<and> key x < key (v ! parent h)")
    case True
    with heap_but_up [OF "1.prems"] "1.IH" show ?thesis
      by (subst push_heap.simps) simp
  next
    case False
    with heap_but_fill [OF "1.prems" False] show ?thesis
      by (simp only: push_heap.simps [of key v h x] if_not_P [OF False] if_False)
  qed
qed

lemma mset_push_heap:
  "h < length v \<Longrightarrow> mset (push_heap key v h x) = mset (v[h := x])"
proof (induction key v h x rule: push_heap.induct)
  case (1 key v h x)
  show ?case
  proof (cases "0 < h \<and> key x < key (v ! parent h)")
    case True
    then have "parent h < h" by auto
    with True "1.prems" "1.IH" show ?thesis
      by (subst push_heap.simps) (simp add: mset_update_swap)
  next
    case False
    then show ?thesis by (subst push_heap.simps) auto
  qed
qed

lemma length_push_heap [simp]: "length (push_heap key v h x) = length v"
  by (induction key v h x rule: push_heap.induct) (subst push_heap.simps, auto)


section \<open>Moving the hole down\<close>

lemma heap_but_down:
  assumes inv: "heap_but key v h" and c: "c < length v" "0 < c" "parent c = h"
    and min: "\<And>i. i < length v \<Longrightarrow> 0 < i \<Longrightarrow> parent i = h \<Longrightarrow> key (v ! c) \<le> key (v ! i)"
  shows "heap_but key (v[h := v ! c]) c"
proof -
  have hc: "h < c" using c by auto
  have edge: "key (v ! parent i) \<le> key (v ! i)"
    if "i < length v" "0 < i" "i \<noteq> h" "parent i \<noteq> h" for i
    using inv that by (simp add: heap_but_def)
  have grand: "key (v ! parent h) \<le> key (v ! c)" if "0 < h"
    using inv c that by (simp add: heap_but_def)
  show ?thesis
    unfolding heap_but_def
  proof (intro conjI allI impI)
    show "c < length (v[h := v ! c])" using c by simp
  next
    fix i assume i: "i < length (v[h := v ! c])" "0 < i" "i \<noteq> c" "parent i \<noteq> c"
    have "parent h \<noteq> h" if "0 < h" using that by auto
    then show "key (v[h := v ! c] ! parent i) \<le> key (v[h := v ! c] ! i)"
      using i edge [of i] grand min [of i] hc c
      by (cases "i = h"; cases "parent i = h") (auto simp: nth_list_update)
  next
    fix i assume i: "i < length (v[h := v ! c])" "0 < i" "parent i = c" "0 < c"
    have "i \<noteq> h" using i hc by auto
    then show "key (v[h := v ! c] ! parent c) \<le> key (v[h := v ! c] ! i)"
      using i edge [of i] hc c by (auto simp: nth_list_update)
  qed
qed

lemma children: "parent i = h \<Longrightarrow> 0 < i \<Longrightarrow> i = 2 * h + 1 \<or> i = 2 * h + 2"
  by arith

lemma adjust_heap_spec:
  assumes "heap_but key v h" "adjust_heap key v h = (w, g)"
  shows "heap_but key w g \<and> below_hole key w g x \<and> mset (w[g := x]) = mset (v[h := x])
    \<and> length w = length v"
  using assms
proof (induction key v h arbitrary: w g rule: adjust_heap.induct)
  case (1 key v h)
  let ?r = "2 * (h + 1)"
  let ?c = "if key (v ! (?r - 1)) < key (v ! ?r) then ?r - 1 else ?r"
  have h: "h < length v" using "1.prems" by (simp add: heap_but_def)
  consider (two) "h < (length v - 1) div 2"
    | (one) "\<not> h < (length v - 1) div 2" "even (length v)" "h = (length v - 2) div 2"
    | (none) "\<not> h < (length v - 1) div 2" "\<not> (even (length v) \<and> h = (length v - 2) div 2)"
    by blast
  then show ?case
  proof cases
    case two
    have c: "?c < length v" "0 < ?c" "parent ?c = h" "h \<noteq> ?c" using two by auto
    have min: "key (v ! ?c) \<le> key (v ! i)" if "i < length v" "0 < i" "parent i = h" for i
      using children [OF that(3,2)] by auto
    have inv: "heap_but key (v[h := v ! ?c]) ?c"
      using heap_but_down [OF "1.prems"(1) c(1-3) min] by blast
    have step: "adjust_heap key (v[h := v ! ?c]) ?c = (w, g)"
      using "1.prems"(2) by (simp only: adjust_heap.simps [of key v h] Let_def if_P [OF two])
    note ih = "1.IH" [OF two refl refl inv step]
    have "mset (v[h := v ! ?c, ?c := x]) = mset (v[h := x])"
      using mset_update_swap [OF h c(1,4)] .
    with ih show ?thesis by simp
  next
    case one
    let ?d = "?r - 1"
    have len: "length v = ?r" using one h by presburger
    have cond: "even (length v) \<and> 0 < length v \<and> h = (length v - 2) div 2"
      using one h by linarith
    have c: "?d < length v" "0 < ?d" "parent ?d = h" "h \<noteq> ?d" using len by auto
    have min: "key (v ! ?d) \<le> key (v ! i)" if "i < length v" "0 < i" "parent i = h" for i
    proof -
      have "i = ?d" using children [OF that(3,2)] that(1) len by auto
      then show ?thesis by simp
    qed
    have wg: "w = v[h := v ! ?d]" "g = ?d"
      using "1.prems"(2) unfolding adjust_heap.simps [of key v h] if_not_P [OF one(1)] if_P [OF cond]
      by blast+
    have "below_hole key w g x"
      using len wg by (auto simp: below_hole_def dest!: children)
    with heap_but_down [OF "1.prems"(1) c(1-3) min] mset_update_swap [OF h c(1,4), of x] wg
    show ?thesis by simp
  next
    case none
    have wg: "w = v" "g = h"
      using "1.prems"(2) none
      by (simp_all only: adjust_heap.simps [of key v h] if_not_P [OF none(1)])
        (auto split: if_splits)
    have "2 * h + 1 \<ge> length v" using none h by (cases "even (length v)") (auto elim!: evenE oddE)
    then have "below_hole key v h x" by (auto simp: below_hole_def dest!: children)
    with wg "1.prems"(1) show ?thesis by simp
  qed
qed

section \<open>The laws of the queue\<close>

lemma pq_push_heap: "is_heap key v \<Longrightarrow> is_heap key (pq_push key x v)"
proof -
  assume v: "is_heap key v"
  have "heap_but key (v @ [x]) (length v)"
    using v by (auto simp: is_heap_def heap_but_def nth_append)
  moreover have "below_hole key (v @ [x]) (length v) x"
    by (auto simp: below_hole_def)
  ultimately show ?thesis
    unfolding pq_push_def by (rule push_heap_is_heap)
qed

lemma mset_pq_push: "mset (pq_push key x v) = add_mset x (mset v)"
  by (simp add: pq_push_def mset_push_heap)

lemma is_heap_butlast: "is_heap key v \<Longrightarrow> is_heap key (butlast v)"
  by (auto simp: is_heap_def nth_butlast)

lemma heap_but_root: "is_heap key v \<Longrightarrow> v \<noteq> [] \<Longrightarrow> heap_but key v 0"
  by (auto simp: is_heap_def heap_but_def)

lemma pq_pop_spec:
  assumes "is_heap key v" "v \<noteq> []"
  shows "is_heap key (pq_pop key v) \<and> add_mset (pq_top v) (mset (pq_pop key v)) = mset v"
proof (cases "length v \<le> 1")
  case True
  with assms show ?thesis
    by (cases v) (auto simp: pq_pop_def pq_top_def is_heap_def)
next
  case False
  obtain w g where wg: "adjust_heap key (butlast v) 0 = (w, g)" by force
  have ne: "butlast v \<noteq> []" using False by (cases v) auto
  note spec = adjust_heap_spec [OF heap_but_root [OF is_heap_butlast [OF assms(1)] ne] wg,
      of "last v"]
  have pop: "pq_pop key v = push_heap key w g (last v)"
    using False wg by (simp add: pq_pop_def)
  have g: "g < length w" using spec by (simp add: heap_but_def)
  obtain y ys where v: "v = y # ys" "ys \<noteq> []" using False by (cases v) auto
  have "mset (butlast v) = add_mset y (mset (butlast ys))" using v by simp
  moreover have "mset ys = add_mset (last ys) (mset (butlast ys))"
    using v by (metis append_butlast_last_id mset.simps(2) mset_append union_mset_add_mset_right
        mset.simps(1) add_0_right)
  ultimately have "add_mset y (mset ((butlast v)[0 := last v])) = mset v"
    using v by simp
  with spec g pop v show ?thesis
    by (simp add: push_heap_is_heap mset_push_heap pq_top_def)
qed

lemma heap_top_least:
  assumes "is_heap key v" "i < length v"
  shows "key (v ! 0) \<le> key (v ! i)"
  using assms(2)
proof (induction i rule: less_induct)
  case (less i)
  show ?case
  proof (cases "i = 0")
    case False
    then have "key (v ! parent i) \<le> key (v ! i)" "parent i < i"
      using assms(1) less.prems by (auto simp: is_heap_def)
    with less.IH [of "parent i"] less.prems show ?thesis by simp
  qed simp
qed

section \<open>The interface the clients use\<close>

text \<open>
  What the clients may assume of a queue: pushing adds an element, popping removes the top, and
  the top has a least key.  \<open>served\<close> says that a list of elements is what repeated \<open>first\<close> and
  \<open>pop\<close> calls deliver.
\<close>

fun served :: "('q \<Rightarrow> 'a) \<Rightarrow> ('q \<Rightarrow> 'q) \<Rightarrow> ('q \<Rightarrow> 'a multiset) \<Rightarrow> 'a list \<Rightarrow> 'q \<Rightarrow> 'q \<Rightarrow> bool" where
  "served first pop elems [] q q' \<longleftrightarrow> q = q'"
| "served first pop elems (x # xs) q q' \<longleftrightarrow>
     elems q \<noteq> {#} \<and> x = first q \<and> served first pop elems xs (pop q) q'"

locale priority_queue =
  fixes key :: "'a \<Rightarrow> 'k::linorder"
    and push :: "'a \<Rightarrow> 'q \<Rightarrow> 'q"
    and first :: "'q \<Rightarrow> 'a"
    and pop :: "'q \<Rightarrow> 'q"
    and elems :: "'q \<Rightarrow> 'a multiset"
    and inv :: "'q \<Rightarrow> bool"
  assumes inv_push: "inv q \<Longrightarrow> inv (push x q)"
    and elems_push: "inv q \<Longrightarrow> elems (push x q) = add_mset x (elems q)"
    and inv_pop: "inv q \<Longrightarrow> elems q \<noteq> {#} \<Longrightarrow> inv (pop q)"
    and elems_pop: "inv q \<Longrightarrow> elems q \<noteq> {#} \<Longrightarrow> add_mset (first q) (elems (pop q)) = elems q"
    and top_least: "inv q \<Longrightarrow> x \<in># elems q \<Longrightarrow> key (first q) \<le> key x"
begin

lemma served_inv: "served first pop elems xs q q' \<Longrightarrow> inv q \<Longrightarrow> inv q'"
  by (induction xs arbitrary: q) (auto intro: inv_pop)

lemma served_elems: "served first pop elems xs q q' \<Longrightarrow> inv q \<Longrightarrow> elems q = mset xs + elems q'"
proof (induction xs arbitrary: q)
  case (Cons x xs)
  then have "elems (pop q) = mset xs + elems q'" by (auto intro: inv_pop)
  with Cons.prems elems_pop [of q] show ?case by auto
qed simp

lemma served_least:
  "served first pop elems xs q q' \<Longrightarrow> inv q \<Longrightarrow> x \<in> set xs \<Longrightarrow> y \<in># elems q' \<Longrightarrow> key x \<le> key y"
proof (induction xs arbitrary: q)
  case (Cons z xs)
  have "y \<in># elems q" using served_elems [OF Cons.prems(1,2)] Cons.prems(4) by simp
  with Cons top_least [of q y] show ?case by (auto intro: inv_pop)
qed simp

lemma served_sorted: "served first pop elems xs q q' \<Longrightarrow> inv q \<Longrightarrow> sorted (map key xs)"
proof (induction xs arbitrary: q)
  case (Cons z xs)
  have "key z \<le> key y" if "y \<in> set xs" for y
    using served_elems [OF Cons.prems(1,2)] Cons.prems that top_least [of q y] by auto
  with Cons show ?case by (auto intro: inv_pop)
qed simp

end

interpretation heap: priority_queue key "pq_push key" pq_top "pq_pop key" mset "is_heap key"
  for key :: "'a \<Rightarrow> 'k::linorder"
proof unfold_locales
  fix q :: "'a list" and x
  assume q: "is_heap key q" and x: "x \<in># mset q"
  then obtain i where "i < length q" "x = q ! i" by (auto simp: in_set_conv_nth)
  with heap_top_least [OF q] show "key (pq_top q) \<le> key x" by (simp add: pq_top_def)
qed (use pq_pop_spec in \<open>auto simp: pq_push_heap mset_pq_push\<close>)

section \<open>Draining loops\<close>

text \<open>
  The loops \<open>while (pq.size() > 0) { if (stop) break; ... pq.pop(); ... }\<close> of
  \<open>Cache::process\<close>, \<open>SimpleDRAM::process\<close> and \<open>DMAEngine::cycle\<close> do not touch the queue in
  their bodies.  \<open>pq_drain\<close> is their skeleton: the elements popped, in order, and the queue that
  is left.  The exit test sees how many elements were popped before.
\<close>

lemma length_pq_pop: "v \<noteq> [] \<Longrightarrow> length (pq_pop key v) < length v"
proof -
  assume v: "v \<noteq> []"
  have len: "length (fst (adjust_heap key w h)) = length w" for w :: "'a list" and h
    by (induction key w h rule: adjust_heap.induct)
      (subst adjust_heap.simps, simp add: Let_def)
  show ?thesis
  proof (cases "length v \<le> 1")
    case False
    then show ?thesis
      using len [of "butlast v" 0]
      by (cases "adjust_heap key (butlast v) 0") (simp add: pq_pop_def)
  qed (use v in \<open>simp add: pq_pop_def\<close>)
qed

function pq_drain ::
    "('a \<Rightarrow> 'k::linorder) \<Rightarrow> (nat \<Rightarrow> 'a \<Rightarrow> bool) \<Rightarrow> nat \<Rightarrow> 'a list \<Rightarrow> 'a list \<times> 'a list" where
  "pq_drain key stop n v =
     (if v = [] \<or> stop n (pq_top v) then ([], v)
      else map_prod ((#) (pq_top v)) id (pq_drain key stop (Suc n) (pq_pop key v)))"
  by pat_completeness auto
termination
  by (relation "measure (\<lambda>(key, stop, n, v). length v)") (auto simp: length_pq_pop)

declare pq_drain.simps [simp del]

lemma pq_drain_served:
  "pq_drain key stop n v = (xs, w) \<Longrightarrow> served pq_top (pq_pop key) mset xs v w"
proof (induction key stop n v arbitrary: xs w rule: pq_drain.induct)
  case (1 key stop n v)
  then show ?case
    by (subst (asm) (2) pq_drain.simps) (auto simp: map_prod_def split: if_splits prod.splits)
qed

lemma pq_drain_exit:
  "pq_drain key stop n v = (xs, w) \<Longrightarrow> w = [] \<or> stop (n + length xs) (pq_top w)"
proof (induction key stop n v arbitrary: xs w rule: pq_drain.induct)
  case (1 key stop n v)
  then show ?case
    by (subst (asm) (2) pq_drain.simps) (fastforce simp: map_prod_def split: if_splits prod.splits)
qed

lemma pq_drain_continue:
  "pq_drain key stop n v = (xs, w) \<Longrightarrow> i < length xs \<Longrightarrow> \<not> stop (n + i) (xs ! i)"
proof (induction key stop n v arbitrary: xs w i rule: pq_drain.induct)
  case (1 key stop n v)
  show ?case
  proof (cases "v = [] \<or> stop n (pq_top v)")
    case True
    with "1.prems" show ?thesis by (simp add: pq_drain.simps [of key stop n v])
  next
    case False
    then obtain ys where ys: "pq_drain key stop (Suc n) (pq_pop key v) = (ys, w)"
      "xs = pq_top v # ys"
      using "1.prems" by (auto simp: pq_drain.simps [of key stop n v] map_prod_def split: prod.splits)
    show ?thesis
      using "1.IH" [OF False ys(1)] ys(2) "1.prems"(2) False by (cases i) auto
  qed
qed

lemmas pq_drain_inv = heap.served_inv [OF pq_drain_served]
lemmas pq_drain_elems = heap.served_elems [OF pq_drain_served]
lemmas pq_drain_least = heap.served_least [OF pq_drain_served]
lemmas pq_drain_sorted = heap.served_sorted [OF pq_drain_served]

declare pq_push_heap [pq_simps] mset_pq_push [pq_simps]

lemma is_heap_Nil [simp]: "is_heap key []"
  by (simp add: is_heap_def)

lemma set_pq_push [pq_simps]: "set (pq_push key x v) = insert x (set v)"
  using mset_pq_push [of key x v] by (metis set_mset_add_mset_insert set_mset_mset)

lemma pq_drain_due:
  assumes "is_heap key v" "pq_drain key (\<lambda>_ x. now < key x) n v = (xs, w)"
  shows "mset xs = filter_mset (\<lambda>x. key x \<le> now) (mset v)"
    and "mset w = filter_mset (\<lambda>x. now < key x) (mset v)"
proof -
  have v: "mset v = mset xs + mset w" using pq_drain_elems [OF assms(2,1)] .
  have xs: "\<forall>x\<in>#mset xs. key x \<le> now"
    using pq_drain_continue [OF assms(2)] by (auto simp: in_set_conv_nth not_less)
  have w: "\<forall>x\<in>#mset w. now < key x"
    using pq_drain_exit [OF assms(2)] heap.top_least [OF pq_drain_inv [OF assms(2,1)]]
    by (fastforce intro: less_le_trans)
  have a: "filter_mset (\<lambda>x. key x \<le> now) (mset xs) = mset xs"
    "filter_mset (\<lambda>x. key x \<le> now) (mset w) = {#}"
    "filter_mset (\<lambda>x. now < key x) (mset xs) = {#}"
    "filter_mset (\<lambda>x. now < key x) (mset w) = mset w"
    using xs w by (auto simp: filter_mset_eq_conv filter_mset_eq_mempty_iff not_less not_le)
  show "mset xs = filter_mset (\<lambda>x. key x \<le> now) (mset v)"
    "mset w = filter_mset (\<lambda>x. now < key x) (mset v)"
    using a v by simp_all
qed

end
