(* ===== verification/CacheSet.thy ===== *)
theory CacheSet
  imports Prelude
begin

text \<open>
  \<open>CacheSet\<close> of \<open>sim/src/mem/FunctionalCache.cpp\<close> and \<open>sim/include/mem/FunctionalCache.hpp\<close>, one set
  of the tag store behind every cache level.  A \<open>CacheSet\<close> is a doubly linked list of lines between the sentinels
  \<open>head\<close> (most recent) and \<open>tail\<close>, a vector of free lines and a map from tags to lines.

  Pointers are node numbers: \<open>0 .. associativity - 1\<close> are the entries, the next two the
  sentinels; \<open>None\<close> is \<open>NULL\<close>.  A dereference of \<open>NULL\<close> and a failed \<open>assert\<close> make an operation
  return \<open>None\<close>.  The abstract set is the list of lines, most recently used first; \<open>represents\<close>
  relates the two and the refinement lemmas show each pointer operation implements the list
  operation and never aborts.
\<close>

section \<open>Cache lines and sets\<close>

record cache_line =
  cl_addr :: u64
  cl_offset :: u64
  cl_setid :: u64
  cl_prev :: "nat option"
  cl_next :: "nat option"
  cl_nodeId :: int
  cl_numAccesses :: int
  cl_rrpv :: int
  cl_dirty :: bool

record cache_set =
  cs_head :: nat
  cs_tail :: nat
  cs_nodes :: "nat \<Rightarrow> cache_line"
  cs_free :: "nat list"
  cs_map :: "u64 \<rightharpoonup> nat"
  cs_assoc :: nat
  cs_log_linesize :: nat

definition blank_line :: cache_line where
  "blank_line = \<lparr>cl_addr = 0, cl_offset = 0, cl_setid = 0, cl_prev = None, cl_next = None,
     cl_nodeId = 0, cl_numAccesses = 0, cl_rrpv = 0, cl_dirty = False\<rparr>"

definition new_cache_set :: "nat \<Rightarrow> nat \<Rightarrow> cache_set" where
  "new_cache_set ways line_size =
     \<lparr>cs_head = ways, cs_tail = ways + 1,
      cs_nodes = (\<lambda>_. blank_line)
        (ways := blank_line\<lparr>cl_next := Some (ways + 1)\<rparr>,
         ways + 1 := blank_line\<lparr>cl_prev := Some ways\<rparr>),
      cs_free = [0..<ways], cs_map = Map.empty,
      cs_assoc = ways, cs_log_linesize = ilog2 line_size\<rparr>"

definition upd_node :: "nat \<Rightarrow> (cache_line \<Rightarrow> cache_line) \<Rightarrow> cache_set \<Rightarrow> cache_set" where
  "upd_node i f s = s\<lparr>cs_nodes := (cs_nodes s)(i := f (cs_nodes s i))\<rparr>"

definition insertFront :: "nat \<Rightarrow> nat \<Rightarrow> cache_set \<Rightarrow> cache_set option" where
  "insertFront c h s =
     (let s1 = upd_node c (cl_next_update (\<lambda>_. cl_next (cs_nodes s h))) s;
          s2 = upd_node c (cl_prev_update (\<lambda>_. Some h)) s1;
          s3 = upd_node h (cl_next_update (\<lambda>_. Some c)) s2
      in do { n \<leftarrow> cl_next (cs_nodes s3 c);
              Some (upd_node n (cl_prev_update (\<lambda>_. Some c)) s3) })"

definition deleteNode :: "nat \<Rightarrow> cache_set \<Rightarrow> cache_set option" where
  "deleteNode c s =
     do { p \<leftarrow> cl_prev (cs_nodes s c);
          let s1 = upd_node p (cl_next_update (\<lambda>_. cl_next (cs_nodes s c))) s;
          n \<leftarrow> cl_next (cs_nodes s1 c);
          Some (upd_node n (cl_prev_update (\<lambda>_. cl_prev (cs_nodes s1 c))) s1) }"

definition touch :: "u64 \<Rightarrow> int \<Rightarrow> bool \<Rightarrow> cache_line \<Rightarrow> cache_line" where
  "touch offset nodeId isLoad c =
     (if isLoad then c else c\<lparr>cl_dirty := True\<rparr>)
       \<lparr>cl_offset := offset, cl_nodeId := nodeId, cl_numAccesses := cl_numAccesses c + 1,
        cl_rrpv := 0\<rparr>"

definition cset_access ::
    "u64 \<Rightarrow> u64 \<Rightarrow> int \<Rightarrow> bool \<Rightarrow> cache_set \<Rightarrow> (bool \<times> cache_set) option" where
  "cset_access address offset nodeId isLoad s =
     (case cs_map s address of
        None \<Rightarrow> Some (False, s)
      | Some c \<Rightarrow>
          do { s1 \<leftarrow> deleteNode c s;
               s2 \<leftarrow> insertFront c (cs_head s1) s1;
               Some (True, upd_node c (touch offset nodeId isLoad) s2) })"

definition cset_present :: "u64 \<Rightarrow> cache_set \<Rightarrow> bool" where
  "cset_present address s \<longleftrightarrow> cs_map s address \<noteq> None"

definition cset_invalidate :: "u64 \<Rightarrow> cache_set \<Rightarrow> (bool \<times> cache_set) option" where
  "cset_invalidate address s =
     do { c \<leftarrow> cs_map s address;
          let s1 = s\<lparr>cs_map := (cs_map s)(cl_addr (cs_nodes s c) := None)\<rparr>;
          s2 \<leftarrow> deleteNode c s1;
          let s3 = s2\<lparr>cs_free := cs_free s2 @ [c]\<rparr>;
          Some (cl_dirty (cs_nodes s3 c), s3) }"

text \<open>The out-parameters of \<open>CacheSet::insert\<close>, written when a line was evicted.\<close>

record evicted =
  ev_addr :: u64
  ev_offset :: u64
  ev_nodeId :: int
  ev_setid :: u64
  ev_dirty :: bool

definition evicted_of :: "cache_line \<Rightarrow> evicted" where
  "evicted_of c = \<lparr>ev_addr = cl_addr c, ev_offset = cl_offset c, ev_nodeId = cl_nodeId c,
     ev_setid = cl_setid c, ev_dirty = cl_dirty c\<rparr>"

definition fill_line ::
    "u64 \<Rightarrow> u64 \<Rightarrow> u64 \<Rightarrow> int \<Rightarrow> bool \<Rightarrow> cache_line \<Rightarrow> cache_line" where
  "fill_line address offset setid nodeId isLoad c =
     c\<lparr>cl_addr := address, cl_offset := offset, cl_nodeId := nodeId, cl_numAccesses := 1,
       cl_rrpv := 2, cl_setid := setid, cl_dirty := (\<not> isLoad)\<rparr>"

text \<open>The line \<open>insert\<close> writes into: a free one, or the last of the list, unlinked.\<close>

definition take_line :: "cache_set \<Rightarrow> (evicted option \<times> nat \<times> cache_set) option" where
  "take_line s =
     (if cs_free s = []
      then do { c \<leftarrow> cl_prev (cs_nodes s (cs_tail s));
                assert_that (c \<noteq> cs_head s);
                let s1 = s\<lparr>cs_map := (cs_map s)(cl_addr (cs_nodes s c) := None)\<rparr>;
                s2 \<leftarrow> deleteNode c s1;
                Some (Some (evicted_of (cs_nodes s2 c)), c, s2) }
      else Some (None, last (cs_free s), s\<lparr>cs_free := butlast (cs_free s)\<rparr>))"

definition cset_insert ::
    "u64 \<Rightarrow> u64 \<Rightarrow> u64 \<Rightarrow> int \<Rightarrow> bool \<Rightarrow> cache_set \<Rightarrow> (evicted option \<times> cache_set) option" where
  "cset_insert address offset setid nodeId isLoad s =
     do { (ev, c, s1) \<leftarrow> take_line s;
          let s2 = upd_node c (fill_line address offset setid nodeId isLoad) s1;
          let s3 = s2\<lparr>cs_map := (cs_map s2)(address \<mapsto> c)\<rparr>;
          s4 \<leftarrow> insertFront c (cs_head s3) s3;
          Some (ev, s4) }"

text \<open>\<open>CacheSet::evict\<close>: the flag is true only when a dirty line was dropped.\<close>

definition cset_evict :: "u64 \<Rightarrow> cache_set \<Rightarrow> (bool \<times> cache_set) option" where
  "cset_evict address s =
     (case cs_map s address of
        None \<Rightarrow> Some (False, s)
      | Some c \<Rightarrow>
          do { s2 \<leftarrow> deleteNode c (s\<lparr>cs_map := (cs_map s)(address := None)\<rparr>);
               let s3 = s2\<lparr>cs_free := cs_free s2 @ [c]\<rparr>;
               Some (cl_dirty (cs_nodes s3 c), s3) })"

section \<open>The abstract set: lines in order of use\<close>

definition plain :: "cache_line \<Rightarrow> cache_line" where
  "plain c = c\<lparr>cl_prev := None, cl_next := None\<rparr>"

definition tags :: "cache_line list \<Rightarrow> u64 list" where
  "tags = map cl_addr"

text \<open>
  What the set promises, stated on its own, with none of the functions of the code: the contents
  of a line that was just used, of a line that was just filled, and of the report on a dropped one.
\<close>

definition used_line :: "u64 \<Rightarrow> int \<Rightarrow> bool \<Rightarrow> cache_line \<Rightarrow> cache_line" where
  "used_line offset nodeId isLoad l =
     l\<lparr>cl_offset := offset, cl_nodeId := nodeId, cl_numAccesses := cl_numAccesses l + 1,
       cl_rrpv := 0, cl_dirty := (cl_dirty l \<or> \<not> isLoad)\<rparr>"

definition fresh_line :: "u64 \<Rightarrow> u64 \<Rightarrow> u64 \<Rightarrow> int \<Rightarrow> bool \<Rightarrow> cache_line" where
  "fresh_line t off sid n ld = \<lparr>cl_addr = t, cl_offset = off, cl_setid = sid, cl_prev = None,
     cl_next = None, cl_nodeId = n, cl_numAccesses = 1, cl_rrpv = 2, cl_dirty = (\<not> ld)\<rparr>"

definition drop_report :: "cache_line \<Rightarrow> evicted" where
  "drop_report l = \<lparr>ev_addr = cl_addr l, ev_offset = cl_offset l, ev_nodeId = cl_nodeId l,
     ev_setid = cl_setid l, ev_dirty = cl_dirty l\<rparr>"

definition lru_access ::
    "u64 \<Rightarrow> u64 \<Rightarrow> int \<Rightarrow> bool \<Rightarrow> cache_line list \<Rightarrow> bool \<times> cache_line list" where
  "lru_access address offset nodeId isLoad ls =
     (case find (\<lambda>l. cl_addr l = address) ls of
        None \<Rightarrow> (False, ls)
      | Some l \<Rightarrow> (True, used_line offset nodeId isLoad l # filter (\<lambda>l. cl_addr l \<noteq> address) ls))"

definition lru_insert ::
    "nat \<Rightarrow> cache_line \<Rightarrow> cache_line list \<Rightarrow> evicted option \<times> cache_line list" where
  "lru_insert capacity l ls =
     (if length ls < capacity then (None, l # ls)
      else (Some (drop_report (last ls)), l # butlast ls))"

definition lru_remove :: "u64 \<Rightarrow> cache_line list \<Rightarrow> cache_line list" where
  "lru_remove address ls = filter (\<lambda>l. cl_addr l \<noteq> address) ls"

section \<open>Linked paths\<close>

fun linked :: "(nat \<Rightarrow> cache_line) \<Rightarrow> nat list \<Rightarrow> bool" where
  "linked N [] \<longleftrightarrow> True"
| "linked N [x] \<longleftrightarrow> True"
| "linked N (x # y # zs) \<longleftrightarrow> cl_next (N x) = Some y \<and> cl_prev (N y) = Some x \<and> linked N (y # zs)"

lemma linked_append:
  "linked N (xs @ y # ys) \<longleftrightarrow> linked N (xs @ [y]) \<and> linked N (y # ys)"
proof (induction xs)
  case (Cons x xs)
  then show ?case by (cases xs) auto
qed simp

lemma linked_cong:
  assumes "\<And>x. x \<in> set (butlast xs) \<Longrightarrow> cl_next (M x) = cl_next (N x)"
    and "\<And>x. x \<in> set (tl xs) \<Longrightarrow> cl_prev (M x) = cl_prev (N x)"
  shows "linked M xs = linked N xs"
  using assms
proof (induction N xs rule: linked.induct)
  case (3 N x y zs)
  then have "linked M (y # zs) = linked N (y # zs)" by (cases zs) auto
  with 3 show ?case by auto
qed auto

lemma linked_upd_other:
  assumes "x \<notin> set xs"
  shows "linked (N(x := c)) xs = linked N xs"
proof (rule linked_cong)
  fix y assume "y \<in> set (butlast xs)"
  then have "y \<in> set xs" by (rule in_set_butlastD)
  with assms show "cl_next ((N(x := c)) y) = cl_next (N y)" by auto
next
  fix y assume "y \<in> set (tl xs)"
  then have "y \<in> set xs" by (cases xs) auto
  with assms show "cl_prev ((N(x := c)) y) = cl_prev (N y)" by auto
qed

lemma linked_upd_next:
  "x \<notin> set (butlast xs) \<Longrightarrow> linked (N(x := cl_next_update f (N x))) xs = linked N xs"
  by (rule linked_cong) auto

lemma linked_upd_prev:
  "x \<notin> set (tl xs) \<Longrightarrow> linked (N(x := cl_prev_update f (N x))) xs = linked N xs"
  by (rule linked_cong) auto

lemma linked_snoc_next: "linked N (xs @ [x, y]) \<Longrightarrow> cl_next (N x) = Some y \<and> cl_prev (N y) = Some x"
  using linked_append [of N xs x "[y]"] by simp

definition path :: "cache_set \<Rightarrow> nat list \<Rightarrow> nat list" where
  "path s xs = cs_head s # xs @ [cs_tail s]"

text \<open>
  The shape of a set whose lines are \<open>xs\<close> in list order: the links form the path, the entries
  are split between the list and the free vector, and the map finds exactly the listed lines.
\<close>

definition shape :: "cache_set \<Rightarrow> nat list \<Rightarrow> bool" where
  "shape s xs \<longleftrightarrow> linked (cs_nodes s) (path s xs) \<and> distinct (path s xs @ cs_free s) \<and>
     set (xs @ cs_free s) = {0..<cs_assoc s}"

definition mapped :: "cache_set \<Rightarrow> nat list \<Rightarrow> bool" where
  "mapped s xs \<longleftrightarrow> (\<forall>t i. cs_map s t = Some i \<longleftrightarrow> i \<in> set xs \<and> cl_addr (cs_nodes s i) = t)"

definition lines :: "cache_set \<Rightarrow> nat list \<Rightarrow> cache_line list" where
  "lines s xs = map (\<lambda>i. plain (cs_nodes s i)) xs"

definition represents :: "cache_set \<Rightarrow> cache_line list \<Rightarrow> bool" where
  "represents s ls \<longleftrightarrow> (\<exists>xs. shape s xs \<and> mapped s xs \<and> ls = lines s xs)"

lemma upd_node_simps [cset_simps]:
  "cs_head (upd_node i f s) = cs_head s"
  "cs_tail (upd_node i f s) = cs_tail s"
  "cs_free (upd_node i f s) = cs_free s"
  "cs_map (upd_node i f s) = cs_map s"
  "cs_assoc (upd_node i f s) = cs_assoc s"
  "cs_nodes (upd_node i f s) = (cs_nodes s)(i := f (cs_nodes s i))"
  by (simp_all add: upd_node_def)

lemma plain_link [cset_simps, simp]:
  "plain (cl_next_update f c) = plain c"
  "plain (cl_prev_update f c) = plain c"
  "cl_addr (plain c) = cl_addr c"
  by (simp_all add: plain_def)

text \<open>Unlinking and linking a node change links only.\<close>

definition same_data :: "cache_set \<Rightarrow> cache_set \<Rightarrow> bool" where
  "same_data s s' \<longleftrightarrow> (\<forall>i. plain (cs_nodes s' i) = plain (cs_nodes s i)) \<and>
     cs_head s' = cs_head s \<and> cs_tail s' = cs_tail s \<and> cs_free s' = cs_free s \<and>
     cs_map s' = cs_map s \<and> cs_assoc s' = cs_assoc s"

lemma same_data_addr: "same_data s s' \<Longrightarrow> cl_addr (cs_nodes s' i) = cl_addr (cs_nodes s i)"
  unfolding same_data_def by (metis plain_link(3))

lemma deleteNode_linked:
  assumes "linked (cs_nodes s) (as @ p # c # n # bs)" "distinct (as @ p # c # n # bs)"
  shows "\<exists>s'. deleteNode c s = Some s' \<and> linked (cs_nodes s') (as @ p # n # bs) \<and> same_data s s'"
proof -
  let ?N = "cs_nodes s"
  let ?N1 = "?N(p := cl_next_update (\<lambda>_. Some n) (?N p))"
  let ?M = "?N1(n := cl_prev_update (\<lambda>_. Some p) (?N1 n))"
  have links: "cl_prev (?N c) = Some p" "cl_next (?N c) = Some n"
    "linked ?N (as @ [p])" "linked ?N (n # bs)"
    using assms(1) unfolding linked_append [of ?N as p "c # n # bs"] by simp_all
  have ne: "p \<noteq> n" "p \<noteq> c" "c \<noteq> n" "n \<notin> set (as @ [p])" "p \<notin> set as" "p \<notin> set (n # bs)"
    "n \<notin> set bs"
    using assms(2) by auto
  have "linked ?M (as @ [p])"
    using links(3) ne by (simp only: linked_upd_other linked_upd_next butlast_snoc not_False_eq_True)
  moreover have "linked ?M (n # bs)"
    using links(4) ne by (simp only: linked_upd_other linked_upd_prev list.sel not_False_eq_True)
  ultimately have "linked ?M (as @ p # n # bs)"
    using ne unfolding linked_append [of ?M as p "n # bs"] by simp
  moreover have "deleteNode c s = Some (s\<lparr>cs_nodes := ?M\<rparr>)"
    using links ne by (simp add: deleteNode_def upd_node_def)
  moreover have "same_data s (s\<lparr>cs_nodes := ?M\<rparr>)"
    by (simp add: same_data_def)
  ultimately show ?thesis by auto
qed

lemma insertFront_linked:
  assumes "linked (cs_nodes s) (h # n # bs)" "distinct (c # h # n # bs)"
  shows "\<exists>s'. insertFront c h s = Some s' \<and> linked (cs_nodes s') (h # c # n # bs) \<and> same_data s s'"
proof -
  let ?N = "cs_nodes s"
  let ?N1 = "?N(c := cl_prev_update (\<lambda>_. Some h) (cl_next_update (\<lambda>_. Some n) (?N c)))"
  let ?N2 = "?N1(h := cl_next_update (\<lambda>_. Some c) (?N1 h))"
  let ?M = "?N2(n := cl_prev_update (\<lambda>_. Some c) (?N2 n))"
  have links: "cl_next (?N h) = Some n" "linked ?N (n # bs)" using assms(1) by auto
  have ne: "c \<noteq> h" "c \<noteq> n" "h \<noteq> n" "c \<notin> set (n # bs)" "h \<notin> set (n # bs)" "n \<notin> set bs"
    using assms(2) by auto
  have "linked ?M (n # bs)"
    using links(2) ne by (simp only: linked_upd_other linked_upd_prev list.sel not_False_eq_True)
  then have "linked ?M (h # c # n # bs)" using ne by simp
  moreover have "insertFront c h s = Some (s\<lparr>cs_nodes := ?M\<rparr>)"
    using links(1) ne by (simp add: insertFront_def upd_node_def Let_def)
  moreover have "same_data s (s\<lparr>cs_nodes := ?M\<rparr>)"
    by (simp add: same_data_def)
  ultimately show ?thesis by auto
qed

section \<open>The pointer operations on a whole set\<close>

lemma same_data_trans: "same_data s s' \<Longrightarrow> same_data s' s'' \<Longrightarrow> same_data s s''"
  by (simp add: same_data_def)

lemma same_data_path: "same_data s s' \<Longrightarrow> path s' xs = path s xs"
  by (simp add: same_data_def path_def)

lemma same_data_lines: "same_data s s' \<Longrightarrow> lines s' xs = lines s xs"
  by (simp add: same_data_def lines_def)

lemma same_data_mapped: "same_data s s' \<Longrightarrow> set xs = set ys \<Longrightarrow> mapped s' xs = mapped s ys"
  using same_data_addr [of s s'] by (auto simp: mapped_def same_data_def)

lemma deleteNode_path:
  assumes "linked (cs_nodes s) (path s (as @ c # bs))" "distinct (path s (as @ c # bs))"
  shows "\<exists>s'. deleteNode c s = Some s' \<and> linked (cs_nodes s') (path s' (as @ bs)) \<and> same_data s s'"
proof -
  obtain A p where A: "cs_head s # as = A @ [p]" by (metis append_butlast_last_id list.distinct(1))
  obtain n B where B: "bs @ [cs_tail s] = n # B" by (cases "bs @ [cs_tail s]") auto
  have path: "path s (as @ c # bs) = A @ p # c # n # B"
    using A B unfolding path_def by (metis append_Cons append_assoc append_Nil)
  have "path s (as @ bs) = A @ p # n # B"
    using A B unfolding path_def by (metis append_Cons append_assoc append_Nil)
  with deleteNode_linked [OF assms [unfolded path]] show ?thesis
    by (metis same_data_path)
qed

lemma insertFront_path:
  assumes "linked (cs_nodes s) (path s xs)" "distinct (c # path s xs)"
  shows "\<exists>s'. insertFront c (cs_head s) s = Some s' \<and> linked (cs_nodes s') (path s' (c # xs))
    \<and> same_data s s'"
proof -
  obtain n B where B: "xs @ [cs_tail s] = n # B" by (cases "xs @ [cs_tail s]") auto
  then have path: "path s xs = cs_head s # n # B" "path s (c # xs) = cs_head s # c # n # B"
    by (simp_all add: path_def)
  from insertFront_linked [OF assms [unfolded path]] show ?thesis
    by (metis path(2) same_data_path)
qed

text \<open>Unlinking a line and linking it behind the head, as a hit does.\<close>

lemma move_to_front:
  assumes "shape s (as @ c # bs)"
  shows "\<exists>s1 s2. deleteNode c s = Some s1 \<and> insertFront c (cs_head s1) s1 = Some s2 \<and>
    shape s2 (c # as @ bs) \<and> same_data s s2"
proof -
  have d: "distinct (path s (as @ c # bs))" and l: "linked (cs_nodes s) (path s (as @ c # bs))"
    using assms by (simp_all add: shape_def)
  obtain s1 where s1: "deleteNode c s = Some s1" "linked (cs_nodes s1) (path s1 (as @ bs))"
      "same_data s s1"
    using deleteNode_path [OF l d] by blast
  have "distinct (c # path s1 (as @ bs))"
    using d same_data_path [OF s1(3)] by (auto simp: path_def)
  from insertFront_path [OF s1(2) this] obtain s2 where
    s2: "insertFront c (cs_head s1) s1 = Some s2" "linked (cs_nodes s2) (path s2 (c # as @ bs))"
      "same_data s1 s2" by blast
  have sd: "same_data s s2" using s1 s2 same_data_trans by blast
  moreover have "shape s2 (c # as @ bs)"
    using assms s2(2) sd by (auto simp: shape_def path_def same_data_def)
  ultimately show ?thesis using s1 s2 by blast
qed

lemma shape_upd_data:
  assumes "\<And>l. cl_next (f l) = cl_next l" "\<And>l. cl_prev (f l) = cl_prev l"
  shows "shape (upd_node c f s) xs = shape s xs"
proof -
  have "linked (cs_nodes (upd_node c f s)) ys = linked (cs_nodes s) ys" for ys
    by (rule linked_cong) (auto simp: cset_simps assms)
  then show ?thesis by (simp add: shape_def path_def cset_simps)
qed

lemma mapped_member: "mapped s xs \<Longrightarrow> cs_map s t = Some c \<Longrightarrow> c \<in> set xs \<and> cl_addr (cs_nodes s c) = t"
  by (simp add: mapped_def)

lemma mapped_inj:
  "mapped s xs \<Longrightarrow> i \<in> set xs \<Longrightarrow> j \<in> set xs \<Longrightarrow>
    cl_addr (cs_nodes s i) = cl_addr (cs_nodes s j) \<Longrightarrow> i = j"
  unfolding mapped_def by (metis option.inject)

lemma mapped_None: "mapped s xs \<Longrightarrow> cs_map s t = None \<longleftrightarrow> t \<notin> set (tags (lines s xs))"
proof -
  assume m: "mapped s xs"
  have "cs_map s t \<noteq> None \<longleftrightarrow> (\<exists>i\<in>set xs. cl_addr (cs_nodes s i) = t)"
    using m unfolding mapped_def by (metis not_Some_eq)
  then show ?thesis by (auto simp: tags_def lines_def)
qed

lemma mapped_split:
  assumes "mapped s (as @ c # bs)" "c \<notin> set as" "c \<notin> set bs"
  shows "find (\<lambda>l. cl_addr l = cl_addr (cs_nodes s c)) (lines s (as @ c # bs)) = Some (plain (cs_nodes s c))"
    and "filter (\<lambda>l. cl_addr l \<noteq> cl_addr (cs_nodes s c)) (lines s (as @ c # bs)) = lines s (as @ bs)"
proof -
  have ne: "cl_addr (cs_nodes s i) \<noteq> cl_addr (cs_nodes s c)" if "i \<in> set as \<or> i \<in> set bs" for i
    using mapped_inj [OF assms(1), of i c] that assms(2,3) by auto
  have "find (\<lambda>l. cl_addr l = cl_addr (cs_nodes s c)) (lines s xs @ plain (cs_nodes s c) # ys)
      = Some (plain (cs_nodes s c))" if "set xs \<subseteq> set as" for xs ys
    using that ne by (induction xs) (auto simp: lines_def)
  then show "find (\<lambda>l. cl_addr l = cl_addr (cs_nodes s c)) (lines s (as @ c # bs))
      = Some (plain (cs_nodes s c))"
    by (simp add: lines_def)
  show "filter (\<lambda>l. cl_addr l \<noteq> cl_addr (cs_nodes s c)) (lines s (as @ c # bs)) = lines s (as @ bs)"
    using ne by (auto simp: lines_def filter_map o_def filter_id_conv)
qed

section \<open>Refinement: every set operation implements its list operation\<close>

lemma plain_touch [simp]: "plain (touch off n ld c) = used_line off n ld (plain c)"
  by (simp add: plain_def touch_def used_line_def)

lemma touch_links [simp]:
  "cl_next (touch off n ld c) = cl_next c" "cl_prev (touch off n ld c) = cl_prev c"
  "cl_addr (touch off n ld c) = cl_addr c"
  by (simp_all add: touch_def)

lemma cset_access_refines:
  assumes "represents s ls"
  shows "\<exists>s'. cset_access t off n ld s = Some (fst (lru_access t off n ld ls), s') \<and>
    represents s' (snd (lru_access t off n ld ls)) \<and> cs_assoc s' = cs_assoc s"
proof -
  obtain xs where xs: "shape s xs" "mapped s xs" "ls = lines s xs"
    using assms by (auto simp: represents_def)
  show ?thesis
  proof (cases "cs_map s t")
    case None
    then have "find (\<lambda>l. cl_addr l = t) ls = None"
      using mapped_None [OF xs(2)] xs(3) by (auto simp: find_None_iff tags_def)
    with None assms show ?thesis by (simp add: cset_access_def lru_access_def)
  next
    case (Some c)
    then obtain as bs where c: "xs = as @ c # bs" and t: "t = cl_addr (cs_nodes s c)"
      using mapped_member [OF xs(2)] by (metis in_set_conv_decomp)
    then obtain s1 s2 where op: "deleteNode c s = Some s1" "insertFront c (cs_head s1) s1 = Some s2"
      and sh: "shape s2 (c # as @ bs)" and sd: "same_data s s2"
      using move_to_front xs(1) by blast
    have nin: "c \<notin> set as" "c \<notin> set bs" using xs(1) c by (auto simp: shape_def path_def)
    let ?s' = "upd_node c (touch off n ld) s2"
    have "shape ?s' (c # as @ bs)" using sh by (subst shape_upd_data) simp_all
    moreover have "mapped ?s' (c # as @ bs)"
      using xs(2) sd c same_data_mapped [of s s2 "c # as @ bs" xs]
      by (auto simp: mapped_def cset_simps)
    moreover have "lines ?s' (c # as @ bs) = snd (lru_access t off n ld ls)"
    proof -
      have "plain (cs_nodes s2 i) = plain (cs_nodes s i)" for i
        using sd by (simp add: same_data_def)
      then have "lines ?s' (c # as @ bs) = used_line off n ld (plain (cs_nodes s c)) # lines s (as @ bs)"
        using nin by (auto simp: lines_def cset_simps)
      then show ?thesis
        using mapped_split [OF xs(2)[unfolded c] nin] xs(3) c t by (simp add: lru_access_def)
    qed
    moreover have "fst (lru_access t off n ld ls) = True"
      using mapped_split(1) [OF xs(2)[unfolded c] nin] xs(3) c t by (simp add: lru_access_def)
    moreover have "cs_assoc ?s' = cs_assoc s" using sd by (simp add: same_data_def cset_simps)
    ultimately show ?thesis
      using Some op by (auto simp: cset_access_def represents_def)
  qed
qed

lemma plain_fill [simp]: "plain (fill_line t off sid n ld c) = fresh_line t off sid n ld"
  by (simp add: fresh_line_def fill_line_def plain_def)

lemma fill_line_links [simp]:
  "cl_next (fill_line t off sid n ld c) = cl_next c" "cl_prev (fill_line t off sid n ld c) = cl_prev c"
  "cl_addr (fill_line t off sid n ld c) = t"
  by (simp_all add: fill_line_def)

lemma fresh_line_addr [simp]: "cl_addr (fresh_line t off sid n ld) = t"
  by (simp add: fresh_line_def)

lemma drop_report_plain: "drop_report (plain c) = evicted_of c"
  by (simp add: evicted_of_def drop_report_def plain_def)

text \<open>A set one of whose entries, \<open>c\<close>, is neither listed nor free.\<close>

definition shape_but :: "cache_set \<Rightarrow> nat list \<Rightarrow> nat \<Rightarrow> bool" where
  "shape_but s xs c \<longleftrightarrow> linked (cs_nodes s) (path s xs) \<and> distinct (c # path s xs @ cs_free s) \<and>
     insert c (set (xs @ cs_free s)) = {0..<cs_assoc s}"

lemma link_new:
  assumes "shape_but s xs c" "mapped s xs" "t \<notin> set (tags (lines s xs))"
  shows "\<exists>s'. insertFront c (cs_head s)
        (upd_node c (fill_line t off sid n ld) s\<lparr>cs_map := (cs_map s)(t \<mapsto> c)\<rparr>) = Some s' \<and>
    shape s' (c # xs) \<and> mapped s' (c # xs) \<and> lines s' (c # xs) = fresh_line t off sid n ld # lines s xs
    \<and> cs_assoc s' = cs_assoc s"
proof -
  let ?s = "upd_node c (fill_line t off sid n ld) s\<lparr>cs_map := (cs_map s)(t \<mapsto> c)\<rparr>"
  have p: "path ?s xs = path s xs" by (simp add: path_def cset_simps)
  have nin: "c \<notin> set xs" "c \<notin> set (path s xs)" using assms(1) by (auto simp: shape_but_def path_def)
  have "linked (cs_nodes ?s) (path ?s xs)"
    using assms(1) nin unfolding p shape_but_def by (simp add: cset_simps linked_upd_other)
  moreover have "distinct (c # path ?s xs)" using assms(1) unfolding p shape_but_def by auto
  ultimately obtain s' where s': "insertFront c (cs_head ?s) ?s = Some s'"
      "linked (cs_nodes s') (path s' (c # xs))" "same_data ?s s'"
    using insertFront_path by blast
  have "mapped ?s (c # xs)"
  proof -
    have old: "cs_map s t' = Some i \<longleftrightarrow> i \<in> set xs \<and> cl_addr (cs_nodes s i) = t'" for t' i
      using assms(2) by (simp add: mapped_def)
    have new: "cl_addr (cs_nodes s i) \<noteq> t" if "i \<in> set xs" for i
      using assms(3) that by (auto simp: tags_def lines_def)
    show ?thesis using old new nin by (auto simp: mapped_def cset_simps)
  qed
  then have "mapped s' (c # xs)" using same_data_mapped [OF s'(3)] by blast
  moreover have "lines s' (c # xs) = fresh_line t off sid n ld # lines s xs"
    unfolding same_data_lines [OF s'(3)] using nin by (auto simp: lines_def cset_simps)
  moreover have "shape s' (c # xs)"
    using assms(1) s'(2,3) by (auto simp: shape_def shape_but_def path_def same_data_def cset_simps)
  moreover have "cs_assoc s' = cs_assoc s" using s'(3) by (simp add: same_data_def cset_simps)
  ultimately show ?thesis using s'(1) by (auto simp: cset_simps)
qed

lemma shape_length: "shape s xs \<Longrightarrow> length xs + length (cs_free s) = cs_assoc s"
proof -
  assume "shape s xs"
  then have "distinct (xs @ cs_free s)" "set (xs @ cs_free s) = {0..<cs_assoc s}"
    by (auto simp: shape_def path_def)
  then show ?thesis by (metis card_atLeastLessThan diff_zero distinct_card length_append)
qed

lemma unlink:
  assumes "shape s (as @ c # bs)" "mapped s (as @ c # bs)"
  shows "\<exists>s'. deleteNode c (s\<lparr>cs_map := (cs_map s)(cl_addr (cs_nodes s c) := None)\<rparr>) = Some s' \<and>
    shape_but s' (as @ bs) c \<and> mapped s' (as @ bs) \<and> lines s' (as @ bs) = lines s (as @ bs) \<and>
    plain (cs_nodes s' c) = plain (cs_nodes s c) \<and> cs_free s' = cs_free s \<and> cs_assoc s' = cs_assoc s"
proof -
  let ?s = "s\<lparr>cs_map := (cs_map s)(cl_addr (cs_nodes s c) := None)\<rparr>"
  have p: "path ?s ys = path s ys" for ys by (simp add: path_def)
  have "linked (cs_nodes ?s) (path ?s (as @ c # bs))" "distinct (path ?s (as @ c # bs))"
    using assms(1) unfolding p by (simp_all add: shape_def)
  then obtain s' where s': "deleteNode c ?s = Some s'" "linked (cs_nodes s') (path s' (as @ bs))"
      "same_data ?s s'"
    using deleteNode_path by blast
  have nin: "c \<notin> set as" "c \<notin> set bs" using assms(1) by (auto simp: shape_def path_def)
  have "mapped ?s (as @ bs)"
  proof -
    have "cs_map s t = Some i \<longleftrightarrow> i \<in> set (as @ c # bs) \<and> cl_addr (cs_nodes s i) = t" for t i
      using assms(2) by (simp add: mapped_def)
    moreover have "i = c" if "i \<in> set (as @ c # bs)" "cl_addr (cs_nodes s i) = cl_addr (cs_nodes s c)" for i
      using mapped_inj [OF assms(2) that(1) _ that(2)] by simp
    ultimately show ?thesis using nin by (auto simp: mapped_def)
  qed
  then have "mapped s' (as @ bs)" using same_data_mapped [OF s'(3)] by blast
  moreover have "shape_but s' (as @ bs) c"
    using assms(1) s'(2,3) by (auto simp: shape_def shape_but_def path_def same_data_def)
  moreover have "lines s' (as @ bs) = lines s (as @ bs)"
    using same_data_lines [OF s'(3)] by (simp add: lines_def)
  moreover have "plain (cs_nodes s' c) = plain (cs_nodes s c)" "cs_free s' = cs_free s"
      "cs_assoc s' = cs_assoc s"
    using s'(3) by (simp_all add: same_data_def)
  ultimately show ?thesis using s'(1) by blast
qed

lemma shape_tail_prev:
  assumes "shape s (as @ [c])"
  shows "cl_prev (cs_nodes s (cs_tail s)) = Some c" "c \<noteq> cs_head s"
proof -
  have "linked (cs_nodes s) ((cs_head s # as) @ [c, cs_tail s])"
    using assms by (simp add: shape_def path_def)
  then show "cl_prev (cs_nodes s (cs_tail s)) = Some c" by (blast dest: linked_snoc_next)
  show "c \<noteq> cs_head s" using assms by (auto simp: shape_def path_def)
qed

lemma cset_insert_refines:
  assumes "represents s ls" "t \<notin> set (tags ls)" "0 < cs_assoc s"
  shows "\<exists>s'. cset_insert t off sid n ld s =
      Some (fst (lru_insert (cs_assoc s) (fresh_line t off sid n ld) ls), s') \<and>
    represents s' (snd (lru_insert (cs_assoc s) (fresh_line t off sid n ld) ls)) \<and>
    cs_assoc s' = cs_assoc s"
proof -
  obtain xs where xs: "shape s xs" "mapped s xs" "ls = lines s xs"
    using assms(1) by (auto simp: represents_def)
  have len: "length ls + length (cs_free s) = cs_assoc s"
    using shape_length [OF xs(1)] xs(3) by (simp add: lines_def)
  show ?thesis
  proof (cases "cs_free s" rule: rev_cases)
    case Nil
    with len assms(3) xs(3) have "xs \<noteq> []" by (auto simp: lines_def)
    then obtain as c where c: "xs = as @ [c]" by (metis rev_exhaust)
    note sh = xs(1) [unfolded c]
    from unlink [of s as c "[]"] xs(1,2) c obtain s1 where
      s1: "deleteNode c (s\<lparr>cs_map := (cs_map s)(cl_addr (cs_nodes s c) := None)\<rparr>) = Some s1"
        "shape_but s1 as c" "mapped s1 as" "lines s1 as = lines s as"
        "plain (cs_nodes s1 c) = plain (cs_nodes s c)" "cs_assoc s1 = cs_assoc s"
      by auto
    have "t \<notin> set (tags (lines s1 as))"
      using assms(2) xs(3) c s1(4) by (auto simp: tags_def lines_def)
    from link_new [OF s1(2,3) this, of off sid n ld] obtain s' where
      s': "insertFront c (cs_head s1)
          (upd_node c (fill_line t off sid n ld) s1\<lparr>cs_map := (cs_map s1)(t \<mapsto> c)\<rparr>) = Some s'"
        "shape s' (c # as)" "mapped s' (c # as)"
        "lines s' (c # as) = fresh_line t off sid n ld # lines s as" "cs_assoc s' = cs_assoc s"
      using s1(4,6) by auto
    have ev: "evicted_of (cs_nodes s1 c) = drop_report (last ls)" "butlast ls = lines s as"
      using s1(5) xs(3) c by (metis drop_report_plain lines_def list.map(1,2) last_map last_snoc
          snoc_eq_iff_butlast, simp add: lines_def butlast_append)
    have "cset_insert t off sid n ld s = Some (Some (drop_report (last ls)), s')"
      using Nil shape_tail_prev [OF sh] s1(1) s'(1) ev(1)
      by (simp add: cset_insert_def take_line_def cset_simps)
    with s' ev Nil len show ?thesis by (auto simp: lru_insert_def represents_def)
  next
    case (snoc free c)
    let ?s = "s\<lparr>cs_free := free\<rparr>"
    have "shape_but ?s xs c" "mapped ?s xs"
      using xs(1,2) snoc by (auto simp: shape_def shape_but_def path_def mapped_def)
    moreover have "t \<notin> set (tags (lines ?s xs))" using assms(2) xs(3) by (simp add: lines_def)
    ultimately obtain s' where
      s': "insertFront c (cs_head ?s)
          (upd_node c (fill_line t off sid n ld) ?s\<lparr>cs_map := (cs_map ?s)(t \<mapsto> c)\<rparr>) = Some s'"
        "shape s' (c # xs)" "mapped s' (c # xs)"
        "lines s' (c # xs) = fresh_line t off sid n ld # lines ?s xs" "cs_assoc s' = cs_assoc ?s"
      using link_new [of ?s xs c t off sid n ld] by blast
    have "cset_insert t off sid n ld s = Some (None, s')"
      using snoc s'(1) by (simp add: cset_insert_def take_line_def cset_simps)
    moreover have "lines s' (c # xs) = fresh_line t off sid n ld # ls"
      using s'(4) xs(3) by (simp add: lines_def)
    ultimately show ?thesis
      using s' snoc len by (auto simp: lru_insert_def represents_def)
  qed
qed

lemma cset_present_refines: "represents s ls \<Longrightarrow> cset_present t s \<longleftrightarrow> t \<in> set (tags ls)"
  unfolding represents_def cset_present_def by (metis mapped_None)

lemma cset_invalidate_refines:
  assumes "represents s ls" "t \<in> set (tags ls)"
  shows "\<exists>s' l. find (\<lambda>l. cl_addr l = t) ls = Some l \<and> cset_invalidate t s = Some (cl_dirty l, s') \<and>
    represents s' (lru_remove t ls) \<and> cs_assoc s' = cs_assoc s"
proof -
  obtain xs where xs: "shape s xs" "mapped s xs" "ls = lines s xs"
    using assms(1) by (auto simp: represents_def)
  obtain c where c: "cs_map s t = Some c"
    using assms(2) mapped_None [OF xs(2)] xs(3) by (metis not_Some_eq)
  then obtain as bs where d: "xs = as @ c # bs" and t: "cl_addr (cs_nodes s c) = t"
    using mapped_member [OF xs(2)] by (metis in_set_conv_decomp)
  from unlink [of s as c bs] xs(1,2) d t obtain s1 where
    s1: "deleteNode c (s\<lparr>cs_map := (cs_map s)(t := None)\<rparr>) = Some s1"
      "shape_but s1 (as @ bs) c" "mapped s1 (as @ bs)" "lines s1 (as @ bs) = lines s (as @ bs)"
      "plain (cs_nodes s1 c) = plain (cs_nodes s c)" "cs_assoc s1 = cs_assoc s"
    by auto
  let ?s' = "s1\<lparr>cs_free := cs_free s1 @ [c]\<rparr>"
  have nin: "c \<notin> set as" "c \<notin> set bs" using xs(1) d by (auto simp: shape_def path_def)
  note split = mapped_split [OF xs(2)[unfolded d] nin, unfolded t, folded d, folded xs(3)]
  have "cl_dirty (cs_nodes s1 c) = cl_dirty (plain (cs_nodes s c))"
    using s1(5) by (metis (no_types) cache_line.select_convs(9) cache_line.surjective
        cache_line.update_convs(4,5) plain_def)
  then have "cset_invalidate t s = Some (cl_dirty (plain (cs_nodes s c)), ?s')"
    using c s1(1) t by (simp add: cset_invalidate_def)
  moreover have "shape ?s' (as @ bs)"
    using s1(2) by (auto simp: shape_but_def shape_def path_def)
  moreover have "mapped ?s' (as @ bs)" "lines ?s' (as @ bs) = lru_remove t ls"
    using s1(3,4) split(2) by (simp_all add: mapped_def lru_remove_def lines_def)
  ultimately show ?thesis using split(1) s1(6) by (auto simp: represents_def)
qed

lemma represents_distinct:
  assumes "represents s ls"
  shows "distinct (tags ls)"
proof -
  obtain xs where xs: "shape s xs" "mapped s xs" "ls = lines s xs"
    using assms by (auto simp: represents_def)
  have "tags ls = map (\<lambda>i. cl_addr (cs_nodes s i)) xs"
    by (simp add: xs(3) tags_def lines_def)
  moreover have "inj_on (\<lambda>i. cl_addr (cs_nodes s i)) (set xs)"
    using mapped_inj [OF xs(2)] by (auto simp: inj_on_def)
  moreover have "distinct xs" using xs(1) by (auto simp: shape_def path_def)
  ultimately show ?thesis by (simp add: distinct_map)
qed

lemma cset_evict_refines:
  assumes "represents s ls"
  shows "\<exists>s'. cset_evict t s = Some (\<exists>l\<in>set ls. cl_addr l = t \<and> cl_dirty l, s') \<and>
    represents s' (lru_remove t ls)"
proof (cases "t \<in> set (tags ls)")
  case False
  then have "cs_map s t = None"
    using cset_present_refines [OF assms] by (metis cset_present_def)
  moreover have "lru_remove t ls = ls" "\<not> (\<exists>l\<in>set ls. cl_addr l = t \<and> cl_dirty l)"
    using False by (auto simp: lru_remove_def tags_def filter_id_conv)
  ultimately show ?thesis using assms by (auto simp: cset_evict_def)
next
  case True
  then obtain c where c: "cs_map s t = Some c"
    using cset_present_refines [OF assms] by (auto simp: cset_present_def)
  have addr: "cl_addr (cs_nodes s c) = t"
    using assms mapped_member c by (auto simp: represents_def)
  obtain s' l where s': "find (\<lambda>l. cl_addr l = t) ls = Some l"
      "cset_invalidate t s = Some (cl_dirty l, s')" "represents s' (lru_remove t ls)"
    using cset_invalidate_refines [OF assms True] by blast
  have "l' = l" if "l' \<in> set ls" "cl_addr l' = t" for l'
    using s'(1) that represents_distinct [OF assms]
    by (auto simp: find_Some_iff tags_def distinct_map inj_on_def)
  then have "cl_dirty l = (\<exists>l\<in>set ls. cl_addr l = t \<and> cl_dirty l)"
    using s'(1) by (auto simp: find_Some_iff)
  with s' c addr show ?thesis by (auto simp: cset_evict_def cset_invalidate_def)
qed

lemma represents_new: "represents (new_cache_set ways ls) []"
  by (auto simp: represents_def new_cache_set_def shape_def path_def mapped_def lines_def
      intro!: exI [of _ "[]"])

lemma represents_length: "represents s ls \<Longrightarrow> length ls \<le> cs_assoc s"
  using shape_length by (fastforce simp: represents_def lines_def)

end
