(* ===== verification/FunctionalCache.thy ===== *)
theory FunctionalCache
  imports CacheSet
begin

text \<open>
  \<open>FunctionalCache\<close> of \<open>sim/src/mem/FunctionalCache.cpp\<close>: the tag store of one cache level.  It
  slices an address into offset, set and tag and delegates to the \<open>CacheSet\<close> of that set.  The
  invariant \<open>fc_inv\<close> says that every set represents a list of lines whose slices belong to it;
  under it no operation throws or dereferences \<open>NULL\<close>, and \<open>holds\<close>, the set of cached lines,
  changes as the contract \<open>line_store\<close> says.
\<close>

section \<open>Slicing an address\<close>

definition extract_bits :: "int \<Rightarrow> int \<Rightarrow> u64 \<Rightarrow> u64" where
  "extract_bits mx mn address =
     (let maxmask = shl64 1 (mx + 1) - 1;
          minmask = shl64 1 mn - 1;
          msk = maxmask - minmask
      in drop_bit (nat mn) (address AND msk))"

lemma mask_diff:
  assumes "m \<le> n"
  shows "(2 ^ n - 1 :: u64) - (2 ^ m - 1) = push_bit m (mask (n - m))"
proof -
  have "(2 :: u64) ^ n = 2 ^ m * 2 ^ (n - m)" using assms by (simp flip: power_add)
  then show ?thesis
    by (simp add: push_bit_eq_mult mask_eq_exp_minus_1 algebra_simps)
qed

lemma extract_slice:
  assumes "m \<le> n" "n < 64"
  shows "extract_bits (int n - 1) (int m) a = drop_bit m (take_bit n a)"
proof -
  have sh: "shl64 1 (int n - 1 + 1) = 2 ^ n" "shl64 1 (int m) = 2 ^ m"
    using assms by (simp_all add: shl64_def push_bit_eq_mult)
  have "extract_bits (int n - 1) (int m) a = drop_bit m (a AND push_bit m (mask (n - m)))"
    by (simp only: extract_bits_def Let_def sh mask_diff [OF assms(1)] nat_int)
  also have "\<dots> = drop_bit m (take_bit n a)"
    using assms by (intro bit_word_eqI) (auto simp: bit_simps)
  finally show ?thesis .
qed

text \<open>
  \<open>getTag\<close> asks for bits up to 63, so the source shifts by 64; the tag is nevertheless the high
  part of the address, whatever the shift leaves in bit 0, as soon as one bit is sliced off.
\<close>

lemma extract_tag:
  assumes "0 < m" "m < 64"
  shows "extract_bits 63 (int m) a = drop_bit m a"
proof -
  have neg: "(1 :: u64) - 2 ^ m = NOT (mask m) OR 1"
  proof -
    have disj: "NOT (mask m) AND (1 :: u64) = 0"
      using assms by (intro bit_word_eqI) (auto simp: bit_simps bit_1_iff)
    have "(1 :: u64) - 2 ^ m = NOT (mask m) + 1" by (simp add: minus_exp_eq_not_mask [symmetric])
    then show ?thesis using disj by (simp add: disjunctive_add_eq_or)
  qed
  have sh: "shl64 1 (63 + 1) - 1 - (shl64 1 (int m) - 1) = 1 - 2 ^ m"
    using assms by (simp add: shl64_def push_bit_eq_mult)
  have "extract_bits 63 (int m) a = drop_bit m (a AND (NOT (mask m) OR 1))"
    by (simp only: extract_bits_def Let_def sh neg nat_int)
  also have "\<dots> = drop_bit m a"
    using assms by (intro bit_word_eqI) (auto simp: bit_simps bit_1_iff dest: bit_imp_le_length)
  finally show ?thesis .
qed

section \<open>The cache as an array of sets\<close>

record fcache =
  fc_line_count :: nat
  fc_set_count :: nat
  fc_log_set_count :: nat
  fc_cache_line_size :: nat
  fc_log_line_size :: nat
  fc_sets :: "cache_set list"

definition new_fcache :: "nat \<Rightarrow> nat \<Rightarrow> nat \<Rightarrow> fcache" where
  "new_fcache bytes ways line_size =
     (let lines = bytes div line_size; sets = lines div ways
      in \<lparr>fc_line_count = lines, fc_set_count = sets, fc_log_set_count = ilog2 sets,
          fc_cache_line_size = line_size, fc_log_line_size = ilog2 line_size,
          fc_sets = map (\<lambda>_. new_cache_set ways line_size) [0..<sets]\<rparr>)"

definition getOffset :: "fcache \<Rightarrow> u64 \<Rightarrow> u64" where
  "getOffset fc = extract_bits (int (fc_log_line_size fc) - 1) 0"

definition getSetid :: "fcache \<Rightarrow> u64 \<Rightarrow> u64" where
  "getSetid fc = extract_bits (int (fc_log_set_count fc) - 1 + int (fc_log_line_size fc)) (int (fc_log_line_size fc))"

definition getTag :: "fcache \<Rightarrow> u64 \<Rightarrow> u64" where
  "getTag fc = extract_bits 63 (int (fc_log_set_count fc) + int (fc_log_line_size fc))"

text \<open>\<open>sets.at(setid)\<close> throws outside the vector.\<close>

definition sets_at :: "fcache \<Rightarrow> u64 \<Rightarrow> cache_set option" where
  "sets_at fc i = (if unat i < length (fc_sets fc) then Some (fc_sets fc ! unat i) else None)"

definition put_set :: "u64 \<Rightarrow> cache_set \<Rightarrow> fcache \<Rightarrow> fcache" where
  "put_set i c fc = fc\<lparr>fc_sets := (fc_sets fc)[unat i := c]\<rparr>"

definition fc_access :: "u64 \<Rightarrow> int \<Rightarrow> bool \<Rightarrow> fcache \<Rightarrow> (bool \<times> fcache) option" where
  "fc_access address nodeId isLoad fc =
     do { c \<leftarrow> sets_at fc (getSetid fc address);
          (res, c') \<leftarrow> cset_access (getTag fc address) (getOffset fc address) nodeId isLoad c;
          Some (res, put_set (getSetid fc address) c' fc) }"

definition fc_present :: "u64 \<Rightarrow> fcache \<Rightarrow> bool option" where
  "fc_present address fc =
     do { c \<leftarrow> sets_at fc (getSetid fc address);
          Some (cset_present (getTag fc address) c) }"

definition fc_invalidate :: "u64 \<Rightarrow> fcache \<Rightarrow> (bool \<times> fcache) option" where
  "fc_invalidate address fc =
     do { c \<leftarrow> sets_at fc (getSetid fc address);
          (res, c') \<leftarrow> cset_invalidate (getTag fc address) c;
          Some (res, put_set (getSetid fc address) c' fc) }"

definition fc_evict :: "u64 \<Rightarrow> fcache \<Rightarrow> (bool \<times> fcache) option" where
  "fc_evict address fc =
     do { c \<leftarrow> sets_at fc (getSetid fc address);
          (res, c') \<leftarrow> cset_evict (getTag fc address) c;
          Some (res, put_set (getSetid fc address) c' fc) }"

text \<open>
  \<open>FunctionalCache::insert\<close>: what it reports is \<open>None\<close> when \<open>*evictedAddr\<close> keeps the caller's
  -1 (nothing evicted, or the evicted tag reads -1), and otherwise the rebuilt address of the
  evicted line with its dirty flag.
\<close>

definition rebuild :: "fcache \<Rightarrow> u64 \<Rightarrow> u64 \<Rightarrow> u64 \<Rightarrow> u64" where
  "rebuild fc tag setid offset =
     push_bit (fc_log_line_size fc + fc_log_set_count fc) tag
       + push_bit (fc_log_line_size fc) setid + offset"

definition fc_insert ::
    "u64 \<Rightarrow> int \<Rightarrow> bool \<Rightarrow> fcache \<Rightarrow> ((u64 \<times> bool) option \<times> fcache) option" where
  "fc_insert address nodeId isLoad fc =
     do { let setid = getSetid fc address;
          c \<leftarrow> sets_at fc setid;
          (ev, c') \<leftarrow> cset_insert (getTag fc address) (getOffset fc address) setid nodeId isLoad c;
          let out = (case ev of None \<Rightarrow> None
            | Some e \<Rightarrow> if ev_addr e = - 1 then None
                else Some (rebuild fc (ev_addr e) (ev_setid e) (ev_offset e), ev_dirty e));
          Some (out, put_set setid c' fc) }"

section \<open>Round trip of the address slices\<close>

definition fc_geometry :: "fcache \<Rightarrow> bool" where
  "fc_geometry fc \<longleftrightarrow> 0 < fc_log_line_size fc + fc_log_set_count fc \<and>
     fc_log_line_size fc + fc_log_set_count fc < 64 \<and>
     length (fc_sets fc) = fc_set_count fc \<and> 2 ^ fc_log_set_count fc \<le> fc_set_count fc"

lemma slices:
  assumes "fc_geometry fc"
  shows "getOffset fc a = take_bit (fc_log_line_size fc) a"
    and "getSetid fc a = take_bit (fc_log_set_count fc) (drop_bit (fc_log_line_size fc) a)"
    and "getTag fc a = drop_bit (fc_log_line_size fc + fc_log_set_count fc) a"
proof -
  let ?l = "fc_log_line_size fc" and ?s = "fc_log_set_count fc"
  show "getOffset fc a = take_bit ?l a"
    using extract_slice [of 0 ?l a] assms by (simp add: getOffset_def fc_geometry_def)
  show "getSetid fc a = take_bit ?s (drop_bit ?l a)"
    using extract_slice [of ?l "?s + ?l" a] assms
    by (simp add: getSetid_def fc_geometry_def drop_bit_take_bit algebra_simps)
  show "getTag fc a = drop_bit (?l + ?s) a"
    using extract_tag [of "?l + ?s" a] assms by (simp add: getTag_def fc_geometry_def add.commute)
qed

lemma rebuild_slices:
  assumes "fc_geometry fc"
  shows "rebuild fc (getTag fc a) (getSetid fc a) (getOffset fc a) = a"
proof -
  let ?l = "fc_log_line_size fc" and ?s = "fc_log_set_count fc"
  let ?hi = "push_bit (?l + ?s) (drop_bit (?l + ?s) a)"
  let ?mid = "push_bit ?l (take_bit ?s (drop_bit ?l a))"
  have "?hi AND ?mid = 0"
    by (intro bit_word_eqI) (auto simp: bit_simps)
  then have hm: "?hi + ?mid = ?hi OR ?mid" by (rule disjunctive_add_eq_or)
  have "(?hi OR ?mid) AND take_bit ?l a = 0"
    by (intro bit_word_eqI) (auto simp: bit_simps)
  then have "?hi + ?mid + take_bit ?l a = ?hi OR ?mid OR take_bit ?l a"
    unfolding hm by (simp add: disjunctive_add_eq_or or.assoc)
  also have "\<dots> = a"
  proof (rule bit_word_eqI)
    fix n assume "n < LENGTH(64)"
    moreover have "n - ?l < ?s \<longleftrightarrow> n < ?l + ?s" if "?l \<le> n" using that by arith
    ultimately show "bit (?hi OR ?mid OR take_bit ?l a) n = bit a n"
      by (cases "n < ?l"; cases "n < ?l + ?s") (auto simp: bit_simps)
  qed
  finally show ?thesis by (simp add: rebuild_def slices [OF assms])
qed

section \<open>The invariant of a cache and the contract of its operations\<close>

text \<open>A line of set \<open>i\<close> carries the slices of some address of that set.\<close>

definition of_set :: "fcache \<Rightarrow> u64 \<Rightarrow> cache_line \<Rightarrow> bool" where
  "of_set fc i l \<longleftrightarrow> (\<exists>a. getSetid fc a = i \<and> cl_addr l = getTag fc a \<and>
     cl_setid l = getSetid fc a \<and> cl_offset l = getOffset fc a)"

definition set_holds :: "fcache \<Rightarrow> u64 \<Rightarrow> cache_line list \<Rightarrow> bool" where
  "set_holds fc i ls \<longleftrightarrow> represents (fc_sets fc ! unat i) ls \<and> 0 < cs_assoc (fc_sets fc ! unat i) \<and>
     (\<forall>l\<in>set ls. of_set fc i l)"

definition fc_inv :: "fcache \<Rightarrow> bool" where
  "fc_inv fc \<longleftrightarrow> fc_geometry fc \<and> (\<forall>i. unat i < length (fc_sets fc) \<longrightarrow> (\<exists>ls. set_holds fc i ls))"

definition same_line :: "fcache \<Rightarrow> u64 \<Rightarrow> u64 \<Rightarrow> bool" where
  "same_line fc a b \<longleftrightarrow> getSetid fc a = getSetid fc b \<and> getTag fc a = getTag fc b"

definition holds :: "fcache \<Rightarrow> u64 \<Rightarrow> bool" where
  "holds fc a \<longleftrightarrow> fc_present a fc = Some True"

lemma setid_bound: "fc_geometry fc \<Longrightarrow> unat (getSetid fc a) < length (fc_sets fc)"
proof -
  assume g: "fc_geometry fc"
  have "unat (getSetid fc a) < 2 ^ fc_log_set_count fc"
    by (simp add: slices [OF g] unsigned_take_bit_eq take_bit_nat_less_exp)
  also have "\<dots> \<le> length (fc_sets fc)" using g by (simp add: fc_geometry_def)
  finally show ?thesis .
qed

lemma sets_at_total: "fc_inv fc \<Longrightarrow> sets_at fc (getSetid fc a) = Some (fc_sets fc ! unat (getSetid fc a))"
  using setid_bound [of fc a] by (simp add: sets_at_def fc_inv_def)

lemma put_set_slices [simp]:
  "getSetid (put_set i c fc) = getSetid fc" "getTag (put_set i c fc) = getTag fc"
  "getOffset (put_set i c fc) = getOffset fc" "rebuild (put_set i c fc) = rebuild fc"
  "fc_geometry (put_set i c fc) = fc_geometry fc" "same_line (put_set i c fc) = same_line fc"
  "of_set (put_set i c fc) = of_set fc"
  "length (fc_sets (put_set i c fc)) = length (fc_sets fc)"
  by (simp_all add: put_set_def getSetid_def getTag_def getOffset_def fc_geometry_def fun_eq_iff
      same_line_def rebuild_def of_set_def)

lemma put_set_nth [simp]:
  "unat i < length (fc_sets fc) \<Longrightarrow>
    fc_sets (put_set i c fc) ! j = (if j = unat i then c else fc_sets fc ! j)"
  by (auto simp: put_set_def)

text \<open>Replacing the set of one address by one that holds other lines of that set.\<close>

lemma fc_inv_put:
  assumes "fc_inv fc" "represents c ls" "0 < cs_assoc c"
    "\<And>l. l \<in> set ls \<Longrightarrow> of_set fc (getSetid fc a) l"
  shows "fc_inv (put_set (getSetid fc a) c fc)"
    and "holds (put_set (getSetid fc a) c fc) b \<longleftrightarrow>
      (if getSetid fc b = getSetid fc a then getTag fc b \<in> set (tags ls) else holds fc b)"
proof -
  have g: "fc_geometry fc" and bnd: "unat (getSetid fc b) < length (fc_sets fc)" for b
    using assms(1) setid_bound by (auto simp: fc_inv_def)
  have "\<exists>ls. set_holds (put_set (getSetid fc a) c fc) i ls" if i: "unat i < length (fc_sets fc)" for i
  proof (cases "i = getSetid fc a")
    case True
    then have "set_holds (put_set (getSetid fc a) c fc) i ls"
      using assms(2-4) bnd by (simp add: set_holds_def)
    then show ?thesis by blast
  next
    case False
    then have "unat i \<noteq> unat (getSetid fc a)" by (metis unsigned_word_eqI)
    moreover obtain ls' where "set_holds fc i ls'" using assms(1) i by (auto simp: fc_inv_def)
    ultimately have "set_holds (put_set (getSetid fc a) c fc) i ls'"
      using bnd by (simp add: set_holds_def)
    then show ?thesis by blast
  qed
  then show "fc_inv (put_set (getSetid fc a) c fc)" using g by (simp add: fc_inv_def)
  show "holds (put_set (getSetid fc a) c fc) b \<longleftrightarrow>
      (if getSetid fc b = getSetid fc a then getTag fc b \<in> set (tags ls) else holds fc b)"
    using bnd cset_present_refines [OF assms(2)]
    by (auto simp: holds_def fc_present_def sets_at_def dest!: unsigned_word_eqI)
qed

lemma fc_inv_set:
  assumes "fc_inv fc"
  obtains ls where "set_holds fc (getSetid fc a) ls"
    "\<And>b. getSetid fc b = getSetid fc a \<Longrightarrow> holds fc b \<longleftrightarrow> getTag fc b \<in> set (tags ls)"
proof -
  have "unat (getSetid fc a) < length (fc_sets fc)"
    using assms setid_bound by (simp add: fc_inv_def)
  then obtain ls where ls: "set_holds fc (getSetid fc a) ls"
    using assms by (auto simp: fc_inv_def)
  moreover have "holds fc b \<longleftrightarrow> getTag fc b \<in> set (tags ls)" if "getSetid fc b = getSetid fc a" for b
    using ls that sets_at_total [OF assms, of b]
    by (simp add: holds_def fc_present_def set_holds_def cset_present_refines)
  ultimately show ?thesis using that by blast
qed

lemma lru_access_facts:
  "fst (lru_access t off n ld ls) \<longleftrightarrow> t \<in> set (tags ls)"
  "set (tags (snd (lru_access t off n ld ls))) = set (tags ls)"
  "l \<in> set (snd (lru_access t off n ld ls)) \<Longrightarrow>
    l \<in> set ls \<or> (\<exists>l0\<in>set ls. cl_addr l0 = t \<and> l = used_line off n ld l0)"
proof -
  have "fst (lru_access t off n ld ls) = (t \<in> set (tags ls)) \<and>
    set (tags (snd (lru_access t off n ld ls))) = set (tags ls) \<and>
    (\<forall>l\<in>set (snd (lru_access t off n ld ls)).
      l \<in> set ls \<or> (\<exists>l0\<in>set ls. cl_addr l0 = t \<and> l = used_line off n ld l0))"
  proof (cases "find (\<lambda>l. cl_addr l = t) ls")
    case None
    then have "t \<notin> set (tags ls)" by (auto simp: tags_def find_None_iff)
    with None show ?thesis by (simp add: lru_access_def)
  next
    case (Some l0)
    then have l0: "l0 \<in> set ls" "cl_addr l0 = t" by (auto simp: find_Some_iff)
    have "cl_addr (used_line off n ld l0) = t" using l0(2) by (simp add: used_line_def)
    then have "set (tags (snd (lru_access t off n ld ls))) = insert t (set (tags ls) - {t})"
      using Some by (auto simp: lru_access_def tags_def)
    moreover have "t \<in> set (tags ls)" using l0 by (auto simp: tags_def)
    moreover have "l \<in> set ls \<or> (\<exists>l0\<in>set ls. cl_addr l0 = t \<and> l = used_line off n ld l0)"
      if "l \<in> set (snd (lru_access t off n ld ls))" for l
      using that Some l0 by (auto simp: lru_access_def)
    ultimately show ?thesis using Some by (simp add: insert_absorb lru_access_def)
  qed
  then show "fst (lru_access t off n ld ls) \<longleftrightarrow> t \<in> set (tags ls)"
    "set (tags (snd (lru_access t off n ld ls))) = set (tags ls)"
    "l \<in> set (snd (lru_access t off n ld ls)) \<Longrightarrow>
      l \<in> set ls \<or> (\<exists>l0\<in>set ls. cl_addr l0 = t \<and> l = used_line off n ld l0)"
    by blast+
qed

lemma fc_access_spec:
  assumes "fc_inv fc"
  shows "\<exists>fc'. fc_access a n ld fc = Some (holds fc a, fc') \<and> fc_inv fc' \<and>
    (\<forall>b. holds fc' b = holds fc b) \<and> same_line fc' = same_line fc"
proof -
  obtain ls where ls: "set_holds fc (getSetid fc a) ls"
    and hold: "\<And>b. getSetid fc b = getSetid fc a \<Longrightarrow> holds fc b \<longleftrightarrow> getTag fc b \<in> set (tags ls)"
    using fc_inv_set [OF assms] by blast
  let ?r = "lru_access (getTag fc a) (getOffset fc a) n ld ls"
  have rep: "represents (fc_sets fc ! unat (getSetid fc a)) ls"
    using ls by (simp add: set_holds_def)
  obtain s' where s': "cset_access (getTag fc a) (getOffset fc a) n ld
      (fc_sets fc ! unat (getSetid fc a)) = Some (fst ?r, s')" "represents s' (snd ?r)"
      "cs_assoc s' = cs_assoc (fc_sets fc ! unat (getSetid fc a))"
    using cset_access_refines [OF rep] by blast
  have "of_set fc (getSetid fc a) (used_line (getOffset fc a) n ld l)"
    if "of_set fc (getSetid fc a) l" "cl_addr l = getTag fc a" for l
    using that unfolding of_set_def by (intro exI [of _ a]) (auto simp: used_line_def)
  then have "of_set fc (getSetid fc a) l" if "l \<in> set (snd ?r)" for l
    using lru_access_facts(3) [OF that] ls unfolding set_holds_def by blast
  note put = fc_inv_put [OF assms s'(2) _ this]
  have pos: "0 < cs_assoc s'" using ls s'(3) by (simp add: set_holds_def)
  have "fc_access a n ld fc = Some (holds fc a, put_set (getSetid fc a) s' fc)"
    using s'(1) sets_at_total [OF assms] hold
    by (simp add: fc_access_def lru_access_facts(1))
  moreover have "holds (put_set (getSetid fc a) s' fc) b = holds fc b" for b
    using put(2) [OF pos, of b] hold [of b] by (simp add: lru_access_facts(2))
  ultimately show ?thesis using put(1) [OF pos] by simp
qed

lemma getTag_not_minus_one: "fc_geometry fc \<Longrightarrow> getTag fc a \<noteq> - 1"
proof
  assume g: "fc_geometry fc" and "getTag fc a = - 1"
  then have "bit (drop_bit (fc_log_line_size fc + fc_log_set_count fc) a) 63"
    using slices(3) [OF g, of a] by simp
  with g show False by (auto simp: bit_simps fc_geometry_def dest: bit_imp_le_length)
qed

lemma fc_insert_spec:
  assumes inv: "fc_inv fc" and new: "\<not> holds fc a"
  shows "\<exists>out fc'. fc_insert a n ld fc = Some (out, fc') \<and> fc_inv fc' \<and> same_line fc' = same_line fc \<and>
    (case out of
       None \<Rightarrow> \<forall>b. holds fc' b \<longleftrightarrow> same_line fc a b \<or> holds fc b
     | Some (e, d) \<Rightarrow> holds fc e \<and> getSetid fc e = getSetid fc a \<and> \<not> same_line fc e a \<and>
         (\<forall>b. holds fc' b \<longleftrightarrow> same_line fc a b \<or> holds fc b \<and> \<not> same_line fc e b))"
proof -
  let ?i = "unat (getSetid fc a)"
  obtain ls where ls: "set_holds fc (getSetid fc a) ls"
    and hold: "\<And>b. getSetid fc b = getSetid fc a \<Longrightarrow> holds fc b \<longleftrightarrow> getTag fc b \<in> set (tags ls)"
    using fc_inv_set [OF inv] by blast
  have g: "fc_geometry fc" using inv by (simp add: fc_inv_def)
  let ?l = "fresh_line (getTag fc a) (getOffset fc a) (getSetid fc a) n ld"
  let ?r = "lru_insert (cs_assoc (fc_sets fc ! ?i)) ?l ls"
  have rep: "represents (fc_sets fc ! ?i) ls" and pos: "0 < cs_assoc (fc_sets fc ! ?i)"
    using ls by (simp_all add: set_holds_def)
  obtain s' where s': "cset_insert (getTag fc a) (getOffset fc a) (getSetid fc a) n ld (fc_sets fc ! ?i)
      = Some (fst ?r, s')" "represents s' (snd ?r)" "cs_assoc s' = cs_assoc (fc_sets fc ! ?i)"
    using cset_insert_refines [OF rep _ pos] new hold by blast
  have sub: "set (snd ?r) \<subseteq> insert ?l (set ls)"
    by (auto simp: lru_insert_def dest: in_set_butlastD)
  have "of_set fc (getSetid fc a) ?l"
    unfolding of_set_def by (intro exI [of _ a]) (simp add: fresh_line_def)
  then have "of_set fc (getSetid fc a) l" if "l \<in> set (snd ?r)" for l
    using that sub ls unfolding set_holds_def by blast
  note put = fc_inv_put [OF inv s'(2) _ this]
  have pos': "0 < cs_assoc s'" using pos s'(3) by simp
  let ?fc' = "put_set (getSetid fc a) s' fc"
  show ?thesis
  proof (cases "length ls < cs_assoc (fc_sets fc ! ?i)")
    case True
    then have "fc_insert a n ld fc = Some (None, ?fc')"
      using s'(1) sets_at_total [OF inv] by (simp add: fc_insert_def lru_insert_def)
    moreover have "holds ?fc' b \<longleftrightarrow> same_line fc a b \<or> holds fc b" for b
      using put(2) [OF pos', of b] hold [of b] True
      by (auto simp: lru_insert_def tags_def same_line_def fresh_line_def)
    ultimately show ?thesis using put(1) [OF pos'] by simp
  next
    case False
    with pos have ne: "ls \<noteq> []" by auto
    then have "of_set fc (getSetid fc a) (last ls)" using ls by (simp add: set_holds_def)
    then obtain e where e: "cl_addr (last ls) = getTag fc e" "cl_setid (last ls) = getSetid fc e"
        "cl_offset (last ls) = getOffset fc e" "getSetid fc e = getSetid fc a"
      by (auto simp: of_set_def)
    have out: "fc_insert a n ld fc = Some (Some (e, cl_dirty (last ls)), ?fc')"
      using False s'(1) getTag_not_minus_one [OF g, of e] rebuild_slices [OF g, of e] e(4)
      by (simp add: fc_insert_def sets_at_total [OF inv] lru_insert_def drop_report_def e(1-3))
    have tl: "tags ls = tags (butlast ls) @ [getTag fc e]"
    proof -
      have "tags (butlast ls @ [last ls]) = tags (butlast ls) @ [getTag fc e]"
        by (simp add: tags_def e(1))
      then show ?thesis unfolding append_butlast_last_id [OF ne] .
    qed
    have tags: "set (tags (butlast ls)) = set (tags ls) - {getTag fc e}"
      using represents_distinct [OF rep] unfolding tl by auto
    have he: "holds fc e" using hold [of e] e(4) by (simp add: tl)
    have "holds ?fc' b \<longleftrightarrow> same_line fc a b \<or> holds fc b \<and> \<not> same_line fc e b" for b
      using put(2) [OF pos', of b] hold [of b] e(4) False tags
      by (auto simp: lru_insert_def same_line_def tags_def fresh_line_def)
    moreover have "\<not> same_line fc e a"
      using he new hold [of e] hold [of a] e(4) by (auto simp: same_line_def)
    ultimately show ?thesis using out put(1) [OF pos'] he e(4) by simp
  qed
qed

lemma fc_invalidate_spec:
  assumes inv: "fc_inv fc" and present: "holds fc a"
  shows "\<exists>d fc'. fc_invalidate a fc = Some (d, fc') \<and> fc_inv fc' \<and> same_line fc' = same_line fc \<and>
    (\<forall>b. holds fc' b \<longleftrightarrow> holds fc b \<and> \<not> same_line fc a b)"
proof -
  let ?i = "unat (getSetid fc a)"
  obtain ls where ls: "set_holds fc (getSetid fc a) ls"
    and hold: "\<And>b. getSetid fc b = getSetid fc a \<Longrightarrow> holds fc b \<longleftrightarrow> getTag fc b \<in> set (tags ls)"
    using fc_inv_set [OF inv] by blast
  have rep: "represents (fc_sets fc ! ?i) ls" using ls by (simp add: set_holds_def)
  obtain s' and l :: cache_line where s': "cset_invalidate (getTag fc a) (fc_sets fc ! ?i) = Some (cl_dirty l, s')"
      "represents s' (lru_remove (getTag fc a) ls)" "cs_assoc s' = cs_assoc (fc_sets fc ! ?i)"
    using cset_invalidate_refines [OF rep] present hold by blast
  have "of_set fc (getSetid fc a) l" if "l \<in> set (lru_remove (getTag fc a) ls)" for l
    using that ls by (simp add: set_holds_def lru_remove_def)
  note put = fc_inv_put [OF inv s'(2) _ this]
  have pos: "0 < cs_assoc s'" using ls s'(3) by (simp add: set_holds_def)
  have "fc_invalidate a fc = Some (cl_dirty l, put_set (getSetid fc a) s' fc)"
    using s'(1) sets_at_total [OF inv] by (simp add: fc_invalidate_def)
  moreover have "holds (put_set (getSetid fc a) s' fc) b \<longleftrightarrow> holds fc b \<and> \<not> same_line fc a b" for b
    using put(2) [OF pos, of b] hold [of b]
    by (auto simp: lru_remove_def tags_def same_line_def)
  ultimately show ?thesis using put(1) [OF pos] by simp
qed

lemma same_line_drop:
  assumes "fc_geometry fc"
  shows "same_line fc a b \<longleftrightarrow> drop_bit (fc_log_line_size fc) a = drop_bit (fc_log_line_size fc) b"
proof -
  let ?l = "fc_log_line_size fc" and ?s = "fc_log_set_count fc"
  have "getTag fc x = drop_bit ?s (drop_bit ?l x)" "getSetid fc x = take_bit ?s (drop_bit ?l x)" for x
    using slices [OF assms, of x] by (simp_all add: drop_bit_drop_bit add.commute)
  then show ?thesis
    unfolding same_line_def by (metis bits_ident)
qed

lemma fc_insert_geometry:
  "fc_insert a n ld fc = Some (out, fc') \<Longrightarrow> fc_log_line_size fc' = fc_log_line_size fc"
  by (auto simp: fc_insert_def Let_def put_set_def split: bind_splits prod.splits option.splits)

lemma fc_present_total: "fc_inv fc \<Longrightarrow> fc_present a fc = Some (holds fc a)"
  using sets_at_total [of fc a] by (simp add: holds_def fc_present_def)

lemma new_fcache_inv:
  assumes "0 < ways" "0 < line_size" "2 ^ 1 \<le> line_size" "ways * line_size \<le> bytes" "bytes < 2 ^ 31"
  shows "fc_inv (new_fcache bytes ways line_size)"
proof -
  let ?sets = "bytes div line_size div ways"
  have sets: "0 < ?sets" using assms by (simp add: div_greater_zero_iff div_mult2_eq [symmetric] mult.commute)
  have l: "2 ^ ilog2 line_size \<le> line_size" and s: "2 ^ ilog2 ?sets \<le> ?sets"
    using ilog2_le assms sets by auto
  have "2 ^ (ilog2 line_size + ilog2 ?sets) \<le> line_size * ?sets"
    using l s by (simp add: power_add mult_le_mono)
  also have "\<dots> \<le> line_size * (bytes div line_size)" by (simp add: mult_le_mono2)
  also have "\<dots> \<le> bytes" by simp
  also have "\<dots> < 2 ^ 31" by fact
  finally have "ilog2 line_size + ilog2 ?sets < 31"
    by (rule power_less_imp_less_exp [rotated]) simp
  moreover have "0 < ilog2 line_size" using assms(3) by (simp add: ilog2.simps [of line_size])
  ultimately have geo: "fc_geometry (new_fcache bytes ways line_size)"
    using s by (simp add: fc_geometry_def new_fcache_def Let_def)
  have "set_holds (new_fcache bytes ways line_size) i []" if "unat i < ?sets" for i
    using that assms(1) represents_new
    by (simp add: set_holds_def new_fcache_def Let_def new_cache_set_def)
  then show ?thesis
    using geo by (auto simp: fc_inv_def new_fcache_def Let_def)
qed

lemma new_fcache_empty: "\<not> holds (new_fcache bytes ways line_size) a"
  by (simp add: holds_def fc_present_def sets_at_def new_fcache_def Let_def cset_present_def
      new_cache_set_def)

section \<open>The contract of a line store\<close>

text \<open>
  What the cache levels rely on: a lookup reports presence and changes nothing but the order of
  replacement; an insertion after a miss makes the line present and drops at most one other line,
  which it reports; an invalidation drops exactly the line.
\<close>

locale line_store =
  fixes inv :: "'s \<Rightarrow> bool" and held :: "'s \<Rightarrow> 'a \<Rightarrow> bool" and same :: "'s \<Rightarrow> 'a \<Rightarrow> 'a \<Rightarrow> bool"
    and lookup :: "'a \<Rightarrow> 's \<Rightarrow> (bool \<times> 's) option"
    and fill :: "'a \<Rightarrow> 's \<Rightarrow> (('a \<times> bool) option \<times> 's) option"
    and drop_line :: "'a \<Rightarrow> 's \<Rightarrow> (bool \<times> 's) option"
  assumes same_refl: "same s a a"
    and held_same: "inv s \<Longrightarrow> same s a b \<Longrightarrow> held s a = held s b"
    and lookup_law: "inv s \<Longrightarrow> \<exists>s'. lookup a s = Some (held s a, s') \<and> inv s' \<and>
      (\<forall>b. held s' b = held s b) \<and> same s' = same s"
    and fill_law: "inv s \<Longrightarrow> \<not> held s a \<Longrightarrow> \<exists>out s'. fill a s = Some (out, s') \<and> inv s' \<and>
      same s' = same s \<and>
      (case out of None \<Rightarrow> \<forall>b. held s' b \<longleftrightarrow> same s a b \<or> held s b
       | Some (e, d) \<Rightarrow> held s e \<and> \<not> same s e a \<and>
           (\<forall>b. held s' b \<longleftrightarrow> same s a b \<or> held s b \<and> \<not> same s e b))"
    and drop_law: "inv s \<Longrightarrow> held s a \<Longrightarrow> \<exists>d s'. drop_line a s = Some (d, s') \<and> inv s' \<and>
      same s' = same s \<and> (\<forall>b. held s' b \<longleftrightarrow> held s b \<and> \<not> same s a b)"
begin

lemma fill_holds:
  assumes "inv s" "\<not> held s a"
  shows "\<exists>out s2. fill a s = Some (out, s2) \<and> inv s2 \<and> held s2 a"
  using fill_law [OF assms] same_refl by (force split: option.splits)

lemma fill_on_miss:
  assumes "inv s"
  obtains hit s1 where "lookup a s = Some (hit, s1)" "hit = held s a" "inv s1" "held s1 a = hit"
    "\<not> hit \<Longrightarrow> \<exists>out s2. fill a s1 = Some (out, s2) \<and> inv s2 \<and> held s2 a"
proof -
  obtain s1 where s1: "lookup a s = Some (held s a, s1)" "inv s1" "held s1 a = held s a"
    using lookup_law [OF assms] by blast
  with fill_holds [OF s1(2), of a] that show ?thesis by blast
qed

text \<open>An insertion touches no line but the one inserted and the one reported.\<close>

lemma fill_frame:
  assumes "inv s" "\<not> held s a" "fill a s = Some (out, s')" "held s b"
    "\<And>e d. out = Some (e, d) \<Longrightarrow> \<not> same s e b"
  shows "held s' b"
  using fill_law [OF assms(1,2)] assms(3-5) by (auto split: option.splits)

lemma dropped_misses:
  assumes "inv s" "held s a"
  shows "\<exists>d s' s''. drop_line a s = Some (d, s') \<and> lookup a s' = Some (False, s'') \<and> inv s''"
proof -
  obtain d s' where s': "drop_line a s = Some (d, s')" "inv s'" "\<not> held s' a"
    using drop_law [OF assms] same_refl by blast
  then show ?thesis using lookup_law [OF s'(2), of a] by auto
qed

lemma refill:
  assumes "inv s" "held s a"
  shows "\<exists>d s1 out s2. drop_line a s = Some (d, s1) \<and> fill a s1 = Some (out, s2) \<and> inv s2 \<and> held s2 a"
proof -
  obtain d s1 where s1: "drop_line a s = Some (d, s1)" "inv s1" "\<not> held s1 a"
    using drop_law [OF assms] same_refl by blast
  with fill_holds [OF s1(2,3)] show ?thesis by blast
qed

end

interpretation tag_store: line_store fc_inv holds same_line
    "\<lambda>a. fc_access a n ld" "\<lambda>a. fc_insert a n ld" fc_invalidate
proof unfold_locales
  fix fc a b assume inv: "fc_inv fc" and "same_line fc a b"
  then show "holds fc a = holds fc b"
    using fc_inv_set [OF inv, of a] by (metis same_line_def)
next
  fix fc a assume "fc_inv fc" "\<not> holds fc a"
  from fc_insert_spec [OF this, of n ld] obtain out fc' where
    s: "fc_insert a n ld fc = Some (out, fc')" "fc_inv fc'" "same_line fc' = same_line fc"
    and c: "case out of None \<Rightarrow> \<forall>b. holds fc' b \<longleftrightarrow> same_line fc a b \<or> holds fc b
     | Some (e, d) \<Rightarrow> holds fc e \<and> getSetid fc e = getSetid fc a \<and> \<not> same_line fc e a \<and>
         (\<forall>b. holds fc' b \<longleftrightarrow> same_line fc a b \<or> holds fc b \<and> \<not> same_line fc e b)" by blast
  have "case out of None \<Rightarrow> \<forall>b. holds fc' b \<longleftrightarrow> same_line fc a b \<or> holds fc b
     | Some (e, d) \<Rightarrow> holds fc e \<and> \<not> same_line fc e a \<and>
         (\<forall>b. holds fc' b \<longleftrightarrow> same_line fc a b \<or> holds fc b \<and> \<not> same_line fc e b)"
    using c by (simp split: option.splits prod.splits)
  with s show "\<exists>out fc'. fc_insert a n ld fc = Some (out, fc') \<and> fc_inv fc' \<and>
      same_line fc' = same_line fc \<and>
      (case out of None \<Rightarrow> \<forall>b. holds fc' b \<longleftrightarrow> same_line fc a b \<or> holds fc b
       | Some (e, d) \<Rightarrow> holds fc e \<and> \<not> same_line fc e a \<and>
           (\<forall>b. holds fc' b \<longleftrightarrow> same_line fc a b \<or> holds fc b \<and> \<not> same_line fc e b))"
    by (intro exI [of _ out] exI [of _ fc'] conjI) simp_all
next
  fix fc a assume "fc_inv fc"
  then show "\<exists>fc'. fc_access a n ld fc = Some (holds fc a, fc') \<and> fc_inv fc' \<and>
      (\<forall>b. holds fc' b = holds fc b) \<and> same_line fc' = same_line fc"
    by (rule fc_access_spec)
next
  fix fc a assume "fc_inv fc" "holds fc a"
  then show "\<exists>d fc'. fc_invalidate a fc = Some (d, fc') \<and> fc_inv fc' \<and>
      same_line fc' = same_line fc \<and> (\<forall>b. holds fc' b \<longleftrightarrow> holds fc b \<and> \<not> same_line fc a b)"
    by (rule fc_invalidate_spec)
qed (simp add: same_line_def)

section \<open>Properties\<close>

text \<open>
  C24. A lookup in a cache set is exact LRU: the linked list of lines between the sentinels and the
  tag map stand for a list of lines in order of use; \<open>access\<close> never dereferences \<open>NULL\<close>, reports
  a hit exactly when the tag is in the list, moves that line to the front (dirty after a store,
  with the new offset) and leaves the order of the others.
\<close>

theorem cset_access_is_lru:
  assumes "represents s ls"
  shows "\<exists>s'. cset_access t off n ld s = Some (fst (lru_access t off n ld ls), s') \<and>
    represents s' (snd (lru_access t off n ld ls)) \<and> cs_assoc s' = cs_assoc s"
  by (rule cset_access_refines [OF assms])

theorem cset_access_is_lru_witness:
  "\<exists>s1 s2 s3. cset_insert 5 3 0 1 True (new_cache_set 2 64) = Some (None, s1) \<and>
     cset_insert 9 0 0 1 True s1 = Some (None, s2) \<and>
     cset_access 5 7 2 False s2 = Some (True, s3) \<and>
     represents s3 [\<lparr>cl_addr = 5, cl_offset = 7, cl_setid = 0, cl_prev = None, cl_next = None,
        cl_nodeId = 2, cl_numAccesses = 2, cl_rrpv = 0, cl_dirty = True\<rparr>, fresh_line 9 0 0 1 True]"
proof -
  have a: "cs_assoc (new_cache_set w z) = w" for w z by (simp add: new_cache_set_def)
  obtain s1 where s1: "cset_insert 5 3 0 1 True (new_cache_set 2 64) = Some (None, s1)"
    "represents s1 [fresh_line 5 3 0 1 True]" "cs_assoc s1 = 2"
    using cset_insert_refines [OF represents_new, of 5 2 64 3 0 1 True]
    by (auto simp: lru_insert_def a tags_def)
  obtain s2 where s2: "cset_insert 9 0 0 1 True s1 = Some (None, s2)"
    "represents s2 [fresh_line 9 0 0 1 True, fresh_line 5 3 0 1 True]"
    using cset_insert_refines [OF s1(2), of 9 0 0 1 True] s1(3)
    by (auto simp: lru_insert_def tags_def)
  show ?thesis
    using cset_access_is_lru [OF s2(2), of 5 7 2 False] s1(1) s2(1)
    by (auto simp: lru_access_def used_line_def fresh_line_def)
qed

text \<open>
  C23. An insertion of an absent tag is exact LRU replacement: while a way is free nothing is
  evicted, otherwise the least recently used line leaves and is reported with its tag, set, offset
  and dirty flag; the new line is at the front.
\<close>

theorem cset_insert_is_lru:
  assumes "represents s ls" "t \<notin> set (tags ls)" "0 < cs_assoc s"
  shows "\<exists>s'. cset_insert t off sid n ld s =
      Some (fst (lru_insert (cs_assoc s) (fresh_line t off sid n ld) ls), s') \<and>
    represents s' (snd (lru_insert (cs_assoc s) (fresh_line t off sid n ld) ls)) \<and>
    cs_assoc s' = cs_assoc s"
  by (rule cset_insert_refines [OF assms])

theorem cset_insert_is_lru_witness:
  "\<exists>s1 s2 e. cset_insert 5 3 0 1 True (new_cache_set 1 64) = Some (None, s1) \<and>
     cset_insert 9 0 0 1 False s1 = Some (Some e, s2) \<and> ev_addr e = 5 \<and> ev_offset e = 3 \<and>
     \<not> ev_dirty e \<and> represents s2 [fresh_line 9 0 0 1 False]"
proof -
  have a: "cs_assoc (new_cache_set w z) = w" for w z by (simp add: new_cache_set_def)
  obtain s1 where s1: "cset_insert 5 3 0 1 True (new_cache_set 1 64) = Some (None, s1)"
    "represents s1 [fresh_line 5 3 0 1 True]" "cs_assoc s1 = 1"
    using cset_insert_is_lru [OF represents_new, of 5 1 64 3 0 1 True]
    by (auto simp: lru_insert_def a tags_def)
  obtain s2 e where "cset_insert 9 0 0 1 False s1 = Some (Some e, s2)" "ev_addr e = 5"
    "ev_offset e = 3" "\<not> ev_dirty e" "represents s2 [fresh_line 9 0 0 1 False]"
    using cset_insert_is_lru [OF s1(2), of 9 0 0 1 False] s1(3)
    by (auto simp: lru_insert_def tags_def drop_report_def fresh_line_def)
  with s1(1) show ?thesis by blast
qed

text \<open>
  C37. Slicing an address into tag, set and offset and putting them together again as \<open>insert\<close> does
  for a victim is the identity, so the address reported for an evicted line is the address it was
  last accessed by; every address falls into an existing set.
\<close>

theorem address_slices_roundtrip:
  assumes "fc_geometry fc"
  shows "rebuild fc (getTag fc a) (getSetid fc a) (getOffset fc a) = a \<and>
    unat (getSetid fc a) < length (fc_sets fc)"
  using rebuild_slices [OF assms] setid_bound [OF assms] by blast

theorem address_slices_roundtrip_witness:
  "rebuild (new_fcache 4096 4 64) (getTag (new_fcache 4096 4 64) 0x12345) 13 5 = 0x12345"
proof -
  let ?fc = "new_fcache 4096 4 64"
  have g: "fc_geometry ?fc" using new_fcache_inv [of 4 64 4096] by (simp add: fc_inv_def)
  have "getSetid ?fc 0x12345 = 13" "getOffset ?fc 0x12345 = 5"
    by code_simp+
  then show ?thesis using address_slices_roundtrip [OF g, of "0x12345"] by simp
qed

text \<open>
  C15. The contract of a cache level, from any state in which the invariant holds: a lookup of any
  address returns whether its line is held and changes no line; after a miss the insertion does not
  throw, makes the line held and keeps every line but at most one: when a line is dropped, its
  address is the one reported, it was held before, and it is a different line of the same set as the
  inserted one; and the invariant holds again.
\<close>

theorem lookup_then_insert_contract:
  assumes "fc_inv fc"
  shows "\<exists>fc1. fc_access a n ld fc = Some (holds fc a, fc1) \<and> fc_inv fc1 \<and>
    (\<forall>b. holds fc1 b = holds fc b) \<and>
    (holds fc a \<or> (\<exists>out fc2. fc_insert a n ld fc1 = Some (out, fc2) \<and> fc_inv fc2 \<and> holds fc2 a \<and>
       (\<forall>e d. out = Some (e, d) \<longrightarrow>
          holds fc e \<and> getSetid fc1 e = getSetid fc1 a \<and> getTag fc1 e \<noteq> getTag fc1 a) \<and>
       (\<forall>b. holds fc b \<longrightarrow> holds fc2 b \<or> (\<exists>e d. out = Some (e, d) \<and> same_line fc1 e b))))"
proof -
  obtain fc1 where fc1: "fc_access a n ld fc = Some (holds fc a, fc1)" "fc_inv fc1"
    "\<forall>b. holds fc1 b = holds fc b"
    using fc_access_spec [OF assms] by blast
  show ?thesis
  proof (cases "holds fc a")
    case False
    obtain out fc2 where fc2: "fc_insert a n ld fc1 = Some (out, fc2)" "fc_inv fc2" "holds fc2 a"
      using tag_store.fill_holds [OF fc1(2), of a n ld] fc1(3) False by blast
    have e: "holds fc e \<and> getSetid fc1 e = getSetid fc1 a \<and> getTag fc1 e \<noteq> getTag fc1 a"
      if "out = Some (e, d)" for e d
      using fc_insert_spec [OF fc1(2), of a n ld] fc1(3) False fc2(1) that
      by (auto simp: same_line_def)
    have "holds fc2 b \<or> (\<exists>e d. out = Some (e, d) \<and> same_line fc1 e b)" if "holds fc b" for b
      using tag_store.fill_frame [OF fc1(2) _ fc2(1), of b] fc1(3) False that by blast
    with fc1 fc2 e show ?thesis by blast
  qed (use fc1 in blast)
qed

theorem lookup_then_insert_contract_witness:
  "\<exists>fc1 out fc2. fc_access 0x1040 0 True (new_fcache 4096 4 64) = Some (False, fc1) \<and>
     fc_inv fc2 \<and> fc_insert 0x1040 0 True fc1 = Some (out, fc2) \<and> holds fc2 0x1040"
proof -
  let ?fc = "new_fcache 4096 4 64"
  have "fc_inv ?fc" using new_fcache_inv [of 4 64 4096] by simp
  from lookup_then_insert_contract [OF this, of "0x1040" 0 True] show ?thesis
    using new_fcache_empty [of 4096 4 64 "0x1040"]
    by (elim exE conjE disjE) (simp, (intro exI conjI; assumption | simp))
qed

end
