(* ===== verification/SimpleDRAM.thy ===== *)
theory SimpleDRAM
  imports PriorityQueue "HOL-Library.Product_Lexorder" "HOL-Library.Signed_Division"
begin

text \<open>
  \<open>sim/src/mem/SimpleDRAM.cpp\<close>: the fixed-latency memory model behind the last cache.  Requests
  wait in a priority queue ordered by \<open>(final_cycle, trans_id)\<close>; \<open>process\<close> completes the due ones,
  at most \<open>max_req_per_epoch\<close> of them per epoch of \<open>epoch_length\<close> cycles.  The completion callback
  is an argument (\<open>DRAM\<close> supplies \<open>read_complete\<close> and \<open>write_complete\<close>); it may abort.
\<close>

section \<open>Requests and state\<close>

record mem_operator =
  mo_addr :: u64
  mo_final_cycle :: u64
  mo_trans_id :: u64
  mo_isWrite :: bool

text \<open>\<open>MemOpCompare\<close>: the earliest \<open>final_cycle\<close> first, ties by \<open>trans_id\<close>.\<close>

definition mo_key :: "mem_operator \<Rightarrow> u64 \<times> u64" where
  "mo_key m = (mo_final_cycle m, mo_trans_id m)"

record simple_dram =
  sd_latency :: int
  sd_core_clockspeed :: int
  sd_Peak_BW :: int
  sd_pq :: "mem_operator list"
  sd_trans_id :: u64
  sd_epoch_length :: int
  sd_bytes_per_req :: int
  sd_max_req_per_epoch :: int
  sd_request_count :: int
  sd_cycles :: u64

definition new_simple_dram :: "int \<Rightarrow> int \<Rightarrow> simple_dram" where
  "new_simple_dram latency bandwidth =
     \<lparr>sd_latency = latency, sd_core_clockspeed = 2000, sd_Peak_BW = bandwidth, sd_pq = [],
      sd_trans_id = 0, sd_epoch_length = 16, sd_bytes_per_req = 64, sd_max_req_per_epoch = 0,
      sd_request_count = 0, sd_cycles = 0\<rparr>"

section \<open>Operations\<close>

text \<open>
  Both products are computed in \<open>int\<close>; an overflow is undefined and a zero denominator traps, so
  both are aborts here.
\<close>

definition fits_int :: "int \<Rightarrow> bool" where
  "fits_int x \<longleftrightarrow> - (2 ^ 31) \<le> x \<and> x < 2 ^ 31"

definition sd_initialize :: "int \<Rightarrow> int \<Rightarrow> simple_dram \<Rightarrow> simple_dram option" where
  "sd_initialize coreClockspeed bytes_per_req sd =
     do { let sd1 = sd\<lparr>sd_core_clockspeed := coreClockspeed, sd_bytes_per_req := bytes_per_req\<rparr>;
          let num = 1000 * sd_Peak_BW sd1 * sd_epoch_length sd1;
          let denom = sd_bytes_per_req sd1 * sd_core_clockspeed sd1;
          assert_that (fits_int (1000 * sd_Peak_BW sd1) \<and> fits_int num \<and> fits_int denom \<and> denom \<noteq> 0);
          Some (sd1\<lparr>sd_max_req_per_epoch := (if num sdiv denom < 1 then 1 else num sdiv denom)\<rparr>) }"

definition sd_willAcceptTransaction :: "u64 \<Rightarrow> simple_dram \<Rightarrow> bool" where
  "sd_willAcceptTransaction addr sd = True"

definition sd_addTransaction :: "bool \<Rightarrow> u64 \<Rightarrow> simple_dram \<Rightarrow> simple_dram" where
  "sd_addTransaction isWrite addr sd =
     (let memop = \<lparr>mo_addr = addr, mo_final_cycle = sd_cycles sd + word_of_int (sd_latency sd) - 1,
                   mo_trans_id = sd_trans_id sd, mo_isWrite = isWrite\<rparr>
      in sd\<lparr>sd_trans_id := sd_trans_id sd + 1, sd_pq := pq_push mo_key memop (sd_pq sd)\<rparr>)"

text \<open>The loop of \<open>process\<close>.\<close>

function sd_complete_ready ::
    "(mem_operator \<Rightarrow> u64 \<Rightarrow> 's \<Rightarrow> 's option) \<Rightarrow> simple_dram \<Rightarrow> 's \<Rightarrow> (simple_dram \<times> 's) option" where
  "sd_complete_ready complete sd s =
     (if sd_pq sd = [] then Some (sd, s)
      else let memop = pq_top (sd_pq sd)
        in if mo_final_cycle memop > sd_cycles sd \<or> sd_request_count sd \<ge> sd_max_req_per_epoch sd
           then Some (sd, s)
           else do { s' \<leftarrow> complete memop (sd_cycles sd) s;
                     sd_complete_ready complete
                       (sd\<lparr>sd_request_count := sd_request_count sd + 1,
                           sd_pq := pq_pop mo_key (sd_pq sd)\<rparr>) s' })"
  by pat_completeness auto
termination
  by (relation "measure (\<lambda>(c, sd, s). length (sd_pq sd))") (auto simp: length_pq_pop)

declare sd_complete_ready.simps [simp del]

definition sd_tick :: "simple_dram \<Rightarrow> simple_dram" where
  "sd_tick sd =
     (let sd1 = sd\<lparr>sd_cycles := sd_cycles sd + 1\<rparr>
      in if sd_cycles sd1 mod word_of_int (sd_epoch_length sd1) = 0
         then sd1\<lparr>sd_request_count := 0\<rparr> else sd1)"

definition sd_process ::
    "(mem_operator \<Rightarrow> u64 \<Rightarrow> 's \<Rightarrow> 's option) \<Rightarrow> simple_dram \<Rightarrow> 's \<Rightarrow> (bool \<times> simple_dram \<times> 's) option" where
  "sd_process complete sd s =
     do { (sd1, s1) \<leftarrow> sd_complete_ready complete sd s;
          let sd2 = sd_tick sd1;
          Some (sd_pq sd2 \<noteq> [], sd2, s1) }"

lemma sd_tick_simps [simp]:
  "sd_pq (sd_tick sd) = sd_pq sd" "sd_cycles (sd_tick sd) = sd_cycles sd + 1"
  "sd_epoch_length (sd_tick sd) = sd_epoch_length sd"
  "sd_max_req_per_epoch (sd_tick sd) = sd_max_req_per_epoch sd"
  by (simp_all add: sd_tick_def Let_def)

lemma sd_add_simps [simp]:
  "sd_cycles (sd_addTransaction w a sd) = sd_cycles sd"
  "sd_epoch_length (sd_addTransaction w a sd) = sd_epoch_length sd"
  "sd_max_req_per_epoch (sd_addTransaction w a sd) = sd_max_req_per_epoch sd"
  "sd_request_count (sd_addTransaction w a sd) = sd_request_count sd"
  by (simp_all add: sd_addTransaction_def Let_def)

section \<open>What one call of \<open>process\<close> completes\<close>

text \<open>The callbacks of a list of requests in turn.\<close>

fun complete_all ::
    "(mem_operator \<Rightarrow> u64 \<Rightarrow> 's \<Rightarrow> 's option) \<Rightarrow> u64 \<Rightarrow> mem_operator list \<Rightarrow> 's \<Rightarrow> 's option" where
  "complete_all complete now [] s = Some s"
| "complete_all complete now (m # ms) s = complete m now s \<bind> complete_all complete now ms"

definition sd_stop :: "simple_dram \<Rightarrow> nat \<Rightarrow> mem_operator \<Rightarrow> bool" where
  "sd_stop sd n m \<longleftrightarrow> mo_final_cycle m > sd_cycles sd \<or>
     sd_request_count sd + int n \<ge> sd_max_req_per_epoch sd"

definition sd_ready :: "simple_dram \<Rightarrow> mem_operator list" where
  "sd_ready sd = fst (pq_drain mo_key (sd_stop sd) 0 (sd_pq sd))"

definition sd_waiting :: "simple_dram \<Rightarrow> mem_operator list" where
  "sd_waiting sd = snd (pq_drain mo_key (sd_stop sd) 0 (sd_pq sd))"

lemma pq_drain_shift:
  "pq_drain key stop (Suc n) v = pq_drain key (\<lambda>i. stop (Suc i)) n v"
proof (induction key "\<lambda>i. stop (Suc i)" n v rule: pq_drain.induct)
  case (1 key n v)
  then show ?case
    by (subst (1 2) pq_drain.simps) auto
qed

lemma sd_complete_ready_drain:
  "sd_complete_ready complete sd s =
     map_option (Pair (sd\<lparr>sd_request_count := sd_request_count sd + int (length (sd_ready sd)),
                          sd_pq := sd_waiting sd\<rparr>))
       (complete_all complete (sd_cycles sd) (sd_ready sd) s)"
proof (induction complete sd s rule: sd_complete_ready.induct)
  case (1 complete sd s)
  note unf = sd_complete_ready.simps [of complete sd s]
  let ?m = "pq_top (sd_pq sd)"
  let ?sd' = "sd\<lparr>sd_request_count := sd_request_count sd + 1, sd_pq := pq_pop mo_key (sd_pq sd)\<rparr>"
  show ?case
  proof (cases "sd_pq sd = [] \<or> sd_stop sd 0 ?m")
    case True
    then have "sd_ready sd = []" "sd_waiting sd = sd_pq sd"
      by (simp_all add: sd_ready_def sd_waiting_def pq_drain.simps [of mo_key "sd_stop sd"])
    with True show ?thesis by (auto simp: unf sd_stop_def)
  next
    case False
    have "sd_stop ?sd' = (\<lambda>i. sd_stop sd (Suc i))"
      by (auto simp: sd_stop_def fun_eq_iff)
    then have "pq_drain mo_key (sd_stop sd) 0 (sd_pq sd) =
        map_prod ((#) ?m) id (pq_drain mo_key (sd_stop ?sd') 0 (sd_pq ?sd'))"
      using False by (subst pq_drain.simps) (simp add: pq_drain_shift)
    then have rw: "sd_ready sd = ?m # sd_ready ?sd'" "sd_waiting sd = sd_waiting ?sd'"
      by (simp_all add: sd_ready_def sd_waiting_def)
    have "sd_complete_ready complete sd s =
        complete ?m (sd_cycles sd) s \<bind> sd_complete_ready complete ?sd'"
      using False by (auto simp: unf sd_stop_def)
    moreover have "sd_complete_ready complete ?sd' s' =
        map_option (Pair (sd\<lparr>sd_request_count := sd_request_count sd + int (length (sd_ready sd)),
                          sd_pq := sd_waiting sd\<rparr>))
          (complete_all complete (sd_cycles sd) (sd_ready ?sd') s')"
      if "complete ?m (sd_cycles sd) s = Some s'" for s'
      using "1.IH" [OF _ refl _ that] False by (auto simp: sd_stop_def rw add.assoc)
    ultimately show ?thesis
      by (cases "complete ?m (sd_cycles sd) s") (simp_all add: rw)
  qed
qed

lemma sd_process_alt:
  "sd_process complete sd s =
     map_option (\<lambda>s'. (sd_waiting sd \<noteq> [],
         sd_tick (sd\<lparr>sd_request_count := sd_request_count sd + int (length (sd_ready sd)),
                     sd_pq := sd_waiting sd\<rparr>), s'))
       (complete_all complete (sd_cycles sd) (sd_ready sd) s)"
  by (cases "complete_all complete (sd_cycles sd) (sd_ready sd) s")
    (simp_all add: sd_process_def sd_complete_ready_drain sd_tick_def Let_def)

definition sd_inv :: "simple_dram \<Rightarrow> bool" where
  "sd_inv sd \<longleftrightarrow> is_heap mo_key (sd_pq sd) \<and> 1 \<le> sd_max_req_per_epoch sd \<and>
     0 \<le> sd_request_count sd \<and> sd_request_count sd \<le> sd_max_req_per_epoch sd \<and>
     0 < sd_epoch_length sd \<and> sd_epoch_length sd < 2 ^ 31"

lemma sd_ready_facts:
  assumes "sd_inv sd"
  shows "mset (sd_pq sd) = mset (sd_ready sd) + mset (sd_waiting sd)"
    and "m \<in> set (sd_ready sd) \<Longrightarrow> mo_final_cycle m \<le> sd_cycles sd"
    and "sd_request_count sd + int (length (sd_ready sd)) \<le> sd_max_req_per_epoch sd"
    and "sorted (map mo_key (sd_ready sd))"
    and "m \<in> set (sd_ready sd) \<Longrightarrow> m' \<in> set (sd_waiting sd) \<Longrightarrow> mo_key m \<le> mo_key m'"
    and "is_heap mo_key (sd_waiting sd)"
    and "m' \<in> set (sd_waiting sd) \<Longrightarrow> mo_final_cycle m' \<le> sd_cycles sd \<Longrightarrow>
      sd_request_count sd + int (length (sd_ready sd)) = sd_max_req_per_epoch sd"
proof -
  have h: "is_heap mo_key (sd_pq sd)" using assms by (simp add: sd_inv_def)
  have d: "pq_drain mo_key (sd_stop sd) 0 (sd_pq sd) = (sd_ready sd, sd_waiting sd)"
    by (simp add: sd_ready_def sd_waiting_def)
  have go: "\<not> sd_stop sd i (sd_ready sd ! i)" if "i < length (sd_ready sd)" for i
    using pq_drain_continue [OF d that] by simp
  show "mset (sd_pq sd) = mset (sd_ready sd) + mset (sd_waiting sd)"
    by (rule pq_drain_elems [OF d h])
  show "m \<in> set (sd_ready sd) \<Longrightarrow> mo_final_cycle m \<le> sd_cycles sd"
    using go by (fastforce simp: in_set_conv_nth sd_stop_def not_less)
  show cap: "sd_request_count sd + int (length (sd_ready sd)) \<le> sd_max_req_per_epoch sd"
  proof (cases "sd_ready sd = []")
    case False
    then show ?thesis using go [of "length (sd_ready sd) - 1"]
      by (auto simp: sd_stop_def of_nat_diff Suc_le_eq)
  qed (use assms in \<open>simp add: sd_inv_def\<close>)
  show "sorted (map mo_key (sd_ready sd))" by (rule pq_drain_sorted [OF d h])
  show "m \<in> set (sd_ready sd) \<Longrightarrow> m' \<in> set (sd_waiting sd) \<Longrightarrow> mo_key m \<le> mo_key m'"
    using pq_drain_least [OF d h] by simp
  show hw: "is_heap mo_key (sd_waiting sd)" by (rule pq_drain_inv [OF d h])
  assume m': "m' \<in> set (sd_waiting sd)" "mo_final_cycle m' \<le> sd_cycles sd"
  then have "sd_stop sd (length (sd_ready sd)) (pq_top (sd_waiting sd))"
    using pq_drain_exit [OF d] by auto
  moreover have "mo_key (pq_top (sd_waiting sd)) \<le> mo_key m'"
    using heap.top_least [OF hw] m'(1) by simp
  then have "mo_final_cycle (pq_top (sd_waiting sd)) \<le> mo_final_cycle m'"
    by (auto simp: mo_key_def less_eq_prod_def)
  ultimately show "sd_request_count sd + int (length (sd_ready sd)) = sd_max_req_per_epoch sd"
    using m'(2) cap by (auto simp: sd_stop_def)
qed

lemma sd_inv_initialize:
  assumes "sd_initialize clk bytes sd = Some sd'" "is_heap mo_key (sd_pq sd)"
    "sd_request_count sd = 0" "0 < sd_epoch_length sd" "sd_epoch_length sd < 2 ^ 31"
  shows "sd_inv sd'"
  using assms by (auto simp: sd_initialize_def sd_inv_def Let_def)

lemma sd_inv_add: "sd_inv sd \<Longrightarrow> sd_inv (sd_addTransaction w a sd)"
  by (simp add: sd_inv_def sd_addTransaction_def Let_def pq_push_heap)

lemma sd_inv_tick:
  assumes "sd_inv sd"
  shows "sd_inv (sd_tick (sd\<lparr>sd_request_count := sd_request_count sd + int (length (sd_ready sd)),
    sd_pq := sd_waiting sd\<rparr>))"
  using assms sd_ready_facts(3,6) [OF assms] by (auto simp: sd_inv_def sd_tick_def Let_def)

section \<open>Runs\<close>

text \<open>
  A run is any sequence of arrivals and cycles; its log pairs each completed request with the cycle
  it completed in.
\<close>

datatype sd_event = Arrive bool u64 | Cycle

definition log_completion ::
    "mem_operator \<Rightarrow> u64 \<Rightarrow> (u64 \<times> mem_operator) list \<Rightarrow> (u64 \<times> mem_operator) list option" where
  "log_completion m now log = Some (log @ [(now, m)])"

fun sd_run ::
    "sd_event list \<Rightarrow> simple_dram \<times> (u64 \<times> mem_operator) list
     \<Rightarrow> simple_dram \<times> (u64 \<times> mem_operator) list" where
  "sd_run [] (sd, log) = (sd, log)"
| "sd_run (Arrive w a # es) (sd, log) = sd_run es (sd_addTransaction w a sd, log)"
| "sd_run (Cycle # es) (sd, log) =
     (case sd_process log_completion sd log of
        Some (_, sd', log') \<Rightarrow> sd_run es (sd', log')
      | None \<Rightarrow> (sd, log))"

lemma complete_all_log [simp]:
  "complete_all log_completion now ms log = Some (log @ map (Pair now) ms)"
  by (induction ms arbitrary: log) (simp_all add: log_completion_def)

lemma sd_run_Cycle [simp]:
  "sd_run (Cycle # es) (sd, log) =
     sd_run es (sd_tick (sd\<lparr>sd_request_count := sd_request_count sd + int (length (sd_ready sd)),
         sd_pq := sd_waiting sd\<rparr>), log @ map (Pair (sd_cycles sd)) (sd_ready sd))"
  by (simp add: sd_process_alt)

declare sd_run.simps(3) [simp del]

text \<open>Completions per epoch, where the cycle counter is read as a number.\<close>

definition in_epoch :: "nat \<Rightarrow> nat \<Rightarrow> (u64 \<times> mem_operator) list \<Rightarrow> nat" where
  "in_epoch len k log = length (filter (\<lambda>(c, m). unat c div len = k) log)"

definition epoch_cap :: "simple_dram \<Rightarrow> nat \<Rightarrow> int" where
  "epoch_cap sd k =
     (let now = unat (sd_cycles sd) div nat (sd_epoch_length sd)
      in if k = now then sd_request_count sd else if k < now then sd_max_req_per_epoch sd else 0)"

definition log_inv :: "simple_dram \<Rightarrow> (u64 \<times> mem_operator) list \<Rightarrow> bool" where
  "log_inv sd log \<longleftrightarrow> sd_inv sd \<and>
     (\<forall>k. int (in_epoch (nat (sd_epoch_length sd)) k log) \<le> epoch_cap sd k) \<and>
     (\<forall>(c, m)\<in>set log. mo_final_cycle m \<le> c)"

lemma in_epoch_append: "in_epoch len k (l @ map (Pair c) ms) =
    in_epoch len k l + (if unat c div len = k then length ms else 0)"
  by (simp add: in_epoch_def filter_map o_def)

lemma epoch_next:
  assumes "0 < n"
  shows "Suc c div n = (if Suc c mod n = 0 then Suc (c div n) else c div n)"
  using assms by (simp add: div_Suc)

lemma log_inv_cycle:
  assumes inv: "log_inv sd log" and room: "Suc (unat (sd_cycles sd)) < 2 ^ 64"
  shows "log_inv (sd_tick (sd\<lparr>sd_request_count := sd_request_count sd + int (length (sd_ready sd)),
      sd_pq := sd_waiting sd\<rparr>)) (log @ map (Pair (sd_cycles sd)) (sd_ready sd))"
    (is "log_inv ?sd' ?log'")
proof -
  let ?n = "nat (sd_epoch_length sd)" and ?c = "unat (sd_cycles sd)"
  have i: "sd_inv sd" using inv by (simp add: log_inv_def)
  have n: "0 < ?n" "?n < 2 ^ 31" using i by (auto simp: sd_inv_def nat_less_iff)
  have c': "unat (sd_cycles sd + 1) = Suc ?c"
    using room by (simp add: unat_word_ariths)
  have len: "unat (word_of_int (sd_epoch_length sd) :: u64) = ?n"
    using i by (simp add: sd_inv_def unat_eq_nat_uint uint_word_of_int nat_less_iff)
  have reset: "(sd_cycles sd + 1) mod word_of_int (sd_epoch_length sd) = 0 \<longleftrightarrow> Suc ?c mod ?n = 0"
    by (simp add: word_eq_iff_unsigned [where 'a = nat] unat_mod c' len)
  have cnt: "sd_request_count ?sd' = (if Suc ?c mod ?n = 0 then 0
      else sd_request_count sd + int (length (sd_ready sd)))"
    by (simp add: sd_tick_def Let_def reset)
  have cap: "sd_request_count sd + int (length (sd_ready sd)) \<le> sd_max_req_per_epoch sd"
    by (rule sd_ready_facts(3) [OF i])
  have "int (in_epoch ?n k ?log') \<le> epoch_cap ?sd' k" for k
  proof -
    have "int (in_epoch ?n k log) \<le> epoch_cap sd k"
      using inv by (simp add: log_inv_def)
    then show ?thesis
      using cap epoch_next [OF n(1), of ?c]
      by (auto simp: in_epoch_append epoch_cap_def Let_def cnt c' split: if_splits)
  qed
  moreover have "\<forall>(c, m)\<in>set ?log'. mo_final_cycle m \<le> c"
    using inv sd_ready_facts(2) [OF i] by (auto simp: log_inv_def)
  ultimately show ?thesis
    using sd_inv_tick [OF i] by (simp add: log_inv_def)
qed

definition cycles_in :: "sd_event list \<Rightarrow> nat" where
  "cycles_in es = length (filter (\<lambda>e. e = Cycle) es)"

lemma log_inv_run:
  assumes "log_inv sd log" "unat (sd_cycles sd) + cycles_in es < 2 ^ 64"
    "sd_run es (sd, log) = (sd', log')"
  shows "log_inv sd' log' \<and> sd_epoch_length sd' = sd_epoch_length sd \<and>
    sd_max_req_per_epoch sd' = sd_max_req_per_epoch sd"
  using assms
proof (induction es arbitrary: sd log)
  case (Cons e es)
  show ?case
  proof (cases e)
    case (Arrive w a)
    let ?sd1 = "sd_addTransaction w a sd"
    have "log_inv ?sd1 log"
      using Cons.prems(1) by (simp add: log_inv_def sd_inv_add epoch_cap_def Let_def cong: if_cong)
    then show ?thesis
      using Cons.IH [of ?sd1 log] Cons.prems(2,3) Arrive by (simp add: cycles_in_def)
  next
    case Cycle
    let ?sd1 = "sd_tick (sd\<lparr>sd_request_count := sd_request_count sd + int (length (sd_ready sd)),
         sd_pq := sd_waiting sd\<rparr>)"
    have room: "Suc (unat (sd_cycles sd)) < 2 ^ 64"
      using Cons.prems(2) Cycle by (simp add: cycles_in_def)
    have "unat (sd_cycles ?sd1) = Suc (unat (sd_cycles sd))"
      using room by (simp add: unat_word_ariths)
    then show ?thesis
      using Cons.IH [OF log_inv_cycle [OF Cons.prems(1) room]] Cons.prems(2,3) Cycle
      by (simp add: cycles_in_def)
  qed
qed simp

lemma log_inv_empty: "sd_inv sd \<Longrightarrow> log_inv sd []"
  by (auto simp: log_inv_def in_epoch_def sd_inv_def epoch_cap_def Let_def)

section \<open>Properties\<close>

text \<open>
  C30. Bandwidth and latency of the memory model over any run: from an initialised state, whatever
  requests arrive between the cycles, no epoch completes more than \<open>max_req_per_epoch\<close> requests and
  no request completes before its \<open>final_cycle\<close>, as long as the cycle counter does not wrap.
\<close>

theorem dram_bandwidth_and_latency:
  assumes "sd_inv sd" "sd_run es (sd, []) = (sd', log)"
    "unat (sd_cycles sd) + cycles_in es < 2 ^ 64"
  shows "(\<forall>k. int (in_epoch (nat (sd_epoch_length sd)) k log) \<le> sd_max_req_per_epoch sd) \<and>
    (\<forall>(c, m)\<in>set log. mo_final_cycle m \<le> c)"
proof -
  have r: "log_inv sd' log" "sd_epoch_length sd' = sd_epoch_length sd"
    "sd_max_req_per_epoch sd' = sd_max_req_per_epoch sd"
    using log_inv_run [OF log_inv_empty [OF assms(1)] assms(3,2)] by auto
  have b: "sd_request_count sd' \<le> sd_max_req_per_epoch sd'" "0 \<le> sd_max_req_per_epoch sd'"
    using r(1) by (auto simp: log_inv_def sd_inv_def)
  have "int (in_epoch (nat (sd_epoch_length sd)) k log) \<le> sd_max_req_per_epoch sd" for k
  proof -
    have "int (in_epoch (nat (sd_epoch_length sd')) k log) \<le> epoch_cap sd' k"
      using r(1) by (simp add: log_inv_def)
    with b show ?thesis unfolding r(2,3) epoch_cap_def Let_def by (auto split: if_splits)
  qed
  moreover have "\<forall>(c, m)\<in>set log. mo_final_cycle m \<le> c"
    using r(1) by (simp add: log_inv_def)
  ultimately show ?thesis by blast
qed

theorem dram_bandwidth_and_latency_witness:
  "\<exists>sd. sd_initialize 2000 64 (new_simple_dram 2 0) = Some sd \<and> sd_max_req_per_epoch sd = 1 \<and>
     in_epoch 16 0 (snd (sd_run (replicate 3 (Arrive False 64) @ replicate 9 Cycle) (sd, []))) \<le> 1"
proof -
  obtain sd where sd: "sd_initialize 2000 64 (new_simple_dram 2 0) = Some sd"
      "sd_max_req_per_epoch sd = 1" "sd_epoch_length sd = 16" "sd_cycles sd = 0"
    by (simp add: sd_initialize_def new_simple_dram_def Let_def fits_int_def)
  have inv: "sd_inv sd"
    by (rule sd_inv_initialize [OF sd(1)]) (simp_all add: new_simple_dram_def)
  let ?es = "replicate 3 (Arrive False 64) @ replicate 9 Cycle"
  obtain sd' log where run: "sd_run ?es (sd, []) = (sd', log)" by (metis surj_pair)
  have "cycles_in ?es \<le> 12" by (simp add: cycles_in_def filter_replicate)
  then have "unat (sd_cycles sd) + cycles_in ?es < 2 ^ 64" using sd(4) by simp
  from dram_bandwidth_and_latency [OF inv run this] show ?thesis
    using sd run by auto
qed

text \<open>
  One call of \<open>process\<close> completes exactly what it should: it splits the queue into the completed
  and the waiting requests, completes in order of \<open>final_cycle\<close> and then of arrival number, nothing
  that waits precedes anything completed, and a due request waits only when the epoch's budget is
  used up.
\<close>

theorem dram_process_exact:
  assumes "sd_inv sd" "sd_process log_completion sd [] = Some (busy, sd', log)"
  shows "\<exists>done. log = map (Pair (sd_cycles sd)) done \<and>
    mset (sd_pq sd) = mset done + mset (sd_pq sd') \<and> sorted (map mo_key done) \<and>
    (\<forall>m\<in>set done. \<forall>m'\<in>set (sd_pq sd'). mo_key m \<le> mo_key m') \<and>
    (\<forall>m'\<in>set (sd_pq sd'). mo_final_cycle m' \<le> sd_cycles sd \<longrightarrow>
       sd_request_count sd + int (length done) = sd_max_req_per_epoch sd) \<and>
    busy = (sd_pq sd' \<noteq> []) \<and> sd_inv sd'"
proof -
  have p: "log = map (Pair (sd_cycles sd)) (sd_ready sd)" "busy = (sd_waiting sd \<noteq> [])"
    "sd' = sd_tick (sd\<lparr>sd_request_count := sd_request_count sd + int (length (sd_ready sd)),
       sd_pq := sd_waiting sd\<rparr>)"
    using assms(2) by (auto simp: sd_process_alt)
  have q: "sd_pq sd' = sd_waiting sd" by (simp add: p(3))
  show ?thesis
    using sd_ready_facts [OF assms(1)] sd_inv_tick [OF assms(1)]
    unfolding q by (intro exI [of _ "sd_ready sd"]) (simp add: p(1,2) flip: p(3))
qed

theorem dram_process_exact_witness:
  "\<exists>busy sd' log. sd_process log_completion (sd_addTransaction False 64 ((new_simple_dram 1 12)
     \<lparr>sd_max_req_per_epoch := 1\<rparr>)) [] = Some (busy, sd', log) \<and> busy = (sd_pq sd' \<noteq> []) \<and> sd_inv sd'"
proof -
  let ?sd = "sd_addTransaction False 64 ((new_simple_dram 1 12)\<lparr>sd_max_req_per_epoch := 1\<rparr>)"
  have inv: "sd_inv ?sd" by (rule sd_inv_add) (simp add: sd_inv_def new_simple_dram_def)
  obtain busy sd' log where p: "sd_process log_completion ?sd [] = Some (busy, sd', log)"
    by (simp add: sd_process_alt)
  from dram_process_exact [OF inv this] p show ?thesis by blast
qed

text \<open>
  Initialisation gives every epoch a budget of at least one request, however small the
  bandwidth is against the clock, and otherwise the quotient of the two rates; it aborts exactly
  when a product leaves \<open>int\<close> or the divisor is zero.
\<close>

theorem dram_initialize_budget:
  "sd_initialize clk bytes sd =
     (if fits_int (1000 * sd_Peak_BW sd) \<and> fits_int (1000 * sd_Peak_BW sd * sd_epoch_length sd) \<and>
         fits_int (bytes * clk) \<and> bytes * clk \<noteq> 0
      then Some (sd\<lparr>sd_core_clockspeed := clk, sd_bytes_per_req := bytes, sd_max_req_per_epoch :=
             max 1 ((1000 * sd_Peak_BW sd * sd_epoch_length sd) sdiv (bytes * clk))\<rparr>)
      else None)"
  by (auto simp: sd_initialize_def Let_def max_def)

end
