(* ===== verification/Transactions.thy ===== *)
theory Transactions
  imports Prelude
begin

text \<open>
  \<open>sim/include/mem/mem_transaction.h\<close>.  Caches, LSU, IFU and DMA engine pass \<open>MemTransaction *\<close>
  around and share the object, so the objects live in an explicit store; a pointer is its number.
  \<open>ts_deleted\<close> logs the calls of \<open>delete\<close>, in order.
\<close>

record mem_txn =
  t_dynID :: int
  t_hwID :: int
  t_op :: "nat option"
  t_addr :: u64
  t_isLoad :: bool
  t_fromICache :: bool
  t_isPrefetch :: bool
  t_issuedPrefetch :: bool
  t_isHit :: bool
  t_signal_no_stall :: bool
  t_fromDMA :: bool
  t_dma_req_id :: u64

definition MemTransaction :: "int \<Rightarrow> int \<Rightarrow> nat option \<Rightarrow> u64 \<Rightarrow> bool \<Rightarrow> bool \<Rightarrow> mem_txn" where
  "MemTransaction dynID hwID dynop addr isLoad fromICache =
     \<lparr>t_dynID = dynID, t_hwID = hwID, t_op = dynop, t_addr = addr, t_isLoad = isLoad,
      t_fromICache = fromICache, t_isPrefetch = False, t_issuedPrefetch = False, t_isHit = False,
      t_signal_no_stall = False, t_fromDMA = False, t_dma_req_id = 0\<rparr>"

record txn_store =
  ts_txn :: "nat \<Rightarrow> mem_txn"
  ts_next :: nat
  ts_deleted :: "nat list"

definition new_txn :: "mem_txn \<Rightarrow> txn_store \<Rightarrow> nat \<times> txn_store" where
  "new_txn t m = (ts_next m, m\<lparr>ts_txn := (ts_txn m)(ts_next m := t), ts_next := ts_next m + 1\<rparr>)"

definition upd_txn :: "nat \<Rightarrow> (mem_txn \<Rightarrow> mem_txn) \<Rightarrow> txn_store \<Rightarrow> txn_store" where
  "upd_txn i f m = m\<lparr>ts_txn := (ts_txn m)(i := f (ts_txn m i))\<rparr>"

definition delete_txn :: "nat \<Rightarrow> txn_store \<Rightarrow> txn_store" where
  "delete_txn i m = m\<lparr>ts_deleted := ts_deleted m @ [i]\<rparr>"

lemma delete_txn_simps [simp]:
  "ts_txn (delete_txn i m) = ts_txn m" "ts_next (delete_txn i m) = ts_next m"
  "ts_deleted (delete_txn i m) = ts_deleted m @ [i]"
  by (simp_all add: delete_txn_def)

lemma upd_txn_simps [simp]:
  "ts_txn (upd_txn i f m) = (ts_txn m)(i := f (ts_txn m i))" "ts_next (upd_txn i f m) = ts_next m"
  "ts_deleted (upd_txn i f m) = ts_deleted m"
  by (simp_all add: upd_txn_def)

end
