(* ===== verification/Cache.thy ===== *)
theory Cache
  imports Transactions FunctionalCache PriorityQueue "HOL-Library.AList"
begin

text \<open>
  One cache level: \<open>sim/src/mem/cache.cpp\<close> and \<open>sim/include/mem/cache.h\<close>.  Requests enter
  \<open>incomingRequests\<close>, wait in \<open>pq\<close> for the access latency, then leave as hits to
  \<open>outcomingResponses\<close> or as misses into the MSHRs, where all misses of one line wait for the one
  request sent on.  The operations that touch a neighbouring level are in \<open>MemSystem\<close>.
\<close>

section \<open>State\<close>

record cache =
  c_level :: nat
  c_isICache :: bool
  c_latency :: int
  c_cycle :: u64
  c_fc :: fcache
  c_cacheLineSize :: nat
  c_useMSHR :: bool
  c_mshrSize :: int
  c_mshr :: "(u64 \<times> nat list) list"
  c_incomingRequests :: "nat list"
  c_incomingResponses :: "nat list"
  c_outcomingRequests :: "nat list"
  c_outcomingResponses :: "nat list"
  c_stalledTransactions :: "nat list"
  c_pq :: "(nat \<times> u64) list"
  c_evictAddresses :: "(u64 \<times> bool) list"
  c_to_prefetch :: "nat list"
  c_load_ports :: int
  c_store_ports :: int
  c_prefetch_ports :: int
  c_free_load_ports :: int
  c_free_store_ports :: int
  c_free_prefetch_ports :: int
  c_nhit :: int
  c_nmiss :: int
  c_portStall :: u64
  c_read_accesses :: u64
  c_write_accesses :: u64
  c_read_misses :: u64
  c_write_misses :: u64

definition new_cache ::
    "nat \<Rightarrow> bool \<Rightarrow> int \<Rightarrow> nat \<Rightarrow> nat \<Rightarrow> nat \<Rightarrow> int \<Rightarrow> int \<Rightarrow> int \<Rightarrow> cache" where
  "new_cache level isICache latency lineSize bytes ways mshrs store_ports load_ports =
     \<lparr>c_level = level, c_isICache = isICache, c_latency = latency, c_cycle = 0,
      c_fc = new_fcache bytes ways lineSize, c_cacheLineSize = lineSize,
      c_useMSHR = (mshrs \<noteq> 0), c_mshrSize = (if mshrs = 0 then 8 else mshrs), c_mshr = [],
      c_incomingRequests = [], c_incomingResponses = [], c_outcomingRequests = [],
      c_outcomingResponses = [], c_stalledTransactions = [], c_pq = [], c_evictAddresses = [],
      c_to_prefetch = [], c_load_ports = load_ports, c_store_ports = store_ports,
      c_prefetch_ports = 1, c_free_load_ports = load_ports, c_free_store_ports = store_ports,
      c_free_prefetch_ports = 1, c_nhit = 0, c_nmiss = 0, c_portStall = 0, c_read_accesses = 0,
      c_write_accesses = 0, c_read_misses = 0, c_write_misses = 0\<rparr>"

definition line_of :: "cache \<Rightarrow> u64 \<Rightarrow> u64" where
  "line_of c a = a div of_nat (c_cacheLineSize c)"

section \<open>Ports\<close>

definition willAcceptTransaction :: "txn_store \<Rightarrow> nat option \<Rightarrow> cache \<Rightarrow> bool" where
  "willAcceptTransaction m t c =
     (case t of
        None \<Rightarrow> c_free_store_ports c > 0 \<or> c_store_ports c = - 1
      | Some i \<Rightarrow>
          if t_hwID (ts_txn m i) = - 1 then c_free_store_ports c > 0 \<or> c_store_ports c = - 1
          else if t_isLoad (ts_txn m i) then c_free_load_ports c > 0 \<or> c_load_ports c = - 1
          else if t_isPrefetch (ts_txn m i) then c_free_prefetch_ports c > 0 \<or> c_prefetch_ports c = - 1
          else c_free_store_ports c > 0 \<or> c_store_ports c = - 1)"

definition recvRequest :: "txn_store \<Rightarrow> nat \<Rightarrow> cache \<Rightarrow> cache option" where
  "recvRequest m req c =
     (let c1 = c\<lparr>c_incomingRequests := c_incomingRequests c @ [req]\<rparr>
      in if t_isLoad (ts_txn m req) then
           do { let c2 = c1\<lparr>c_free_load_ports := c_free_load_ports c1 - 1\<rparr>;
                assert_that (c_free_load_ports c2 \<ge> 0);
                Some c2 }
         else if t_isPrefetch (ts_txn m req) then
           do { let c2 = c1\<lparr>c_free_prefetch_ports := c_free_prefetch_ports c1 - 1\<rparr>;
                assert_that (c_free_prefetch_ports c2 \<ge> 0);
                Some c2 }
         else
           do { let c2 = c1\<lparr>c_free_store_ports := c_free_store_ports c1 - 1\<rparr>;
                assert_that (c_free_store_ports c2 \<ge> 0);
                Some c2 })"

definition recvResponse :: "nat \<Rightarrow> cache \<Rightarrow> cache" where
  "recvResponse resp c = c\<lparr>c_incomingResponses := c_incomingResponses c @ [resp]\<rparr>"

section \<open>Miss status holding registers\<close>

definition mshr_has :: "u64 \<Rightarrow> cache \<Rightarrow> bool" where
  "mshr_has k c \<longleftrightarrow> map_of (c_mshr c) k \<noteq> None"

definition enterMSHR :: "txn_store \<Rightarrow> nat \<Rightarrow> cache \<Rightarrow> bool \<times> cache" where
  "enterMSHR m t c =
     (let cacheline = line_of c (t_addr (ts_txn m t))
      in if \<not> mshr_has cacheline c \<and> int (length (c_mshr c)) \<ge> uint (word_of_int (c_mshrSize c) :: u64)
         then (True, c)
         else
           let c1 = (if mshr_has cacheline c then c
                     else c\<lparr>c_mshr := (cacheline, []) # c_mshr c,
                            c_outcomingRequests := c_outcomingRequests c @ [t]\<rparr>)
           in (False, c1\<lparr>c_mshr := AList.map_entry cacheline (\<lambda>ops. ops @ [t]) (c_mshr c1)\<rparr>))"

definition updateMSHR :: "txn_store \<Rightarrow> nat \<Rightarrow> cache \<Rightarrow> cache option" where
  "updateMSHR m t c =
     (let cacheline = line_of c (t_addr (ts_txn m t))
      in do { ops \<leftarrow> map_of (c_mshr c) cacheline;
              Some (c\<lparr>c_outcomingResponses := c_outcomingResponses c @ ops,
                      c_mshr := AList.delete cacheline (c_mshr c)\<rparr>) })"

section \<open>Requests\<close>

definition addTransaction :: "nat \<Rightarrow> u64 \<Rightarrow> cache \<Rightarrow> cache" where
  "addTransaction t extra_lat c =
     c\<lparr>c_pq := pq_push snd (t, c_cycle c + word_of_int (c_latency c) + extra_lat) (c_pq c)\<rparr>"

definition addPrefetch :: "nat \<Rightarrow> u64 \<Rightarrow> cache \<Rightarrow> cache" where
  "addPrefetch t extra_lat c =
     c\<lparr>c_pq := pq_push snd (t, c_cycle c + word_of_int (c_latency c) + extra_lat) (c_pq c),
       c_free_prefetch_ports := c_free_prefetch_ports c - 1\<rparr>"

text \<open>
  The loop of \<open>handleRequests\<close>; the flag says whether the level is the L1 instruction cache, where
  \<open>L1Cache::handleRequests\<close> also sets \<open>signal_no_stall\<close>.
\<close>

definition handle_request :: "nat \<Rightarrow> txn_store \<times> cache \<Rightarrow> (txn_store \<times> cache) option" where
  "handle_request req = (\<lambda>(m, c).
     do { let c1 = addTransaction req (- 1) c;
          let c2 = c1\<lparr>c_incomingRequests := tl (c_incomingRequests c1)\<rparr>;
          (hit, fc') \<leftarrow> fc_access (t_addr (ts_txn m req)) (t_dynID (ts_txn m req))
                          (t_isLoad (ts_txn m req)) (c_fc c2);
          let m1 = upd_txn req (\<lambda>t. t\<lparr>t_isHit := hit\<rparr>) m;
          let m2 = (if c_level c = 1 \<and> c_isICache c
                    then upd_txn req (\<lambda>t. t\<lparr>t_signal_no_stall := True\<rparr>) m1 else m1);
          Some (m2, c2\<lparr>c_fc := fc'\<rparr>) })"

fun handle_requests :: "nat list \<Rightarrow> txn_store \<times> cache \<Rightarrow> (txn_store \<times> cache) option" where
  "handle_requests [] s = Some s"
| "handle_requests (r # rs) s = handle_request r s \<bind> handle_requests rs"

definition handleRequests :: "txn_store \<times> cache \<Rightarrow> (txn_store \<times> cache) option" where
  "handleRequests s = handle_requests (c_incomingRequests (snd s)) s"

section \<open>Accesses\<close>

fun retry_stalled :: "txn_store \<Rightarrow> nat list \<Rightarrow> cache \<Rightarrow> nat list \<times> cache" where
  "retry_stalled m [] c = ([], c)"
| "retry_stalled m (t # ts) c =
     (let (full, c1) = enterMSHR m t c; (rest, c2) = retry_stalled m ts c1
      in (if full then t # rest else rest, c2))"

text \<open>The counters.\<close>

definition count_access :: "mem_txn \<Rightarrow> cache \<Rightarrow> cache" where
  "count_access t c =
     (if t_isLoad t then c\<lparr>c_read_accesses := c_read_accesses c + 1\<rparr>
      else c\<lparr>c_write_accesses := c_write_accesses c + 1\<rparr>)"

definition count_miss :: "mem_txn \<Rightarrow> cache \<Rightarrow> cache" where
  "count_miss t c =
     (if t_isLoad t then c\<lparr>c_read_misses := c_read_misses c + 1\<rparr>
      else c\<lparr>c_write_misses := c_write_misses c + 1\<rparr>)"

text \<open>The body of the loop over \<open>pq\<close>, after the \<open>pop\<close>.\<close>

definition process_one :: "nat \<Rightarrow> txn_store \<times> cache \<Rightarrow> txn_store \<times> cache" where
  "process_one t = (\<lambda>(m, c).
     (let tx = ts_txn m t; c1 = count_access tx c
      in if t_isHit tx then
           if t_hwID tx \<noteq> - 1
           then (m, c1\<lparr>c_outcomingResponses := c_outcomingResponses c1 @ [t], c_nhit := c_nhit c1 + 1\<rparr>)
           else (delete_txn t m, c1)
         else if t_hwID tx \<noteq> - 1 then
           let c2 = c1\<lparr>c_nmiss := c_nmiss c1 + 1\<rparr>;
               c3 = (if c_useMSHR c2 then
                       if c_level c2 = 1 \<and> t_isPrefetch tx
                       then c2\<lparr>c_outcomingRequests := c_outcomingRequests c2 @ [t]\<rparr>
                       else let (full, c') = enterMSHR m t c2
                            in if full
                               then c'\<lparr>c_stalledTransactions := c_stalledTransactions c' @ [t]\<rparr>
                               else c'
                     else c2\<lparr>c_outcomingRequests := c_outcomingRequests c2 @ [t]\<rparr>)
           in (m, count_miss tx c3)
         else (delete_txn t m, c1)))"

lemma count_pq [simp]: "c_pq (count_access t c) = c_pq c" "c_pq (count_miss t c) = c_pq c"
  by (simp_all add: count_access_def count_miss_def)

lemma enterMSHR_pq [simp]: "c_pq (snd (enterMSHR m t c)) = c_pq c"
  by (simp add: enterMSHR_def Let_def)

lemma process_one_pq [simp]: "c_pq (snd (process_one t s)) = c_pq (snd s)"
  by (simp add: process_one_def Let_def split_beta)

function process_ready :: "txn_store \<times> cache \<Rightarrow> txn_store \<times> cache" where
  "process_ready s =
     (if c_pq (snd s) = [] then s
      else if snd (pq_top (c_pq (snd s))) > c_cycle (snd s) then s
      else let t = fst (pq_top (c_pq (snd s)));
               s1 = (fst s, (snd s)\<lparr>c_pq := pq_pop snd (c_pq (snd s))\<rparr>)
           in process_ready (process_one t s1))"
  by pat_completeness auto
termination
  by (relation "measure (\<lambda>s. length (c_pq (snd s)))") (auto simp: length_pq_pop)

declare process_ready.simps [simp del]

definition cache_process :: "txn_store \<times> cache \<Rightarrow> txn_store \<times> cache" where
  "cache_process = (\<lambda>(m, c).
     (let (stalled, c1) = retry_stalled m (c_stalledTransactions c) c
      in process_ready (m, c1\<lparr>c_stalledTransactions := stalled\<rparr>)))"

text \<open>The loop over \<open>to_prefetch\<close> at the head of \<open>L1Cache::process\<close>.\<close>

fun issue_prefetches :: "nat list \<Rightarrow> cache \<Rightarrow> nat list \<times> cache" where
  "issue_prefetches [] c = ([], c)"
| "issue_prefetches (t # ts) c =
     (if c_free_prefetch_ports c > 0 then issue_prefetches ts (addPrefetch t (- 1) c)
      else (t # ts, c))"

section \<open>Responses\<close>

definition completeTransaction :: "txn_store \<Rightarrow> nat \<Rightarrow> cache \<Rightarrow> cache option" where
  "completeTransaction m t c =
     do { (out, fc') \<leftarrow> fc_insert (t_addr (ts_txn m t)) (t_dynID (ts_txn m t))
                          (t_isLoad (ts_txn m t)) (c_fc c);
          let c1 = c\<lparr>c_fc := fc'\<rparr>;
          case out of
            None \<Rightarrow> Some c1
          | Some (evictedAddr, dirtyEvict) \<Rightarrow>
              if evictedAddr = - 1 then Some c1
              else do { assert_that (sint evictedAddr \<ge> 0);
                        Some (c1\<lparr>c_evictAddresses := c_evictAddresses c1 @ [(evictedAddr, dirtyEvict)]\<rparr>) } }"

definition handle_response :: "txn_store \<Rightarrow> nat \<Rightarrow> cache \<Rightarrow> cache option" where
  "handle_response m resp c =
     do { c1 \<leftarrow> completeTransaction m resp c;
          if c_useMSHR c1 then
            if c_level c1 = 1 \<and> t_isPrefetch (ts_txn m resp) then Some c1
            else do { assert_that (mshr_has (line_of c1 (t_addr (ts_txn m resp))) c1);
                      updateMSHR m resp c1 }
          else Some (c1\<lparr>c_outcomingResponses := c_outcomingResponses c1 @ [resp]\<rparr>) }"

fun handle_responses :: "txn_store \<Rightarrow> nat list \<Rightarrow> cache \<Rightarrow> cache option" where
  "handle_responses m [] c = Some c"
| "handle_responses m (r # rs) c = handle_response m r c \<bind> handle_responses m rs"

definition handleResponses :: "txn_store \<Rightarrow> cache \<Rightarrow> cache option" where
  "handleResponses m c =
     do { c1 \<leftarrow> handle_responses m (c_incomingResponses c) c;
          Some (c1\<lparr>c_incomingResponses := []\<rparr>) }"

section \<open>Evictions\<close>

text \<open>\<open>checkEvictConflict\<close> pops a copy of the queue until a request of the same line shows up.\<close>

function evict_conflict :: "txn_store \<Rightarrow> fcache \<Rightarrow> u64 \<Rightarrow> (nat \<times> u64) list \<Rightarrow> bool" where
  "evict_conflict m fc address copy =
     (if copy = [] then False
      else let t = fst (pq_top copy)
           in if getSetid fc address = getSetid fc (t_addr (ts_txn m t)) \<and>
                 getTag fc address = getTag fc (t_addr (ts_txn m t))
              then True
              else evict_conflict m fc address (pq_pop snd copy))"
  by pat_completeness auto
termination
  by (relation "measure (\<lambda>(m, fc, a, q). length q)") (auto simp: length_pq_pop)

declare evict_conflict.simps [simp del]

definition checkEvictConflict :: "txn_store \<Rightarrow> u64 \<Rightarrow> cache \<Rightarrow> bool" where
  "checkEvictConflict m address c = evict_conflict m (c_fc c) address (c_pq c)"

text \<open>The part of \<open>invalidate\<close> before it visits the previous levels.\<close>

definition invalidate_own :: "u64 \<Rightarrow> cache \<Rightarrow> (bool \<times> cache) option" where
  "invalidate_own address c =
     do { present \<leftarrow> fc_present address (c_fc c);
          if present then
            do { (dirty, fc') \<leftarrow> fc_invalidate address (c_fc c);
                 Some (dirty, c\<lparr>c_fc := fc'\<rparr>) }
          else Some (False, c) }"

section \<open>End of a cycle\<close>

definition end_cycle :: "cache \<Rightarrow> cache" where
  "end_cycle c = c\<lparr>c_cycle := c_cycle c + 1, c_free_load_ports := c_load_ports c,
     c_free_store_ports := c_store_ports c\<rparr>"

definition end_cycle_l1 :: "cache \<Rightarrow> cache" where
  "end_cycle_l1 c = (end_cycle c)\<lparr>c_free_prefetch_ports := c_prefetch_ports c\<rparr>"

section \<open>The miss path\<close>

text \<open>What a register file of misses guarantees: one entry per line, entries hold requests of their
  line only, none is empty, and there are at most \<open>mshrSize\<close>.\<close>

definition mshr_wf :: "txn_store \<Rightarrow> cache \<Rightarrow> bool" where
  "mshr_wf m c \<longleftrightarrow> distinct (map fst (c_mshr c)) \<and>
     (\<forall>(k, ops)\<in>set (c_mshr c). ops \<noteq> [] \<and> (\<forall>t\<in>set ops. line_of c (t_addr (ts_txn m t)) = k)) \<and>
     int (length (c_mshr c)) \<le> uint (word_of_int (c_mshrSize c) :: u64)"

definition merged :: "cache \<Rightarrow> nat list" where
  "merged c = concat (map snd (c_mshr c))"

lemma enterMSHR_fst: "fst (enterMSHR m t c) \<longleftrightarrow> \<not> mshr_has (line_of c (t_addr (ts_txn m t))) c \<and>
    int (length (c_mshr c)) \<ge> uint (word_of_int (c_mshrSize c) :: u64)"
  by (simp add: enterMSHR_def Let_def)

lemma enterMSHR_full:
  "fst (enterMSHR m t c) \<Longrightarrow> snd (enterMSHR m t c) = c"
  by (simp add: enterMSHR_def Let_def split: if_splits)

lemma enterMSHR_simps [simp]:
  "c_stalledTransactions (snd (enterMSHR m t c)) = c_stalledTransactions c"
  "c_outcomingResponses (snd (enterMSHR m t c)) = c_outcomingResponses c"
  "c_useMSHR (snd (enterMSHR m t c)) = c_useMSHR c"
  "c_level (snd (enterMSHR m t c)) = c_level c"
  "c_mshrSize (snd (enterMSHR m t c)) = c_mshrSize c"
  "c_cycle (snd (enterMSHR m t c)) = c_cycle c"
  "line_of (snd (enterMSHR m t c)) = line_of c"
  "c_fc (snd (enterMSHR m t c)) = c_fc c"
  by (simp_all add: enterMSHR_def Let_def line_of_def fun_eq_iff)

lemma mset_concat_map_entry:
  assumes "distinct (map fst xs)" "k \<in> fst ` set xs"
  shows "mset (concat (map snd (AList.map_entry k (\<lambda>ops. ops @ [t]) xs))) = add_mset t (mset (concat (map snd xs)))"
  using assms
proof (induction xs)
  case (Cons x xs)
  have "AList.map_entry k (\<lambda>ops. ops @ [t]) xs = xs" if "k \<notin> fst ` set xs"
    using that by (induction xs) auto
  with Cons show ?case by (cases x) auto
qed simp

lemma map_fst_map_entry [simp]: "map fst (AList.map_entry k f xs) = map fst xs"
  by (induction xs) auto

lemma set_map_entry:
  assumes "distinct (map fst xs)"
  shows "(k', v) \<in> set (AList.map_entry k f xs) \<longleftrightarrow>
    (if k' = k then \<exists>v0. (k, v0) \<in> set xs \<and> v = f v0 else (k', v) \<in> set xs)"
  using assms by (induction xs) (auto simp: image_iff)

lemma enterMSHR_merged:
  assumes "distinct (map fst (c_mshr c))" "\<not> fst (enterMSHR m t c)"
  shows "mset (merged (snd (enterMSHR m t c))) = add_mset t (mset (merged c))"
proof -
  let ?k = "line_of c (t_addr (ts_txn m t))"
  show ?thesis
  proof (cases "mshr_has ?k c")
    case True
    then show ?thesis
      using mset_concat_map_entry [OF assms(1), of ?k t]
      by (simp add: enterMSHR_def merged_def Let_def mshr_has_def map_of_eq_None_iff)
  next
    case False
    then have "?k \<notin> fst ` set (c_mshr c)" by (simp add: mshr_has_def map_of_eq_None_iff)
    then have "mset (concat (map snd (AList.map_entry ?k (\<lambda>ops. ops @ [t]) ((?k, []) # c_mshr c)))) =
        add_mset t (mset (concat (map snd ((?k, []) # c_mshr c))))"
      using assms(1) by (intro mset_concat_map_entry) auto
    then show ?thesis
      using False assms(2) by (simp add: enterMSHR_def merged_def Let_def split: if_splits)
  qed
qed

lemma enterMSHR_requests:
  "c_outcomingRequests (snd (enterMSHR m t c)) =
     (if fst (enterMSHR m t c) \<or> mshr_has (line_of c (t_addr (ts_txn m t))) c
      then c_outcomingRequests c else c_outcomingRequests c @ [t])"
  by (auto simp: enterMSHR_def Let_def)

lemma enterMSHR_wf:
  assumes "mshr_wf m c"
  shows "mshr_wf m (snd (enterMSHR m t c))"
proof (cases "fst (enterMSHR m t c)")
  case True
  with enterMSHR_full [OF this] assms show ?thesis by simp
next
  case False
  let ?k = "line_of c (t_addr (ts_txn m t))" and ?c' = "snd (enterMSHR m t c)"
  define xs where "xs = (if mshr_has ?k c then c_mshr c else (?k, []) # c_mshr c)"
  have c': "c_mshr ?c' = AList.map_entry ?k (\<lambda>ops. ops @ [t]) xs"
  proof -
    have "mshr_has ?k c \<or> \<not> int (length (c_mshr c)) \<ge> uint (word_of_int (c_mshrSize c) :: u64)"
      using False by (simp add: enterMSHR_fst)
    then show ?thesis by (auto simp: enterMSHR_def Let_def xs_def)
  qed
  have d: "distinct (map fst xs)"
    using assms by (auto simp: mshr_wf_def xs_def mshr_has_def map_of_eq_None_iff)
  have len: "int (length xs) \<le> uint (word_of_int (c_mshrSize c) :: u64)"
    using assms False by (auto simp: mshr_wf_def xs_def enterMSHR_fst)
  have len': "length (AList.map_entry ?k (\<lambda>ops. ops @ [t]) xs) = length xs"
    by (metis length_map map_fst_map_entry)
  have old: "ops \<noteq> [] \<and> (\<forall>t\<in>set ops. line_of c (t_addr (ts_txn m t)) = k)"
    if "(k, ops) \<in> set (c_mshr c)" for k ops
    using assms that by (fastforce simp: mshr_wf_def)
  have xs: "(\<forall>t\<in>set ops. line_of c (t_addr (ts_txn m t)) = k) \<and> (k \<noteq> ?k \<longrightarrow> ops \<noteq> [])"
    if "(k, ops) \<in> set xs" for k ops
    using that old by (auto simp: xs_def split: if_splits)
  have "ops \<noteq> [] \<and> (\<forall>t\<in>set ops. line_of c (t_addr (ts_txn m t)) = k)"
    if "(k, ops) \<in> set (c_mshr ?c')" for k ops
    using that xs unfolding c' set_map_entry [OF d] by (auto split: if_splits)
  then show ?thesis
    using d len len' by (auto simp: mshr_wf_def c')
qed

section \<open>No transaction is lost or duplicated by an access\<close>

text \<open>A request sent on stands for the entry that waits for it, unless nothing waits: without
  MSHRs and for a prefetch of an L1 cache the transaction itself moves on.\<close>

definition moves_on :: "txn_store \<Rightarrow> cache \<Rightarrow> nat \<Rightarrow> bool" where
  "moves_on m c t \<longleftrightarrow> \<not> c_useMSHR c \<or> c_level c = 1 \<and> t_isPrefetch (ts_txn m t)"

definition residents :: "txn_store \<Rightarrow> cache \<Rightarrow> nat multiset" where
  "residents m c = mset (c_stalledTransactions c) + mset (merged c) +
     mset (c_outcomingResponses c) + mset (filter (moves_on m c) (c_outcomingRequests c))"

definition stalled_ok :: "txn_store \<Rightarrow> cache \<Rightarrow> bool" where
  "stalled_ok m c \<longleftrightarrow> (\<forall>t\<in>set (c_stalledTransactions c). \<not> moves_on m c t)"

definition cache_ok :: "txn_store \<Rightarrow> cache \<Rightarrow> bool" where
  "cache_ok m c \<longleftrightarrow> mshr_wf m c \<and> stalled_ok m c \<and> is_heap snd (c_pq c)"

lemma line_of_updates [simp]:
  "line_of (c\<lparr>c_stalledTransactions := x\<rparr>) = line_of c"
  "line_of (c\<lparr>c_fc := fc\<rparr>) = line_of c"
  "line_of (c\<lparr>c_fc := fc, c_evictAddresses := e\<rparr>) = line_of c"
  "line_of (c\<lparr>c_outcomingResponses := rs, c_mshr := ms\<rparr>) = line_of c"
  by (simp_all add: line_of_def fun_eq_iff)

lemma moves_on_cong:
  "c_useMSHR c' = c_useMSHR c \<Longrightarrow> c_level c' = c_level c \<Longrightarrow> ts_txn m' = ts_txn m \<Longrightarrow>
    moves_on m' c' = moves_on m c"
  by (simp add: moves_on_def fun_eq_iff)

lemma enterMSHR_residents:
  assumes "mshr_wf m c" "\<not> moves_on m c t"
  shows "residents m (snd (enterMSHR m t c)) =
    (if fst (enterMSHR m t c) then {#} else {#t#}) + residents m c"
proof -
  have mo: "moves_on m (snd (enterMSHR m t c)) = moves_on m c"
    by (rule moves_on_cong) simp_all
  have "mset (filter (moves_on m c) (c_outcomingRequests (snd (enterMSHR m t c)))) =
      mset (filter (moves_on m c) (c_outcomingRequests c))"
    using assms(2) by (simp add: enterMSHR_requests)
  then show ?thesis
    using enterMSHR_merged [of c m t] enterMSHR_full [of m t c] assms(1)
    by (auto simp: residents_def mo mshr_wf_def)
qed

lemma mshr_wf_cong:
  "c_mshr c' = c_mshr c \<Longrightarrow> c_mshrSize c' = c_mshrSize c \<Longrightarrow> line_of c' = line_of c \<Longrightarrow>
    ts_txn m' = ts_txn m \<Longrightarrow> mshr_wf m' c' = mshr_wf m c"
  by (simp add: mshr_wf_def)

lemma residents_cong:
  "c_mshr c' = c_mshr c \<Longrightarrow> c_stalledTransactions c' = c_stalledTransactions c \<Longrightarrow>
   c_outcomingResponses c' = c_outcomingResponses c \<Longrightarrow> c_outcomingRequests c' = c_outcomingRequests c \<Longrightarrow>
   moves_on m' c' = moves_on m c \<Longrightarrow> residents m' c' = residents m c"
  by (simp add: residents_def merged_def)

text \<open>The fields an access never touches.\<close>

definition same_config :: "txn_store \<times> cache \<Rightarrow> txn_store \<times> cache \<Rightarrow> bool" where
  "same_config s s' \<longleftrightarrow> ts_txn (fst s') = ts_txn (fst s) \<and> ts_next (fst s') = ts_next (fst s) \<and>
     c_useMSHR (snd s') = c_useMSHR (snd s) \<and> c_level (snd s') = c_level (snd s) \<and>
     c_cycle (snd s') = c_cycle (snd s) \<and> c_mshrSize (snd s') = c_mshrSize (snd s) \<and>
     line_of (snd s') = line_of (snd s) \<and> c_fc (snd s') = c_fc (snd s)"

lemma same_config_refl [simp]: "same_config s s"
  by (simp add: same_config_def)

lemma same_config_trans: "same_config s s' \<Longrightarrow> same_config s' s'' \<Longrightarrow> same_config s s''"
  by (simp add: same_config_def)

definition one_more :: "nat \<Rightarrow> txn_store \<times> cache \<Rightarrow> txn_store \<times> cache \<Rightarrow> bool" where
  "one_more t s s' \<longleftrightarrow> residents (fst s') (snd s') + mset (ts_deleted (fst s')) =
     {#t#} + residents (fst s) (snd s) + mset (ts_deleted (fst s))"

lemma enterMSHR_same: "same_config (m, c) (m, snd (enterMSHR m t c))"
  by (simp add: same_config_def)

lemma count_simps [simp]:
  "mshr_wf m (count_access tx c) = mshr_wf m c" "mshr_wf m (count_miss tx c) = mshr_wf m c"
  "residents m (count_access tx c) = residents m c" "residents m (count_miss tx c) = residents m c"
  "moves_on m (count_access tx c) = moves_on m c" "moves_on m (count_miss tx c) = moves_on m c"
  "stalled_ok m (count_access tx c) = stalled_ok m c" "stalled_ok m (count_miss tx c) = stalled_ok m c"
  "same_config s (m, count_access tx c) = same_config s (m, c)"
  "same_config s (m, count_miss tx c) = same_config s (m, c)"
  by (simp_all add: count_access_def count_miss_def mshr_wf_def residents_def moves_on_def merged_def
      stalled_ok_def same_config_def line_of_def fun_eq_iff)

lemma field_updates [simp]:
  "mshr_wf m (c\<lparr>c_nmiss := n\<rparr>) = mshr_wf m c"
  "residents m (c\<lparr>c_nmiss := n\<rparr>) = residents m c"
  "moves_on m (c\<lparr>c_nmiss := n\<rparr>) = moves_on m c"
  "stalled_ok m (c\<lparr>c_nmiss := n\<rparr>) = stalled_ok m c"
  "same_config s (m, c\<lparr>c_nmiss := n\<rparr>) = same_config s (m, c)"
  "mshr_wf m (c\<lparr>c_outcomingResponses := rs, c_nhit := n\<rparr>) = mshr_wf m c"
  "stalled_ok m (c\<lparr>c_outcomingResponses := rs, c_nhit := n\<rparr>) = stalled_ok m c"
  "same_config s (m, c\<lparr>c_outcomingResponses := rs, c_nhit := n\<rparr>) = same_config s (m, c)"
  "mshr_wf m (c\<lparr>c_outcomingRequests := rs\<rparr>) = mshr_wf m c"
  "stalled_ok m (c\<lparr>c_outcomingRequests := rs\<rparr>) = stalled_ok m c"
  "same_config s (m, c\<lparr>c_outcomingRequests := rs\<rparr>) = same_config s (m, c)"
  "mshr_wf m (c\<lparr>c_stalledTransactions := rs\<rparr>) = mshr_wf m c"
  "same_config s (m, c\<lparr>c_stalledTransactions := rs\<rparr>) = same_config s (m, c)"
  "mshr_wf m (c\<lparr>c_pq := q\<rparr>) = mshr_wf m c"
  "residents m (c\<lparr>c_pq := q\<rparr>) = residents m c"
  "stalled_ok m (c\<lparr>c_pq := q\<rparr>) = stalled_ok m c"
  "same_config s (m, c\<lparr>c_pq := q\<rparr>) = same_config s (m, c)"
  "mshr_wf (delete_txn i m) c = mshr_wf m c"
  "residents (delete_txn i m) c = residents m c"
  "stalled_ok (delete_txn i m) c = stalled_ok m c"
  "moves_on (delete_txn i m) c = moves_on m c"
  "same_config s (delete_txn i m, c) = same_config s (m, c)"
  by (simp_all add: mshr_wf_def residents_def moves_on_def merged_def stalled_ok_def same_config_def
      line_of_def fun_eq_iff)

lemma residents_push [simp]:
  "residents m (c\<lparr>c_outcomingResponses := c_outcomingResponses c @ [t], c_nhit := n\<rparr>) =
    add_mset t (residents m c)"
  "moves_on m c t \<Longrightarrow> residents m (c\<lparr>c_outcomingRequests := c_outcomingRequests c @ [t]\<rparr>) =
    add_mset t (residents m c)"
  "residents m (c\<lparr>c_stalledTransactions := c_stalledTransactions c @ [t]\<rparr>) =
    add_mset t (residents m c)"
proof -
  have "moves_on m (c\<lparr>c_outcomingResponses := rs, c_nhit := n\<rparr>) = moves_on m c"
    "moves_on m (c\<lparr>c_outcomingRequests := rs\<rparr>) = moves_on m c"
    "moves_on m (c\<lparr>c_stalledTransactions := rs\<rparr>) = moves_on m c" for rs
    by (rule moves_on_cong; simp)+
  then show "residents m (c\<lparr>c_outcomingResponses := c_outcomingResponses c @ [t], c_nhit := n\<rparr>) =
      add_mset t (residents m c)"
    "moves_on m c t \<Longrightarrow> residents m (c\<lparr>c_outcomingRequests := c_outcomingRequests c @ [t]\<rparr>) =
      add_mset t (residents m c)"
    "residents m (c\<lparr>c_stalledTransactions := c_stalledTransactions c @ [t]\<rparr>) =
      add_mset t (residents m c)"
    by (simp_all add: residents_def merged_def)
qed

lemma stalled_ok_push [simp]:
  "stalled_ok m (c\<lparr>c_stalledTransactions := c_stalledTransactions c @ [t]\<rparr>) \<longleftrightarrow>
    stalled_ok m c \<and> \<not> moves_on m c t"
  by (auto simp: stalled_ok_def moves_on_def)

lemma enterMSHR_stalled_ok [simp]: "stalled_ok m (snd (enterMSHR m t c)) = stalled_ok m c"
  by (simp add: stalled_ok_def moves_on_def)

lemma enterMSHR_config [simp]: "same_config s (m, snd (enterMSHR m t c)) = same_config s (m, c)"
  by (simp add: same_config_def)

text \<open>Where one access leaves its transaction.\<close>

lemma process_one_effect:
  assumes wf: "mshr_wf m c" "stalled_ok m c" and p: "process_one t (m, c) = (m', c')"
  shows "one_more t (m, c) (m', c') \<and> mshr_wf m' c' \<and> stalled_ok m' c' \<and> same_config (m, c) (m', c')"
proof -
  let ?tx = "ts_txn m t" let ?c1 = "count_access ?tx c"
  let ?c2 = "?c1\<lparr>c_nmiss := c_nmiss ?c1 + 1\<rparr>"
  have u: "c_useMSHR ?c1 = c_useMSHR c" "c_level ?c1 = c_level c"
    by (simp_all add: count_access_def)
  consider (hit) "t_isHit ?tx" "t_hwID ?tx \<noteq> - 1" | (evict) "t_hwID ?tx = - 1"
    | (forward) "\<not> t_isHit ?tx" "t_hwID ?tx \<noteq> - 1" "moves_on m c t"
    | (stall) "\<not> t_isHit ?tx" "t_hwID ?tx \<noteq> - 1" "\<not> moves_on m c t" "fst (enterMSHR m t ?c2)"
    | (enter) "\<not> t_isHit ?tx" "t_hwID ?tx \<noteq> - 1" "\<not> moves_on m c t" "\<not> fst (enterMSHR m t ?c2)"
    by blast
  then show ?thesis
  proof cases
    case hit
    then show ?thesis using p wf by (auto simp: process_one_def Let_def one_more_def)
  next
    case evict
    then have "(m', c') = (delete_txn t m, ?c1)"
      using p by (cases "t_isHit ?tx") (simp_all add: process_one_def Let_def)
    with wf show ?thesis by (simp add: one_more_def)
  next
    case forward
    then have "(m', c') = (m, count_miss ?tx (?c2\<lparr>c_outcomingRequests := c_outcomingRequests ?c2 @ [t]\<rparr>))"
      using p u by (auto simp: process_one_def Let_def moves_on_def)
    with forward wf residents_push(2) [of m ?c2 t] show ?thesis by (simp add: one_more_def)
  next
    case stall
    then have "(m', c') = (m, count_miss ?tx (?c2\<lparr>c_stalledTransactions := c_stalledTransactions ?c2 @ [t]\<rparr>))"
      using p u enterMSHR_full [OF stall(4)] by (auto simp: process_one_def Let_def moves_on_def split_beta)
    with stall wf residents_push(3) [of m ?c2 t] stalled_ok_push [of m ?c2 t] show ?thesis
      by (simp add: one_more_def)
  next
    case enter
    then have "(m', c') = (m, count_miss ?tx (snd (enterMSHR m t ?c2)))"
      using p u by (auto simp: process_one_def Let_def moves_on_def split_beta)
    with enter wf enterMSHR_residents [of m ?c2 t] enterMSHR_wf [of m ?c2 t] show ?thesis
      by (simp add: one_more_def)
  qed
qed

text \<open>The transactions a level holds or has deleted.\<close>

definition accounted :: "txn_store \<times> cache \<Rightarrow> nat multiset" where
  "accounted s = mset (map fst (c_pq (snd s))) + residents (fst s) (snd s) + mset (ts_deleted (fst s))"

lemma process_ready_effect:
  assumes "is_heap snd (c_pq (snd s))" "mshr_wf (fst s) (snd s)" "stalled_ok (fst s) (snd s)"
    "process_ready s = s'"
  shows "accounted s' = accounted s \<and> mshr_wf (fst s') (snd s') \<and> stalled_ok (fst s') (snd s') \<and>
    same_config s s' \<and> is_heap snd (c_pq (snd s')) \<and>
    mset (c_pq (snd s')) = filter_mset (\<lambda>x. c_cycle (snd s) < snd x) (mset (c_pq (snd s)))"
  using assms
proof (induction s rule: process_ready.induct)
  case (1 s)
  let ?q = "c_pq (snd s)" and ?now = "c_cycle (snd s)"
  let ?s1 = "(fst s, (snd s)\<lparr>c_pq := pq_pop snd ?q\<rparr>)"
  note unf = process_ready.simps [of s]
  consider (empty) "?q = []" | (late) "?q \<noteq> []" "snd (pq_top ?q) > ?now"
    | (due) "?q \<noteq> []" "\<not> snd (pq_top ?q) > ?now" by blast
  then show ?case
  proof cases
    case empty
    with "1.prems" show ?thesis by (simp add: unf)
  next
    case late
    then have "\<forall>x\<in>#mset ?q. ?now < snd x"
      using heap.top_least [OF "1.prems"(1)] by (fastforce intro: less_le_trans)
    then have "filter_mset (\<lambda>x. ?now < snd x) (mset ?q) = mset ?q"
      by (simp add: filter_mset_eq_conv)
    with late "1.prems" show ?thesis by (simp add: unf)
  next
    case due
    let ?t = "fst (pq_top ?q)"
    obtain m2 c2 where p: "process_one ?t ?s1 = (m2, c2)" by (metis surj_pair)
    have eff: "one_more ?t ?s1 (m2, c2)" "mshr_wf m2 c2" "stalled_ok m2 c2" "same_config ?s1 (m2, c2)"
      using process_one_effect [OF _ _ p] "1.prems"(2,3) by simp_all
    have pq2: "c_pq c2 = pq_pop snd ?q"
      using process_one_pq [of ?t ?s1] p by simp
    have pop: "add_mset (pq_top ?q) (mset (pq_pop snd ?q)) = mset ?q" "is_heap snd (pq_pop snd ?q)"
      using heap.elems_pop [OF "1.prems"(1)] heap.inv_pop [OF "1.prems"(1)] due(1) by simp_all
    have s': "process_ready (m2, c2) = s'"
      using due "1.prems"(4) p by (simp add: unf)
    have cyc: "c_cycle c2 = ?now" using eff(4) by (simp add: same_config_def)
    have IH: "accounted s' = accounted (m2, c2)" "mshr_wf (fst s') (snd s')" "stalled_ok (fst s') (snd s')"
      "same_config (m2, c2) s'" "is_heap snd (c_pq (snd s'))"
      "mset (c_pq (snd s')) = filter_mset (\<lambda>x. ?now < snd x) (mset (pq_pop snd ?q))"
      using "1.IH" [OF due refl refl] p eff(2,3) pq2 pop(2) s' cyc by simp_all
    have "mset (map fst ?q) = add_mset ?t (mset (map fst (pq_pop snd ?q)))"
      using pop(1) by (metis image_mset_add_mset mset_map)
    then have "accounted (m2, c2) = accounted s"
      using eff(1) pq2 by (simp add: accounted_def one_more_def)
    moreover have "filter_mset (\<lambda>x. ?now < snd x) (mset ?q) = filter_mset (\<lambda>x. ?now < snd x) (mset (pq_pop snd ?q))"
      using due(2) by (simp flip: pop(1))
    moreover have "same_config s s'"
      using eff(4) IH(4) by (auto simp: same_config_def line_of_def)
    ultimately show ?thesis using IH by simp
  qed
qed

lemma retry_stalled_effect:
  assumes "retry_stalled m ts c = (left, c')" "mshr_wf m c" "\<forall>t\<in>set ts. \<not> moves_on m c t"
  shows "mset left + mset (merged c') + mset (filter (moves_on m c) (c_outcomingRequests c')) =
      mset ts + mset (merged c) + mset (filter (moves_on m c) (c_outcomingRequests c)) \<and>
    mshr_wf m c' \<and> same_config (m, c) (m, c') \<and> set left \<subseteq> set ts \<and> c_pq c' = c_pq c \<and>
    c_outcomingResponses c' = c_outcomingResponses c \<and>
    c_stalledTransactions c' = c_stalledTransactions c"
  using assms
proof (induction ts arbitrary: c left)
  case (Cons t ts)
  let ?c1 = "snd (enterMSHR m t c)"
  obtain rest where r: "retry_stalled m ts ?c1 = (rest, c')"
    "left = (if fst (enterMSHR m t c) then t # rest else rest)"
    using Cons.prems(1) by (auto simp: Let_def split: prod.splits)
  have mo: "moves_on m ?c1 = moves_on m c" by (rule moves_on_cong) simp_all
  have IH: "mset rest + mset (merged c') + mset (filter (moves_on m c) (c_outcomingRequests c')) =
      mset ts + mset (merged ?c1) + mset (filter (moves_on m c) (c_outcomingRequests ?c1))"
    "mshr_wf m c'" "same_config (m, ?c1) (m, c')" "set rest \<subseteq> set ts" "c_pq c' = c_pq c"
    "c_outcomingResponses c' = c_outcomingResponses c" "c_stalledTransactions c' = c_stalledTransactions c"
    using Cons.IH [OF r(1)] enterMSHR_wf [OF Cons.prems(2)] Cons.prems(3) by (simp_all add: mo)
  have "residents m ?c1 = (if fst (enterMSHR m t c) then {#} else {#t#}) + residents m c"
    using enterMSHR_residents [OF Cons.prems(2)] Cons.prems(3) by simp
  then have "mset (merged ?c1) + mset (filter (moves_on m c) (c_outcomingRequests ?c1)) =
      (if fst (enterMSHR m t c) then {#} else {#t#}) + mset (merged c) +
      mset (filter (moves_on m c) (c_outcomingRequests c))"
    by (simp add: residents_def mo)
  with IH(1) r(2) have "mset left + mset (merged c') + mset (filter (moves_on m c) (c_outcomingRequests c')) =
      mset (t # ts) + mset (merged c) + mset (filter (moves_on m c) (c_outcomingRequests c))"
    by (auto simp: add.assoc)
  moreover have "same_config (m, c) (m, c')"
    using IH(3) by (auto simp: same_config_def)
  ultimately show ?case using IH(2,4-7) r(2) by auto
qed simp

lemma cache_process_effect:
  assumes "cache_ok m c" "cache_process (m, c) = (m', c')"
  shows "accounted (m', c') = accounted (m, c) \<and> cache_ok m' c' \<and> same_config (m, c) (m', c') \<and>
    mset (c_pq c') = filter_mset (\<lambda>x. c_cycle c < snd x) (mset (c_pq c))"
proof -
  obtain left c1 where r: "retry_stalled m (c_stalledTransactions c) c = (left, c1)"
    by (metis surj_pair)
  have ok: "mshr_wf m c" "\<forall>t\<in>set (c_stalledTransactions c). \<not> moves_on m c t" "is_heap snd (c_pq c)"
    using assms(1) by (auto simp: cache_ok_def stalled_ok_def)
  note e = retry_stalled_effect [OF r ok(1,2)]
  let ?c2 = "c1\<lparr>c_stalledTransactions := left\<rparr>"
  have mo: "moves_on m ?c2 = moves_on m c" by (rule moves_on_cong) (use e in \<open>simp_all add: same_config_def\<close>)
  have p: "process_ready (m, ?c2) = (m', c')"
    using assms(2) r by (simp add: cache_process_def)
  have acc: "accounted (m, ?c2) = accounted (m, c)"
    using e by (auto simp: accounted_def residents_def merged_def mo add_ac)
  have st: "stalled_ok m ?c2"
    using e ok(2) unfolding stalled_ok_def mo by auto
  have "is_heap snd (c_pq c1)" "mshr_wf m ?c2" using e ok(3) by simp_all
  from process_ready_effect [of "(m, ?c2)", OF _ _ _ p] this st acc e show ?thesis
    by (auto simp: cache_ok_def same_config_def line_of_def)
qed

section \<open>Responses fill the cache and release the merged misses\<close>

definition fc_ok :: "cache \<Rightarrow> bool" where
  "fc_ok c \<longleftrightarrow> fc_inv (c_fc c) \<and> c_cacheLineSize c = 2 ^ fc_log_line_size (c_fc c) \<and>
     (\<forall>a. holds (c_fc c) a \<longrightarrow> 0 \<le> sint a)"

lemma line_of_drop:
  assumes "fc_ok c"
  shows "line_of c a = drop_bit (fc_log_line_size (c_fc c)) a"
  using assms by (simp add: line_of_def fc_ok_def drop_bit_eq_div)

lemma same_line_of:
  assumes "fc_ok c"
  shows "same_line (c_fc c) a b \<longleftrightarrow> line_of c a = line_of c b"
  using assms same_line_drop [of "c_fc c" a b] by (simp add: line_of_drop [OF assms] fc_ok_def fc_inv_def)

lemma same_line_sign:
  assumes "fc_geometry fc" "same_line fc a b" "0 \<le> sint a"
  shows "0 \<le> sint b"
proof -
  let ?l = "fc_log_line_size fc"
  have "?l \<le> 63" using assms(1) by (simp add: fc_geometry_def)
  moreover have "bit (drop_bit ?l a) (63 - ?l) = bit (drop_bit ?l b) (63 - ?l)"
    using assms(1,2) by (simp add: same_line_drop)
  ultimately have "bit a 63 = bit b 63" by (simp add: bit_drop_bit_eq)
  with assms(3) bit_last_iff [of a] bit_last_iff [of b] show ?thesis by simp
qed

lemma completeTransaction_spec:
  assumes ok: "fc_ok c" and new: "\<not> holds (c_fc c) (t_addr (ts_txn m t))" "0 \<le> sint (t_addr (ts_txn m t))"
  shows "\<exists>fc' ev. completeTransaction m t c = Some (c\<lparr>c_fc := fc', c_evictAddresses := ev\<rparr>) \<and>
    fc_ok (c\<lparr>c_fc := fc'\<rparr>) \<and> holds fc' (t_addr (ts_txn m t)) \<and>
    (\<forall>b. holds fc' b \<longrightarrow> line_of c b = line_of c (t_addr (ts_txn m t)) \<or> holds (c_fc c) b)"
proof -
  let ?a = "t_addr (ts_txn m t)"
  have inv: "fc_inv (c_fc c)" "fc_geometry (c_fc c)" using ok by (simp_all add: fc_ok_def fc_inv_def)
  obtain out fc' where i: "fc_insert ?a (t_dynID (ts_txn m t)) (t_isLoad (ts_txn m t)) (c_fc c) = Some (out, fc')"
    and inv': "fc_inv fc'"
    and out: "case out of None \<Rightarrow> \<forall>b. holds fc' b \<longleftrightarrow> same_line (c_fc c) ?a b \<or> holds (c_fc c) b
       | Some (e, d) \<Rightarrow> holds (c_fc c) e \<and> \<not> same_line (c_fc c) e ?a \<and>
           (\<forall>b. holds fc' b \<longleftrightarrow> same_line (c_fc c) ?a b \<or> holds (c_fc c) b \<and> \<not> same_line (c_fc c) e b)"
    using tag_store.fill_law [OF inv(1) new(1)] by blast
  have sub: "holds fc' b \<longrightarrow> same_line (c_fc c) ?a b \<or> holds (c_fc c) b" for b
    using out by (auto split: option.splits)
  have h: "holds fc' ?a" using out by (auto simp: same_line_def split: option.splits)
  have pos: "0 \<le> sint b" if "holds fc' b" for b
    using sub [of b] that same_line_sign [OF inv(2) _ new(2), of b] ok by (auto simp: fc_ok_def)
  have ok': "fc_ok (c\<lparr>c_fc := fc'\<rparr>)"
    using ok inv' pos fc_insert_geometry [OF i] by (simp add: fc_ok_def)
  have "\<exists>ev. completeTransaction m t c = Some (c\<lparr>c_fc := fc', c_evictAddresses := ev\<rparr>)"
  proof (cases out)
    case None
    then show ?thesis
      using i by (intro exI [of _ "c_evictAddresses c"]) (simp add: completeTransaction_def)
  next
    case (Some r)
    then obtain e d where e: "out = Some (e, d)" "holds (c_fc c) e" using out by (cases r) auto
    then have "0 \<le> sint e" using ok by (simp add: fc_ok_def)
    moreover from this have "e \<noteq> - 1" by auto
    ultimately show ?thesis
      using i e(1) by (intro exI [of _ "c_evictAddresses c @ [(e, d)]"]) (simp add: completeTransaction_def)
  qed
  then show ?thesis using ok' h sub same_line_of [OF ok] by metis
qed

lemma mshr_delete:
  assumes "mshr_wf m c" "map_of (c_mshr c) k = Some ops"
  shows "mset (merged c) = mset ops + mset (concat (map snd (AList.delete k (c_mshr c))))"
    and "distinct (map fst (AList.delete k (c_mshr c)))"
    and "length (AList.delete k (c_mshr c)) < length (c_mshr c)"
proof -
  have d: "distinct (map fst (c_mshr c))" using assms(1) by (simp add: mshr_wf_def)
  have "mset (concat (map snd xs)) = mset ops + mset (concat (map snd (AList.delete k xs))) \<and>
      length (AList.delete k xs) < length xs"
    if "distinct (map fst xs)" "map_of xs k = Some ops" for xs
    using that
  proof (induction xs)
    case (Cons x xs)
    show ?case
    proof (cases "fst x = k")
      case True
      then have "AList.delete k xs = xs"
        using Cons.prems(1) by (cases x) (auto simp: AList.delete_eq filter_id_conv image_iff)
      with True Cons.prems show ?thesis by (cases x) auto
    qed (use Cons in \<open>cases x; auto\<close>)
  qed simp
  from this [OF d assms(2)] show "mset (merged c) = mset ops + mset (concat (map snd (AList.delete k (c_mshr c))))"
    "length (AList.delete k (c_mshr c)) < length (c_mshr c)" by (simp_all add: merged_def)
  show "distinct (map fst (AList.delete k (c_mshr c)))" using d by (rule AList.distinct_delete)
qed

text \<open>A response the level can take: its line has a waiting entry and is not cached.\<close>

definition response_ok :: "txn_store \<Rightarrow> cache \<Rightarrow> nat \<Rightarrow> bool" where
  "response_ok m c t \<longleftrightarrow> \<not> moves_on m c t \<and> mshr_has (line_of c (t_addr (ts_txn m t))) c \<and>
     \<not> holds (c_fc c) (t_addr (ts_txn m t)) \<and> 0 \<le> sint (t_addr (ts_txn m t))"

lemma handle_response_spec:
  assumes ok: "fc_ok c" "mshr_wf m c" and r: "response_ok m c t"
  shows "\<exists>c' ops. handle_response m t c = Some c' \<and>
    map_of (c_mshr c) (line_of c (t_addr (ts_txn m t))) = Some ops \<and>
    c_outcomingResponses c' = c_outcomingResponses c @ ops \<and>
    c_mshr c' = AList.delete (line_of c (t_addr (ts_txn m t))) (c_mshr c) \<and>
    fc_ok c' \<and> mshr_wf m c' \<and> holds (c_fc c') (t_addr (ts_txn m t)) \<and>
    (\<forall>b. holds (c_fc c') b \<longrightarrow> line_of c b = line_of c (t_addr (ts_txn m t)) \<or> holds (c_fc c) b) \<and>
    line_of c' = line_of c \<and> moves_on m c' = moves_on m c \<and> residents m c' = residents m c \<and>
    c_pq c' = c_pq c \<and> c_stalledTransactions c' = c_stalledTransactions c"
proof -
  let ?a = "t_addr (ts_txn m t)" let ?k = "line_of c ?a"
  obtain fc' ev where f: "completeTransaction m t c = Some (c\<lparr>c_fc := fc', c_evictAddresses := ev\<rparr>)"
    "fc_ok (c\<lparr>c_fc := fc'\<rparr>)" "holds fc' ?a"
    "\<forall>b. holds fc' b \<longrightarrow> line_of c b = ?k \<or> holds (c_fc c) b"
    using completeTransaction_spec [OF ok(1), of m t] r unfolding response_ok_def by blast
  obtain ops where ops: "map_of (c_mshr c) ?k = Some ops"
    using r by (auto simp: response_ok_def mshr_has_def)
  let ?c' = "c\<lparr>c_fc := fc', c_evictAddresses := ev, c_outcomingResponses := c_outcomingResponses c @ ops,
     c_mshr := AList.delete ?k (c_mshr c)\<rparr>"
  have "handle_response m t c = Some ?c'"
    using f(1) ops r
    by (auto simp: handle_response_def updateMSHR_def mshr_has_def response_ok_def moves_on_def)
  moreover have lo: "line_of ?c' = line_of c" by (simp add: line_of_def fun_eq_iff)
  moreover have mo: "moves_on m ?c' = moves_on m c" by (rule moves_on_cong) simp_all
  moreover have "mshr_wf m ?c'"
    using mshr_delete(2,3) [OF ok(2) ops] ok(2)
    by (auto simp: mshr_wf_def lo AList.delete_eq)
  moreover have "residents m ?c' = residents m c"
    using mshr_delete(1) [OF ok(2) ops] by (simp add: residents_def mo) (simp add: merged_def)
  moreover have "fc_ok ?c'" using f(2) by (simp add: fc_ok_def)
  ultimately show ?thesis using f(3,4) ops by (intro exI [of _ ?c'] exI [of _ ops]) simp
qed

lemma handle_responses_spec:
  assumes "fc_ok c" "mshr_wf m c" "\<forall>t\<in>set rs. response_ok m c t"
    "distinct (map (\<lambda>t. line_of c (t_addr (ts_txn m t))) rs)"
  shows "\<exists>c'. handle_responses m rs c = Some c' \<and>
    c_outcomingResponses c' = c_outcomingResponses c @
      concat (map (\<lambda>t. the (map_of (c_mshr c) (line_of c (t_addr (ts_txn m t))))) rs) \<and>
    (\<forall>k. map_of (c_mshr c') k =
      (if k \<in> (\<lambda>t. line_of c (t_addr (ts_txn m t))) ` set rs then None else map_of (c_mshr c) k)) \<and>
    fc_ok c' \<and> mshr_wf m c' \<and> residents m c' = residents m c \<and> line_of c' = line_of c \<and>
    c_pq c' = c_pq c \<and> c_stalledTransactions c' = c_stalledTransactions c \<and> moves_on m c' = moves_on m c"
  using assms
proof (induction rs arbitrary: c)
  case (Cons t rs)
  let ?k = "\<lambda>t. line_of c (t_addr (ts_txn m t))"
  obtain c1 ops where h: "handle_response m t c = Some c1" "map_of (c_mshr c) (?k t) = Some ops"
    "c_outcomingResponses c1 = c_outcomingResponses c @ ops" "c_mshr c1 = AList.delete (?k t) (c_mshr c)"
    "fc_ok c1" "mshr_wf m c1" "residents m c1 = residents m c" "line_of c1 = line_of c"
    "moves_on m c1 = moves_on m c" "c_pq c1 = c_pq c" "c_stalledTransactions c1 = c_stalledTransactions c"
    and sub: "\<forall>b. holds (c_fc c1) b \<longrightarrow> line_of c b = ?k t \<or> holds (c_fc c) b"
    using handle_response_spec [OF Cons.prems(1,2), of t] Cons.prems(3) by auto
  have ne: "?k t' \<noteq> ?k t" if "t' \<in> set rs" for t'
    using Cons.prems(4) that by (auto simp: image_iff)
  have look: "map_of (c_mshr c1) k = (if k = ?k t then None else map_of (c_mshr c) k)" for k
    by (simp add: h(4) AList.delete_conv)
  have "\<forall>t'\<in>set rs. response_ok m c1 t'"
    using Cons.prems(3) ne sub by (auto simp: response_ok_def mshr_has_def look h(8,9))
  then obtain c' where c': "handle_responses m rs c1 = Some c'"
    "c_outcomingResponses c' = c_outcomingResponses c1 @
      concat (map (\<lambda>t. the (map_of (c_mshr c1) (?k t))) rs)"
    "\<forall>k. map_of (c_mshr c') k = (if k \<in> ?k ` set rs then None else map_of (c_mshr c1) k)"
    "fc_ok c'" "mshr_wf m c'" "residents m c' = residents m c1" "line_of c' = line_of c1"
    "c_pq c' = c_pq c1" "c_stalledTransactions c' = c_stalledTransactions c1" "moves_on m c' = moves_on m c1"
    using Cons.IH [OF h(5,6)] Cons.prems(4) by (auto simp: h(8))
  have eq: "map (\<lambda>t. the (map_of (c_mshr c1) (?k t))) rs = map (\<lambda>t. the (map_of (c_mshr c) (?k t))) rs"
    using ne by (auto simp: look)
  have "\<forall>k. map_of (c_mshr c') k = (if k \<in> ?k ` set (t # rs) then None else map_of (c_mshr c) k)"
    using c'(3) by (auto simp: look)
  moreover have "c_outcomingResponses c' = c_outcomingResponses c @
      concat (map (\<lambda>t. the (map_of (c_mshr c) (?k t))) (t # rs))"
    using c'(2) h(2,3) unfolding eq by simp
  moreover have "handle_responses m (t # rs) c = Some c'" using h(1) c'(1) by simp
  ultimately show ?case using c'(4-) h(7-) by metis
qed simp

section \<open>The request port of a level\<close>

text \<open>
  The senders of a cache level (an upper level, the LSU, the IFU, the DMA engine) offer a request
  only after \<open>willAcceptTransaction\<close>.  The contract: an accepted valid request is received without
  an abort and queued behind the earlier ones.  \<open>offer_all\<close> is the senders' loop over a list, which
  erases what was sent and keeps what was refused.
\<close>

fun offer_all :: "('t \<Rightarrow> 's \<Rightarrow> bool) \<Rightarrow> ('t \<Rightarrow> 's \<Rightarrow> 's option) \<Rightarrow> 't list \<Rightarrow> 's \<Rightarrow> ('t list \<times> 's) option" where
  "offer_all accepts recv [] s = Some ([], s)"
| "offer_all accepts recv (t # ts) s =
     (if accepts t s
      then do { s1 \<leftarrow> recv t s; offer_all accepts recv ts s1 }
      else do { (left, s2) \<leftarrow> offer_all accepts recv ts s; Some (t # left, s2) })"

locale request_port =
  fixes inv :: "'s \<Rightarrow> bool" and valid :: "'t \<Rightarrow> bool"
    and accepts :: "'t \<Rightarrow> 's \<Rightarrow> bool" and recv :: "'t \<Rightarrow> 's \<Rightarrow> 's option"
    and backlog :: "'s \<Rightarrow> 't list"
  assumes accepted: "inv s \<Longrightarrow> valid t \<Longrightarrow> accepts t s \<Longrightarrow>
    \<exists>s'. recv t s = Some s' \<and> inv s' \<and> backlog s' = backlog s @ [t]"
begin

lemma offer_all_total:
  assumes "inv s" "\<forall>t\<in>set ts. valid t"
  shows "\<exists>left sent s'. offer_all accepts recv ts s = Some (left, s') \<and> inv s' \<and>
    backlog s' = backlog s @ sent \<and> mset ts = mset sent + mset left \<and> set left \<subseteq> set ts"
  using assms
proof (induction ts arbitrary: s)
  case (Cons t ts)
  show ?case
  proof (cases "accepts t s")
    case True
    then obtain s1 where s1: "recv t s = Some s1" "inv s1" "backlog s1 = backlog s @ [t]"
      using accepted Cons.prems by fastforce
    then show ?thesis using Cons.IH [OF s1(2)] Cons.prems(2) True by fastforce
  next
    case False
    then show ?thesis using Cons.IH [OF Cons.prems(1)] Cons.prems(2) by fastforce
  qed
qed simp

end

definition ports_ok :: "cache \<Rightarrow> bool" where
  "ports_ok c \<longleftrightarrow> c_store_ports c \<noteq> - 1 \<and> c_load_ports c \<noteq> - 1 \<and> c_prefetch_ports c \<noteq> - 1"

definition txn_wf :: "txn_store \<Rightarrow> nat \<Rightarrow> bool" where
  "txn_wf m t \<longleftrightarrow> (t_hwID (ts_txn m t) = - 1 \<longrightarrow> \<not> t_isLoad (ts_txn m t) \<and> \<not> t_isPrefetch (ts_txn m t))"

lemma recvRequest_accepted:
  assumes "ports_ok c" "txn_wf m t" "willAcceptTransaction m (Some t) c"
  shows "\<exists>c'. recvRequest m t c = Some c' \<and> ports_ok c' \<and>
    c_incomingRequests c' = c_incomingRequests c @ [t]"
  using assms
  by (auto simp: recvRequest_def willAcceptTransaction_def ports_ok_def txn_wf_def Let_def split: if_splits)

interpretation cache_port: request_port ports_ok "txn_wf m" "\<lambda>t. willAcceptTransaction m (Some t)"
    "recvRequest m" c_incomingRequests for m
  by unfold_locales (rule recvRequest_accepted)

lemma evict_conflict_iff:
  "is_heap snd q \<Longrightarrow> evict_conflict m fc a q \<longleftrightarrow> (\<exists>e\<in>set q. same_line fc a (t_addr (ts_txn m (fst e))))"
proof (induction m fc a q rule: evict_conflict.induct)
  case (1 m fc a q)
  show ?case
  proof (cases "q = []")
    case False
    have "add_mset (pq_top q) (mset (pq_pop snd q)) = mset q" "is_heap snd (pq_pop snd q)"
      using heap.elems_pop [OF "1.prems"] heap.inv_pop [OF "1.prems"] False by simp_all
    moreover from this(1) have "set q = insert (pq_top q) (set (pq_pop snd q))"
      by (metis set_mset_add_mset_insert set_mset_mset)
    ultimately show ?thesis
      using "1.IH" [OF False refl] False
      by (auto simp: evict_conflict.simps [of m fc a q] same_line_def Let_def)
  qed (simp add: evict_conflict.simps)
qed

section \<open>Properties\<close>

text \<open>
  C13. An access round (\<open>Cache::process\<close>) loses and duplicates no transaction: counting queued,
  stalled, merged, answered, forwarded and deleted ones, the multiset is unchanged; exactly the
  requests due at the current cycle leave the queue; and the MSHR file stays well-formed, with one
  entry per line and at most \<open>mshrSize\<close> of them.
\<close>

theorem access_round_conserves:
  assumes "cache_ok m c" "cache_process (m, c) = (m', c')"
  shows "accounted (m', c') = accounted (m, c) \<and>
    mset (c_pq c') = filter_mset (\<lambda>x. c_cycle c < snd x) (mset (c_pq c)) \<and> cache_ok m' c'"
  using cache_process_effect [OF assms] by blast

definition demo_store :: txn_store where
  "demo_store = \<lparr>ts_txn = (\<lambda>i. MemTransaction (int i) 0 None (64 * of_nat i) True False),
     ts_next = 8, ts_deleted = []\<rparr>"

theorem access_round_conserves_witness:
  "\<exists>m' c'. cache_process (demo_store, addTransaction 1 (- 1) (new_cache 2 False 1 64 4096 4 1 4 4)) = (m', c') \<and>
     accounted (m', c') = {#1#} \<and> c_pq c' = []"
proof -
  let ?c = "addTransaction 1 (- 1) (new_cache 2 False 1 64 4096 4 1 4 4)"
  have ok: "cache_ok demo_store ?c"
    by (simp add: cache_ok_def mshr_wf_def stalled_ok_def addTransaction_def new_cache_def pq_push_heap)
  obtain m' c' where p: "cache_process (demo_store, ?c) = (m', c')" by (metis surj_pair)
  have q: "mset (c_pq ?c) = {#(1, 0)#}" "c_cycle ?c = 0"
    by (simp_all add: addTransaction_def new_cache_def mset_pq_push)
  then have "accounted (demo_store, ?c) = {#1#}"
    by (simp add: accounted_def residents_def merged_def)
      (simp add: addTransaction_def new_cache_def demo_store_def)
  with access_round_conserves [OF ok p] q p show ?thesis by simp
qed

text \<open>
  The MSHRs keep one outstanding request per line.  The first miss of a line sends its request
  and opens an entry, unless the file is full, when nothing changes and the miss must wait; every
  later miss of the line only joins the entry.
\<close>

theorem one_request_per_line:
  assumes "mshr_wf m c" "k = line_of c (t_addr (ts_txn m t))" "enterMSHR m t c = (full, c')"
  shows "(full \<longleftrightarrow> \<not> mshr_has k c \<and> int (length (c_mshr c)) = uint (word_of_int (c_mshrSize c) :: u64)) \<and>
    (full \<longrightarrow> c' = c) \<and>
    (\<not> full \<longrightarrow> c_outcomingRequests c' = c_outcomingRequests c @ (if mshr_has k c then [] else [t]) \<and>
       map_of (c_mshr c') = (map_of (c_mshr c))(k \<mapsto>
         (case map_of (c_mshr c) k of None \<Rightarrow> [t] | Some ops \<Rightarrow> ops @ [t]))) \<and>
    mshr_wf m c'"
proof -
  have "map_of (c_mshr c') = (map_of (c_mshr c))(k \<mapsto>
         (case map_of (c_mshr c) k of None \<Rightarrow> [t] | Some ops \<Rightarrow> ops @ [t]))" if "\<not> full"
  proof -
    have "c_mshr c' = AList.map_entry k (\<lambda>ops. ops @ [t])
        (if mshr_has k c then c_mshr c else (k, []) # c_mshr c)"
      using that assms(2,3) by (auto simp: enterMSHR_def Let_def split: if_splits)
    then show ?thesis
      by (auto simp: AList.map_of_map_entry mshr_has_def fun_eq_iff split: option.splits)
  qed
  then show ?thesis
    using assms enterMSHR_fst [of m t c] enterMSHR_requests [of m t c] enterMSHR_full [of m t c]
      enterMSHR_wf [of m c t] by (auto simp: mshr_wf_def)
qed

theorem one_request_per_line_witness:
  "\<exists>c'. enterMSHR demo_store 1 (new_cache 2 False 1 64 4096 4 1 4 4) = (False, c') \<and>
     c_outcomingRequests c' = [1] \<and> mshr_wf demo_store c'"
proof -
  let ?c = "new_cache 2 False 1 64 4096 4 1 4 4"
  have wf: "mshr_wf demo_store ?c" by (simp add: mshr_wf_def new_cache_def)
  obtain full c' where e: "enterMSHR demo_store 1 ?c = (full, c')" by (metis surj_pair)
  have "\<not> mshr_has k ?c" "length (c_mshr ?c) = 0" "c_mshrSize ?c = 1" "c_outcomingRequests ?c = []" for k
    by (simp_all add: mshr_has_def new_cache_def)
  with one_request_per_line [OF wf refl e] e show ?thesis by auto
qed

text \<open>
  C29. Responses.  When every arriving response is for a different line with an open entry that is
  not in the cache, \<open>handleResponses\<close> passes all its assertions, answers exactly the requests merged
  in those entries, in their order, closes those entries and no other, and consumes all responses.
\<close>

theorem responses_release_merged_misses:
  assumes "fc_ok c" "mshr_wf m c" "\<forall>t\<in>set (c_incomingResponses c). response_ok m c t"
    "distinct (map (\<lambda>t. line_of c (t_addr (ts_txn m t))) (c_incomingResponses c))"
  shows "\<exists>c'. handleResponses m c = Some c' \<and> c_incomingResponses c' = [] \<and>
    c_outcomingResponses c' = c_outcomingResponses c @ concat (map
      (\<lambda>t. the (map_of (c_mshr c) (line_of c (t_addr (ts_txn m t))))) (c_incomingResponses c)) \<and>
    (\<forall>k. map_of (c_mshr c') k = (if \<exists>t\<in>set (c_incomingResponses c). k = line_of c (t_addr (ts_txn m t))
       then None else map_of (c_mshr c) k)) \<and>
    fc_ok c' \<and> mshr_wf m c'"
proof -
  obtain c1 where c1: "handle_responses m (c_incomingResponses c) c = Some c1"
    "c_outcomingResponses c1 = c_outcomingResponses c @ concat (map
      (\<lambda>t. the (map_of (c_mshr c) (line_of c (t_addr (ts_txn m t))))) (c_incomingResponses c))"
    "\<forall>k. map_of (c_mshr c1) k = (if k \<in> (\<lambda>t. line_of c (t_addr (ts_txn m t))) ` set (c_incomingResponses c)
       then None else map_of (c_mshr c) k)" "fc_ok c1" "mshr_wf m c1"
    using handle_responses_spec [OF assms] by blast
  have "fc_ok (c1\<lparr>c_incomingResponses := []\<rparr>)" "mshr_wf m (c1\<lparr>c_incomingResponses := []\<rparr>)"
    using c1(4,5) by (simp_all add: fc_ok_def mshr_wf_def line_of_def)
  then show ?thesis using c1 by (auto simp: handleResponses_def image_iff)
qed

theorem responses_release_merged_misses_witness:
  "\<exists>c'. handleResponses demo_store ((new_cache 2 False 1 64 4096 4 1 4 4)
       \<lparr>c_mshr := [(1, [1, 1])], c_incomingResponses := [1]\<rparr>) = Some c' \<and>
     c_outcomingResponses c' = [1, 1] \<and> map_of (c_mshr c') 1 = None"
proof -
  let ?c = "(new_cache 2 False 1 64 4096 4 1 4 4)\<lparr>c_mshr := [(1, [1, 1])], c_incomingResponses := [1]\<rparr>"
  have ilog: "ilog2 64 = 6" using ilog2_power [of 6] by simp
  have fc: "c_fc ?c = new_fcache 4096 4 64" by (simp add: new_cache_def)
  have line: "line_of ?c (t_addr (ts_txn demo_store 1)) = 1"
    by (simp add: line_of_def new_cache_def demo_store_def MemTransaction_def)
  have "fc_ok ?c"
    using new_fcache_inv [of 4 64 4096] new_fcache_empty [of 4096 4 64] unfolding fc_ok_def fc
    by (simp add: new_cache_def new_fcache_def Let_def ilog)
  moreover have "mshr_wf demo_store ?c"
    using line by (simp add: mshr_wf_def) (simp add: new_cache_def)
  moreover have "response_ok demo_store ?c 1"
    using new_fcache_empty [of 4096 4 64] line unfolding response_ok_def fc
    by (simp add: moves_on_def mshr_has_def) (simp add: new_cache_def demo_store_def MemTransaction_def)
  moreover have "c_incomingResponses ?c = [1]" "c_outcomingResponses ?c = []"
    by (simp_all add: new_cache_def)
  ultimately show ?thesis
    using responses_release_merged_misses [of ?c demo_store] line by auto
qed

text \<open>
  A sender that asks \<open>willAcceptTransaction\<close> first is safe: on a level with a bounded number of
  ports, \<open>recvRequest\<close> passes its port assertions, and the request is queued last.
\<close>

theorem accepted_request_never_aborts:
  assumes "ports_ok c" "txn_wf m t" "willAcceptTransaction m (Some t) c"
  shows "\<exists>c'. recvRequest m t c = Some c' \<and> ports_ok c' \<and>
    c_incomingRequests c' = c_incomingRequests c @ [t]"
  by (rule recvRequest_accepted [OF assms])

theorem accepted_request_never_aborts_witness:
  "\<exists>c'. recvRequest demo_store 1 (new_cache 2 False 1 64 4096 4 1 4 4) = Some c' \<and>
     c_incomingRequests c' = [1]"
proof -
  let ?c = "new_cache 2 False 1 64 4096 4 1 4 4"
  have "ports_ok ?c" "txn_wf demo_store 1" "willAcceptTransaction demo_store (Some 1) ?c"
    "c_incomingRequests ?c = []"
    by (simp_all add: ports_ok_def txn_wf_def demo_store_def MemTransaction_def new_cache_def
        willAcceptTransaction_def)
  with accepted_request_never_aborts [of ?c demo_store 1] show ?thesis by auto
qed

text \<open>
  With the \<open>unlimited\<close> setting -1 for a port class the two functions disagree: every load is
  accepted, and the first one received in a cycle aborts on the assertion.
\<close>

theorem unlimited_load_ports_abort:
  assumes "c_load_ports c = - 1" "c_free_load_ports c = - 1"
    "t_isLoad (ts_txn m t)" "t_hwID (ts_txn m t) \<noteq> - 1"
  shows "willAcceptTransaction m (Some t) c \<and> recvRequest m t c = None"
  using assms by (simp add: willAcceptTransaction_def recvRequest_def Let_def)

theorem unlimited_load_ports_abort_witness:
  "recvRequest demo_store 1 (new_cache 2 False 1 64 4096 4 1 4 (- 1)) = None"
  using unlimited_load_ports_abort [of "new_cache 2 False 1 64 4096 4 1 4 (- 1)" demo_store 1]
  by (simp add: new_cache_def demo_store_def MemTransaction_def)

text \<open>
  \<open>checkEvictConflict\<close>, which pops a copy of the queue, answers whether any queued request is for
  the line, wherever it is in the queue.
\<close>

theorem evict_conflict_exact:
  assumes "is_heap snd (c_pq c)"
  shows "checkEvictConflict m a c \<longleftrightarrow> (\<exists>e\<in>set (c_pq c). same_line (c_fc c) a (t_addr (ts_txn m (fst e))))"
  using assms by (simp add: checkEvictConflict_def evict_conflict_iff)

theorem evict_conflict_exact_witness:
  "checkEvictConflict demo_store 64 (addTransaction 1 (- 1) (new_cache 2 False 1 64 4096 4 1 4 4))"
proof -
  let ?c = "addTransaction 1 (- 1) (new_cache 2 False 1 64 4096 4 1 4 4)"
  have "is_heap snd (c_pq ?c)" "set (c_pq ?c) = {(1, 0)}"
    by (simp_all add: addTransaction_def new_cache_def pq_push_heap set_pq_push)
  with evict_conflict_exact [of ?c demo_store 64] show ?thesis
    by (simp add: demo_store_def MemTransaction_def same_line_def)
qed

end
