(* ===== verification/DRAM.thy ===== *)
theory DRAM
  imports SimpleDRAM Cache
begin

text \<open>
  \<open>sim/src/mem/DRAM.cpp\<close>: the interface between the last cache level and the memory.  It keeps one
  queue of waiting transactions per line address for reads and one for write-backs, counts the
  ports of the cycle, and answers the cache when the memory calls back.

  The memory is either \<open>SimpleDRAM\<close> or the vendored DRAMSim2.  DRAMSim2 is a parameter: a record of
  its entry points, of which \<open>mb_update\<close> also returns the completions it reports by calling back.
\<close>

section \<open>State\<close>

record 'm backend =
  mb_add :: "bool \<Rightarrow> u64 \<Rightarrow> 'm \<Rightarrow> 'm"
  mb_accept :: "u64 \<Rightarrow> 'm \<Rightarrow> bool"
  mb_update :: "'m \<Rightarrow> (bool \<times> u64) list \<times> 'm"

record 'm dram =
  d_cycles :: u64
  d_read_ports :: int
  d_write_ports :: int
  d_free_read_ports :: int
  d_free_write_ports :: int
  d_simple :: simple_dram
  d_use_SimpleDRAM :: bool
  d_mem :: 'm
  d_outstanding_read :: "(u64 \<times> (nat \<times> u64) list) list"
  d_outstanding_write :: "(u64 \<times> (nat option \<times> u64) list) list"

definition new_dram :: "int \<Rightarrow> int \<Rightarrow> bool \<Rightarrow> simple_dram \<Rightarrow> 'm \<Rightarrow> 'm dram" where
  "new_dram rp wp simple sd mem =
     \<lparr>d_cycles = 0, d_read_ports = rp, d_write_ports = wp, d_free_read_ports = rp,
      d_free_write_ports = wp, d_simple = sd, d_use_SimpleDRAM = simple, d_mem = mem,
      d_outstanding_read = [], d_outstanding_write = []\<rparr>"

section \<open>Operations\<close>

text \<open>\<open>find\<close> or \<open>insert\<close> an empty queue, then \<open>at(addr).push\<close>.\<close>

definition enqueue_at :: "u64 \<Rightarrow> 'e \<Rightarrow> (u64 \<times> 'e list) list \<Rightarrow> (u64 \<times> 'e list) list" where
  "enqueue_at addr e xs =
     AList.map_entry addr (\<lambda>q. q @ [e]) (if map_of xs addr = None then (addr, []) # xs else xs)"

definition add_memory :: "'m backend \<Rightarrow> bool \<Rightarrow> u64 \<Rightarrow> 'm dram \<Rightarrow> 'm dram" where
  "add_memory mb isWrite addr d =
     (if d_use_SimpleDRAM d then d\<lparr>d_simple := sd_addTransaction isWrite addr (d_simple d)\<rparr>
      else d\<lparr>d_mem := mb_add mb isWrite addr (d_mem d)\<rparr>)"

definition dram_addTransaction ::
    "'m backend \<Rightarrow> nat option \<Rightarrow> u64 \<Rightarrow> bool \<Rightarrow> u64 \<Rightarrow> 'm dram \<Rightarrow> 'm dram" where
  "dram_addTransaction mb t addr isRead issueCycle d =
     (case t of
        Some i \<Rightarrow>
          let d1 = add_memory mb False addr (d\<lparr>d_free_read_ports := d_free_read_ports d - 1\<rparr>)
          in d1\<lparr>d_outstanding_read := enqueue_at addr (i, issueCycle) (d_outstanding_read d1)\<rparr>
      | None \<Rightarrow>
          let d1 = add_memory mb True addr (d\<lparr>d_free_write_ports := d_free_write_ports d - 1\<rparr>)
          in d1\<lparr>d_outstanding_write := enqueue_at addr (None, issueCycle) (d_outstanding_write d1)\<rparr>)"

definition dram_willAcceptTransaction :: "'m backend \<Rightarrow> u64 \<Rightarrow> bool \<Rightarrow> 'm dram \<Rightarrow> bool" where
  "dram_willAcceptTransaction mb addr isRead d =
     (if d_free_read_ports d \<le> 0 \<and> isRead \<and> d_read_ports d \<noteq> - 1 \<or>
         d_free_write_ports d \<le> 0 \<and> \<not> isRead \<and> d_write_ports d \<noteq> - 1 then False
      else if d_use_SimpleDRAM d then sd_willAcceptTransaction addr (d_simple d)
      else mb_accept mb addr (d_mem d))"

text \<open>The callbacks; \<open>cache\<close> is the level the interface answers.\<close>

definition read_complete :: "u64 \<Rightarrow> 'm dram \<times> cache \<Rightarrow> 'm dram \<times> cache" where
  "read_complete addr = (\<lambda>(d, c).
     (case map_of (d_outstanding_read d) addr of
        None \<Rightarrow> (d, c)
      | Some q \<Rightarrow> (d\<lparr>d_outstanding_read := AList.delete addr (d_outstanding_read d)\<rparr>,
                   fold (\<lambda>e. recvResponse (fst e)) q c)))"

definition write_complete :: "u64 \<Rightarrow> 'm dram \<times> cache \<Rightarrow> ('m dram \<times> cache) option" where
  "write_complete addr = (\<lambda>(d, c).
     do { q \<leftarrow> map_of (d_outstanding_write d) addr;
          assert_that (q \<noteq> []);
          let q' = tl q;
          Some (d\<lparr>d_outstanding_write :=
                   (if q' = [] then AList.delete addr (d_outstanding_write d)
                    else AList.map_entry addr (\<lambda>_. q') (d_outstanding_write d))\<rparr>, c) })"

definition dram_callback :: "bool \<Rightarrow> u64 \<Rightarrow> 'm dram \<times> cache \<Rightarrow> ('m dram \<times> cache) option" where
  "dram_callback isWrite addr s = (if isWrite then write_complete addr s else Some (read_complete addr s))"

definition simple_callback :: "mem_operator \<Rightarrow> u64 \<Rightarrow> 'm dram \<times> cache \<Rightarrow> ('m dram \<times> cache) option" where
  "simple_callback memop now = dram_callback (mo_isWrite memop) (mo_addr memop)"

fun dram_callbacks :: "(bool \<times> u64) list \<Rightarrow> 'm dram \<times> cache \<Rightarrow> ('m dram \<times> cache) option" where
  "dram_callbacks [] s = Some s"
| "dram_callbacks ((w, a) # es) s = dram_callback w a s \<bind> dram_callbacks es"

definition dram_process :: "'m backend \<Rightarrow> 'm dram \<times> cache \<Rightarrow> ('m dram \<times> cache) option" where
  "dram_process mb = (\<lambda>(d, c).
     (let d0 = d\<lparr>d_free_read_ports := d_read_ports d, d_free_write_ports := d_write_ports d\<rparr>
      in if d_use_SimpleDRAM d0 then
           do { (busy, sd', d1, c1) \<leftarrow> sd_process simple_callback (d_simple d0) (d0, c);
                Some (d1\<lparr>d_simple := sd', d_cycles := d_cycles d1 + 1\<rparr>, c1) }
         else
           do { let (es, mem') = mb_update mb (d_mem d0);
                (d1, c1) \<leftarrow> dram_callbacks es (d0\<lparr>d_mem := mem'\<rparr>, c);
                Some (d1\<lparr>d_cycles := d_cycles d1 + 1\<rparr>, c1) }))"

definition dram_fastForward :: "'m backend \<Rightarrow> u64 \<Rightarrow> 'm dram \<Rightarrow> 'm dram" where
  "dram_fastForward mb inc d =
     (if d_use_SimpleDRAM d
      then d\<lparr>d_simple := (d_simple d)\<lparr>sd_cycles := sd_cycles (d_simple d) + inc\<rparr>\<rparr>
      else d\<lparr>d_mem := ((\<lambda>x. snd (mb_update mb x)) ^^ unat inc) (d_mem d)\<rparr>)"

section \<open>Every completion finds its queue\<close>

definition queued_at :: "u64 \<Rightarrow> (u64 \<times> 'e list) list \<Rightarrow> nat" where
  "queued_at a xs = (case map_of xs a of None \<Rightarrow> 0 | Some q \<Rightarrow> length q)"

definition pending :: "bool \<Rightarrow> u64 \<Rightarrow> mem_operator list \<Rightarrow> nat" where
  "pending w a ms = length (filter (\<lambda>m. mo_isWrite m = w \<and> mo_addr m = a) ms)"

text \<open>A write-back queue is as long as the number of writes the memory still owes; a read queue is
  not longer, since one completion answers the whole queue.\<close>

definition queues_match :: "mem_operator list \<Rightarrow> 'm dram \<Rightarrow> bool" where
  "queues_match ms d \<longleftrightarrow>
     distinct (map fst (d_outstanding_read d)) \<and> distinct (map fst (d_outstanding_write d)) \<and>
     (\<forall>a. queued_at a (d_outstanding_write d) = pending True a ms) \<and>
     (\<forall>a. queued_at a (d_outstanding_read d) \<le> pending False a ms)"

definition dram_ok :: "'m dram \<Rightarrow> bool" where
  "dram_ok d \<longleftrightarrow> d_use_SimpleDRAM d \<and> sd_inv (d_simple d) \<and> queues_match (sd_pq (d_simple d)) d"

definition waiting_reads :: "'m dram \<Rightarrow> nat multiset" where
  "waiting_reads d = mset (map fst (concat (map snd (d_outstanding_read d))))"

lemma pending_simps [simp]:
  "pending w a [] = 0"
  "pending w a (m # ms) = (if mo_isWrite m = w \<and> mo_addr m = a then 1 else 0) + pending w a ms"
  "pending w a (ms @ ns) = pending w a ms + pending w a ns"
  by (simp_all add: pending_def)

lemma pending_mset: "mset ms = mset ns \<Longrightarrow> pending w a ms = pending w a ns"
  by (metis pending_def mset_filter size_mset)

lemma queued_at_enqueue:
  "queued_at b (enqueue_at a e xs) = (if b = a then 1 else 0) + queued_at b xs"
  by (auto simp: queued_at_def enqueue_at_def AList.map_of_map_entry split: option.splits)

lemma distinct_enqueue:
  "distinct (map fst xs) \<Longrightarrow> distinct (map fst (enqueue_at a e xs))"
  by (simp add: enqueue_at_def map_of_eq_None_iff)

lemma concat_delete:
  assumes "distinct (map fst xs)" "map_of xs a = Some q"
  shows "mset (concat (map snd xs)) = mset q + mset (concat (map snd (AList.delete a xs)))"
  using assms
proof (induction xs)
  case (Cons x xs)
  show ?case
  proof (cases "fst x = a")
    case True
    then have "AList.delete a xs = xs"
      using Cons.prems(1) by (cases x) (auto simp: AList.delete_eq filter_id_conv image_iff)
    with True Cons.prems show ?thesis by (cases x) auto
  qed (use Cons in \<open>cases x; auto\<close>)
qed simp

lemma concat_enqueue:
  assumes "distinct (map fst xs)"
  shows "mset (concat (map snd (enqueue_at a e xs))) = add_mset e (mset (concat (map snd xs)))"
proof (cases "map_of xs a = None")
  case True
  then show ?thesis
    using mset_concat_map_entry [of "(a, []) # xs" a e] assms
    by (simp add: enqueue_at_def map_of_eq_None_iff)
next
  case False
  then show ?thesis
    using mset_concat_map_entry [of xs a e] assms
    by (auto simp: enqueue_at_def map_of_eq_None_iff)
qed

lemma fold_recvResponse:
  "c_incomingResponses (fold (\<lambda>e. recvResponse (fst e)) q c) = c_incomingResponses c @ map fst q"
  by (induction q arbitrary: c) (simp_all add: recvResponse_def)

lemma callback_ok:
  assumes "queues_match (m # ms) d"
  shows "\<exists>d' c'. simple_callback m now (d, c) = Some (d', c') \<and> queues_match ms d' \<and>
    waiting_reads d' + mset (c_incomingResponses c') = waiting_reads d + mset (c_incomingResponses c) \<and>
    d_simple d' = d_simple d \<and> d_use_SimpleDRAM d' = d_use_SimpleDRAM d"
proof (cases "mo_isWrite m")
  case True
  let ?a = "mo_addr m" and ?W = "d_outstanding_write d"
  have "queued_at ?a ?W = Suc (pending True ?a ms)"
    using assms True by (simp add: queues_match_def)
  then obtain q where q: "map_of ?W ?a = Some q" "length q = Suc (pending True ?a ms)"
    by (auto simp: queued_at_def split: option.splits)
  then have ne: "q \<noteq> []" by auto
  let ?W' = "if tl q = [] then AList.delete ?a ?W else AList.map_entry ?a (\<lambda>_. tl q) ?W"
  have "queued_at b ?W' = pending True b ms" for b
  proof (cases "b = ?a")
    case True
    then have "queued_at b ?W' = length (tl q)"
      using q(1) by (cases q) (auto simp: queued_at_def AList.map_of_map_entry AList.delete_conv)
    with True q(2) show ?thesis by simp
  next
    case False
    then have "queued_at b ?W' = queued_at b ?W"
      by (simp add: queued_at_def AList.map_of_map_entry AList.delete_conv)
    with False assms show ?thesis by (simp add: queues_match_def)
  qed
  moreover have "distinct (map fst ?W')"
    using assms by (simp add: queues_match_def AList.distinct_delete)
  moreover have "queued_at b (d_outstanding_read d) \<le> pending False b ms" for b
    using assms True by (auto simp: queues_match_def dest: spec [of _ b])
  moreover have "simple_callback m now (d, c) = Some (d\<lparr>d_outstanding_write := ?W'\<rparr>, c)"
    using True q(1) ne by (simp add: simple_callback_def dram_callback_def write_complete_def Let_def)
  ultimately show ?thesis
    using assms by (simp add: queues_match_def waiting_reads_def)
next
  case False
  let ?a = "mo_addr m" and ?R = "d_outstanding_read d"
  have w: "queued_at b (d_outstanding_write d) = pending True b ms" for b
    using assms False by (auto simp: queues_match_def dest: spec [of _ b])
  have r: "queued_at b ?R \<le> pending False b (m # ms)" for b
    using assms by (simp add: queues_match_def)
  show ?thesis
  proof (cases "map_of ?R ?a")
    case None
    then have "queued_at b ?R \<le> pending False b ms" for b
      using r [of b] by (cases "b = ?a") (auto simp: queued_at_def)
    then show ?thesis
      using False None w assms
      by (simp add: simple_callback_def dram_callback_def read_complete_def queues_match_def)
  next
    case (Some q)
    have "queued_at b (AList.delete ?a ?R) \<le> pending False b ms" for b
      using r [of b] by (cases "b = ?a") (auto simp: queued_at_def AList.delete_conv)
    then show ?thesis
      using False Some w assms concat_delete [of ?R ?a q]
      by (simp add: simple_callback_def dram_callback_def read_complete_def queues_match_def
          AList.distinct_delete waiting_reads_def fold_recvResponse)
  qed
qed

lemma callbacks_ok:
  assumes "queues_match (ms @ rest) d"
  shows "\<exists>d' c'. complete_all simple_callback now ms (d, c) = Some (d', c') \<and> queues_match rest d' \<and>
    waiting_reads d' + mset (c_incomingResponses c') = waiting_reads d + mset (c_incomingResponses c) \<and>
    d_simple d' = d_simple d \<and> d_use_SimpleDRAM d' = d_use_SimpleDRAM d"
  using assms
proof (induction ms arbitrary: d c)
  case (Cons m ms)
  then obtain d1 c1 where s: "simple_callback m now (d, c) = Some (d1, c1)"
    "queues_match (ms @ rest) d1" "d_simple d1 = d_simple d" "d_use_SimpleDRAM d1 = d_use_SimpleDRAM d"
    "waiting_reads d1 + mset (c_incomingResponses c1) = waiting_reads d + mset (c_incomingResponses c)"
    using callback_ok [of m "ms @ rest" d now c] by auto
  with Cons.IH [OF s(2), of c1] show ?case by auto
qed simp

lemma dram_add_ok:
  assumes "dram_ok d"
  shows "dram_ok (dram_addTransaction mb t a r now d)"
    and "waiting_reads (dram_addTransaction mb t a r now d) =
      (case t of None \<Rightarrow> {#} | Some i \<Rightarrow> {#i#}) + waiting_reads d"
proof -
  have p: "pending w b (sd_pq (sd_addTransaction w' a sd)) =
      (if w' = w \<and> a = b then 1 else 0) + pending w b (sd_pq sd)" for w b w' sd
  proof -
    let ?x = "\<lparr>mo_addr = a, mo_final_cycle = sd_cycles sd + word_of_int (sd_latency sd) - 1,
       mo_trans_id = sd_trans_id sd, mo_isWrite = w'\<rparr>"
    have "pending w b (sd_pq (sd_addTransaction w' a sd)) = pending w b (?x # sd_pq sd)"
      by (rule pending_mset) (simp add: sd_addTransaction_def Let_def mset_pq_push)
    then show ?thesis by simp
  qed
  show "dram_ok (dram_addTransaction mb t a r now d)"
    using assms
    by (cases t) (auto simp: dram_ok_def queues_match_def dram_addTransaction_def add_memory_def Let_def
        sd_inv_add queued_at_enqueue distinct_enqueue p)
  show "waiting_reads (dram_addTransaction mb t a r now d) =
      (case t of None \<Rightarrow> {#} | Some i \<Rightarrow> {#i#}) + waiting_reads d"
    using assms concat_enqueue [of "d_outstanding_read d"]
    by (cases t) (simp_all add: dram_ok_def queues_match_def waiting_reads_def dram_addTransaction_def
        add_memory_def Let_def)
qed

lemma dram_process_ok:
  assumes "dram_ok d"
  shows "\<exists>d' c'. dram_process mb (d, c) = Some (d', c') \<and> dram_ok d' \<and>
    waiting_reads d' + mset (c_incomingResponses c') = waiting_reads d + mset (c_incomingResponses c)"
proof -
  let ?sd = "d_simple d"
  let ?d0 = "d\<lparr>d_free_read_ports := d_read_ports d, d_free_write_ports := d_write_ports d\<rparr>"
  have inv: "sd_inv ?sd" using assms by (simp add: dram_ok_def)
  have "pending w a (sd_pq ?sd) = pending w a (sd_ready ?sd @ sd_waiting ?sd)" for w a
    by (rule pending_mset) (use sd_ready_facts(1) [OF inv] in simp)
  then have "queues_match (sd_ready ?sd @ sd_waiting ?sd) ?d0"
    using assms by (simp add: dram_ok_def queues_match_def)
  from callbacks_ok [OF this, of "sd_cycles ?sd" c] obtain d1 c1 where
    c: "complete_all simple_callback (sd_cycles ?sd) (sd_ready ?sd) (?d0, c) = Some (d1, c1)"
    "queues_match (sd_waiting ?sd) d1" "d_use_SimpleDRAM d1"
    "waiting_reads d1 + mset (c_incomingResponses c1) = waiting_reads ?d0 + mset (c_incomingResponses c)"
    using assms by (auto simp: dram_ok_def)
  then show ?thesis
    using assms sd_inv_tick [OF inv]
    by (simp add: dram_process_def sd_process_alt dram_ok_def queues_match_def waiting_reads_def)
qed

text \<open>A concrete memory for the examples: a queue that finishes one transaction per update.\<close>

definition fifo_backend :: "(bool \<times> u64) list backend" where
  "fifo_backend = \<lparr>mb_add = (\<lambda>w a q. q @ [(w, a)]), mb_accept = (\<lambda>a q. length q < 8),
     mb_update = (\<lambda>q. (take 1 q, drop 1 q))\<rparr>"

section \<open>Properties\<close>

text \<open>
  C31. Between \<open>SimpleDRAM\<close> and the cache no completion goes astray: from any state reached by adding
  transactions and running cycles, \<open>process\<close> never throws from \<open>at\<close> or reads an empty queue, and the
  waiting reads together with the responses handed to the cache are the same multiset before and
  after, so every read is answered at most once and none is dropped.
\<close>

theorem dram_answers_every_read:
  assumes "dram_ok d"
  shows "\<exists>d' c'. dram_process mb (d, c) = Some (d', c') \<and> dram_ok d' \<and>
    waiting_reads d' + mset (c_incomingResponses c') = waiting_reads d + mset (c_incomingResponses c)"
  by (rule dram_process_ok [OF assms])

theorem dram_answers_every_read_witness:
  "\<exists>d' c'. dram_process fifo_backend (dram_addTransaction fifo_backend (Some 3) 64 True 0
      (new_dram 4 4 True ((new_simple_dram 1 12)\<lparr>sd_max_req_per_epoch := 1\<rparr>) []),
      new_cache 2 False 1 64 4096 4 1 4 4) = Some (d', c') \<and>
    waiting_reads d' + mset (c_incomingResponses c') = {#3#}"
proof -
  let ?d = "new_dram 4 4 True ((new_simple_dram 1 12)\<lparr>sd_max_req_per_epoch := 1\<rparr>) []"
  have ok: "dram_ok ?d"
    by (simp add: dram_ok_def new_dram_def queues_match_def queued_at_def sd_inv_def new_simple_dram_def)
  have "waiting_reads ?d = {#}" by (simp add: waiting_reads_def new_dram_def)
  moreover have "c_incomingResponses (new_cache 2 False 1 64 4096 4 1 4 4) = []" by (simp add: new_cache_def)
  ultimately show ?thesis
    using dram_answers_every_read [OF dram_add_ok(1) [OF ok], of fifo_backend fifo_backend "Some 3" 64 True 0
        "new_cache 2 False 1 64 4096 4 1 4 4"] dram_add_ok(2) [OF ok, of fifo_backend "Some 3" 64 True 0]
    by auto
qed

text \<open>
  A store miss is accepted against the write ports but consumes a read port: with all read ports
  used up it is still accepted, and the count of free read ports drops below what was configured.
\<close>

theorem store_miss_takes_read_port:
  assumes "d_use_SimpleDRAM d" "0 < d_free_write_ports d" "d_free_read_ports d \<le> 0"
  shows "dram_willAcceptTransaction mb addr False d \<and>
    d_free_read_ports (dram_addTransaction mb (Some i) addr False now d) < 0 \<and>
    d_free_write_ports (dram_addTransaction mb (Some i) addr False now d) = d_free_write_ports d"
  using assms by (simp add: dram_willAcceptTransaction_def sd_willAcceptTransaction_def
      dram_addTransaction_def add_memory_def Let_def)

theorem store_miss_takes_read_port_witness:
  "d_free_read_ports (dram_addTransaction fifo_backend (Some 3) 64 False 0
     (new_dram 0 4 True (new_simple_dram 1 12) [])) < 0"
  using store_miss_takes_read_port [of "new_dram 0 4 True (new_simple_dram 1 12) []" fifo_backend 64 3 0]
  by (simp add: new_dram_def)

end
