(* ===== verification/MemSystem.thy ===== *)
theory MemSystem
  imports DRAM
begin

text \<open>
  The cache hierarchy as \<open>core.cpp\<close> and \<open>main.cpp\<close> wire it: instruction and data L1 in front of one
  L2, the L2 in front of the memory interface; the methods of \<open>sim/src/mem/cache.cpp\<close> that reach into
  a neighbouring level.  \<open>LLCache\<close>, which the wiring leaves out, is modelled at the end.

  The responses an L1 hands to the LSU or the IFU and the L2 hands to the DMA engine are returned
  as lists, in the order of the calls of \<open>recvResponse\<close>.
\<close>

section \<open>L1\<close>

text \<open>The eviction loop of \<open>L1Cache::sendRequests\<close>: a transaction is allocated for every eviction,
  but only a dirty one is sent or kept.\<close>

fun l1_send_evictions ::
    "(u64 \<times> bool) list \<Rightarrow> txn_store \<times> cache \<times> cache \<Rightarrow> (txn_store \<times> cache \<times> cache) option" where
  "l1_send_evictions [] s = Some s"
| "l1_send_evictions ((eAddr, dirty) # es) (m, c, nxt) =
     (let (t, m1) = new_txn (MemTransaction (- 1) (- 1) None eAddr False False) m
      in if dirty then
           if willAcceptTransaction m1 (Some t) nxt
           then do { nxt1 \<leftarrow> recvRequest m1 t nxt; l1_send_evictions es (m1, c, nxt1) }
           else l1_send_evictions es
                  (m1, c\<lparr>c_outcomingRequests := c_outcomingRequests c @ [t]\<rparr>, nxt)
         else l1_send_evictions es (m1, c, nxt))"

definition l1_sendRequests :: "txn_store \<times> cache \<times> cache \<Rightarrow> (txn_store \<times> cache \<times> cache) option" where
  "l1_sendRequests = (\<lambda>(m, c, nxt).
     do { (left, nxt1) \<leftarrow> offer_all (\<lambda>t. willAcceptTransaction m (Some t)) (recvRequest m)
                           (c_outcomingRequests c) nxt;
          let c1 = c\<lparr>c_outcomingRequests := left, c_portStall := c_portStall c + of_nat (length left)\<rparr>;
          (m2, c2, nxt2) \<leftarrow> l1_send_evictions (c_evictAddresses c1) (m, c1, nxt1);
          Some (m2, c2\<lparr>c_evictAddresses := []\<rparr>, nxt2) })"

record routed =
  to_lsu :: "nat list"
  to_ifu :: "nat list"

fun l1_route :: "nat list \<Rightarrow> txn_store \<times> routed \<Rightarrow> txn_store \<times> routed" where
  "l1_route [] s = s"
| "l1_route (resp # rs) (m, r) =
     (let t = ts_txn m resp
      in if \<not> t_isPrefetch t then
           if t_isLoad t \<and> \<not> t_fromICache t then l1_route rs (m, r\<lparr>to_lsu := to_lsu r @ [resp]\<rparr>)
           else if t_isLoad t \<and> t_fromICache t then l1_route rs (m, r\<lparr>to_ifu := to_ifu r @ [resp]\<rparr>)
           else l1_route rs (delete_txn resp m, r)
         else l1_route rs (delete_txn resp m, r))"

definition l1_sendResponses :: "txn_store \<times> cache \<Rightarrow> txn_store \<times> cache \<times> routed" where
  "l1_sendResponses = (\<lambda>(m, c).
     (let (m1, r) = l1_route (c_outcomingResponses c) (m, \<lparr>to_lsu = [], to_ifu = []\<rparr>)
      in (m1, c\<lparr>c_outcomingResponses := []\<rparr>, r)))"

definition l1_process :: "txn_store \<times> cache \<times> cache \<Rightarrow> (txn_store \<times> cache \<times> cache \<times> routed) option" where
  "l1_process = (\<lambda>(m, c, nxt).
     do { (m1, c1) \<leftarrow> handleRequests (m, c);
          let (rest, c2) = issue_prefetches (c_to_prefetch c1) c1;
          let (m3, c3) = cache_process (m1, c2\<lparr>c_to_prefetch := rest\<rparr>);
          c4 \<leftarrow> handleResponses m3 c3;
          let (m5, c5, r) = l1_sendResponses (m3, c4);
          (m6, c6, nxt6) \<leftarrow> l1_sendRequests (m5, c5, nxt);
          Some (m6, end_cycle_l1 c6, nxt6, r) })"

section \<open>L2\<close>

definition dramaddr :: "cache \<Rightarrow> u64 \<Rightarrow> u64" where
  "dramaddr c a = (a div of_nat (c_cacheLineSize c)) * of_nat (c_cacheLineSize c)"

text \<open>The loop over \<open>outcomingRequests\<close>, the same in \<open>L2Cache\<close> and \<open>LLCache\<close>.\<close>

fun send_to_memory ::
    "'m backend \<Rightarrow> cache \<Rightarrow> nat list \<Rightarrow> txn_store \<times> 'm dram \<Rightarrow> nat list \<times> txn_store \<times> 'm dram" where
  "send_to_memory mb c [] (m, d) = ([], m, d)"
| "send_to_memory mb c (t # ts) (m, d) =
     (let tx = ts_txn m t; a = dramaddr c (t_addr tx)
      in if t_hwID tx \<noteq> - 1 \<and> dram_willAcceptTransaction mb a (t_isLoad tx) d
         then send_to_memory mb c ts (m, dram_addTransaction mb (Some t) a (t_isLoad tx) (c_cycle c) d)
         else if t_hwID tx = - 1 \<and> dram_willAcceptTransaction mb a False d
         then send_to_memory mb c ts (delete_txn t m, dram_addTransaction mb None a False (c_cycle c) d)
         else let (left, m1, d1) = send_to_memory mb c ts (m, d) in (t # left, m1, d1))"

record levels =
  lv_l1i :: cache
  lv_l1d :: cache
  lv_l2 :: cache

text \<open>One eviction of \<open>L2Cache::sendRequests\<close> that the memory accepts.\<close>

definition l2_evict ::
    "'m backend \<Rightarrow> txn_store \<Rightarrow> u64 \<times> bool \<Rightarrow> levels \<times> 'm dram \<Rightarrow> (levels \<times> 'm dram) option" where
  "l2_evict mb m = (\<lambda>(eAddr, dirty) (lv, d).
     do { let a = dramaddr (lv_l2 lv) eAddr;
          (di, i1) \<leftarrow> invalidate_own eAddr (lv_l1i lv);
          (dd, d1) \<leftarrow> invalidate_own eAddr (lv_l1d lv);
          let dirty' = (dirty \<or> di \<or> dd \<or> checkEvictConflict m eAddr (lv_l2 lv));
          Some (lv\<lparr>lv_l1i := i1, lv_l1d := d1\<rparr>,
                if dirty' then dram_addTransaction mb None a False (c_cycle (lv_l2 lv)) d else d) })"

fun l2_evictions ::
    "'m backend \<Rightarrow> txn_store \<Rightarrow> (u64 \<times> bool) list \<Rightarrow> levels \<times> 'm dram
     \<Rightarrow> ((u64 \<times> bool) list \<times> levels \<times> 'm dram) option" where
  "l2_evictions mb m [] s = Some ([], s)"
| "l2_evictions mb m (e # es) s =
     (if dram_willAcceptTransaction mb (dramaddr (lv_l2 (fst s)) (fst e)) False (snd s)
      then do { s1 \<leftarrow> l2_evict mb m e s; l2_evictions mb m es s1 }
      else do { (left, s1) \<leftarrow> l2_evictions mb m es s; Some (e # left, s1) })"

definition l2_sendRequests ::
    "'m backend \<Rightarrow> txn_store \<times> levels \<times> 'm dram \<Rightarrow> (txn_store \<times> levels \<times> 'm dram) option" where
  "l2_sendRequests mb = (\<lambda>(m, lv, d).
     (let (left, m1, d1) = send_to_memory mb (lv_l2 lv) (c_outcomingRequests (lv_l2 lv)) (m, d);
          lv1 = lv\<lparr>lv_l2 := (lv_l2 lv)\<lparr>c_outcomingRequests := left\<rparr>\<rparr>
      in do { (evs, lv2, d2) \<leftarrow> l2_evictions mb m1 (c_evictAddresses (lv_l2 lv1)) (lv1, d1);
              Some (m1, lv2\<lparr>lv_l2 := (lv_l2 lv2)\<lparr>c_evictAddresses := evs\<rparr>\<rparr>, d2) }))"

text \<open>\<open>L2Cache::sendResponses\<close>: the flag says whether a DMA engine is connected.\<close>

fun l2_route ::
    "bool \<Rightarrow> nat list \<Rightarrow> txn_store \<times> levels \<times> nat list \<Rightarrow> txn_store \<times> levels \<times> nat list" where
  "l2_route has_dma [] s = s"
| "l2_route has_dma (resp # rs) (m, lv, dma) =
     (if t_fromDMA (ts_txn m resp) \<and> has_dma
      then l2_route has_dma rs (delete_txn resp m, lv, dma @ [resp])
      else if t_fromICache (ts_txn m resp)
      then l2_route has_dma rs (m, lv\<lparr>lv_l1i := recvResponse resp (lv_l1i lv)\<rparr>, dma)
      else l2_route has_dma rs (m, lv\<lparr>lv_l1d := recvResponse resp (lv_l1d lv)\<rparr>, dma))"

definition l2_sendResponses :: "bool \<Rightarrow> txn_store \<times> levels \<Rightarrow> txn_store \<times> levels \<times> nat list" where
  "l2_sendResponses has_dma = (\<lambda>(m, lv).
     (let (m1, lv1, dma) = l2_route has_dma (c_outcomingResponses (lv_l2 lv)) (m, lv, [])
      in (m1, lv1\<lparr>lv_l2 := (lv_l2 lv1)\<lparr>c_outcomingResponses := []\<rparr>\<rparr>, dma)))"

definition l2_process ::
    "'m backend \<Rightarrow> bool \<Rightarrow> txn_store \<times> levels \<times> 'm dram \<Rightarrow> (txn_store \<times> levels \<times> 'm dram \<times> nat list) option" where
  "l2_process mb has_dma = (\<lambda>(m, lv, d).
     do { (m1, c1) \<leftarrow> handleRequests (m, lv_l2 lv);
          let (m2, c2) = cache_process (m1, c1);
          c3 \<leftarrow> handleResponses m2 c2;
          let (m4, lv4, dma) = l2_sendResponses has_dma (m2, lv\<lparr>lv_l2 := c3\<rparr>);
          (m5, lv5, d5) \<leftarrow> l2_sendRequests mb (m4, lv4, d);
          Some (m5, lv5\<lparr>lv_l2 := end_cycle (lv_l2 lv5)\<rparr>, d5, dma) })"

section \<open>LLC\<close>

text \<open>\<open>invalidate\<close> of an L2 visits both L1 caches after its own lines.\<close>

definition l2_invalidate :: "u64 \<Rightarrow> levels \<Rightarrow> (bool \<times> levels) option" where
  "l2_invalidate a lv =
     do { (d2, c2) \<leftarrow> invalidate_own a (lv_l2 lv);
          (di, ci) \<leftarrow> invalidate_own a (lv_l1i lv);
          (dd, cd) \<leftarrow> invalidate_own a (lv_l1d lv);
          Some (d2 \<or> di \<or> dd, lv\<lparr>lv_l2 := c2, lv_l1i := ci, lv_l1d := cd\<rparr>) }"

fun llc_evictions ::
    "'m backend \<Rightarrow> txn_store \<Rightarrow> cache \<Rightarrow> (u64 \<times> bool) list \<Rightarrow> levels \<times> 'm dram
     \<Rightarrow> ((u64 \<times> bool) list \<times> levels \<times> 'm dram) option" where
  "llc_evictions mb m llc [] s = Some ([], s)"
| "llc_evictions mb m llc ((eAddr, dirty) # es) (lv, d) =
     (if dram_willAcceptTransaction mb (dramaddr llc eAddr) False d
      then do { (d2, lv1) \<leftarrow> l2_invalidate eAddr lv;
                let dirty' = (dirty \<or> d2 \<or> checkEvictConflict m eAddr llc);
                let d1 = (if dirty' then dram_addTransaction mb None (dramaddr llc eAddr) False (c_cycle llc) d
                          else d);
                llc_evictions mb m llc es (lv1, d1) }
      else do { (left, s1) \<leftarrow> llc_evictions mb m llc es (lv, d); Some ((eAddr, dirty) # left, s1) })"

definition llc_sendRequests ::
    "'m backend \<Rightarrow> txn_store \<times> cache \<times> levels \<times> 'm dram \<Rightarrow> (txn_store \<times> cache \<times> levels \<times> 'm dram) option" where
  "llc_sendRequests mb = (\<lambda>(m, llc, lv, d).
     (let (left, m1, d1) = send_to_memory mb llc (c_outcomingRequests llc) (m, d);
          llc1 = llc\<lparr>c_outcomingRequests := left\<rparr>
      in do { (evs, lv2, d2) \<leftarrow> llc_evictions mb m1 llc1 (c_evictAddresses llc1) (lv, d1);
              Some (m1, llc1\<lparr>c_evictAddresses := evs\<rparr>, lv2, d2) }))"

definition llc_sendResponses :: "cache \<times> cache \<Rightarrow> cache \<times> cache" where
  "llc_sendResponses = (\<lambda>(llc, prev).
     (llc\<lparr>c_outcomingResponses := []\<rparr>, fold recvResponse (c_outcomingResponses llc) prev))"

definition llc_process ::
    "'m backend \<Rightarrow> txn_store \<times> cache \<times> levels \<times> 'm dram \<Rightarrow> (txn_store \<times> cache \<times> levels \<times> 'm dram) option" where
  "llc_process mb = (\<lambda>(m, llc, lv, d).
     do { (m1, c1) \<leftarrow> handleRequests (m, llc);
          let (m2, c2) = cache_process (m1, c1);
          c3 \<leftarrow> handleResponses m2 c2;
          let (c4, prev) = llc_sendResponses (c3, lv_l2 lv);
          (m5, c5, lv5, d5) \<leftarrow> llc_sendRequests mb (m2, c4, lv\<lparr>lv_l2 := prev\<rparr>, d);
          Some (m5, end_cycle c5, lv5, d5) })"

section \<open>One cycle of the hierarchy\<close>

text \<open>\<open>Core::run\<close> calls the three levels in this order and \<open>main\<close> then the memory.\<close>

record 'm memsys =
  sy_txns :: txn_store
  sy_levels :: levels
  sy_dram :: "'m dram"

definition memsys_cycle :: "'m backend \<Rightarrow> bool \<Rightarrow> 'm memsys \<Rightarrow> ('m memsys \<times> routed \<times> routed \<times> nat list) option" where
  "memsys_cycle mb has_dma s =
     do { let lv = sy_levels s;
          (m1, i1, l2a, ri) \<leftarrow> l1_process (sy_txns s, lv_l1i lv, lv_l2 lv);
          (m2, d2, l2b, rd) \<leftarrow> l1_process (m1, lv_l1d lv, l2a);
          (m3, lv3, dr3, dma) \<leftarrow> l2_process mb has_dma (m2, \<lparr>lv_l1i = i1, lv_l1d = d2, lv_l2 = l2b\<rparr>, sy_dram s);
          (dr4, l2d) \<leftarrow> dram_process mb (dr3, lv_l2 lv3);
          Some (\<lparr>sy_txns = m3, sy_levels = lv3\<lparr>lv_l2 := l2d\<rparr>, sy_dram = dr4\<rparr>, ri, rd, dma) }"

section \<open>Inclusion and write-back\<close>

lemma invalidate_own_spec:
  assumes "fc_inv (c_fc c)"
  shows "\<exists>d c'. invalidate_own a c = Some (d, c') \<and> fc_inv (c_fc c') \<and>
    (\<forall>b. holds (c_fc c') b \<longleftrightarrow> holds (c_fc c) b \<and> \<not> same_line (c_fc c) a b)"
proof (cases "holds (c_fc c) a")
  case True
  then show ?thesis
    using tag_store.drop_law [OF assms True] fc_present_total [OF assms, of a]
    by (auto simp: invalidate_own_def)
next
  case False
  then have "\<not> same_line (c_fc c) a b" if "holds (c_fc c) b" for b
    using tag_store.held_same [OF assms, of a b] that by blast
  then show ?thesis
    using False assms fc_present_total [OF assms, of a] by (auto simp: invalidate_own_def)
qed

text \<open>A clean line is only reported dirty by an invalidation that drops it.\<close>

lemma invalidate_own_absent:
  assumes "fc_inv (c_fc c)" "\<not> holds (c_fc c) a"
  shows "invalidate_own a c = Some (False, c)"
  using assms fc_present_total [OF assms(1), of a] by (simp add: invalidate_own_def)

lemma l2_evict_spec:
  assumes "fc_inv (c_fc (lv_l1i lv))" "fc_inv (c_fc (lv_l1d lv))"
  shows "\<exists>lv' d'. l2_evict mb m (a, dirty) (lv, d) = Some (lv', d') \<and> lv_l2 lv' = lv_l2 lv \<and>
    fc_inv (c_fc (lv_l1i lv')) \<and> fc_inv (c_fc (lv_l1d lv')) \<and>
    (\<forall>b. holds (c_fc (lv_l1i lv')) b \<longleftrightarrow> holds (c_fc (lv_l1i lv)) b \<and> \<not> same_line (c_fc (lv_l1i lv)) a b) \<and>
    (\<forall>b. holds (c_fc (lv_l1d lv')) b \<longleftrightarrow> holds (c_fc (lv_l1d lv)) b \<and> \<not> same_line (c_fc (lv_l1d lv)) a b) \<and>
    (d' = d \<or> d' = dram_addTransaction mb None (dramaddr (lv_l2 lv) a) False (c_cycle (lv_l2 lv)) d) \<and>
    (dirty \<or> checkEvictConflict m a (lv_l2 lv) \<longrightarrow>
       d' = dram_addTransaction mb None (dramaddr (lv_l2 lv) a) False (c_cycle (lv_l2 lv)) d) \<and>
    (\<not> dirty \<and> \<not> checkEvictConflict m a (lv_l2 lv) \<and> \<not> holds (c_fc (lv_l1i lv)) a \<and>
       \<not> holds (c_fc (lv_l1d lv)) a \<longrightarrow> d' = d)"
proof -
  obtain di i1 where i: "invalidate_own a (lv_l1i lv) = Some (di, i1)" "fc_inv (c_fc i1)"
    "\<forall>b. holds (c_fc i1) b \<longleftrightarrow> holds (c_fc (lv_l1i lv)) b \<and> \<not> same_line (c_fc (lv_l1i lv)) a b"
    using invalidate_own_spec [OF assms(1)] by blast
  obtain dd d1 where d: "invalidate_own a (lv_l1d lv) = Some (dd, d1)" "fc_inv (c_fc d1)"
    "\<forall>b. holds (c_fc d1) b \<longleftrightarrow> holds (c_fc (lv_l1d lv)) b \<and> \<not> same_line (c_fc (lv_l1d lv)) a b"
    using invalidate_own_spec [OF assms(2)] by blast
  have "di = False" if "\<not> holds (c_fc (lv_l1i lv)) a"
    using invalidate_own_absent [OF assms(1) that] i(1) by simp
  moreover have "dd = False" if "\<not> holds (c_fc (lv_l1d lv)) a"
    using invalidate_own_absent [OF assms(2) that] d(1) by simp
  ultimately show ?thesis using i d by (auto simp: l2_evict_def)
qed

lemma l1_send_evictions_total:
  assumes "ports_ok nxt"
  shows "\<exists>m' c' nxt'. l1_send_evictions es (m, c, nxt) = Some (m', c', nxt') \<and> ports_ok nxt'"
  using assms
proof (induction es arbitrary: m c nxt)
  case (Cons e es)
  obtain a dirty where e: "e = (a, dirty)" by (cases e)
  let ?t = "MemTransaction (- 1) (- 1) None a False False"
  let ?m1 = "snd (new_txn ?t m)" and ?i = "fst (new_txn ?t m)"
  have wf: "txn_wf ?m1 ?i" by (simp add: txn_wf_def new_txn_def MemTransaction_def)
  show ?case
  proof (cases "dirty \<and> willAcceptTransaction ?m1 (Some ?i) nxt")
    case True
    then obtain n1 where "recvRequest ?m1 ?i nxt = Some n1" "ports_ok n1"
      using recvRequest_accepted [OF Cons.prems wf] by blast
    then show ?thesis using Cons.IH [of n1 ?m1 c] True e by (simp add: split_beta)
  next
    case False
    then show ?thesis using Cons.IH [OF Cons.prems] e by (simp add: split_beta)
  qed
qed simp

section \<open>Properties\<close>

text \<open>
  C32. Inclusion.  When the L2 gives up a line and the memory accepts the write, both L1 caches lose
  their copy and nothing else, and the operation cannot abort.  The line is written back, as a write to
  the start of the line, whenever the victim was dirty or some transaction in the queue of the L2 is for
  the line; when neither is the case and no L1 has a copy, the memory is left alone.
\<close>

theorem l2_eviction_keeps_inclusion:
  assumes "fc_inv (c_fc (lv_l1i lv))" "fc_inv (c_fc (lv_l1d lv))" "is_heap snd (c_pq (lv_l2 lv))"
    "queued \<longleftrightarrow> (\<exists>e\<in>set (c_pq (lv_l2 lv)). same_line (c_fc (lv_l2 lv)) a (t_addr (ts_txn m (fst e))))"
  shows "\<exists>lv' d'. l2_evict mb m (a, dirty) (lv, d) = Some (lv', d') \<and>
    \<not> holds (c_fc (lv_l1i lv')) a \<and> \<not> holds (c_fc (lv_l1d lv')) a \<and>
    (\<forall>b. \<not> same_line (c_fc (lv_l1i lv)) a b \<longrightarrow> holds (c_fc (lv_l1i lv')) b = holds (c_fc (lv_l1i lv)) b) \<and>
    (\<forall>b. \<not> same_line (c_fc (lv_l1d lv)) a b \<longrightarrow> holds (c_fc (lv_l1d lv')) b = holds (c_fc (lv_l1d lv)) b) \<and>
    (dirty \<or> queued \<longrightarrow>
       d' = dram_addTransaction mb None (a - a mod of_nat (c_cacheLineSize (lv_l2 lv))) False (c_cycle (lv_l2 lv)) d) \<and>
    (\<not> dirty \<and> \<not> queued \<and> \<not> holds (c_fc (lv_l1i lv)) a \<and> \<not> holds (c_fc (lv_l1d lv)) a \<longrightarrow> d' = d)"
proof -
  have q: "checkEvictConflict m a (lv_l2 lv) = queued"
    using assms(3,4) by (simp add: checkEvictConflict_def evict_conflict_iff)
  have ad: "a - a mod of_nat (c_cacheLineSize (lv_l2 lv)) = dramaddr (lv_l2 lv) a"
    by (simp add: dramaddr_def minus_mod_eq_div_mult)
  show ?thesis
    using l2_evict_spec [OF assms(1,2), of mb m a dirty d] tag_store.same_refl unfolding q ad by blast
qed

text \<open>A clean victim for which a request waits in the L2: it is written back.\<close>

theorem l2_eviction_keeps_inclusion_witness:
  "\<exists>lv' d'. l2_evict fifo_backend demo_store (72, False)
     (\<lparr>lv_l1i = new_cache 1 True 1 64 4096 4 1 4 4, lv_l1d = new_cache 1 False 1 64 4096 4 1 4 4,
       lv_l2 = addTransaction 1 (- 1) (new_cache 2 False 1 64 4096 4 1 4 4)\<rparr>,
      new_dram 4 4 True (new_simple_dram 1 12) []) = Some (lv', d') \<and>
     \<not> holds (c_fc (lv_l1d lv')) 72 \<and> d_free_write_ports d' = 3"
proof -
  let ?c = "addTransaction 1 (- 1) (new_cache 2 False 1 64 4096 4 1 4 4)"
  let ?lv = "\<lparr>lv_l1i = new_cache 1 True 1 64 4096 4 1 4 4, lv_l1d = new_cache 1 False 1 64 4096 4 1 4 4, lv_l2 = ?c\<rparr>"
  let ?d = "new_dram 4 4 True (new_simple_dram 1 12) []"
  have inv: "fc_inv (c_fc (lv_l1i ?lv))" "fc_inv (c_fc (lv_l1d ?lv))"
    using new_fcache_inv [of 4 64 4096] by (simp_all add: new_cache_def)
  have q: "is_heap snd (c_pq ?c)" "set (c_pq ?c) = {(1, 0)}"
    by (simp_all add: addTransaction_def new_cache_def pq_push_heap set_pq_push)
  have fc: "c_fc ?c = new_fcache 4096 4 64" by (simp add: addTransaction_def new_cache_def)
  have "same_line (new_fcache 4096 4 64) 72 (t_addr (ts_txn demo_store 1))"
    unfolding same_line_def by code_simp
  then have e: "True \<longleftrightarrow> (\<exists>e\<in>set (c_pq (lv_l2 ?lv)). same_line (c_fc (lv_l2 ?lv)) 72 (t_addr (ts_txn demo_store (fst e))))"
    using q(2) fc by simp
  have h: "is_heap snd (c_pq (lv_l2 ?lv))" using q(1) by simp
  from l2_eviction_keeps_inclusion [OF inv h e, of fifo_backend False ?d] obtain lv' d' where
    "l2_evict fifo_backend demo_store (72, False) (?lv, ?d) = Some (lv', d')" "\<not> holds (c_fc (lv_l1d lv')) 72"
    "d' = dram_addTransaction fifo_backend None (72 - 72 mod of_nat (c_cacheLineSize (lv_l2 ?lv))) False (c_cycle (lv_l2 ?lv)) ?d"
    by blast
  moreover have "d_free_write_ports (dram_addTransaction fifo_backend None x False n ?d) = 3" for x n
    by (simp add: dram_addTransaction_def add_memory_def Let_def new_dram_def)
  ultimately show ?thesis by blast
qed

text \<open>
  The L1 never overruns the ports of the L2: with bounded ports and well-formed requests,
  \<open>sendRequests\<close> never aborts; every miss it held is either received by the L2, in order, or kept.
\<close>

theorem l1_send_never_overruns:
  assumes "ports_ok nxt" "\<forall>t\<in>set (c_outcomingRequests c). txn_wf m t"
  shows "\<exists>m' c' nxt' left sent nxt1. l1_sendRequests (m, c, nxt) = Some (m', c', nxt') \<and> ports_ok nxt' \<and>
    c_evictAddresses c' = [] \<and>
    offer_all (\<lambda>t. willAcceptTransaction m (Some t)) (recvRequest m) (c_outcomingRequests c) nxt = Some (left, nxt1) \<and>
    c_incomingRequests nxt1 = c_incomingRequests nxt @ sent \<and>
    mset (c_outcomingRequests c) = mset sent + mset left"
proof -
  obtain left sent nxt1 where o: "offer_all (\<lambda>t. willAcceptTransaction m (Some t)) (recvRequest m)
      (c_outcomingRequests c) nxt = Some (left, nxt1)" "ports_ok nxt1"
      "c_incomingRequests nxt1 = c_incomingRequests nxt @ sent"
      "mset (c_outcomingRequests c) = mset sent + mset left"
    using cache_port.offer_all_total [OF assms] by blast
  let ?c1 = "c\<lparr>c_outcomingRequests := left, c_portStall := c_portStall c + of_nat (length left)\<rparr>"
  obtain m' c' nxt' where "l1_send_evictions (c_evictAddresses ?c1) (m, ?c1, nxt1) = Some (m', c', nxt')"
    "ports_ok nxt'"
    using l1_send_evictions_total [OF o(2)] by blast
  with o show ?thesis by (simp add: l1_sendRequests_def)
qed

theorem l1_send_never_overruns_witness:
  "\<exists>m' c' nxt'. l1_sendRequests (demo_store,
     (new_cache 1 False 1 64 4096 4 1 4 4)\<lparr>c_outcomingRequests := [1, 2]\<rparr>, new_cache 2 False 1 64 4096 4 1 4 4)
     = Some (m', c', nxt') \<and> c_evictAddresses c' = []"
proof -
  let ?c = "(new_cache 1 False 1 64 4096 4 1 4 4)\<lparr>c_outcomingRequests := [1, 2]\<rparr>"
  have "ports_ok (new_cache 2 False 1 64 4096 4 1 4 4)" "\<forall>t\<in>set (c_outcomingRequests ?c). txn_wf demo_store t"
    by (simp_all add: ports_ok_def new_cache_def txn_wf_def demo_store_def MemTransaction_def)
  from l1_send_never_overruns [OF this] show ?thesis by blast
qed

text \<open>
  A clean eviction leaks: \<open>L1Cache::sendRequests\<close> allocates a transaction for it that no queue
  refers to and nothing deletes.
\<close>

theorem clean_eviction_leaks:
  "l1_send_evictions [(a, False)] (m, c, nxt) =
     Some (m\<lparr>ts_txn := (ts_txn m)(ts_next m := MemTransaction (- 1) (- 1) None a False False),
             ts_next := ts_next m + 1\<rparr>, c, nxt)"
  by (simp add: new_txn_def)

end
