(* ===== verification/Command.thy ===== *)
theory Command
  imports Prelude
begin

text \<open>
  Commands of the systolic-array accelerator: \<open>sim/src/SA/Command.cpp\<close>, \<open>sim/include/SA/Command.h\<close>
  and the enumerations of \<open>sim/include/SA/types.h\<close>.  A command owns up to three address ranges, in
  the scratchpad or in the accumulator buffer; \<open>overlap\<close> decides from the ranges whether one command
  must wait for another.  Commands live in a store, a pointer is a number.
\<close>

section \<open>Data\<close>

datatype command_type = LOAD | STORE | EXE | LOAD_ACC

datatype operation_type = PRELOAD | MATRIX_MULTIPLY | MATRIX_MULTIPLY_FLIP | FENCE | CONFIG
  | MOVE_IN | MOVE_OUT | MOVE_IN_ACC | FAKE | END_OP

datatype dataflow_type = DATAFLOW_WS | DATAFLOW_OS

datatype command_status = COSIM_INIT | COSIM_WAITING | COSIM_ISSUED | COSIM_EXECUTING
  | COSIM_FINISHED | COSIM_COMMITTED

text \<open>The code compares statuses as the enumeration orders them.\<close>

fun status_rank :: "command_status \<Rightarrow> nat" where
  "status_rank COSIM_INIT = 0"
| "status_rank COSIM_WAITING = 1"
| "status_rank COSIM_ISSUED = 2"
| "status_rank COSIM_EXECUTING = 3"
| "status_rank COSIM_FINISHED = 4"
| "status_rank COSIM_COMMITTED = 5"

lemma status_rank_inj: "status_rank a = status_rank b \<Longrightarrow> a = b"
  by (cases a; cases b; simp)

instantiation command_status :: linorder
begin

definition less_eq_command_status :: "command_status \<Rightarrow> command_status \<Rightarrow> bool" where
  "less_eq_command_status a b \<longleftrightarrow> status_rank a \<le> status_rank b"

definition less_command_status :: "command_status \<Rightarrow> command_status \<Rightarrow> bool" where
  "less_command_status a b \<longleftrightarrow> status_rank a < status_rank b"

instance
  by intro_classes
    (auto simp: less_eq_command_status_def less_command_status_def status_rank_inj)

end

lemma status_less_simps [simp]:
  "COSIM_WAITING < COSIM_FINISHED" "COSIM_ISSUED < COSIM_FINISHED" "COSIM_EXECUTING < COSIM_FINISHED"
  "\<not> COSIM_FINISHED < COSIM_FINISHED" "\<not> COSIM_COMMITTED < COSIM_FINISHED"
  by (simp_all add: less_command_status_def)

record command =
  cm_seq_num :: u64
  cm_type :: command_type
  cm_status :: command_status
  cm_op :: operation_type
  cm_parents :: "nat list"
  cm_children :: "nat list"
  cm_dyn_inst :: "nat option"
  cm_T_N :: u32
  cm_T_K :: u32
  cm_T_M :: u32
  cm_N :: u32
  cm_K :: u32
  cm_M :: u32
  cm_offset_to_MK :: u32
  cm_offset_to_MN :: u32
  cm_offset_to_KN :: u32
  cm_MK_address :: u64
  cm_KN_address :: u64
  cm_MN_address :: u64
  cm_dram_addr :: u64
  cm_sp_addr :: u64
  cm_cols :: u32
  cm_rows :: u32
  cm_sp_a_addr :: u64
  cm_sp_b_addr :: u64
  cm_sp_c_addr :: u64
  cm_rs1_start :: u64
  cm_rs1_end :: u64
  cm_rs2_start :: u64
  cm_rs2_end :: u64
  cm_dst_start :: u64
  cm_dst_end :: u64
  cm_stay :: bool

definition new_command :: "u64 \<Rightarrow> command_type \<Rightarrow> operation_type \<Rightarrow> nat option \<Rightarrow> command" where
  "new_command seq_num type0 op0 dyn_inst =
     \<lparr>cm_seq_num = seq_num, cm_type = type0, cm_status = COSIM_WAITING, cm_op = op0,
      cm_parents = [], cm_children = [], cm_dyn_inst = dyn_inst,
      cm_T_N = 0, cm_T_K = 0, cm_T_M = 0, cm_N = 0, cm_K = 0, cm_M = 0,
      cm_offset_to_MK = 0, cm_offset_to_MN = 0, cm_offset_to_KN = 0,
      cm_MK_address = 0, cm_KN_address = 0, cm_MN_address = 0,
      cm_dram_addr = 0, cm_sp_addr = 0, cm_cols = 0, cm_rows = 0,
      cm_sp_a_addr = 0, cm_sp_b_addr = 0, cm_sp_c_addr = 0,
      cm_rs1_start = 0, cm_rs1_end = 0, cm_rs2_start = 0, cm_rs2_end = 0,
      cm_dst_start = 0, cm_dst_end = 0, cm_stay = False\<rparr>"

section \<open>Parameters\<close>

definition compute_sp_addr_range :: "command \<Rightarrow> command" where
  "compute_sp_addr_range c =
     (let c1 = c\<lparr>cm_rs2_start := cm_sp_b_addr c, cm_rs2_end := cm_sp_b_addr c + ucast (cm_T_N c)\<rparr>
      in if cm_op c = PRELOAD
         then c1\<lparr>cm_rs1_start := 0, cm_rs1_end := 0, cm_dst_start := 0, cm_dst_end := 0\<rparr>
         else c1\<lparr>cm_rs1_start := cm_sp_a_addr c, cm_rs1_end := cm_sp_a_addr c + ucast (cm_T_M c),
                 cm_dst_start := cm_sp_c_addr c, cm_dst_end := cm_sp_c_addr c + ucast (cm_T_M c)\<rparr>)"

definition set_params_exe ::
    "u32 \<Rightarrow> u32 \<Rightarrow> u32 \<Rightarrow> u32 \<Rightarrow> u32 \<Rightarrow> u32 \<Rightarrow> u64 \<Rightarrow> u64 \<Rightarrow> u64 \<Rightarrow> command \<Rightarrow> command" where
  "set_params_exe t_n t_k t_m off_mk off_mn off_kn a b r c =
     compute_sp_addr_range
       (c\<lparr>cm_T_N := t_n, cm_T_K := t_k, cm_T_M := t_m, cm_offset_to_MK := off_mk,
          cm_offset_to_MN := off_mn, cm_offset_to_KN := off_kn,
          cm_sp_a_addr := a, cm_sp_b_addr := b, cm_sp_c_addr := r\<rparr>)"

definition set_params_config ::
    "u32 \<Rightarrow> u32 \<Rightarrow> u32 \<Rightarrow> u64 \<Rightarrow> u64 \<Rightarrow> u64 \<Rightarrow> u32 \<Rightarrow> u32 \<Rightarrow> u32 \<Rightarrow> command \<Rightarrow> command" where
  "set_params_config t_n t_k t_m mk kn mn n k m c =
     c\<lparr>cm_T_N := t_n, cm_T_K := t_k, cm_T_M := t_m, cm_MK_address := mk, cm_KN_address := kn,
       cm_MN_address := mn, cm_N := n, cm_K := k, cm_M := m\<rparr>"

definition set_params_move :: "u64 \<Rightarrow> u64 \<Rightarrow> u32 \<Rightarrow> u32 \<Rightarrow> command \<Rightarrow> command" where
  "set_params_move dram_addr sp_addr cols rows c =
     (let c1 = c\<lparr>cm_dram_addr := dram_addr, cm_sp_addr := sp_addr, cm_cols := cols, cm_rows := rows\<rparr>
      in if cm_type c = LOAD \<or> cm_type c = LOAD_ACC
         then c1\<lparr>cm_dst_start := sp_addr, cm_dst_end := sp_addr + ucast rows\<rparr>
         else if cm_type c = STORE
         then c1\<lparr>cm_rs1_start := sp_addr, cm_rs1_end := sp_addr + ucast rows\<rparr>
         else c1)"

section \<open>Overlap\<close>

definition range_overlap :: "u64 \<Rightarrow> u64 \<Rightarrow> u64 \<Rightarrow> u64 \<Rightarrow> bool" where
  "range_overlap addr_start addr_end other_start other_end \<longleftrightarrow>
     (addr_start < addr_end \<and> other_start < other_end) \<and>
     ((other_start \<le> addr_start \<and> addr_start < other_end) \<or>
      (addr_start \<le> other_start \<and> other_start < addr_end))"

definition cmd_overlap :: "command \<Rightarrow> command \<Rightarrow> bool" where
  "cmd_overlap c d =
     (case cm_type c of
        EXE \<Rightarrow> (case cm_type d of
            EXE \<Rightarrow> False
          | LOAD \<Rightarrow> range_overlap (cm_rs1_start c) (cm_rs1_end c) (cm_dst_start d) (cm_dst_end d) \<or>
              range_overlap (cm_rs2_start c) (cm_rs2_end c) (cm_dst_start d) (cm_dst_end d)
          | STORE \<Rightarrow> range_overlap (cm_dst_start c) (cm_dst_end c) (cm_rs1_start d) (cm_rs1_end d)
          | LOAD_ACC \<Rightarrow> range_overlap (cm_dst_start c) (cm_dst_end c) (cm_dst_start d) (cm_dst_end d))
      | LOAD \<Rightarrow> (case cm_type d of
            EXE \<Rightarrow> range_overlap (cm_dst_start c) (cm_dst_end c) (cm_rs1_start d) (cm_rs1_end d) \<or>
              range_overlap (cm_dst_start c) (cm_dst_end c) (cm_rs2_start d) (cm_rs2_end d)
          | LOAD \<Rightarrow> range_overlap (cm_dst_start c) (cm_dst_end c) (cm_dst_start d) (cm_dst_end d)
          | STORE \<Rightarrow> False
          | LOAD_ACC \<Rightarrow> False)
      | STORE \<Rightarrow> (case cm_type d of
            EXE \<Rightarrow> range_overlap (cm_rs1_start c) (cm_rs1_end c) (cm_dst_start d) (cm_dst_end d)
          | LOAD \<Rightarrow> False
          | STORE \<Rightarrow> False
          | LOAD_ACC \<Rightarrow> range_overlap (cm_rs1_start c) (cm_rs1_end c) (cm_dst_start d) (cm_dst_end d))
      | LOAD_ACC \<Rightarrow> (case cm_type d of
            EXE \<Rightarrow> range_overlap (cm_dst_start c) (cm_dst_end c) (cm_dst_start d) (cm_dst_end d)
          | LOAD \<Rightarrow> False
          | STORE \<Rightarrow> range_overlap (cm_dst_start c) (cm_dst_end c) (cm_rs1_start d) (cm_rs1_end d)
          | LOAD_ACC \<Rightarrow> range_overlap (cm_dst_start c) (cm_dst_end c) (cm_dst_start d) (cm_dst_end d)))"

section \<open>The command store\<close>

type_synonym cmd_store = "nat \<Rightarrow> command"

definition upd_cmd :: "nat \<Rightarrow> (command \<Rightarrow> command) \<Rightarrow> cmd_store \<Rightarrow> cmd_store" where
  "upd_cmd i f cs = cs(i := f (cs i))"

definition set_done :: "nat \<Rightarrow> cmd_store \<Rightarrow> cmd_store" where
  "set_done i = upd_cmd i (\<lambda>c. c\<lparr>cm_status := COSIM_FINISHED\<rparr>)"

definition update_status :: "nat \<Rightarrow> command_status \<Rightarrow> cmd_store \<Rightarrow> cmd_store" where
  "update_status i s = upd_cmd i (\<lambda>c. c\<lparr>cm_status := s\<rparr>)"

definition can_commit :: "cmd_store \<Rightarrow> nat \<Rightarrow> bool" where
  "can_commit cs i \<longleftrightarrow> cm_status (cs i) = COSIM_FINISHED"

definition insert_parent :: "nat \<Rightarrow> nat \<Rightarrow> cmd_store \<Rightarrow> cmd_store" where
  "insert_parent i p = upd_cmd i (\<lambda>c. c\<lparr>cm_parents := cm_parents c @ [p]\<rparr>)"

definition insert_child :: "nat \<Rightarrow> nat \<Rightarrow> cmd_store \<Rightarrow> cmd_store" where
  "insert_child i p = upd_cmd i (\<lambda>c. c\<lparr>cm_children := cm_children c @ [p]\<rparr>)"

definition remove_parent :: "nat \<Rightarrow> nat \<Rightarrow> cmd_store \<Rightarrow> cmd_store" where
  "remove_parent i p = upd_cmd i (\<lambda>c. c\<lparr>cm_parents := filter (\<lambda>q. q \<noteq> p) (cm_parents c)\<rparr>)"

definition cmd_is_ready :: "cmd_store \<Rightarrow> nat \<Rightarrow> bool" where
  "cmd_is_ready cs i \<longleftrightarrow> (\<forall>p\<in>set (cm_parents (cs i)). \<not> cm_status (cs p) < COSIM_FINISHED)"

section \<open>What overlap decides\<close>

text \<open>
  The abstract view: a command reads and writes rows of two memories.  A matrix multiplication reads
  its operands from the scratchpad and writes the accumulator buffer; loads write one of the two,
  stores read the accumulator buffer.
\<close>

datatype memory = Scratchpad | Accumulator

definition rows_of :: "memory \<Rightarrow> u64 \<Rightarrow> u64 \<Rightarrow> (memory \<times> u64) set" where
  "rows_of m s e = {(m', x). m' = m \<and> s \<le> x \<and> x < e}"

fun cmd_reads :: "command \<Rightarrow> (memory \<times> u64) set" where
  "cmd_reads c = (case cm_type c of
     EXE \<Rightarrow> rows_of Scratchpad (cm_rs1_start c) (cm_rs1_end c) \<union> rows_of Scratchpad (cm_rs2_start c) (cm_rs2_end c)
   | STORE \<Rightarrow> rows_of Accumulator (cm_rs1_start c) (cm_rs1_end c)
   | LOAD \<Rightarrow> {} | LOAD_ACC \<Rightarrow> {})"

fun cmd_writes :: "command \<Rightarrow> (memory \<times> u64) set" where
  "cmd_writes c = (case cm_type c of
     EXE \<Rightarrow> rows_of Accumulator (cm_dst_start c) (cm_dst_end c)
   | LOAD \<Rightarrow> rows_of Scratchpad (cm_dst_start c) (cm_dst_end c)
   | LOAD_ACC \<Rightarrow> rows_of Accumulator (cm_dst_start c) (cm_dst_end c)
   | STORE \<Rightarrow> {})"

definition conflict :: "command \<Rightarrow> command \<Rightarrow> bool" where
  "conflict c d \<longleftrightarrow> cmd_writes c \<inter> (cmd_reads d \<union> cmd_writes d) \<noteq> {} \<or> cmd_reads c \<inter> cmd_writes d \<noteq> {}"

lemma range_overlap_iff: "range_overlap a b c d \<longleftrightarrow> (\<exists>x. a \<le> x \<and> x < b \<and> c \<le> x \<and> x < d)"
proof
  assume "range_overlap a b c d"
  then show "\<exists>x. a \<le> x \<and> x < b \<and> c \<le> x \<and> x < d"
    by (intro exI [of _ "max a c"]) (auto simp: range_overlap_def max_def)
next
  assume "\<exists>x. a \<le> x \<and> x < b \<and> c \<le> x \<and> x < d"
  then obtain x where x: "a \<le> x" "x < b" "c \<le> x" "x < d" by blast
  then have "a < b" "c < d" by (auto intro: le_less_trans)
  moreover have "c \<le> a \<and> a < d \<or> a \<le> c \<and> c < b"
    using x by (meson le_less_trans linear)
  ultimately show "range_overlap a b c d" by (simp add: range_overlap_def)
qed

lemma rows_meet:
  "rows_of m a b \<inter> rows_of m' c d \<noteq> {} \<longleftrightarrow> m = m' \<and> range_overlap a b c d"
  by (auto simp: rows_of_def range_overlap_iff)

lemma Un_meet: "A \<inter> (B \<union> C) \<noteq> {} \<longleftrightarrow> A \<inter> B \<noteq> {} \<or> A \<inter> C \<noteq> {}"
  "(B \<union> C) \<inter> A \<noteq> {} \<longleftrightarrow> B \<inter> A \<noteq> {} \<or> C \<inter> A \<noteq> {}"
  by blast+

lemma range_overlap_sym: "range_overlap a b c d = range_overlap c d a b"
  by (auto simp: range_overlap_def)

lemma cmd_overlap_conflict:
  "cmd_overlap c d \<longleftrightarrow> conflict c d \<and> \<not> (cm_type c = EXE \<and> cm_type d = EXE)"
  by (cases "cm_type c"; cases "cm_type d")
    (simp_all add: cmd_overlap_def conflict_def Un_meet rows_meet range_overlap_sym disj_commute)

lemma conflict_sym: "conflict c d = conflict d c"
  by (auto simp: conflict_def)

section \<open>Properties\<close>

text \<open>
  C36. The overlap test of the dependency check is exact: two commands overlap just when one writes a
  scratchpad or accumulator row that the other reads or writes, except that two matrix operations
  never wait for each other; in particular the test is symmetric, and empty or wrapped ranges never
  overlap.
\<close>

theorem overlap_is_hazard:
  "cmd_overlap c d \<longleftrightarrow> conflict c d \<and> \<not> (cm_type c = EXE \<and> cm_type d = EXE)"
  by (rule cmd_overlap_conflict)

end
