(* ===== verification/SAQueue.thy ===== *)
theory SAQueue
  imports Command
begin

text \<open>
  The queues of the accelerator controller and its reorder buffer: \<open>BaseQueue\<close> and \<open>ROB\<close> of
  \<open>sim/src/SA/SAController.cpp\<close> and \<open>sim/include/SA/SAController.h\<close>.  A command entering the reorder
  buffer takes as parents the unfinished older commands it overlaps; it may leave its queue only
  when all its parents are finished.
\<close>

section \<open>BaseQueue\<close>

record base_queue =
  bq_list :: "nat list"
  bq_capacity :: int
  bq_used :: int

definition new_queue :: "int \<Rightarrow> base_queue" where
  "new_queue n = \<lparr>bq_list = [], bq_capacity = n, bq_used = 0\<rparr>"

definition bq_is_full :: "base_queue \<Rightarrow> bool" where
  "bq_is_full q \<longleftrightarrow> bq_used q = bq_capacity q"

definition bq_is_empty :: "base_queue \<Rightarrow> bool" where
  "bq_is_empty q \<longleftrightarrow> bq_used q = 0"

definition bq_pop_front :: "base_queue \<Rightarrow> base_queue" where
  "bq_pop_front q = q\<lparr>bq_list := tl (bq_list q), bq_used := bq_used q - 1\<rparr>"

text \<open>\<open>std::list::remove\<close> drops every occurrence; the counter goes down by one.\<close>

definition bq_remove :: "nat \<Rightarrow> base_queue \<Rightarrow> base_queue" where
  "bq_remove c q = q\<lparr>bq_list := filter (\<lambda>x. x \<noteq> c) (bq_list q), bq_used := bq_used q - 1\<rparr>"

definition bq_get_cmd_at :: "nat \<Rightarrow> base_queue \<Rightarrow> nat option" where
  "bq_get_cmd_at i q =
     do { assert_that (int i < bq_used q);
          if i < length (bq_list q) then Some (bq_list q ! i) else None }"

definition bq_insert :: "nat \<Rightarrow> base_queue \<Rightarrow> base_queue option" where
  "bq_insert c q =
     do { assert_that (bq_used q < bq_capacity q);
          Some (q\<lparr>bq_list := bq_list q @ [c], bq_used := bq_used q + 1\<rparr>) }"

fun drop_committed :: "cmd_store \<Rightarrow> u64 \<Rightarrow> nat list \<Rightarrow> int \<Rightarrow> nat list \<times> int" where
  "drop_committed cs seq [] n = ([], n)"
| "drop_committed cs seq (c # l) n =
     (if cm_seq_num (cs c) \<le> seq then drop_committed cs seq l (n - 1) else (c # l, n))"

definition bq_commit_command :: "cmd_store \<Rightarrow> u64 \<Rightarrow> base_queue \<Rightarrow> base_queue" where
  "bq_commit_command cs seq q =
     (let (l, n) = drop_committed cs seq (bq_list q) (bq_used q) in q\<lparr>bq_list := l, bq_used := n\<rparr>)"

definition bq_wf :: "base_queue \<Rightarrow> bool" where
  "bq_wf q \<longleftrightarrow> bq_used q = int (length (bq_list q)) \<and> bq_used q \<le> bq_capacity q \<and> distinct (bq_list q)"

lemma bq_wf_new [simp]: "0 \<le> n \<Longrightarrow> bq_wf (new_queue n)"
  by (simp add: bq_wf_def new_queue_def)

lemma bq_insert_wf:
  assumes "bq_wf q" "\<not> bq_is_full q" "c \<notin> set (bq_list q)"
  shows "\<exists>q'. bq_insert c q = Some q' \<and> bq_wf q' \<and> bq_list q' = bq_list q @ [c] \<and>
    bq_capacity q' = bq_capacity q"
  using assms by (auto simp: bq_insert_def bq_wf_def bq_is_full_def)

lemma bq_remove_wf:
  assumes "bq_wf q" "c \<in> set (bq_list q)"
  shows "bq_wf (bq_remove c q)"
proof -
  have "filter (\<lambda>x. x \<noteq> c) (bq_list q) = remove1 c (bq_list q)"
    using assms(1) by (simp add: bq_wf_def distinct_remove1_removeAll removeAll_filter_not_eq neq_commute)
  then have "length (filter (\<lambda>x. x \<noteq> c) (bq_list q)) = length (bq_list q) - 1"
    using assms(2) by (simp add: length_remove1)
  moreover have "0 < length (bq_list q)" using assms(2) by (cases "bq_list q") auto
  ultimately show ?thesis
    using assms(1) by (auto simp: bq_wf_def bq_remove_def of_nat_diff Suc_le_eq)
qed

lemma bq_pop_wf:
  "bq_wf q \<Longrightarrow> \<not> bq_is_empty q \<Longrightarrow> bq_wf (bq_pop_front q)"
  by (cases "bq_list q") (auto simp: bq_wf_def bq_is_empty_def bq_pop_front_def)

lemma bq_head:
  "bq_wf q \<Longrightarrow> \<not> bq_is_empty q \<Longrightarrow> bq_get_cmd_at 0 q = Some (hd (bq_list q)) \<and> hd (bq_list q) \<in> set (bq_list q)"
  by (cases "bq_list q") (auto simp: bq_wf_def bq_is_empty_def bq_get_cmd_at_def)

section \<open>ROB\<close>

record rob =
  rb_queue :: base_queue
  rb_commit_width :: int
  rb_commit_seq_num :: u64
  rb_cmd_commit :: bool
  rb_local_cycle :: u32

text \<open>\<open>build_data_dep\<close> visits the reorder buffer from the oldest command.\<close>

fun build_deps :: "nat \<Rightarrow> nat list \<Rightarrow> cmd_store \<Rightarrow> cmd_store" where
  "build_deps c [] cs = cs"
| "build_deps c (p # ps) cs =
     (if cm_status (cs p) < COSIM_FINISHED \<and> cmd_overlap (cs c) (cs p)
      then build_deps c ps (insert_child p c (insert_parent c p cs))
      else build_deps c ps cs)"

definition build_data_dep :: "nat \<Rightarrow> rob \<Rightarrow> cmd_store \<Rightarrow> cmd_store" where
  "build_data_dep c r cs = build_deps c (bq_list (rb_queue r)) cs"

definition get_commit_head :: "cmd_store \<Rightarrow> rob \<Rightarrow> nat option" where
  "get_commit_head cs r =
     (let h = hd (bq_list (rb_queue r)) in if can_commit cs h then Some h else None)"

text \<open>
  \<open>ROB::commit\<close>.  \<open>finish_dyn\<close> logs the instructions whose status \<open>set_dyn_inst_finished\<close> sets; the
  deleted commands are logged as well.
\<close>

record commit_log =
  cl_finished :: "nat list"
  cl_deleted :: "nat list"

definition commit_one :: "nat \<Rightarrow> cmd_store \<times> rob \<times> commit_log \<Rightarrow> cmd_store \<times> rob \<times> commit_log" where
  "commit_one c = (\<lambda>(cs, r, lg).
     (let cs1 = update_status c COSIM_COMMITTED cs;
          r1 = r\<lparr>rb_queue := bq_pop_front (rb_queue r), rb_commit_seq_num := cm_seq_num (cs1 c),
                 rb_cmd_commit := True\<rparr>;
          lg1 = (case cm_dyn_inst (cs1 c) of None \<Rightarrow> lg | Some d \<Rightarrow> lg\<lparr>cl_finished := cl_finished lg @ [d]\<rparr>);
          cs2 = fold (\<lambda>child. remove_parent child c) (cm_children (cs1 c)) cs1
      in (cs2, r1, lg1\<lparr>cl_deleted := cl_deleted lg1 @ [c]\<rparr>)))"

lemma remove_parents_dyn [simp]:
  "cm_status (fold (\<lambda>ch. remove_parent ch c) chs cs x) = cm_status (cs x)"
  by (induction chs arbitrary: cs) (simp_all add: remove_parent_def upd_cmd_def)

text \<open>The loop runs while \<open>n <= commit_width\<close>, so its fuel is \<open>commit_width + 1\<close>.\<close>

fun commit_loop :: "nat \<Rightarrow> cmd_store \<times> rob \<times> commit_log \<Rightarrow> cmd_store \<times> rob \<times> commit_log" where
  "commit_loop 0 s = s"
| "commit_loop (Suc n) (cs, r, lg) =
     (if bq_is_empty (rb_queue r) then (cs, r, lg)
      else case get_commit_head cs r of
             Some c \<Rightarrow> commit_loop n (commit_one c (cs, r, lg))
           | None \<Rightarrow> (cs, r, lg))"

definition rob_commit :: "cmd_store \<times> rob \<Rightarrow> cmd_store \<times> rob \<times> commit_log" where
  "rob_commit = (\<lambda>(cs, r).
     (let (cs1, r1, lg) = commit_loop (nat (rb_commit_width r + 1)) (cs, r, \<lparr>cl_finished = [], cl_deleted = []\<rparr>)
      in (cs1, r1\<lparr>rb_local_cycle := rb_local_cycle r1 + 1\<rparr>, lg)))"

section \<open>In-order retirement\<close>

text \<open>The commands a commit may retire: the finished prefix, cut to a width.\<close>

definition finished_prefix :: "cmd_store \<Rightarrow> nat list \<Rightarrow> nat list" where
  "finished_prefix cs l = takeWhile (\<lambda>c. cm_status (cs c) = COSIM_FINISHED) l"

lemma commit_one_simps:
  assumes "commit_one c (cs, r, lg) = (cs', r', lg')"
  shows "bq_list (rb_queue r') = tl (bq_list (rb_queue r))"
    "bq_used (rb_queue r') = bq_used (rb_queue r) - 1" "bq_capacity (rb_queue r') = bq_capacity (rb_queue r)"
    "rb_commit_width r' = rb_commit_width r" "cl_deleted lg' = cl_deleted lg @ [c]"
    "cm_status (cs' x) = (if x = c then COSIM_COMMITTED else cm_status (cs x))"
  using assms
  by (auto simp: commit_one_def Let_def bq_pop_front_def update_status_def upd_cmd_def
      split: option.splits)

lemma commit_loop_spec:
  assumes "bq_wf (rb_queue r)" "commit_loop n (cs, r, lg) = (cs', r', lg')"
  shows "cl_deleted lg' = cl_deleted lg @ take n (finished_prefix cs (bq_list (rb_queue r))) \<and>
    bq_list (rb_queue r) = take n (finished_prefix cs (bq_list (rb_queue r))) @ bq_list (rb_queue r') \<and>
    bq_wf (rb_queue r') \<and>
    (\<forall>x. cm_status (cs' x) = (if x \<in> set (take n (finished_prefix cs (bq_list (rb_queue r))))
       then COSIM_COMMITTED else cm_status (cs x)))"
  using assms
proof (induction n arbitrary: cs r lg)
  case (Suc n)
  let ?l = "bq_list (rb_queue r)"
  show ?case
  proof (cases ?l)
    case Nil
    then show ?thesis
      using Suc.prems by (simp add: bq_wf_def bq_is_empty_def finished_prefix_def)
  next
    case (Cons c l)
    then have ne: "\<not> bq_is_empty (rb_queue r)"
      using Suc.prems(1) by (simp add: bq_wf_def bq_is_empty_def)
    show ?thesis
    proof (cases "cm_status (cs c) = COSIM_FINISHED")
      case False
      then show ?thesis
        using Suc.prems ne Cons
        by (simp add: get_commit_head_def can_commit_def finished_prefix_def)
    next
      case True
      obtain cs1 r1 lg1 where one: "commit_one c (cs, r, lg) = (cs1, r1, lg1)" by (metis prod_cases3)
      note c1 = commit_one_simps [OF one]
      have loop: "commit_loop n (cs1, r1, lg1) = (cs', r', lg')"
        using Suc.prems(2) ne Cons True one by (simp add: get_commit_head_def can_commit_def)
      have l1: "bq_list (rb_queue r1) = l" "c \<notin> set l"
        using c1(1) Cons Suc.prems(1) by (auto simp: bq_wf_def)
      have wf1: "bq_wf (rb_queue r1)"
        using Suc.prems(1) Cons c1(1-3) by (auto simp: bq_wf_def)
      have pre: "finished_prefix cs1 l = finished_prefix cs l"
        unfolding finished_prefix_def
        by (rule takeWhile_cong) (use l1(2) c1(6) in auto)
      have fp: "finished_prefix cs (c # l) = c # finished_prefix cs l"
        using True by (simp add: finished_prefix_def)
      from Suc.IH [OF wf1 loop] show ?thesis
        unfolding Cons fp by (auto simp: l1(1) pre c1(5,6))
    qed
  qed
qed (simp add: finished_prefix_def)

section \<open>The scoreboard\<close>

text \<open>
  The life of commands as the controller drives it: a command arrives from the core, it is dispatched behind the others with
  its dependencies built, it starts when it is ready, it makes progress, and finished commands at
  the head of the reorder buffer retire.
\<close>

inductive sb_step :: "cmd_store \<times> nat list \<Rightarrow> cmd_store \<times> nat list \<Rightarrow> bool" where
  sb_arrive: "c \<notin> set l \<Longrightarrow> sb_step (cs, l) (cs(c := cmd), l)"
| sb_dispatch: "c \<notin> set l \<Longrightarrow>
     sb_step (cs, l) (build_deps c l (update_status c COSIM_WAITING cs), l @ [c])"
| sb_issue: "c \<in> set l \<Longrightarrow> cmd_is_ready cs c \<Longrightarrow> cm_status (cs c) = COSIM_WAITING \<Longrightarrow>
     sb_step (cs, l) (update_status c COSIM_ISSUED cs, l)"
| sb_execute: "c \<in> set l \<Longrightarrow> cm_status (cs c) = COSIM_ISSUED \<Longrightarrow>
     sb_step (cs, l) (update_status c COSIM_EXECUTING cs, l)"
| sb_finish: "c \<in> set l \<Longrightarrow> cm_status (cs c) = COSIM_EXECUTING \<Longrightarrow> sb_step (cs, l) (set_done c cs, l)"
| sb_commit: "cm_status (cs c) = COSIM_FINISHED \<Longrightarrow>
     cs' = fst (commit_one c (cs, r, lg)) \<Longrightarrow> sb_step (cs, c # l) (cs', l)"

inductive sb_reach :: "cmd_store \<times> nat list \<Rightarrow> bool" where
  sb_init: "sb_reach (cs, [])"
| sb_more: "sb_reach s \<Longrightarrow> sb_step s s' \<Longrightarrow> sb_reach s'"

text \<open>
  What holds throughout: for every command in the buffer and every older unfinished one it
  conflicts with, either the older one is a registered parent, and then the younger one is still
  waiting.
\<close>

fun older :: "nat list \<Rightarrow> nat \<Rightarrow> nat \<Rightarrow> bool" where
  "older [] x y \<longleftrightarrow> False"
| "older (z # l) x y \<longleftrightarrow> z = x \<and> y \<in> set l \<or> older l x y"

lemma older_snoc: "older (l @ [c]) x y \<longleftrightarrow> older l x y \<or> x \<in> set l \<and> y = c"
  by (induction l) auto

lemma older_mem: "older l x y \<Longrightarrow> x \<in> set l \<and> y \<in> set l"
  by (induction l) auto

lemma older_irrefl: "distinct l \<Longrightarrow> older l x y \<Longrightarrow> x \<noteq> y"
  by (induction l) (auto dest: older_mem)

definition hazard_free :: "cmd_store \<Rightarrow> nat list \<Rightarrow> bool" where
  "hazard_free cs l \<longleftrightarrow> distinct l \<and>
     (\<forall>x y. older l x y \<and> cm_status (cs x) < COSIM_FINISHED \<and> cmd_overlap (cs y) (cs x) \<longrightarrow>
        x \<in> set (cm_parents (cs y)) \<and> cm_status (cs y) = COSIM_WAITING)"

lemma hazard_freeI:
  "distinct l \<Longrightarrow> (\<And>x y. older l x y \<Longrightarrow> cm_status (cs x) < COSIM_FINISHED \<Longrightarrow> cmd_overlap (cs y) (cs x) \<Longrightarrow>
     x \<in> set (cm_parents (cs y)) \<and> cm_status (cs y) = COSIM_WAITING) \<Longrightarrow> hazard_free cs l"
  unfolding hazard_free_def by blast

lemma hazard_freeD:
  "hazard_free cs l \<Longrightarrow> older l x y \<Longrightarrow> cm_status (cs x) < COSIM_FINISHED \<Longrightarrow> cmd_overlap (cs y) (cs x) \<Longrightarrow>
     x \<in> set (cm_parents (cs y)) \<and> cm_status (cs y) = COSIM_WAITING"
  unfolding hazard_free_def by blast

lemma hazard_free_distinct: "hazard_free cs l \<Longrightarrow> distinct l"
  by (simp add: hazard_free_def)

text \<open>Dependency building changes only the edges.\<close>

definition same_body :: "command \<Rightarrow> command \<Rightarrow> bool" where
  "same_body c d \<longleftrightarrow> cm_type c = cm_type d \<and> cm_status c = cm_status d \<and>
     cm_rs1_start c = cm_rs1_start d \<and> cm_rs1_end c = cm_rs1_end d \<and>
     cm_rs2_start c = cm_rs2_start d \<and> cm_rs2_end c = cm_rs2_end d \<and>
     cm_dst_start c = cm_dst_start d \<and> cm_dst_end c = cm_dst_end d"

lemma same_body_refl [simp]: "same_body c c"
  by (simp add: same_body_def)

lemma same_body_overlap: "same_body c c' \<Longrightarrow> same_body d d' \<Longrightarrow> cmd_overlap c d = cmd_overlap c' d'"
  by (cases "cm_type c'"; cases "cm_type d'") (simp_all add: same_body_def cmd_overlap_def)

lemma overlap_status [simp]:
  "cmd_overlap (c\<lparr>cm_status := s\<rparr>) d = cmd_overlap c d"
  "cmd_overlap c (d\<lparr>cm_status := s\<rparr>) = cmd_overlap c d"
  by (cases "cm_type c"; cases "cm_type d"; simp add: cmd_overlap_def)+

lemma build_deps_spec:
  assumes "c \<notin> set ps"
  shows "same_body (build_deps c ps cs x) (cs x) \<and>
    (x \<noteq> c \<longrightarrow> cm_parents (build_deps c ps cs x) = cm_parents (cs x)) \<and>
    set (cm_parents (build_deps c ps cs c)) = set (cm_parents (cs c)) \<union>
      {p \<in> set ps. cm_status (cs p) < COSIM_FINISHED \<and> cmd_overlap (cs c) (cs p)}"
  using assms
proof (induction ps arbitrary: cs)
  case (Cons p ps)
  let ?cs1 = "insert_child p c (insert_parent c p cs)"
  have ne: "p \<noteq> c" "c \<notin> set ps" using Cons.prems by auto
  show ?case
  proof (cases "cm_status (cs p) < COSIM_FINISHED \<and> cmd_overlap (cs c) (cs p)")
    case True
    have body: "same_body (?cs1 y) (cs y)" for y
      by (simp add: insert_child_def insert_parent_def upd_cmd_def same_body_def)
    have st: "cm_status (?cs1 y) = cm_status (cs y)" for y using body [of y] by (simp add: same_body_def)
    have ov: "cmd_overlap (?cs1 c) (?cs1 y) = cmd_overlap (cs c) (cs y)" for y
      by (rule same_body_overlap [OF body body])
    have par: "cm_parents (?cs1 c) = cm_parents (cs c) @ [p]" "x \<noteq> c \<Longrightarrow> cm_parents (?cs1 x) = cm_parents (cs x)"
      using ne by (simp_all add: insert_child_def insert_parent_def upd_cmd_def)
    have eq: "build_deps c (p # ps) cs = build_deps c ps ?cs1" using True by simp
    show ?thesis
      using Cons.IH [OF ne(2), of ?cs1] body [of x] True
      unfolding eq st ov par(1) by (auto simp: same_body_def par(2))
  next
    case False
    then show ?thesis using Cons.IH [OF ne(2), of cs] by auto
  qed
qed simp

lemma hazard_free_status:
  assumes h: "hazard_free cs l" and c: "c \<in> set l"
    and unf: "st < COSIM_FINISHED \<longrightarrow> cm_status (cs c) < COSIM_FINISHED"
    and ready: "\<And>x. older l x c \<Longrightarrow> cm_status (cs x) < COSIM_FINISHED \<Longrightarrow> cmd_overlap (cs c) (cs x) \<Longrightarrow> False"
  shows "hazard_free (update_status c st cs) l"
proof -
  let ?cs' = "update_status c st cs"
  have "x \<in> set (cm_parents (?cs' y)) \<and> cm_status (?cs' y) = COSIM_WAITING"
    if o: "older l x y" and u: "cm_status (?cs' x) < COSIM_FINISHED" and v: "cmd_overlap (?cs' y) (?cs' x)" for x y
  proof -
    have u': "cm_status (cs x) < COSIM_FINISHED" and v': "cmd_overlap (cs y) (cs x)"
      using u v unf by (auto simp: update_status_def upd_cmd_def split: if_splits)
    with o ready have "y \<noteq> c" by blast
    with hazard_freeD [OF h o u' v'] show ?thesis by (simp add: update_status_def upd_cmd_def)
  qed
  then show ?thesis by (rule hazard_freeI [OF hazard_free_distinct [OF h]])
qed

lemma hazard_free_waits:
  assumes "hazard_free cs l" "cm_status (cs c) \<noteq> COSIM_WAITING" "older l x c"
    "cm_status (cs x) < COSIM_FINISHED" "cmd_overlap (cs c) (cs x)"
  shows False
  using hazard_freeD [OF assms(1,3-5)] assms(2) by blast

lemma hazard_free_ready:
  assumes "hazard_free cs l" "cmd_is_ready cs c" "older l x c"
    "cm_status (cs x) < COSIM_FINISHED" "cmd_overlap (cs c) (cs x)"
  shows False
  using hazard_freeD [OF assms(1,3-5)] assms(2,4) unfolding cmd_is_ready_def by blast

lemma hazard_free_dispatch:
  assumes h: "hazard_free cs l" and c: "c \<notin> set l"
  shows "hazard_free (build_deps c l (update_status c COSIM_WAITING cs)) (l @ [c])"
proof -
  let ?cs0 = "update_status c COSIM_WAITING cs"
  let ?cs' = "build_deps c l ?cs0"
  have cs0: "x \<noteq> c \<Longrightarrow> ?cs0 x = cs x" for x by (simp add: update_status_def upd_cmd_def)
  note spec = build_deps_spec [OF c, of ?cs0]
  have st: "cm_status (?cs' x) = cm_status (?cs0 x)" for x using spec [of x] by (simp add: same_body_def)
  have ov: "cmd_overlap (?cs' y) (?cs' x) = cmd_overlap (?cs0 y) (?cs0 x)" for x y
    by (rule same_body_overlap) (use spec in auto)
  have "x \<in> set (cm_parents (?cs' y)) \<and> cm_status (?cs' y) = COSIM_WAITING"
    if o: "older (l @ [c]) x y" and u: "cm_status (?cs' x) < COSIM_FINISHED"
      and v: "cmd_overlap (?cs' y) (?cs' x)" for x y
  proof (cases "older l x y")
    case True
    then have "x \<noteq> c" "y \<noteq> c" using older_mem c by blast+
    with hazard_freeD [OF h True] u v spec [of y] show ?thesis by (simp add: st ov cs0)
  next
    case False
    with o have "x \<in> set l" "y = c" by (auto simp: older_snoc)
    moreover have "cm_status (?cs0 c) = COSIM_WAITING" by (simp add: update_status_def upd_cmd_def)
    ultimately show ?thesis using u v spec [of c] by (auto simp: st ov)
  qed
  moreover have "distinct (l @ [c])" using hazard_free_distinct [OF h] c by simp
  ultimately show ?thesis by (intro hazard_freeI)
qed

lemma fold_remove_parent:
  "x \<noteq> c \<Longrightarrow> (x \<in> set (cm_parents (fold (\<lambda>ch. remove_parent ch c) chs cs y)) \<longleftrightarrow> x \<in> set (cm_parents (cs y))) \<and>
    same_body (fold (\<lambda>ch. remove_parent ch c) chs cs y) (cs y)"
proof (induction chs arbitrary: cs)
  case (Cons ch chs)
  have "same_body (remove_parent ch c cs y) (cs y)" "x \<in> set (cm_parents (remove_parent ch c cs y)) \<longleftrightarrow> x \<in> set (cm_parents (cs y))"
    using Cons.prems by (auto simp: remove_parent_def upd_cmd_def same_body_def)
  with Cons.IH [OF Cons.prems, of "remove_parent ch c cs"] show ?case by (auto simp: same_body_def)
qed simp

lemma hazard_free_commit:
  assumes h: "hazard_free cs (c # l)"
  shows "hazard_free (fst (commit_one c (cs, r, lg))) l"
proof -
  let ?cs1 = "update_status c COSIM_COMMITTED cs"
  let ?cs' = "fold (\<lambda>ch. remove_parent ch c) (cm_children (?cs1 c)) ?cs1"
  have fst: "fst (commit_one c (cs, r, lg)) = ?cs'" by (simp add: commit_one_def Let_def)
  have c: "c \<notin> set l" using h by (simp add: hazard_free_def)
  have cs1: "y \<noteq> c \<Longrightarrow> ?cs1 y = cs y" for y by (simp add: update_status_def upd_cmd_def)
  have "x \<in> set (cm_parents (?cs' y)) \<and> cm_status (?cs' y) = COSIM_WAITING"
    if o: "older l x y" and u: "cm_status (?cs' x) < COSIM_FINISHED" and v: "cmd_overlap (?cs' y) (?cs' x)" for x y
  proof -
    have ne: "x \<noteq> c" "y \<noteq> c" using older_mem [OF o] c by blast+
    have bx: "same_body (?cs' x) (cs x)" and py: "x \<in> set (cm_parents (?cs' y)) \<longleftrightarrow> x \<in> set (cm_parents (cs y))"
      and "by": "same_body (?cs' y) (cs y)"
      using fold_remove_parent [OF ne(1), of "cm_children (?cs1 c)" ?cs1 x]
        fold_remove_parent [OF ne(1), of "cm_children (?cs1 c)" ?cs1 y] by (simp_all add: cs1 ne)
    have "cmd_overlap (cs y) (cs x)" using v same_body_overlap [OF "by" bx] by simp
    moreover have "cm_status (cs x) < COSIM_FINISHED" using u bx by (simp add: same_body_def)
    ultimately have "x \<in> set (cm_parents (cs y)) \<and> cm_status (cs y) = COSIM_WAITING"
      using hazard_freeD [OF h, of x y] o by simp
    then show ?thesis using py "by" by (simp add: same_body_def)
  qed
  moreover have "distinct l" using hazard_free_distinct [OF h] by simp
  ultimately show ?thesis unfolding fst by (intro hazard_freeI)
qed

lemma hazard_free_step:
  assumes "sb_step s s'" "hazard_free (fst s) (snd s)"
  shows "hazard_free (fst s') (snd s')"
  using assms
proof (cases rule: sb_step.cases)
  case (sb_arrive c l cs cmd)
  have "older l x y \<Longrightarrow> x \<noteq> c \<and> y \<noteq> c" for x y using older_mem sb_arrive(3) by blast
  with sb_arrive assms(2) show ?thesis by (auto simp: hazard_free_def)
next
  case (sb_dispatch c l cs)
  with assms(2) hazard_free_dispatch show ?thesis by simp
next
  case (sb_issue c l cs)
  have "hazard_free (update_status c COSIM_ISSUED cs) l"
    by (rule hazard_free_status) (use sb_issue assms(2) hazard_free_ready in auto)
  with sb_issue show ?thesis by simp
next
  case (sb_execute c l cs)
  have "hazard_free (update_status c COSIM_EXECUTING cs) l"
    by (rule hazard_free_status) (use sb_execute assms(2) hazard_free_waits [of cs l c] in auto)
  with sb_execute show ?thesis by simp
next
  case (sb_finish c l cs)
  have "hazard_free (update_status c COSIM_FINISHED cs) l"
    by (rule hazard_free_status) (use sb_finish assms(2) hazard_free_waits [of cs l c] in auto)
  with sb_finish show ?thesis by (simp add: set_done_def update_status_def)
next
  case (sb_commit cs c cs' r lg l)
  with assms(2) hazard_free_commit show ?thesis by simp
qed

lemma hazard_free_reach: "sb_reach s \<Longrightarrow> hazard_free (fst s) (snd s)"
  by (induction rule: sb_reach.induct) (simp add: hazard_free_def, rule hazard_free_step)

section \<open>Properties\<close>

definition demo_cmds :: cmd_store where
  "demo_cmds = (\<lambda>i. if i = 0 then set_params_move 4096 0 16 4 (new_command 0 LOAD MOVE_IN None)
     else set_params_move 8192 8 16 4 (new_command 1 LOAD MOVE_IN None))"

text \<open>
  C8. Retirement is in order and exact: a commit retires precisely the longest prefix of finished
  commands of the reorder buffer, cut to \<open>commit_width + 1\<close> commands (the loop test is \<open><=\<close>), marks
  them committed, touches no other status, and keeps the counter of the buffer equal to its length.
\<close>

theorem rob_retires_finished_prefix:
  assumes "bq_wf (rb_queue r)" "rob_commit (cs, r) = (cs', r', lg)"
  shows "cl_deleted lg = take (nat (rb_commit_width r + 1)) (finished_prefix cs (bq_list (rb_queue r))) \<and>
    bq_list (rb_queue r) = cl_deleted lg @ bq_list (rb_queue r') \<and> bq_wf (rb_queue r') \<and>
    (\<forall>x. cm_status (cs' x) = (if x \<in> set (cl_deleted lg) then COSIM_COMMITTED else cm_status (cs x)))"
proof -
  obtain r1 where r1: "commit_loop (nat (rb_commit_width r + 1)) (cs, r, \<lparr>cl_finished = [], cl_deleted = []\<rparr>) = (cs', r1, lg)"
    "rb_queue r' = rb_queue r1"
    using assms(2) by (auto simp: rob_commit_def split: prod.splits)
  from commit_loop_spec [OF assms(1) r1(1)] show ?thesis by (simp add: r1(2))
qed

theorem rob_retires_finished_prefix_witness:
  "\<exists>cs' r' lg. rob_commit (\<lambda>i. (demo_cmds i)\<lparr>cm_status := COSIM_FINISHED\<rparr>,
      \<lparr>rb_queue = \<lparr>bq_list = [0, 1, 2], bq_capacity = 48, bq_used = 3\<rparr>, rb_commit_width = 1,
       rb_commit_seq_num = 0, rb_cmd_commit = False, rb_local_cycle = 0\<rparr>) = (cs', r', lg) \<and>
     cl_deleted lg = [0, 1]"
proof -
  let ?cs = "\<lambda>i. (demo_cmds i)\<lparr>cm_status := COSIM_FINISHED\<rparr>"
  let ?r = "\<lparr>rb_queue = \<lparr>bq_list = [0, 1, 2], bq_capacity = 48, bq_used = 3\<rparr>, rb_commit_width = 1,
       rb_commit_seq_num = 0, rb_cmd_commit = False, rb_local_cycle = 0\<rparr>"
  have wf: "bq_wf (rb_queue ?r)" by (simp add: bq_wf_def)
  obtain cs' r' lg where c: "rob_commit (?cs, ?r) = (cs', r', lg)" by (metis prod_cases3)
  have "nat (rb_commit_width ?r + 1) = 2" by simp
  with rob_retires_finished_prefix [OF wf c] have "cl_deleted lg = [0, 1]"
    by (simp add: finished_prefix_def numeral_2_eq_2)
  with c show ?thesis by blast
qed

end
