(* ===== verification/DMAEngine.thy ===== *)
theory DMAEngine
  imports Cache Command
begin

text \<open>
  \<open>sim/src/mem/DMAEngine.cpp\<close> and \<open>sim/include/mem/DMAEngine.h\<close>: the engine that moves data for the
  accelerator.  A request is split into bursts.  With an L2 connected the bursts are injected into
  it under a window of outstanding requests; without one (fallback) a fixed-latency memory serves
  them one per cycle.  Finished bursts cross a bus of limited bandwidth, and a request completes when
  all its bursts have, or for a store already when all have been issued.
\<close>

section \<open>State\<close>

record dma_request =
  rq_id :: u64
  rq_cmd :: nat
  rq_op :: operation_type
  rq_base_addr :: u64
  rq_bytes :: u64
  rq_is_read :: bool
  rq_total_txns :: u64
  rq_issued_txns :: u64
  rq_done_txns :: u64
  rq_completed_early :: bool

record dma_txn =
  dt_req_id :: u64
  dt_addr :: u64
  dt_bytes :: u32
  dt_ready_cycle :: u32

record dma_engine =
  de_next_req_id :: u64
  de_burst_bytes :: u32
  de_base_latency :: u32
  de_bandwidth :: u32
  de_max_in_flight :: u32
  de_in_flight :: u32
  de_has_l2 :: bool
  de_hw_id :: int
  de_pending_inject :: "nat list"
  de_pending_fallback :: "dma_txn list"
  de_next_dram_issue_cycle :: u32
  de_pending_zero :: "(u64 \<times> u32) list"
  de_incoming :: "u64 list"
  de_next_free_cycle :: u32
  de_scheduled :: "(u64 \<times> u32) list"
  de_inflight :: "(u64 \<times> dma_request) list"
  de_pending_txns :: "dma_txn list"
  de_completed :: "nat list"

definition new_dma :: dma_engine where
  "new_dma = \<lparr>de_next_req_id = 1, de_burst_bytes = 64, de_base_latency = 10, de_bandwidth = 16,
     de_max_in_flight = 16, de_in_flight = 0, de_has_l2 = False, de_hw_id = 1,
     de_pending_inject = [], de_pending_fallback = [], de_next_dram_issue_cycle = 0,
     de_pending_zero = [], de_incoming = [], de_next_free_cycle = 0, de_scheduled = [],
     de_inflight = [], de_pending_txns = [], de_completed = []\<rparr>"

definition dma_reset :: "dma_engine \<Rightarrow> dma_engine" where
  "dma_reset e = e\<lparr>de_inflight := [], de_pending_txns := [], de_pending_inject := [],
     de_pending_zero := [], de_completed := [], de_next_req_id := 1, de_in_flight := 0,
     de_pending_fallback := [], de_next_dram_issue_cycle := 0, de_incoming := [],
     de_scheduled := [], de_next_free_cycle := 0\<rparr>"

definition connectL2 :: "int \<Rightarrow> dma_engine \<Rightarrow> dma_engine" where
  "connectL2 hw_id e = e\<lparr>de_has_l2 := True, de_hw_id := hw_id\<rparr>"

definition has_inflight :: "dma_engine \<Rightarrow> bool" where
  "has_inflight e \<longleftrightarrow> de_inflight e \<noteq> []"

section \<open>Submission\<close>

definition burst_count :: "u32 \<Rightarrow> u64 \<Rightarrow> u64" where
  "burst_count burst bytes = (bytes + ucast burst - 1) div ucast burst"

text \<open>The loop that allocates one \<open>MemTransaction\<close> per burst.\<close>

fun inject_bursts :: "u64 \<Rightarrow> u64 \<Rightarrow> bool \<Rightarrow> nat list \<Rightarrow> txn_store \<times> dma_engine \<Rightarrow> txn_store \<times> dma_engine" where
  "inject_bursts rid dram_addr is_read [] s = s"
| "inject_bursts rid dram_addr is_read (i # is) (m, e) =
     (let off = of_nat i * ucast (de_burst_bytes e);
          (t, m1) = new_txn ((MemTransaction (- 2) (de_hw_id e) None (dram_addr + off) is_read False)
                       \<lparr>t_fromDMA := True, t_dma_req_id := rid\<rparr>) m
      in inject_bursts rid dram_addr is_read is (m1, e\<lparr>de_pending_inject := de_pending_inject e @ [t]\<rparr>))"

definition fallback_burst :: "u64 \<Rightarrow> u32 \<Rightarrow> u64 \<Rightarrow> u64 \<Rightarrow> nat \<Rightarrow> dma_txn" where
  "fallback_burst rid burst dram_addr bytes i =
     (let off = of_nat i * ucast burst :: u64;
          chunk = (if off + ucast burst > bytes then ucast (bytes - off) else burst)
      in \<lparr>dt_req_id = rid, dt_addr = dram_addr + off, dt_bytes = chunk, dt_ready_cycle = 0\<rparr>)"

definition new_request ::
    "nat \<Rightarrow> operation_type \<Rightarrow> u64 \<Rightarrow> u64 \<Rightarrow> bool \<Rightarrow> u32 \<Rightarrow> u64 \<Rightarrow> dma_request" where
  "new_request cmd op0 dram_addr bytes is_read burst rid =
     \<lparr>rq_id = rid, rq_cmd = cmd, rq_op = op0, rq_base_addr = dram_addr, rq_bytes = bytes,
      rq_is_read = is_read, rq_total_txns = (if bytes = 0 then 0 else burst_count burst bytes),
      rq_issued_txns = 0, rq_done_txns = 0, rq_completed_early = False\<rparr>"

text \<open>The three branches of \<open>submit\<close>.\<close>

definition enqueue_bursts ::
    "u64 \<Rightarrow> u64 \<Rightarrow> u64 \<Rightarrow> bool \<Rightarrow> u32 \<Rightarrow> txn_store \<times> dma_engine \<Rightarrow> txn_store \<times> dma_engine" where
  "enqueue_bursts rid dram_addr bytes is_read issue_cycle = (\<lambda>(m, e).
     (let n = burst_count (de_burst_bytes e) bytes
      in if bytes = 0 then (m, e\<lparr>de_pending_zero := de_pending_zero e @ [(rid, issue_cycle + 1)]\<rparr>)
         else if de_has_l2 e then inject_bursts rid dram_addr is_read [0..<unat n] (m, e)
         else (m, e\<lparr>de_pending_fallback := de_pending_fallback e @
                 map (fallback_burst rid (de_burst_bytes e) dram_addr bytes) [0..<unat n]\<rparr>)))"

text \<open>\<open>emplace\<close> keeps an entry that is already there.  The division by the burst size traps at 0.\<close>

definition dma_submit ::
    "nat \<Rightarrow> operation_type \<Rightarrow> u64 \<Rightarrow> u64 \<Rightarrow> bool \<Rightarrow> u32 \<Rightarrow> txn_store \<times> dma_engine
     \<Rightarrow> (u64 \<times> txn_store \<times> dma_engine) option" where
  "dma_submit cmd op0 dram_addr bytes is_read issue_cycle = (\<lambda>(m, e).
     do { assert_that (bytes = 0 \<or> de_burst_bytes e \<noteq> 0);
          let rid = de_next_req_id e;
          let req = new_request cmd op0 dram_addr bytes is_read (de_burst_bytes e) rid;
          let (m2, e2) = enqueue_bursts rid dram_addr bytes is_read issue_cycle
                           (m, e\<lparr>de_next_req_id := rid + 1\<rparr>);
          Some (rid, m2, e2\<lparr>de_inflight := (if map_of (de_inflight e2) rid = None
                                            then (rid, req) # de_inflight e2 else de_inflight e2)\<rparr>) })"

section \<open>Progress\<close>

text \<open>A burst was issued: a store whose bursts are all issued completes early.\<close>

definition note_issued :: "u64 \<Rightarrow> dma_engine \<Rightarrow> dma_engine" where
  "note_issued rid e =
     (case map_of (de_inflight e) rid of
        None \<Rightarrow> e
      | Some req \<Rightarrow>
          let req1 = req\<lparr>rq_issued_txns := rq_issued_txns req + 1\<rparr>;
              early = (\<not> rq_is_read req1 \<and> \<not> rq_completed_early req1 \<and>
                       rq_issued_txns req1 \<ge> rq_total_txns req1);
              req2 = (if early then req1\<lparr>rq_completed_early := True\<rparr> else req1);
              e1 = e\<lparr>de_inflight := AList.map_entry rid (\<lambda>_. req2) (de_inflight e)\<rparr>
          in if early then e1\<lparr>de_completed := de_completed e1 @ [rq_cmd req2]\<rparr> else e1)"

fun dma_inject :: "txn_store \<Rightarrow> nat list \<Rightarrow> cache \<times> dma_engine \<Rightarrow> (cache \<times> dma_engine) option" where
  "dma_inject m [] s = Some s"
| "dma_inject m (t # ts) (l2, e) =
     (if de_in_flight e \<ge> de_max_in_flight e then Some (l2, e)
      else if \<not> willAcceptTransaction m (Some t) l2 then Some (l2, e)
      else do { l2' \<leftarrow> recvRequest m t l2;
                let e1 = e\<lparr>de_pending_inject := ts, de_in_flight := de_in_flight e + 1\<rparr>;
                dma_inject m ts (l2', note_issued (t_dma_req_id (ts_txn m t)) e1) })"

fun dma_zero_done :: "u32 \<Rightarrow> (u64 \<times> u32) list \<Rightarrow> dma_engine \<Rightarrow> dma_engine" where
  "dma_zero_done now [] e = e"
| "dma_zero_done now ((rid, ready) # zs) e =
     (if ready \<le> now then
        let e1 = e\<lparr>de_pending_zero := zs\<rparr>
        in case map_of (de_inflight e1) rid of
             None \<Rightarrow> dma_zero_done now zs e1
           | Some req \<Rightarrow> dma_zero_done now zs
               (e1\<lparr>de_completed := de_completed e1 @ [rq_cmd req],
                   de_inflight := AList.delete rid (de_inflight e1)\<rparr>)
      else e)"

fun dma_fallback_issue :: "u32 \<Rightarrow> dma_txn list \<Rightarrow> dma_engine \<Rightarrow> dma_engine" where
  "dma_fallback_issue now [] e = e"
| "dma_fallback_issue now (t # ts) e =
     (if de_in_flight e \<ge> de_max_in_flight e then e
      else if de_next_dram_issue_cycle e > now then e
      else
        let issue_time = max now (de_next_dram_issue_cycle e);
            t1 = t\<lparr>dt_ready_cycle := issue_time + de_base_latency e\<rparr>;
            e1 = e\<lparr>de_pending_fallback := ts, de_pending_txns := pq_push dt_ready_cycle t1 (de_pending_txns e),
                   de_in_flight := de_in_flight e + 1, de_next_dram_issue_cycle := issue_time + 1\<rparr>
        in dma_fallback_issue now ts (note_issued (dt_req_id t) e1))"

function dma_retire :: "u32 \<Rightarrow> dma_engine \<Rightarrow> dma_engine" where
  "dma_retire now e =
     (if de_pending_txns e = [] then e
      else let t = pq_top (de_pending_txns e)
           in if dt_ready_cycle t > now then e
              else dma_retire now (e\<lparr>de_incoming := de_incoming e @ [dt_req_id t],
                     de_pending_txns := pq_pop dt_ready_cycle (de_pending_txns e),
                     de_in_flight := de_in_flight e - 1\<rparr>))"
  by pat_completeness auto
termination
  by (relation "measure (\<lambda>(now, e). length (de_pending_txns e))") (auto simp: length_pq_pop)

declare dma_retire.simps [simp del]

text \<open>Finished bursts take the bus in order; each occupies it for \<open>delay\<close> cycles.\<close>

definition bus_delay :: "dma_engine \<Rightarrow> u32" where
  "bus_delay e = (if de_bandwidth e > 0
     then (de_burst_bytes e + de_bandwidth e - 1) div de_bandwidth e else 1)"

fun dma_bus :: "u32 \<Rightarrow> u64 list \<Rightarrow> dma_engine \<Rightarrow> dma_engine" where
  "dma_bus now [] e = e"
| "dma_bus now (rid # rs) e =
     (let finish_time = max now (de_next_free_cycle e) + bus_delay e
      in dma_bus now rs (e\<lparr>de_incoming := rs, de_next_free_cycle := finish_time,
           de_scheduled := de_scheduled e @ [(rid, finish_time)]\<rparr>))"

definition finish_burst :: "u64 \<Rightarrow> dma_engine \<Rightarrow> dma_engine" where
  "finish_burst rid e =
     (case map_of (de_inflight e) rid of
        None \<Rightarrow> e
      | Some req \<Rightarrow>
          let req1 = req\<lparr>rq_done_txns := rq_done_txns req + 1\<rparr>
          in if rq_done_txns req1 \<ge> rq_total_txns req1
             then let e1 = (if rq_is_read req1 \<or> \<not> rq_completed_early req1
                            then e\<lparr>de_completed := de_completed e @ [rq_cmd req1]\<rparr> else e)
                  in e1\<lparr>de_inflight := AList.delete rid (de_inflight e1)\<rparr>
             else e\<lparr>de_inflight := AList.map_entry rid (\<lambda>_. req1) (de_inflight e)\<rparr>)"

fun dma_complete :: "u32 \<Rightarrow> (u64 \<times> u32) list \<Rightarrow> dma_engine \<Rightarrow> dma_engine" where
  "dma_complete now [] e = e"
| "dma_complete now ((rid, t) # cs) e =
     (if t > now then e else dma_complete now cs (finish_burst rid (e\<lparr>de_scheduled := cs\<rparr>)))"

definition dma_cycle :: "u32 \<Rightarrow> txn_store \<times> cache \<times> dma_engine \<Rightarrow> (cache \<times> dma_engine) option" where
  "dma_cycle now = (\<lambda>(m, l2, e).
     do { (l2', e1) \<leftarrow>
            (if de_has_l2 e
             then do { (l2', e1) \<leftarrow> dma_inject m (de_pending_inject e) (l2, e);
                       Some (l2', dma_zero_done now (de_pending_zero e1) e1) }
             else Some (l2, dma_retire now (dma_fallback_issue now (de_pending_fallback e) e)));
          let e2 = dma_bus now (de_incoming e1) e1;
          Some (l2', dma_complete now (de_scheduled e2) e2) })"

definition dma_recvResponse :: "txn_store \<Rightarrow> nat \<Rightarrow> dma_engine \<Rightarrow> dma_engine option" where
  "dma_recvResponse m resp e =
     do { assert_that (t_fromDMA (ts_txn m resp));
          assert_that (map_of (de_inflight e) (t_dma_req_id (ts_txn m resp)) \<noteq> None);
          Some (e\<lparr>de_in_flight := de_in_flight e - 1,
                  de_incoming := de_incoming e @ [t_dma_req_id (ts_txn m resp)]\<rparr>) }"

definition take_completed :: "dma_engine \<Rightarrow> nat list \<times> dma_engine" where
  "take_completed e = (de_completed e, e\<lparr>de_completed := []\<rparr>)"

section \<open>No command completes twice\<close>

text \<open>
  \<open>ledger M L n\<close>: \<open>M\<close> are the requests in flight, \<open>L\<close> the commands completed so far and \<open>n\<close> the next
  identifier.  A request that has not completed early is not in \<open>L\<close>; one that has is a store of at
  least one byte and is.  The five changes the engine makes to a ledger keep it.
\<close>

definition entry_ok :: "dma_request \<Rightarrow> nat list \<Rightarrow> bool" where
  "entry_ok r L \<longleftrightarrow> (if rq_completed_early r then \<not> rq_is_read r \<and> rq_bytes r \<noteq> 0 \<and> rq_cmd r \<in> set L
     else rq_cmd r \<notin> set L)"

definition ledger :: "(u64 \<rightharpoonup> dma_request) \<Rightarrow> nat list \<Rightarrow> u64 \<Rightarrow> bool" where
  "ledger M L n \<longleftrightarrow> distinct L \<and>
     (\<forall>k r. M k = Some r \<longrightarrow> unat k < unat n \<and> entry_ok r L) \<and>
     (\<forall>k k' r r'. M k = Some r \<and> M k' = Some r' \<and> rq_cmd r = rq_cmd r' \<longrightarrow> k = k')"

lemma ledger_entry: "ledger M L n \<Longrightarrow> M k = Some r \<Longrightarrow> unat k < unat n \<and> entry_ok r L"
  unfolding ledger_def by blast

lemma ledger_inj: "ledger M L n \<Longrightarrow> M k = Some r \<Longrightarrow> M k' = Some r' \<Longrightarrow> rq_cmd r = rq_cmd r' \<Longrightarrow> k = k'"
  unfolding ledger_def by blast

lemma ledger_distinct: "ledger M L n \<Longrightarrow> distinct L"
  unfolding ledger_def by blast

lemma ledgerI:
  "distinct L \<Longrightarrow> (\<And>k r. M k = Some r \<Longrightarrow> unat k < unat n \<and> entry_ok r L) \<Longrightarrow>
   (\<And>k k' r r'. M k = Some r \<Longrightarrow> M k' = Some r' \<Longrightarrow> rq_cmd r = rq_cmd r' \<Longrightarrow> k = k') \<Longrightarrow> ledger M L n"
  unfolding ledger_def by blast

lemma inj_replace:
  assumes "ledger M L n" "M k = Some r" "rq_cmd r' = rq_cmd r"
    "(M(k \<mapsto> r')) a = Some ra" "(M(k \<mapsto> r')) b = Some rb" "rq_cmd ra = rq_cmd rb"
  shows "a = b"
proof -
  obtain xa xb where "M a = Some xa" "rq_cmd xa = rq_cmd ra" "M b = Some xb" "rq_cmd xb = rq_cmd rb"
    using assms(2-5) by (auto split: if_splits)
  then show ?thesis using ledger_inj [OF assms(1)] assms(6) by metis
qed

lemma entry_ok_same:
  "rq_cmd r' = rq_cmd r \<Longrightarrow> rq_completed_early r' = rq_completed_early r \<Longrightarrow> rq_is_read r' = rq_is_read r \<Longrightarrow>
   rq_bytes r' = rq_bytes r \<Longrightarrow> entry_ok r' L = entry_ok r L"
  by (simp add: entry_ok_def)

lemma ledger_replace:
  assumes l: "ledger M L n" "M k = Some r" and r': "rq_cmd r' = rq_cmd r" "entry_ok r' L"
  shows "ledger (M(k \<mapsto> r')) L n"
proof (rule ledgerI)
  fix a ra assume "(M(k \<mapsto> r')) a = Some ra"
  then show "unat a < unat n \<and> entry_ok ra L"
    using ledger_entry [OF l(1), of a] ledger_entry [OF l] r'(2) by (cases "a = k") auto
qed (use ledger_distinct [OF l(1)] inj_replace [OF l r'(1)] in blast)+

lemma entry_ok_snoc: "rq_cmd r \<noteq> c \<Longrightarrow> entry_ok r (L @ [c]) = entry_ok r L"
  by (simp add: entry_ok_def)

lemma ledger_complete_early:
  assumes l: "ledger M L n" "M k = Some r" and r: "\<not> rq_completed_early r"
    and r': "rq_cmd r' = rq_cmd r" "rq_completed_early r'" "\<not> rq_is_read r'" "rq_bytes r' \<noteq> 0"
  shows "ledger (M(k \<mapsto> r')) (L @ [rq_cmd r]) n"
proof -
  have new: "rq_cmd r \<notin> set L" using ledger_entry [OF l] r by (simp add: entry_ok_def)
  moreover have "entry_ok x (L @ [rq_cmd r])" if "M a = Some x" "a \<noteq> k" for a x
  proof -
    have "rq_cmd x \<noteq> rq_cmd r" using ledger_inj [OF l(1) that(1) l(2)] that(2) by blast
    then show ?thesis using ledger_entry [OF l(1) that(1)] by (simp add: entry_ok_snoc)
  qed
  moreover have "entry_ok r' (L @ [rq_cmd r])" using r' by (simp add: entry_ok_def)
  ultimately have ent: "unat a < unat n \<and> entry_ok x (L @ [rq_cmd r])" if "(M(k \<mapsto> r')) a = Some x" for a x
    using that ledger_entry [OF l(1), of a x] ledger_entry [OF l] by (cases "a = k") auto
  show ?thesis
  proof (rule ledgerI)
    show "distinct (L @ [rq_cmd r])" using ledger_distinct [OF l(1)] new by simp
  qed (use ent inj_replace [OF l r'(1)] in blast)+
qed

lemma ledger_drop: "ledger M L n \<Longrightarrow> ledger (M(k := None)) L n"
  unfolding ledger_def by (auto split: if_splits)

lemma ledger_complete:
  assumes l: "ledger M L n" "M k = Some r" and r: "\<not> rq_completed_early r"
  shows "ledger (M(k := None)) (L @ [rq_cmd r]) n"
proof -
  have new: "rq_cmd r \<notin> set L" using ledger_entry [OF l] r by (simp add: entry_ok_def)
  moreover have "entry_ok x (L @ [rq_cmd r])" if "M a = Some x" "a \<noteq> k" for a x
  proof -
    have "rq_cmd x \<noteq> rq_cmd r" using ledger_inj [OF l(1) that(1) l(2)] that(2) by blast
    then show ?thesis using ledger_entry [OF l(1) that(1)] by (simp add: entry_ok_snoc)
  qed
  ultimately have ent: "unat a < unat n \<and> entry_ok x (L @ [rq_cmd r])" if "(M(k := None)) a = Some x" for a x
    using that ledger_entry [OF l(1), of a x] by (cases "a = k") auto
  have inj: "a = b" if "(M(k := None)) a = Some ra" "(M(k := None)) b = Some rb" "rq_cmd ra = rq_cmd rb" for a b ra rb
    using that ledger_inj [OF l(1), of a ra b rb] by (auto split: if_splits)
  show ?thesis
  proof (rule ledgerI)
    show "distinct (L @ [rq_cmd r])" using ledger_distinct [OF l(1)] new by simp
  qed (use ent inj in blast)+
qed

lemma ledger_add:
  assumes l: "ledger M L n" and r: "\<not> rq_completed_early r" "rq_cmd r \<notin> set L"
    "\<And>k r'. M k = Some r' \<Longrightarrow> rq_cmd r' \<noteq> rq_cmd r" and n: "unat n < unat n'"
  shows "ledger (M(n \<mapsto> r)) L n'"
proof -
  have "unat k < unat n'" if "M k = Some x" for k x
    using ledger_entry [OF l that] n by linarith
  moreover have "entry_ok r L" using r by (simp add: entry_ok_def)
  moreover have inj: "a = b" if "(M(n \<mapsto> r)) a = Some ra" "(M(n \<mapsto> r)) b = Some rb" "rq_cmd ra = rq_cmd rb" for a b ra rb
    using that r(3) [of a ra] r(3) [of b rb] ledger_inj [OF l, of a ra b rb] by (auto split: if_splits)
  moreover have ent: "unat a < unat n' \<and> entry_ok x L" if "(M(n \<mapsto> r)) a = Some x" for a x
    using that calculation(1,2) ledger_entry [OF l, of a x] n by (cases "a = n") auto
  show ?thesis
    by (rule ledgerI [OF ledger_distinct [OF l]]) (use ent inj in blast)+
qed

text \<open>Pending identifiers belong to requests of the right kind.\<close>

definition id_ok :: "dma_engine \<Rightarrow> bool \<Rightarrow> u64 \<Rightarrow> bool" where
  "id_ok e zero rid \<longleftrightarrow> unat rid < unat (de_next_req_id e) \<and>
     (\<forall>r. map_of (de_inflight e) rid = Some r \<longrightarrow> (rq_bytes r = 0) = zero)"

definition dma_ledger :: "nat list \<Rightarrow> dma_engine \<Rightarrow> bool" where
  "dma_ledger taken e \<longleftrightarrow> ledger (map_of (de_inflight e)) (taken @ de_completed e) (de_next_req_id e)"

definition dma_inv :: "nat list \<Rightarrow> txn_store \<Rightarrow> dma_engine \<Rightarrow> bool" where
  "dma_inv taken m e \<longleftrightarrow> dma_ledger taken e \<and>
     (\<forall>z\<in>set (de_pending_zero e). id_ok e True (fst z)) \<and>
     (\<forall>t\<in>set (de_pending_inject e). id_ok e False (t_dma_req_id (ts_txn m t))) \<and>
     (\<forall>t\<in>set (de_pending_fallback e). id_ok e False (dt_req_id t))"

text \<open>The effect of the operations that change the requests in flight.\<close>

definition shrinks :: "dma_engine \<Rightarrow> dma_engine \<Rightarrow> bool" where
  "shrinks e e' \<longleftrightarrow> de_next_req_id e' = de_next_req_id e \<and> (\<forall>k r'. map_of (de_inflight e') k = Some r' \<longrightarrow>
     (\<exists>r. map_of (de_inflight e) k = Some r \<and> rq_bytes r' = rq_bytes r))"

lemma shrinks_refl: "shrinks e e"
  by (simp add: shrinks_def)

lemma shrinks_trans: "shrinks e e' \<Longrightarrow> shrinks e' e'' \<Longrightarrow> shrinks e e''"
  unfolding shrinks_def by metis

lemma shrinks_id_ok: "shrinks e e' \<Longrightarrow> id_ok e z k \<Longrightarrow> id_ok e' z k"
  unfolding shrinks_def id_ok_def by metis

lemma shrinks_same: "de_inflight e' = de_inflight e \<Longrightarrow> de_next_req_id e' = de_next_req_id e \<Longrightarrow> shrinks e e'"
  by (simp add: shrinks_def)

lemma dma_ledger_same:
  "de_inflight e' = de_inflight e \<Longrightarrow> de_next_req_id e' = de_next_req_id e \<Longrightarrow>
   de_completed e' = de_completed e \<Longrightarrow> dma_ledger taken e' = dma_ledger taken e"
  by (simp add: dma_ledger_def)

lemma map_of_replace:
  "map_of xs k = Some r \<Longrightarrow> map_of (AList.map_entry k (\<lambda>_. r') xs) = (map_of xs)(k \<mapsto> r')"
  by (auto simp: AList.map_of_map_entry)

lemma map_of_delete: "map_of (AList.delete k xs) = (map_of xs)(k := None)"
  by (auto simp: AList.delete_conv')

lemma note_issued_inv:
  assumes "dma_ledger taken e" "id_ok e False rid"
  shows "dma_ledger taken (note_issued rid e) \<and> shrinks e (note_issued rid e) \<and>
    de_pending_zero (note_issued rid e) = de_pending_zero e \<and>
    de_pending_inject (note_issued rid e) = de_pending_inject e \<and>
    de_pending_fallback (note_issued rid e) = de_pending_fallback e"
proof (cases "map_of (de_inflight e) rid")
  case None
  with assms show ?thesis by (simp add: note_issued_def shrinks_refl)
next
  case (Some req)
  let ?r1 = "req\<lparr>rq_issued_txns := rq_issued_txns req + 1\<rparr>"
  have bytes: "rq_bytes req \<noteq> 0" using assms(2) Some by (simp add: id_ok_def)
  have l: "ledger (map_of (de_inflight e)) (taken @ de_completed e) (de_next_req_id e)"
    using assms(1) by (simp add: dma_ledger_def)
  show ?thesis
  proof (cases "\<not> rq_is_read req \<and> \<not> rq_completed_early req \<and> rq_issued_txns req + 1 \<ge> rq_total_txns req")
    case True
    have "ledger ((map_of (de_inflight e))(rid \<mapsto> ?r1\<lparr>rq_completed_early := True\<rparr>))
        ((taken @ de_completed e) @ [rq_cmd req]) (de_next_req_id e)"
      by (rule ledger_complete_early [OF l Some]) (use True bytes in simp_all)
    with True Some show ?thesis
      by (auto simp: note_issued_def Let_def dma_ledger_def map_of_replace shrinks_def)
  next
    case False
    have "entry_ok ?r1 (taken @ de_completed e)"
      using ledger_entry [OF l Some] entry_ok_same [of ?r1 req] by simp
    then have "ledger ((map_of (de_inflight e))(rid \<mapsto> ?r1)) (taken @ de_completed e) (de_next_req_id e)"
      by (intro ledger_replace [OF l Some]) simp
    with False Some show ?thesis
      by (auto simp: note_issued_def Let_def dma_ledger_def map_of_replace shrinks_def)
  qed
qed

lemma finish_burst_inv:
  assumes "dma_ledger taken e"
  shows "dma_ledger taken (finish_burst rid e) \<and> shrinks e (finish_burst rid e) \<and>
    de_pending_zero (finish_burst rid e) = de_pending_zero e \<and>
    de_pending_inject (finish_burst rid e) = de_pending_inject e \<and>
    de_pending_fallback (finish_burst rid e) = de_pending_fallback e"
proof (cases "map_of (de_inflight e) rid")
  case None
  with assms show ?thesis by (simp add: finish_burst_def shrinks_refl)
next
  case (Some req)
  let ?r1 = "req\<lparr>rq_done_txns := rq_done_txns req + 1\<rparr>"
  have l: "ledger (map_of (de_inflight e)) (taken @ de_completed e) (de_next_req_id e)"
    using assms by (simp add: dma_ledger_def)
  have eok: "entry_ok req (taken @ de_completed e)" using ledger_entry [OF l Some] by simp
  show ?thesis
  proof (cases "rq_done_txns req + 1 \<ge> rq_total_txns req")
    case fin: True
    show ?thesis
    proof (cases "rq_completed_early req")
      case True
      then have "\<not> rq_is_read req" using eok by (simp add: entry_ok_def)
      with True fin Some ledger_drop [OF l, of rid] show ?thesis
        by (auto simp: finish_burst_def Let_def dma_ledger_def map_of_delete shrinks_def)
    next
      case False
      with fin Some ledger_complete [OF l Some False] show ?thesis
        by (auto simp: finish_burst_def Let_def dma_ledger_def map_of_delete shrinks_def)
    qed
  next
    case False
    have "entry_ok ?r1 (taken @ de_completed e)" using eok entry_ok_same [of ?r1 req] by simp
    then have "ledger ((map_of (de_inflight e))(rid \<mapsto> ?r1)) (taken @ de_completed e) (de_next_req_id e)"
      by (intro ledger_replace [OF l Some]) simp
    with False Some show ?thesis
      by (auto simp: finish_burst_def Let_def dma_ledger_def map_of_replace shrinks_def)
  qed
qed

lemma dma_inv_step:
  assumes "dma_inv taken m e" "dma_ledger taken e'" "shrinks e e'"
    "set (de_pending_zero e') \<subseteq> set (de_pending_zero e)"
    "set (de_pending_inject e') \<subseteq> set (de_pending_inject e)"
    "set (de_pending_fallback e') \<subseteq> set (de_pending_fallback e)"
  shows "dma_inv taken m e'"
  using assms unfolding dma_inv_def by (blast intro: shrinks_id_ok)

text \<open>An operation that leaves requests, identifiers and completions alone.\<close>

lemma dma_inv_quiet:
  assumes "dma_inv taken m e" "de_inflight e' = de_inflight e" "de_next_req_id e' = de_next_req_id e"
    "de_completed e' = de_completed e" "set (de_pending_zero e') \<subseteq> set (de_pending_zero e)"
    "set (de_pending_inject e') \<subseteq> set (de_pending_inject e)"
    "set (de_pending_fallback e') \<subseteq> set (de_pending_fallback e)"
  shows "dma_inv taken m e'"
  by (rule dma_inv_step [OF assms(1) _ shrinks_same [OF assms(2,3)] assms(5-7)])
    (use assms(1) dma_ledger_same [OF assms(2-4)] in \<open>simp add: dma_inv_def\<close>)

lemma note_issued_keeps:
  assumes "dma_inv taken m e" "id_ok e False rid"
  shows "dma_inv taken m (note_issued rid e)"
proof -
  have "dma_ledger taken e" using assms(1) by (simp add: dma_inv_def)
  from note_issued_inv [OF this assms(2)] show ?thesis
    by (intro dma_inv_step [OF assms(1)]) simp_all
qed

lemma finish_burst_keeps:
  assumes "dma_inv taken m e"
  shows "dma_inv taken m (finish_burst rid e)"
proof -
  have "dma_ledger taken e" using assms by (simp add: dma_inv_def)
  from finish_burst_inv [OF this, of rid] show ?thesis
    by (intro dma_inv_step [OF assms]) simp_all
qed

lemma note_issued_pending [simp]:
  "de_pending_inject (note_issued rid e) = de_pending_inject e"
  "de_pending_fallback (note_issued rid e) = de_pending_fallback e"
  "de_pending_zero (note_issued rid e) = de_pending_zero e"
  "de_has_l2 (note_issued rid e) = de_has_l2 e"
  "de_in_flight (note_issued rid e) = de_in_flight e"
  "de_max_in_flight (note_issued rid e) = de_max_in_flight e"
  "de_pending_txns (note_issued rid e) = de_pending_txns e"
  "de_incoming (note_issued rid e) = de_incoming e"
  "de_scheduled (note_issued rid e) = de_scheduled e"
  by (simp_all add: note_issued_def Let_def split: option.split)

lemma finish_burst_pending [simp]:
  "de_pending_inject (finish_burst rid e) = de_pending_inject e"
  "de_pending_fallback (finish_burst rid e) = de_pending_fallback e"
  "de_pending_zero (finish_burst rid e) = de_pending_zero e"
  "de_has_l2 (finish_burst rid e) = de_has_l2 e"
  "de_in_flight (finish_burst rid e) = de_in_flight e"
  "de_max_in_flight (finish_burst rid e) = de_max_in_flight e"
  "de_pending_txns (finish_burst rid e) = de_pending_txns e"
  "de_incoming (finish_burst rid e) = de_incoming e"
  "de_scheduled (finish_burst rid e) = de_scheduled e"
  by (simp_all add: finish_burst_def Let_def split: option.split)

section \<open>What holds throughout a cycle\<close>

text \<open>
  A predicate on the engine that refines \<open>dma_inv\<close> and survives its elementary changes survives a
  whole cycle.
\<close>

locale dma_invariant =
  fixes taken :: "nat list" and m :: txn_store and I :: "dma_engine \<Rightarrow> bool"
  assumes inv: "I e \<Longrightarrow> dma_inv taken m e"
    and quiet: "I e \<Longrightarrow> de_inflight e' = de_inflight e \<Longrightarrow> de_next_req_id e' = de_next_req_id e \<Longrightarrow>
      de_completed e' = de_completed e \<Longrightarrow> set (de_pending_zero e') \<subseteq> set (de_pending_zero e) \<Longrightarrow>
      set (de_pending_inject e') \<subseteq> set (de_pending_inject e) \<Longrightarrow>
      set (de_pending_fallback e') \<subseteq> set (de_pending_fallback e) \<Longrightarrow>
      de_burst_bytes e' = de_burst_bytes e \<Longrightarrow> I e'"
    and issued: "I e \<Longrightarrow> id_ok e False rid \<Longrightarrow> I (note_issued rid e)"
    and finished: "I e \<Longrightarrow> I (finish_burst rid e)"
    and zero: "I e \<Longrightarrow> map_of (de_inflight e) rid = Some req \<Longrightarrow> rq_bytes req = 0 \<Longrightarrow>
      I (e\<lparr>de_completed := de_completed e @ [rq_cmd req], de_inflight := AList.delete rid (de_inflight e)\<rparr>)"
begin

lemma inject:
  assumes "I e" "dma_inject m ts (l2, e) = Some (l2', e')" "de_pending_inject e = ts"
  shows "I e'"
  using assms
proof (induction ts arbitrary: l2 e)
  case (Cons t ts)
  show ?case
  proof (cases "de_in_flight e \<ge> de_max_in_flight e \<or> \<not> willAcceptTransaction m (Some t) l2")
    case True
    then show ?thesis using Cons.prems(1,2) by (auto split: if_splits)
  next
    case False
    let ?e1 = "e\<lparr>de_pending_inject := ts, de_in_flight := de_in_flight e + 1\<rparr>"
    let ?e2 = "note_issued (t_dma_req_id (ts_txn m t)) ?e1"
    obtain l3 where "dma_inject m ts (l3, ?e2) = Some (l2', e')"
      using Cons.prems(2) False by (auto split: bind_splits)
    moreover have i1: "I ?e1"
      by (rule quiet [OF Cons.prems(1)]) (use Cons.prems(3) in auto)
    moreover have "id_ok e False (t_dma_req_id (ts_txn m t))"
      using inv [OF Cons.prems(1)] Cons.prems(3) by (simp add: dma_inv_def)
    then have "id_ok ?e1 False (t_dma_req_id (ts_txn m t))" by (simp add: id_ok_def)
    ultimately show ?thesis
      using Cons.IH [of ?e2 l3] issued [OF i1] by simp
  qed
qed simp

lemma zero_done:
  assumes "I e" "de_pending_zero e = zs"
  shows "I (dma_zero_done now zs e)"
  using assms
proof (induction zs arbitrary: e)
  case (Cons z zs)
  obtain rid ready where z: "z = (rid, ready)" by (cases z)
  let ?e1 = "e\<lparr>de_pending_zero := zs\<rparr>"
  have i1: "I ?e1"
    by (rule quiet [OF Cons.prems(1)]) (use Cons.prems(2) in auto)
  show ?case
  proof (cases "ready \<le> now")
    case late: True
    show ?thesis
    proof (cases "map_of (de_inflight e) rid")
      case None
      then show ?thesis using Cons.IH [OF i1] late z by simp
    next
      case (Some req)
      let ?e2 = "?e1\<lparr>de_completed := de_completed ?e1 @ [rq_cmd req], de_inflight := AList.delete rid (de_inflight ?e1)\<rparr>"
      have "rq_bytes req = 0"
        using inv [OF Cons.prems(1)] Cons.prems(2) Some z by (auto simp: dma_inv_def id_ok_def)
      then have "I ?e2" using zero [OF i1, of rid req] Some by simp
      then show ?thesis using Cons.IH [of ?e2] late z Some by simp
    qed
  qed (use Cons.prems z in simp)
qed simp

lemma fallback:
  assumes "I e" "de_pending_fallback e = ts"
  shows "I (dma_fallback_issue now ts e)"
  using assms
proof (induction ts arbitrary: e)
  case (Cons t ts)
  let ?it = "max now (de_next_dram_issue_cycle e)"
  let ?e1 = "e\<lparr>de_pending_fallback := ts, de_pending_txns := pq_push dt_ready_cycle
      (t\<lparr>dt_ready_cycle := ?it + de_base_latency e\<rparr>) (de_pending_txns e),
      de_in_flight := de_in_flight e + 1, de_next_dram_issue_cycle := ?it + 1\<rparr>"
  have i1: "I ?e1"
    by (rule quiet [OF Cons.prems(1)]) (use Cons.prems(2) in auto)
  have "id_ok e False (dt_req_id t)" using inv [OF Cons.prems(1)] Cons.prems(2) by (simp add: dma_inv_def)
  then have "id_ok ?e1 False (dt_req_id t)" by (simp add: id_ok_def)
  then have "I (note_issued (dt_req_id t) ?e1)" by (rule issued [OF i1])
  from Cons.IH [OF this] Cons.prems(1) show ?case
    by (auto simp: Let_def max_def split: if_splits)
qed simp

lemma retire: "I e \<Longrightarrow> I (dma_retire now e)"
proof (induction now e rule: dma_retire.induct)
  case (1 now e)
  have "I (e\<lparr>de_incoming := i, de_pending_txns := p, de_in_flight := n\<rparr>)" for i p n
    by (rule quiet [OF "1.prems"]) simp_all
  with "1.IH" "1.prems" show ?case by (simp add: dma_retire.simps [of now e] Let_def)
qed

lemma bus: "I e \<Longrightarrow> I (dma_bus now rs e)"
proof (induction rs arbitrary: e)
  case (Cons r rs)
  have "I (e\<lparr>de_incoming := i, de_next_free_cycle := f, de_scheduled := sc\<rparr>)" for i f sc
    by (rule quiet [OF Cons.prems]) simp_all
  with Cons.IH show ?case by (simp add: Let_def)
qed simp

lemma complete: "I e \<Longrightarrow> I (dma_complete now cs e)"
proof (induction cs arbitrary: e)
  case (Cons c cs)
  obtain rid t where c: "c = (rid, t)" by (cases c)
  have "I (e\<lparr>de_scheduled := cs\<rparr>)"
    by (rule quiet [OF Cons.prems]) simp_all
  with Cons.IH [OF finished] Cons.prems c show ?case by simp
qed simp

lemma cycle:
  assumes "I e" "dma_cycle now (m, l2, e) = Some (l2', e')"
  shows "I e'"
proof -
  obtain e1 where e1: "I e1"
    and e': "e' = dma_complete now (de_scheduled (dma_bus now (de_incoming e1) e1)) (dma_bus now (de_incoming e1) e1)"
  proof (cases "de_has_l2 e")
    case True
    then obtain l3 e0 where "dma_inject m (de_pending_inject e) (l2, e) = Some (l3, e0)"
      "e' = dma_complete now (de_scheduled (dma_bus now (de_incoming (dma_zero_done now (de_pending_zero e0) e0))
          (dma_zero_done now (de_pending_zero e0) e0)))
        (dma_bus now (de_incoming (dma_zero_done now (de_pending_zero e0) e0)) (dma_zero_done now (de_pending_zero e0) e0))"
      using assms(2) by (auto simp: dma_cycle_def Let_def split: bind_splits)
    with zero_done [OF inject [OF assms(1)]] that show ?thesis by blast
  next
    case False
    with assms retire [OF fallback [OF assms(1)]] that show ?thesis
      by (auto simp: dma_cycle_def Let_def)
  qed
  show ?thesis unfolding e' by (intro complete bus e1)
qed

end

lemma zero_keeps:
  assumes "dma_inv taken m e" "map_of (de_inflight e) rid = Some req" "rq_bytes req = 0"
  shows "dma_inv taken m (e\<lparr>de_completed := de_completed e @ [rq_cmd req],
    de_inflight := AList.delete rid (de_inflight e)\<rparr>)" (is "dma_inv taken m ?e'")
    and "\<not> rq_completed_early req"
proof -
  have l: "ledger (map_of (de_inflight e)) (taken @ de_completed e) (de_next_req_id e)"
    using assms(1) by (simp add: dma_inv_def dma_ledger_def)
  show e: "\<not> rq_completed_early req"
    using ledger_entry [OF l assms(2)] assms(3) by (simp add: entry_ok_def split: if_splits)
  from ledger_complete [OF l assms(2) e] have "dma_ledger taken ?e'"
    by (simp add: dma_ledger_def map_of_delete)
  moreover have "shrinks e ?e'" by (simp add: shrinks_def map_of_delete)
  ultimately show "dma_inv taken m ?e'" by (intro dma_inv_step [OF assms(1)]) simp_all
qed

interpretation inv: dma_invariant taken m "dma_inv taken m" for taken m
  by unfold_locales (erule (6) dma_inv_quiet | fact note_issued_keeps finish_burst_keeps zero_keeps(1) | assumption)+

text \<open>
  The commands the engine still owes a completion, and all it has seen.  A cycle completes what it
  owes and nothing else.
\<close>

fun owed :: "dma_request option \<Rightarrow> nat set" where
  "owed None = {}"
| "owed (Some r) = (if rq_completed_early r then {} else {rq_cmd r})"

fun known :: "dma_request option \<Rightarrow> nat set" where
  "known None = {}"
| "known (Some r) = {rq_cmd r}"

definition dma_live :: "dma_engine \<Rightarrow> nat set" where
  "dma_live e = set (de_completed e) \<union> (\<Union>k. owed (map_of (de_inflight e) k))"

definition dma_seen :: "dma_engine \<Rightarrow> nat set" where
  "dma_seen e = set (de_completed e) \<union> (\<Union>k. known (map_of (de_inflight e) k))"

definition owes :: "nat set \<Rightarrow> nat set \<Rightarrow> u64 \<Rightarrow> u32 \<Rightarrow> dma_engine \<Rightarrow> bool" where
  "owes V W n bb e \<longleftrightarrow> dma_live e = V \<and> dma_seen e \<subseteq> W \<and> de_next_req_id e = n \<and>
     de_burst_bytes e = bb"

lemma owes_same:
  "de_inflight e' = de_inflight e \<Longrightarrow> de_completed e' = de_completed e \<Longrightarrow>
    de_next_req_id e' = de_next_req_id e \<Longrightarrow> de_burst_bytes e' = de_burst_bytes e \<Longrightarrow> owes V W n bb e' = owes V W n bb e"
  by (simp add: owes_def dma_live_def dma_seen_def)

lemma UN_fun_upd: "(\<Union>x. f ((M(k := v)) x)) = f v \<union> (\<Union>x\<in>- {k}. f (M x))"
  by (auto split: if_splits)

lemma UN_split_at: "(\<Union>x. f (M x)) = f (M k) \<union> (\<Union>x\<in>- {k}. f (M x))"
  by auto

lemma owes_change:
  assumes "owes V W n bb e" "map_of (de_inflight e') = (map_of (de_inflight e))(k := v)"
    "de_completed e' = de_completed e @ new" "set new \<union> owed v = owed (map_of (de_inflight e) k)"
    "set new \<union> known v \<subseteq> known (map_of (de_inflight e) k)" "de_next_req_id e' = de_next_req_id e"
    "de_burst_bytes e' = de_burst_bytes e"
  shows "owes V W n bb e'"
proof -
  have "dma_live e' = dma_live e"
    unfolding dma_live_def assms(2,3) UN_fun_upd UN_split_at [of owed "map_of (de_inflight e)" k]
    using assms(4) by auto
  moreover have "dma_seen e' \<subseteq> dma_seen e"
    unfolding dma_seen_def assms(2,3) UN_fun_upd UN_split_at [of known "map_of (de_inflight e)" k]
    using assms(5) by auto
  ultimately show ?thesis using assms(1,6,7) by (auto simp: owes_def)
qed

lemma owes_replace:
  assumes "owes V W n bb e" "map_of (de_inflight e) k = Some r" "rq_cmd r' = rq_cmd r"
    "if rq_completed_early r' = rq_completed_early r then new = []
     else \<not> rq_completed_early r \<and> new = [rq_cmd r]"
    "map_of (de_inflight e') = (map_of (de_inflight e))(k \<mapsto> r')" "de_completed e' = de_completed e @ new"
    "de_next_req_id e' = de_next_req_id e"
    "de_burst_bytes e' = de_burst_bytes e"
  shows "owes V W n bb e'"
  by (rule owes_change [OF assms(1,5,6)]) (use assms(2-4,7,8) in \<open>auto split: if_splits\<close>)

lemma owes_delete:
  assumes "owes V W n bb e" "map_of (de_inflight e) k = Some r"
    "if rq_completed_early r then new = [] else new = [rq_cmd r]"
    "map_of (de_inflight e') = (map_of (de_inflight e))(k := None)" "de_completed e' = de_completed e @ new"
    "de_next_req_id e' = de_next_req_id e"
    "de_burst_bytes e' = de_burst_bytes e"
  shows "owes V W n bb e'"
  by (rule owes_change [OF assms(1,4,5)]) (use assms(2,3,6,7) in \<open>auto split: if_splits\<close>)

lemma owes_note_issued: "owes V W n bb e \<Longrightarrow> owes V W n bb (note_issued rid e)"
proof (cases "map_of (de_inflight e) rid")
  case (Some req)
  assume o: "owes V W n bb e"
  let ?r1 = "req\<lparr>rq_issued_txns := rq_issued_txns req + 1\<rparr>"
  show ?thesis
  proof (cases "\<not> rq_is_read req \<and> \<not> rq_completed_early req \<and> rq_issued_txns req + 1 \<ge> rq_total_txns req")
    case True
    show ?thesis
      by (rule owes_replace [OF o Some, of "?r1\<lparr>rq_completed_early := True\<rparr>" "[rq_cmd req]"])
        (use True Some in \<open>auto simp: note_issued_def Let_def map_of_replace\<close>)
  next
    case False
    show ?thesis
      by (rule owes_replace [OF o Some, of ?r1 "[]"])
        (use False Some in \<open>auto simp: note_issued_def Let_def map_of_replace\<close>)
  qed
qed (simp add: note_issued_def)

lemma owes_finish_burst:
  assumes "dma_inv taken m e" "owes V W n bb e"
  shows "owes V W n bb (finish_burst rid e)"
proof (cases "map_of (de_inflight e) rid")
  case (Some req)
  have l: "ledger (map_of (de_inflight e)) (taken @ de_completed e) (de_next_req_id e)"
    using assms(1) by (simp add: dma_inv_def dma_ledger_def)
  then have early: "rq_completed_early req \<Longrightarrow> \<not> rq_is_read req"
    using ledger_entry [OF l Some] by (simp add: entry_ok_def)
  show ?thesis
  proof (cases "rq_done_txns req + 1 \<ge> rq_total_txns req")
    case True
    show ?thesis
      by (rule owes_delete [OF assms(2) Some, of "if rq_completed_early req then [] else [rq_cmd req]"])
        (use True Some early in \<open>auto simp: finish_burst_def Let_def map_of_delete\<close>)
  next
    case False
    show ?thesis
      by (rule owes_replace [OF assms(2) Some, of "req\<lparr>rq_done_txns := rq_done_txns req + 1\<rparr>" "[]"])
        (use False Some in \<open>auto simp: finish_burst_def Let_def map_of_replace\<close>)
  qed
qed (use assms in \<open>simp add: finish_burst_def\<close>)

lemma owes_zero:
  assumes "dma_inv taken m e" "owes V W n bb e" "map_of (de_inflight e) rid = Some req" "rq_bytes req = 0"
  shows "owes V W n bb (e\<lparr>de_completed := de_completed e @ [rq_cmd req],
    de_inflight := AList.delete rid (de_inflight e)\<rparr>)"
  by (rule owes_delete [OF assms(2,3), of "[rq_cmd req]"])
    (use zero_keeps(2) [OF assms(1,3,4)] in \<open>simp_all add: map_of_delete\<close>)

interpretation live: dma_invariant taken m "\<lambda>e. dma_inv taken m e \<and> owes V W n bb e" for taken m V W n bb
proof (unfold_locales, goal_cases)
  case (2 e e')
  then show ?case using dma_inv_quiet [of taken m e e'] owes_same [of e' e V W n bb] by blast
next
  case (3 e rid)
  then show ?case by (simp add: note_issued_keeps owes_note_issued)
next
  case (4 e rid)
  then show ?case using finish_burst_keeps [of taken m e rid] owes_finish_burst [of taken m e V W n bb rid] by simp
next
  case (5 e rid req)
  then show ?case using zero_keeps(1) [of taken m e rid req] owes_zero [of taken m e V W n bb rid req] by simp
qed simp

lemma dma_cycle_live:
  assumes "dma_inv taken m e" "dma_cycle now (m, l2, e) = Some (l2', e')"
  shows "dma_live e' = dma_live e \<and> dma_seen e' \<subseteq> dma_seen e \<and> de_next_req_id e' = de_next_req_id e \<and>
    de_burst_bytes e' = de_burst_bytes e"
  using live.cycle [of taken m e "dma_live e" "dma_seen e" "de_next_req_id e" "de_burst_bytes e" now l2 l2' e'] assms
  by (simp add: owes_def)

lemma take_completed_live:
  assumes "dma_inv taken m e" "take_completed e = (cs, e')"
  shows "dma_live e = set cs \<union> dma_live e' \<and> distinct cs \<and> set cs \<inter> dma_live e' = {} \<and>
    dma_seen e = set cs \<union> dma_seen e' \<and> de_completed e' = [] \<and> de_inflight e' = de_inflight e \<and>
    de_next_req_id e' = de_next_req_id e \<and> de_burst_bytes e' = de_burst_bytes e"
proof -
  have cs: "cs = de_completed e" "e' = e\<lparr>de_completed := []\<rparr>" using assms(2) by (simp_all add: take_completed_def)
  have l: "ledger (map_of (de_inflight e)) (taken @ de_completed e) (de_next_req_id e)"
    using assms(1) by (simp add: dma_inv_def dma_ledger_def)
  have "c \<notin> owed (map_of (de_inflight e) k)" if "c \<in> set cs" for c k
    using ledger_entry [OF l, of k] that
    by (cases "map_of (de_inflight e) k") (auto simp: entry_ok_def cs(1))
  then show ?thesis
    using ledger_distinct [OF l] by (auto simp: cs dma_live_def dma_seen_def)
qed

lemma inject_bursts_facts:
  assumes "inject_bursts rid a r is (m, e) = (m', e')"
  shows "\<exists>new. e' = e\<lparr>de_pending_inject := de_pending_inject e @ new\<rparr> \<and> length new = length is \<and>
    (\<forall>t\<in>set new. ts_next m \<le> t \<and> t < ts_next m' \<and> t_dma_req_id (ts_txn m' t) = rid) \<and>
    (\<forall>t<ts_next m. ts_txn m' t = ts_txn m t) \<and> ts_next m \<le> ts_next m'"
  using assms
proof (induction "is" arbitrary: m e)
  case (Cons i "is")
  let ?off = "of_nat i * ucast (de_burst_bytes e) :: u64"
  let ?tx = "(MemTransaction (- 2) (de_hw_id e) None (a + ?off) r False)\<lparr>t_fromDMA := True, t_dma_req_id := rid\<rparr>"
  let ?m1 = "snd (new_txn ?tx m)" and ?e1 = "e\<lparr>de_pending_inject := de_pending_inject e @ [ts_next m]\<rparr>"
  have "inject_bursts rid a r is (?m1, ?e1) = (m', e')"
    using Cons.prems by (simp add: new_txn_def)
  from Cons.IH [OF this] obtain new where new: "e' = ?e1\<lparr>de_pending_inject := de_pending_inject ?e1 @ new\<rparr>"
    "length new = length is" "\<forall>t\<in>set new. ts_next ?m1 \<le> t \<and> t < ts_next m' \<and> t_dma_req_id (ts_txn m' t) = rid"
    "\<forall>t<ts_next ?m1. ts_txn m' t = ts_txn ?m1 t" "ts_next ?m1 \<le> ts_next m'"
    by blast
  have "t_dma_req_id (ts_txn m' (ts_next m)) = rid" using new(4) by (simp add: new_txn_def)
  with new show ?case
    by (intro exI [of _ "ts_next m # new"]) (auto simp: new_txn_def)
qed simp

text \<open>What a submission needs: the identifier counter does not wrap and the command is new.\<close>

definition fresh_cmd :: "nat list \<Rightarrow> dma_engine \<Rightarrow> nat \<Rightarrow> bool" where
  "fresh_cmd taken e cmd \<longleftrightarrow> cmd \<notin> set (taken @ de_completed e) \<and>
     (\<forall>k r. map_of (de_inflight e) k = Some r \<longrightarrow> rq_cmd r \<noteq> cmd) \<and> de_next_req_id e \<noteq> - 1"

lemma enqueue_facts:
  assumes "enqueue_bursts rid a bytes r now (m, e) = (m', e')"
  shows "de_inflight e' = de_inflight e \<and> de_completed e' = de_completed e \<and>
    de_next_req_id e' = de_next_req_id e \<and> ts_next m \<le> ts_next m' \<and>
    (\<forall>t<ts_next m. ts_txn m' t = ts_txn m t) \<and>
    (\<forall>z\<in>set (de_pending_zero e'). z \<in> set (de_pending_zero e) \<or> fst z = rid \<and> bytes = 0) \<and>
    (\<forall>t\<in>set (de_pending_fallback e'). t \<in> set (de_pending_fallback e) \<or> dt_req_id t = rid \<and> bytes \<noteq> 0) \<and>
    (\<forall>t\<in>set (de_pending_inject e'). t \<in> set (de_pending_inject e) \<or>
       t < ts_next m' \<and> t_dma_req_id (ts_txn m' t) = rid \<and> bytes \<noteq> 0)"
proof (cases "bytes \<noteq> 0 \<and> de_has_l2 e")
  case True
  then have "inject_bursts rid a r [0..<unat (burst_count (de_burst_bytes e) bytes)] (m, e) = (m', e')"
    using assms by (simp add: enqueue_bursts_def Let_def)
  from inject_bursts_facts [OF this] True show ?thesis by auto
next
  case False
  then show ?thesis
    using assms by (auto simp: enqueue_bursts_def Let_def fallback_burst_def split: if_splits)
qed

lemma dma_submit_keeps:
  assumes inv: "dma_inv taken m e" and fresh: "fresh_cmd taken e cmd"
    and low: "\<forall>t\<in>set (de_pending_inject e). t < ts_next m"
    and sub: "dma_submit cmd op0 a bytes r now (m, e) = Some (rid, m', e')"
  shows "dma_inv taken m' e' \<and> (\<forall>t\<in>set (de_pending_inject e'). t < ts_next m')"
proof -
  let ?n = "de_next_req_id e"
  let ?req = "new_request cmd op0 a bytes r (de_burst_bytes e) ?n"
  have up: "unat (?n + 1) = Suc (unat ?n)"
  proof -
    have "1 + ?n \<noteq> 0"
      using fresh by (auto simp: fresh_cmd_def add.commute [of 1] simp flip: eq_neg_iff_add_eq_0)
    then show ?thesis using unatSuc [of ?n] by (simp add: add.commute)
  qed
  have l: "ledger (map_of (de_inflight e)) (taken @ de_completed e) ?n"
    using inv by (simp add: dma_inv_def dma_ledger_def)
  have new: "map_of (de_inflight e) ?n = None"
    using ledger_entry [OF l] by (cases "map_of (de_inflight e) ?n") fastforce+
  obtain e2 where enq: "enqueue_bursts ?n a bytes r now (m, e\<lparr>de_next_req_id := ?n + 1\<rparr>) = (m', e2)"
    by (cases "enqueue_bursts ?n a bytes r now (m, e\<lparr>de_next_req_id := ?n + 1\<rparr>)")
      (use sub in \<open>auto simp: dma_submit_def Let_def\<close>)
  note e2 = enqueue_facts [OF enq]
  have e': "e' = e2\<lparr>de_inflight := (?n, ?req) # de_inflight e\<rparr>"
    using sub enq e2 new by (auto simp: dma_submit_def Let_def)
  have req: "rq_cmd ?req = cmd" "rq_bytes ?req = bytes" "\<not> rq_completed_early ?req"
    by (simp_all add: new_request_def)
  have "ledger ((map_of (de_inflight e))(?n \<mapsto> ?req)) (taken @ de_completed e) (?n + 1)"
    by (rule ledger_add [OF l req(3)]) (use fresh up in \<open>auto simp: fresh_cmd_def req(1)\<close>)
  then have led: "dma_ledger taken e'"
    using e2 by (simp add: dma_ledger_def e' fun_upd_def)
  have old: "id_ok e' z k" if "id_ok e z k" for z k
    using that up e2 unfolding id_ok_def e' by auto
  have this_id: "id_ok e' (bytes = 0) ?n"
    using up e2 req(2) by (simp add: id_ok_def e')
  have ids: "\<forall>z\<in>set (de_pending_zero e'). id_ok e' True (fst z)"
    "\<forall>t\<in>set (de_pending_fallback e'). id_ok e' False (dt_req_id t)"
    "\<forall>t\<in>set (de_pending_inject e'). id_ok e' False (t_dma_req_id (ts_txn m' t)) \<and> t < ts_next m'"
  proof -
    show "\<forall>z\<in>set (de_pending_zero e'). id_ok e' True (fst z)"
      using e2 inv old this_id unfolding dma_inv_def e' by fastforce
    show "\<forall>t\<in>set (de_pending_fallback e'). id_ok e' False (dt_req_id t)"
      using e2 inv old this_id unfolding dma_inv_def e' by fastforce
    show "\<forall>t\<in>set (de_pending_inject e'). id_ok e' False (t_dma_req_id (ts_txn m' t)) \<and> t < ts_next m'"
    proof
      fix t assume "t \<in> set (de_pending_inject e')"
      then consider "t \<in> set (de_pending_inject e)"
        | "t < ts_next m'" "t_dma_req_id (ts_txn m' t) = ?n" "bytes \<noteq> 0" using e2 by (auto simp: e')
      then show "id_ok e' False (t_dma_req_id (ts_txn m' t)) \<and> t < ts_next m'"
      proof cases
        case 1
        with low e2 have "ts_txn m' t = ts_txn m t" "t < ts_next m'" by auto
        with 1 inv old show ?thesis by (simp add: dma_inv_def)
      next
        case 2
        with this_id show ?thesis by simp
      qed
    qed
  qed
  then show ?thesis using led by (simp add: dma_inv_def)
qed

lemma dma_submit_live:
  assumes inv: "dma_inv taken m e" and sub: "dma_submit cmd op0 a bytes r now (m, e) = Some (rid, m', e')"
  shows "dma_live e' = insert cmd (dma_live e) \<and> dma_seen e' = insert cmd (dma_seen e) \<and>
    de_completed e' = de_completed e \<and> de_next_req_id e' = de_next_req_id e + 1"
proof -
  let ?n = "de_next_req_id e"
  let ?req = "new_request cmd op0 a bytes r (de_burst_bytes e) ?n"
  have l: "ledger (map_of (de_inflight e)) (taken @ de_completed e) ?n"
    using inv by (simp add: dma_inv_def dma_ledger_def)
  have new: "map_of (de_inflight e) ?n = None"
    using ledger_entry [OF l] by (cases "map_of (de_inflight e) ?n") fastforce+
  obtain e2 where enq: "enqueue_bursts ?n a bytes r now (m, e\<lparr>de_next_req_id := ?n + 1\<rparr>) = (m', e2)"
    by (cases "enqueue_bursts ?n a bytes r now (m, e\<lparr>de_next_req_id := ?n + 1\<rparr>)")
      (use sub in \<open>auto simp: dma_submit_def Let_def\<close>)
  note e2 = enqueue_facts [OF enq]
  have e': "map_of (de_inflight e') = (map_of (de_inflight e))(?n := Some ?req)"
    "de_completed e' = de_completed e" "de_next_req_id e' = ?n + 1"
    using sub enq e2 new by (auto simp: dma_submit_def Let_def)
  have r: "owed (Some ?req) = {cmd}" "known (Some ?req) = {cmd}" by (simp_all add: new_request_def)
  have "dma_live e' = insert cmd (dma_live e)"
    unfolding dma_live_def e' UN_fun_upd UN_split_at [of owed "map_of (de_inflight e)" ?n] r new by simp
  moreover have "dma_seen e' = insert cmd (dma_seen e)"
    unfolding dma_seen_def e' UN_fun_upd UN_split_at [of known "map_of (de_inflight e)" ?n] r new by simp
  ultimately show ?thesis using e' by simp
qed

text \<open>
  The engine among its clients: it starts idle; commands are submitted, cycles run, responses
  arrive, completions are taken.  Between the calls the rest of the simulator may change the cache
  and the transactions, except the identifiers of bursts that wait for injection.
\<close>

inductive dma_reach :: "nat list \<Rightarrow> txn_store \<Rightarrow> dma_engine \<Rightarrow> bool" where
  dma_start: "de_inflight e = [] \<Longrightarrow> de_completed e = [] \<Longrightarrow> de_pending_zero e = [] \<Longrightarrow>
     de_pending_inject e = [] \<Longrightarrow> de_pending_fallback e = [] \<Longrightarrow> dma_reach [] m e"
| dma_do_submit: "dma_reach taken m e \<Longrightarrow> fresh_cmd taken e cmd \<Longrightarrow>
     dma_submit cmd op0 a bytes r now (m, e) = Some (rid, m', e') \<Longrightarrow> dma_reach taken m' e'"
| dma_do_cycle: "dma_reach taken m e \<Longrightarrow> dma_cycle now (m, l2, e) = Some (l2', e') \<Longrightarrow> dma_reach taken m e'"
| dma_do_recv: "dma_reach taken m e \<Longrightarrow> dma_recvResponse m t e = Some e' \<Longrightarrow> dma_reach taken m e'"
| dma_do_take: "dma_reach taken m e \<Longrightarrow> take_completed e = (cs, e') \<Longrightarrow> dma_reach (taken @ cs) m e'"
| dma_env: "dma_reach taken m e \<Longrightarrow> ts_next m \<le> ts_next m' \<Longrightarrow>
     (\<forall>t\<in>set (de_pending_inject e). t_dma_req_id (ts_txn m' t) = t_dma_req_id (ts_txn m t)) \<Longrightarrow>
     dma_reach taken m' e"

lemma dma_inject_low:
  "dma_inject m ts (l2, e) = Some (l2', e') \<Longrightarrow> de_pending_inject e = ts \<Longrightarrow>
    set (de_pending_inject e') \<subseteq> set (de_pending_inject e)"
proof (induction ts arbitrary: l2 e)
  case (Cons t ts)
  show ?case
  proof (cases "de_in_flight e \<ge> de_max_in_flight e \<or> \<not> willAcceptTransaction m (Some t) l2")
    case True
    then show ?thesis using Cons.prems(1) by (auto split: if_splits)
  next
    case False
    let ?e2 = "note_issued (t_dma_req_id (ts_txn m t))
      (e\<lparr>de_pending_inject := ts, de_in_flight := de_in_flight e + 1\<rparr>)"
    obtain l3 where "dma_inject m ts (l3, ?e2) = Some (l2', e')"
      using Cons.prems(1) False by (auto split: bind_splits)
    from Cons.IH [OF this] Cons.prems(2) show ?thesis by auto
  qed
qed simp

lemma dma_pending_inject_simps [simp]:
  "de_pending_inject (dma_zero_done now zs e) = de_pending_inject e"
  "de_pending_inject (dma_fallback_issue now ts e) = de_pending_inject e"
  "de_pending_inject (dma_bus now rs e) = de_pending_inject e"
  "de_pending_inject (dma_complete now cs e) = de_pending_inject e"
proof -
  show "de_pending_inject (dma_zero_done now zs e) = de_pending_inject e"
    by (induction now zs e rule: dma_zero_done.induct) (auto simp: Let_def split: option.splits)
  show "de_pending_inject (dma_fallback_issue now ts e) = de_pending_inject e"
    by (induction now ts e rule: dma_fallback_issue.induct) (auto simp: Let_def)
  show "de_pending_inject (dma_bus now rs e) = de_pending_inject e"
    by (induction now rs e rule: dma_bus.induct) (auto simp: Let_def)
  show "de_pending_inject (dma_complete now cs e) = de_pending_inject e"
    by (induction now cs e rule: dma_complete.induct) auto
qed

lemma dma_retire_inject [simp]: "de_pending_inject (dma_retire now e) = de_pending_inject e"
  by (induction now e rule: dma_retire.induct) (subst dma_retire.simps, simp add: Let_def)

lemma dma_cycle_low:
  assumes "dma_cycle now (m, l2, e) = Some (l2', e')"
  shows "set (de_pending_inject e') \<subseteq> set (de_pending_inject e)"
  using assms dma_inject_low [of m "de_pending_inject e" l2 e]
  by (auto simp: dma_cycle_def Let_def split: bind_splits if_splits)

lemma dma_reach_inv:
  "dma_reach taken m e \<Longrightarrow> dma_inv taken m e \<and> (\<forall>t\<in>set (de_pending_inject e). t < ts_next m)"
proof (induction rule: dma_reach.induct)
  case (dma_start e m)
  then show ?case by (simp add: dma_inv_def dma_ledger_def ledger_def)
next
  case (dma_do_submit taken m e cmd op0 a bytes r now rid m' e')
  then show ?case
    using dma_submit_keeps [OF _ dma_do_submit(2) _ dma_do_submit(3)] by simp
next
  case (dma_do_cycle taken m e now l2 l2' e')
  then show ?case using inv.cycle dma_cycle_low by blast
next
  case (dma_do_recv taken m e t e')
  then have "de_inflight e' = de_inflight e \<and> de_next_req_id e' = de_next_req_id e \<and> de_completed e' = de_completed e \<and>
    de_pending_zero e' = de_pending_zero e \<and> de_pending_inject e' = de_pending_inject e \<and>
    de_pending_fallback e' = de_pending_fallback e"
    by (auto simp: dma_recvResponse_def)
  with dma_do_recv show ?case using dma_inv_quiet [of taken m e e'] by auto
next
  case (dma_do_take taken m e cs e')
  then have e': "e' = e\<lparr>de_completed := []\<rparr>" "cs = de_completed e" by (simp_all add: take_completed_def)
  then have "id_ok e' = id_ok e" by (simp add: id_ok_def fun_eq_iff)
  with dma_do_take.IH show ?case by (simp add: dma_inv_def dma_ledger_def e')
next
  case (dma_env taken m e m')
  then show ?case by (fastforce simp: dma_inv_def)
qed

section \<open>Bursts cover the transfer\<close>

lemma burst_count_nat:
  assumes "0 < unat burst" "unat bytes + unat burst < 2 ^ 64"
  shows "unat (burst_count burst bytes) = (unat bytes + unat burst - 1) div unat burst"
proof -
  have u: "unat (ucast burst :: u64) = unat burst" by (rule unat_ucast_32_64)
  have "unat (bytes + ucast burst) = unat bytes + unat burst"
    using assms(2) by (simp add: unat_word_ariths u)
  moreover have "unat (x - 1) = unat x - 1" if "0 < unat x" for x :: u64
    using that by (metis unat_minus_one unat_0 less_irrefl)
  ultimately have "unat (bytes + ucast burst - 1) = unat bytes + unat burst - 1"
    using assms(1) by simp
  then show ?thesis by (simp add: burst_count_def unat_div u)
qed

lemma burst_index:
  assumes "0 < b" "i < (B + b - 1) div b"
  shows "i * b < (B :: nat)"
proof -
  have "i * b + b \<le> B + b - 1"
    using assms by (metis Suc_leI Suc_mult_le_cancel1 add.commute div_times_less_eq_dividend le_trans
        mult_Suc mult_le_mono1)
  with assms(1) show ?thesis by linarith
qed

lemma burst_bytes:
  assumes "0 < unat burst" "unat bytes + unat burst < 2 ^ 64"
    "i < (unat bytes + unat burst - 1) div unat burst"
  shows "dt_addr (fallback_burst rid burst a bytes i) = a + of_nat (i * unat burst)"
    and "unat (dt_bytes (fallback_burst rid burst a bytes i)) = min (unat burst) (unat bytes - i * unat burst)"
proof -
  let ?b = "unat burst" and ?B = "unat bytes"
  let ?off = "of_nat i * ucast burst :: u64"
  have lt: "i * ?b < ?B" by (rule burst_index [OF assms(1,3)])
  have u: "unat (ucast burst :: u64) = ?b" by (rule unat_ucast_32_64)
  have "ucast burst = (of_nat ?b :: u64)" by simp
  then have offn: "?off = of_nat (i * ?b)" by simp
  have off: "unat ?off = i * ?b"
  proof -
    have "i * ?b < 2 ^ 64" using lt assms(2) by simp
    then have "take_bit LENGTH(64) (i * ?b) = i * ?b" by (intro take_bit_nat_eq_self) simp
    then show ?thesis unfolding offn unsigned_of_nat by (simp only: of_nat_id)
  qed
  have sum: "unat (?off + ucast burst) = i * ?b + ?b"
  proof -
    have gen: "unat (x + y) = unat x + unat y" if "unat x + unat y < 2 ^ 64" for x y :: u64
      using that by (simp add: unat_word_ariths)
    have "unat ?off + unat (ucast burst :: u64) < 2 ^ 64"
      unfolding off u using assms(2) lt by linarith
    from gen [OF this] show ?thesis unfolding off u .
  qed
  show "dt_addr (fallback_burst rid burst a bytes i) = a + of_nat (i * ?b)"
    unfolding fallback_burst_def Let_def offn by simp
  show "unat (dt_bytes (fallback_burst rid burst a bytes i)) = min ?b (?B - i * ?b)"
  proof (cases "?off + ucast burst > bytes")
    case True
    then have le: "?B - i * ?b < ?b" using lt by (simp add: word_less_nat_alt sum)
    have "?off \<le> bytes" using lt by (simp add: word_le_nat_alt off)
    then have "unat (bytes - ?off) = ?B - i * ?b" by (simp add: unat_sub off)
    moreover have "?b < 2 ^ 32" by (rule order_less_le_trans [OF unsigned_less]) simp
    ultimately have "unat (ucast (bytes - ?off) :: u32) = ?B - i * ?b"
      using le by (simp add: unsigned_ucast_eq take_bit_nat_eq_self)
    then show ?thesis using True le by (simp add: fallback_burst_def Let_def)
  next
    case False
    then have "?b \<le> ?B - i * ?b" using lt by (simp add: word_less_nat_alt sum)
    then show ?thesis using False by (simp add: fallback_burst_def Let_def)
  qed
qed

lemma sum_min_chunks:
  assumes "0 < (b :: nat)"
  shows "(\<Sum>i<n. min b (B - i * b)) = min (n * b) B"
  by (induction n) (auto simp: min_def)

section \<open>The window of outstanding bursts\<close>

lemma dma_inject_window:
  assumes "dma_inject m ts (l2, e) = Some (l2', e')" "de_in_flight e \<le> de_max_in_flight e"
  shows "de_in_flight e' \<le> de_max_in_flight e' \<and> de_max_in_flight e' = de_max_in_flight e"
  using assms
proof (induction ts arbitrary: l2 e)
  case (Cons t ts)
  show ?case
  proof (cases "de_in_flight e \<ge> de_max_in_flight e \<or> \<not> willAcceptTransaction m (Some t) l2")
    case True
    then show ?thesis using Cons.prems by (auto split: if_splits)
  next
    case False
    let ?e2 = "note_issued (t_dma_req_id (ts_txn m t))
      (e\<lparr>de_pending_inject := ts, de_in_flight := de_in_flight e + 1\<rparr>)"
    obtain l3 where l3: "dma_inject m ts (l3, ?e2) = Some (l2', e')"
      using Cons.prems(1) False by (auto split: bind_splits)
    have "de_in_flight e + 1 \<le> de_max_in_flight e" using False by (simp add: inc_le not_le)
    with Cons.IH [OF l3] show ?thesis by auto
  qed
qed simp

text \<open>In fallback mode the count is exactly the number of bursts the memory model holds.\<close>

definition window_ok :: "dma_engine \<Rightarrow> bool" where
  "window_ok e \<longleftrightarrow> unat (de_in_flight e) = length (de_pending_txns e) \<and> de_in_flight e \<le> de_max_in_flight e"

lemma length_pq_push: "length (pq_push key x v) = Suc (length v)"
  using mset_pq_push [of key x v] by (metis size_add_mset size_mset)

lemma length_pq_pop_eq:
  assumes "v \<noteq> []" "is_heap key v"
  shows "Suc (length (pq_pop key v)) = length v"
  using heap.elems_pop [OF assms(2)] assms(1) by (metis mset_zero_iff size_add_mset size_mset)

lemma dma_fallback_window:
  "window_ok e \<Longrightarrow> is_heap dt_ready_cycle (de_pending_txns e) \<Longrightarrow>
    window_ok (dma_fallback_issue now ts e) \<and> is_heap dt_ready_cycle (de_pending_txns (dma_fallback_issue now ts e)) \<and>
    de_max_in_flight (dma_fallback_issue now ts e) = de_max_in_flight e"
proof (induction now ts e rule: dma_fallback_issue.induct)
  case (2 now t ts e)
  show ?case
  proof (cases "de_in_flight e \<ge> de_max_in_flight e \<or> de_next_dram_issue_cycle e > now")
    case False
    then have now: "max now (de_next_dram_issue_cycle e) = now" by (simp add: not_less max_absorb1)
    let ?e1 = "e\<lparr>de_pending_fallback := ts, de_pending_txns := pq_push dt_ready_cycle
        (t\<lparr>dt_ready_cycle := now + de_base_latency e\<rparr>) (de_pending_txns e),
        de_in_flight := de_in_flight e + 1, de_next_dram_issue_cycle := now + 1\<rparr>"
    have lt: "de_in_flight e < de_max_in_flight e" using False by (simp add: not_le)
    then have "Suc (unat (de_in_flight e)) < 2 ^ 32"
    proof -
      have "unat (de_max_in_flight e) < 2 ^ 32" by (rule order_less_le_trans [OF unsigned_less]) simp
      then show ?thesis using lt by (simp add: word_less_nat_alt)
    qed
    then have "unat (de_in_flight e + 1) = Suc (unat (de_in_flight e))"
      by (simp add: unat_word_ariths)
    then have "window_ok (note_issued (dt_req_id t) ?e1)"
      using "2.prems"(1) inc_le [OF lt] by (simp add: window_ok_def length_pq_push)
    moreover have "is_heap dt_ready_cycle (de_pending_txns (note_issued (dt_req_id t) ?e1))"
      using "2.prems"(2) by (simp add: pq_push_heap)
    ultimately show ?thesis
      using "2.IH" False by (simp add: Let_def now)
  qed (use "2.prems" in auto)
qed simp

lemma dma_retire_window:
  "window_ok e \<Longrightarrow> is_heap dt_ready_cycle (de_pending_txns e) \<Longrightarrow>
    window_ok (dma_retire now e) \<and> is_heap dt_ready_cycle (de_pending_txns (dma_retire now e)) \<and>
    de_max_in_flight (dma_retire now e) = de_max_in_flight e"
proof (induction now e rule: dma_retire.induct)
  case (1 now e)
  let ?q = "de_pending_txns e"
  show ?case
  proof (cases "?q = [] \<or> dt_ready_cycle (pq_top ?q) > now")
    case True
    then show ?thesis using "1.prems" by (auto simp: dma_retire.simps [of now e] Let_def)
  next
    case False
    let ?e1 = "e\<lparr>de_incoming := de_incoming e @ [dt_req_id (pq_top ?q)],
       de_pending_txns := pq_pop dt_ready_cycle ?q, de_in_flight := de_in_flight e - 1\<rparr>"
    have len: "Suc (length (pq_pop dt_ready_cycle ?q)) = length ?q"
      using length_pq_pop_eq "1.prems"(2) False by blast
    then have "de_in_flight e \<noteq> 0" using "1.prems"(1) by (auto simp: window_ok_def)
    then have dec: "unat (de_in_flight e - 1) = unat (de_in_flight e) - 1" by (rule unat_minus_one)
    then have "de_in_flight e - 1 \<le> de_in_flight e" by (simp add: word_le_nat_alt)
    then have "window_ok ?e1"
      using "1.prems"(1) len dec by (auto simp: window_ok_def)
    moreover have "is_heap dt_ready_cycle (de_pending_txns ?e1)"
      using heap.inv_pop [OF "1.prems"(2)] False by simp
    ultimately show ?thesis
      using "1.IH" False by (simp add: dma_retire.simps [of now e] Let_def)
  qed
qed

lemma dma_tail_window:
  "de_in_flight (dma_zero_done now zs e) = de_in_flight e" "de_max_in_flight (dma_zero_done now zs e) = de_max_in_flight e"
  "de_in_flight (dma_bus now rs e) = de_in_flight e" "de_max_in_flight (dma_bus now rs e) = de_max_in_flight e"
  "de_pending_txns (dma_bus now rs e) = de_pending_txns e"
  "de_in_flight (dma_complete now cs e) = de_in_flight e" "de_max_in_flight (dma_complete now cs e) = de_max_in_flight e"
  "de_pending_txns (dma_complete now cs e) = de_pending_txns e"
proof -
  show "de_in_flight (dma_zero_done now zs e) = de_in_flight e" "de_max_in_flight (dma_zero_done now zs e) = de_max_in_flight e"
    by (induction now zs e rule: dma_zero_done.induct; simp add: Let_def split: option.split)+
  show "de_in_flight (dma_bus now rs e) = de_in_flight e" "de_max_in_flight (dma_bus now rs e) = de_max_in_flight e"
    "de_pending_txns (dma_bus now rs e) = de_pending_txns e"
    by (induction now rs e rule: dma_bus.induct; simp add: Let_def)+
  show "de_in_flight (dma_complete now cs e) = de_in_flight e" "de_max_in_flight (dma_complete now cs e) = de_max_in_flight e"
    "de_pending_txns (dma_complete now cs e) = de_pending_txns e"
    by (induction now cs e rule: dma_complete.induct; simp)+
qed

section \<open>A transfer of no bytes without an L2\<close>

text \<open>Nothing that fallback mode processes mentions the request.\<close>

definition unmentioned :: "u64 \<Rightarrow> dma_engine \<Rightarrow> bool" where
  "unmentioned rid e \<longleftrightarrow> \<not> de_has_l2 e \<and> map_of (de_inflight e) rid \<noteq> None \<and>
     rid \<notin> dt_req_id ` set (de_pending_fallback e) \<and> rid \<notin> dt_req_id ` set (de_pending_txns e) \<and>
     rid \<notin> set (de_incoming e) \<and> rid \<notin> fst ` set (de_scheduled e)"

lemma note_issued_inflight: "map_of (de_inflight (note_issued k e)) rid = None \<longleftrightarrow> map_of (de_inflight e) rid = None"
  by (auto simp: note_issued_def Let_def AList.map_of_map_entry split: option.split)

lemma finish_burst_inflight:
  "rid \<noteq> k \<Longrightarrow> map_of (de_inflight (finish_burst k e)) rid = map_of (de_inflight e) rid"
  by (auto simp: finish_burst_def Let_def AList.map_of_map_entry AList.delete_conv split: option.split)

lemma unmentioned_fallback: "unmentioned rid e \<Longrightarrow> de_pending_fallback e = ts \<Longrightarrow> unmentioned rid (dma_fallback_issue now ts e)"
proof (induction now ts e rule: dma_fallback_issue.induct)
  case (2 now t ts e)
  show ?case
  proof (cases "de_in_flight e \<ge> de_max_in_flight e \<or> de_next_dram_issue_cycle e > now")
    case False
    then have now: "max now (de_next_dram_issue_cycle e) = now" by (simp add: not_less max_absorb1)
    let ?e1 = "e\<lparr>de_pending_fallback := ts, de_pending_txns := pq_push dt_ready_cycle
        (t\<lparr>dt_ready_cycle := now + de_base_latency e\<rparr>) (de_pending_txns e),
        de_in_flight := de_in_flight e + 1, de_next_dram_issue_cycle := now + 1\<rparr>"
    have "unmentioned rid (note_issued (dt_req_id t) ?e1)"
      using "2.prems" by (simp add: unmentioned_def note_issued_inflight set_pq_push)
    then show ?thesis using "2.IH" False by (simp add: Let_def now)
  qed (use "2.prems" in auto)
qed simp

lemma unmentioned_retire:
  "unmentioned rid e \<Longrightarrow> is_heap dt_ready_cycle (de_pending_txns e) \<Longrightarrow> unmentioned rid (dma_retire now e)"
proof (induction now e rule: dma_retire.induct)
  case (1 now e)
  let ?q = "de_pending_txns e"
  show ?case
  proof (cases "?q = [] \<or> dt_ready_cycle (pq_top ?q) > now")
    case False
    have "add_mset (pq_top ?q) (mset (pq_pop dt_ready_cycle ?q)) = mset ?q" "is_heap dt_ready_cycle (pq_pop dt_ready_cycle ?q)"
      using heap.elems_pop [OF "1.prems"(2)] heap.inv_pop [OF "1.prems"(2)] False by simp_all
    moreover from this(1) have "set ?q = insert (pq_top ?q) (set (pq_pop dt_ready_cycle ?q))"
      by (metis set_mset_add_mset_insert set_mset_mset)
    ultimately show ?thesis
      using "1.IH" "1.prems"(1) False by (auto simp: dma_retire.simps [of now e] Let_def unmentioned_def)
  qed (use "1.prems" in \<open>auto simp: dma_retire.simps [of now e] Let_def\<close>)
qed

lemma unmentioned_bus: "unmentioned rid e \<Longrightarrow> de_incoming e = rs \<Longrightarrow> unmentioned rid (dma_bus now rs e)"
proof (induction now rs e rule: dma_bus.induct)
  case (2 now k rs e)
  let ?f = "max now (de_next_free_cycle e) + bus_delay e"
  have "unmentioned rid (e\<lparr>de_incoming := rs, de_next_free_cycle := ?f, de_scheduled := de_scheduled e @ [(k, ?f)]\<rparr>)"
    using "2.prems" by (auto simp: unmentioned_def)
  with "2.IH" show ?case by (simp add: Let_def)
qed simp

lemma unmentioned_complete: "unmentioned rid e \<Longrightarrow> de_scheduled e = cs \<Longrightarrow> unmentioned rid (dma_complete now cs e)"
proof (induction now cs e rule: dma_complete.induct)
  case (2 now k t cs e)
  have "unmentioned rid (finish_burst k (e\<lparr>de_scheduled := cs\<rparr>))"
    using "2.prems" finish_burst_inflight [of rid k "e\<lparr>de_scheduled := cs\<rparr>"] by (auto simp: unmentioned_def)
  with "2.IH" "2.prems" show ?case by simp
qed simp

lemma fallback_cycle:
  assumes "\<not> de_has_l2 e"
  shows "dma_cycle now (m, l2, e) = Some (l2, (let e1 = dma_retire now (dma_fallback_issue now (de_pending_fallback e) e);
      e2 = dma_bus now (de_incoming e1) e1 in dma_complete now (de_scheduled e2) e2))"
  using assms by (simp add: dma_cycle_def Let_def)

lemma fallback_cycle_heap:
  assumes "\<not> de_has_l2 e" "window_ok e" "is_heap dt_ready_cycle (de_pending_txns e)"
    "dma_cycle now (m, l2, e) = Some (l2', e')"
  shows "window_ok e' \<and> is_heap dt_ready_cycle (de_pending_txns e') \<and> de_max_in_flight e' = de_max_in_flight e"
  using assms(4) dma_fallback_window [OF assms(2,3), of now "de_pending_fallback e"]
    dma_retire_window [of "dma_fallback_issue now (de_pending_fallback e) e" now]
  by (auto simp: fallback_cycle [OF assms(1)] Let_def window_ok_def dma_tail_window)

lemma unmentioned_cycle:
  assumes "unmentioned rid e" "window_ok e" "is_heap dt_ready_cycle (de_pending_txns e)"
    "dma_cycle now (m, l2, e) = Some (l2', e')"
  shows "unmentioned rid e'"
proof -
  let ?e0 = "dma_fallback_issue now (de_pending_fallback e) e"
  have l2: "\<not> de_has_l2 e" using assms(1) by (simp add: unmentioned_def)
  have "unmentioned rid (dma_retire now ?e0)"
    using unmentioned_fallback [OF assms(1) refl, of now] dma_fallback_window [OF assms(2,3), of now "de_pending_fallback e"]
    by (intro unmentioned_retire) auto
  then show ?thesis
    using assms(4) unmentioned_bus unmentioned_complete
    by (auto simp: fallback_cycle [OF l2] Let_def)
qed

fun dma_cycles :: "u32 list \<Rightarrow> txn_store \<times> cache \<times> dma_engine \<Rightarrow> dma_engine option" where
  "dma_cycles [] (m, l2, e) = Some e"
| "dma_cycles (t # ts) (m, l2, e) = dma_cycle t (m, l2, e) \<bind> (\<lambda>(l2', e'). dma_cycles ts (m, l2', e'))"

lemma unmentioned_cycles:
  "unmentioned rid e \<Longrightarrow> window_ok e \<Longrightarrow> is_heap dt_ready_cycle (de_pending_txns e) \<Longrightarrow>
    \<exists>e'. dma_cycles ts (m, l2, e) = Some e' \<and> unmentioned rid e'"
proof (induction ts arbitrary: l2 e)
  case (Cons t ts)
  have "\<not> de_has_l2 e" using Cons.prems(1) by (simp add: unmentioned_def)
  then obtain e1 where c: "dma_cycle t (m, l2, e) = Some (l2, e1)" using fallback_cycle by blast
  show ?case
    using Cons.IH [of e1 l2] unmentioned_cycle [OF Cons.prems c]
      fallback_cycle_heap [OF \<open>\<not> de_has_l2 e\<close> Cons.prems(2,3) c] c by simp
qed simp

section \<open>Properties\<close>

text \<open>
  C14. No command is reported complete twice.  Whatever mixture of submissions (of new commands),
  cycles, responses and collections the engine has gone through, in cache-injection and in fallback
  mode, the commands it has reported so far are pairwise different, although a store may complete
  early and its last bursts return later.
\<close>

theorem dma_completes_at_most_once:
  assumes "dma_reach taken m e"
  shows "distinct (taken @ de_completed e)"
  using dma_reach_inv [OF assms] by (simp add: dma_inv_def dma_ledger_def ledger_def)

theorem dma_completes_at_most_once_witness:
  "\<exists>rid m' e'. dma_submit 7 MOVE_OUT 4096 256 False 0 (demo_store, new_dma) = Some (rid, m', e') \<and>
     distinct ([] @ de_completed e')"
proof -
  have r: "dma_reach [] demo_store new_dma" by (rule dma_start) (simp_all add: new_dma_def)
  obtain rid m' e' where s: "dma_submit 7 MOVE_OUT 4096 256 False 0 (demo_store, new_dma) = Some (rid, m', e')"
    by (simp add: dma_submit_def Let_def enqueue_bursts_def new_dma_def)
  have "fresh_cmd [] new_dma 7" by (simp add: fresh_cmd_def new_dma_def)
  from dma_completes_at_most_once [OF dma_do_submit [OF r this s]] s show ?thesis by blast
qed

text \<open>
  The bursts of a request cover its transfer exactly: there are as many as the byte count needs,
  burst \<open>i\<close> starts \<open>i\<close> bursts after the base address, all but the last are full, and their sizes add
  up to the byte count; as long as byte count plus burst size fits the counter.
\<close>

theorem dma_bursts_cover_transfer:
  assumes "0 < unat burst" "unat bytes + unat burst < 2 ^ 64"
  shows "(\<forall>i<unat (burst_count burst bytes).
      dt_addr (fallback_burst rid burst a bytes i) = a + of_nat (i * unat burst) \<and>
      unat (dt_bytes (fallback_burst rid burst a bytes i)) = min (unat burst) (unat bytes - i * unat burst) \<and>
      0 < unat (dt_bytes (fallback_burst rid burst a bytes i))) \<and>
    (\<Sum>i<unat (burst_count burst bytes). unat (dt_bytes (fallback_burst rid burst a bytes i))) = unat bytes"
proof -
  let ?b = "unat burst" and ?B = "unat bytes" and ?n = "unat (burst_count burst bytes)"
  have n: "?n = (?B + ?b - 1) div ?b" by (rule burst_count_nat [OF assms])
  have size: "unat (dt_bytes (fallback_burst rid burst a bytes i)) = min ?b (?B - i * ?b)" if "i < ?n" for i
    using burst_bytes(2) [OF assms] that by (simp add: n)
  have "(\<Sum>i<?n. unat (dt_bytes (fallback_burst rid burst a bytes i))) = (\<Sum>i<?n. min ?b (?B - i * ?b))"
    using size by (intro sum.cong) auto
  also have "\<dots> = ?B"
    using sum_min_chunks [OF assms(1), of ?B ?n] ceil_div_covers [OF assms(1), of ?B] n by simp
  finally show ?thesis
    using burst_bytes(1) [OF assms] size burst_index [OF assms(1)] assms(1) by (auto simp: n)
qed

theorem dma_bursts_cover_transfer_witness:
  "(\<Sum>i<unat (burst_count 64 200). unat (dt_bytes (fallback_burst 1 64 4096 200 i))) = 200"
proof -
  have "(\<Sum>i<unat (burst_count 64 200). unat (dt_bytes (fallback_burst 1 64 4096 200 i))) = unat (200 :: u64)"
    by (rule conjunct2 [OF dma_bursts_cover_transfer]) simp_all
  then show ?thesis by simp
qed

text \<open>
  Flow control: a cycle never lets the number of bursts in the memory system exceed
  \<open>max_in_flight_mem_reqs\<close>, in either mode; in fallback mode the counter is the number of bursts held
  by the memory model and it never wraps.
\<close>

theorem dma_window_respected:
  assumes "de_in_flight e \<le> de_max_in_flight e" "dma_cycle now (m, l2, e) = Some (l2', e')"
    "\<not> de_has_l2 e \<longrightarrow> window_ok e \<and> is_heap dt_ready_cycle (de_pending_txns e)"
  shows "de_in_flight e' \<le> de_max_in_flight e' \<and> de_max_in_flight e' = de_max_in_flight e \<and>
    (\<not> de_has_l2 e \<longrightarrow> window_ok e' \<and> is_heap dt_ready_cycle (de_pending_txns e'))"
proof (cases "de_has_l2 e")
  case True
  then show ?thesis
    using assms(2) dma_inject_window [OF _ assms(1), of m "de_pending_inject e" l2]
    by (auto simp: dma_cycle_def Let_def dma_tail_window split: bind_splits)
next
  case False
  with fallback_cycle_heap [OF False _ _ assms(2)] assms(3) show ?thesis
    by (auto simp: window_ok_def)
qed

theorem dma_window_respected_witness:
  "\<exists>e'. dma_cycle 5 (demo_store, new_cache 2 False 1 64 4096 4 1 4 4, new_dma)
     = Some (new_cache 2 False 1 64 4096 4 1 4 4, e') \<and> de_in_flight e' \<le> 16"
proof -
  have a: "\<not> de_has_l2 new_dma" "window_ok new_dma" "is_heap dt_ready_cycle (de_pending_txns new_dma)"
    "de_in_flight new_dma \<le> de_max_in_flight new_dma" "de_max_in_flight new_dma = 16"
    by (simp_all add: new_dma_def window_ok_def)
  from fallback_cycle [OF a(1)] obtain e' where
    "dma_cycle 5 (demo_store, new_cache 2 False 1 64 4096 4 1 4 4, new_dma)
     = Some (new_cache 2 False 1 64 4096 4 1 4 4, e')" by blast
  with dma_window_respected [OF a(4) this] a show ?thesis by auto
qed

text \<open>
  C40. Without an L2 a transfer of zero bytes stays in flight for ever: submitted under an identifier that is
  not in use, it is still among the requests in flight after any number of cycles of the engine, and none of
  these cycles aborts.  (The comment in the source says that the completion of such a transfer does not depend
  on the mode.)
\<close>

theorem dma_zero_bytes_never_completes:
  assumes "\<not> de_has_l2 e" "window_ok e" "is_heap dt_ready_cycle (de_pending_txns e)"
    "dma_submit cmd op0 a 0 r now (m, e) = Some (rid, m', e')"
    "rid \<notin> dt_req_id ` set (de_pending_fallback e)" "rid \<notin> dt_req_id ` set (de_pending_txns e)"
    "rid \<notin> set (de_incoming e)" "rid \<notin> fst ` set (de_scheduled e)"
  shows "\<exists>e''. dma_cycles ts (m', l2, e') = Some e'' \<and> has_inflight e'' \<and> map_of (de_inflight e'') rid \<noteq> None"
proof -
  have "unmentioned rid e' \<and> window_ok e' \<and> is_heap dt_ready_cycle (de_pending_txns e')"
    using assms by (auto simp: dma_submit_def enqueue_bursts_def Let_def unmentioned_def window_ok_def)
  then obtain e'' where "dma_cycles ts (m', l2, e') = Some e''" "unmentioned rid e''"
    using unmentioned_cycles by blast
  then show ?thesis by (auto simp: unmentioned_def has_inflight_def)
qed

theorem dma_zero_bytes_never_completes_witness:
  "\<exists>m' e' e''. dma_submit 7 MOVE_IN 4096 0 True 0 (demo_store, new_dma) = Some (1, m', e') \<and>
     dma_cycles [1, 2, 3] (m', new_cache 2 False 1 64 4096 4 1 4 4, e') = Some e'' \<and> has_inflight e''"
proof -
  obtain m' e' where s: "dma_submit 7 MOVE_IN 4096 0 True 0 (demo_store, new_dma) = Some (1, m', e')"
    by (simp add: dma_submit_def Let_def enqueue_bursts_def new_dma_def)
  have "\<exists>e''. dma_cycles [1, 2, 3] (m', new_cache 2 False 1 64 4096 4 1 4 4, e') = Some e'' \<and> has_inflight e'' \<and>
      map_of (de_inflight e'') 1 \<noteq> None"
    by (rule dma_zero_bytes_never_completes [OF _ _ _ s]) (simp_all add: new_dma_def window_ok_def)
  with s show ?thesis by blast
qed

end
