(* ===== verification/TagePredictor.thy ===== *)
theory TagePredictor
  imports Prelude
begin

text \<open>
  The TAGE branch predictor of \<open>tage/tage_branch_predictor.cpp\<close>, its header and the bimodal
  base table of \<open>tage/tage_base_predictor.h\<close>.  A vector of the class is a list (entry 0 of
  the 1-indexed vectors is the unused entry the code allocates), the global history
  \<open>std::bitset<257>\<close> is a 257-bit word, and the generator seed, a file-scope static of the
  code, is a field of the state.  \<open>int8_t ctr\<close> is an \<open>int\<close>, stored through \<open>int8\<close>.
\<close>

section \<open>Data\<close>

definition kMaxHistLen :: nat where
  "kMaxHistLen = 256"

type_synonym history_t = "257 word"

record tage_table_info =
  nSets :: u32
  histLen :: u32
  tagBits :: u32

record tage_params =
  ctrBits :: nat
  uBitPeriod :: u32
  pathHistBits :: nat
  tableInfo :: "tage_table_info list"

record folded_history =
  comp :: u32
  CLENGTH :: nat
  OLENGTH :: nat
  OUTPOINT :: nat

record tagged_entry =
  ctr :: int
  tag :: u16
  uCtr :: nat

record tage =
  altOnNewAlloc :: int
  brCtr :: u64
  pHist :: u32
  gHist :: history_t
  params :: tage_params
  histIndex :: "folded_history list"
  histTag0 :: "folded_history list"
  histTag1 :: "folded_history list"
  T :: "tagged_entry list list"
  basePredictor :: "nat list"
  histLength :: "nat list"
  tagWidth :: "nat list"
  idxBits :: "nat list"
  idxMask :: "u32 list"
  tagMask :: "u16 list"
  providerComp :: nat
  altComp :: nat
  providerPred :: bool
  altPred :: bool
  GI :: "u32 list"
  GTAG :: "u16 list"
  g_seed :: u32

section \<open>Folded histories\<close>

definition folded_history_new :: folded_history where
  "folded_history_new = \<lparr>comp = 0, CLENGTH = 0, OLENGTH = 0, OUTPOINT = 0\<rparr>"

definition fh_init :: "nat \<Rightarrow> nat \<Rightarrow> folded_history option" where
  "fh_init original_length compressed_length = do {
     assert_that (original_length \<le> kMaxHistLen);
     assert_that (0 < compressed_length);
     assert_that (compressed_length \<le> 31);
     Some \<lparr>comp = 0, CLENGTH = compressed_length, OLENGTH = original_length,
           OUTPOINT = original_length mod compressed_length\<rparr> }"

definition fh_update :: "history_t \<Rightarrow> folded_history \<Rightarrow> folded_history" where
  "fh_update h f =
     (let c1 = push_bit 1 (comp f) OR of_bool (bit h 0);
          c2 = c1 XOR push_bit (OUTPOINT f) (of_bool (bit h (OLENGTH f)));
          c3 = c2 XOR drop_bit (CLENGTH f) c2
      in f\<lparr>comp := c3 AND (push_bit (CLENGTH f) 1 - 1)\<rparr>)"

section \<open>Table entries\<close>

definition tagged_entry_new :: tagged_entry where
  "tagged_entry_new = \<lparr>ctr = 0, tag = 0, uCtr = 0\<rparr>"

definition int8 :: "int \<Rightarrow> int" where
  "int8 x = sint (word_of_int x :: u8)"

definition ctrUpdate :: "bool \<Rightarrow> nat \<Rightarrow> tagged_entry \<Rightarrow> tagged_entry" where
  "ctrUpdate actual nbits e =
     (let max_val = int8 (2 ^ (nbits - 1) - 1);
          min_val = int8 (- int8 (2 ^ (nbits - 1)))
      in if actual
         then (if ctr e < max_val then e\<lparr>ctr := int8 (ctr e + 1)\<rparr> else e)
         else (if ctr e > min_val then e\<lparr>ctr := int8 (ctr e - 1)\<rparr> else e))"

text \<open>The increment and the decrement of a \<open>uint8_t\<close>, which wrap.\<close>

definition u8_inc :: "nat \<Rightarrow> nat" where
  "u8_inc n = (n + 1) mod 256"

definition u8_dec :: "nat \<Rightarrow> nat" where
  "u8_dec n = (n + 255) mod 256"

definition uCtrUpdate :: "bool \<Rightarrow> bool \<Rightarrow> bool \<Rightarrow> tagged_entry \<Rightarrow> tagged_entry" where
  "uCtrUpdate actual provider_pred alt_pred e =
     (if provider_pred \<noteq> alt_pred
      then (if provider_pred = actual
            then (if uCtr e < 3 then e\<lparr>uCtr := u8_inc (uCtr e)\<rparr> else e)
            else (if uCtr e > 0 then e\<lparr>uCtr := u8_dec (uCtr e)\<rparr> else e))
      else e)"

definition uCtrPeriodicReset :: "u64 \<Rightarrow> u32 \<Rightarrow> tagged_entry list \<Rightarrow> tagged_entry list" where
  "uCtrPeriodicReset br_ctr u_bit_period entry =
     (if u_bit_period = 0 then entry
      else if br_ctr AND (ucast u_bit_period - 1) = 0
      then map (\<lambda>e. e\<lparr>uCtr := uCtr e div 2\<rparr>) entry
      else entry)"

section \<open>The base predictor\<close>

definition base_entries :: nat where
  "base_entries = 8192"

definition base_index :: "u64 \<Rightarrow> nat" where
  "base_index ip = unat ((ucast ip :: u32) AND (of_nat base_entries - 1))"

definition base_new :: "nat list" where
  "base_new = replicate base_entries 2"

definition base_predict :: "u64 \<Rightarrow> nat list \<Rightarrow> bool" where
  "base_predict ip tbl = bit (tbl ! base_index ip) 1"

definition base_update :: "bool \<Rightarrow> u64 \<Rightarrow> nat list \<Rightarrow> nat list" where
  "base_update actual ip tbl =
     (let index = base_index ip; v = tbl ! index mod 4
      in tbl[index := (if actual then (if v < 3 then u8_inc v else v)
                       else (if v > 0 then u8_dec v else v))])"

section \<open>Construction\<close>

definition nTables :: "tage \<Rightarrow> nat" where
  "nTables t = length (tableInfo (params t))"

definition table_ok :: "tage_table_info \<Rightarrow> bool" where
  "table_ok ti \<longleftrightarrow> nSets ti \<noteq> 0 \<and> nSets ti AND (nSets ti - 1) = 0
     \<and> 0 < tagBits ti \<and> tagBits ti \<le> 16 \<and> unat (histLen ti) \<le> kMaxHistLen"

fun fh_inits :: "(nat \<times> nat) list \<Rightarrow> folded_history list option" where
  "fh_inits [] = Some []"
| "fh_inits ((l, c) # xs) = do { f \<leftarrow> fh_init l c; fs \<leftarrow> fh_inits xs; Some (f # fs) }"

definition initDerivedTables :: "u32 \<Rightarrow> tage_params \<Rightarrow> tage option" where
  "initDerivedTables seed p = do {
     assert_that (tableInfo p \<noteq> []);
     assert_that (\<forall>ti \<in> set (tableInfo p). table_ok ti);
     let n = length (tableInfo p);
     let hl = map (unat \<circ> histLen) (tableInfo p);
     let tw = map (unat \<circ> tagBits) (tableInfo p);
     let ib = map (ilog2 \<circ> unat \<circ> nSets) (tableInfo p);
     hi \<leftarrow> fh_inits (zip hl ib);
     h0 \<leftarrow> fh_inits (zip hl tw);
     h1 \<leftarrow> fh_inits (zip hl (map (\<lambda>w. w - 1) tw));
     Some \<lparr>altOnNewAlloc = 0, brCtr = 0, pHist = 0, gHist = 0, params = p,
           histIndex = folded_history_new # hi, histTag0 = folded_history_new # h0,
           histTag1 = folded_history_new # h1,
           T = [] # map (\<lambda>ti. replicate (unat (nSets ti)) tagged_entry_new) (tableInfo p),
           basePredictor = base_new, histLength = 0 # hl, tagWidth = 0 # tw, idxBits = 0 # ib,
           idxMask = 0 # map (\<lambda>ti. nSets ti - 1) (tableInfo p),
           tagMask = 0 # map (\<lambda>w. ucast (push_bit w (1 :: u32) - 1)) tw,
           providerComp = 0, altComp = 0, providerPred = False, altPred = False,
           GI = replicate (n + 1) 0, GTAG = replicate (n + 1) 0, g_seed = seed\<rparr> }"

section \<open>Hashes\<close>

definition F_hash :: "u32 \<Rightarrow> nat \<Rightarrow> nat \<Rightarrow> nat \<Rightarrow> u32" where
  "F_hash A len bank bits =
     (let A = (if len < 32 then A AND (push_bit len 1 - 1) else A);
          mask = (if bits = 32 then - 1 else push_bit bits 1 - 1);
          A1 = A AND mask;
          A2 = drop_bit bits A;
          sh = bank mod bits;
          A2 = (push_bit sh A2 AND mask) + drop_bit (bits - sh) A2;
          A = A1 XOR A2
      in (push_bit sh A AND mask) + drop_bit (bits - sh) A)"

definition gIndex :: "tage \<Rightarrow> u64 \<Rightarrow> nat \<Rightarrow> u32" where
  "gIndex t ip b =
     (let bits = idxBits t ! b;
          raw_shift = int bits - (int (nTables t) - int b - 1);
          shift = (if 0 < raw_shift \<and> raw_shift < 64 then nat raw_shift else 0);
          len = min 16 (histLength t ! b);
          idx = ucast ip XOR ucast (drop_bit shift ip) XOR comp (histIndex t ! b)
                XOR F_hash (pHist t) len b bits
      in idx AND idxMask t ! b)"

definition gTag :: "tage \<Rightarrow> u64 \<Rightarrow> nat \<Rightarrow> u16" where
  "gTag t ip b =
     (let tg = ucast ip XOR comp (histTag0 t ! b) XOR push_bit 1 (comp (histTag1 t ! b))
      in ucast tg AND tagMask t ! b)"

section \<open>Prediction\<close>

text \<open>The entry a table's current index selects, and the loop \<open>for (i = n; i >= 1; i--)\<close>.\<close>

definition entry_at :: "tage \<Rightarrow> nat \<Rightarrow> tagged_entry" where
  "entry_at t i = T t ! i ! unat (GI t ! i)"

definition matches :: "tage \<Rightarrow> nat \<Rightarrow> bool" where
  "matches t i \<longleftrightarrow> tag (entry_at t i) = GTAG t ! i"

definition pred_at :: "tage \<Rightarrow> nat \<Rightarrow> bool" where
  "pred_at t i \<longleftrightarrow> 0 \<le> ctr (entry_at t i)"

definition confident :: "tage \<Rightarrow> nat \<Rightarrow> bool" where
  "confident t i \<longleftrightarrow> \<bar>2 * ctr (entry_at t i) + 1\<bar> > 1"

fun find_down :: "(nat \<Rightarrow> bool) \<Rightarrow> nat \<Rightarrow> nat" where
  "find_down P 0 = 0"
| "find_down P (Suc i) = (if P (Suc i) then Suc i else find_down P i)"

definition assign_tables :: "nat \<Rightarrow> (nat \<Rightarrow> 'a) \<Rightarrow> 'a list \<Rightarrow> 'a list" where
  "assign_tables n f xs = map (\<lambda>i. if 1 \<le> i \<and> i \<le> n then f i else xs ! i) [0..<length xs]"

definition lookup_tables :: "u64 \<Rightarrow> tage \<Rightarrow> tage" where
  "lookup_tables ip t =
     t\<lparr>GI := assign_tables (nTables t) (gIndex t ip) (GI t),
       GTAG := assign_tables (nTables t) (gTag t ip) (GTAG t)\<rparr>"

definition choose_components :: "tage \<Rightarrow> tage" where
  "choose_components t =
     (let p = find_down (matches t) (nTables t);
          a = find_down (\<lambda>i. matches t i \<and> (altOnNewAlloc t < 0 \<or> confident t i)) (p - 1)
      in t\<lparr>providerComp := p, altComp := a\<rparr>)"

definition choose_predictions :: "u64 \<Rightarrow> tage \<Rightarrow> tage" where
  "choose_predictions ip t =
     (if providerComp t > 0 then
        let ap = (if altComp t > 0 then pred_at t (altComp t) else base_predict ip (basePredictor t));
            pp = (if altOnNewAlloc t < 0 \<or> confident t (providerComp t)
                     \<or> uCtr (entry_at t (providerComp t)) \<noteq> 0
                  then pred_at t (providerComp t) else ap)
        in t\<lparr>altPred := ap, providerPred := pp\<rparr>
      else let ap = base_predict ip (basePredictor t)
           in t\<lparr>altPred := ap, providerPred := ap\<rparr>)"

definition predict :: "u64 \<Rightarrow> tage \<Rightarrow> bool \<times> tage" where
  "predict ip t = (let t' = choose_predictions ip (choose_components (lookup_tables ip t))
                   in (providerPred t', t'))"

section \<open>Update\<close>

definition next_rand_u32 :: "u32 \<Rightarrow> u32" where
  "next_rand_u32 s = 1103515245 * s + 12345"

definition upd_entry :: "nat \<Rightarrow> (tagged_entry \<Rightarrow> tagged_entry) \<Rightarrow> tage \<Rightarrow> tage" where
  "upd_entry i f t =
     t\<lparr>T := (T t)[i := (T t ! i)[unat (GI t ! i) := f (entry_at t i)]]\<rparr>"

text \<open>Phase 1 of \<open>allocate\<close>: whether to allocate, and the choice counter.\<close>

definition wants_alloc :: "bool \<Rightarrow> tage \<Rightarrow> bool" where
  "wants_alloc actual t \<longleftrightarrow>
     providerPred t \<noteq> actual \<and> providerComp t < nTables t
     \<and> \<not> (providerComp t > 0 \<and> \<not> confident t (providerComp t)
          \<and> pred_at t (providerComp t) = actual)"

definition train_altOnNewAlloc :: "bool \<Rightarrow> tage \<Rightarrow> tage" where
  "train_altOnNewAlloc actual t =
     (if providerComp t > 0 \<and> \<not> confident t (providerComp t)
         \<and> pred_at t (providerComp t) \<noteq> altPred t
      then (if altPred t = actual
            then (if altOnNewAlloc t < 7 then t\<lparr>altOnNewAlloc := altOnNewAlloc t + 1\<rparr> else t)
            else (if altOnNewAlloc t > - 8 then t\<lparr>altOnNewAlloc := altOnNewAlloc t - 1\<rparr> else t))
      else t)"

definition longer_tables :: "tage \<Rightarrow> nat list" where
  "longer_tables t = [providerComp t + 1..<nTables t + 1]"

definition age_entry :: "tagged_entry \<Rightarrow> tagged_entry" where
  "age_entry e = (if uCtr e > 0 then e\<lparr>uCtr := u8_dec (uCtr e)\<rparr> else e)"

definition age_longer :: "tage \<Rightarrow> tage" where
  "age_longer t =
     (let min_u = fold (\<lambda>i m. min m (uCtr (entry_at t i))) (longer_tables t) 3
      in if min_u > 0 then fold (\<lambda>i. upd_entry i age_entry) (longer_tables t) t else t)"

definition new_entry :: "bool \<Rightarrow> u16 \<Rightarrow> tagged_entry" where
  "new_entry actual tg = \<lparr>ctr = (if actual then 0 else - 1), tag = tg, uCtr = 0\<rparr>"

definition candidates :: "tage \<Rightarrow> nat list" where
  "candidates t = filter (\<lambda>i. uCtr (entry_at t i) = 0) (longer_tables t)"

definition allocate :: "bool \<Rightarrow> tage \<Rightarrow> tage" where
  "allocate actual t =
     (let r = next_rand_u32 (g_seed t);
          t0 = t\<lparr>g_seed := r\<rparr>;
          alloc = wants_alloc actual t0;
          t1 = train_altOnNewAlloc actual t0
      in if \<not> alloc then t1
         else let t2 = age_longer t1
              in if candidates t2 = [] then t2
                 else let chosen = candidates t2 ! (unat r mod length (candidates t2))
                      in upd_entry chosen (\<lambda>_. new_entry actual (GTAG t2 ! chosen)) t2)"

definition updateHistory :: "bool \<Rightarrow> u64 \<Rightarrow> tage \<Rightarrow> tage" where
  "updateHistory actual ip t =
     (let h = push_bit 1 (gHist t) OR of_bool actual;
          mask = (if pathHistBits (params t) \<ge> 32 then - 1
                  else push_bit (pathHistBits (params t)) 1 - 1);
          n = nTables t
      in t\<lparr>gHist := h, pHist := (push_bit 1 (pHist t) + ucast (ip AND 1)) AND mask,
           histIndex := assign_tables n (\<lambda>i. fh_update h (histIndex t ! i)) (histIndex t),
           histTag0 := assign_tables n (\<lambda>i. fh_update h (histTag0 t ! i)) (histTag0 t),
           histTag1 := assign_tables n (\<lambda>i. fh_update h (histTag1 t ! i)) (histTag1 t)\<rparr>)"

definition train_base :: "bool \<Rightarrow> u64 \<Rightarrow> tage \<Rightarrow> tage" where
  "train_base actual ip t = t\<lparr>basePredictor := base_update actual ip (basePredictor t)\<rparr>"

definition train_provider :: "bool \<Rightarrow> u64 \<Rightarrow> tage \<Rightarrow> tage" where
  "train_provider actual ip t =
     (let p = providerComp t; nbits = ctrBits (params t)
      in if p > 0 then
           let t1 = upd_entry p (ctrUpdate actual nbits) t;
               t2 = (if uCtr (entry_at t1 p) = 0
                     then (if altComp t1 > 0 then upd_entry (altComp t1) (ctrUpdate actual nbits) t1
                           else train_base actual ip t1)
                     else t1)
           in upd_entry p (uCtrUpdate actual (providerPred t2) (altPred t2)) t2
         else train_base actual ip t)"

definition update :: "bool \<Rightarrow> u64 \<Rightarrow> tage \<Rightarrow> tage" where
  "update actual ip t =
     (let t1 = allocate actual (t\<lparr>brCtr := brCtr t + 1\<rparr>);
          t2 = updateHistory actual ip (train_provider actual ip t1)
      in t2\<lparr>T := assign_tables (nTables t2)
                  (\<lambda>i. uCtrPeriodicReset (brCtr t2) (uBitPeriod (params t2)) (T t2 ! i)) (T t2)\<rparr>)"

section \<open>Folded histories are folds of the history\<close>

definition hist_fold :: "nat \<Rightarrow> nat \<Rightarrow> history_t \<Rightarrow> nat \<Rightarrow> bool" where
  "hist_fold C L h j \<longleftrightarrow> odd (length (filter (\<lambda>i. i mod C = j \<and> bit h i) [0..<L]))"

definition fh_exact :: "history_t \<Rightarrow> folded_history \<Rightarrow> bool" where
  "fh_exact h f \<longleftrightarrow> 0 < CLENGTH f \<and> CLENGTH f \<le> 31 \<and> OLENGTH f \<le> kMaxHistLen
     \<and> OUTPOINT f = OLENGTH f mod CLENGTH f
     \<and> (\<forall>j. bit (comp f) j \<longleftrightarrow> j < CLENGTH f \<and> hist_fold (CLENGTH f) (OLENGTH f) h j)"

definition shift_in :: "bool \<Rightarrow> history_t \<Rightarrow> history_t" where
  "shift_in b h = push_bit 1 h OR of_bool b"

lemma bit_low_mask [simp]: "bit (2 ^ n - 1 :: 'a :: len word) j \<longleftrightarrow> j < n \<and> j < LENGTH('a)"
  by (simp add: mask_eq_exp_minus_1 [symmetric] bit_simps) auto

lemma bit_times_2 [simp]:
  "bit (x * 2 :: 'a :: len word) n \<longleftrightarrow> n < LENGTH('a) \<and> 0 < n \<and> bit x (n - 1)"
  using bit_double_iff [of x n] by (auto simp: mult.commute)

lemma bit_shift_in:
  "i \<le> kMaxHistLen \<Longrightarrow> bit (shift_in b h) i \<longleftrightarrow> (if i = 0 then b else bit h (i - 1))"
  by (cases i) (auto simp: shift_in_def bit_simps kMaxHistLen_def)

lemma hist_fold_0 [simp]: "\<not> hist_fold C 0 h j"
  by (simp add: hist_fold_def)

lemma hist_fold_Suc:
  "hist_fold C (Suc L) h j \<longleftrightarrow> hist_fold C L h j \<noteq> (L mod C = j \<and> bit h L)"
  by (simp add: hist_fold_def)

lemma mod_Suc_rotate:
  assumes "0 < (C :: nat)" "j < C"
  shows "Suc i mod C = j \<longleftrightarrow> i mod C = (if j = 0 then C - 1 else j - 1)"
  using assms by (auto simp: mod_Suc split: if_splits)

lemma hist_fold_shift:
  assumes "0 < C" "j < C" "L \<le> kMaxHistLen"
  shows "hist_fold C (Suc L) (shift_in b h) j \<longleftrightarrow>
           (j = 0 \<and> b) \<noteq> hist_fold C L h (if j = 0 then C - 1 else j - 1)"
  using assms(3)
proof (induction L)
  case 0
  then show ?case using assms(1) by (auto simp: hist_fold_Suc bit_shift_in)
next
  case (Suc L)
  then show ?case
    using mod_Suc_rotate [OF assms(1,2), of L]
    by (auto simp: hist_fold_Suc [of C "Suc L"] hist_fold_Suc [of C L h] bit_shift_in)
qed

lemma bit_fh_update_raw:
  fixes h :: history_t and f :: folded_history
  defines "c \<equiv> \<lambda>i. i < 32 \<and> ((if i = 0 then bit h 0 else bit (comp f) (i - 1))
                          \<noteq> (i = OUTPOINT f \<and> bit h (OLENGTH f)))"
  shows "bit (comp (fh_update h f)) j \<longleftrightarrow> j < CLENGTH f \<and> j < 32 \<and> c j \<noteq> c (CLENGTH f + j)"
proof -
  define c2 where "c2 = (push_bit 1 (comp f) OR of_bool (bit h 0))
                        XOR push_bit (OUTPOINT f) (of_bool (bit h (OLENGTH f)) :: u32)"
  have c2: "bit c2 i = c i" for i
    by (cases i) (simp_all add: c2_def c_def bit_simps, auto)
  have "comp (fh_update h f) = (c2 XOR drop_bit (CLENGTH f) c2) AND (push_bit (CLENGTH f) 1 - 1)"
    by (simp only: fh_update_def Let_def c2_def) simp
  then show ?thesis by (auto simp: bit_simps c2)
qed

lemma bit_fh_update:
  assumes "fh_exact h f" "j < CLENGTH f"
  shows "bit (comp (fh_update h' f)) j \<longleftrightarrow>
    ((if j = 0 then bit h' 0 else bit (comp f) (j - 1)) \<noteq> (j = OUTPOINT f \<and> bit h' (OLENGTH f)))
      \<noteq> (j = 0 \<and> bit (comp f) (CLENGTH f - 1))"
proof -
  have C: "0 < CLENGTH f" "CLENGTH f \<le> 31" "OUTPOINT f < CLENGTH f"
    using assms(1) by (auto simp: fh_exact_def)
  have top: "bit (comp f) k \<Longrightarrow> k < CLENGTH f" for k
    using assms(1) by (simp add: fh_exact_def)
  have carry: "bit (comp f) (CLENGTH f + j - 1) \<longleftrightarrow> j = 0 \<and> bit (comp f) (CLENGTH f - 1)"
    using top [of "CLENGTH f + j - 1"] C by (cases j) auto
  have "CLENGTH f + j < 32 \<or> \<not> bit (comp f) (CLENGTH f + j - 1)"
    using top [of "CLENGTH f + j - 1"] C by (cases j) auto
  then show ?thesis
    using assms(2) C carry by (simp add: bit_fh_update_raw)
qed

lemma fh_update_exact:
  assumes "fh_exact h f"
  shows "fh_exact (shift_in b h) (fh_update (shift_in b h) f)"
proof -
  have f: "0 < CLENGTH f" "CLENGTH f \<le> 31" "OLENGTH f \<le> kMaxHistLen"
    "OUTPOINT f = OLENGTH f mod CLENGTH f"
    "\<And>j. bit (comp f) j \<longleftrightarrow> j < CLENGTH f \<and> hist_fold (CLENGTH f) (OLENGTH f) h j"
    using assms by (auto simp: fh_exact_def)
  have "bit (comp (fh_update (shift_in b h) f)) j \<longleftrightarrow>
      j < CLENGTH f \<and> hist_fold (CLENGTH f) (OLENGTH f) (shift_in b h) j" for j
  proof (cases "j < CLENGTH f")
    case True
    show ?thesis
      using bit_fh_update [OF assms True, of "shift_in b h"] True f(1,4)
        hist_fold_shift [OF f(1) True f(3), of b h]
        hist_fold_Suc [of "CLENGTH f" "OLENGTH f" "shift_in b h" j]
      by (auto simp: f(5) bit_shift_in split: if_splits)
  next
    case False
    then show ?thesis by (simp add: bit_fh_update_raw)
  qed
  then show ?thesis using f(1-4) by (simp add: fh_exact_def fh_update_def Let_def)
qed

lemma fh_init_exact: "fh_init l c = Some f \<Longrightarrow> fh_exact 0 f \<and> OLENGTH f = l \<and> CLENGTH f = c"
  by (auto simp: fh_init_def fh_exact_def hist_fold_def)

section \<open>Counters\<close>

lemma int8_id: "- 128 \<le> x \<Longrightarrow> x \<le> 127 \<Longrightarrow> int8 x = x"
  by (simp add: int8_def int_word_sint)

definition entry_ok :: "nat \<Rightarrow> tagged_entry \<Rightarrow> bool" where
  "entry_ok nb e \<longleftrightarrow> - (2 ^ (nb - 1)) \<le> ctr e \<and> ctr e < 2 ^ (nb - 1) \<and> uCtr e \<le> 3"

lemma width_cases:
  assumes "1 \<le> (nb :: nat)" "nb \<le> 8"
  shows "nb \<in> {1, 2, 3, 4, 5, 6, 7, 8}"
  using assms by auto

lemma ctr_bounds:
  assumes "1 \<le> nb" "nb \<le> 8"
  shows "int8 (2 ^ (nb - 1) - 1) = 2 ^ (nb - 1) - 1" "int8 (- int8 (2 ^ (nb - 1))) = - (2 ^ (nb - 1))"
    "(2 :: int) ^ (nb - 1) \<le> 128"
  using width_cases [OF assms] by (auto simp: int8_def int_word_sint)

lemma ctrUpdate_spec:
  assumes "1 \<le> nb" "nb \<le> 8" "entry_ok nb e"
  shows "ctrUpdate a nb e =
    e\<lparr>ctr := (if a then min (2 ^ (nb - 1) - 1) (ctr e + 1) else max (- (2 ^ (nb - 1))) (ctr e - 1))\<rparr>"
  using assms(3) ctr_bounds [OF assms(1,2)]
  by (auto simp: ctrUpdate_def entry_ok_def int8_id)

lemma ctrUpdate_ok [simp, intro]:
  "1 \<le> nb \<Longrightarrow> nb \<le> 8 \<Longrightarrow> entry_ok nb e \<Longrightarrow> entry_ok nb (ctrUpdate a nb e)"
  by (simp add: ctrUpdate_spec) (auto simp: entry_ok_def)

lemma u8_inc_eq: "n < 255 \<Longrightarrow> u8_inc n = n + 1"
  by (simp add: u8_inc_def)

lemma u8_dec_eq: "0 < n \<Longrightarrow> n \<le> 255 \<Longrightarrow> u8_dec n = n - 1"
proof -
  assume "0 < n" "n \<le> 255"
  then have "n + 255 = (n - 1) + 256" "n - 1 < 256" by simp_all
  then show ?thesis unfolding u8_dec_def by (metis mod_add_self2 mod_less)
qed

lemma uCtrUpdate_ok [simp, intro]: "entry_ok nb e \<Longrightarrow> entry_ok nb (uCtrUpdate a p q e)"
  by (auto simp: uCtrUpdate_def entry_ok_def u8_inc_eq u8_dec_eq)

lemma age_entry_ok [simp, intro]: "entry_ok nb e \<Longrightarrow> entry_ok nb (age_entry e)"
  by (auto simp: age_entry_def entry_ok_def u8_dec_eq)

lemma new_entry_ok [simp, intro]: "1 \<le> nb \<Longrightarrow> entry_ok nb (new_entry a tg)"
proof -
  have "(- 1 :: int) < 0" "(0 :: int) < 2 ^ (nb - 1)" by simp_all
  then have "(- 1 :: int) < 2 ^ (nb - 1)" by (rule less_trans)
  then show ?thesis by (simp add: new_entry_def entry_ok_def)
qed

lemma tagged_entry_new_ok [simp, intro]: "entry_ok nb tagged_entry_new"
  by (auto simp: tagged_entry_new_def entry_ok_def)

lemma base_index_less [simp]: "base_index ip < base_entries"
proof -
  have "(ucast ip :: u32) AND (of_nat base_entries - 1) \<le> of_nat base_entries - 1"
    by (rule word_and_le1)
  then have "unat ((ucast ip :: u32) AND (of_nat base_entries - 1)) \<le> unat (of_nat base_entries - 1 :: u32)"
    by (simp add: word_le_nat_alt)
  then show ?thesis by (simp add: base_index_def base_entries_def)
qed

lemma base_update_ok:
  assumes "length tbl = base_entries" "\<forall>v \<in> set tbl. v \<le> 3"
  shows "length (base_update a ip tbl) = base_entries \<and> (\<forall>v \<in> set (base_update a ip tbl). v \<le> 3)"
proof -
  define v where "v = tbl ! base_index ip mod 4"
  define w where "w = (if a then (if v < 3 then u8_inc v else v) else (if v > 0 then u8_dec v else v))"
  have "v \<le> 3" by (simp add: v_def)
  then have w: "w \<le> 3" by (auto simp: w_def u8_inc_eq u8_dec_eq)
  have "base_update a ip tbl = tbl[base_index ip := w]"
    by (simp only: base_update_def Let_def w_def v_def)
  then show ?thesis
    using assms w set_update_subset_insert [of tbl "base_index ip" w] by auto
qed

section \<open>The invariant\<close>

abbreviation table_info :: "tage \<Rightarrow> nat \<Rightarrow> tage_table_info" where
  "table_info t i \<equiv> tableInfo (params t) ! (i - 1)"

definition shape_ok :: "tage \<Rightarrow> bool" where
  "shape_ok t \<longleftrightarrow>
     1 \<le> ctrBits (params t) \<and> ctrBits (params t) \<le> 8
     \<and> (\<forall>ti \<in> set (tableInfo (params t)). table_ok ti)
     \<and> length (histIndex t) = nTables t + 1 \<and> length (histTag0 t) = nTables t + 1
     \<and> length (histTag1 t) = nTables t + 1 \<and> length (T t) = nTables t + 1
     \<and> length (GI t) = nTables t + 1 \<and> length (GTAG t) = nTables t + 1
     \<and> length (histLength t) = nTables t + 1 \<and> length (idxBits t) = nTables t + 1
     \<and> length (tagWidth t) = nTables t + 1
     \<and> length (idxMask t) = nTables t + 1 \<and> length (tagMask t) = nTables t + 1"

definition tables_ok :: "tage \<Rightarrow> bool" where
  "tables_ok t \<longleftrightarrow> (\<forall>i \<in> {1..nTables t}. length (T t ! i) = unat (nSets (table_info t i))
     \<and> (\<forall>e \<in> set (T t ! i). entry_ok (ctrBits (params t)) e))"

definition index_ok :: "tage \<Rightarrow> bool" where
  "index_ok t \<longleftrightarrow> (\<forall>i \<in> {1..nTables t}. idxMask t ! i = nSets (table_info t i) - 1
     \<and> unat (GI t ! i) < unat (nSets (table_info t i)))"

definition tracks :: "history_t \<Rightarrow> folded_history \<Rightarrow> nat \<Rightarrow> nat \<Rightarrow> bool" where
  "tracks h f l c \<longleftrightarrow> fh_exact h f \<and> OLENGTH f = l \<and> CLENGTH f = c"

definition hist_ok :: "tage \<Rightarrow> bool" where
  "hist_ok t \<longleftrightarrow> (\<forall>i \<in> {1..nTables t}. let ti = table_info t i; l = unat (histLen ti) in
     tracks (gHist t) (histIndex t ! i) l (ilog2 (unat (nSets ti)))
     \<and> tracks (gHist t) (histTag0 t ! i) l (unat (tagBits ti))
     \<and> tracks (gHist t) (histTag1 t ! i) l (unat (tagBits ti) - 1))"

definition choice_ok :: "tage \<Rightarrow> bool" where
  "choice_ok t \<longleftrightarrow> providerComp t \<le> nTables t \<and> (altComp t = 0 \<or> altComp t < providerComp t)
     \<and> - 8 \<le> altOnNewAlloc t \<and> altOnNewAlloc t \<le> 7
     \<and> length (basePredictor t) = base_entries \<and> (\<forall>v \<in> set (basePredictor t). v \<le> 3)"

definition tage_ok :: "tage \<Rightarrow> bool" where
  "tage_ok t \<longleftrightarrow> shape_ok t \<and> tables_ok t \<and> index_ok t \<and> hist_ok t \<and> choice_ok t"

text \<open>Each part depends on few fields only.\<close>

lemma nTables_cong: "params t' = params t \<Longrightarrow> nTables t' = nTables t"
  by (simp add: nTables_def)

lemma shape_ok_cong:
  assumes "shape_ok t" "params t' = params t" "length (histIndex t') = length (histIndex t)"
    "length (histTag0 t') = length (histTag0 t)" "length (histTag1 t') = length (histTag1 t)"
    "length (T t') = length (T t)" "length (GI t') = length (GI t)" "length (GTAG t') = length (GTAG t)"
    "histLength t' = histLength t" "idxBits t' = idxBits t" "tagWidth t' = tagWidth t"
    "idxMask t' = idxMask t" "tagMask t' = tagMask t"
  shows "shape_ok t'"
  using assms(1) unfolding shape_ok_def assms(2-) nTables_cong [OF assms(2)] .

lemma tables_ok_cong: "tables_ok t \<Longrightarrow> params t' = params t \<Longrightarrow> T t' = T t \<Longrightarrow> tables_ok t'"
  by (simp only: tables_ok_def nTables_def)

lemma index_ok_cong:
  "index_ok t \<Longrightarrow> params t' = params t \<Longrightarrow> idxMask t' = idxMask t \<Longrightarrow> GI t' = GI t \<Longrightarrow> index_ok t'"
  by (simp only: index_ok_def nTables_def)

lemma hist_ok_cong:
  "hist_ok t \<Longrightarrow> params t' = params t \<Longrightarrow> gHist t' = gHist t \<Longrightarrow> histIndex t' = histIndex t \<Longrightarrow>
   histTag0 t' = histTag0 t \<Longrightarrow> histTag1 t' = histTag1 t \<Longrightarrow> hist_ok t'"
  by (simp only: hist_ok_def nTables_def)

lemma choice_ok_cong:
  "choice_ok t \<Longrightarrow> params t' = params t \<Longrightarrow> providerComp t' = providerComp t \<Longrightarrow>
   altComp t' = altComp t \<Longrightarrow> altOnNewAlloc t' = altOnNewAlloc t \<Longrightarrow>
   basePredictor t' = basePredictor t \<Longrightarrow> choice_ok t'"
  by (simp add: choice_ok_def nTables_def)

lemma tage_okD:
  assumes "tage_ok t"
  shows "shape_ok t" "tables_ok t" "index_ok t" "hist_ok t" "choice_ok t"
  using assms by (simp_all only: tage_ok_def)

lemma shape_okD:
  assumes "shape_ok t"
  shows "length (histIndex t) = nTables t + 1" "length (histTag0 t) = nTables t + 1"
    "length (histTag1 t) = nTables t + 1" "length (T t) = nTables t + 1"
    "length (GI t) = nTables t + 1" "length (GTAG t) = nTables t + 1"
    "\<forall>ti \<in> set (tableInfo (params t)). table_ok ti" "1 \<le> ctrBits (params t)" "ctrBits (params t) \<le> 8"
  using assms unfolding shape_ok_def by iprover+

lemmas tage_lengths = shape_okD(1-6) [OF tage_okD(1)]

lemma tage_okI:
  "shape_ok t \<Longrightarrow> tables_ok t \<Longrightarrow> index_ok t \<Longrightarrow> hist_ok t \<Longrightarrow> choice_ok t \<Longrightarrow> tage_ok t"
  by (simp only: tage_ok_def)

lemma length_assign_tables [simp]: "length (assign_tables n f xs) = length xs"
  by (simp add: assign_tables_def)

lemma nth_assign_tables [simp]:
  "i < length xs \<Longrightarrow> assign_tables n f xs ! i = (if 1 \<le> i \<and> i \<le> n then f i else xs ! i)"
  by (simp add: assign_tables_def)

text \<open>Frame facts: which fields an operation leaves alone.\<close>

lemma upd_entry_frame [simp]:
  "params (upd_entry i f t) = params t" "GI (upd_entry i f t) = GI t" "GTAG (upd_entry i f t) = GTAG t"
  "providerComp (upd_entry i f t) = providerComp t" "altComp (upd_entry i f t) = altComp t"
  "providerPred (upd_entry i f t) = providerPred t" "altPred (upd_entry i f t) = altPred t"
  "nTables (upd_entry i f t) = nTables t" "gHist (upd_entry i f t) = gHist t"
  "altOnNewAlloc (upd_entry i f t) = altOnNewAlloc t" "brCtr (upd_entry i f t) = brCtr t"
  "basePredictor (upd_entry i f t) = basePredictor t" "g_seed (upd_entry i f t) = g_seed t"
  "longer_tables (upd_entry i f t) = longer_tables t"
  "length (T (upd_entry i f t)) = length (T t)"
  by (simp_all add: upd_entry_def nTables_def longer_tables_def)

lemma T_upd_entry:
  "i < length (T t) \<Longrightarrow> T (upd_entry i f t) ! j =
     (if j = i then (T t ! i)[unat (GI t ! i) := f (entry_at t i)] else T t ! j)"
  by (simp add: upd_entry_def nth_list_update)

lemma entry_at_upd_entry:
  assumes "i < length (T t)" "unat (GI t ! i) < length (T t ! i)"
  shows "entry_at (upd_entry i f t) j = (if j = i then f (entry_at t i) else entry_at t j)"
  using assms by (simp add: entry_at_def [of "upd_entry i f t"] T_upd_entry) (simp add: entry_at_def)

lemma tage_ok_entry:
  assumes "tage_ok t" "1 \<le> i" "i \<le> nTables t"
  shows "i < length (T t)" "unat (GI t ! i) < length (T t ! i)"
    "entry_ok (ctrBits (params t)) (entry_at t i)"
proof -
  have i: "i \<in> {1..nTables t}" using assms(2,3) by simp
  show "i < length (T t)"
    using tage_lengths(4) [OF assms(1)] assms(3) by simp
  show "unat (GI t ! i) < length (T t ! i)"
    using bspec [OF tage_okD(2) [OF assms(1), unfolded tables_ok_def] i]
      bspec [OF tage_okD(3) [OF assms(1), unfolded index_ok_def] i] by simp
  then show "entry_ok (ctrBits (params t)) (entry_at t i)"
    using bspec [OF tage_okD(2) [OF assms(1), unfolded tables_ok_def] i] by (simp add: entry_at_def)
qed

lemma upd_entry_ok:
  assumes ok: "tage_ok t" and i: "1 \<le> i" "i \<le> nTables t"
    and f: "entry_ok (ctrBits (params t)) (f (entry_at t i))"
  shows "tage_ok (upd_entry i f t)"
proof -
  have "tables_ok (upd_entry i f t)"
    using tage_okD(2) [OF ok] f tage_ok_entry [OF ok i] set_update_subset_insert [of "T t ! i" "unat (GI t ! i)" "f (entry_at t i)"]
    by (auto simp: tables_ok_def T_upd_entry)
  then show ?thesis
    by (rule tage_okI [rotated, OF _ index_ok_cong [OF tage_okD(3) [OF ok]] hist_ok_cong [OF tage_okD(4) [OF ok]]
          choice_ok_cong [OF tage_okD(5) [OF ok]] shape_ok_cong [OF tage_okD(1) [OF ok]]])
      (simp_all add: upd_entry_def)
qed

lemma fold_upd_entry_ok:
  assumes "tage_ok t" "\<forall>i \<in> set is. 1 \<le> i \<and> i \<le> nTables t"
    "\<And>e. entry_ok (ctrBits (params t)) e \<Longrightarrow> entry_ok (ctrBits (params t)) (f e)"
  shows "tage_ok (fold (\<lambda>i. upd_entry i f) is t)"
  using assms
proof (induction "is" arbitrary: t)
  case (Cons i "is")
  have "tage_ok (upd_entry i f t)"
    using Cons.prems(1,2) Cons.prems(3) [OF tage_ok_entry(3) [OF Cons.prems(1), of i]]
    by (intro upd_entry_ok) auto
  then have "tage_ok (fold (\<lambda>i. upd_entry i f) is (upd_entry i f t))"
    by (rule Cons.IH) (use Cons.prems in auto)
  then show ?case by simp
qed simp

lemma fold_upd_entry_frame [simp]:
  "params (fold (\<lambda>i. upd_entry i f) is t) = params t"
  "GI (fold (\<lambda>i. upd_entry i f) is t) = GI t" "GTAG (fold (\<lambda>i. upd_entry i f) is t) = GTAG t"
  "providerComp (fold (\<lambda>i. upd_entry i f) is t) = providerComp t"
  "nTables (fold (\<lambda>i. upd_entry i f) is t) = nTables t"
  "gHist (fold (\<lambda>i. upd_entry i f) is t) = gHist t"
  "longer_tables (fold (\<lambda>i. upd_entry i f) is t) = longer_tables t"
  "brCtr (fold (\<lambda>i. upd_entry i f) is t) = brCtr t"
  "length (T (fold (\<lambda>i. upd_entry i f) is t)) = length (T t)"
  by (induction "is" arbitrary: t) simp_all

lemma age_longer_frame [simp]:
  "params (age_longer t) = params t" "GI (age_longer t) = GI t" "GTAG (age_longer t) = GTAG t"
  "providerComp (age_longer t) = providerComp t" "nTables (age_longer t) = nTables t"
  "gHist (age_longer t) = gHist t" "longer_tables (age_longer t) = longer_tables t"
  "brCtr (age_longer t) = brCtr t"
  by (simp_all add: age_longer_def Let_def)

lemma set_longer_tables: "i \<in> set (longer_tables t) \<longleftrightarrow> providerComp t < i \<and> i \<le> nTables t"
  by (auto simp: longer_tables_def)

lemma age_longer_ok: "tage_ok t \<Longrightarrow> tage_ok (age_longer t)"
  by (auto simp: age_longer_def Let_def set_longer_tables intro!: fold_upd_entry_ok)

lemma candidates_longer: "i \<in> set (candidates t) \<Longrightarrow> providerComp t < i \<and> i \<le> nTables t"
  by (auto simp: candidates_def set_longer_tables)

lemma tage_ok_scalars:
  assumes "tage_ok t" "params t' = params t" "gHist t' = gHist t" "histIndex t' = histIndex t"
    "histTag0 t' = histTag0 t" "histTag1 t' = histTag1 t" "T t' = T t" "histLength t' = histLength t"
    "tagWidth t' = tagWidth t" "idxBits t' = idxBits t" "idxMask t' = idxMask t" "tagMask t' = tagMask t"
    "GI t' = GI t" "GTAG t' = GTAG t" "choice_ok t'"
  shows "tage_ok t'"
  by (rule tage_okI [OF shape_ok_cong [OF tage_okD(1) [OF assms(1)]] tables_ok_cong [OF tage_okD(2) [OF assms(1)]]
        index_ok_cong [OF tage_okD(3) [OF assms(1)]] hist_ok_cong [OF tage_okD(4) [OF assms(1)]] assms(15)])
    (simp_all only: assms)

lemma tage_ok_choice: "tage_ok t \<Longrightarrow> choice_ok t"
  by (simp add: tage_ok_def)

lemma train_altOnNewAlloc_frame [simp]:
  "params (train_altOnNewAlloc a t) = params t" "GI (train_altOnNewAlloc a t) = GI t"
  "GTAG (train_altOnNewAlloc a t) = GTAG t" "providerComp (train_altOnNewAlloc a t) = providerComp t"
  "nTables (train_altOnNewAlloc a t) = nTables t" "gHist (train_altOnNewAlloc a t) = gHist t"
  "T (train_altOnNewAlloc a t) = T t" "longer_tables (train_altOnNewAlloc a t) = longer_tables t"
  "brCtr (train_altOnNewAlloc a t) = brCtr t"
  by (simp_all add: train_altOnNewAlloc_def nTables_def longer_tables_def)

lemma train_altOnNewAlloc_ok: "tage_ok t \<Longrightarrow> tage_ok (train_altOnNewAlloc a t)"
  by (rule tage_ok_scalars, assumption)
    (auto simp: train_altOnNewAlloc_def choice_ok_def nTables_def dest!: tage_ok_choice)

lemma seed_ok: "tage_ok t \<Longrightarrow> tage_ok (t\<lparr>g_seed := s\<rparr>)"
  by (rule tage_ok_scalars, assumption) (auto simp: choice_ok_def nTables_def dest!: tage_ok_choice)

lemma brCtr_ok: "tage_ok t \<Longrightarrow> tage_ok (t\<lparr>brCtr := c\<rparr>)"
  by (rule tage_ok_scalars, assumption) (auto simp: choice_ok_def nTables_def dest!: tage_ok_choice)

lemma train_base_ok: "tage_ok t \<Longrightarrow> tage_ok (train_base a ip t)"
  using base_update_ok [of "basePredictor t" a ip]
  by - (rule tage_ok_scalars, assumption,
      auto simp: choice_ok_def nTables_def train_base_def dest!: tage_ok_choice)

lemma allocate_frame [simp]:
  "params (allocate a t) = params t" "GI (allocate a t) = GI t" "gHist (allocate a t) = gHist t"
  "nTables (allocate a t) = nTables t" "brCtr (allocate a t) = brCtr t"
  "providerComp (allocate a t) = providerComp t"
  by (simp_all add: allocate_def Let_def nTables_def [of "t\<lparr>g_seed := _\<rparr>"] flip: nTables_def)

lemma allocate_ok:
  assumes "tage_ok t"
  shows "tage_ok (allocate a t)"
proof -
  define t1 where "t1 = train_altOnNewAlloc a (t\<lparr>g_seed := next_rand_u32 (g_seed t)\<rparr>)"
  define t2 where "t2 = age_longer t1"
  have t1: "tage_ok t1" and t2: "tage_ok t2"
    using assms by (simp_all add: t1_def t2_def train_altOnNewAlloc_ok seed_ok age_longer_ok)
  have "tage_ok (upd_entry (candidates t2 ! (r mod length (candidates t2)))
      (\<lambda>_. new_entry a tg) t2)" if "candidates t2 \<noteq> []" for r tg
  proof -
    have "candidates t2 ! (r mod length (candidates t2)) \<in> set (candidates t2)"
      using that by simp
    then show ?thesis
      using t2 candidates_longer
      by (intro upd_entry_ok new_entry_ok shape_okD(8) [OF tage_okD(1)]) fastforce+
  qed
  then show ?thesis
    using t1 t2 by (simp add: allocate_def Let_def flip: t1_def t2_def)
qed

lemma train_base_frame [simp]:
  "params (train_base a ip t) = params t" "nTables (train_base a ip t) = nTables t"
  "providerComp (train_base a ip t) = providerComp t" "gHist (train_base a ip t) = gHist t"
  "brCtr (train_base a ip t) = brCtr t" "GI (train_base a ip t) = GI t"
  by (simp_all add: train_base_def nTables_def)

lemma upd_ctr_ok:
  assumes "tage_ok t" "1 \<le> i" "i \<le> nTables t"
  shows "tage_ok (upd_entry i (ctrUpdate a (ctrBits (params t))) t)"
    "tage_ok (upd_entry i (uCtrUpdate a p q) t)"
proof -
  have "1 \<le> ctrBits (params t)" "ctrBits (params t) \<le> 8"
    using shape_okD(8,9) [OF tage_okD(1) [OF assms(1)]] .
  then show "tage_ok (upd_entry i (ctrUpdate a (ctrBits (params t))) t)"
    "tage_ok (upd_entry i (uCtrUpdate a p q) t)"
    using assms tage_ok_entry(3) [OF assms] by (auto intro!: upd_entry_ok)
qed

lemma train_provider_ok:
  assumes "tage_ok t"
  shows "tage_ok (train_provider a ip t)"
proof -
  define t1 where "t1 = upd_entry (providerComp t) (ctrUpdate a (ctrBits (params t))) t"
  have c: "providerComp t \<le> nTables t" "altComp t = 0 \<or> altComp t < providerComp t"
    using assms by (auto simp: tage_ok_def choice_ok_def)
  have fr: "params t1 = params t" "nTables t1 = nTables t" "altComp t1 = altComp t"
    by (simp_all add: t1_def)
  define t2 where "t2 = (if uCtr (entry_at t1 (providerComp t)) = 0
      then (if altComp t1 > 0 then upd_entry (altComp t1) (ctrUpdate a (ctrBits (params t))) t1
            else train_base a ip t1) else t1)"
  show ?thesis
  proof (cases "providerComp t > 0")
    case True
    then have t1: "tage_ok t1" unfolding t1_def using upd_ctr_ok(1) [OF assms] c by simp
    have t2: "tage_ok t2" "nTables t2 = nTables t"
      using upd_ctr_ok(1) [OF t1, of "altComp t" a] train_base_ok [OF t1] t1 c fr
      by (auto simp: t2_def)
    show ?thesis
      using True upd_ctr_ok(2) [OF t2(1), of "providerComp t"] t2(2) c
      by (simp add: train_provider_def Let_def flip: t1_def t2_def)
  qed (use assms train_base_ok in \<open>simp add: train_provider_def\<close>)
qed

lemma train_provider_frame [simp]:
  "params (train_provider a ip t) = params t" "nTables (train_provider a ip t) = nTables t"
  "gHist (train_provider a ip t) = gHist t" "brCtr (train_provider a ip t) = brCtr t"
  by (simp_all add: train_provider_def Let_def)

lemma updateHistory_frame [simp]:
  "params (updateHistory a ip t) = params t" "nTables (updateHistory a ip t) = nTables t"
  "gHist (updateHistory a ip t) = shift_in a (gHist t)" "T (updateHistory a ip t) = T t"
  "brCtr (updateHistory a ip t) = brCtr t"
  by (simp_all add: updateHistory_def Let_def nTables_def shift_in_def)

lemma fh_update_frame [simp]:
  "OLENGTH (fh_update h f) = OLENGTH f" "CLENGTH (fh_update h f) = CLENGTH f"
  by (simp_all add: fh_update_def Let_def)

lemma tracks_update: "tracks h f l c \<Longrightarrow> tracks (shift_in b h) (fh_update (shift_in b h) f) l c"
  by (simp add: tracks_def fh_update_exact)

lemma updateHistory_ok:
  assumes "tage_ok t"
  shows "tage_ok (updateHistory a ip t)"
proof -
  have n: "nTables (updateHistory a ip t) = nTables t" by simp
  have len: "length (histIndex t) = nTables t + 1" "length (histTag0 t) = nTables t + 1"
    "length (histTag1 t) = nTables t + 1"
    using tage_lengths [OF assms] by simp_all
  have "hist_ok (updateHistory a ip t)"
    unfolding hist_ok_def n
  proof (intro ballI)
    fix i assume i: "i \<in> {1..nTables t}"
    then have f: "histIndex (updateHistory a ip t) ! i = fh_update (shift_in a (gHist t)) (histIndex t ! i)"
      "histTag0 (updateHistory a ip t) ! i = fh_update (shift_in a (gHist t)) (histTag0 t ! i)"
      "histTag1 (updateHistory a ip t) ! i = fh_update (shift_in a (gHist t)) (histTag1 t ! i)"
      using len by (auto simp: updateHistory_def Let_def shift_in_def)
    show "let ti = table_info (updateHistory a ip t) i; l = unat (histLen ti) in
        tracks (gHist (updateHistory a ip t)) (histIndex (updateHistory a ip t) ! i) l (ilog2 (unat (nSets ti)))
        \<and> tracks (gHist (updateHistory a ip t)) (histTag0 (updateHistory a ip t) ! i) l (unat (tagBits ti))
        \<and> tracks (gHist (updateHistory a ip t)) (histTag1 (updateHistory a ip t) ! i) l (unat (tagBits ti) - 1)"
      unfolding f updateHistory_frame Let_def
      using bspec [OF tage_okD(4) [OF assms, unfolded hist_ok_def] i]
      by (simp only: Let_def tracks_update)
  qed
  then show ?thesis
    by (rule tage_okI [rotated 3, OF _ choice_ok_cong [OF tage_okD(5) [OF assms]]
          shape_ok_cong [OF tage_okD(1) [OF assms]] tables_ok_cong [OF tage_okD(2) [OF assms]]
          index_ok_cong [OF tage_okD(3) [OF assms]]])
      (simp_all add: updateHistory_def Let_def)
qed

lemma length_uCtrPeriodicReset [simp]: "length (uCtrPeriodicReset c u es) = length es"
  by (simp add: uCtrPeriodicReset_def)

lemma uCtrPeriodicReset_ok:
  assumes "e \<in> set (uCtrPeriodicReset c u es)" "\<forall>e \<in> set es. entry_ok b e"
  shows "entry_ok b e"
proof -
  have "entry_ok b (e\<lparr>uCtr := uCtr e div 2\<rparr>)" if "entry_ok b e" for e
    using that by (auto simp: entry_ok_def)
  with assms show ?thesis by (auto simp: uCtrPeriodicReset_def split: if_splits)
qed

lemma periodic_reset_ok:
  assumes "tage_ok t"
  shows "tage_ok (t\<lparr>T := assign_tables (nTables t) (\<lambda>i. uCtrPeriodicReset c u (T t ! i)) (T t)\<rparr>)"
proof -
  have "tables_ok (t\<lparr>T := assign_tables (nTables t) (\<lambda>i. uCtrPeriodicReset c u (T t ! i)) (T t)\<rparr>)"
    unfolding tables_ok_def
  proof (intro ballI)
    fix i assume "i \<in> {1..nTables (t\<lparr>T := assign_tables (nTables t) (\<lambda>i. uCtrPeriodicReset c u (T t ! i)) (T t)\<rparr>)}"
    then have i: "i \<in> {1..nTables t}" by (simp add: nTables_def)
    then have T: "assign_tables (nTables t) (\<lambda>i. uCtrPeriodicReset c u (T t ! i)) (T t) ! i
        = uCtrPeriodicReset c u (T t ! i)"
      using tage_lengths(4) [OF assms] by simp
    show "length (T (t\<lparr>T := assign_tables (nTables t) (\<lambda>i. uCtrPeriodicReset c u (T t ! i)) (T t)\<rparr>) ! i) =
        unat (nSets (table_info (t\<lparr>T := assign_tables (nTables t) (\<lambda>i. uCtrPeriodicReset c u (T t ! i)) (T t)\<rparr>) i)) \<and>
      (\<forall>e \<in> set (T (t\<lparr>T := assign_tables (nTables t) (\<lambda>i. uCtrPeriodicReset c u (T t ! i)) (T t)\<rparr>) ! i).
         entry_ok (ctrBits (params (t\<lparr>T := assign_tables (nTables t) (\<lambda>i. uCtrPeriodicReset c u (T t ! i)) (T t)\<rparr>))) e)"
      using bspec [OF tage_okD(2) [OF assms, unfolded tables_ok_def] i]
      by (simp add: T) (blast intro: uCtrPeriodicReset_ok)
  qed
  then show ?thesis
    by (rule tage_okI [rotated, OF _ index_ok_cong [OF tage_okD(3) [OF assms]] hist_ok_cong [OF tage_okD(4) [OF assms]]
          choice_ok_cong [OF tage_okD(5) [OF assms]] shape_ok_cong [OF tage_okD(1) [OF assms]]])
      simp_all
qed

lemma update_ok: "tage_ok t \<Longrightarrow> tage_ok (update a ip t)"
  unfolding update_def Let_def
  by (intro periodic_reset_ok updateHistory_ok train_provider_ok allocate_ok brCtr_ok)

lemma update_frame [simp]:
  "params (update a ip t) = params t" "gHist (update a ip t) = shift_in a (gHist t)"
  "nTables (update a ip t) = nTables t"
  by (simp_all add: update_def Let_def nTables_def)

lemma gIndex_bound:
  assumes "idxMask t ! b = m - 1" "m \<noteq> 0"
  shows "unat (gIndex t ip b) < unat m"
proof -
  have "gIndex t ip b \<le> m - 1"
    using assms(1) by (simp add: gIndex_def Let_def word_and_le1)
  then have "unat (gIndex t ip b) \<le> unat m - 1"
    using assms(2) by (simp add: word_le_nat_alt unat_minus_one)
  moreover have "0 < unat m" using assms(2) by (simp add: unat_gt_0)
  ultimately show ?thesis by linarith
qed

lemma nSets_nonzero:
  assumes "tage_ok t" "1 \<le> i" "i \<le> nTables t"
  shows "nSets (table_info t i) \<noteq> 0"
proof -
  have "table_info t i \<in> set (tableInfo (params t))"
    using assms(2,3) by (intro nth_mem) (auto simp: nTables_def)
  then show ?thesis
    using shape_okD(7) [OF tage_okD(1) [OF assms(1)]] by (auto simp: table_ok_def)
qed

lemma lookup_tables_frame [simp]:
  "params (lookup_tables ip t) = params t" "nTables (lookup_tables ip t) = nTables t"
  "T (lookup_tables ip t) = T t" "gHist (lookup_tables ip t) = gHist t"
  "basePredictor (lookup_tables ip t) = basePredictor t"
  "altOnNewAlloc (lookup_tables ip t) = altOnNewAlloc t"
  by (simp_all add: lookup_tables_def nTables_def)

lemma lookup_tables_ok:
  assumes "tage_ok t"
  shows "tage_ok (lookup_tables ip t)"
proof -
  have n: "nTables (lookup_tables ip t) = nTables t" by simp
  have "index_ok (lookup_tables ip t)"
    unfolding index_ok_def n
  proof (intro ballI conjI)
    fix i assume i: "i \<in> {1..nTables t}"
    have m: "idxMask t ! i = nSets (table_info t i) - 1"
      using assms i by (auto simp: tage_ok_def index_ok_def)
    then show "idxMask (lookup_tables ip t) ! i = nSets (table_info (lookup_tables ip t) i) - 1"
      by (simp add: lookup_tables_def)
    have "GI (lookup_tables ip t) ! i = gIndex t ip i"
      using tage_lengths(5) [OF assms] i by (auto simp: lookup_tables_def)
    then show "unat (GI (lookup_tables ip t) ! i) < unat (nSets (table_info (lookup_tables ip t) i))"
      using gIndex_bound [OF m] nSets_nonzero [OF assms] i by auto
  qed
  then show ?thesis
    by (rule tage_okI [rotated 2, OF _ hist_ok_cong [OF tage_okD(4) [OF assms]]
          choice_ok_cong [OF tage_okD(5) [OF assms]] shape_ok_cong [OF tage_okD(1) [OF assms]]
          tables_ok_cong [OF tage_okD(2) [OF assms]]])
      (simp_all add: lookup_tables_def)
qed

lemma find_down_le: "find_down P n \<le> n"
  by (induction n) auto

lemma find_down_hit: "find_down P n \<noteq> 0 \<Longrightarrow> P (find_down P n)"
  by (induction n) (auto split: if_splits)

lemma find_down_above: "find_down P n < i \<Longrightarrow> i \<le> n \<Longrightarrow> \<not> P i"
  by (induction n) (auto simp: le_Suc_eq split: if_splits)

lemma choose_components_ok: "tage_ok t \<Longrightarrow> tage_ok (choose_components t)"
  using find_down_le [of "matches t" "nTables t"]
    find_down_le [of "\<lambda>i. matches t i \<and> (altOnNewAlloc t < 0 \<or> confident t i)"
      "find_down (matches t) (nTables t) - 1"]
  by - (rule tage_ok_scalars, assumption,
      auto simp: choice_ok_def choose_components_def Let_def nTables_def dest!: tage_ok_choice)

lemma choose_predictions_ok: "tage_ok t \<Longrightarrow> tage_ok (choose_predictions ip t)"
  by (rule tage_ok_scalars, assumption)
    (auto simp: choice_ok_def choose_predictions_def Let_def nTables_def dest!: tage_ok_choice)

lemma predict_ok: "tage_ok t \<Longrightarrow> tage_ok (snd (predict ip t))"
  by (simp add: predict_def Let_def choose_predictions_ok choose_components_ok lookup_tables_ok)

lemma predict_frame [simp]:
  "params (snd (predict ip t)) = params t" "gHist (snd (predict ip t)) = gHist t"
  "nTables (snd (predict ip t)) = nTables t" "T (snd (predict ip t)) = T t"
  by (simp_all add: predict_def Let_def choose_predictions_def choose_components_def nTables_def
      lookup_tables_def)

lemma fh_inits_Some:
  "fh_inits xs = Some fs \<Longrightarrow> length fs = length xs \<and>
    (\<forall>i < length xs. fh_exact 0 (fs ! i) \<and> OLENGTH (fs ! i) = fst (xs ! i)
       \<and> CLENGTH (fs ! i) = snd (xs ! i))"
proof (induction xs arbitrary: fs rule: fh_inits.induct)
  case (2 l c xs)
  then obtain f fs' where "fh_init l c = Some f" "fh_inits xs = Some fs'" "fs = f # fs'"
    by (auto split: bind_splits)
  then show ?case using 2 fh_init_exact [of l c f] by (auto simp: nth_Cons split: nat.splits)
qed simp

lemma initDerivedTables_ok:
  assumes "initDerivedTables seed p = Some t" "1 \<le> ctrBits p" "ctrBits p \<le> 8"
  shows "tage_ok t \<and> params t = p \<and> gHist t = 0"
proof -
  obtain hi h0 h1 where h:
    "fh_inits (zip (map (unat \<circ> histLen) (tableInfo p)) (map (ilog2 \<circ> unat \<circ> nSets) (tableInfo p))) = Some hi"
    "fh_inits (zip (map (unat \<circ> histLen) (tableInfo p)) (map (unat \<circ> tagBits) (tableInfo p))) = Some h0"
    "fh_inits (zip (map (unat \<circ> histLen) (tableInfo p))
       (map (\<lambda>w. w - 1) (map (unat \<circ> tagBits) (tableInfo p)))) = Some h1"
    "\<forall>ti \<in> set (tableInfo p). table_ok ti"
    "t = \<lparr>altOnNewAlloc = 0, brCtr = 0, pHist = 0, gHist = 0, params = p,
           histIndex = folded_history_new # hi, histTag0 = folded_history_new # h0,
           histTag1 = folded_history_new # h1,
           T = [] # map (\<lambda>ti. replicate (unat (nSets ti)) tagged_entry_new) (tableInfo p),
           basePredictor = base_new, histLength = 0 # map (unat \<circ> histLen) (tableInfo p),
           tagWidth = 0 # map (unat \<circ> tagBits) (tableInfo p),
           idxBits = 0 # map (ilog2 \<circ> unat \<circ> nSets) (tableInfo p),
           idxMask = 0 # map (\<lambda>ti. nSets ti - 1) (tableInfo p),
           tagMask = 0 # map (\<lambda>w. ucast (push_bit w (1 :: u32) - 1)) (map (unat \<circ> tagBits) (tableInfo p)),
           providerComp = 0, altComp = 0, providerPred = False, altPred = False,
           GI = replicate (length (tableInfo p) + 1) 0, GTAG = replicate (length (tableInfo p) + 1) 0,
           g_seed = seed\<rparr>"
    using assms(1) unfolding initDerivedTables_def Let_def
    by (auto split: bind_splits simp del: map_map push_bit_of_1)
  note f = fh_inits_Some [OF h(1)] fh_inits_Some [OF h(2)] fh_inits_Some [OF h(3)]
  have "shape_ok t" using assms(2,3) f h(4) by (simp add: shape_ok_def h(5) nTables_def)
  moreover have "tables_ok t" by (auto simp: tables_ok_def h(5) nTables_def nth_Cons')
  moreover have "index_ok t" using h(4)
    by (auto simp: index_ok_def h(5) nTables_def nth_Cons' unat_gt_0 table_ok_def)
  moreover have "hist_ok t" using f
    by (auto simp: hist_ok_def tracks_def Let_def h(5) nTables_def nth_Cons')
  moreover have "choice_ok t"
    by (simp add: choice_ok_def h(5) base_new_def)
  ultimately show ?thesis by (simp add: tage_ok_def h(5))
qed

section \<open>Runs\<close>

text \<open>The two calls of \<open>Bpred\<close> on the predictor, in any order.\<close>

datatype tage_event = Predict u64 | Update bool u64

fun tage_step :: "tage_event \<Rightarrow> tage \<Rightarrow> tage" where
  "tage_step (Predict ip) t = snd (predict ip t)"
| "tage_step (Update actual ip) t = update actual ip t"

text \<open>The outcomes the predictor has been told, the latest first.\<close>

fun outcomes_of :: "tage_event list \<Rightarrow> bool list" where
  "outcomes_of [] = []"
| "outcomes_of (Predict ip # evs) = outcomes_of evs"
| "outcomes_of (Update actual ip # evs) = outcomes_of evs @ [actual]"

definition taken_at :: "bool list \<Rightarrow> nat \<Rightarrow> bool" where
  "taken_at outs k \<longleftrightarrow> k < length outs \<and> outs ! k"

lemma tage_run_ok: "tage_ok t \<Longrightarrow> tage_ok (fold tage_step evs t)"
proof (induction evs arbitrary: t)
  case (Cons e evs)
  then show ?case by (cases e) (simp_all add: predict_ok update_ok)
qed simp

lemma tage_run_params [simp]: "params (fold tage_step evs t) = params t"
proof (induction evs arbitrary: t)
  case (Cons e evs)
  then show ?case by (cases e) simp_all
qed simp

lemma tage_run_history:
  assumes "\<And>k. k \<le> kMaxHistLen \<Longrightarrow> bit (gHist t) k \<longleftrightarrow> taken_at outs k" "k \<le> kMaxHistLen"
  shows "bit (gHist (fold tage_step evs t)) k \<longleftrightarrow> taken_at (outcomes_of evs @ outs) k"
  using assms
proof (induction evs arbitrary: t outs k)
  case (Cons e evs)
  show ?case
  proof (cases e)
    case (Predict ip)
    then show ?thesis using Cons.IH [of "snd (predict ip t)" outs k] Cons.prems by simp
  next
    case (Update a ip)
    have "bit (gHist (update a ip t)) j \<longleftrightarrow> taken_at (a # outs) j" if "j \<le> kMaxHistLen" for j
      using that Cons.prems(1) [of "j - 1"]
      by (cases j) (simp_all add: bit_shift_in taken_at_def)
    then show ?thesis using Update Cons.IH [of "update a ip t" "a # outs" k] Cons.prems(2) by simp
  qed
qed simp

lemma hist_fold_cong:
  "(\<And>k. k < L \<Longrightarrow> bit h k \<longleftrightarrow> P k) \<Longrightarrow>
   hist_fold C L h j \<longleftrightarrow> odd (length (filter (\<lambda>k. k mod C = j \<and> P k) [0..<L]))"
  unfolding hist_fold_def by (intro arg_cong [where f = odd] arg_cong [where f = length] filter_cong) auto

section \<open>The effect of an allocation\<close>

lemma fold_min_pos: "0 < fold (\<lambda>i m. min m (f i)) xs (a :: nat) \<longleftrightarrow> 0 < a \<and> (\<forall>i \<in> set xs. 0 < f i)"
  by (induction xs arbitrary: a) auto

definition valid_tables :: "tage \<Rightarrow> nat list \<Rightarrow> bool" where
  "valid_tables t is \<longleftrightarrow> (\<forall>i \<in> set is. i < length (T t) \<and> unat (GI t ! i) < length (T t ! i))"

lemma valid_tables_upd:
  "valid_tables t is \<Longrightarrow> i < length (T t) \<Longrightarrow> valid_tables (upd_entry i f t) is"
  by (auto simp: valid_tables_def T_upd_entry)

lemma entry_at_fold:
  assumes "distinct is" "valid_tables t is"
  shows "entry_at (fold (\<lambda>i. upd_entry i f) is t) j =
           (if j \<in> set is then f (entry_at t j) else entry_at t j)"
  using assms
proof (induction "is" arbitrary: t)
  case (Cons i "is")
  then have v: "i < length (T t)" "unat (GI t ! i) < length (T t ! i)"
    and "valid_tables (upd_entry i f t) is"
    by (auto simp: valid_tables_def T_upd_entry)
  with Cons show ?case by (auto simp: entry_at_upd_entry [OF v])
qed simp

lemma other_slots_fold:
  assumes "valid_tables t is" "i \<notin> set is \<or> s \<noteq> unat (GI t ! i)"
  shows "T (fold (\<lambda>i. upd_entry i f) is t) ! i ! s = T t ! i ! s"
  using assms
proof (induction "is" arbitrary: t)
  case (Cons k "is")
  then have v: "k < length (T t)" and "valid_tables (upd_entry k f t) is"
    by (auto simp: valid_tables_def T_upd_entry)
  with Cons show ?case by (auto simp: T_upd_entry [OF v])
qed simp

lemma seed_irrelevant [simp]:
  "entry_at (t\<lparr>g_seed := s\<rparr>) = entry_at t" "wants_alloc a (t\<lparr>g_seed := s\<rparr>) = wants_alloc a t"
  "nTables (t\<lparr>g_seed := s\<rparr>) = nTables t"
  by (auto simp: fun_eq_iff entry_at_def wants_alloc_def nTables_def confident_def pred_at_def)

lemma entry_at_train_alt [simp]: "entry_at (train_altOnNewAlloc a t) = entry_at t"
  by (simp add: entry_at_def fun_eq_iff)

text \<open>Aging: nothing happens when a longer table has a useless entry, else each loses one.\<close>

lemma age_longer_spec:
  assumes "tage_ok t"
  shows "entry_at (age_longer t) i =
    (if i \<in> set (longer_tables t) \<and> (\<forall>k \<in> set (longer_tables t). 0 < uCtr (entry_at t k))
     then (entry_at t i)\<lparr>uCtr := uCtr (entry_at t i) - 1\<rparr> else entry_at t i)"
    and "i \<notin> set (longer_tables t) \<or> s \<noteq> unat (GI t ! i) \<Longrightarrow> T (age_longer t) ! i ! s = T t ! i ! s"
proof -
  have v: "valid_tables t (longer_tables t)"
    using tage_ok_entry(1,2) [OF assms] by (auto simp: valid_tables_def set_longer_tables)
  have d: "distinct (longer_tables t)" by (simp add: longer_tables_def)
  show "entry_at (age_longer t) i =
    (if i \<in> set (longer_tables t) \<and> (\<forall>k \<in> set (longer_tables t). 0 < uCtr (entry_at t k))
     then (entry_at t i)\<lparr>uCtr := uCtr (entry_at t i) - 1\<rparr> else entry_at t i)"
  proof -
    have "uCtr (entry_at t k) \<le> 255" if "k \<in> set (longer_tables t)" for k
      using tage_ok_entry(3) [OF assms, of k] that by (simp add: set_longer_tables entry_ok_def)
    then show ?thesis
      using entry_at_fold [OF d v, of age_entry i]
      by (auto simp: age_longer_def fold_min_pos age_entry_def u8_dec_eq)
  qed
  show "T (age_longer t) ! i ! s = T t ! i ! s" if "i \<notin> set (longer_tables t) \<or> s \<noteq> unat (GI t ! i)"
    using other_slots_fold [OF v that, of age_entry] by (simp add: age_longer_def)
qed

lemma allocate_cases:
  assumes "tage_ok t" "wants_alloc a t"
  obtains t2 where "t2 = age_longer (train_altOnNewAlloc a (t\<lparr>g_seed := next_rand_u32 (g_seed t)\<rparr>))"
    "tage_ok t2" "candidates t2 = []" "allocate a t = t2"
  | t2 c where "t2 = age_longer (train_altOnNewAlloc a (t\<lparr>g_seed := next_rand_u32 (g_seed t)\<rparr>))"
    "tage_ok t2" "c \<in> set (candidates t2)"
    "allocate a t = upd_entry c (\<lambda>_. new_entry a (GTAG t2 ! c)) t2"
proof -
  define t2 where "t2 = age_longer (train_altOnNewAlloc a (t\<lparr>g_seed := next_rand_u32 (g_seed t)\<rparr>))"
  have ok: "tage_ok t2"
    using assms(1) by (simp add: t2_def train_altOnNewAlloc_ok seed_ok age_longer_ok)
  define c where "c = candidates t2 ! (unat (next_rand_u32 (g_seed t)) mod length (candidates t2))"
  have al: "allocate a t = (if candidates t2 = [] then t2
      else upd_entry c (\<lambda>_. new_entry a (GTAG t2 ! c)) t2)"
    using assms(2) by (simp add: allocate_def Let_def c_def flip: t2_def)
  have "c \<in> set (candidates t2)" if "candidates t2 \<noteq> []"
    using that unfolding c_def by (intro nth_mem) simp
  then show thesis using that ok al t2_def by (cases "candidates t2 = []") simp_all
qed

section \<open>Selection as a maximum\<close>

lemma find_down_Max:
  "find_down P n = (if \<exists>i \<in> {1..n}. P i then Max {i \<in> {1..n}. P i} else 0)"
proof (cases "\<exists>i \<in> {1..n}. P i")
  case True
  then obtain i where i: "i \<in> {1..n}" "P i" by blast
  have pos: "find_down P n \<noteq> 0"
    using find_down_above [of P n i] i by force
  have "Max {i \<in> {1..n}. P i} = find_down P n"
  proof (rule Max_eqI)
    show "k \<le> find_down P n" if "k \<in> {i \<in> {1..n}. P i}" for k
      using that find_down_above [of P n k] by force
    show "find_down P n \<in> {i \<in> {1..n}. P i}"
      using pos find_down_hit [of P n] find_down_le [of P n] by auto
  qed simp
  with True show ?thesis by simp
next
  case False
  have "find_down P n = 0"
    using False find_down_hit [of P n] find_down_le [of P n] by force
  with False show ?thesis by simp
qed

lemma find_down_cong: "(\<And>i. 1 \<le> i \<Longrightarrow> i \<le> n \<Longrightarrow> P i \<longleftrightarrow> Q i) \<Longrightarrow> find_down P n = find_down Q n"
  by (induction n) auto

definition slot_of :: "tage \<Rightarrow> u64 \<Rightarrow> nat \<Rightarrow> tagged_entry" where
  "slot_of t ip i = T t ! i ! unat (gIndex t ip i)"

definition hits :: "tage \<Rightarrow> u64 \<Rightarrow> nat \<Rightarrow> bool" where
  "hits t ip i \<longleftrightarrow> tag (slot_of t ip i) = gTag t ip i"

definition strong :: "tagged_entry \<Rightarrow> bool" where
  "strong e \<longleftrightarrow> ctr e \<noteq> 0 \<and> ctr e \<noteq> - 1"

lemma strong_iff: "\<bar>2 * ctr e + 1\<bar> > 1 \<longleftrightarrow> strong e"
  by (auto simp: strong_def)

lemma lookup_tables_sel:
  assumes "tage_ok t" "1 \<le> i" "i \<le> nTables t"
  shows "entry_at (lookup_tables ip t) i = slot_of t ip i" "matches (lookup_tables ip t) i = hits t ip i"
  using assms(2,3) tage_lengths(5,6) [OF assms(1)]
  by (simp_all add: entry_at_def lookup_tables_def slot_of_def matches_def hits_def)

lemma predict_components:
  assumes "tage_ok t"
  shows "providerComp (snd (predict ip t)) = find_down (hits t ip) (nTables t)"
    "altComp (snd (predict ip t)) =
       find_down (\<lambda>i. hits t ip i \<and> (altOnNewAlloc t < 0 \<or> strong (slot_of t ip i)))
         (find_down (hits t ip) (nTables t) - 1)"
proof -
  let ?l = "lookup_tables ip t"
  have p: "find_down (matches ?l) (nTables t) = find_down (hits t ip) (nTables t)"
    using lookup_tables_sel [OF assms] by (intro find_down_cong) auto
  have a: "find_down (\<lambda>i. matches ?l i \<and> (altOnNewAlloc t < 0 \<or> confident ?l i)) k =
      find_down (\<lambda>i. hits t ip i \<and> (altOnNewAlloc t < 0 \<or> strong (slot_of t ip i))) k"
    if "k \<le> nTables t" for k
    using that lookup_tables_sel [OF assms]
    by (intro find_down_cong) (auto simp: confident_def strong_iff)
  show "providerComp (snd (predict ip t)) = find_down (hits t ip) (nTables t)"
    by (simp add: predict_def Let_def choose_predictions_def choose_components_def p)
  show "altComp (snd (predict ip t)) =
       find_down (\<lambda>i. hits t ip i \<and> (altOnNewAlloc t < 0 \<or> strong (slot_of t ip i)))
         (find_down (hits t ip) (nTables t) - 1)"
    using a [of "find_down (hits t ip) (nTables t) - 1"] find_down_le [of "hits t ip" "nTables t"]
    by (simp add: predict_def Let_def choose_predictions_def choose_components_def p)
qed

lemma predict_value:
  fixes t :: tage and ip :: u64
  assumes "tage_ok t"
  defines "p \<equiv> providerComp (snd (predict ip t))" and "a \<equiv> altComp (snd (predict ip t))"
  shows "altPred (snd (predict ip t)) =
      (if p \<noteq> 0 \<and> a \<noteq> 0 then 0 \<le> ctr (slot_of t ip a) else base_predict ip (basePredictor t))"
    "fst (predict ip t) =
      (if p \<noteq> 0 \<and> (altOnNewAlloc t < 0 \<or> strong (slot_of t ip p) \<or> uCtr (slot_of t ip p) \<noteq> 0)
       then 0 \<le> ctr (slot_of t ip p) else altPred (snd (predict ip t)))"
    "providerPred (snd (predict ip t)) = fst (predict ip t)"
proof -
  let ?c = "choose_components (lookup_tables ip t)"
  have pa: "providerComp ?c = p" "altComp ?c = a"
    by (simp_all add: p_def a_def predict_def Let_def choose_predictions_def)
  have "tage_ok ?c" using assms(1) by (simp add: choose_components_ok lookup_tables_ok)
  then have b: "p \<le> nTables t" "a = 0 \<or> a < p"
    using pa by (auto simp: tage_ok_def choice_ok_def choose_components_def nTables_def Let_def)
  have e: "entry_at ?c i = slot_of t ip i" if "1 \<le> i" "i \<le> nTables t" for i
    using lookup_tables_sel(1) [OF assms(1) that] by (simp add: choose_components_def Let_def entry_at_def)
  have fr: "basePredictor ?c = basePredictor t" "altOnNewAlloc ?c = altOnNewAlloc t"
    by (simp_all add: choose_components_def Let_def)
  have sp: "confident ?c p = strong (slot_of t ip p)" "pred_at ?c p = (0 \<le> ctr (slot_of t ip p))"
    if "p \<noteq> 0"
    using e [of p] b that by (simp_all add: confident_def pred_at_def strong_iff)
  have sa: "pred_at ?c a = (0 \<le> ctr (slot_of t ip a))" if "p \<noteq> 0" "a \<noteq> 0"
    using e [of a] b that by (simp add: pred_at_def)
  show alt: "altPred (snd (predict ip t)) =
      (if p \<noteq> 0 \<and> a \<noteq> 0 then 0 \<le> ctr (slot_of t ip a) else base_predict ip (basePredictor t))"
    using sa by (simp add: predict_def Let_def choose_predictions_def pa fr)
  show "fst (predict ip t) =
      (if p \<noteq> 0 \<and> (altOnNewAlloc t < 0 \<or> strong (slot_of t ip p) \<or> uCtr (slot_of t ip p) \<noteq> 0)
       then 0 \<le> ctr (slot_of t ip p) else altPred (snd (predict ip t)))"
    using sp e [of p] b unfolding alt
    by (auto simp: predict_def Let_def choose_predictions_def pa fr sa)
  show "providerPred (snd (predict ip t)) = fst (predict ip t)"
    by (simp add: predict_def Let_def)
qed

section \<open>The default configuration and a small one\<close>

definition BoomV3Default :: tage_params where
  "BoomV3Default = \<lparr>ctrBits = 3, uBitPeriod = 2048, pathHistBits = 16,
     tableInfo = [\<lparr>nSets = 128, histLen = 2, tagBits = 7\<rparr>, \<lparr>nSets = 128, histLen = 4, tagBits = 7\<rparr>,
                  \<lparr>nSets = 256, histLen = 8, tagBits = 8\<rparr>, \<lparr>nSets = 256, histLen = 16, tagBits = 8\<rparr>,
                  \<lparr>nSets = 128, histLen = 32, tagBits = 9\<rparr>, \<lparr>nSets = 128, histLen = 64, tagBits = 9\<rparr>]\<rparr>"

definition small_params :: tage_params where
  "small_params = \<lparr>ctrBits = 3, uBitPeriod = 4, pathHistBits = 16,
     tableInfo = [\<lparr>nSets = 4, histLen = 2, tagBits = 4\<rparr>, \<lparr>nSets = 4, histLen = 4, tagBits = 5\<rparr>]\<rparr>"

lemma ilog2_eval:
  "ilog2 (Suc 0) = 0" "ilog2 4 = 2" "ilog2 128 = 7" "ilog2 256 = 8" "ilog2 512 = 9"
  using ilog2_power [of 0] ilog2_power [of 2] ilog2_power [of 7] ilog2_power [of 8] ilog2_power [of 9]
  by simp_all

lemma small_params_start: "\<exists>t. initDerivedTables 1 small_params = Some t"
  by (simp add: initDerivedTables_def small_params_def table_ok_def kMaxHistLen_def Let_def
      fh_init_def ilog2_eval)

lemma boom_params_start: "\<exists>t. initDerivedTables 1 BoomV3Default = Some t"
  by (simp add: initDerivedTables_def BoomV3Default_def table_ok_def kMaxHistLen_def Let_def
      fh_init_def ilog2_eval)

section \<open>Properties\<close>

lemma tage_run_start:
  assumes "initDerivedTables seed p = Some t0" "1 \<le> ctrBits p" "ctrBits p \<le> 8"
  shows "tage_ok (fold tage_step evs t0)" "params (fold tage_step evs t0) = p"
    "k \<le> kMaxHistLen \<Longrightarrow> bit (gHist (fold tage_step evs t0)) k \<longleftrightarrow> taken_at (outcomes_of evs) k"
  using initDerivedTables_ok [OF assms] tage_run_ok [of t0 evs]
    tage_run_history [of t0 "[]" k evs]
  by (simp_all add: taken_at_def)

text \<open>
  C16.  The folded registers of TAGE are what the scheme promises: after any run of predictions and
  updates from a fresh predictor, bit j of the index register of table i is the parity of the taken
  branches among the last \<open>histLen\<close> outcomes whose age is j modulo the number of index bits, and the
  same holds of the two tag registers, although the code only shifts, inserts the newest and cancels
  the oldest outcome.
\<close>

theorem folded_registers_exact:
  assumes "initDerivedTables seed p = Some t0" "1 \<le> ctrBits p" "ctrBits p \<le> 8"
    and "1 \<le> i" "i \<le> length (tableInfo p)"
  shows "let t = fold tage_step evs t0; ti = tableInfo p ! (i - 1);
             parity = (\<lambda>C j. odd (length (filter (\<lambda>k. k mod C = j \<and> taken_at (outcomes_of evs) k)
                                            [0..<unat (histLen ti)])))
         in (let C = ilog2 (unat (nSets ti)) in
               \<forall>j. bit (comp (histIndex t ! i)) j \<longleftrightarrow> j < C \<and> parity C j)
          \<and> (let C = unat (tagBits ti) in
               \<forall>j. bit (comp (histTag0 t ! i)) j \<longleftrightarrow> j < C \<and> parity C j)
          \<and> (let C = unat (tagBits ti) - 1 in
               \<forall>j. bit (comp (histTag1 t ! i)) j \<longleftrightarrow> j < C \<and> parity C j)"
proof -
  let ?t = "fold tage_step evs t0" and ?ti = "tableInfo p ! (i - 1)"
  note run = tage_run_start [OF assms(1-3)]
  have i: "i \<in> {1..nTables ?t}" using assms(4,5) run(2) by (simp add: nTables_def)
  have l: "unat (histLen ?ti) \<le> kMaxHistLen"
    using shape_okD(7) [OF tage_okD(1) [OF run(1)]] assms(4,5) run(2) by (auto simp: table_ok_def)
  have fold: "hist_fold C (unat (histLen ?ti)) (gHist ?t) j \<longleftrightarrow>
      odd (length (filter (\<lambda>k. k mod C = j \<and> taken_at (outcomes_of evs) k) [0..<unat (histLen ?ti)]))" for C j
    by (rule hist_fold_cong) (use run(3) l in auto)
  have b: "bit (comp f) j \<longleftrightarrow> j < C \<and> hist_fold C (unat (histLen ?ti)) (gHist ?t) j"
    if "tracks (gHist ?t) f (unat (histLen ?ti)) C" for f C j
    using that by (auto simp: tracks_def fh_exact_def)
  have tr: "tracks (gHist ?t) (histIndex ?t ! i) (unat (histLen ?ti)) (ilog2 (unat (nSets ?ti)))"
    "tracks (gHist ?t) (histTag0 ?t ! i) (unat (histLen ?ti)) (unat (tagBits ?ti))"
    "tracks (gHist ?t) (histTag1 ?t ! i) (unat (histLen ?ti)) (unat (tagBits ?ti) - 1)"
    using bspec [OF tage_okD(4) [OF run(1), unfolded hist_ok_def] i]
    by (simp_all only: Let_def run(2))
  show ?thesis
    by (simp only: Let_def b [OF tr(1)] b [OF tr(2)] b [OF tr(3)] fold simp_thms)
qed

theorem folded_registers_exact_witness:
  "\<exists>t0. initDerivedTables 1 small_params = Some t0 \<and>
     bit (comp (histIndex (fold tage_step [Update True 3, Predict 5, Update False 6] t0) ! 1)) 1"
proof -
  obtain t0 where t0: "initDerivedTables 1 small_params = Some t0" using small_params_start by blast
  have w: "1 \<le> ctrBits small_params" "ctrBits small_params \<le> 8" "1 \<le> (1 :: nat)"
    "1 \<le> length (tableInfo small_params)" by (simp_all add: small_params_def)
  define t where "t = fold tage_step [Update True 3, Predict 5, Update False 6] t0"
  note r = folded_registers_exact [OF t0 w, of "[Update True 3, Predict 5, Update False 6]", folded t_def]
  have "bit (comp (histIndex t ! 1)) 1"
    using spec [OF conjunct1 [OF r [unfolded Let_def]], of 1]
    by (simp add: small_params_def ilog2_eval taken_at_def upt_rec)
  then show ?thesis using t0 by (auto simp only: t_def)
qed

text \<open>
  C33.  Every access of the predictor stays inside its tables and every counter inside its width:
  after any run, the index each table is read and written at is below the table's size, the base
  index is below 8192, prediction counters are signed \<open>ctrBits\<close>-bit values, usefulness counters and
  base counters are at most 3, and the choice counter is a 4-bit signed value.
\<close>

theorem tage_accesses_in_bounds:
  assumes "initDerivedTables seed p = Some t0" "1 \<le> ctrBits p" "ctrBits p \<le> 8"
  shows "let t = fold tage_step evs t0; b = ctrBits p in
    (\<forall>i. 1 \<le> i \<and> i \<le> nTables t \<longrightarrow>
       unat (GI t ! i) < length (T t ! i) \<and> unat (gIndex t ip i) < length (T t ! i)
       \<and> (\<forall>e \<in> set (T t ! i). - (2 ^ (b - 1)) \<le> ctr e \<and> ctr e < 2 ^ (b - 1) \<and> uCtr e \<le> 3))
    \<and> base_index ip < length (basePredictor t) \<and> (\<forall>v \<in> set (basePredictor t). v \<le> 3)
    \<and> - 8 \<le> altOnNewAlloc t \<and> altOnNewAlloc t \<le> 7 \<and> providerComp t \<le> nTables t"
proof -
  let ?t = "fold tage_step evs t0"
  note run = tage_run_start [OF assms]
  have "unat (GI ?t ! i) < length (T ?t ! i) \<and> unat (gIndex ?t ip i) < length (T ?t ! i)
       \<and> (\<forall>e \<in> set (T ?t ! i). entry_ok (ctrBits p) e)" if i: "1 \<le> i" "i \<le> nTables ?t" for i
    using bspec [OF tage_okD(2) [OF run(1), unfolded tables_ok_def], of i]
      bspec [OF tage_okD(3) [OF run(1), unfolded index_ok_def], of i]
      gIndex_bound [of ?t i "nSets (table_info ?t i)" ip] nSets_nonzero [OF run(1) i] i run(2) by auto
  moreover have "base_index ip < length (basePredictor ?t) \<and> (\<forall>v \<in> set (basePredictor ?t). v \<le> 3)
    \<and> - 8 \<le> altOnNewAlloc ?t \<and> altOnNewAlloc ?t \<le> 7 \<and> providerComp ?t \<le> nTables ?t"
    using tage_okD(5) [OF run(1)] by (simp add: choice_ok_def)
  ultimately show ?thesis unfolding Let_def entry_ok_def by blast
qed

theorem tage_accesses_in_bounds_witness:
  "\<exists>t0. initDerivedTables 1 BoomV3Default = Some t0 \<and>
     providerComp (fold tage_step [Predict 77, Update False 77] t0)
       \<le> nTables (fold tage_step [Predict 77, Update False 77] t0)"
proof -
  obtain t0 where t0: "initDerivedTables 1 BoomV3Default = Some t0" using boom_params_start by blast
  have w: "1 \<le> ctrBits BoomV3Default" "ctrBits BoomV3Default \<le> 8" by (simp_all add: BoomV3Default_def)
  show ?thesis
    using tage_accesses_in_bounds [OF t0 w, of "[Predict 77, Update False 77]"] t0
    by (auto simp only: Let_def)
qed

text \<open>
  C34.  A prediction comes from the longest history that matches.  The provider is the highest table
  whose selected entry carries the computed tag, the alternate the highest confident match below it;
  the answer is the sign of the provider's counter unless that entry is new (weak counter, useless)
  and alternates are preferred, in which case it is the alternate's; without a match it is the base
  table's.
\<close>

theorem predict_longest_match:
  assumes "tage_ok t"
  shows "let t' = snd (predict ip t); n = nTables t; p = providerComp t'; a = altComp t';
             good = {i \<in> {1..p - 1}. hits t ip i \<and> (altOnNewAlloc t < 0 \<or> strong (slot_of t ip i))};
             alt = (if p \<noteq> 0 \<and> a \<noteq> 0 then 0 \<le> ctr (slot_of t ip a) else base_predict ip (basePredictor t))
    in p = (if \<exists>i \<in> {1..n}. hits t ip i then Max {i \<in> {1..n}. hits t ip i} else 0)
     \<and> a = (if good \<noteq> {} then Max good else 0)
     \<and> fst (predict ip t) =
         (if p \<noteq> 0 \<and> (altOnNewAlloc t < 0 \<or> strong (slot_of t ip p) \<or> uCtr (slot_of t ip p) \<noteq> 0)
          then 0 \<le> ctr (slot_of t ip p) else alt)"
proof -
  have g: "(\<exists>i \<in> {1..k}. P i) \<longleftrightarrow> {i \<in> {1..k}. P i} \<noteq> {}" for k and P :: "nat \<Rightarrow> bool" by auto
  show ?thesis
    using predict_components [OF assms, of ip] predict_value [OF assms, of ip]
    by (simp only: Let_def find_down_Max g simp_thms)
qed

lemma small_start_ok: "\<exists>t. initDerivedTables 1 small_params = Some t \<and> tage_ok t \<and> nTables t = 2"
proof -
  obtain t0 where t0: "initDerivedTables 1 small_params = Some t0" using small_params_start by blast
  have w: "1 \<le> ctrBits small_params" "ctrBits small_params \<le> 8" by (simp_all add: small_params_def)
  show ?thesis
    using initDerivedTables_ok [OF t0 w] t0 by (auto simp: nTables_def small_params_def)
qed

theorem predict_longest_match_witness:
  "\<exists>t. tage_ok t \<and> (providerComp (snd (predict 9 t)) = 0 \<or>
     hits t 9 (providerComp (snd (predict 9 t))))"
proof -
  obtain t where t: "tage_ok t" using small_start_ok by blast
  have mem: "Max {i \<in> {1..n}. P i} \<in> {i \<in> {1..n}. P i}" if "\<exists>i \<in> {1..n}. P i"
    for P :: "nat \<Rightarrow> bool" and n
    using that by (intro Max_in) auto
  have "providerComp (snd (predict 9 t)) =
      (if \<exists>i \<in> {1..nTables t}. hits t 9 i then Max {i \<in> {1..nTables t}. hits t 9 i} else 0)"
    using predict_longest_match [OF t, of 9] by (simp only: Let_def)
  then show ?thesis
    using t mem [of "nTables t" "hits t 9"] by (cases "\<exists>i \<in> {1..nTables t}. hits t 9 i") auto
qed

text \<open>
  C35.  What a misprediction teaches.  When the answer was wrong, a longer table exists, and it is not
  the case that a weak provider was right and overruled, then either every longer table holds an
  entry that is useful twice or more and each loses one point of usefulness, or exactly one table
  with the least useful selected entry receives a useless entry with the current tag and the weakest
  counter in the direction of the outcome, 0 for taken and -1 for not taken; all other slots keep their contents, except that the other selected
  entries of longer tables lose one point when none of them was useless.
\<close>

theorem misprediction_allocates:
  assumes "tage_ok t" "providerPred t \<noteq> actual" "providerComp t < nTables t"
    "providerComp t = 0 \<or> strong (entry_at t (providerComp t)) \<or>
       (0 \<le> ctr (entry_at t (providerComp t))) \<noteq> actual"
  shows "let t' = allocate actual t; L = {providerComp t + 1..nTables t};
             full = (\<forall>i \<in> L. 0 < uCtr (entry_at t i));
             aged = (\<lambda>i. if full then (entry_at t i)\<lparr>uCtr := uCtr (entry_at t i) - 1\<rparr> else entry_at t i)
    in ((\<forall>i \<in> L. 2 \<le> uCtr (entry_at t i) \<and> entry_at t' i = aged i)
        \<or> (\<exists>c \<in> L. entry_at t' c = \<lparr>ctr = (if actual then 0 else - 1), tag = GTAG t ! c, uCtr = 0\<rparr>
             \<and> (\<forall>i \<in> L. uCtr (entry_at t c) \<le> uCtr (entry_at t i))
             \<and> (\<forall>i \<in> L - {c}. entry_at t' i = aged i)))
     \<and> (\<forall>i s. i \<notin> L \<or> s \<noteq> unat (GI t ! i) \<longrightarrow> T t' ! i ! s = T t ! i ! s)"
proof -
  define t1 where "t1 = train_altOnNewAlloc actual (t\<lparr>g_seed := next_rand_u32 (g_seed t)\<rparr>)"
  have t1: "tage_ok t1" using assms(1) by (simp add: t1_def train_altOnNewAlloc_ok seed_ok)
  have fr: "entry_at t1 = entry_at t" "longer_tables t1 = longer_tables t" "GI t1 = GI t"
    "GTAG t1 = GTAG t" "T t1 = T t" "nTables t1 = nTables t"
    by (simp_all add: t1_def longer_tables_def nTables_def)
  have L: "set (longer_tables t) = {providerComp t + 1..nTables t}" by (auto simp: longer_tables_def)
  note age = age_longer_spec [OF t1, unfolded fr L]
  have "wants_alloc actual t"
    using assms(2-4) by (auto simp: wants_alloc_def confident_def strong_iff pred_at_def)
  with assms(1) show ?thesis
  proof (cases rule: allocate_cases)
    case (1 t2)
    then have t2: "t2 = age_longer t1" by (simp add: t1_def)
    have "uCtr (entry_at t2 i) \<noteq> 0" if "i \<in> {providerComp t + 1..nTables t}" for i
      using 1(3) that L by (auto simp: candidates_def t2 fr filter_empty_conv)
    note nz = this [unfolded t2 age(1)]
    have full: "\<forall>k \<in> {providerComp t + 1..nTables t}. 0 < uCtr (entry_at t k)"
    proof (rule ccontr)
      assume f: "\<not> (\<forall>k \<in> {providerComp t + 1..nTables t}. 0 < uCtr (entry_at t k))"
      then obtain k where k: "k \<in> {providerComp t + 1..nTables t}" "uCtr (entry_at t k) = 0" by auto
      show False using nz [OF k(1)] k(2) by (simp only: f simp_thms if_False)
    qed
    have "2 \<le> uCtr (entry_at t i)" if "i \<in> {providerComp t + 1..nTables t}" for i
      using nz [OF that] that full by simp
    then show ?thesis using age 1(4) full unfolding t2 Let_def by auto
  next
    case (2 t2 c)
    then have t2: "t2 = age_longer t1" by (simp add: t1_def)
    have c: "c \<in> {providerComp t + 1..nTables t}" "uCtr (entry_at t2 c) = 0"
      using 2(3) L by (auto simp: candidates_def t2 fr)
    have v: "c < length (T t2)" "unat (GI t2 ! c) < length (T t2 ! c)"
      using tage_ok_entry(1,2) [OF 2(2), of c] c(1) by (auto simp: t2 fr)
    have gi: "GI t2 = GI t" "GTAG t2 = GTAG t" by (simp_all add: t2 fr)
    have min: "uCtr (entry_at t c) \<le> uCtr (entry_at t i)" if "i \<in> {providerComp t + 1..nTables t}" for i
    proof (cases "\<forall>k \<in> {providerComp t + 1..nTables t}. 0 < uCtr (entry_at t k)")
      case True
      then show ?thesis using age(1) [of c] c bspec [OF True that] unfolding t2 by simp
    next
      case False
      then show ?thesis using age(1) [of c] c unfolding t2 by (simp only: False simp_thms if_False)
    qed
    have e: "entry_at (allocate actual t) i =
        (if i = c then new_entry actual (GTAG t ! c) else entry_at t2 i)" for i
      using entry_at_upd_entry [OF v] 2(4) gi by simp
    have s: "T (allocate actual t) ! i ! s = T t ! i ! s"
      if "i \<notin> {providerComp t + 1..nTables t} \<or> s \<noteq> unat (GI t ! i)" for i s
      using age(2) [OF that] that c(1) 2(4) v(1) gi by (auto simp: T_upd_entry t2)
    have new: "entry_at (allocate actual t) c =
        \<lparr>ctr = (if actual then 0 else - 1), tag = GTAG t ! c, uCtr = 0\<rparr>"
      using e [of c] by (simp add: new_entry_def)
    have others: "\<forall>i \<in> {providerComp t + 1..nTables t} - {c}. entry_at (allocate actual t) i =
        (if \<forall>i \<in> {providerComp t + 1..nTables t}. 0 < uCtr (entry_at t i)
         then (entry_at t i)\<lparr>uCtr := uCtr (entry_at t i) - 1\<rparr> else entry_at t i)"
      using age(1) unfolding e t2 by (intro ballI) (simp only: Diff_iff singleton_iff if_False simp_thms)
    have min': "\<forall>i \<in> {providerComp t + 1..nTables t}. uCtr (entry_at t c) \<le> uCtr (entry_at t i)"
      using min by blast
    have s': "\<forall>i s. i \<notin> {providerComp t + 1..nTables t} \<or> s \<noteq> unat (GI t ! i) \<longrightarrow>
        T (allocate actual t) ! i ! s = T t ! i ! s"
      using s by blast
    show ?thesis
      unfolding Let_def by (intro conjI disjI2 bexI [of _ c] new min' others s' c(1))
  qed
qed

theorem misprediction_allocates_witness:
  "\<exists>t. tage_ok t \<and> providerPred t \<and> T (allocate False t) ! 0 ! 0 = T t ! 0 ! 0"
proof -
  obtain t0 where t0: "initDerivedTables 1 small_params = Some t0" "tage_ok t0" "nTables t0 = 2"
    using small_start_ok by blast
  define t where "t = t0\<lparr>providerPred := True, providerComp := 0, altComp := 0\<rparr>"
  have ok: "tage_ok t"
    by (rule tage_ok_scalars [OF t0(2)])
      (use tage_okD(5) [OF t0(2)] in \<open>auto simp: t_def choice_ok_def\<close>)
  have w: "providerPred t \<noteq> False" "providerComp t < nTables t" "providerComp t = 0"
    using t0(3) by (simp_all add: t_def nTables_def)
  show ?thesis
    using misprediction_allocates [OF ok w(1,2) disjI1 [OF w(3)]] ok w by (auto simp: Let_def)
qed

end
