(* ===== verification/BranchPredictor.thy ===== *)
theory BranchPredictor
  imports TagePredictor
begin

text \<open>
  \<open>Bpred\<close> of \<open>branch_predictor.cpp\<close>: the choice of predictor, the table predictors (one-bit,
  two-bit and gshare) and the calls into TAGE.  \<open>predict\<close> of the table predictors also trains.
  The counters are \<open>int\<close>; an access outside the table or a failed assertion is \<open>None\<close>.
\<close>

section \<open>Data and construction\<close>

datatype type_bpred = bp_none | bp_always_NT | bp_always_T | bp_onebit | bp_twobit | bp_gshare
  | bp_perfect | bp_tage

record bpred =
  bp_type :: type_bpred
  bht_size :: int
  bht :: "int list"
  gshare_global_hist_bits :: nat
  gshare_global_hist :: int
  tagePredictor :: "tage option"

definition bpred_tage_params :: tage_params where
  "bpred_tage_params = \<lparr>ctrBits = 3, uBitPeriod = 4096, pathHistBits = 16,
     tableInfo = [\<lparr>nSets = 256, histLen = 2, tagBits = 8\<rparr>, \<lparr>nSets = 256, histLen = 4, tagBits = 8\<rparr>,
                  \<lparr>nSets = 512, histLen = 8, tagBits = 9\<rparr>, \<lparr>nSets = 512, histLen = 16, tagBits = 9\<rparr>,
                  \<lparr>nSets = 256, histLen = 32, tagBits = 10\<rparr>, \<lparr>nSets = 256, histLen = 64, tagBits = 10\<rparr>,
                  \<lparr>nSets = 128, histLen = 128, tagBits = 11\<rparr>, \<lparr>nSets = 128, histLen = 256, tagBits = 11\<rparr>]\<rparr>"

definition Bpred :: "type_bpred \<Rightarrow> int \<Rightarrow> nat \<Rightarrow> bpred option" where
  "Bpred ty sz ghrSize =
     (let b = \<lparr>bp_type = ty, bht_size = sz, bht = [], gshare_global_hist_bits = 10,
               gshare_global_hist = 0, tagePredictor = None\<rparr>
      in case ty of
           bp_onebit \<Rightarrow> Some (b\<lparr>bht := replicate (nat sz) 1\<rparr>)
         | bp_twobit \<Rightarrow> Some (b\<lparr>bht := replicate (nat sz) 2\<rparr>)
         | bp_gshare \<Rightarrow> Some (b\<lparr>gshare_global_hist_bits := ghrSize, bht := replicate (nat sz) 1\<rparr>)
         | bp_tage \<Rightarrow> do { t \<leftarrow> initDerivedTables 1 bpred_tage_params; Some (b\<lparr>tagePredictor := Some t\<rparr>) }
         | _ \<Rightarrow> Some b)"

section \<open>Prediction\<close>

text \<open>\<open>int idx = x & (bht_size - 1)\<close>: the mask is converted to 64 bits, the result back to 32.\<close>

definition bht_index :: "u64 \<Rightarrow> int \<Rightarrow> int" where
  "bht_index x sz = sint (ucast (x AND word_of_int (sz - 1)) :: u32)"

text \<open>Move the counter of a slot towards the outcome, between 0 and \<open>hi\<close>, and check it.\<close>

definition bht_train :: "bool \<Rightarrow> int \<Rightarrow> nat \<Rightarrow> int list \<Rightarrow> int list option" where
  "bht_train actual_taken hi idx tbl =
     (let v = (if actual_taken then min (tbl ! idx + 1) hi else max (tbl ! idx - 1) 0)
      in do { assert_that (0 \<le> v \<and> v \<le> hi); Some (tbl[idx := v]) })"

definition bht_predict :: "(int \<Rightarrow> bool) \<Rightarrow> int \<Rightarrow> u64 \<Rightarrow> bool \<Rightarrow> bpred \<Rightarrow> (bool \<times> bpred) option" where
  "bht_predict taken hi x actual_taken b =
     (let i = bht_index x (bht_size b); idx = nat i
      in if i < 0 \<or> length (bht b) \<le> idx then None
         else do { let pred_taken = taken (bht b ! idx);
                   tbl \<leftarrow> bht_train actual_taken hi idx (bht b);
                   Some (pred_taken = actual_taken, b\<lparr>bht := tbl\<rparr>) })"

definition shift_history :: "bool \<Rightarrow> bpred \<Rightarrow> bpred" where
  "shift_history actual_taken b =
     (let mask = push_bit (gshare_global_hist_bits b) 1 - 1
      in b\<lparr>gshare_global_hist := (push_bit 1 (gshare_global_hist b) OR of_bool actual_taken) AND mask\<rparr>)"

definition bpred_predict :: "u64 \<Rightarrow> bool \<Rightarrow> bpred \<Rightarrow> (bool \<times> bpred) option" where
  "bpred_predict pc actual_taken b =
     (case bp_type b of
        bp_none \<Rightarrow> Some (False, b)
      | bp_perfect \<Rightarrow> Some (True, b)
      | bp_always_NT \<Rightarrow> Some (\<not> actual_taken, b)
      | bp_always_T \<Rightarrow> Some (actual_taken, b)
      | bp_onebit \<Rightarrow> bht_predict (\<lambda>v. v = 1) 1 pc actual_taken b
      | bp_twobit \<Rightarrow> bht_predict (\<lambda>v. v \<ge> 2) 3 pc actual_taken b
      | bp_gshare \<Rightarrow> do { (r, b') \<leftarrow> bht_predict (\<lambda>v. v \<ge> 2) 3
                              (pc XOR word_of_int (gshare_global_hist b)) actual_taken b;
                          Some (r, shift_history actual_taken b') }
      | bp_tage \<Rightarrow> (case tagePredictor b of None \<Rightarrow> None
          | Some t \<Rightarrow> (let (r, t') = predict pc t in Some (r, b\<lparr>tagePredictor := Some t'\<rparr>))))"

definition updateBP :: "u64 \<Rightarrow> bool \<Rightarrow> bpred \<Rightarrow> bpred" where
  "updateBP pc actual_taken b =
     (if bp_type b = bp_tage
      then b\<lparr>tagePredictor := map_option (update actual_taken pc) (tagePredictor b)\<rparr> else b)"

section \<open>Invariant\<close>

definition counter_max :: "type_bpred \<Rightarrow> int" where
  "counter_max ty = (if ty = bp_onebit then 1 else 3)"

definition table_based :: "type_bpred \<Rightarrow> bool" where
  "table_based ty \<longleftrightarrow> ty = bp_onebit \<or> ty = bp_twobit \<or> ty = bp_gshare"

definition bpred_ok :: "bpred \<Rightarrow> bool" where
  "bpred_ok b \<longleftrightarrow> 0 < bht_size b \<and> bht_size b < 2 ^ 31 \<and> gshare_global_hist_bits b \<le> 30
     \<and> 0 \<le> gshare_global_hist b \<and> gshare_global_hist b < 2 ^ gshare_global_hist_bits b
     \<and> (table_based (bp_type b) \<longrightarrow> length (bht b) = nat (bht_size b)
          \<and> (\<forall>v \<in> set (bht b). 0 \<le> v \<and> v \<le> counter_max (bp_type b)))
     \<and> (bp_type b = bp_tage \<longrightarrow> (\<exists>t. tagePredictor b = Some t \<and> tage_ok t))"

lemma bht_index_range:
  assumes "0 < sz" "sz < 2 ^ 31"
  shows "0 \<le> bht_index x sz \<and> bht_index x sz < sz"
proof -
  let ?m = "word_of_int (sz - 1) :: u64"
  have "take_bit 64 (sz - 1) = sz - 1" using assms by (intro take_bit_int_eq_self) auto
  then have m: "uint ?m = sz - 1" by (simp add: uint_word_of_int_eq del: of_int_diff)
  have "x AND ?m \<le> ?m" by (rule word_and_le1)
  then have u: "uint (x AND ?m) \<le> sz - 1" using m by (simp add: word_le_def)
  have "uint (ucast (x AND ?m) :: u32) = uint (x AND ?m)"
    using u assms by (simp add: unsigned_ucast_eq take_bit_int_eq_self)
  moreover have "signed_take_bit 31 (uint (x AND ?m)) = uint (x AND ?m)"
  proof -
    have "signed_take_bit 31 k = k" if "0 \<le> k" "k < 2 ^ 31" for k :: int
      using that by (simp add: signed_take_bit_int_eq_self_iff)
    then show ?thesis using u assms(2) unsigned_greater_eq by (auto simp del: of_int_diff)
  qed
  ultimately have "sint (ucast (x AND ?m) :: u32) = uint (x AND ?m)"
    by (simp add: sint_uint del: of_int_diff)
  then show ?thesis using u by (simp add: bht_index_def)
qed

lemma shift_history_ok:
  assumes "bpred_ok b"
  shows "bpred_ok (shift_history a b)"
proof -
  let ?n = "gshare_global_hist_bits b"
  let ?h = "push_bit 1 (gshare_global_hist b) OR of_bool a"
  have "?h AND (push_bit ?n 1 - 1) = take_bit ?n ?h"
    by (simp add: take_bit_eq_mask mask_eq_exp_minus_1 push_bit_eq_mult)
  then have "0 \<le> ?h AND (push_bit ?n 1 - 1)" "?h AND (push_bit ?n 1 - 1) < 2 ^ ?n"
    by (simp_all only: take_bit_nonnegative take_bit_int_less_exp)
  then show ?thesis using assms by (simp add: bpred_ok_def shift_history_def Let_def)
qed

lemma bht_predict_ok:
  assumes "bpred_ok b" "table_based (bp_type b)" "hi = counter_max (bp_type b)"
  shows "\<exists>r b'. bht_predict tk hi x a b = Some (r, b') \<and> bpred_ok b'
    \<and> bp_type b' = bp_type b \<and> bht_size b' = bht_size b
    \<and> gshare_global_hist b' = gshare_global_hist b
    \<and> gshare_global_hist_bits b' = gshare_global_hist_bits b"
proof -
  define idx where "idx = nat (bht_index x (bht_size b))"
  have r: "0 \<le> bht_index x (bht_size b)" "idx < length (bht b)"
    using assms bht_index_range [of "bht_size b" x] by (auto simp: idx_def bpred_ok_def)
  have hi: "0 \<le> hi" using assms(3) by (simp add: counter_max_def)
  have c: "0 \<le> bht b ! idx" "bht b ! idx \<le> hi"
    using assms r(2) by (auto simp: bpred_ok_def)
  define v where "v = (if a then min (bht b ! idx + 1) hi else max (bht b ! idx - 1) 0)"
  have v: "0 \<le> v" "v \<le> hi" using c hi by (auto simp: v_def)
  have "bht_predict tk hi x a b = Some (tk (bht b ! idx) = a, b\<lparr>bht := (bht b)[idx := v]\<rparr>)"
    using r v by (simp add: bht_predict_def bht_train_def Let_def flip: idx_def v_def)
  moreover have "bpred_ok (b\<lparr>bht := (bht b)[idx := v]\<rparr>)"
    using assms v set_update_subset_insert [of "bht b" idx v] by (auto simp: bpred_ok_def)
  ultimately show ?thesis by auto
qed

lemma bpred_predict_ok:
  assumes "bpred_ok b"
  shows "\<exists>r b'. bpred_predict pc a b = Some (r, b') \<and> bpred_ok b' \<and> bp_type b' = bp_type b"
proof -
  consider "table_based (bp_type b)" | "bp_type b = bp_tage"
    | "\<not> table_based (bp_type b)" "bp_type b \<noteq> bp_tage" by blast
  then show ?thesis
  proof cases
    case 1
    have table: "\<exists>r b'. bht_predict tk hi x a b = Some (r, b') \<and> bpred_ok b' \<and> bp_type b' = bp_type b"
      if "hi = counter_max (bp_type b)" for tk hi x
      using bht_predict_ok [OF assms 1 that, of tk x a] by blast
    show ?thesis
    proof (cases "bp_type b")
      case bp_onebit
      then show ?thesis
        using table [of 1 "\<lambda>v. v = 1" pc] by (simp add: bpred_predict_def counter_max_def)
    next
      case bp_twobit
      then show ?thesis
        using table [of 3 "\<lambda>v. v \<ge> 2" pc] by (simp add: bpred_predict_def counter_max_def)
    next
      case bp_gshare
      then obtain r b' where "bht_predict (\<lambda>v. v \<ge> 2) 3 (pc XOR word_of_int (gshare_global_hist b)) a b = Some (r, b')"
        "bpred_ok b'" "bp_type b' = bp_type b"
        using table [of 3 "\<lambda>v. v \<ge> 2" "pc XOR word_of_int (gshare_global_hist b)"]
        by (auto simp: counter_max_def)
      with bp_gshare shift_history_ok [of b' a] show ?thesis
        by (simp add: bpred_predict_def) (simp add: shift_history_def Let_def)
    qed (use 1 in \<open>simp_all add: table_based_def\<close>)
  next
    case 2
    then obtain t where t: "tagePredictor b = Some t" "tage_ok t"
      using assms by (auto simp: bpred_ok_def)
    then have "tage_ok (snd (predict pc t))" by (simp add: predict_ok)
    with 2 t assms show ?thesis
      by (auto simp: bpred_predict_def bpred_ok_def table_based_def split: prod.splits)
  next
    case 3
    then show ?thesis using assms
      by (cases "bp_type b") (auto simp: bpred_predict_def table_based_def)
  qed
qed

lemma updateBP_ok: "bpred_ok b \<Longrightarrow> bpred_ok (updateBP pc a b)"
  by (auto simp: updateBP_def bpred_ok_def table_based_def update_ok)

section \<open>Runs\<close>

text \<open>Predictions of the table predictors, in order, with the correctness bit of each.\<close>

fun bpred_run :: "(u64 \<times> bool) list \<Rightarrow> bpred \<Rightarrow> (bool list \<times> bpred) option" where
  "bpred_run [] b = Some ([], b)"
| "bpred_run ((pc, a) # evs) b =
     do { (r, b1) \<leftarrow> bpred_predict pc a b; (rs, b2) \<leftarrow> bpred_run evs b1; Some (r # rs, b2) }"

lemma bpred_run_ok:
  "bpred_ok b \<Longrightarrow> \<exists>rs b'. bpred_run evs b = Some (rs, b') \<and> bpred_ok b' \<and> length rs = length evs"
proof (induction evs arbitrary: b)
  case (Cons e evs)
  obtain pc a where e: "e = (pc, a)" by (cases e)
  obtain r b1 where "bpred_predict pc a b = Some (r, b1)" "bpred_ok b1"
    using bpred_predict_ok [OF Cons.prems, of pc a] by blast
  with Cons.IH [of b1] show ?case by (auto simp: e)
qed simp

lemma bpred_tage_start:
  "\<exists>t. initDerivedTables 1 bpred_tage_params = Some t \<and> tage_ok t"
proof -
  have "\<exists>t. initDerivedTables 1 bpred_tage_params = Some t"
    by (simp add: initDerivedTables_def bpred_tage_params_def table_ok_def kMaxHistLen_def Let_def
        fh_init_def ilog2_eval)
  then show ?thesis
    using initDerivedTables_ok [of 1 bpred_tage_params] by (auto simp: bpred_tage_params_def)
qed

lemma Bpred_ok:
  assumes "0 < sz" "sz < 2 ^ 31" "ghr \<le> 30"
  shows "\<exists>b. Bpred ty sz ghr = Some b \<and> bpred_ok b \<and> bp_type b = ty"
  using assms bpred_tage_start
  by (cases ty) (auto simp: Bpred_def Let_def bpred_ok_def table_based_def counter_max_def)

section \<open>Learning\<close>

text \<open>One saturating counter: what the slot of a branch goes through.\<close>

definition bht_move :: "bool \<Rightarrow> int \<Rightarrow> int \<Rightarrow> int" where
  "bht_move a hi v = (if a then min (v + 1) hi else max (v - 1) 0)"

definition bht_slot :: "u64 \<Rightarrow> bpred \<Rightarrow> nat" where
  "bht_slot pc b = nat (bht_index pc (bht_size b))"

lemma bht_predict_eq:
  assumes "bpred_ok b" "table_based (bp_type b)" "hi = counter_max (bp_type b)"
  shows "bht_predict tk hi pc a b = Some (tk (bht b ! bht_slot pc b) = a,
           b\<lparr>bht := (bht b)[bht_slot pc b := bht_move a hi (bht b ! bht_slot pc b)]\<rparr>)"
    and "bht_slot pc b < length (bht b)" "0 \<le> bht b ! bht_slot pc b" "bht b ! bht_slot pc b \<le> hi"
proof -
  show r: "bht_slot pc b < length (bht b)" and i: "0 \<le> bht b ! bht_slot pc b" "bht b ! bht_slot pc b \<le> hi"
    using assms bht_index_range [of "bht_size b" pc] by (auto simp: bht_slot_def bpred_ok_def)
  have "0 \<le> bht_index pc (bht_size b)"
    using assms bht_index_range [of "bht_size b" pc] by (auto simp: bpred_ok_def)
  with r have n: "\<not> (bht_index pc (bht_size b) < 0 \<or> length (bht b) \<le> nat (bht_index pc (bht_size b)))"
    by (simp add: bht_slot_def)
  have "0 \<le> hi" using assms(3) by (simp add: counter_max_def)
  with i have "0 \<le> bht_move a hi (bht b ! bht_slot pc b) \<and> bht_move a hi (bht b ! bht_slot pc b) \<le> hi"
    by (auto simp: bht_move_def)
  then show "bht_predict tk hi pc a b = Some (tk (bht b ! bht_slot pc b) = a,
           b\<lparr>bht := (bht b)[bht_slot pc b := bht_move a hi (bht b ! bht_slot pc b)]\<rparr>)"
    using n by (simp add: bht_predict_def bht_train_def Let_def bht_slot_def bht_move_def)
qed

lemma twobit_step:
  assumes "bpred_ok b" "bp_type b = bp_twobit" "bht b ! bht_slot pc b = v"
  shows "\<exists>b'. bpred_predict pc a b = Some ((2 \<le> v) = a, b') \<and> bpred_ok b' \<and> bp_type b' = bp_twobit
    \<and> bht b' ! bht_slot pc b' = bht_move a 3 v"
proof -
  have t: "table_based (bp_type b)" "3 = counter_max (bp_type b)"
    using assms(2) by (simp_all add: table_based_def counter_max_def)
  note eq = bht_predict_eq(1) [OF assms(1) t, of "\<lambda>v. 2 \<le> v" pc a] bht_predict_eq(2) [OF assms(1) t, of pc]
  obtain b' where b': "bpred_predict pc a b = Some ((2 \<le> v) = a, b')"
    "b' = b\<lparr>bht := (bht b)[bht_slot pc b := bht_move a 3 v]\<rparr>"
    using eq(1) assms(2,3) by (simp add: bpred_predict_def)
  moreover have "bpred_ok b'" "bp_type b' = bp_type b"
    using bpred_predict_ok [OF assms(1), of pc a] b'(1) by auto
  moreover have "bht b' ! bht_slot pc b' = bht_move a 3 v"
    using eq(2) b'(2) by (simp add: bht_slot_def)
  ultimately show ?thesis using assms(2) by auto
qed

section \<open>The gshare history\<close>

lemma bit_shift_history:
  "bit (gshare_global_hist (shift_history a b)) k \<longleftrightarrow>
     k < gshare_global_hist_bits b \<and> (if k = 0 then a else bit (gshare_global_hist b) (k - 1))"
proof -
  have m: "push_bit n 1 - 1 = (mask n :: int)" for n
    by (simp add: mask_eq_exp_minus_1 push_bit_eq_mult)
  have "bit (push_bit 1 h OR of_bool a :: int) k \<longleftrightarrow> (if k = 0 then a else bit h (k - 1))" for h
    by (cases k) (auto simp: bit_simps bit_double_iff mult.commute [of _ 2] push_bit_eq_mult)
  then show ?thesis
    unfolding shift_history_def Let_def m by (auto simp: bit_simps)
qed

lemma gshare_step:
  assumes "bpred_ok b" "bp_type b = bp_gshare"
  shows "\<exists>r b'. bpred_predict pc a b = Some (r, b') \<and> bpred_ok b' \<and> bp_type b' = bp_gshare
    \<and> gshare_global_hist_bits b' = gshare_global_hist_bits b
    \<and> (\<forall>k. bit (gshare_global_hist b') k \<longleftrightarrow>
         k < gshare_global_hist_bits b \<and> (if k = 0 then a else bit (gshare_global_hist b) (k - 1)))"
proof -
  obtain r c where c: "bht_predict (\<lambda>v. 2 \<le> v) 3 (pc XOR word_of_int (gshare_global_hist b)) a b = Some (r, c)"
    "bpred_ok c" "bp_type c = bp_type b" "gshare_global_hist c = gshare_global_hist b"
    "gshare_global_hist_bits c = gshare_global_hist_bits b"
    using bht_predict_ok [OF assms(1), of 3] assms(2) by (force simp: table_based_def counter_max_def)
  have "bpred_predict pc a b = Some (r, shift_history a c)"
    using c(1) assms(2) by (simp add: bpred_predict_def)
  moreover have "bp_type (shift_history a c) = bp_gshare"
    "gshare_global_hist_bits (shift_history a c) = gshare_global_hist_bits b"
    using c assms(2) by (simp_all add: shift_history_def Let_def)
  ultimately show ?thesis
    using shift_history_ok [OF c(2), of a] bit_shift_history [of a c] c(4,5) by auto
qed

lemma gshare_run_history:
  assumes "bpred_ok b" "bp_type b = bp_gshare" "bpred_run evs b = Some (rs, b')"
    and "\<And>k. bit (gshare_global_hist b) k \<longleftrightarrow> k < gshare_global_hist_bits b \<and> taken_at outs k"
  shows "bit (gshare_global_hist b') k \<longleftrightarrow>
    k < gshare_global_hist_bits b \<and> taken_at (rev (map snd evs) @ outs) k"
  using assms
proof (induction evs arbitrary: b rs outs k)
  case (Cons e evs)
  obtain pc a where e: "e = (pc, a)" by (cases e)
  obtain r c where c: "bpred_predict pc a b = Some (r, c)" "bpred_ok c" "bp_type c = bp_gshare"
    "gshare_global_hist_bits c = gshare_global_hist_bits b"
    "\<And>k. bit (gshare_global_hist c) k \<longleftrightarrow>
         k < gshare_global_hist_bits b \<and> (if k = 0 then a else bit (gshare_global_hist b) (k - 1))"
    using gshare_step [OF Cons.prems(1,2), of pc a] by blast
  obtain rs' where rs': "bpred_run evs c = Some (rs', b')"
    using Cons.prems(3) c(1) by (auto simp: e split: bind_splits)
  have "bit (gshare_global_hist c) j \<longleftrightarrow> j < gshare_global_hist_bits c \<and> taken_at (a # outs) j" for j
    using Cons.prems(4) [of "j - 1"] by (cases j) (auto simp: c(4,5) taken_at_def)
  from Cons.IH [OF c(2,3) rs' this, of k] show ?case by (simp add: e c(4))
qed simp

section \<open>Properties\<close>

text \<open>
  C38.  The predictor never fails: for every kind, every table size from 1 to \<open>INT_MAX\<close> and every
  history length up to 30, construction succeeds and any sequence of predictions returns, so the
  masked index always lies in the table and the range assertions hold; the table counters stay
  within one bit (one-bit predictor) or two bits.
\<close>

theorem bpred_never_aborts:
  assumes "0 < sz" "sz < 2 ^ 31" "ghr \<le> 30"
  shows "\<exists>b. Bpred ty sz ghr = Some b \<and> (\<forall>evs. \<exists>rs b'. bpred_run evs b = Some (rs, b')
    \<and> length rs = length evs
    \<and> (table_based (bp_type b') \<longrightarrow> (\<forall>v \<in> set (bht b'). 0 \<le> v \<and> v \<le> counter_max (bp_type b'))))"
proof -
  obtain b where b: "Bpred ty sz ghr = Some b" "bpred_ok b" using Bpred_ok [OF assms] by blast
  have "\<exists>rs b'. bpred_run evs b = Some (rs, b') \<and> length rs = length evs
    \<and> (table_based (bp_type b') \<longrightarrow> (\<forall>v \<in> set (bht b'). 0 \<le> v \<and> v \<le> counter_max (bp_type b')))" for evs
    using bpred_run_ok [OF b(2), of evs] by (auto simp: bpred_ok_def)
  with b(1) show ?thesis by blast
qed

theorem bpred_never_aborts_witness:
  "\<exists>b. Bpred bp_gshare 1000 12 = Some b
     \<and> (\<exists>rs b'. bpred_run [(5, True), (6, False)] b = Some (rs, b') \<and> length rs = 2)"
proof -
  have "\<exists>b. Bpred bp_gshare 1000 12 = Some b \<and> (\<forall>evs. \<exists>rs b'. bpred_run evs b = Some (rs, b')
    \<and> length rs = length evs
    \<and> (table_based (bp_type b') \<longrightarrow> (\<forall>v \<in> set (bht b'). 0 \<le> v \<and> v \<le> counter_max (bp_type b'))))"
    by (rule bpred_never_aborts) simp_all
  then obtain b where b: "Bpred bp_gshare 1000 12 = Some b"
    "\<forall>evs. \<exists>rs b'. bpred_run evs b = Some (rs, b') \<and> length rs = length evs" by blast
  from spec [OF b(2), of "[(5, True), (6, False)]"] b(1) show ?thesis
    by (auto simp del: bpred_run.simps)
qed

text \<open>
  What the result of \<open>predict\<close> means.  For the static and the table predictors it says whether
  the prediction was right: there is one direction, fixed before the outcome is known, and the
  result is that direction compared with the outcome.  For TAGE it is the predicted direction
  itself, whatever the outcome.
\<close>

theorem predict_result_meaning:
  assumes "bpred_ok b" "bp_type b \<noteq> bp_none" "bp_type b \<noteq> bp_perfect"
  shows "\<exists>dir. \<forall>actual. \<exists>b'. bpred_predict pc actual b =
    Some (if bp_type b = bp_tage then dir else dir = actual, b')"
proof (cases "bp_type b")
  case bp_always_NT
  then show ?thesis by (intro exI [of _ False]) (auto simp: bpred_predict_def)
next
  case bp_always_T
  then show ?thesis by (intro exI [of _ True]) (auto simp: bpred_predict_def)
next
  case bp_onebit
  then show ?thesis
    using bht_predict_eq(1) [OF assms(1), of 1 "\<lambda>v. v = 1" pc]
    by (intro exI [of _ "bht b ! bht_slot pc b = 1"])
      (auto simp: bpred_predict_def table_based_def counter_max_def)
next
  case bp_twobit
  then show ?thesis
    using bht_predict_eq(1) [OF assms(1), of 3 "\<lambda>v. 2 \<le> v" pc]
    by (intro exI [of _ "2 \<le> bht b ! bht_slot pc b"])
      (auto simp: bpred_predict_def table_based_def counter_max_def)
next
  case bp_gshare
  let ?x = "pc XOR word_of_int (gshare_global_hist b)"
  from bp_gshare show ?thesis
    using bht_predict_eq(1) [OF assms(1), of 3 "\<lambda>v. 2 \<le> v" ?x]
    by (intro exI [of _ "2 \<le> bht b ! bht_slot ?x b"])
      (auto simp: bpred_predict_def table_based_def counter_max_def)
next
  case bp_tage
  then obtain t where "tagePredictor b = Some t" using assms(1) by (auto simp: bpred_ok_def)
  with bp_tage show ?thesis
    by (intro exI [of _ "fst (predict pc t)"]) (auto simp: bpred_predict_def split: prod.splits)
qed (use assms in simp_all)

theorem predict_result_meaning_witness:
  "\<exists>b dir. Bpred bp_tage 16 8 = Some b \<and> (\<forall>actual. \<exists>b'. bpred_predict 44 actual b = Some (dir, b'))"
proof -
  obtain b where b: "Bpred bp_tage 16 8 = Some b" "bpred_ok b" "bp_type b = bp_tage"
    using Bpred_ok [of 16 8 bp_tage] by auto
  show ?thesis using predict_result_meaning [OF b(2), of 44] b(1,3) by auto
qed

text \<open>
   The two-bit predictor learns a branch and tolerates one exception: from any reachable state,
  after two executions with the same outcome the third is predicted correctly, and after three, one
  execution with the opposite outcome does not change the prediction.
\<close>

theorem twobit_learns:
  assumes "bpred_ok b" "bp_type b = bp_twobit"
  shows "\<exists>rs b'. bpred_run [(pc, a), (pc, a), (pc, a), (pc, \<not> a), (pc, a)] b = Some (rs, b')
    \<and> rs ! 2 \<and> \<not> rs ! 3 \<and> rs ! 4"
proof -
  let ?v = "bht b ! bht_slot pc b"
  have v: "0 \<le> ?v" "?v \<le> 3"
    using bht_predict_eq(3,4) [OF assms(1), of 3 pc] assms(2) by (simp_all add: table_based_def counter_max_def)
  obtain b1 where b1: "bpred_predict pc a b = Some ((2 \<le> ?v) = a, b1)" "bpred_ok b1"
    "bp_type b1 = bp_twobit" "bht b1 ! bht_slot pc b1 = bht_move a 3 ?v"
    using twobit_step [OF assms refl] by blast
  obtain b2 where b2: "bpred_predict pc a b1 = Some ((2 \<le> bht_move a 3 ?v) = a, b2)" "bpred_ok b2"
    "bp_type b2 = bp_twobit" "bht b2 ! bht_slot pc b2 = bht_move a 3 (bht_move a 3 ?v)"
    using twobit_step [OF b1(2-4)] by blast
  define w where "w = bht_move a 3 (bht_move a 3 ?v)"
  obtain b3 where b3: "bpred_predict pc a b2 = Some ((2 \<le> w) = a, b3)" "bpred_ok b3"
    "bp_type b3 = bp_twobit" "bht b3 ! bht_slot pc b3 = bht_move a 3 w"
    using twobit_step [OF b2(2-4)] unfolding w_def by blast
  obtain b4 where b4: "bpred_predict pc (\<not> a) b3 = Some ((2 \<le> bht_move a 3 w) = (\<not> a), b4)" "bpred_ok b4"
    "bp_type b4 = bp_twobit" "bht b4 ! bht_slot pc b4 = bht_move (\<not> a) 3 (bht_move a 3 w)"
    using twobit_step [OF b3(2-4)] by blast
  obtain b5 where b5: "bpred_predict pc a b4 = Some ((2 \<le> bht_move (\<not> a) 3 (bht_move a 3 w)) = a, b5)"
    using twobit_step [OF b4(2-4)] by blast
  have "(2 \<le> w) = a" "(2 \<le> bht_move a 3 w) = a" "(2 \<le> bht_move (\<not> a) 3 (bht_move a 3 w)) = a"
    using v by (auto simp: w_def bht_move_def)
  then show ?thesis using b1(1) b2(1) b3(1) b4(1) b5 by simp
qed

theorem twobit_learns_witness:
  "\<exists>b rs b'. Bpred bp_twobit 64 0 = Some b
     \<and> bpred_run [(7, False), (7, False), (7, False), (7, True), (7, False)] b = Some (rs, b') \<and> rs ! 4"
proof -
  obtain b where b: "Bpred bp_twobit 64 0 = Some b" "bpred_ok b" "bp_type b = bp_twobit"
    using Bpred_ok [of 64 0 bp_twobit] by auto
  show ?thesis using twobit_learns [OF b(2,3), of 7 False] b(1) by auto
qed

text \<open>
   The global history register of gshare holds exactly the outcomes of the last \<open>ghrSize\<close>
  branches, the latest in bit 0.
\<close>

theorem gshare_history_exact:
  assumes "Bpred bp_gshare sz ghr = Some b" "0 < sz" "sz < 2 ^ 31" "ghr \<le> 30"
    and "bpred_run evs b = Some (rs, b')"
  shows "bit (gshare_global_hist b') k \<longleftrightarrow> k < ghr \<and> taken_at (rev (map snd evs)) k"
proof -
  have b: "bpred_ok b" "bp_type b = bp_gshare"
    using Bpred_ok [OF assms(2-4), of bp_gshare] assms(1) by auto
  have h: "gshare_global_hist b = 0" "gshare_global_hist_bits b = ghr"
    using assms(1) by (auto simp: Bpred_def Let_def)
  have "bit (gshare_global_hist b) j \<longleftrightarrow> j < gshare_global_hist_bits b \<and> taken_at [] j" for j
    by (simp add: h taken_at_def)
  from gshare_run_history [OF b assms(5) this] show ?thesis by (simp add: h)
qed

theorem gshare_history_exact_witness:
  "\<exists>b rs b'. Bpred bp_gshare 256 8 = Some b \<and> bpred_run [(4, True), (8, False), (4, True)] b = Some (rs, b')
     \<and> bit (gshare_global_hist b') 2"
proof -
  obtain b where b: "Bpred bp_gshare 256 8 = Some b" "bpred_ok b" using Bpred_ok [of 256 8 bp_gshare] by auto
  obtain rs b' where r: "bpred_run [(4, True), (8, False), (4, True)] b = Some (rs, b')"
    using bpred_run_ok [OF b(2)] by blast
  show ?thesis
    using gshare_history_exact [OF b(1) _ _ _ r, of 2] b(1) r by (auto simp: taken_at_def)
qed

end
