(* ===== verification/Fifo.thy ===== *)
theory Fifo
  imports Prelude
begin

text \<open>
  The wires and buffers of the systolic array: \<open>Connection\<close> (\<open>sim/src/SA/Connection.cpp\<close>), \<open>Fifo\<close>
  (\<open>sim/src/SA/Fifo.cpp\<close>) and the two delay lines \<open>SyncFifo\<close> and \<open>SyncFifoOld\<close> of
  \<open>sim/include/SA/Fifo.h\<close>.  A package pointer is \<open>Some p\<close>, the null pointer is \<open>None\<close>.  A build
  without \<open>DEBUG\<close> is modelled, as \<open>CMakeLists.txt\<close> sets no such macro; \<open>assert\<close> stays active.
\<close>

section \<open>Connection\<close>

record 'a connection =
  cn_bw :: u64
  cn_pending_data :: bool
  cn_data :: "'a list"
  cn_current_capacity :: u32
  cn_n_sends :: u32
  cn_n_receives :: u32

definition new_connection :: "u64 \<Rightarrow> 'a connection" where
  "new_connection bw = \<lparr>cn_bw = bw, cn_pending_data = False, cn_data = [], cn_current_capacity = 0,
     cn_n_sends = 0, cn_n_receives = 0\<rparr>"

definition cn_exist_pending_data :: "'a connection \<Rightarrow> bool" where
  "cn_exist_pending_data c = cn_pending_data c"

definition cn_send :: "'a list \<Rightarrow> 'a connection \<Rightarrow> 'a connection" where
  "cn_send d c = c\<lparr>cn_data := d, cn_pending_data := True, cn_n_sends := cn_n_sends c + 1\<rparr>"

definition cn_receive :: "'a connection \<Rightarrow> 'a list \<times> 'a connection" where
  "cn_receive c =
     (if cn_pending_data c then (cn_data c, c\<lparr>cn_pending_data := False\<rparr>)
      else ([], c\<lparr>cn_data := [], cn_pending_data := False, cn_n_receives := cn_n_receives c + 1\<rparr>))"

section \<open>Fifo\<close>

record 'a fifo =
  ff_queue :: "'a list"
  ff_capacity :: u32
  ff_capacity_words :: u32
  ff_n_pops :: u32
  ff_n_pushes :: u32
  ff_n_fronts :: u32
  ff_max_occupancy :: u32

definition new_fifo :: "u32 \<Rightarrow> 'a fifo" where
  "new_fifo capacity = \<lparr>ff_queue = [], ff_capacity = capacity, ff_capacity_words = capacity div 4,
     ff_n_pops = 0, ff_n_pushes = 0, ff_n_fronts = 0, ff_max_occupancy = 0\<rparr>"

definition ff_size :: "'a fifo \<Rightarrow> u32" where
  "ff_size f = of_nat (length (ff_queue f))"

definition ff_is_full :: "'a fifo \<Rightarrow> bool" where
  "ff_is_full f \<longleftrightarrow> length (ff_queue f) \<ge> unat (ff_capacity_words f)"

definition ff_is_empty :: "'a fifo \<Rightarrow> bool" where
  "ff_is_empty f \<longleftrightarrow> length (ff_queue f) = 0"

definition ff_push :: "'a \<Rightarrow> 'a fifo \<Rightarrow> 'a fifo" where
  "ff_push d f =
     (let f1 = f\<lparr>ff_queue := ff_queue f @ [d]\<rparr>;
          f2 = (if ff_size f1 > ff_max_occupancy f1 then f1\<lparr>ff_max_occupancy := ff_size f1\<rparr> else f1)
      in f2\<lparr>ff_n_pushes := ff_n_pushes f2 + 1\<rparr>)"

definition ff_pop :: "'a fifo \<Rightarrow> ('a \<times> 'a fifo) option" where
  "ff_pop f =
     (case ff_queue f of [] \<Rightarrow> None
      | x # q \<Rightarrow> Some (x, f\<lparr>ff_n_pops := ff_n_pops f + 1, ff_queue := q\<rparr>))"

definition ff_front :: "'a fifo \<Rightarrow> ('a \<times> 'a fifo) option" where
  "ff_front f =
     (case ff_queue f of [] \<Rightarrow> None
      | x # q \<Rightarrow> Some (x, f\<lparr>ff_n_fronts := ff_n_fronts f + 1\<rparr>))"

lemma ff_push_queue [simp]: "ff_queue (ff_push d f) = ff_queue f @ [d]"
  by (simp add: ff_push_def Let_def)

lemma ff_pushes_queue [simp]: "ff_queue (fold ff_push ds f) = ff_queue f @ ds"
  by (induction ds arbitrary: f) simp_all

lemma ff_pop_iff: "ff_pop f = Some (x, f') \<Longrightarrow> ff_queue f = x # ff_queue f'"
  by (auto simp: ff_pop_def split: list.splits)

section \<open>SyncFifo\<close>

text \<open>
  A queue followed by a shift register of \<open>cnt\<close> cells.  Each \<open>pop\<close> takes the next package of the
  queue (or null), shifts it in and returns what falls out.
\<close>

record 'a sync_fifo =
  sf_queue :: "'a option list"
  sf_capacity :: u32
  sf_buffer :: "'a option list"
  sf_cnt :: u32

definition new_sync_fifo :: "u32 \<Rightarrow> u32 \<Rightarrow> 'a sync_fifo" where
  "new_sync_fifo capacity cnt0 =
     (let cnt = cnt0 - 1
      in \<lparr>sf_queue = [], sf_capacity = capacity,
          sf_buffer = (if cnt \<noteq> 0 then replicate (unat cnt) None else []), sf_cnt = cnt\<rparr>)"

definition sf_push :: "'a option \<Rightarrow> 'a sync_fifo \<Rightarrow> 'a sync_fifo" where
  "sf_push d f = f\<lparr>sf_queue := sf_queue f @ [d]\<rparr>"

text \<open>The loop \<open>for (i = cnt - 1; i > 0; i--) buffer[i] = buffer[i - 1]\<close>.\<close>

fun shift_cells :: "nat \<Rightarrow> 'a list \<Rightarrow> 'a list" where
  "shift_cells 0 b = b"
| "shift_cells (Suc i) b = shift_cells i (b[Suc i := b ! i])"

definition sf_pop :: "'a sync_fifo \<Rightarrow> 'a option \<times> 'a sync_fifo" where
  "sf_pop f =
     (let (queued, q) = (case sf_queue f of [] \<Rightarrow> (None, []) | x # q \<Rightarrow> (x, q));
          f1 = f\<lparr>sf_queue := q\<rparr>;
          last = unat (sf_cnt f) - 1
      in if sf_buffer f \<noteq> []
         then (sf_buffer f ! last, f1\<lparr>sf_buffer := (shift_cells last (sf_buffer f))[0 := queued]\<rparr>)
         else (queued, f1))"

definition resize :: "nat \<Rightarrow> 'a option list \<Rightarrow> 'a option list" where
  "resize n b = take n b @ replicate (n - length b) None"

definition sf_set_cnt :: "u32 \<Rightarrow> 'a sync_fifo \<Rightarrow> 'a sync_fifo" where
  "sf_set_cnt n f = f\<lparr>sf_cnt := n - 1, sf_buffer := resize (unat (n - 1)) (sf_buffer f)\<rparr>"

definition sf_is_empty :: "'a sync_fifo \<Rightarrow> bool" where
  "sf_is_empty f \<longleftrightarrow> (\<forall>i\<in>set [0..<unat (sf_cnt f)]. sf_buffer f ! i = None) \<and> sf_queue f = []"

text \<open>The buffer always has \<open>cnt\<close> cells, so the index arithmetic of \<open>pop\<close> stays inside it.\<close>

definition sf_wf :: "'a sync_fifo \<Rightarrow> bool" where
  "sf_wf f \<longleftrightarrow> length (sf_buffer f) = unat (sf_cnt f)"

lemma length_shift_cells [simp]: "length (shift_cells n b) = length b"
  by (induction n b rule: shift_cells.induct) simp_all

lemma shift_cells_nth:
  "n < length b \<Longrightarrow> i < length b \<Longrightarrow>
    shift_cells n b ! i = (if 0 < i \<and> i \<le> n then b ! (i - 1) else b ! i)"
proof (induction n b arbitrary: i rule: shift_cells.induct)
  case (2 n b)
  have "i = Suc n \<or> i \<noteq> Suc n \<and> \<not> (0 < i \<and> i \<le> n \<and> i - 1 = Suc n)" by auto
  with 2 show ?case by (auto simp: nth_list_update le_Suc_eq)
qed simp

lemma shift_cells_list:
  assumes "b \<noteq> []"
  shows "(shift_cells (length b - 1) b)[0 := x] = x # butlast b"
proof (rule nth_equalityI)
  fix i assume "i < length ((shift_cells (length b - 1) b)[0 := x])"
  then have "i < length b" by simp
  then show "(shift_cells (length b - 1) b)[0 := x] ! i = (x # butlast b) ! i"
    using assms shift_cells_nth [of "length b - 1" b i]
    by (cases i) (auto simp: nth_list_update nth_butlast)
qed (use assms in simp)

text \<open>What is in flight, oldest first: the register from its end, then the queue.\<close>

definition sf_flight :: "'a sync_fifo \<Rightarrow> 'a option list" where
  "sf_flight f = rev (sf_buffer f) @ sf_queue f"

definition sf_empty_queue :: "'a sync_fifo \<Rightarrow> 'a option list" where
  "sf_empty_queue f = (if sf_queue f = [] then [None] else [])"

lemma sf_pop_flight:
  assumes "sf_wf f" "sf_pop f = (x, f')"
  shows "sf_wf f' \<and> sf_cnt f' = sf_cnt f \<and> x # sf_flight f' = sf_flight f @ sf_empty_queue f"
proof (cases "sf_buffer f = []")
  case True
  then show ?thesis
    using assms by (auto simp: sf_pop_def sf_wf_def sf_flight_def sf_empty_queue_def split: list.splits)
next
  case False
  then obtain b y where b: "sf_buffer f = b @ [y]" by (cases "sf_buffer f" rule: rev_cases) auto
  have last: "unat (sf_cnt f) - 1 = length (sf_buffer f) - 1" using assms(1) by (simp add: sf_wf_def)
  obtain queued q where q: "(case sf_queue f of [] \<Rightarrow> (None, []) | x # q \<Rightarrow> (x, q)) = (queued, q)"
    by (metis prod.exhaust)
  have f': "x = y" "f' = f\<lparr>sf_queue := q, sf_buffer := queued # b\<rparr>"
    using assms(2) False q last shift_cells_list [OF False, of queued] b
    by (auto simp: sf_pop_def Let_def)
  have "queued # q = sf_queue f @ sf_empty_queue f"
    using q by (auto simp: sf_empty_queue_def split: list.splits)
  then show ?thesis using assms(1) b by (simp add: f' sf_wf_def sf_flight_def)
qed

section \<open>SyncFifoOld\<close>

record 'a sync_fifo_old =
  so_queue :: "('a option \<times> u32) list"
  so_capacity :: u32
  so_n_pops :: u32
  so_n_pushes :: u32
  so_n_fronts :: u32
  so_max_occupancy :: u32
  so_cnt :: u32
  so_recover_cnt :: u32

definition new_sync_fifo_old :: "u32 \<Rightarrow> u32 \<Rightarrow> 'a sync_fifo_old" where
  "new_sync_fifo_old capacity cnt = \<lparr>so_queue = [], so_capacity = capacity, so_n_pops = 0,
     so_n_pushes = 0, so_n_fronts = 0, so_max_occupancy = 0, so_cnt = cnt, so_recover_cnt = cnt\<rparr>"

definition so_is_empty :: "'a sync_fifo_old \<Rightarrow> bool" where
  "so_is_empty f \<longleftrightarrow> so_queue f = []"

definition so_is_full :: "'a sync_fifo_old \<Rightarrow> bool" where
  "so_is_full f \<longleftrightarrow> length (so_queue f) \<ge> unat (so_capacity f)"

definition so_size :: "'a sync_fifo_old \<Rightarrow> u32" where
  "so_size f = of_nat (length (so_queue f))"

definition so_push :: "'a option \<Rightarrow> 'a sync_fifo_old \<Rightarrow> 'a sync_fifo_old" where
  "so_push d f =
     (let f1 = f\<lparr>so_queue := so_queue f @ [(d, so_cnt f)], so_cnt := 1\<rparr>;
          f2 = (if so_size f1 > so_max_occupancy f1 then f1\<lparr>so_max_occupancy := so_size f1\<rparr> else f1)
      in f2\<lparr>so_n_pushes := so_n_pushes f2 + 1\<rparr>)"

definition so_set_cnt :: "u32 \<Rightarrow> 'a sync_fifo_old \<Rightarrow> 'a sync_fifo_old" where
  "so_set_cnt n f = f\<lparr>so_cnt := n, so_recover_cnt := n\<rparr>"

definition so_pop :: "'a sync_fifo_old \<Rightarrow> ('a option \<times> 'a sync_fifo_old) option" where
  "so_pop f =
     (case so_queue f of [] \<Rightarrow> None
      | (d, remain) # q \<Rightarrow>
          if remain > 1 then Some (None, f\<lparr>so_queue := (d, remain - 1) # q\<rparr>)
          else Some (d, f\<lparr>so_queue := q, so_n_pops := so_n_pops f + 1\<rparr>))"

definition so_front :: "'a sync_fifo_old \<Rightarrow> ('a option \<times> 'a sync_fifo_old) option" where
  "so_front f =
     (case so_queue f of [] \<Rightarrow> None
      | (d, remain) # q \<Rightarrow> Some (d, f\<lparr>so_n_fronts := so_n_fronts f + 1\<rparr>))"

definition so_reset :: "'a sync_fifo_old \<Rightarrow> 'a sync_fifo_old" where
  "so_reset f = f\<lparr>so_cnt := so_recover_cnt f\<rparr>"

section \<open>A SyncFifo is a delay line\<close>

text \<open>One clock of a user: packages are pushed, then one pop is made.\<close>

fun sf_run :: "'a option list list \<Rightarrow> 'a sync_fifo \<Rightarrow> 'a option list \<times> 'a sync_fifo" where
  "sf_run [] f = ([], f)"
| "sf_run (ds # dss) f =
     (let (x, f1) = sf_pop (fold sf_push ds f); (xs, f2) = sf_run dss f1 in (x # xs, f2))"

lemma sf_pushes [simp]:
  "sf_queue (fold sf_push ds f) = sf_queue f @ ds"
  "sf_buffer (fold sf_push ds f) = sf_buffer f"
  "sf_cnt (fold sf_push ds f) = sf_cnt f"
  by (induction ds arbitrary: f) (simp_all add: sf_push_def)

text \<open>The stream without the register: null whenever the queue has run dry.\<close>

fun undelayed :: "'a option list list \<Rightarrow> 'a option list \<Rightarrow> 'a option list" where
  "undelayed [] q = []"
| "undelayed (ds # dss) q =
     (case q @ ds of [] \<Rightarrow> None # undelayed dss [] | x # q' \<Rightarrow> x # undelayed dss q')"

lemma sf_run_delay:
  assumes "sf_wf f"
  shows "fst (sf_run dss f) = take (length dss) (rev (sf_buffer f) @ undelayed dss (sf_queue f))"
  using assms
proof (induction dss arbitrary: f)
  case (Cons ds dss)
  let ?f = "fold sf_push ds f"
  obtain x f1 where p: "sf_pop ?f = (x, f1)" by (metis prod.exhaust)
  have wf: "sf_wf ?f" using Cons.prems by (simp add: sf_wf_def)
  note fl = sf_pop_flight [OF wf p]
  have len: "length (sf_buffer f1) = length (sf_buffer f)"
    using fl wf by (simp add: sf_wf_def)
  obtain y q' where q: "sf_queue ?f @ sf_empty_queue ?f = y # q'" "undelayed (ds # dss) (sf_queue f) = y # undelayed dss q'"
    by (cases "sf_queue f @ ds") (auto simp: sf_empty_queue_def)
  have "(x # rev (sf_buffer f1)) @ sf_queue f1 = (rev (sf_buffer f) @ [y]) @ q'"
    using fl q(1) by (simp add: sf_flight_def)
  then have eq: "x # rev (sf_buffer f1) = rev (sf_buffer f) @ [y]" "sf_queue f1 = q'"
    by (subst (asm) append_eq_append_conv; simp add: len)+
  have "fst (sf_run (ds # dss) f) = x # take (length dss) (rev (sf_buffer f1) @ undelayed dss q')"
    using Cons.IH [of f1] fl p eq(2) by (simp add: split_beta)
  also have "\<dots> = take (Suc (length dss)) ((x # rev (sf_buffer f1)) @ undelayed dss q')" by simp
  finally show ?case unfolding eq(1) q(2) by simp
qed simp

section \<open>Properties\<close>

text \<open>
  A delay line built for \<open>n\<close> cycles outputs, pop by pop, exactly the stream it was fed, each
  package \<open>n - 1\<close> pops after the queue would have delivered it, and null before: however packages
  are pushed between the pops, nothing is lost, duplicated or reordered.
\<close>

theorem sync_fifo_delays:
  assumes "0 < n"
  shows "fst (sf_run dss (new_sync_fifo capacity n)) =
    take (length dss) (replicate (unat n - 1) None @ undelayed dss [])"
proof -
  have "unat (n - 1) = unat n - 1" using assms by (simp add: unat_minus_one)
  then have f: "sf_buffer (new_sync_fifo capacity n) = replicate (unat n - 1) None"
    "sf_wf (new_sync_fifo capacity n :: 'a sync_fifo)" "sf_queue (new_sync_fifo capacity n) = []"
    by (auto simp: new_sync_fifo_def sf_wf_def Let_def)
  show ?thesis using sf_run_delay [OF f(2), of dss] by (simp add: f)
qed

theorem sync_fifo_delays_witness:
  "fst (sf_run [[Some (1 :: nat), Some 2], [], [], []] (new_sync_fifo 16 3)) = [None, None, Some 1, Some 2]"
proof -
  have "replicate 2 None = [None, None :: nat option]" by (simp add: numeral_2_eq_2)
  then show ?thesis
    using sync_fifo_delays [of 3 "[[Some (1 :: nat), Some 2], [], [], []]" 16]
    by (simp del: sf_run.simps)
qed

end
