(* ===== verification/AccBuffer.thy ===== *)
theory AccBuffer
  imports Fifo Command
begin

text \<open>
  \<open>sim/src/SA/WSAccumulationBuffer.cpp\<close>: the accumulation buffer below the array.  It counts the
  partial sums that reach its write ports; a matrix multiplication is complete when as many have
  arrived as its tile has.  Multiplications are served in order: only the oldest counts.

  The stores into the output matrix are commented out in the source, so the output index the
  loop computes has no effect; what remains of it is the division by \<open>ms_cols\<close>.
\<close>

section \<open>State\<close>

record ws_package =
  wk_source :: u32
  wk_data :: "32 word"

record ws_pending =
  wp_cmd :: nat
  wp_offset_to_MN :: u32
  wp_expected_psums :: u32
  wp_accumulated_psums :: u32
  wp_expected_rows :: u32
  wp_current_row :: u32

record acc_buffer =
  ab_port_width :: u32
  ab_n_write_ports :: u32
  ab_ms_cols :: u32
  ab_write_buffer_capacity :: u32
  ab_ports :: "ws_package connection list"
  ab_accbuf_address :: u64
  ab_write_fifo :: "ws_package fifo"
  ab_local_cycle :: u32
  ab_N :: u32
  ab_M :: u32
  ab_T_N :: u32
  ab_T_M :: u32
  ab_dataflow :: dataflow_type
  ab_pending :: "ws_pending list"

text \<open>
  The constructor builds the fifo from the member \<open>write_buffer_capacity\<close> before it sets it; that
  indeterminate value and those of the layer parameters are the argument \<open>junk\<close>.
\<close>

definition new_acc_buffer :: "u32 \<Rightarrow> u32 \<Rightarrow> u32 \<Rightarrow> u32 \<Rightarrow> dataflow_type \<Rightarrow> acc_buffer" where
  "new_acc_buffer junk port_width ms_cols capacity dataflow =
     \<lparr>ab_port_width = port_width, ab_n_write_ports = ms_cols, ab_ms_cols = ms_cols,
      ab_write_buffer_capacity = capacity,
      ab_ports = replicate (unat ms_cols) (new_connection (ucast port_width)),
      ab_accbuf_address = ucast junk, ab_write_fifo = new_fifo junk, ab_local_cycle = 0,
      ab_N = junk, ab_M = junk, ab_T_N = junk, ab_T_M = junk, ab_dataflow = dataflow, ab_pending = []\<rparr>"

definition ab_config :: "u64 \<Rightarrow> u32 \<Rightarrow> u32 \<Rightarrow> u32 \<Rightarrow> u32 \<Rightarrow> acc_buffer \<Rightarrow> acc_buffer" where
  "ab_config output_address m n t_m t_n b =
     b\<lparr>ab_N := n, ab_M := m, ab_T_M := t_m, ab_T_N := t_n, ab_accbuf_address := output_address\<rparr>"

section \<open>A cycle\<close>

fun ab_drain :: "ws_package connection list \<Rightarrow> ws_package fifo \<Rightarrow> ws_package connection list \<times> ws_package fifo" where
  "ab_drain [] f = ([], f)"
| "ab_drain (c # cs) f =
     (if cn_exist_pending_data c then
        let (received, c1) = cn_receive c;
            (cs1, f1) = ab_drain cs (fold ff_push received f)
        in (c1 # cs1, f1)
      else let (cs1, f1) = ab_drain cs f in (c # cs1, f1))"

definition ab_receive :: "acc_buffer \<Rightarrow> acc_buffer" where
  "ab_receive b =
     (let (ports, f) = ab_drain (ab_ports b) (ab_write_fifo b) in b\<lparr>ab_ports := ports, ab_write_fifo := f\<rparr>)"

text \<open>\<open>current\<close> is a reference to the front of \<open>pending_cmds\<close>: its fields change in place.\<close>

definition upd_front :: "(ws_pending \<Rightarrow> ws_pending) \<Rightarrow> acc_buffer \<Rightarrow> acc_buffer" where
  "upd_front g b = b\<lparr>ab_pending := (case ab_pending b of [] \<Rightarrow> [] | p # ps \<Rightarrow> g p # ps)\<rparr>"

fun ab_take :: "nat \<Rightarrow> acc_buffer \<Rightarrow> acc_buffer option" where
  "ab_take 0 b = Some b"
| "ab_take (Suc n) b =
     do { assert_that (ab_pending b \<noteq> []);
          (pck, f) \<leftarrow> ff_pop (ab_write_fifo b);
          assert_that (ab_ms_cols b \<noteq> 0);
          ab_take n (upd_front (\<lambda>p. p\<lparr>wp_accumulated_psums := wp_accumulated_psums p + 1\<rparr>)
                       (b\<lparr>ab_write_fifo := f\<rparr>)) }"

text \<open>\<open>int size_of_fifo\<close>: the unsigned size is read as a signed number, so a loop over it does not
  run at all from 2 ^ 31 packages on.\<close>

definition ab_accumulate :: "acc_buffer \<Rightarrow> acc_buffer option" where
  "ab_accumulate b =
     (if ff_is_empty (ab_write_fifo b) then Some b
      else do { b1 \<leftarrow> ab_take (nat (sint (ff_size (ab_write_fifo b)))) b;
                Some (upd_front (\<lambda>p. p\<lparr>wp_current_row := wp_current_row p + 1\<rparr>) b1) })"

definition ab_cycle :: "acc_buffer \<Rightarrow> acc_buffer option" where
  "ab_cycle b = ab_accumulate (ab_receive (b\<lparr>ab_local_cycle := ab_local_cycle b + 1\<rparr>))"

section \<open>Commands\<close>

definition ab_matrix_multiply :: "u32 \<Rightarrow> u32 \<Rightarrow> u32 \<Rightarrow> nat \<Rightarrow> acc_buffer \<Rightarrow> acc_buffer" where
  "ab_matrix_multiply t_m t_n offset_to_MN cmd b =
     b\<lparr>ab_pending := ab_pending b @
        [\<lparr>wp_cmd = cmd, wp_offset_to_MN = offset_to_MN,
          wp_expected_psums = (case ab_dataflow b of DATAFLOW_WS \<Rightarrow> t_m * t_n
                               | DATAFLOW_OS \<Rightarrow> ab_T_M b * ab_T_N b),
          wp_accumulated_psums = 0, wp_expected_rows = t_n, wp_current_row = 0\<rparr>]\<rparr>"

definition is_psums_accumulated :: "acc_buffer \<Rightarrow> bool" where
  "is_psums_accumulated b =
     (case ab_pending b of [] \<Rightarrow> False | p # _ \<Rightarrow> wp_accumulated_psums p \<ge> wp_expected_psums p)"

definition reset_psums_accumulated :: "acc_buffer \<Rightarrow> acc_buffer" where
  "reset_psums_accumulated b =
     (if is_psums_accumulated b then b\<lparr>ab_pending := tl (ab_pending b)\<rparr> else b)"

definition get_head_command :: "acc_buffer \<Rightarrow> nat option" where
  "get_head_command b = (case ab_pending b of [] \<Rightarrow> None | p # _ \<Rightarrow> Some (wp_cmd p))"

section \<open>Counting\<close>

text \<open>The commands the buffer works on, and the packages waiting at its ports.\<close>

definition ab_cmds :: "acc_buffer \<Rightarrow> nat list" where
  "ab_cmds b = map wp_cmd (ab_pending b)"

fun port_data :: "ws_package connection list \<Rightarrow> ws_package list" where
  "port_data [] = []"
| "port_data (c # cs) = (if cn_pending_data c then cn_data c else []) @ port_data cs"

lemma ab_drain_queue:
  "ab_drain cs f = (cs', f') \<Longrightarrow> ff_queue f' = ff_queue f @ port_data cs \<and> port_data cs' = []"
proof (induction cs arbitrary: f cs' f')
  case (Cons c cs)
  show ?case
  proof (cases "cn_pending_data c")
    case True
    obtain cs1 f1 where d: "ab_drain cs (fold ff_push (cn_data c) f) = (cs1, f1)" by fastforce
    with Cons.prems True have "cs' = c\<lparr>cn_pending_data := False\<rparr> # cs1" "f' = f1"
      by (simp_all add: cn_exist_pending_data_def cn_receive_def)
    with Cons.IH [OF d] True show ?thesis by simp
  next
    case False
    obtain cs1 f1 where d: "ab_drain cs f = (cs1, f1)" by fastforce
    with Cons.prems False have "cs' = c # cs1" "f' = f1"
      by (simp_all add: cn_exist_pending_data_def)
    with Cons.IH [OF d] False show ?thesis by simp
  qed
qed simp

lemma ab_receive_simps [simp]:
  "ff_queue (ab_write_fifo (ab_receive b)) = ff_queue (ab_write_fifo b) @ port_data (ab_ports b)"
  "port_data (ab_ports (ab_receive b)) = []"
  "ab_pending (ab_receive b) = ab_pending b" "ab_ms_cols (ab_receive b) = ab_ms_cols b"
proof -
  obtain ports f where d: "ab_drain (ab_ports b) (ab_write_fifo b) = (ports, f)" by fastforce
  from ab_drain_queue [OF d] show
    "ff_queue (ab_write_fifo (ab_receive b)) = ff_queue (ab_write_fifo b) @ port_data (ab_ports b)"
    "port_data (ab_ports (ab_receive b)) = []"
    "ab_pending (ab_receive b) = ab_pending b" "ab_ms_cols (ab_receive b) = ab_ms_cols b"
    by (simp_all add: ab_receive_def d)
qed

lemma upd_front_simps [simp]:
  "ab_write_fifo (upd_front g b) = ab_write_fifo b" "ab_ms_cols (upd_front g b) = ab_ms_cols b"
  "ab_ports (upd_front g b) = ab_ports b" "ab_pending (upd_front g b) = [] \<longleftrightarrow> ab_pending b = []"
  by (auto simp: upd_front_def split: list.splits)

lemma ab_take_spec:
  assumes "ab_pending b = p # ps" "ab_ms_cols b \<noteq> 0" "n \<le> length (ff_queue (ab_write_fifo b))"
  shows "\<exists>b'. ab_take n b = Some b' \<and> ff_queue (ab_write_fifo b') = drop n (ff_queue (ab_write_fifo b)) \<and>
    ab_ports b' = ab_ports b \<and>
    ab_pending b' = p\<lparr>wp_accumulated_psums := wp_accumulated_psums p + of_nat n\<rparr> # ps"
  using assms
proof (induction n arbitrary: b p)
  case (Suc n)
  then obtain x q where q: "ff_queue (ab_write_fifo b) = x # q" "n \<le> length q"
    by (cases "ff_queue (ab_write_fifo b)") auto
  then obtain f where f: "ff_pop (ab_write_fifo b) = Some (x, f)" "ff_queue f = q"
    by (simp add: ff_pop_def)
  let ?p = "p\<lparr>wp_accumulated_psums := wp_accumulated_psums p + 1\<rparr>"
  let ?b = "upd_front (\<lambda>p. p\<lparr>wp_accumulated_psums := wp_accumulated_psums p + 1\<rparr>) (b\<lparr>ab_write_fifo := f\<rparr>)"
  have "ab_pending ?b = ?p # ps" using Suc.prems(1) by (simp add: upd_front_def)
  from Suc.IH [OF this] Suc.prems f q show ?case by (auto simp: add_ac)
qed simp

lemma int_of_size:
  assumes "k < 2 ^ 32"
  shows "nat (sint (of_nat k :: u32)) = (if k < 2 ^ 31 then k else 0)"
proof -
  have "uint (of_nat k :: u32) = int k"
    using assms by (simp add: uint_nat unat_of_nat take_bit_nat_eq_self)
  then have s: "sint (of_nat k :: u32) = signed_take_bit 31 (int k)" by (simp add: sint_uint)
  show ?thesis
  proof (cases "k < 2 ^ 31")
    case True
    then have "signed_take_bit 31 (int k) = int k" by (simp add: signed_take_bit_int_eq_self)
    with True s show ?thesis by simp
  next
    case False
    then have "k div 2 ^ 31 = 1" using assms by (intro div_nat_eqI) simp_all
    then have "bit k 31" by (simp add: bit_iff_odd)
    then have "bit (int k) 31" by (simp add: bit_of_nat_iff)
    then have "sint (of_nat k :: u32) < 0"
      unfolding s by (simp add: signed_take_bit_negative_iff)
    with False show ?thesis by simp
  qed
qed

lemma ab_cycle_counts:
  assumes "ab_pending b = p # ps" "ab_ms_cols b \<noteq> 0"
    "queued = ff_queue (ab_write_fifo b) @ port_data (ab_ports b)" "length queued < 2 ^ 32"
    "n = (if length queued < 2 ^ 31 then length queued else 0)"
  shows "\<exists>b'. ab_cycle b = Some b' \<and> port_data (ab_ports b') = [] \<and>
    ff_queue (ab_write_fifo b') = drop n queued \<and>
    ab_pending b' = p\<lparr>wp_accumulated_psums := wp_accumulated_psums p + of_nat n,
      wp_current_row := wp_current_row p + (if queued = [] then 0 else 1)\<rparr> # ps"
proof -
  let ?b = "ab_receive (b\<lparr>ab_local_cycle := ab_local_cycle b + 1\<rparr>)"
  have q: "ff_queue (ab_write_fifo ?b) = queued" using assms(3) by simp
  show ?thesis
  proof (cases "queued = []")
    case True
    then show ?thesis
      using assms(1,5) q by (simp add: ab_cycle_def ab_accumulate_def ff_is_empty_def)
  next
    case False
    have "nat (sint (ff_size (ab_write_fifo ?b))) = n"
      unfolding ff_size_def q int_of_size [OF assms(4)] using assms(5) by simp
    with ab_take_spec [of ?b p ps n] assms(1,2,5) False q show ?thesis
      by (auto simp: ab_cycle_def ab_accumulate_def ff_is_empty_def upd_front_def)
  qed
qed

lemma ab_cycle_spec:
  assumes "ab_pending b = p # ps" "ab_ms_cols b \<noteq> 0"
    "k = length (ff_queue (ab_write_fifo b)) + length (port_data (ab_ports b))" "k < 2 ^ 31"
  shows "\<exists>b'. ab_cycle b = Some b' \<and> ff_queue (ab_write_fifo b') = [] \<and> port_data (ab_ports b') = [] \<and>
    ab_pending b' = p\<lparr>wp_accumulated_psums := wp_accumulated_psums p + of_nat k,
      wp_current_row := wp_current_row p + (if k = 0 then 0 else 1)\<rparr> # ps"
  using ab_cycle_counts [OF assms(1,2) refl] assms(3,4) by auto

lemma ab_drain_pending [simp]: "ab_cmds (ab_receive b) = ab_cmds b" "ab_dataflow (ab_receive b) = ab_dataflow b"
  by (auto simp: ab_cmds_def ab_receive_def split: prod.splits)

lemma ab_cmds_fifo [simp]: "ab_cmds (b\<lparr>ab_write_fifo := f\<rparr>) = ab_cmds b"
  "ab_cmds (b\<lparr>ab_local_cycle := t\<rparr>) = ab_cmds b"
  by (simp_all add: ab_cmds_def)

lemma upd_front_cmds [simp]: "(\<And>p. wp_cmd (g p) = wp_cmd p) \<Longrightarrow> ab_cmds (upd_front g b) = ab_cmds b"
  by (simp add: ab_cmds_def upd_front_def split: list.split)

lemma ab_take_cmds: "ab_take n b = Some b' \<Longrightarrow> ab_cmds b' = ab_cmds b"
proof (induction n arbitrary: b)
  case (Suc n)
  then obtain f where "ab_take n (upd_front (\<lambda>p. p\<lparr>wp_accumulated_psums := wp_accumulated_psums p + 1\<rparr>)
      (b\<lparr>ab_write_fifo := f\<rparr>)) = Some b'"
    by (auto split: bind_splits)
  from Suc.IH [OF this] show ?case by simp
qed simp

lemma ab_cycle_cmds: "ab_cycle b = Some b' \<Longrightarrow> ab_cmds b' = ab_cmds b"
  by (auto simp: ab_cycle_def ab_accumulate_def dest!: ab_take_cmds split: if_splits bind_splits)

lemma ab_commands_simps [simp]:
  "ab_cmds (ab_matrix_multiply t_m t_n off c b) = ab_cmds b @ [c]"
  "ab_cmds (ab_config a m n t_m t_n b) = ab_cmds b"
  "is_psums_accumulated b \<Longrightarrow> ab_cmds (reset_psums_accumulated b) = tl (ab_cmds b)"
  by (simp_all add: ab_cmds_def ab_matrix_multiply_def ab_config_def reset_psums_accumulated_def map_tl)

lemma ab_head:
  "is_psums_accumulated b \<Longrightarrow> \<exists>c cs. ab_cmds b = c # cs \<and> get_head_command b = Some c"
  by (auto simp: is_psums_accumulated_def ab_cmds_def get_head_command_def split: list.splits)

section \<open>Properties\<close>

text \<open>
  C22. Partial sums are counted exactly and for the oldest multiplication only: a cycle of the
  accumulation buffer empties its ports into its fifo, and below 2 ^ 31 packages empties the fifo
  and adds their number to the count of the multiplication at the head; it advances the row of that
  multiplication when there was any package and leaves every younger multiplication as it was.
  From 2 ^ 31 packages on the size is negative as the \<open>int\<close> it is stored in: none is taken.
\<close>

theorem psums_counted_exactly:
  assumes "ab_pending b = p # ps" "ab_ms_cols b \<noteq> 0"
    "queued = ff_queue (ab_write_fifo b) @ port_data (ab_ports b)" "length queued < 2 ^ 32"
  shows "\<exists>b'. ab_cycle b = Some b' \<and> port_data (ab_ports b') = [] \<and>
    ff_queue (ab_write_fifo b') = (if length queued < 2 ^ 31 then [] else queued) \<and>
    ab_pending b' = p\<lparr>wp_accumulated_psums := wp_accumulated_psums p +
        (if length queued < 2 ^ 31 then of_nat (length queued) else 0),
      wp_current_row := wp_current_row p + (if queued = [] then 0 else 1)\<rparr> # ps"
  using ab_cycle_counts [OF assms refl] by (cases "length queued < 2 ^ 31") simp_all

definition demo_ab :: acc_buffer where
  "demo_ab = ab_matrix_multiply 1 2 0 7
     ((new_acc_buffer 0 1 2 64 DATAFLOW_WS)\<lparr>ab_ports :=
        map (\<lambda>i. cn_send [\<lparr>wk_source = i, wk_data = 5\<rparr>] (new_connection 1)) [0, 1]\<rparr>)"

theorem psums_counted_exactly_witness:
  "\<exists>b'. ab_cycle demo_ab = Some b' \<and> is_psums_accumulated b' \<and> get_head_command b' = Some 7"
proof -
  note d = demo_ab_def ab_matrix_multiply_def new_acc_buffer_def cn_send_def new_connection_def new_fifo_def
  let ?p = "\<lparr>wp_cmd = 7, wp_offset_to_MN = 0, wp_expected_psums = 2, wp_accumulated_psums = 0,
    wp_expected_rows = 2, wp_current_row = 0\<rparr>"
  have "ab_pending demo_ab = ?p # []" "ab_ms_cols demo_ab \<noteq> 0"
    "length (ff_queue (ab_write_fifo demo_ab) @ port_data (ab_ports demo_ab)) < 2 ^ 32"
    by (simp_all add: d)
  from psums_counted_exactly [OF this(1,2) refl this(3)] obtain b' where b': "ab_cycle demo_ab = Some b'"
    "ab_pending b' = [?p\<lparr>wp_accumulated_psums := 2, wp_current_row := 1\<rparr>]"
    by (auto simp: d)
  then show ?thesis by (simp add: is_psums_accumulated_def get_head_command_def)
qed

end
