(* ===== verification/ArrayWires.thy ===== *)
theory ArrayWires
  imports AccBuffer
begin

text \<open>
  What travels in the systolic array: the packages of \<open>sim/src/SA/DataPackage.cpp\<close> and the connections
  between memory ports, distribution trees and multipliers.  A \<open>Connection *\<close> is a name into a store of
  connections, so that two components that hold the same pointer see the same wire.

  \<open>data_t\<close> is \<open>int\<close>; its arithmetic is taken modulo \<open>2 ^ 32\<close>.  A package is owned by one queue or wire
  at a time and is a value here.
\<close>

section \<open>Packages\<close>

datatype operand = WEIGHT | IACTIVATION | OACTIVATION | PSUM | COMPUTED_PSUM

datatype traffic = BROADCAST | MULTICAST | UNICAST

text \<open>
  The accumulation buffer reads \<open>source\<close> and \<open>data\<close> only (\<open>ws_package\<close>).  Fields a constructor
  leaves unset are 0 here; the code reads none of them before it sets them.
\<close>

record package = ws_package +
  pk_size :: u64
  pk_type :: operand
  pk_traffic :: traffic
  pk_dests :: "bool list"
  pk_unicast_dest :: u32
  pk_VN :: u32

definition new_package :: "u64 \<Rightarrow> u32 \<Rightarrow> operand \<Rightarrow> u32 \<Rightarrow> traffic \<Rightarrow> package" where
  "new_package sz d ty source tr =
     \<lparr>wk_source = source, wk_data = d, pk_size = sz, pk_type = ty, pk_traffic = tr, pk_dests = [],
      pk_unicast_dest = 0, pk_VN = 0\<rparr>"

definition new_unicast :: "u64 \<Rightarrow> u32 \<Rightarrow> operand \<Rightarrow> u32 \<Rightarrow> u32 \<Rightarrow> package" where
  "new_unicast sz d ty source dest = (new_package sz d ty source UNICAST)\<lparr>pk_unicast_dest := dest\<rparr>"

definition new_multicast :: "u64 \<Rightarrow> u32 \<Rightarrow> operand \<Rightarrow> u32 \<Rightarrow> bool list \<Rightarrow> package" where
  "new_multicast sz d ty source dests = (new_package sz d ty source MULTICAST)\<lparr>pk_dests := dests\<rparr>"

definition new_psum :: "u64 \<Rightarrow> u32 \<Rightarrow> operand \<Rightarrow> u32 \<Rightarrow> u32 \<Rightarrow> package" where
  "new_psum sz d ty source vn = (new_package sz d ty source UNICAST)\<lparr>pk_VN := vn\<rparr>"

lemma package_simps [simp]:
  "wk_data (new_package sz d ty src tr) = d" "pk_type (new_package sz d ty src tr) = ty"
  "pk_traffic (new_package sz d ty src tr) = tr"
  "wk_data (new_unicast sz d ty src dest) = d" "pk_type (new_unicast sz d ty src dest) = ty"
  "pk_traffic (new_unicast sz d ty src dest) = UNICAST" "pk_unicast_dest (new_unicast sz d ty src dest) = dest"
  "wk_data (new_psum sz d ty src vn) = d" "pk_type (new_psum sz d ty src vn) = ty"
  by (simp_all add: new_package_def new_unicast_def new_psum_def)

section \<open>Connections\<close>

text \<open>
  The connections by who creates them: \<open>DSNetworkTop\<close> (one per read port), \<open>DSNetwork\<close> (port, level,
  position), and the vertical and horizontal links into a multiplier (row, column).
\<close>

datatype wire = InPort nat | Tree nat nat nat | Vertical nat nat | Horizontal nat nat

type_synonym wires = "wire \<Rightarrow> package connection"

definition wire_send :: "wire \<Rightarrow> package list \<Rightarrow> wires \<Rightarrow> wires" where
  "wire_send c ps cs = cs(c := cn_send ps (cs c))"

text \<open>\<open>if (c->existPendingData()) data = c->receive()\<close>\<close>

definition wire_receive :: "wire \<Rightarrow> wires \<Rightarrow> package list \<times> wires" where
  "wire_receive c cs =
     (if cn_exist_pending_data (cs c) then let (ps, c1) = cn_receive (cs c) in (ps, cs(c := c1)) else ([], cs))"

definition pending :: "package connection \<Rightarrow> package list" where
  "pending c = (if cn_pending_data c then cn_data c else [])"

lemma wire_receive_simps [simp]:
  "fst (wire_receive c cs) = pending (cs c)"
  "snd (wire_receive c cs) = (if cn_pending_data (cs c) then cs(c := cs c\<lparr>cn_pending_data := False\<rparr>) else cs)"
  by (simp_all add: wire_receive_def cn_exist_pending_data_def cn_receive_def pending_def)

lemma wire_pending_simps [simp]:
  "pending (cn_send ps c) = ps" "pending (c\<lparr>cn_pending_data := False\<rparr>) = []"
  by (simp_all add: pending_def cn_send_def)

end
