(* ===== verification/MultiplierWS.thy ===== *)
theory MultiplierWS
  imports ArrayWires
begin

text \<open>
  The processing element of the weight-stationary array: \<open>sim/src/SA/MultiplierWS.cpp\<close> and
  \<open>sim/include/SA/MultiplierWS.h\<close>.  It keeps two weights (one in use, one being loaded), multiplies what comes
  from the left with the weight in use, adds the partial sum from above and passes all three on.

  The counters of \<open>mswitchStats\<close>, which only feed the report, are left out.  \<open>cycle\<close> deletes the last weight of a
  preload and then reads it: what a read of a deleted package returns is the argument \<open>freed\<close>.
\<close>

section \<open>State\<close>

record act_limit =
  al_cycle :: u32
  al_T_K :: u32
  al_T_M :: u32
  al_T_N :: u32

record multiplier =
  ms_row_num :: nat
  ms_col_num :: nat
  ms_rows :: nat
  ms_cols :: nat
  ms_top_weight_fifo :: "package sync_fifo"
  ms_top_psum_fifo :: "package sync_fifo"
  ms_left_fifo :: "package sync_fifo"
  ms_right_fifo :: "package sync_fifo"
  ms_bottom_weight_fifo :: "package sync_fifo"
  ms_bottom_psum_fifo :: "package sync_fifo"
  ms_accbuffer_fifo :: "package sync_fifo"
  ms_left_connection :: "wire option"
  ms_right_connection :: "wire option"
  ms_top_connection :: "wire option"
  ms_bottom_connection :: "wire option"
  ms_accbuffer_connection :: "nat option"
  ms_local_cycle :: u32
  ms_VN :: u32
  ms_forward_right :: bool
  ms_forward_bottom :: bool
  ms_weight1 :: u32
  ms_weight2 :: u32
  ms_c1_counter :: u32
  ms_c2_counter :: u32
  ms_weight_limit :: u32
  ms_weight_count :: u32
  ms_activation_limit :: u32
  ms_prop :: bool
  ms_preload_finished :: bool
  ms_flip_ready :: bool
  ms_flip_counter :: int
  ms_act_limit_queue :: "act_limit list"
  ms_do_output :: bool

definition ms_num :: "multiplier \<Rightarrow> u32" where
  "ms_num m = of_nat (ms_row_num m * ms_cols m + ms_col_num m)"

definition new_multiplier :: "u32 \<Rightarrow> nat \<Rightarrow> nat \<Rightarrow> nat \<Rightarrow> nat \<Rightarrow> multiplier" where
  "new_multiplier capacity rows cols row col =
     (let left_cnt = (if col = 0 then row + 1 else 1);
          acc_cnt = (if row = rows - 1 then cols - col else 1);
          top_cnt = (if row = 0 then col + 1 else 1)
      in \<lparr>ms_row_num = row, ms_col_num = col, ms_rows = rows, ms_cols = cols,
          ms_top_weight_fifo = new_sync_fifo capacity (of_nat top_cnt),
          ms_top_psum_fifo = new_sync_fifo capacity 1, ms_left_fifo = new_sync_fifo capacity (of_nat left_cnt),
          ms_right_fifo = new_sync_fifo capacity 1, ms_bottom_weight_fifo = new_sync_fifo capacity 1,
          ms_bottom_psum_fifo = new_sync_fifo capacity 1, ms_accbuffer_fifo = new_sync_fifo capacity (of_nat acc_cnt),
          ms_left_connection = None, ms_right_connection = None, ms_top_connection = None,
          ms_bottom_connection = None, ms_accbuffer_connection = None, ms_local_cycle = 0, ms_VN = 0,
          ms_forward_right = False, ms_forward_bottom = False, ms_weight1 = 0, ms_weight2 = 0,
          ms_c1_counter = 0, ms_c2_counter = 0, ms_weight_limit = of_nat (rows - row), ms_weight_count = 0,
          ms_activation_limit = 1, ms_prop = False, ms_preload_finished = False, ms_flip_ready = True,
          ms_flip_counter = -1, ms_act_limit_queue = [], ms_do_output = False\<rparr>)"

section \<open>Commands\<close>

definition ms_preload :: "multiplier \<Rightarrow> multiplier" where
  "ms_preload m = m\<lparr>ms_weight_limit := of_nat (ms_rows m - ms_row_num m), ms_weight_count := 0, ms_flip_ready := False\<rparr>"

text \<open>The limit takes effect when the first activation of the tile reaches the element.\<close>

definition push_limit :: "u32 \<Rightarrow> u32 \<Rightarrow> u32 \<Rightarrow> multiplier \<Rightarrow> multiplier" where
  "push_limit t_m t_k t_n m =
     (if ms_act_limit_queue m = [] \<or> al_T_M (last (ms_act_limit_queue m)) \<noteq> t_m
      then m\<lparr>ms_act_limit_queue := ms_act_limit_queue m @
               [\<lparr>al_cycle = ms_local_cycle m + of_nat (ms_row_num m) + of_nat (ms_col_num m),
                 al_T_K = t_k, al_T_M = t_m, al_T_N = t_n\<rparr>]\<rparr>
      else m)"

definition ms_MatrixMultiply :: "u32 \<Rightarrow> u32 \<Rightarrow> u32 \<Rightarrow> multiplier \<Rightarrow> multiplier" where
  "ms_MatrixMultiply t_m t_k t_n m = push_limit t_m t_k t_n m"

definition ms_MatrixMultiplyFlip :: "u32 \<Rightarrow> u32 \<Rightarrow> u32 \<Rightarrow> multiplier \<Rightarrow> multiplier" where
  "ms_MatrixMultiplyFlip t_m t_k t_n m =
     push_limit t_m t_k t_n (m\<lparr>ms_flip_counter := int (ms_row_num m + ms_col_num m)\<rparr>)"

definition ms_setActivationLimit :: "u32 \<Rightarrow> multiplier \<Rightarrow> multiplier" where
  "ms_setActivationLimit n m = m\<lparr>ms_activation_limit := n\<rparr>"

definition ms_setPropSignal :: "bool \<Rightarrow> multiplier \<Rightarrow> multiplier" where
  "ms_setPropSignal b m = m\<lparr>ms_prop := b\<rparr>"

definition ms_configure :: "bool \<Rightarrow> bool \<Rightarrow> u32 \<Rightarrow> multiplier \<Rightarrow> multiplier" where
  "ms_configure bottom right vn m = m\<lparr>ms_forward_bottom := bottom, ms_forward_right := right, ms_VN := vn\<rparr>"

definition ms_reset_weights_preloaded :: "multiplier \<Rightarrow> multiplier" where
  "ms_reset_weights_preloaded m = m\<lparr>ms_preload_finished := False\<rparr>"

section \<open>A cycle\<close>

text \<open>\<open>if (!f->isEmpty()) x = f->pop()\<close>\<close>

definition fifo_take :: "'a sync_fifo \<Rightarrow> 'a option \<times> 'a sync_fifo" where
  "fifo_take f = (if sf_is_empty f then (None, f) else sf_pop f)"

definition fifo_put :: "'a option \<Rightarrow> 'a sync_fifo \<Rightarrow> 'a sync_fifo" where
  "fifo_put x f = (case x of None \<Rightarrow> f | Some p \<Rightarrow> sf_push (Some p) f)"

definition ms_receive :: "multiplier \<times> wires \<Rightarrow> (multiplier \<times> wires) option" where
  "ms_receive = (\<lambda>(m, cs).
     do { l \<leftarrow> ms_left_connection m;
          let (acts, cs1) = wire_receive l cs;
          assert_that (cn_exist_pending_data (cs l) \<longrightarrow> length acts = 1);
          assert_that (\<forall>p\<in>set acts. pk_type p = IACTIVATION);
          t \<leftarrow> ms_top_connection m;
          let (tops, cs2) = wire_receive t cs1;
          assert_that (\<forall>p\<in>set tops. pk_type p = WEIGHT \<or> pk_type p = COMPUTED_PSUM);
          Some (m\<lparr>ms_left_fifo := fold sf_push (map Some acts) (ms_left_fifo m),
                  ms_top_weight_fifo := fold sf_push (map Some (filter (\<lambda>p. pk_type p = WEIGHT) tops)) (ms_top_weight_fifo m),
                  ms_top_psum_fifo := fold sf_push (map Some (filter (\<lambda>p. pk_type p \<noteq> WEIGHT) tops)) (ms_top_psum_fifo m)\<rparr>,
                cs2) })"

definition ms_flip :: "multiplier \<Rightarrow> multiplier" where
  "ms_flip m =
     (if ms_flip_counter m \<ge> 0
      then (if ms_flip_counter m = 0 then m\<lparr>ms_prop := \<not> ms_prop m, ms_flip_ready := False\<rparr> else m)
             \<lparr>ms_flip_counter := ms_flip_counter m - 1\<rparr>
      else m)"

definition ms_limits :: "multiplier \<Rightarrow> multiplier" where
  "ms_limits m =
     (case ms_act_limit_queue m of
        [] \<Rightarrow> m
      | l # rest \<Rightarrow>
          if al_cycle l = ms_local_cycle m
          then (if ms_row_num m = ms_rows m - 1
                then m\<lparr>ms_do_output := (of_nat (ms_col_num m) \<le> al_T_N l - 1)\<rparr> else m)
                 \<lparr>ms_activation_limit := al_T_M l, ms_act_limit_queue := rest\<rparr>
          else m)"

text \<open>The count of weights; the last of a preload is deleted, not forwarded.\<close>

definition ms_count :: "package option \<Rightarrow> multiplier \<Rightarrow> bool \<times> multiplier" where
  "ms_count weight m =
     (let m1 = (if weight \<noteq> None then m\<lparr>ms_weight_count := ms_weight_count m + 1\<rparr> else m)
      in if ms_weight_count m1 \<ge> ms_weight_limit m1
         then (True, m1\<lparr>ms_weight_count := 0, ms_preload_finished := True, ms_flip_ready := True\<rparr>)
         else (False, m1))"

text \<open>The register the element loads and the one it multiplies with, according to \<open>prop\<close>.\<close>

definition ms_load :: "u32 option \<Rightarrow> multiplier \<Rightarrow> multiplier" where
  "ms_load d m =
     (case d of None \<Rightarrow> m | Some x \<Rightarrow> if ms_prop m then m\<lparr>ms_weight1 := x\<rparr> else m\<lparr>ms_weight2 := x\<rparr>)"

definition ms_mac :: "package option \<Rightarrow> u32 \<Rightarrow> multiplier \<Rightarrow> package option \<times> multiplier" where
  "ms_mac act psum m =
     (case act of
        None \<Rightarrow> (None, m)
      | Some a \<Rightarrow>
          if ms_prop m
          then (Some (new_psum 4 (wk_data a * ms_weight2 m + psum) COMPUTED_PSUM (ms_num m) (ms_VN m)),
                m\<lparr>ms_c1_counter := ms_c1_counter m + 1, ms_flip_ready := False\<rparr>)
          else (Some (new_psum 4 (wk_data a * ms_weight1 m + psum) COMPUTED_PSUM (ms_num m) (ms_VN m)),
                m\<lparr>ms_c2_counter := ms_c2_counter m + 1, ms_flip_ready := False\<rparr>))"

definition ms_tile_done :: "multiplier \<Rightarrow> multiplier" where
  "ms_tile_done m =
     (if ms_prop m
      then if ms_c1_counter m \<ge> ms_activation_limit m then m\<lparr>ms_c1_counter := 0, ms_flip_ready := True\<rparr> else m
      else if ms_c2_counter m \<ge> ms_activation_limit m then m\<lparr>ms_c2_counter := 0, ms_flip_ready := True\<rparr> else m)"

text \<open>The results: the partial sum and the weight to pass on.\<close>

definition ms_compute ::
    "(package \<Rightarrow> u32) \<Rightarrow> package option \<Rightarrow> package option \<Rightarrow> package option \<Rightarrow> multiplier \<Rightarrow>
     package option \<times> package option \<times> multiplier" where
  "ms_compute freed weight psum_in act m =
     (let psum = (case psum_in of None \<Rightarrow> 0 | Some p \<Rightarrow> wk_data p);
          (is_last, m1) = ms_count weight m;
          m2 = ms_load (map_option (if is_last then freed else wk_data) weight) m1;
          (out, m3) = ms_mac act psum m2
      in (out, if is_last then None else weight, ms_tile_done m3))"

definition ms_push :: "package option \<Rightarrow> package option \<Rightarrow> package option \<Rightarrow> multiplier \<Rightarrow> multiplier" where
  "ms_push psum weight act m =
     (let bottom = (ms_row_num m = ms_rows m - 1); right = (ms_col_num m = ms_cols m - 1)
      in m\<lparr>ms_accbuffer_fifo := fifo_put (if bottom \<and> ms_do_output m then psum else None) (ms_accbuffer_fifo m),
           ms_bottom_psum_fifo := fifo_put (if bottom then None else psum) (ms_bottom_psum_fifo m),
           ms_bottom_weight_fifo := fifo_put (if bottom then None else weight) (ms_bottom_weight_fifo m),
           ms_right_fifo := fifo_put (if right then None else act) (ms_right_fifo m)\<rparr>)"

text \<open>
  \<open>send\<close>: a null package in a vector would be dereferenced by the receiver; the fifos to the bottom and
  to the right have no delay, so a pop that is made returns a package.
\<close>

definition pop_package :: "'a sync_fifo \<Rightarrow> ('a list \<times> 'a sync_fifo) option" where
  "pop_package f =
     (if sf_is_empty f then Some ([], f)
      else case sf_pop f of (None, _) \<Rightarrow> None | (Some p, f1) \<Rightarrow> Some ([p], f1))"

definition send_if :: "wire option \<Rightarrow> package list \<Rightarrow> wires \<Rightarrow> wires option" where
  "send_if c ps cs = (if ps = [] then Some cs else map_option (\<lambda>c. wire_send c ps cs) c)"

type_synonym acc_ports = "ws_package connection list"

definition acc_send :: "nat option \<Rightarrow> package option \<Rightarrow> acc_ports \<Rightarrow> acc_ports option" where
  "acc_send c p ports =
     (case p of
        None \<Rightarrow> Some ports
      | Some q \<Rightarrow> do { j \<leftarrow> c; assert_that (j < length ports);
                       Some (ports[j := cn_send [ws_package.truncate q] (ports ! j)]) })"

definition ms_send :: "multiplier \<times> wires \<times> acc_ports \<Rightarrow> (multiplier \<times> wires \<times> acc_ports) option" where
  "ms_send = (\<lambda>(m, cs, ports).
     do { (ws, fw) \<leftarrow> pop_package (ms_bottom_weight_fifo m);
          (ps, fp) \<leftarrow> pop_package (ms_bottom_psum_fifo m);
          cs1 \<leftarrow> send_if (ms_bottom_connection m) (ws @ ps) cs;
          (as, fr) \<leftarrow> pop_package (ms_right_fifo m);
          cs2 \<leftarrow> send_if (ms_right_connection m) as cs1;
          let (out, fa) = fifo_take (ms_accbuffer_fifo m);
          ports1 \<leftarrow> acc_send (ms_accbuffer_connection m) out ports;
          Some (m\<lparr>ms_bottom_weight_fifo := fw, ms_bottom_psum_fifo := fp, ms_right_fifo := fr,
                  ms_accbuffer_fifo := fa\<rparr>, cs2, ports1) })"

definition ms_take :: "multiplier \<Rightarrow> package option \<times> package option \<times> package option \<times> multiplier" where
  "ms_take m =
     (let (weight, fw) = fifo_take (ms_top_weight_fifo m);
          (psum, fp) = fifo_take (ms_top_psum_fifo m);
          (act, fl) = fifo_take (ms_left_fifo m)
      in (weight, psum, act, m\<lparr>ms_top_weight_fifo := fw, ms_top_psum_fifo := fp, ms_left_fifo := fl\<rparr>))"

definition ms_cycle ::
    "(package \<Rightarrow> u32) \<Rightarrow> multiplier \<times> wires \<times> acc_ports \<Rightarrow> (multiplier \<times> wires \<times> acc_ports) option" where
  "ms_cycle freed = (\<lambda>(m, cs, ports).
     do { (m1, cs1) \<leftarrow> ms_receive (m, cs);
          let (weight, psum, act, m2) = ms_take (ms_limits (ms_flip m1));
          let (out, weight_out, m3) = ms_compute freed weight psum act m2;
          (m4, cs2, ports1) \<leftarrow> ms_send (ms_push out weight_out act m3, cs1, ports);
          Some (m4\<lparr>ms_local_cycle := ms_local_cycle m4 + 1\<rparr>, cs2, ports1) })"

text \<open>\<open>resetSignals\<close> empties every fifo, pop by pop: the loop ends because a pop shortens what is in flight.\<close>

definition strip :: "'a option list \<Rightarrow> 'a option list" where
  "strip xs = dropWhile (\<lambda>x. x = None) (rev xs)"

lemma strip_snoc_None [simp]: "strip (xs @ [None]) = strip xs"
  by (simp add: strip_def)

lemma strip_tl_le: "length (strip xs) \<le> length (strip (x # xs))"
  by (induction xs rule: rev_induct) (auto simp: strip_def)

lemma strip_tl_less: "\<exists>y\<in>set (x # xs). y \<noteq> None \<Longrightarrow> length (strip xs) < length (strip (x # xs))"
proof (induction xs rule: rev_induct)
  case (snoc y ys)
  then show ?case by (cases y) (auto simp: strip_def)
qed (auto simp: strip_def)

lemma empty_iff_strip:
  assumes "sf_wf f"
  shows "sf_is_empty f \<longleftrightarrow> sf_queue f = [] \<and> (\<forall>x\<in>set (sf_buffer f). x = None)"
  using assms by (auto simp: sf_is_empty_def sf_wf_def all_set_conv_all_nth)

lemma pop_shrinks:
  assumes "sf_wf f" "\<not> sf_is_empty f" "sf_pop f = (x, f')"
  shows "length (strip (sf_flight f')) + length (sf_queue f') < length (strip (sf_flight f)) + length (sf_queue f)"
proof -
  note p = sf_pop_flight [OF assms(1,3)]
  have q: "sf_queue f' = tl (sf_queue f)"
    using assms(3) by (auto simp: sf_pop_def Let_def split: list.splits if_splits)
  show ?thesis
  proof (cases "sf_queue f = []")
    case True
    then have "x # sf_flight f' = sf_flight f @ [None]" using p by (simp add: sf_empty_queue_def)
    moreover have "\<exists>y\<in>set (sf_flight f). y \<noteq> None"
      using assms(1,2) True by (auto simp: empty_iff_strip sf_flight_def)
    ultimately have "\<exists>y\<in>set (x # sf_flight f'). y \<noteq> None" "strip (x # sf_flight f') = strip (sf_flight f)" by simp_all
    then show ?thesis using True q strip_tl_less [of x "sf_flight f'"] by simp
  next
    case False
    then have "x # sf_flight f' = sf_flight f" using p by (simp add: sf_empty_queue_def)
    then have "length (strip (sf_flight f')) \<le> length (strip (sf_flight f))" by (metis strip_tl_le)
    then show ?thesis using False q by (cases "sf_queue f") simp_all
  qed
qed

function sf_drain :: "'a sync_fifo \<Rightarrow> 'a sync_fifo" where
  "sf_drain f = (if sf_is_empty f \<or> \<not> sf_wf f then f else sf_drain (snd (sf_pop f)))"
  by pat_completeness auto
termination
  by (relation "measure (\<lambda>f. length (strip (sf_flight f)) + length (sf_queue f))")
    (auto intro!: pop_shrinks [OF _ _ prod.collapse [symmetric]])

declare sf_drain.simps [simp del]

definition ms_resetSignals :: "multiplier \<Rightarrow> multiplier" where
  "ms_resetSignals m =
     m\<lparr>ms_forward_right := False, ms_forward_bottom := False, ms_VN := 0, ms_prop := False,
       ms_weight_limit := of_nat (ms_rows m - ms_row_num m), ms_weight_count := 0, ms_flip_ready := False,
       ms_act_limit_queue := [],
       ms_accbuffer_fifo := sf_drain (ms_accbuffer_fifo m), ms_left_fifo := sf_drain (ms_left_fifo m),
       ms_right_fifo := sf_drain (ms_right_fifo m), ms_top_weight_fifo := sf_drain (ms_top_weight_fifo m),
       ms_top_psum_fifo := sf_drain (ms_top_psum_fifo m), ms_bottom_weight_fifo := sf_drain (ms_bottom_weight_fifo m),
       ms_bottom_psum_fifo := sf_drain (ms_bottom_psum_fifo m)\<rparr>"

section \<open>The element as a synchronous step\<close>

text \<open>
  Between cycles nothing waits in the queues of the fifos, only in their delay cells; the fifos that
  do not delay are empty.
\<close>

definition delay_line :: "'a sync_fifo \<Rightarrow> bool" where
  "delay_line f \<longleftrightarrow> sf_queue f = [] \<and> sf_wf f"

definition plain_line :: "'a sync_fifo \<Rightarrow> bool" where
  "plain_line f \<longleftrightarrow> sf_queue f = [] \<and> sf_buffer f = [] \<and> sf_cnt f = 0"

definition ms_lines :: "multiplier \<Rightarrow> bool" where
  "ms_lines m \<longleftrightarrow> delay_line (ms_top_weight_fifo m) \<and> delay_line (ms_left_fifo m) \<and> delay_line (ms_accbuffer_fifo m) \<and>
     plain_line (ms_top_psum_fifo m) \<and> plain_line (ms_right_fifo m) \<and> plain_line (ms_bottom_weight_fifo m) \<and>
     plain_line (ms_bottom_psum_fifo m)"

definition delay :: "'a option \<Rightarrow> 'a sync_fifo \<Rightarrow> 'a option \<times> 'a sync_fifo" where
  "delay x f = (last (x # sf_buffer f), f\<lparr>sf_buffer := butlast (x # sf_buffer f)\<rparr>)"

lemma plain_is_delay: "plain_line f \<Longrightarrow> delay_line f"
  by (simp add: plain_line_def delay_line_def sf_wf_def)

lemma fifo_put_simps [simp]:
  "sf_queue (fifo_put x f) = sf_queue f @ (case x of None \<Rightarrow> [] | Some p \<Rightarrow> [Some p])"
  "sf_buffer (fifo_put x f) = sf_buffer f" "sf_cnt (fifo_put x f) = sf_cnt f"
  by (simp_all add: fifo_put_def sf_push_def split: option.splits)

lemma None_line: "\<forall>y\<in>set b. y = None \<Longrightarrow> last (None # b) = None \<and> butlast (None # b) = b"
  by (induction b) auto

lemma take_put:
  assumes "delay_line f"
  shows "fifo_take (fifo_put x f) = delay x f"
proof -
  let ?g = "fifo_put x f"
  have w: "sf_wf ?g" using assms by (simp add: sf_wf_def delay_line_def)
  have q: "sf_queue ?g = (case x of None \<Rightarrow> [] | Some p \<Rightarrow> [Some p])" using assms by (simp add: delay_line_def)
  have f: "f\<lparr>sf_queue := []\<rparr> = f" using assms by (simp add: delay_line_def)
  show ?thesis
  proof (cases "sf_is_empty ?g")
    case True
    then have e: "x = None" "\<forall>y\<in>set (sf_buffer f). y = None" using q by (auto simp: empty_iff_strip [OF w] split: option.splits)
    from None_line [OF e(2)] True e(1) f show ?thesis by (simp add: fifo_take_def delay_def fifo_put_def)
  next
    case False
    have g: "?g\<lparr>sf_queue := []\<rparr> = f" using f by (simp add: fifo_put_def sf_push_def split: option.splits)
    have "sf_pop ?g = delay x f"
    proof (cases "sf_buffer f = []")
      case True
      then show ?thesis using q g by (cases x) (simp_all add: sf_pop_def delay_def)
    next
      case b: False
      have l: "unat (sf_cnt f) - 1 = length (sf_buffer f) - 1" using w by (simp add: sf_wf_def)
      have "(case sf_queue ?g of [] \<Rightarrow> (None, []) | y # r \<Rightarrow> (y, r)) = (x, [])" using q by (cases x) simp_all
      then have "sf_pop ?g = (sf_buffer f ! (length (sf_buffer f) - 1),
          (?g\<lparr>sf_queue := []\<rparr>)\<lparr>sf_buffer := x # butlast (sf_buffer f)\<rparr>)"
        using b l shift_cells_list [OF b, of x] by (simp add: sf_pop_def)
      then show ?thesis using b g by (simp add: delay_def last_conv_nth)
    qed
    with False show ?thesis by (simp add: fifo_take_def)
  qed
qed

lemma delay_keeps:
  assumes "delay_line f" "delay x f = (y, g)"
  shows "delay_line g" "length (sf_buffer g) = length (sf_buffer f)" "sf_cnt g = sf_cnt f"
  using assms by (cases "sf_buffer f"; auto simp: delay_def delay_line_def sf_wf_def)+

lemma delay_plain [simp]: "plain_line f \<Longrightarrow> delay x f = (x, f)"
  by (simp add: plain_line_def delay_def)

lemma pop_put:
  assumes "plain_line f"
  shows "pop_package (fifo_put x f) = Some (case x of None \<Rightarrow> [] | Some p \<Rightarrow> [p], f)"
proof -
  have "fifo_take (fifo_put x f) = (x, f)" using take_put [OF plain_is_delay [OF assms]] assms by simp
  then show ?thesis
    using assms by (cases x) (auto simp: pop_package_def fifo_take_def plain_line_def sf_is_empty_def split: if_splits)
qed

text \<open>
  The element as hardware: given what arrives (a weight, a partial sum and an activation, or
  nothing), its next state and what it puts on its four outputs.
\<close>

record outputs =
  ou_psum :: "package option"
  ou_weight :: "package option"
  ou_act :: "package option"
  ou_acc :: "package option"

definition ms_step ::
    "(package \<Rightarrow> u32) \<Rightarrow> package option \<Rightarrow> package option \<Rightarrow> package option \<Rightarrow> multiplier \<Rightarrow> multiplier \<times> outputs" where
  "ms_step freed w p a m =
     (let m1 = ms_limits (ms_flip m);
          (w1, fw) = delay w (ms_top_weight_fifo m); (a1, fl) = delay a (ms_left_fifo m);
          (out, wo, m2) = ms_compute freed w1 p a1 (m1\<lparr>ms_top_weight_fifo := fw, ms_left_fifo := fl\<rparr>);
          bottom = (ms_row_num m = ms_rows m - 1); right = (ms_col_num m = ms_cols m - 1);
          (acc, fa) = delay (if bottom \<and> ms_do_output m2 then out else None) (ms_accbuffer_fifo m)
      in (m2\<lparr>ms_accbuffer_fifo := fa, ms_local_cycle := ms_local_cycle m + 1\<rparr>,
          \<lparr>ou_psum = (if bottom then None else out), ou_weight = (if bottom then None else wo),
           ou_act = (if right then None else a1), ou_acc = acc\<rparr>))"

definition opt_list :: "'a option \<Rightarrow> 'a list" where
  "opt_list x = (case x of None \<Rightarrow> [] | Some p \<Rightarrow> [p])"

lemma opt_list_simps [simp]: "opt_list None = []" "opt_list (Some p) = [p]" "opt_list x = [] \<longleftrightarrow> x = None"
  by (simp_all add: opt_list_def split: option.splits)

text \<open>The parts of an element that flips, limits, weights and sums leave alone.\<close>

definition same_frame :: "multiplier \<Rightarrow> multiplier \<Rightarrow> bool" where
  "same_frame m n \<longleftrightarrow> ms_row_num n = ms_row_num m \<and> ms_col_num n = ms_col_num m \<and> ms_rows n = ms_rows m \<and>
     ms_cols n = ms_cols m \<and> ms_top_weight_fifo n = ms_top_weight_fifo m \<and> ms_top_psum_fifo n = ms_top_psum_fifo m \<and>
     ms_left_fifo n = ms_left_fifo m \<and> ms_right_fifo n = ms_right_fifo m \<and>
     ms_bottom_weight_fifo n = ms_bottom_weight_fifo m \<and> ms_bottom_psum_fifo n = ms_bottom_psum_fifo m \<and>
     ms_accbuffer_fifo n = ms_accbuffer_fifo m \<and> ms_left_connection n = ms_left_connection m \<and>
     ms_right_connection n = ms_right_connection m \<and> ms_top_connection n = ms_top_connection m \<and>
     ms_bottom_connection n = ms_bottom_connection m \<and> ms_accbuffer_connection n = ms_accbuffer_connection m \<and>
     ms_local_cycle n = ms_local_cycle m \<and> ms_VN n = ms_VN m"

lemma same_frame_trans: "same_frame a b \<Longrightarrow> same_frame b c \<Longrightarrow> same_frame a c"
  by (simp add: same_frame_def)

lemma timers_frame: "same_frame m (ms_limits (ms_flip m))"
  by (simp add: same_frame_def ms_limits_def ms_flip_def split: list.split)

lemma compute_frames:
  "same_frame m (snd (ms_count w m))" "same_frame m (ms_load d m)" "same_frame m (snd (ms_mac a p m))"
  "same_frame m (ms_tile_done m)"
  by (simp_all add: same_frame_def ms_count_def ms_load_def ms_mac_def ms_tile_done_def Let_def split: option.split)

lemma compute_frame:
  assumes "ms_compute freed w p a m = (out, wo, m')"
  shows "same_frame m m'"
proof -
  obtain l m1 where c: "ms_count w m = (l, m1)" by fastforce
  let ?m2 = "ms_load (map_option (if l then freed else wk_data) w) m1"
  let ?p = "case p of None \<Rightarrow> 0 | Some q \<Rightarrow> wk_data q"
  have "m' = ms_tile_done (snd (ms_mac a ?p ?m2))"
    using assms c by (cases l) (auto simp: ms_compute_def split: prod.splits)
  moreover have "same_frame m m1" using compute_frames(1) [of m w] c by simp
  ultimately show ?thesis
    using compute_frames(2) [of m1] compute_frames(3) [of ?m2 a ?p] compute_frames(4) [of "snd (ms_mac a ?p ?m2)"]
    by (blast intro: same_frame_trans)
qed

text \<open>The fifos do not matter to what the element computes.\<close>

definition set_fifos :: "package sync_fifo \<Rightarrow> package sync_fifo \<Rightarrow> package sync_fifo \<Rightarrow> multiplier \<Rightarrow> multiplier" where
  "set_fifos fw fp fl m = m\<lparr>ms_top_weight_fifo := fw, ms_top_psum_fifo := fp, ms_left_fifo := fl\<rparr>"

lemma timers_fifos: "ms_limits (ms_flip (set_fifos fw fp fl m)) = set_fifos fw fp fl (ms_limits (ms_flip m))"
  by (simp add: set_fifos_def ms_limits_def ms_flip_def split: list.split)

lemma lines_frame: "same_frame m n \<Longrightarrow> ms_lines n = ms_lines m"
  by (simp add: same_frame_def ms_lines_def)

text \<open>What arrives on a wire.\<close>

definition arrives :: "package list \<Rightarrow> package option \<Rightarrow> package option \<Rightarrow> bool" where
  "arrives tops w p \<longleftrightarrow> (\<forall>q\<in>set tops. pk_type q = WEIGHT \<or> pk_type q = COMPUTED_PSUM) \<and>
     filter (\<lambda>q. pk_type q = WEIGHT) tops = opt_list w \<and> filter (\<lambda>q. pk_type q \<noteq> WEIGHT) tops = opt_list p"

lemma push_opt: "fold sf_push (map Some (opt_list x)) f = fifo_put x f"
  by (simp add: fifo_put_def split: option.splits)

definition clear_wire :: "wire \<Rightarrow> wires \<Rightarrow> wires" where
  "clear_wire c cs = snd (wire_receive c cs)"

definition wire_put :: "wire option \<Rightarrow> package list \<Rightarrow> wires \<Rightarrow> wires" where
  "wire_put c ps cs = (case c of None \<Rightarrow> cs | Some d \<Rightarrow> if ps = [] then cs else wire_send d ps cs)"

definition acc_put :: "nat option \<Rightarrow> package option \<Rightarrow> acc_ports \<Rightarrow> acc_ports" where
  "acc_put c p ports = (case (c, p) of (Some j, Some q) \<Rightarrow> ports[j := cn_send [ws_package.truncate q] (ports ! j)]
     | _ \<Rightarrow> ports)"

lemma receive_step:
  assumes "ms_left_connection m = Some l" "ms_top_connection m = Some t" "l \<noteq> t" "cn_pending_data (cs l) \<longrightarrow> cn_data (cs l) \<noteq> []"
    "pending (cs l) = opt_list a" "\<forall>q. a = Some q \<longrightarrow> pk_type q = IACTIVATION" "arrives (pending (cs t)) w p"
  shows "ms_receive (m, cs) = Some (set_fifos (fifo_put w (ms_top_weight_fifo m)) (fifo_put p (ms_top_psum_fifo m))
     (fifo_put a (ms_left_fifo m)) m, clear_wire t (clear_wire l cs))"
proof -
  obtain as cs1 where l: "wire_receive l cs = (as, cs1)" by fastforce
  then have as: "as = opt_list a" "cs1 = clear_wire l cs" using assms(5) wire_receive_simps(1) [of l cs] by (simp_all add: clear_wire_def)
  have "cs1 t = cs t" using assms(3) by (simp add: as clear_wire_def)
  obtain ts cs2 where t: "wire_receive t cs1 = (ts, cs2)" by fastforce
  then have ts: "arrives ts w p" "cs2 = clear_wire t cs1"
    using assms(7) \<open>cs1 t = cs t\<close> wire_receive_simps(1) [of t cs1] by (simp_all add: clear_wire_def)
  have "cn_pending_data (cs l) \<longrightarrow> length as = 1" using assms(4,5) by (cases a) (auto simp: as pending_def)
  moreover have "\<forall>q\<in>set as. pk_type q = IACTIVATION" using assms(6) by (cases a) (auto simp: as)
  ultimately show ?thesis
    using assms(1,2) ts l t
    by (simp add: ms_receive_def arrives_def cn_exist_pending_data_def as push_opt set_fifos_def)
qed

lemma take_step:
  assumes "ms_lines m"
  shows "ms_take (set_fifos (fifo_put w (ms_top_weight_fifo m)) (fifo_put p (ms_top_psum_fifo m)) (fifo_put a (ms_left_fifo m)) n) =
    (fst (delay w (ms_top_weight_fifo m)), p, fst (delay a (ms_left_fifo m)),
     set_fifos (snd (delay w (ms_top_weight_fifo m))) (ms_top_psum_fifo m) (snd (delay a (ms_left_fifo m))) n)"
  using assms by (simp add: ms_take_def set_fifos_def ms_lines_def take_put plain_is_delay split: prod.splits)

lemma send_step:
  assumes "ms_lines m" "ms_bottom_connection m = None \<longrightarrow> w = None \<and> p = None" "ms_right_connection m = None \<longrightarrow> a = None"
    "delay acc (ms_accbuffer_fifo m) = (out, fa)" "out \<noteq> None \<longrightarrow> (\<exists>j. ms_accbuffer_connection m = Some j \<and> j < length ports)"
  shows "ms_send (m\<lparr>ms_accbuffer_fifo := fifo_put acc (ms_accbuffer_fifo m),
      ms_bottom_psum_fifo := fifo_put p (ms_bottom_psum_fifo m),
      ms_bottom_weight_fifo := fifo_put w (ms_bottom_weight_fifo m), ms_right_fifo := fifo_put a (ms_right_fifo m)\<rparr>, cs, ports) =
    Some (m\<lparr>ms_accbuffer_fifo := fa\<rparr>,
      wire_put (ms_right_connection m) (opt_list a) (wire_put (ms_bottom_connection m) (opt_list w @ opt_list p) cs),
      acc_put (ms_accbuffer_connection m) out ports)"
proof -
  have l: "plain_line (ms_bottom_weight_fifo m)" "plain_line (ms_bottom_psum_fifo m)" "plain_line (ms_right_fifo m)"
    "delay_line (ms_accbuffer_fifo m)" using assms(1) by (simp_all add: ms_lines_def)
  have b: "send_if (ms_bottom_connection m) (opt_list w @ opt_list p) cs =
      Some (wire_put (ms_bottom_connection m) (opt_list w @ opt_list p) cs)"
    using assms(2) by (simp add: send_if_def wire_put_def split: option.splits)
  have r: "send_if (ms_right_connection m) (opt_list a) c = Some (wire_put (ms_right_connection m) (opt_list a) c)" for c
    using assms(3) by (simp add: send_if_def wire_put_def split: option.splits)
  have o: "acc_send (ms_accbuffer_connection m) out ports = Some (acc_put (ms_accbuffer_connection m) out ports)"
    using assms(5) by (auto simp: acc_send_def acc_put_def split: option.splits)
  show ?thesis
    using b r o take_put [OF l(4), of acc] assms(4)
    by (simp add: ms_send_def pop_put [OF l(1)] pop_put [OF l(2)] pop_put [OF l(3)] flip: opt_list_def)
qed

text \<open>
  One cycle of the element is the synchronous step, between the wires it reads and those it writes.
\<close>

definition ms_wired :: "multiplier \<Rightarrow> nat \<Rightarrow> bool" where
  "ms_wired m n \<longleftrightarrow> (ms_row_num m \<noteq> ms_rows m - 1 \<longrightarrow> ms_bottom_connection m \<noteq> None) \<and>
     (ms_col_num m \<noteq> ms_cols m - 1 \<longrightarrow> ms_right_connection m \<noteq> None) \<and>
     (ms_row_num m = ms_rows m - 1 \<longrightarrow> (\<exists>j. ms_accbuffer_connection m = Some j \<and> j < n)) \<and>
     (ms_row_num m \<noteq> ms_rows m - 1 \<longrightarrow> (\<forall>x\<in>set (sf_buffer (ms_accbuffer_fifo m)). x = None))"

lemma cycle_step:
  assumes lines: "ms_lines m" and wired: "ms_wired m (length ports)"
    and left: "ms_left_connection m = Some l" "cn_pending_data (cs l) \<longrightarrow> cn_data (cs l) \<noteq> []"
      "pending (cs l) = opt_list a" "\<forall>q. a = Some q \<longrightarrow> pk_type q = IACTIVATION"
    and top: "ms_top_connection m = Some t" "arrives (pending (cs t)) w p" and ne: "l \<noteq> t"
    and step: "ms_step freed w p a m = (m', ou)"
  shows "ms_cycle freed (m, cs, ports) = Some (m',
      wire_put (ms_right_connection m) (opt_list (ou_act ou))
        (wire_put (ms_bottom_connection m) (opt_list (ou_weight ou) @ opt_list (ou_psum ou)) (clear_wire t (clear_wire l cs))),
      acc_put (ms_accbuffer_connection m) (ou_acc ou) ports)"
proof -
  let ?m1 = "ms_limits (ms_flip m)"
  obtain w1 fw a1 fl where d: "delay w (ms_top_weight_fifo m) = (w1, fw)" "delay a (ms_left_fifo m) = (a1, fl)" by fastforce
  obtain out wo m2 where c: "ms_compute freed w1 p a1 (set_fifos fw (ms_top_psum_fifo m) fl ?m1) = (out, wo, m2)"
    by (metis prod_cases3)
  let ?bottom = "ms_row_num m = ms_rows m - 1" and ?right = "ms_col_num m = ms_cols m - 1"
  obtain acc fa where o: "delay (if ?bottom \<and> ms_do_output m2 then out else None) (ms_accbuffer_fifo m) = (acc, fa)" by fastforce
  have t1: "same_frame m ?m1" by (rule timers_frame)
  have fr: "same_frame (set_fifos fw (ms_top_psum_fifo m) fl ?m1) m2" by (rule compute_frame [OF c])
  have m2: "ms_row_num m2 = ms_row_num m" "ms_col_num m2 = ms_col_num m" "ms_rows m2 = ms_rows m" "ms_cols m2 = ms_cols m"
    "ms_accbuffer_fifo m2 = ms_accbuffer_fifo m" "ms_bottom_connection m2 = ms_bottom_connection m"
    "ms_right_connection m2 = ms_right_connection m" "ms_accbuffer_connection m2 = ms_accbuffer_connection m"
    "ms_local_cycle m2 = ms_local_cycle m"
    using fr t1 by (simp_all add: same_frame_def set_fifos_def)
  have psum: "ms_top_psum_fifo ?m1 = ms_top_psum_fifo m" using t1 by (simp add: same_frame_def)
  then have eq: "?m1\<lparr>ms_top_weight_fifo := fw, ms_left_fifo := fl\<rparr> = set_fifos fw (ms_top_psum_fifo m) fl ?m1"
    by (simp add: set_fifos_def flip: psum)
  have st: "m' = m2\<lparr>ms_accbuffer_fifo := fa, ms_local_cycle := ms_local_cycle m + 1\<rparr>"
    "ou = \<lparr>ou_psum = (if ?bottom then None else out), ou_weight = (if ?bottom then None else wo),
           ou_act = (if ?right then None else a1), ou_acc = acc\<rparr>"
    using step d c o by (simp_all add: ms_step_def Let_def eq)
  have "ms_lines m2"
    using fr t1 lines delay_keeps(1) [OF _ d(1)] delay_keeps(1) [OF _ d(2)]
    by (simp add: same_frame_def ms_lines_def set_fifos_def)
  then have send: "ms_send (ms_push out wo a1 m2, c, ports) = Some (m2\<lparr>ms_accbuffer_fifo := fa\<rparr>,
      wire_put (ms_right_connection m2) (opt_list (ou_act ou))
        (wire_put (ms_bottom_connection m2) (opt_list (ou_weight ou) @ opt_list (ou_psum ou)) c),
      acc_put (ms_accbuffer_connection m2) acc ports)" for c
    unfolding ms_push_def Let_def
  proof (subst send_step)
    show "delay (if ms_row_num m2 = ms_rows m2 - 1 \<and> ms_do_output m2 then out else None) (ms_accbuffer_fifo m2) = (acc, fa)"
      using o by (simp add: m2)
    show "acc \<noteq> None \<longrightarrow> (\<exists>j. ms_accbuffer_connection m2 = Some j \<and> j < length ports)"
    proof (cases ?bottom)
      case False
      then have "acc = last (None # sf_buffer (ms_accbuffer_fifo m))" using o by (simp add: delay_def)
      also have "\<dots> = None" using wired False None_line [of "sf_buffer (ms_accbuffer_fifo m)"] unfolding ms_wired_def by blast
      finally have "acc = None" .
      then show ?thesis by simp
    qed (use wired in \<open>simp add: ms_wired_def m2\<close>)
  qed (use wired in \<open>auto simp: ms_wired_def m2 st\<close>)
  have rcv: "ms_receive (m, cs) = Some (set_fifos (fifo_put w (ms_top_weight_fifo m)) (fifo_put p (ms_top_psum_fifo m))
      (fifo_put a (ms_left_fifo m)) m, clear_wire t (clear_wire l cs))"
    by (rule receive_step) (use left top ne in simp_all)
  have tk: "ms_take (ms_limits (ms_flip (set_fifos (fifo_put w (ms_top_weight_fifo m)) (fifo_put p (ms_top_psum_fifo m))
      (fifo_put a (ms_left_fifo m)) m))) = (w1, p, a1, set_fifos fw (ms_top_psum_fifo m) fl ?m1)"
    unfolding timers_fifos using take_step [OF lines] d by simp
  show ?thesis
    unfolding ms_cycle_def by (simp add: rcv tk c send st m2)
qed

end
