(* ===== verification/WSMesh.thy ===== *)
theory WSMesh
  imports MultiplierWS
begin

text \<open>
  The weight-stationary mesh: \<open>sim/src/SA/WSMeshMN.cpp\<close>.  Its tables of multipliers and connections are
  functions of row and column.  \<open>cycle\<close> runs the elements one by one, from the last row and column to
  the first; it is shown that this is one synchronous step of all elements.
\<close>

section \<open>The mesh and its operations\<close>

record ws_mesh =
  wm_rows :: nat
  wm_cols :: nat
  wm_pes :: "nat \<times> nat \<Rightarrow> multiplier"

text \<open>The constructor with \<open>setPhysicalConnection\<close>: the links between neighbours.\<close>

definition link :: "nat \<Rightarrow> nat \<Rightarrow> nat \<times> nat \<Rightarrow> multiplier \<Rightarrow> multiplier" where
  "link rows cols = (\<lambda>(i, j) m.
     m\<lparr>ms_top_connection := (if i > 0 then Some (Vertical i j) else ms_top_connection m),
       ms_left_connection := (if j > 0 then Some (Horizontal i j) else ms_left_connection m),
       ms_bottom_connection := (if i + 1 < rows then Some (Vertical (i + 1) j) else ms_bottom_connection m),
       ms_right_connection := (if j + 1 < cols then Some (Horizontal i (j + 1)) else ms_right_connection m)\<rparr>)"

definition new_ws_mesh :: "u32 \<Rightarrow> nat \<Rightarrow> nat \<Rightarrow> ws_mesh" where
  "new_ws_mesh capacity rows cols =
     \<lparr>wm_rows = rows, wm_cols = cols,
      wm_pes = (\<lambda>(i, j). link rows cols (i, j) (new_multiplier capacity rows cols i j))\<rparr>"

definition map_pes :: "(nat \<times> nat \<Rightarrow> multiplier \<Rightarrow> multiplier) \<Rightarrow> ws_mesh \<Rightarrow> ws_mesh" where
  "map_pes f w = w\<lparr>wm_pes := (\<lambda>(i, j). if i < wm_rows w \<and> j < wm_cols w then f (i, j) (wm_pes w (i, j)) else wm_pes w (i, j))\<rparr>"

text \<open>The first \<open>ms_cols\<close> inputs feed the columns from above, the next \<open>ms_rows\<close> the rows from the left.\<close>

definition wm_setInputConnections :: "(nat \<Rightarrow> wire) \<Rightarrow> ws_mesh \<Rightarrow> ws_mesh" where
  "wm_setInputConnections input w =
     map_pes (\<lambda>(i, j) m. m\<lparr>ms_top_connection := (if i = 0 then Some (input j) else ms_top_connection m),
                            ms_left_connection := (if j = 0 then Some (input (i + wm_cols w)) else ms_left_connection m)\<rparr>) w"

definition wm_setOutputConnections :: "ws_mesh \<Rightarrow> ws_mesh" where
  "wm_setOutputConnections w =
     map_pes (\<lambda>(i, j) m. m\<lparr>ms_accbuffer_connection := (if i = wm_rows w - 1 then Some j else ms_accbuffer_connection m)\<rparr>) w"

definition wm_preload :: "ws_mesh \<Rightarrow> ws_mesh" where
  "wm_preload w = map_pes (\<lambda>_. ms_preload) w"

definition wm_MatrixMultiply :: "u32 \<Rightarrow> u32 \<Rightarrow> u32 \<Rightarrow> ws_mesh \<Rightarrow> ws_mesh" where
  "wm_MatrixMultiply t_m t_k t_n w = map_pes (\<lambda>_. ms_MatrixMultiply t_m t_k t_n) w"

definition wm_MatrixMultiplyFlip :: "u32 \<Rightarrow> u32 \<Rightarrow> u32 \<Rightarrow> ws_mesh \<Rightarrow> ws_mesh" where
  "wm_MatrixMultiplyFlip t_m t_k t_n w = map_pes (\<lambda>_. ms_MatrixMultiplyFlip t_m t_k t_n) w"

definition wm_setActivationLimit :: "u32 \<Rightarrow> ws_mesh \<Rightarrow> ws_mesh" where
  "wm_setActivationLimit n w = map_pes (\<lambda>_. ms_setActivationLimit n) w"

definition wm_reset_weights_preloaded :: "ws_mesh \<Rightarrow> ws_mesh" where
  "wm_reset_weights_preloaded w = map_pes (\<lambda>_. ms_reset_weights_preloaded) w"

definition wm_resetSignals :: "ws_mesh \<Rightarrow> ws_mesh" where
  "wm_resetSignals w = map_pes (\<lambda>_. ms_resetSignals) w"

text \<open>\<open>reset_fifos\<close> calls \<open>SyncFifo::reset\<close>, whose body is empty.\<close>

definition wm_reset_fifos :: "ws_mesh \<Rightarrow> ws_mesh" where
  "wm_reset_fifos w = w"

definition wm_has_array_flipped :: "ws_mesh \<Rightarrow> bool" where
  "wm_has_array_flipped w = ms_flip_ready (wm_pes w (0, 0))"

definition wm_has_array_first_row_flipped :: "ws_mesh \<Rightarrow> bool" where
  "wm_has_array_first_row_flipped w = list_all (\<lambda>j. ms_flip_ready (wm_pes w (0, j))) [0..<wm_cols w]"

text \<open>The order of the loops of \<open>cycle\<close>.\<close>

definition row_order :: "nat \<Rightarrow> nat \<Rightarrow> (nat \<times> nat) list" where
  "row_order i cols = map (Pair i) (rev [0..<cols])"

definition pe_order :: "nat \<Rightarrow> nat \<Rightarrow> (nat \<times> nat) list" where
  "pe_order rows cols = concat (map (\<lambda>i. row_order i cols) (rev [0..<rows]))"

definition wm_weights_preloaded :: "ws_mesh \<Rightarrow> bool" where
  "wm_weights_preloaded w =
     foldl (\<lambda>received x. received \<and> ms_preload_finished (wm_pes w x)) True (pe_order (wm_rows w) (wm_cols w))"

type_synonym pe_state = "(nat \<times> nat \<Rightarrow> multiplier) \<times> wires \<times> acc_ports"

fun pes_cycle :: "(package \<Rightarrow> u32) \<Rightarrow> (nat \<times> nat) list \<Rightarrow> pe_state \<Rightarrow> pe_state option" where
  "pes_cycle freed [] s = Some s"
| "pes_cycle freed (x # xs) (pes, cs, ports) =
     do { (m, cs1, ports1) \<leftarrow> ms_cycle freed (pes x, cs, ports);
          pes_cycle freed xs (pes(x := m), cs1, ports1) }"

definition wm_cycle :: "(package \<Rightarrow> u32) \<Rightarrow> ws_mesh \<times> wires \<times> acc_ports \<Rightarrow> (ws_mesh \<times> wires \<times> acc_ports) option" where
  "wm_cycle freed = (\<lambda>(w, cs, ports).
     do { (pes, cs1, ports1) \<leftarrow> pes_cycle freed (pe_order (wm_rows w) (wm_cols w)) (wm_pes w, cs, ports);
          Some (w\<lparr>wm_pes := pes\<rparr>, cs1, ports1) })"

section \<open>The mesh is synchronous\<close>

text \<open>
  The wires into an element; \<open>input\<close> names the inputs from above and from the left.
\<close>

definition top_wire :: "(nat \<Rightarrow> wire) \<Rightarrow> nat \<times> nat \<Rightarrow> wire" where
  "top_wire input = (\<lambda>(i, j). if i = 0 then input j else Vertical i j)"

definition left_wire :: "(nat \<Rightarrow> wire) \<Rightarrow> nat \<Rightarrow> nat \<times> nat \<Rightarrow> wire" where
  "left_wire input cols = (\<lambda>(i, j). if j = 0 then input (i + cols) else Horizontal i j)"

text \<open>The inputs are different wires, none of them inside the mesh.\<close>

definition inputs_ok :: "(nat \<Rightarrow> wire) \<Rightarrow> nat \<Rightarrow> bool" where
  "inputs_ok input n \<longleftrightarrow> inj_on input {..<n} \<and>
     (\<forall>k<n. case input k of Vertical _ _ \<Rightarrow> False | Horizontal _ _ \<Rightarrow> False | _ \<Rightarrow> True)"

definition pe_ok :: "(nat \<Rightarrow> wire) \<Rightarrow> nat \<Rightarrow> nat \<Rightarrow> nat \<times> nat \<Rightarrow> multiplier \<Rightarrow> bool" where
  "pe_ok input rows cols = (\<lambda>(i, j) m.
     ms_row_num m = i \<and> ms_col_num m = j \<and> ms_rows m = rows \<and> ms_cols m = cols \<and> ms_lines m \<and>
     ms_top_connection m = Some (top_wire input (i, j)) \<and> ms_left_connection m = Some (left_wire input cols (i, j)) \<and>
     (i + 1 < rows \<longrightarrow> ms_bottom_connection m = Some (Vertical (i + 1) j)) \<and>
     (j + 1 < cols \<longrightarrow> ms_right_connection m = Some (Horizontal i (j + 1))) \<and>
     (i + 1 = rows \<longrightarrow> ms_accbuffer_connection m = Some j) \<and>
     (i + 1 < rows \<longrightarrow> (\<forall>x\<in>set (sf_buffer (ms_accbuffer_fifo m)). x = None)))"

definition grid :: "nat \<Rightarrow> nat \<Rightarrow> (nat \<times> nat) set" where
  "grid rows cols = {..<rows} \<times> {..<cols}"

lemma step_keeps_ok:
  assumes "pe_ok input rows cols x m" "ms_step freed w p a m = (m', ou)" "x \<in> grid rows cols"
  shows "pe_ok input rows cols x m'"
proof -
  obtain i j where x: "x = (i, j)" "i < rows" "j < cols" using assms(3) by (auto simp: grid_def)
  have ok: "ms_row_num m = i" "ms_rows m = rows" "ms_lines m" using assms(1) x by (simp_all add: pe_ok_def)
  obtain w1 fw a1 fl where d: "delay w (ms_top_weight_fifo m) = (w1, fw)" "delay a (ms_left_fifo m) = (a1, fl)" by fastforce
  let ?m1 = "(ms_limits (ms_flip m))\<lparr>ms_top_weight_fifo := fw, ms_left_fifo := fl\<rparr>"
  obtain out wo m2 where c: "ms_compute freed w1 p a1 ?m1 = (out, wo, m2)" by (metis prod_cases3)
  let ?acc = "if ms_row_num m = ms_rows m - 1 \<and> ms_do_output m2 then out else None"
  obtain acc fa where o: "delay ?acc (ms_accbuffer_fifo m) = (acc, fa)" by fastforce
  have m': "m' = m2\<lparr>ms_accbuffer_fifo := fa, ms_local_cycle := ms_local_cycle m + 1\<rparr>"
    using assms(2) d c o by (simp add: ms_step_def Let_def)
  have fr: "same_frame ?m1 m2" by (rule compute_frame [OF c])
  have t: "same_frame m (ms_limits (ms_flip m))" by (rule timers_frame)
  have dl: "delay_line fw" "delay_line fl" "delay_line fa"
    using ok(3) delay_keeps(1) [OF _ d(1)] delay_keeps(1) [OF _ d(2)] delay_keeps(1) [OF _ o] by (simp_all add: ms_lines_def)
  have fa: "\<forall>y\<in>set (sf_buffer fa). y = None" if "i + 1 < rows" "\<forall>y\<in>set (sf_buffer (ms_accbuffer_fifo m)). y = None"
  proof -
    have "fa = (ms_accbuffer_fifo m)\<lparr>sf_buffer := butlast (None # sf_buffer (ms_accbuffer_fifo m))\<rparr>"
      using o that(1) ok by (auto simp: delay_def)
    then show ?thesis using None_line [OF that(2)] that(2) by simp
  qed
  show ?thesis
    using assms(1) fr t dl fa unfolding x(1) m'
    by (simp add: pe_ok_def same_frame_def ms_lines_def)
qed

lemma wires_distinct:
  assumes "inputs_ok input (cols + rows)" "x \<in> grid rows cols" "y \<in> grid rows cols"
  shows "left_wire input cols x = left_wire input cols y \<longleftrightarrow> x = y" "top_wire input x = top_wire input y \<longleftrightarrow> x = y"
    "left_wire input cols x \<noteq> top_wire input y"
proof -
  obtain i j k l where xy: "x = (i, j)" "y = (k, l)" "i < rows" "j < cols" "k < rows" "l < cols"
    using assms(2,3) by (auto simp: grid_def)
  have inj: "input a = input b \<longleftrightarrow> a = b" if "a < cols + rows" "b < cols + rows" for a b
    using assms(1) that by (auto simp: inputs_ok_def inj_on_def)
  have out: "input a \<noteq> Vertical c d" "input a \<noteq> Horizontal c d" if "a < cols + rows" for a c d
    using assms(1) that unfolding inputs_ok_def by (metis wire.simps(19), metis wire.simps(20))
  show "left_wire input cols x = left_wire input cols y \<longleftrightarrow> x = y"
    using xy inj [of "i + cols" "k + cols"] out(2) [of "i + cols" k l] out(2) [of "k + cols" i j]
    by (auto simp: left_wire_def)
  show "top_wire input x = top_wire input y \<longleftrightarrow> x = y"
    using xy inj [of j l] out(1) [of j k l] out(1) [of l i j] by (auto simp: top_wire_def)
  show "left_wire input cols x \<noteq> top_wire input y"
    using xy inj [of "i + cols" l] out(1) [of "i + cols" k l] out(2) [of l i j] by (auto simp: left_wire_def top_wire_def)
qed

text \<open>What arrives at the elements at the start of a cycle.\<close>

definition mesh_in ::
    "(nat \<Rightarrow> wire) \<Rightarrow> nat \<Rightarrow> nat \<Rightarrow> wires \<Rightarrow> (nat \<times> nat \<Rightarrow> package option) \<Rightarrow> (nat \<times> nat \<Rightarrow> package option) \<Rightarrow>
     (nat \<times> nat \<Rightarrow> package option) \<Rightarrow> bool" where
  "mesh_in input rows cols cs w p a \<longleftrightarrow> (\<forall>x\<in>grid rows cols.
     arrives (pending (cs (top_wire input x))) (w x) (p x) \<and> pending (cs (left_wire input cols x)) = opt_list (a x) \<and>
     (\<forall>q. a x = Some q \<longrightarrow> pk_type q = IACTIVATION) \<and>
     (cn_pending_data (cs (left_wire input cols x)) \<longrightarrow> cn_data (cs (left_wire input cols x)) \<noteq> []))"

definition mesh_ok :: "(nat \<Rightarrow> wire) \<Rightarrow> nat \<Rightarrow> nat \<Rightarrow> (nat \<times> nat \<Rightarrow> multiplier) \<Rightarrow> bool" where
  "mesh_ok input rows cols pes \<longleftrightarrow> (\<forall>x\<in>grid rows cols. pe_ok input rows cols x (pes x))"

text \<open>The state when the elements of \<open>D\<close> have run: \<open>nxt\<close> are their new states, \<open>ou\<close> their outputs.\<close>

definition left_of :: "nat \<times> nat \<Rightarrow> (nat \<times> nat) option" where
  "left_of = (\<lambda>(i, j). if j = 0 then None else Some (i, j - 1))"

definition above :: "nat \<times> nat \<Rightarrow> (nat \<times> nat) option" where
  "above = (\<lambda>(i, j). if i = 0 then None else Some (i - 1, j))"

definition sent :: "(nat \<times> nat) set \<Rightarrow> (nat \<times> nat \<Rightarrow> package list) \<Rightarrow> (nat \<times> nat) option \<Rightarrow> package list" where
  "sent D f y = (case y of None \<Rightarrow> [] | Some z \<Rightarrow> if z \<in> D then f z else [])"

definition down :: "outputs \<Rightarrow> package list" where
  "down u = opt_list (ou_weight u) @ opt_list (ou_psum u)"

definition half_done ::
    "(nat \<Rightarrow> wire) \<Rightarrow> nat \<Rightarrow> nat \<Rightarrow> (nat \<times> nat \<Rightarrow> multiplier) \<Rightarrow> (nat \<times> nat \<Rightarrow> outputs) \<Rightarrow> pe_state \<Rightarrow>
     (nat \<times> nat) set \<Rightarrow> pe_state \<Rightarrow> bool" where
  "half_done input rows cols nxt ou s0 D s \<longleftrightarrow>
     (case (s0, s) of ((pes0, cs0, ports0), (pes, cs, ports)) \<Rightarrow>
       (\<forall>x. pes x = (if x \<in> D then nxt x else pes0 x)) \<and>
       (\<forall>x\<in>grid rows cols. if x \<in> D
          then pending (cs (left_wire input cols x)) = sent D (\<lambda>y. opt_list (ou_act (ou y))) (left_of x) \<and>
               (cn_pending_data (cs (left_wire input cols x)) \<longrightarrow> cn_data (cs (left_wire input cols x)) \<noteq> []) \<and>
               pending (cs (top_wire input x)) = sent D (\<lambda>y. down (ou y)) (above x)
          else cs (left_wire input cols x) = cs0 (left_wire input cols x) \<and> cs (top_wire input x) = cs0 (top_wire input x)) \<and>
       (\<forall>c. (\<forall>x\<in>grid rows cols. c \<noteq> left_wire input cols x \<and> c \<noteq> top_wire input x) \<longrightarrow> cs c = cs0 c) \<and>
       length ports = length ports0 \<and>
       (\<forall>k<length ports0. ports ! k =
          (case (if k < cols \<and> (rows - 1, k) \<in> D then ou_acc (ou (rows - 1, k)) else None) of
             None \<Rightarrow> ports0 ! k | Some q \<Rightarrow> cn_send [ws_package.truncate q] (ports0 ! k))))"

text \<open>The order of the loops: an element runs after its right and its lower neighbour.\<close>

definition closed :: "nat \<Rightarrow> nat \<Rightarrow> (nat \<times> nat) set \<Rightarrow> bool" where
  "closed rows cols D \<longleftrightarrow> D \<subseteq> grid rows cols \<and>
     (\<forall>x\<in>grid rows cols. (\<forall>y. left_of x = Some y \<or> above x = Some y \<longrightarrow> y \<in> D \<longrightarrow> x \<in> D))"

fun in_order :: "nat \<Rightarrow> nat \<Rightarrow> (nat \<times> nat) set \<Rightarrow> (nat \<times> nat) list \<Rightarrow> bool" where
  "in_order rows cols D [] \<longleftrightarrow> True"
| "in_order rows cols D (x # xs) \<longleftrightarrow> x \<in> grid rows cols \<and> x \<notin> D \<and> closed rows cols (insert x D) \<and>
     in_order rows cols (insert x D) xs"

lemma in_order_append:
  "in_order rows cols D (xs @ ys) \<longleftrightarrow> in_order rows cols D xs \<and> in_order rows cols (D \<union> set xs) ys"
  by (induction xs arbitrary: D) (simp_all add: Un_commute insert_commute)

lemma row_in_order:
  assumes "i < rows" "n \<le> cols" "D = {i<..<rows} \<times> {..<cols} \<union> {i} \<times> {n..<cols}"
  shows "in_order rows cols D (map (Pair i) (rev [0..<n]))"
  using assms(2,3)
proof (induction n arbitrary: D)
  case (Suc n)
  let ?D = "insert (i, n) D"
  have D: "?D = {i<..<rows} \<times> {..<cols} \<union> {i} \<times> {n..<cols}" using Suc.prems by auto
  have "closed rows cols ?D"
    unfolding D closed_def using assms(1) by (auto simp: grid_def left_of_def above_def split: if_splits)
  moreover have "in_order rows cols ?D (map (Pair i) (rev [0..<n]))" using Suc.IH [OF _ D] Suc.prems(1) by simp
  ultimately show ?case using Suc.prems assms(1) by (simp add: grid_def)
qed simp

lemma rows_in_order:
  "n \<le> rows \<Longrightarrow> in_order rows cols ({n..<rows} \<times> {..<cols}) (concat (map (\<lambda>i. row_order i cols) (rev [0..<n])))"
proof (induction n)
  case (Suc n)
  have "{Suc n..<rows} = {n<..<rows}" by auto
  then have "in_order rows cols ({Suc n..<rows} \<times> {..<cols}) (row_order n cols)"
    unfolding row_order_def using Suc.prems by (intro row_in_order) auto
  moreover have "{Suc n..<rows} \<times> {..<cols} \<union> set (row_order n cols) = {n..<rows} \<times> {..<cols}"
    using Suc.prems by (auto simp: row_order_def)
  ultimately show ?case using Suc.IH Suc.prems by (simp add: in_order_append)
qed simp

lemma pe_order_in_order: "in_order rows cols {} (pe_order rows cols)"
  using rows_in_order [of rows rows cols] by (simp add: pe_order_def)

lemma set_pe_order: "set (pe_order rows cols) = grid rows cols"
  by (auto simp: pe_order_def row_order_def grid_def)

text \<open>The wires after one element has run.\<close>

lemma clear_wire_simps:
  "pending (clear_wire c cs c) = []" "\<not> cn_pending_data (clear_wire c cs c)" "d \<noteq> c \<Longrightarrow> clear_wire c cs d = cs d"
  by (simp_all add: clear_wire_def pending_def)

lemma wire_put_simps:
  "c \<noteq> Some d \<Longrightarrow> wire_put c ps cs d = cs d"
  "pending (cs d) = [] \<Longrightarrow> pending (wire_put (Some d) ps cs d) = ps"
  "(cn_pending_data (cs d) \<longrightarrow> cn_data (cs d) \<noteq> []) \<Longrightarrow>
     cn_pending_data (wire_put (Some d) ps cs d) \<longrightarrow> cn_data (wire_put (Some d) ps cs d) \<noteq> []"
  by (auto simp: wire_put_def wire_send_def cn_send_def pending_def split: option.splits)

lemma sent_insert: "y \<noteq> Some x \<Longrightarrow> sent (insert x D) f y = sent D f y"
  "sent (insert x D) f (Some x) = f x" "x \<notin> D \<Longrightarrow> sent D f (Some x) = []"
  by (auto simp: sent_def split: option.splits)

lemma half_doneD:
  assumes "half_done input rows cols nxt ou (pes0, cs0, ports0) D (pes, cs, ports)"
  shows "\<And>x. pes x = (if x \<in> D then nxt x else pes0 x)"
    "\<And>x. x \<in> grid rows cols \<Longrightarrow> x \<notin> D \<Longrightarrow> cs (left_wire input cols x) = cs0 (left_wire input cols x)"
    "\<And>x. x \<in> grid rows cols \<Longrightarrow> x \<notin> D \<Longrightarrow> cs (top_wire input x) = cs0 (top_wire input x)"
    "\<And>x. x \<in> grid rows cols \<Longrightarrow> x \<in> D \<Longrightarrow>
       pending (cs (left_wire input cols x)) = sent D (\<lambda>y. opt_list (ou_act (ou y))) (left_of x)"
    "\<And>x. x \<in> grid rows cols \<Longrightarrow> x \<in> D \<Longrightarrow>
       cn_pending_data (cs (left_wire input cols x)) \<longrightarrow> cn_data (cs (left_wire input cols x)) \<noteq> []"
    "\<And>x. x \<in> grid rows cols \<Longrightarrow> x \<in> D \<Longrightarrow> pending (cs (top_wire input x)) = sent D (\<lambda>y. down (ou y)) (above x)"
    "\<And>c. (\<And>x. x \<in> grid rows cols \<Longrightarrow> c \<noteq> left_wire input cols x \<and> c \<noteq> top_wire input x) \<Longrightarrow> cs c = cs0 c"
    "length ports = length ports0"
    "\<And>k. k < length ports0 \<Longrightarrow> ports ! k = (case (if k < cols \<and> (rows - 1, k) \<in> D then ou_acc (ou (rows - 1, k)) else None) of
       None \<Rightarrow> ports0 ! k | Some q \<Rightarrow> cn_send [ws_package.truncate q] (ports0 ! k))"
  using assms unfolding half_done_def by (auto split: if_splits)

lemma half_doneI:
  assumes "\<And>x. pes x = (if x \<in> D then nxt x else pes0 x)"
    "\<And>x. x \<in> grid rows cols \<Longrightarrow> x \<notin> D \<Longrightarrow> cs (left_wire input cols x) = cs0 (left_wire input cols x)"
    "\<And>x. x \<in> grid rows cols \<Longrightarrow> x \<notin> D \<Longrightarrow> cs (top_wire input x) = cs0 (top_wire input x)"
    "\<And>x. x \<in> grid rows cols \<Longrightarrow> x \<in> D \<Longrightarrow>
       pending (cs (left_wire input cols x)) = sent D (\<lambda>y. opt_list (ou_act (ou y))) (left_of x)"
    "\<And>x. x \<in> grid rows cols \<Longrightarrow> x \<in> D \<Longrightarrow>
       cn_pending_data (cs (left_wire input cols x)) \<longrightarrow> cn_data (cs (left_wire input cols x)) \<noteq> []"
    "\<And>x. x \<in> grid rows cols \<Longrightarrow> x \<in> D \<Longrightarrow> pending (cs (top_wire input x)) = sent D (\<lambda>y. down (ou y)) (above x)"
    "\<And>c. (\<And>x. x \<in> grid rows cols \<Longrightarrow> c \<noteq> left_wire input cols x \<and> c \<noteq> top_wire input x) \<Longrightarrow> cs c = cs0 c"
    "length ports = length ports0"
    "\<And>k. k < length ports0 \<Longrightarrow> ports ! k = (case (if k < cols \<and> (rows - 1, k) \<in> D then ou_acc (ou (rows - 1, k)) else None) of
       None \<Rightarrow> ports0 ! k | Some q \<Rightarrow> cn_send [ws_package.truncate q] (ports0 ! k))"
  shows "half_done input rows cols nxt ou (pes0, cs0, ports0) D (pes, cs, ports)"
  using assms unfolding half_done_def by (auto split: if_splits)

lemma step_quiet_acc:
  assumes "pe_ok input rows cols x m" "x \<in> grid rows cols" "ms_step freed w p a m = (m', u)"
  shows "ou_acc u \<noteq> None \<Longrightarrow> fst x = rows - 1" "ou_act u \<noteq> None \<Longrightarrow> snd x + 1 < cols"
    "down u \<noteq> [] \<Longrightarrow> fst x + 1 < rows"
proof -
  obtain i j where x: "x = (i, j)" "i < rows" "j < cols" using assms(2) by (auto simp: grid_def)
  obtain w1 fw a1 fl where d: "delay w (ms_top_weight_fifo m) = (w1, fw)" "delay a (ms_left_fifo m) = (a1, fl)" by fastforce
  obtain out wo m2 where c: "ms_compute freed w1 p a1
      ((ms_limits (ms_flip m))\<lparr>ms_top_weight_fifo := fw, ms_left_fifo := fl\<rparr>) = (out, wo, m2)" by (metis prod_cases3)
  obtain acc fa where o: "delay (if ms_row_num m = ms_rows m - 1 \<and> ms_do_output m2 then out else None)
      (ms_accbuffer_fifo m) = (acc, fa)" by fastforce
  have ok: "ms_row_num m = i" "ms_col_num m = j" "ms_rows m = rows" "ms_cols m = cols"
    "i + 1 < rows \<longrightarrow> (\<forall>y\<in>set (sf_buffer (ms_accbuffer_fifo m)). y = None)"
    using assms(1) x by (simp_all add: pe_ok_def)
  have u: "u = \<lparr>ou_psum = (if i = rows - 1 then None else out), ou_weight = (if i = rows - 1 then None else wo),
           ou_act = (if j = cols - 1 then None else a1), ou_acc = acc\<rparr>"
    using assms(3) d c o ok(1-4) by (simp add: ms_step_def Let_def)
  have "acc = None" if "i + 1 < rows"
  proof -
    have "acc = last (None # sf_buffer (ms_accbuffer_fifo m))" using o that ok(1,3) by (auto simp: delay_def)
    then show ?thesis using None_line [of "sf_buffer (ms_accbuffer_fifo m)"] ok(5) that by simp
  qed
  then show "ou_acc u \<noteq> None \<Longrightarrow> fst x = rows - 1" using u x by (cases "i + 1 < rows") auto
  show "ou_act u \<noteq> None \<Longrightarrow> snd x + 1 < cols" "down u \<noteq> [] \<Longrightarrow> fst x + 1 < rows"
    using u x by (auto simp: down_def split: if_splits)
qed

lemma half_done_step:
  assumes inp: "inputs_ok input (cols + rows)" and ok: "mesh_ok input rows cols pes0" and mi: "mesh_in input rows cols cs0 w p a"
    and np: "cols \<le> length ports0" and st: "\<And>x. ms_step freed (w x) (p x) (a x) (pes0 x) = (nxt x, ou x)"
    and h: "half_done input rows cols nxt ou (pes0, cs0, ports0) D (pes, cs, ports)"
    and cl: "closed rows cols D" "closed rows cols (insert x D)" and x: "x \<in> grid rows cols" "x \<notin> D"
  shows "\<exists>m cs1 ports1. ms_cycle freed (pes x, cs, ports) = Some (m, cs1, ports1) \<and>
     half_done input rows cols nxt ou (pes0, cs0, ports0) (insert x D) (pes(x := m), cs1, ports1)"
proof -
  obtain i j where ij: "x = (i, j)" "i < rows" "j < cols" using x(1) by (auto simp: grid_def)
  let ?L = "left_wire input cols" and ?T = "top_wire input" and ?r = "(i, Suc j)" and ?b = "(Suc i, j)"
  note hd = half_doneD [OF h]
  have m: "pes x = pes0 x" using hd(1) [of x] x(2) by simp
  have pe: "pe_ok input rows cols x (pes0 x)" using ok x(1) by (simp add: mesh_ok_def)
  note q = step_quiet_acc [OF pe x(1) st]
  have con: "ms_left_connection (pes0 x) = Some (?L x)" "ms_top_connection (pes0 x) = Some (?T x)" "ms_lines (pes0 x)"
    "ms_wired (pes0 x) (length ports)"
    using pe np ij hd(8) by (auto simp: pe_ok_def ms_wired_def)
  have lw: "cs (?L x) = cs0 (?L x)" "cs (?T x) = cs0 (?T x)" using hd(2,3) [OF x] by simp_all
  have ar: "arrives (pending (cs (?T x))) (w x) (p x)" "pending (cs (?L x)) = opt_list (a x)" "\<forall>q. a x = Some q \<longrightarrow> pk_type q = IACTIVATION"
    "cn_pending_data (cs (?L x)) \<longrightarrow> cn_data (cs (?L x)) \<noteq> []"
    using mi x(1) lw by (simp_all add: mesh_in_def)
  note dist = wires_distinct [OF inp]
  define R where "R = (if Suc j < cols then Some (?L ?r) else None)"
  define B where "B = (if Suc i < rows then Some (?T ?b) else None)"
  define cs1 where "cs1 = wire_put R (opt_list (ou_act (ou x))) (wire_put B (down (ou x)) (clear_wire (?T x) (clear_wire (?L x) cs)))"
  have rb: "wire_put (ms_right_connection (pes0 x)) (opt_list (ou_act (ou x))) c = wire_put R (opt_list (ou_act (ou x))) c"
    "wire_put (ms_bottom_connection (pes0 x)) (down (ou x)) c = wire_put B (down (ou x)) c" for c
    using q(2,3) pe ij by (auto simp: R_def B_def pe_ok_def left_wire_def top_wire_def wire_put_def split: option.splits)
  have cyc: "ms_cycle freed (pes x, cs, ports) = Some (nxt x, cs1, acc_put (ms_accbuffer_connection (pes0 x)) (ou_acc (ou x)) ports)"
    using cycle_step [OF con(3,4,1) ar(4,2,3) con(2) ar(1) _ st] dist(3) [OF x(1) x(1)] rb
    unfolding m cs1_def by (simp add: down_def)
  have nb: "?r \<in> grid rows cols \<longleftrightarrow> Suc j < cols" "?b \<in> grid rows cols \<longleftrightarrow> Suc i < rows" using ij by (auto simp: grid_def)
  have inD: "Suc j < cols \<Longrightarrow> ?r \<in> D" "Suc i < rows \<Longrightarrow> ?b \<in> D"
    using cl(2) nb ij(1) unfolding closed_def by (fastforce simp: left_of_def above_def)+
  have notD: "left_of x = Some z \<Longrightarrow> z \<notin> D" "above x = Some z \<Longrightarrow> z \<notin> D" for z
    using cl(1) x unfolding closed_def by blast+
  have self: "left_of x \<noteq> Some x" "above x \<noteq> Some x" by (auto simp: left_of_def above_def split: prod.splits)
  have RB: "R = Some (?L y) \<longleftrightarrow> y = ?r" "R \<noteq> Some (?T y)" "B = Some (?T y) \<longleftrightarrow> y = ?b" "B \<noteq> Some (?L y)" if "y \<in> grid rows cols" for y
    using dist(1) [of ?r y] dist(3) [of ?r y] dist(2) [of ?b y] dist(3) [of y ?b] that nb by (auto simp: R_def B_def)
  have same: "cs1 c = cs c" if "c \<noteq> ?L x" "c \<noteq> ?T x" "R \<noteq> Some c" "B \<noteq> Some c" for c
    using that by (simp add: cs1_def wire_put_simps clear_wire_simps)
  have atL: "cs1 (?L x) = clear_wire (?L x) cs (?L x)" "cs1 (?T x) = clear_wire (?T x) (clear_wire (?L x) cs) (?T x)"
    using RB [OF x(1)] dist(3) [OF x(1) x(1)] ij by (simp_all add: cs1_def wire_put_simps clear_wire_simps)
  have atr: "pending (cs1 (?L ?r)) = opt_list (ou_act (ou x))"
    "cn_pending_data (cs1 (?L ?r)) \<longrightarrow> cn_data (cs1 (?L ?r)) \<noteq> []" if "Suc j < cols"
  proof -
    let ?c = "wire_put B (down (ou x)) (clear_wire (?T x) (clear_wire (?L x) cs))"
    have g: "?r \<in> grid rows cols" "R = Some (?L ?r)" using nb(1) that by (simp_all add: R_def)
    have "?r \<noteq> x" using ij by simp
    then have c: "?c (?L ?r) = cs (?L ?r)"
      using dist(1) [OF g(1) x(1)] dist(3) [OF g(1) x(1)] RB(4) [OF g(1)] by (simp add: wire_put_simps clear_wire_simps)
    have "left_of ?r = Some x" using ij by (simp add: left_of_def)
    then have e: "pending (cs (?L ?r)) = []" using hd(4) [OF g(1) inD(1) [OF that]] x(2) by (simp add: sent_insert)
    show "pending (cs1 (?L ?r)) = opt_list (ou_act (ou x))"
      unfolding cs1_def g(2) by (rule wire_put_simps(2)) (unfold c, rule e)
    show "cn_pending_data (cs1 (?L ?r)) \<longrightarrow> cn_data (cs1 (?L ?r)) \<noteq> []"
      unfolding cs1_def g(2) by (rule wire_put_simps(3)) (unfold c, rule hd(5) [OF g(1) inD(1) [OF that]])
  qed
  have atb: "pending (cs1 (?T ?b)) = down (ou x)" if "Suc i < rows"
  proof -
    have g: "?b \<in> grid rows cols" "B = Some (?T ?b)" using nb(2) that by (simp_all add: B_def)
    have "?b \<noteq> x" using ij by simp
    then have c: "clear_wire (?T x) (clear_wire (?L x) cs) (?T ?b) = cs (?T ?b)"
      using dist(2) [OF g(1) x(1)] dist(3) [OF x(1) g(1)] by (simp add: clear_wire_simps)
    have "above ?b = Some x" using ij by (simp add: above_def)
    then have "pending (cs (?T ?b)) = []" using hd(6) [OF g(1) inD(2) [OF that]] x(2) by (simp add: sent_insert)
    then have "pending (wire_put B (down (ou x)) (clear_wire (?T x) (clear_wire (?L x) cs)) (?T ?b)) = down (ou x)"
      unfolding g(2) by (intro wire_put_simps(2)) (unfold c)
    then show ?thesis using RB(2) [OF g(1)] by (simp add: cs1_def wire_put_simps)
  qed
  have le: "left_of y = Some x \<longleftrightarrow> y = ?r" "above y = Some x \<longleftrightarrow> y = ?b" for y
    using ij(1) by (cases y; auto simp: left_of_def above_def)+
  have oth: "y \<noteq> x \<Longrightarrow> y \<noteq> ?r \<Longrightarrow> cs1 (?L y) = cs (?L y)" "y \<noteq> x \<Longrightarrow> y \<noteq> ?b \<Longrightarrow> cs1 (?T y) = cs (?T y)" if "y \<in> grid rows cols" for y
    using dist(1) [OF that x(1)] dist(2) [OF that x(1)] dist(3) [OF that x(1)] dist(3) [OF x(1) that] RB [OF that]
    by (auto intro!: same)
  have "half_done input rows cols nxt ou (pes0, cs0, ports0) (insert x D)
     (pes(x := nxt x), cs1, acc_put (ms_accbuffer_connection (pes0 x)) (ou_acc (ou x)) ports)"
  proof (rule half_doneI)
    fix y
    show "(pes(x := nxt x)) y = (if y \<in> insert x D then nxt y else pes0 y)" using hd(1) [of y] by simp
    assume y: "y \<in> grid rows cols"
    show "cs1 (?L y) = cs0 (?L y)" "cs1 (?T y) = cs0 (?T y)" if "y \<notin> insert x D"
      using that y inD nb oth [OF y] hd(2,3) [OF y] by fastforce+
    assume yD: "y \<in> insert x D"
    show "pending (cs1 (?L y)) = sent (insert x D) (\<lambda>y. opt_list (ou_act (ou y))) (left_of y)"
    proof (cases "y = x \<or> y = ?r")
      case True
      then show ?thesis
      proof
        assume "y = x"
        moreover have "sent (insert x D) (\<lambda>y. opt_list (ou_act (ou y))) (left_of x) = []"
          using notD(1) self(1) by (auto simp: sent_def split: option.splits)
        ultimately show ?thesis by (simp add: atL clear_wire_simps)
      next
        assume yr: "y = ?r"
        then show ?thesis using atr(1) nb(1) y le(1) [of ?r] by (simp add: sent_insert)
      qed
    qed (use yD hd(4) [OF y] oth(1) [OF y] le(1) [of y] in \<open>auto simp: sent_insert\<close>)
    show "pending (cs1 (?T y)) = sent (insert x D) (\<lambda>y. down (ou y)) (above y)"
    proof (cases "y = x \<or> y = ?b")
      case True
      then show ?thesis
      proof
        assume "y = x"
        moreover have "sent (insert x D) (\<lambda>y. down (ou y)) (above x) = []"
          using notD(2) self(2) by (auto simp: sent_def split: option.splits)
        ultimately show ?thesis by (simp add: atL clear_wire_simps)
      next
        assume yb: "y = ?b"
        then show ?thesis using atb nb(2) y le(2) [of ?b] by (simp add: sent_insert)
      qed
    qed (use yD hd(6) [OF y] oth(2) [OF y] le(2) [of y] in \<open>auto simp: sent_insert\<close>)
    show "cn_pending_data (cs1 (?L y)) \<longrightarrow> cn_data (cs1 (?L y)) \<noteq> []"
    proof (cases "y = x \<or> y = ?r")
      case True
      then show ?thesis using atr(2) nb(1) y by (auto simp: atL clear_wire_simps)
    qed (use yD hd(5) [OF y] oth(1) [OF y] in auto)
  next
    fix c assume c: "\<And>x. x \<in> grid rows cols \<Longrightarrow> c \<noteq> ?L x \<and> c \<noteq> ?T x"
    then have "cs c = cs0 c" using hd(7) by blast
    moreover have "cs1 c = cs c" using c [OF x(1)] c nb by (intro same) (auto simp: R_def B_def)
    ultimately show "cs1 c = cs0 c" by simp
  next
    let ?p = "acc_put (ms_accbuffer_connection (pes0 x)) (ou_acc (ou x)) ports"
    show "length ?p = length ports0" using hd(8) by (simp add: acc_put_def split: option.splits)
    fix k assume k: "k < length ports0"
    show "?p ! k = (case (if k < cols \<and> (rows - 1, k) \<in> insert x D then ou_acc (ou (rows - 1, k)) else None) of
       None \<Rightarrow> ports0 ! k | Some q \<Rightarrow> cn_send [ws_package.truncate q] (ports0 ! k))"
    proof (cases "ou_acc (ou x)")
      case None
      then have "?p = ports" by (simp add: acc_put_def split: option.splits)
      then show ?thesis using hd(9) [OF k] None x(2) ij by (auto split: if_splits)
    next
      case (Some v)
      then have i: "i = rows - 1" using q(1) ij(1) by simp
      then have "ms_accbuffer_connection (pes0 x) = Some j" using pe ij by (simp add: pe_ok_def)
      then have p: "?p = ports[j := cn_send [ws_package.truncate v] (ports ! j)]" using Some by (simp add: acc_put_def)
      show ?thesis
      proof (cases "k = j")
        case True
        have "ports ! j = ports0 ! j" using hd(9) [of j] k True x(2) ij(1) i by simp
        then show ?thesis using p True k hd(8) Some ij i by simp
      next
        case False
        then have "(rows - 1, k) \<noteq> x" using ij(1) by simp
        then show ?thesis using p False hd(9) [OF k] by simp
      qed
    qed
  qed
  then show ?thesis using cyc by blast
qed

lemma closed_empty [simp]: "closed rows cols {}"
  by (simp add: closed_def)

lemma half_done_start: "half_done input rows cols nxt ou s {} s"
  by (cases s) (simp add: half_done_def)

lemma pes_cycle_total:
  assumes "inputs_ok input (cols + rows)" "mesh_ok input rows cols pes0" "mesh_in input rows cols cs0 w p a"
    "cols \<le> length ports0" "\<And>x. ms_step freed (w x) (p x) (a x) (pes0 x) = (nxt x, ou x)"
  shows "half_done input rows cols nxt ou (pes0, cs0, ports0) D s \<Longrightarrow> closed rows cols D \<Longrightarrow> in_order rows cols D xs \<Longrightarrow>
     \<exists>s'. pes_cycle freed xs s = Some s' \<and> half_done input rows cols nxt ou (pes0, cs0, ports0) (D \<union> set xs) s'"
proof (induction xs arbitrary: D s)
  case (Cons x xs)
  obtain pes cs ports where s: "s = (pes, cs, ports)" by (cases s) auto
  have x: "x \<in> grid rows cols" "x \<notin> D" "closed rows cols (insert x D)" "in_order rows cols (insert x D) xs"
    using Cons.prems(3) by simp_all
  obtain m cs1 ports1 where "ms_cycle freed (pes x, cs, ports) = Some (m, cs1, ports1)"
    and h: "half_done input rows cols nxt ou (pes0, cs0, ports0) (insert x D) (pes(x := m), cs1, ports1)"
    using half_done_step [OF assms Cons.prems(1) [unfolded s] Cons.prems(2) x(3,1,2)] by blast
  with Cons.IH [OF h x(3,4)] show ?case by (simp add: s)
qed simp

text \<open>
  A cycle of the mesh, element after element, is one synchronous step of all elements: every element
  makes its step on what was on its wires before the cycle, and what it puts out is on the wires of
  its neighbours after it.
\<close>

lemma wm_cycle_step:
  assumes "inputs_ok input (wm_cols w + wm_rows w)" "mesh_ok input (wm_rows w) (wm_cols w) (wm_pes w)"
    "mesh_in input (wm_rows w) (wm_cols w) cs wt p a" "wm_cols w \<le> length ports"
    "\<And>x. ms_step freed (wt x) (p x) (a x) (wm_pes w x) = (nxt x, ou x)"
  shows "\<exists>w' cs' ports'. wm_cycle freed (w, cs, ports) = Some (w', cs', ports') \<and>
    wm_rows w' = wm_rows w \<and> wm_cols w' = wm_cols w \<and> mesh_ok input (wm_rows w) (wm_cols w) (wm_pes w') \<and>
    half_done input (wm_rows w) (wm_cols w) nxt ou (wm_pes w, cs, ports) (grid (wm_rows w) (wm_cols w)) (wm_pes w', cs', ports')"
proof -
  let ?g = "grid (wm_rows w) (wm_cols w)"
  obtain s' where s': "pes_cycle freed (pe_order (wm_rows w) (wm_cols w)) (wm_pes w, cs, ports) = Some s'"
    "half_done input (wm_rows w) (wm_cols w) nxt ou (wm_pes w, cs, ports) ({} \<union> set (pe_order (wm_rows w) (wm_cols w))) s'"
    using pes_cycle_total [OF assms half_done_start closed_empty pe_order_in_order] by blast
  obtain pes cs' ports' where p: "s' = (pes, cs', ports')" by (cases s') auto
  have h: "half_done input (wm_rows w) (wm_cols w) nxt ou (wm_pes w, cs, ports) ?g (pes, cs', ports')"
    using s'(2) by (simp add: p set_pe_order)
  have "mesh_ok input (wm_rows w) (wm_cols w) pes"
    using assms(2) step_keeps_ok [OF _ assms(5)] half_doneD(1) [OF h] by (simp add: mesh_ok_def)
  then show ?thesis using s'(1) h by (simp add: wm_cycle_def p)
qed

section \<open>Delay lines and streams\<close>

text \<open>The cells of a line that has been fed the stream \<open>X\<close> for \<open>t\<close> cycles.\<close>

definition past :: "(nat \<Rightarrow> 'a option) \<Rightarrow> nat \<Rightarrow> nat \<Rightarrow> 'a option list" where
  "past X t n = map (\<lambda>k. if k < t then X (t - 1 - k) else None) [0..<n]"

definition late :: "(nat \<Rightarrow> 'a option) \<Rightarrow> nat \<Rightarrow> nat \<Rightarrow> 'a option" where
  "late X n t = (if n \<le> t then X (t - n) else None)"

lemma past_shift: "X t # past X t n = past X (Suc t) (Suc n)"
  unfolding past_def by (subst upt_conv_Cons) (auto simp del: upt_Suc simp flip: map_Suc_upt)

lemma past_out: "last (X t # past X t n) = late X n t" "butlast (X t # past X t n) = past X (Suc t) n"
  unfolding past_shift by (auto simp: past_def late_def)

lemma past_zero [simp]: "past X 0 n = replicate n None" "past X t 0 = []"
  by (simp_all add: past_def map_replicate_trivial)

lemma late_late: "late (late X n) k = late X (n + k)"
  by (rule ext) (auto simp: late_def add.commute)

end
