(* ===== verification/WSFlow.thy ===== *)
theory WSFlow
  imports WSMesh
begin

text \<open>
  What flows through the weight-stationary mesh: the streams of activations and partial sums, and the
  invariant that says where each of their values is in every cycle.
\<close>

section \<open>One element without new weights\<close>

definition active :: "multiplier \<Rightarrow> u32" where
  "active m = (if ms_prop m then ms_weight2 m else ms_weight1 m)"

definition spare :: "multiplier \<Rightarrow> u32" where
  "spare m = (if ms_prop m then ms_weight1 m else ms_weight2 m)"

text \<open>No weight is on its way into the element.\<close>

definition quiet :: "multiplier \<Rightarrow> bool" where
  "quiet m \<longleftrightarrow> (\<forall>x\<in>set (sf_buffer (ms_top_weight_fifo m)). x = None)"

text \<open>
  The weight \<open>x\<close> is in use from cycle \<open>d\<close> on: it is in use now, or it is the spare one and the flip is
  due in cycle \<open>d\<close>.
\<close>

definition armed :: "bool \<Rightarrow> nat \<Rightarrow> nat \<Rightarrow> u32 \<Rightarrow> multiplier \<Rightarrow> bool" where
  "armed flip d t x m \<longleftrightarrow> (if flip \<and> t \<le> d then ms_flip_counter m = int (d - t) \<and> spare m = x
     else ms_flip_counter m < 0 \<and> active m = x)"

lemma armed_flip:
  assumes "armed flip d t x m"
  shows "armed flip d (Suc t) x (ms_flip m)" "d \<le> t \<Longrightarrow> active (ms_flip m) = x"
  using assms by (auto simp: armed_def ms_flip_def active_def spare_def split: if_splits)

definition mac :: "u32 \<Rightarrow> package option \<Rightarrow> package option \<Rightarrow> u32 option" where
  "mac wt a p = (case a of None \<Rightarrow> None
     | Some q \<Rightarrow> Some (wk_data q * wt + (case p of None \<Rightarrow> 0 | Some r \<Rightarrow> wk_data r)))"

text \<open>Without a weight, \<open>ms_compute\<close> only multiplies and counts.\<close>

definition same_control :: "multiplier \<Rightarrow> multiplier \<Rightarrow> bool" where
  "same_control m n \<longleftrightarrow> ms_prop n = ms_prop m \<and> ms_weight1 n = ms_weight1 m \<and> ms_weight2 n = ms_weight2 m \<and>
     ms_flip_counter n = ms_flip_counter m \<and> ms_act_limit_queue n = ms_act_limit_queue m \<and> ms_do_output n = ms_do_output m"

lemma compute_quiet:
  assumes "ms_compute freed None p a m = (out, wo, m')"
  shows "same_control m m'" "wo = None" "map_option wk_data out = mac (active m) a p"
    "\<And>q. out = Some q \<Longrightarrow> pk_type q = COMPUTED_PSUM"
proof -
  obtain l m1 where c: "ms_count None m = (l, m1)" by fastforce
  let ?p = "case p of None \<Rightarrow> 0 | Some q \<Rightarrow> wk_data q"
  obtain m2 where mc: "ms_mac a ?p m1 = (out, m2)" and m': "m' = ms_tile_done m2" "wo = None"
    using assms c by (auto simp: ms_compute_def ms_load_def split: prod.splits)
  have 1: "same_control m m1" using c by (auto simp: ms_count_def same_control_def split: if_splits)
  have 2: "same_control m1 m2" using mc by (auto simp: ms_mac_def same_control_def split: option.splits if_splits)
  have 3: "same_control m2 m'" using m' by (auto simp: ms_tile_done_def same_control_def)
  show "same_control m m'" using 1 2 3 by (simp add: same_control_def)
  show "wo = None" by (rule m')
  show "map_option wk_data out = mac (active m) a p" "\<And>q. out = Some q \<Longrightarrow> pk_type q = COMPUTED_PSUM"
    using mc 1 by (auto simp: ms_mac_def mac_def active_def same_control_def split: option.splits if_splits)
qed

lemma limits_control:
  "ms_prop (ms_limits m) = ms_prop m" "ms_weight1 (ms_limits m) = ms_weight1 m" "ms_weight2 (ms_limits m) = ms_weight2 m"
  "ms_flip_counter (ms_limits m) = ms_flip_counter m"
  by (simp_all add: ms_limits_def split: list.split)

lemma armed_control: "same_control m n \<Longrightarrow> armed flip d t x n = armed flip d t x m"
  by (simp add: armed_def active_def spare_def same_control_def)

lemma active_control: "same_control m n \<Longrightarrow> active n = active m"
  by (simp add: active_def same_control_def)

lemma armed_views: "armed flip d t x (m\<lparr>ms_top_weight_fifo := fw, ms_left_fifo := fl\<rparr>) = armed flip d t x m"
  "armed flip d t x (m\<lparr>ms_accbuffer_fifo := fa, ms_local_cycle := c\<rparr>) = armed flip d t x m"
  "armed flip d t x (ms_limits m) = armed flip d t x m" "active (ms_limits m) = active m"
  "active (m\<lparr>ms_top_weight_fifo := fw, ms_left_fifo := fl\<rparr>) = active m"
  by (simp_all add: armed_def active_def spare_def limits_control cong: if_cong)

lemma flip_limits: "ms_act_limit_queue (ms_limits (ms_flip m)) = ms_act_limit_queue (ms_limits m)"
  "ms_do_output (ms_limits (ms_flip m)) = ms_do_output (ms_limits m)"
  by (simp_all add: ms_limits_def ms_flip_def split: list.split)

lemma quiet_step:
  assumes "quiet m" "ms_step freed None p a m = (m', u)"
  shows "sf_buffer (ms_top_weight_fifo m') = sf_buffer (ms_top_weight_fifo m)" "\<And>flip d t x. armed flip d t x m \<Longrightarrow> armed flip d (Suc t) x m'"
    "ms_act_limit_queue m' = ms_act_limit_queue (ms_limits m)"
    "ms_do_output m' = ms_do_output (ms_limits m)" "ms_local_cycle m' = ms_local_cycle m + 1"
    "sf_buffer (ms_left_fifo m') = butlast (a # sf_buffer (ms_left_fifo m))"
    "ou_weight u = None"
    "ou_act u = (if ms_col_num m = ms_cols m - 1 then None else last (a # sf_buffer (ms_left_fifo m)))"
    "\<exists>out. map_option wk_data out = mac (active (ms_flip m)) (last (a # sf_buffer (ms_left_fifo m))) p \<and>
       (\<forall>q. out = Some q \<longrightarrow> pk_type q = COMPUTED_PSUM) \<and>
       ou_psum u = (if ms_row_num m = ms_rows m - 1 then None else out) \<and>
       ou_acc u = last ((if ms_row_num m = ms_rows m - 1 \<and> ms_do_output m' then out else None) # sf_buffer (ms_accbuffer_fifo m)) \<and>
       sf_buffer (ms_accbuffer_fifo m') =
         butlast ((if ms_row_num m = ms_rows m - 1 \<and> ms_do_output m' then out else None) # sf_buffer (ms_accbuffer_fifo m))"
proof -
  have n: "last (None # sf_buffer (ms_top_weight_fifo m)) = None" "butlast (None # sf_buffer (ms_top_weight_fifo m)) = sf_buffer (ms_top_weight_fifo m)"
    using assms(1) None_line [of "sf_buffer (ms_top_weight_fifo m)"] by (simp_all add: quiet_def)
  obtain fw where d1: "delay None (ms_top_weight_fifo m) = (None, fw)" and fw: "sf_buffer fw = sf_buffer (ms_top_weight_fifo m)"
    using n by (simp add: delay_def)
  obtain a1 fl where d2: "delay a (ms_left_fifo m) = (a1, fl)" by fastforce
  let ?m1 = "(ms_limits (ms_flip m))\<lparr>ms_top_weight_fifo := fw, ms_left_fifo := fl\<rparr>"
  obtain out wo m2 where c: "ms_compute freed None p a1 ?m1 = (out, wo, m2)" by (metis prod_cases3)
  let ?x = "if ms_row_num m = ms_rows m - 1 \<and> ms_do_output m2 then out else None"
  obtain acc fa where o: "delay ?x (ms_accbuffer_fifo m) = (acc, fa)" by fastforce
  have m': "m' = m2\<lparr>ms_accbuffer_fifo := fa, ms_local_cycle := ms_local_cycle m + 1\<rparr>"
    and u: "u = \<lparr>ou_psum = (if ms_row_num m = ms_rows m - 1 then None else out),
        ou_weight = (if ms_row_num m = ms_rows m - 1 then None else wo),
        ou_act = (if ms_col_num m = ms_cols m - 1 then None else a1), ou_acc = acc\<rparr>"
    using assms(2) d1 d2 c o by (simp_all add: ms_step_def Let_def)
  have fr: "same_frame ?m1 m2" by (rule compute_frame [OF c])
  note cq = compute_quiet [OF c]
  have a1: "a1 = last (a # sf_buffer (ms_left_fifo m))" "sf_buffer fl = butlast (a # sf_buffer (ms_left_fifo m))"
    using d2 by (auto simp: delay_def)
  have ac: "acc = last (?x # sf_buffer (ms_accbuffer_fifo m))" "sf_buffer fa = butlast (?x # sf_buffer (ms_accbuffer_fifo m))"
    using o by (auto simp: delay_def)
  show "sf_buffer (ms_top_weight_fifo m') = sf_buffer (ms_top_weight_fifo m)"
    "sf_buffer (ms_left_fifo m') = butlast (a # sf_buffer (ms_left_fifo m))"
    using fr fw a1(2) by (simp_all add: m' same_frame_def)
  show "armed flip d (Suc t) x m'" if "armed flip d t x m" for flip d t x
    using armed_flip(1) [OF that] armed_control [OF cq(1)] by (simp add: m' armed_views)
  show "ms_act_limit_queue m' = ms_act_limit_queue (ms_limits m)" "ms_do_output m' = ms_do_output (ms_limits m)"
    "ms_local_cycle m' = ms_local_cycle m + 1"
    using cq(1) by (simp_all add: m' same_control_def flip_limits)
  show "ou_weight u = None" "ou_act u = (if ms_col_num m = ms_cols m - 1 then None else last (a # sf_buffer (ms_left_fifo m)))"
    using cq(2) a1(1) by (simp_all add: u)
  have act: "active ?m1 = active (ms_flip m)" by (simp add: armed_views)
  show "\<exists>out. map_option wk_data out = mac (active (ms_flip m)) (last (a # sf_buffer (ms_left_fifo m))) p \<and>
       (\<forall>q. out = Some q \<longrightarrow> pk_type q = COMPUTED_PSUM) \<and>
       ou_psum u = (if ms_row_num m = ms_rows m - 1 then None else out) \<and>
       ou_acc u = last ((if ms_row_num m = ms_rows m - 1 \<and> ms_do_output m' then out else None) # sf_buffer (ms_accbuffer_fifo m)) \<and>
       sf_buffer (ms_accbuffer_fifo m') =
         butlast ((if ms_row_num m = ms_rows m - 1 \<and> ms_do_output m' then out else None) # sf_buffer (ms_accbuffer_fifo m))"
    using cq(3,4) ac by (intro exI [of _ out]) (simp add: u m' act a1(1))
qed

section \<open>Streams through the mesh\<close>

text \<open>
  \<open>A i t\<close> is the activation offered to row \<open>i\<close> in cycle \<open>t\<close>, \<open>W\<close> the stationary weights; the partial
  sums of column \<open>j\<close> as a stream per row.
\<close>

type_synonym stream = "nat \<Rightarrow> package option"

fun psums :: "(nat \<Rightarrow> stream) \<Rightarrow> (nat \<times> nat \<Rightarrow> u32) \<Rightarrow> nat \<Rightarrow> nat \<Rightarrow> nat \<Rightarrow> u32 option" where
  "psums A W j 0 t = map_option (\<lambda>q. wk_data q * W (0, j)) (late (A 0) j t)"
| "psums A W j (Suc i) t =
     map_option (\<lambda>q. wk_data q * W (Suc i, j) + (case late (psums A W j i) 1 t of None \<Rightarrow> 0 | Some v \<Rightarrow> v))
       (late (A (Suc i)) (Suc i + j) t)"

text \<open>The rows of a matrix, one per cycle.\<close>

definition row_stream :: "(nat \<Rightarrow> nat \<Rightarrow> package) \<Rightarrow> nat \<Rightarrow> nat \<Rightarrow> stream" where
  "row_stream X n i t = (if t < n then Some (X t i) else None)"

definition column :: "(nat \<Rightarrow> stream) \<Rightarrow> (nat \<times> nat \<Rightarrow> u32) \<Rightarrow> nat \<Rightarrow> u32 \<Rightarrow> nat \<Rightarrow> nat \<Rightarrow> u32 option" where
  "column A W rows t_n j t = (if of_nat j \<le> t_n - 1 then psums A W j (rows - 1) t else None)"

text \<open>
  The environment: what the distribution network puts on the inputs of the columns (weights) and of the
  rows (activations) in a cycle.
\<close>

definition put_all :: "(nat \<Rightarrow> wire) \<Rightarrow> nat \<Rightarrow> (nat \<Rightarrow> package option) \<Rightarrow> wires \<Rightarrow> wires" where
  "put_all nm n a cs = fold (\<lambda>i. wire_put (Some (nm i)) (opt_list (a i))) [0..<n] cs"

definition feed_top :: "(nat \<Rightarrow> wire) \<Rightarrow> nat \<Rightarrow> (nat \<Rightarrow> package option) \<Rightarrow> wires \<Rightarrow> wires" where
  "feed_top input cols b cs = put_all input cols b cs"

definition feed_left :: "(nat \<Rightarrow> wire) \<Rightarrow> nat \<Rightarrow> nat \<Rightarrow> (nat \<Rightarrow> package option) \<Rightarrow> wires \<Rightarrow> wires" where
  "feed_left input rows cols a cs = put_all (\<lambda>i. input (i + cols)) rows a cs"

text \<open>
  Cycles of the mesh: \<open>B j t\<close> is on the input of column \<open>j\<close> and \<open>A i t\<close> on that of row \<open>i\<close> in cycle \<open>t\<close>, and before
  it the accumulation buffer has read the ports (\<open>rd\<close>).
\<close>

fun mesh_run ::
    "(package \<Rightarrow> u32) \<Rightarrow> (nat \<Rightarrow> wire) \<Rightarrow> (nat \<Rightarrow> acc_ports \<Rightarrow> acc_ports) \<Rightarrow> (nat \<Rightarrow> stream) \<Rightarrow> (nat \<Rightarrow> stream) \<Rightarrow> nat \<Rightarrow>
     ws_mesh \<times> wires \<times> acc_ports \<Rightarrow> (ws_mesh \<times> wires \<times> acc_ports) option" where
  "mesh_run freed input rd B A 0 s = Some s"
| "mesh_run freed input rd B A (Suc t) s =
     do { (w, cs, ports) \<leftarrow> mesh_run freed input rd B A t s;
          wm_cycle freed (w, feed_left input (wm_rows w) (wm_cols w) (\<lambda>i. A i t) (feed_top input (wm_cols w) (\<lambda>j. B j t) cs),
                          rd t ports) }"

lemma past_over: "n + d \<le> t \<Longrightarrow> past (row_stream V n j) t d = replicate d None"
  unfolding past_def by (rule nth_equalityI) (auto simp: row_stream_def)

lemma late_Suc [simp]: "late X (Suc n) (Suc t) = late X n t"
  by (simp add: late_def)

lemma late_SomeD: "late X n t = Some q \<Longrightarrow> \<exists>s. X s = Some q"
  by (auto simp: late_def split: if_splits)

lemma late_zero [simp]: "late X (Suc n) 0 = None" "late X 0 t = X t"
  by (simp_all add: late_def)

lemma wire_put_other: "d \<noteq> c \<Longrightarrow> wire_put (Some c) ps cs d = cs d"
  by (simp add: wire_put_def wire_send_def)

lemma put_all_at:
  assumes "inj_on nm {..<n}"
  shows "(\<And>i. i < n \<Longrightarrow> c \<noteq> nm i) \<Longrightarrow> put_all nm n a cs c = cs c"
    "k < n \<Longrightarrow> put_all nm n a cs (nm k) = wire_put (Some (nm k)) (opt_list (a k)) cs (nm k)"
proof -
  have "((\<forall>i<n. c \<noteq> nm i) \<longrightarrow> put_all nm n a cs c = cs c) \<and>
    (k < n \<longrightarrow> put_all nm n a cs (nm k) = wire_put (Some (nm k)) (opt_list (a k)) cs (nm k))" for c k
    using assms
  proof (induction n arbitrary: c k)
    case (Suc n)
    have S: "put_all nm (Suc n) a cs = wire_put (Some (nm n)) (opt_list (a n)) (put_all nm n a cs)" by (simp add: put_all_def)
    have inj: "inj_on nm {..<n}" using Suc.prems by (rule inj_on_subset) auto
    note IH = Suc.IH [OF inj]
    have neq: "nm k \<noteq> nm n" if "k < n" for k using inj_onD [OF Suc.prems, of k n] that by auto
    have "put_all nm n a cs (nm n) = cs (nm n)" using IH [of "nm n" 0] neq [symmetric] by blast
    then have "wire_put (Some (nm n)) (opt_list (a n)) (put_all nm n a cs) (nm n) =
        wire_put (Some (nm n)) (opt_list (a n)) cs (nm n)" by (simp add: wire_put_def wire_send_def)
    then show ?case unfolding S using IH neq by (auto simp: wire_put_other less_Suc_eq)
  qed (simp add: put_all_def)
  then show "(\<And>i. i < n \<Longrightarrow> c \<noteq> nm i) \<Longrightarrow> put_all nm n a cs c = cs c"
    "k < n \<Longrightarrow> put_all nm n a cs (nm k) = wire_put (Some (nm k)) (opt_list (a k)) cs (nm k)" by blast+
qed

lemma put_none [simp]: "put_all nm n (\<lambda>_. None) cs = cs"
  by (induction n) (simp_all add: put_all_def wire_put_def)

text \<open>The wires into an element after the feeding.\<close>

lemma feed_wires:
  assumes "inputs_ok input (cols + rows)" "x \<in> grid rows cols"
  shows "feed_left input rows cols a cs (top_wire input x) = cs (top_wire input x)"
    "snd x \<noteq> 0 \<Longrightarrow> feed_left input rows cols a cs (left_wire input cols x) = cs (left_wire input cols x)"
    "snd x = 0 \<Longrightarrow> feed_left input rows cols a cs (left_wire input cols x) =
       wire_put (Some (left_wire input cols x)) (opt_list (a (fst x))) cs (left_wire input cols x)"
    "feed_top input cols b cs (left_wire input cols x) = cs (left_wire input cols x)"
    "fst x \<noteq> 0 \<Longrightarrow> feed_top input cols b cs (top_wire input x) = cs (top_wire input x)"
    "fst x = 0 \<Longrightarrow> feed_top input cols b cs (top_wire input x) =
       wire_put (Some (top_wire input x)) (opt_list (b (snd x))) cs (top_wire input x)"
proof -
  obtain i j where x: "x = (i, j)" "i < rows" "j < cols" using assms(2) by (auto simp: grid_def)
  have all: "inj_on input {..<cols + rows}" using assms(1) by (simp add: inputs_ok_def)
  have inj: "inj_on (\<lambda>i. input (i + cols)) {..<rows}" "inj_on input {..<cols}"
    using inj_onD [OF all] by (fastforce intro!: inj_onI)+
  have g: "(k, 0) \<in> grid rows cols" "input (k + cols) = left_wire input cols (k, 0)" if "k < rows" for k
    using that x by (auto simp: grid_def left_wire_def)
  have h: "(0, k) \<in> grid rows cols" "input k = top_wire input (0, k)" if "k < cols" for k
    using that x by (auto simp: grid_def top_wire_def)
  have t: "top_wire input x \<noteq> input (k + cols)" "snd x \<noteq> 0 \<Longrightarrow> left_wire input cols x \<noteq> input (k + cols)" if "k < rows" for k
    using g [OF that] wires_distinct(1) [OF assms g(1) [OF that]] wires_distinct(3) [OF assms(1) g(1) [OF that] assms(2)] x
    by auto
  have l: "left_wire input cols x \<noteq> input k" "fst x \<noteq> 0 \<Longrightarrow> top_wire input x \<noteq> input k" if "k < cols" for k
    using h [OF that] wires_distinct(2) [OF assms h(1) [OF that]] wires_distinct(3) [OF assms h(1) [OF that]] x by auto
  show "feed_left input rows cols a cs (top_wire input x) = cs (top_wire input x)"
    "snd x \<noteq> 0 \<Longrightarrow> feed_left input rows cols a cs (left_wire input cols x) = cs (left_wire input cols x)"
    unfolding feed_left_def using t by (auto intro!: put_all_at(1) [OF inj(1)])
  show "feed_top input cols b cs (left_wire input cols x) = cs (left_wire input cols x)"
    "fst x \<noteq> 0 \<Longrightarrow> feed_top input cols b cs (top_wire input x) = cs (top_wire input x)"
    unfolding feed_top_def using l by (auto intro!: put_all_at(1) [OF inj(2)])
  show "snd x = 0 \<Longrightarrow> feed_left input rows cols a cs (left_wire input cols x) =
       wire_put (Some (left_wire input cols x)) (opt_list (a (fst x))) cs (left_wire input cols x)"
    unfolding feed_left_def using put_all_at(2) [OF inj(1), of i a cs] x by (simp add: left_wire_def)
  show "fst x = 0 \<Longrightarrow> feed_top input cols b cs (top_wire input x) =
       wire_put (Some (top_wire input x)) (opt_list (b (snd x))) cs (top_wire input x)"
    unfolding feed_top_def using put_all_at(2) [OF inj(2), of j b cs] x by (simp add: top_wire_def)
qed

text \<open>
  A mesh with nothing on its way, its clocks at \<open>c0\<close>, and the weights \<open>W\<close> in use, or, when the command is to
  flip, in the spare registers.
\<close>

definition idle_pe :: "(nat \<Rightarrow> wire) \<Rightarrow> nat \<Rightarrow> nat \<Rightarrow> u32 \<Rightarrow> wires \<Rightarrow> nat \<times> nat \<Rightarrow> multiplier \<Rightarrow> bool" where
  "idle_pe input rows cols c0 cs = (\<lambda>(i, j) m.
     pe_ok input rows cols (i, j) m \<and> ms_flip_counter m < 0 \<and>
     sf_buffer (ms_top_weight_fifo m) = replicate (if i = 0 then j else 0) None \<and> ms_local_cycle m = c0 \<and> ms_act_limit_queue m = [] \<and>
     sf_buffer (ms_left_fifo m) = replicate (if j = 0 then i else 0) None \<and>
     (i = rows - 1 \<longrightarrow> sf_buffer (ms_accbuffer_fifo m) = replicate (cols - 1 - j) None) \<and>
     pending (cs (left_wire input cols (i, j))) = [] \<and>
     (cn_pending_data (cs (left_wire input cols (i, j))) \<longrightarrow> cn_data (cs (left_wire input cols (i, j))) \<noteq> []) \<and>
     pending (cs (top_wire input (i, j))) = [])"

definition idle :: "(nat \<Rightarrow> wire) \<Rightarrow> u32 \<Rightarrow> ws_mesh \<Rightarrow> wires \<Rightarrow> bool" where
  "idle input c0 w cs \<longleftrightarrow>
     (\<forall>i<wm_rows w. \<forall>j<wm_cols w. idle_pe input (wm_rows w) (wm_cols w) c0 cs (i, j) (wm_pes w (i, j)))"

definition holds :: "(nat \<times> nat \<Rightarrow> u32) \<Rightarrow> bool \<Rightarrow> ws_mesh \<Rightarrow> bool" where
  "holds W flip w \<longleftrightarrow> (\<forall>i<wm_rows w. \<forall>j<wm_cols w.
     (if flip then spare (wm_pes w (i, j)) else active (wm_pes w (i, j))) = W (i, j))"

section \<open>The invariant of the flow\<close>

definition limit_of :: "u32 \<Rightarrow> u32 \<times> u32 \<times> u32 \<Rightarrow> nat \<times> nat \<Rightarrow> act_limit" where
  "limit_of c0 = (\<lambda>(t_m, t_k, t_n) (i, j).
     \<lparr>al_cycle = c0 + of_nat i + of_nat j, al_T_K = t_k, al_T_M = t_m, al_T_N = t_n\<rparr>)"

text \<open>The element \<open>(i, j)\<close> and its wires at the start of cycle \<open>t\<close> after the multiplication was started.\<close>

definition flow_at ::
    "(nat \<Rightarrow> wire) \<Rightarrow> (nat \<Rightarrow> stream) \<Rightarrow> (nat \<times> nat \<Rightarrow> u32) \<Rightarrow> nat \<Rightarrow> nat \<Rightarrow> bool \<Rightarrow> u32 \<Rightarrow>
     u32 \<times> u32 \<times> u32 \<Rightarrow> nat \<Rightarrow> wires \<Rightarrow> nat \<times> nat \<Rightarrow> multiplier \<Rightarrow> bool" where
  "flow_at input A W rows cols flip c0 tile t cs = (\<lambda>(i, j) m.
     sf_buffer (ms_top_weight_fifo m) = replicate (if i = 0 then j else 0) None \<and> armed flip (i + j) t (W (i, j)) m \<and> ms_local_cycle m = c0 + of_nat t \<and>
     ms_act_limit_queue m = (if t \<le> i + j then [limit_of c0 tile (i, j)] else []) \<and>
     (i = rows - 1 \<and> i + j < t \<longrightarrow> ms_do_output m = (of_nat j \<le> snd (snd tile) - 1)) \<and>
     sf_buffer (ms_left_fifo m) = past (A i) t (if j = 0 then i else 0) \<and>
     (i = rows - 1 \<longrightarrow> map (map_option wk_data) (sf_buffer (ms_accbuffer_fifo m)) =
        past (column A W rows (snd (snd tile)) j) t (cols - 1 - j)) \<and>
     pending (cs (left_wire input cols (i, j))) = (if j = 0 then [] else opt_list (late (A i) (i + j) t)) \<and>
     (cn_pending_data (cs (left_wire input cols (i, j))) \<longrightarrow> cn_data (cs (left_wire input cols (i, j))) \<noteq> []) \<and>
     (\<exists>p. pending (cs (top_wire input (i, j))) = opt_list p \<and> (\<forall>q. p = Some q \<longrightarrow> pk_type q = COMPUTED_PSUM) \<and>
        map_option wk_data p = (if i = 0 then None else late (psums A W j (i - 1)) 1 t)))"

definition flow_ok ::
    "(nat \<Rightarrow> wire) \<Rightarrow> (nat \<Rightarrow> stream) \<Rightarrow> (nat \<times> nat \<Rightarrow> u32) \<Rightarrow> bool \<Rightarrow> u32 \<Rightarrow> u32 \<times> u32 \<times> u32 \<Rightarrow> nat \<Rightarrow> ws_mesh \<Rightarrow> wires \<Rightarrow> bool" where
  "flow_ok input A W flip c0 tile t w cs \<longleftrightarrow> mesh_ok input (wm_rows w) (wm_cols w) (wm_pes w) \<and>
     (\<forall>x\<in>grid (wm_rows w) (wm_cols w). flow_at input A W (wm_rows w) (wm_cols w) flip c0 tile t cs x (wm_pes w x))"

lemma flow_atD:
  assumes "flow_at input A W rows cols flip c0 tile t cs (i, j) m"
  shows "sf_buffer (ms_top_weight_fifo m) = replicate (if i = 0 then j else 0) None" "armed flip (i + j) t (W (i, j)) m" "ms_local_cycle m = c0 + of_nat t"
    "ms_act_limit_queue m = (if t \<le> i + j then [limit_of c0 tile (i, j)] else [])"
    "i = rows - 1 \<Longrightarrow> i + j < t \<Longrightarrow> ms_do_output m = (of_nat j \<le> snd (snd tile) - 1)"
    "sf_buffer (ms_left_fifo m) = past (A i) t (if j = 0 then i else 0)"
    "i = rows - 1 \<Longrightarrow> map (map_option wk_data) (sf_buffer (ms_accbuffer_fifo m)) =
        past (column A W rows (snd (snd tile)) j) t (cols - 1 - j)"
    "pending (cs (left_wire input cols (i, j))) = (if j = 0 then [] else opt_list (late (A i) (i + j) t))"
    "cn_pending_data (cs (left_wire input cols (i, j))) \<longrightarrow> cn_data (cs (left_wire input cols (i, j))) \<noteq> []"
    "\<exists>p. pending (cs (top_wire input (i, j))) = opt_list p \<and> (\<forall>q. p = Some q \<longrightarrow> pk_type q = COMPUTED_PSUM) \<and>
        map_option wk_data p = (if i = 0 then None else late (psums A W j (i - 1)) 1 t)"
  using assms unfolding flow_at_def by (simp_all del: One_nat_def)

text \<open>The partial sum of an element from what it sees.\<close>

lemma psums_early: "t < i + j \<Longrightarrow> psums A W j i t = None"
  by (cases i) (simp_all add: late_def)

lemma mac_psums:
  assumes "i + j \<le> t \<Longrightarrow> x = W (i, j)" and p: "map_option wk_data p = (if i = 0 then None else late (psums A W j (i - 1)) 1 t)"
  shows "mac x (late (A i) (i + j) t) p = psums A W j i t"
proof (cases "i + j \<le> t")
  case False
  then show ?thesis using psums_early [of t i j A W] by (simp add: late_def mac_def)
next
  case True
  then have x: "x = W (i, j)" by (rule assms(1))
  show ?thesis
  proof (cases i)
    case 0
    then show ?thesis using p by (auto simp: mac_def x split: option.splits)
  next
    case (Suc k)
    then show ?thesis
      using p by (cases p) (auto simp: mac_def x add.commute simp del: One_nat_def split: option.split)
  qed
qed

lemma of_nat_u32_eq: "a < 2 ^ 32 \<Longrightarrow> b < 2 ^ 32 \<Longrightarrow> (of_nat a :: u32) = of_nat b \<longleftrightarrow> a = b"
  by (simp add: word_of_nat_eq_iff take_bit_nat_eq_self)

text \<open>When the limit of the tile takes effect.\<close>

lemma limits_at:
  assumes "flow_at input A W rows cols flip c0 tile t cs (i, j) m" "pe_ok input rows cols (i, j) m" "i + j < 2 ^ 32"
  shows "ms_act_limit_queue (ms_limits m) = (if Suc t \<le> i + j then [limit_of c0 tile (i, j)] else [])"
    "i = rows - 1 \<Longrightarrow> i + j < Suc t \<Longrightarrow> ms_do_output (ms_limits m) = (of_nat j \<le> snd (snd tile) - 1)"
proof -
  note f = flow_atD [OF assms(1)]
  have pe: "ms_row_num m = i" "ms_col_num m = j" "ms_rows m = rows" using assms(2) by (simp_all add: pe_ok_def)
  obtain t_m t_k t_n where tile: "tile = (t_m, t_k, t_n)" by (cases tile)
  have eq: "al_cycle (limit_of c0 tile (i, j)) = ms_local_cycle m \<longleftrightarrow> t = i + j" if "t \<le> i + j"
  proof -
    have "(of_nat (i + j) :: u32) = of_nat t \<longleftrightarrow> i + j = t"
      using that assms(3) by (intro of_nat_u32_eq) simp_all
    then show ?thesis by (auto simp: limit_of_def tile f(3) add.assoc simp flip: of_nat_add)
  qed
  show "ms_act_limit_queue (ms_limits m) = (if Suc t \<le> i + j then [limit_of c0 tile (i, j)] else [])"
    using f(4) eq by (auto simp: ms_limits_def)
  show "ms_do_output (ms_limits m) = (of_nat j \<le> snd (snd tile) - 1)" if "i = rows - 1" "i + j < Suc t"
  proof (cases "t = i + j")
    case True
    then show ?thesis using f(4) eq that(1) pe by (simp add: ms_limits_def limit_of_def tile)
  next
    case False
    then show ?thesis using f(4,5) that by (simp add: ms_limits_def)
  qed
qed

section \<open>What arrives in a cycle of the flow\<close>

definition seen :: "(nat \<Rightarrow> stream) \<Rightarrow> nat \<Rightarrow> nat \<times> nat \<Rightarrow> package option" where
  "seen A t = (\<lambda>(i, j). if j = 0 then A i t else late (A i) (i + j) t)"

lemma flow_in:
  assumes "inputs_ok input (wm_cols w + wm_rows w)" "flow_ok input A W flip c0 tile t w cs"
    "\<forall>i t q. A i t = Some q \<longrightarrow> pk_type q = IACTIVATION"
  obtains p where
    "mesh_in input (wm_rows w) (wm_cols w) (feed_left input (wm_rows w) (wm_cols w) (\<lambda>i. A i t) cs) (\<lambda>_. None) p (seen A t)"
    "\<And>i j. (i, j) \<in> grid (wm_rows w) (wm_cols w) \<Longrightarrow>
       map_option wk_data (p (i, j)) = (if i = 0 then None else late (psums A W j (i - 1)) 1 t)"
proof -
  let ?g = "grid (wm_rows w) (wm_cols w)" and ?f = "feed_left input (wm_rows w) (wm_cols w) (\<lambda>i. A i t) cs"
  define p where "p x = (case pending (cs (top_wire input x)) of [] \<Rightarrow> None | q # _ \<Rightarrow> Some q)" for x
  have fl: "flow_at input A W (wm_rows w) (wm_cols w) flip c0 tile t cs x (wm_pes w x)" if "x \<in> ?g" for x
    using assms(2) that by (simp add: flow_ok_def)
  have fl2: "flow_at input A W (wm_rows w) (wm_cols w) flip c0 tile t cs (i, j) (wm_pes w (i, j))" if "(i, j) \<in> ?g" for i j
    using fl [OF that] .
  have p: "pending (cs (top_wire input (i, j))) = opt_list (p (i, j))" "\<forall>q. p (i, j) = Some q \<longrightarrow> pk_type q = COMPUTED_PSUM"
    "map_option wk_data (p (i, j)) = (if i = 0 then None else late (psums A W j (i - 1)) 1 t)" if g: "(i, j) \<in> ?g" for i j
  proof -
    obtain r where r: "pending (cs (top_wire input (i, j))) = opt_list r" "\<forall>q. r = Some q \<longrightarrow> pk_type q = COMPUTED_PSUM"
      "map_option wk_data r = (if i = 0 then None else late (psums A W j (i - 1)) 1 t)"
      using flow_atD(10) [OF fl2 [OF g]] by blast
    then have "p (i, j) = r" by (simp add: p_def split: option.split list.split) (cases r; simp)
    with r show "pending (cs (top_wire input (i, j))) = opt_list (p (i, j))" "\<forall>q. p (i, j) = Some q \<longrightarrow> pk_type q = COMPUTED_PSUM"
      "map_option wk_data (p (i, j)) = (if i = 0 then None else late (psums A W j (i - 1)) 1 t)" by simp_all
  qed
  have "mesh_in input (wm_rows w) (wm_cols w) ?f (\<lambda>_. None) p (seen A t)"
    unfolding mesh_in_def
  proof (intro ballI conjI)
    fix x assume x: "x \<in> ?g"
    obtain i j where ij: "x = (i, j)" by (cases x)
    note w = feed_wires [OF assms(1) x] and f = flow_atD [OF fl [OF x, unfolded ij]] and px = p [OF x [unfolded ij]]
    show "arrives (pending (?f (top_wire input x))) None (p x)"
      using w(1) px(1,2) ij by (cases "p x") (simp_all add: arrives_def)
    show "pending (?f (left_wire input (wm_cols w) x)) = opt_list (seen A t x)"
      using w(2,3) f(8) ij by (cases "j = 0") (simp_all add: seen_def wire_put_simps(2))
    show "\<forall>q. seen A t x = Some q \<longrightarrow> pk_type q = IACTIVATION"
    proof (intro allI impI)
      fix q assume "seen A t x = Some q"
      then obtain s where "A i s = Some q" using late_SomeD [of "A i"] by (auto simp: seen_def ij split: if_splits)
      then show "pk_type q = IACTIVATION" using assms(3) by blast
    qed
    show "cn_pending_data (?f (left_wire input (wm_cols w) x)) \<longrightarrow> cn_data (?f (left_wire input (wm_cols w) x)) \<noteq> []"
    proof (cases "j = 0")
      case True
      then have "snd x = 0" using ij by simp
      show ?thesis unfolding w(3) [OF \<open>snd x = 0\<close>] by (rule wire_put_simps(3)) (use f(9) ij in simp)
    qed (use w(2) f(9) ij in simp)
  qed
  with p(3) show ?thesis by (intro that)
qed

end
