(* ===== verification/WSLoad.thy ===== *)
theory WSLoad
  imports WSFlow
begin

text \<open>
  The preload of the weight-stationary mesh: the rows of a weight matrix go down the columns, every element
  keeps the last one it is given, and the weights in use stay as they are.
\<close>

section \<open>One element with weights\<close>

text \<open>What a weight, or none, does to the registers and the counters.\<close>

definition others :: "multiplier \<Rightarrow> multiplier \<Rightarrow> bool" where
  "others m n \<longleftrightarrow> active n = active m \<and> ms_flip_counter n = ms_flip_counter m \<and>
     ms_act_limit_queue n = ms_act_limit_queue m \<and> ms_weight_limit n = ms_weight_limit m"

lemma compute_weight:
  assumes "ms_compute freed w None None m = (out, wo, m')"
  shows "out = None" "others m m'"
    "w = None \<Longrightarrow> ms_weight_count m < ms_weight_limit m \<Longrightarrow> wo = None \<and> ms_weight_count m' = ms_weight_count m \<and>
       ms_preload_finished m' = ms_preload_finished m \<and> spare m' = spare m"
    "w = Some q \<Longrightarrow> ms_weight_count m + 1 < ms_weight_limit m \<Longrightarrow> wo = Some q \<and> ms_weight_count m' = ms_weight_count m + 1 \<and>
       ms_preload_finished m' = ms_preload_finished m"
    "w = Some q \<Longrightarrow> ms_weight_limit m \<le> ms_weight_count m + 1 \<Longrightarrow> wo = None \<and> ms_weight_count m' = 0 \<and>
       ms_preload_finished m' \<and> spare m' = freed q"
proof -
  obtain l m1 where c: "ms_count w m = (l, m1)" by fastforce
  let ?m2 = "ms_load (map_option (if l then freed else wk_data) w) m1"
  have r: "out = None" "wo = (if l then None else w)" "m' = ms_tile_done ?m2"
    using assms c by (auto simp: ms_compute_def ms_mac_def)
  have t: "active (ms_tile_done n) = active n" "spare (ms_tile_done n) = spare n" "ms_flip_counter (ms_tile_done n) = ms_flip_counter n"
    "ms_act_limit_queue (ms_tile_done n) = ms_act_limit_queue n" "ms_weight_limit (ms_tile_done n) = ms_weight_limit n"
    "ms_weight_count (ms_tile_done n) = ms_weight_count n" "ms_preload_finished (ms_tile_done n) = ms_preload_finished n" for n
    by (simp_all add: ms_tile_done_def active_def spare_def)
  have ld: "active (ms_load d n) = active n" "spare (ms_load d n) = (case d of None \<Rightarrow> spare n | Some x \<Rightarrow> x)"
    "ms_flip_counter (ms_load d n) = ms_flip_counter n"
    "ms_act_limit_queue (ms_load d n) = ms_act_limit_queue n" "ms_weight_limit (ms_load d n) = ms_weight_limit n"
    "ms_weight_count (ms_load d n) = ms_weight_count n" "ms_preload_finished (ms_load d n) = ms_preload_finished n" for d n
    by (simp_all add: ms_load_def active_def spare_def split: option.split)
  have cn: "active m1 = active m" "spare m1 = spare m" "ms_flip_counter m1 = ms_flip_counter m"
    "ms_act_limit_queue m1 = ms_act_limit_queue m" "ms_weight_limit m1 = ms_weight_limit m"
    "l \<longleftrightarrow> ms_weight_limit m \<le> (if w = None then ms_weight_count m else ms_weight_count m + 1)"
    "ms_weight_count m1 = (if l then 0 else if w = None then ms_weight_count m else ms_weight_count m + 1)"
    "ms_preload_finished m1 = (l \<or> ms_preload_finished m)"
    using c by (auto simp: ms_count_def active_def spare_def Let_def split: if_splits)
  show "out = None" by (rule r)
  show "others m m'" by (simp add: others_def r t ld cn)
  show "wo = None \<and> ms_weight_count m' = ms_weight_count m \<and>
       ms_preload_finished m' = ms_preload_finished m \<and> spare m' = spare m"
    if "w = None" "ms_weight_count m < ms_weight_limit m"
  proof -
    have "\<not> l" using cn(6) that by auto
    then show ?thesis using cn(7,8) that(1) by (simp add: r t ld cn(2))
  qed
  show "wo = Some q \<and> ms_weight_count m' = ms_weight_count m + 1 \<and> ms_preload_finished m' = ms_preload_finished m"
    if "w = Some q" "ms_weight_count m + 1 < ms_weight_limit m"
  proof -
    have "\<not> l" using cn(6) that by auto
    then show ?thesis using cn(7,8) that(1) by (simp add: r t ld)
  qed
  show "wo = None \<and> ms_weight_count m' = 0 \<and> ms_preload_finished m' \<and> spare m' = freed q"
    if "w = Some q" "ms_weight_limit m \<le> ms_weight_count m + 1"
  proof -
    have l using cn(6) that by auto
    then show ?thesis using cn(7,8) that(1) by (simp add: r t ld)
  qed
qed

text \<open>The weights that reach an element: one fewer in every row.\<close>

definition weights_at :: "(nat \<Rightarrow> nat \<Rightarrow> package) \<Rightarrow> nat \<Rightarrow> nat \<Rightarrow> nat \<Rightarrow> stream" where
  "weights_at V rows i j t = (if i + j \<le> t \<and> t - (i + j) < rows - i then Some (V (t - (i + j)) j) else None)"

lemma weights_top: "late (row_stream V rows j) j t = weights_at V rows 0 j t"
  by (simp add: late_def row_stream_def weights_at_def)

definition load_at ::
    "(nat \<Rightarrow> wire) \<Rightarrow> (nat \<Rightarrow> nat \<Rightarrow> package) \<Rightarrow> (package \<Rightarrow> u32) \<Rightarrow> (nat \<times> nat \<Rightarrow> u32) \<Rightarrow> nat \<Rightarrow> nat \<Rightarrow> u32 \<Rightarrow> nat \<Rightarrow> wires \<Rightarrow>
     nat \<times> nat \<Rightarrow> multiplier \<Rightarrow> bool" where
  "load_at input V freed U rows cols c0 t cs = (\<lambda>(i, j) m.
     ms_flip_counter m < 0 \<and> active m = U (i, j) \<and> ms_local_cycle m = c0 + of_nat t \<and> ms_act_limit_queue m = [] \<and>
     ms_weight_limit m = of_nat (rows - i) \<and>
     ms_weight_count m = of_nat (if t - (i + j) < rows - i then t - (i + j) else 0) \<and>
     (j + rows \<le> t \<longrightarrow> ms_preload_finished m \<and> spare m = freed (V (rows - 1 - i) j)) \<and>
     sf_buffer (ms_top_weight_fifo m) = past (row_stream V rows j) t (if i = 0 then j else 0) \<and>
     sf_buffer (ms_left_fifo m) = replicate (if j = 0 then i else 0) None \<and>
     (i = rows - 1 \<longrightarrow> sf_buffer (ms_accbuffer_fifo m) = replicate (cols - 1 - j) None) \<and>
     pending (cs (left_wire input cols (i, j))) = [] \<and>
     (cn_pending_data (cs (left_wire input cols (i, j))) \<longrightarrow> cn_data (cs (left_wire input cols (i, j))) \<noteq> []) \<and>
     pending (cs (top_wire input (i, j))) = (if i = 0 then [] else opt_list (weights_at V rows i j t)))"

lemma load_atD:
  assumes "load_at input V freed U rows cols c0 t cs (i, j) m"
  shows "ms_flip_counter m < 0" "active m = U (i, j)" "ms_local_cycle m = c0 + of_nat t" "ms_act_limit_queue m = []"
    "ms_weight_limit m = of_nat (rows - i)"
    "ms_weight_count m = of_nat (if t - (i + j) < rows - i then t - (i + j) else 0)"
    "j + rows \<le> t \<Longrightarrow> ms_preload_finished m" "j + rows \<le> t \<Longrightarrow> spare m = freed (V (rows - 1 - i) j)"
    "sf_buffer (ms_top_weight_fifo m) = past (row_stream V rows j) t (if i = 0 then j else 0)"
    "sf_buffer (ms_left_fifo m) = replicate (if j = 0 then i else 0) None"
    "i = rows - 1 \<Longrightarrow> sf_buffer (ms_accbuffer_fifo m) = replicate (cols - 1 - j) None"
    "pending (cs (left_wire input cols (i, j))) = []"
    "cn_pending_data (cs (left_wire input cols (i, j))) \<longrightarrow> cn_data (cs (left_wire input cols (i, j))) \<noteq> []"
    "pending (cs (top_wire input (i, j))) = (if i = 0 then [] else opt_list (weights_at V rows i j t))"
  using assms unfolding load_at_def prod.case by blast+

lemma u32_less: "a < 2 ^ 32 \<Longrightarrow> b < 2 ^ 32 \<Longrightarrow> (of_nat a :: u32) < of_nat b \<longleftrightarrow> a < b"
  by (simp add: word_less_nat_alt unat_of_nat take_bit_nat_eq_self)

text \<open>The counting of an element: what it is given in cycle \<open>t\<close> and what it counts after it.\<close>

lemma weight_count_step:
  assumes c: "ms_compute freed (weights_at V rows i j t) None None m = (out, wo, m')" and i: "i < rows" "rows < 2 ^ 32"
    and l: "ms_weight_limit m = of_nat (rows - i)"
    and n: "ms_weight_count m = of_nat (if t - (i + j) < rows - i then t - (i + j) else 0)"
    and d: "j + rows \<le> t \<Longrightarrow> ms_preload_finished m" "j + rows \<le> t \<Longrightarrow> spare m = freed (V (rows - 1 - i) j)"
  shows "ms_weight_count m' = of_nat (if Suc t - (i + j) < rows - i then Suc t - (i + j) else 0)"
    "j + rows \<le> Suc t \<Longrightarrow> ms_preload_finished m'" "j + rows \<le> Suc t \<Longrightarrow> spare m' = freed (V (rows - 1 - i) j)"
    "wo = weights_at V rows (Suc i) j (Suc t)"
proof -
  note cw = compute_weight [OF c]
  let ?k = "t - (i + j)"
  have u: "(of_nat a :: u32) < of_nat (rows - i) \<longleftrightarrow> a < rows - i" if "a \<le> rows - i" for a
    by (rule u32_less) (use that i in simp_all)
  have all: "ms_weight_count m' = of_nat (if Suc t - (i + j) < rows - i then Suc t - (i + j) else 0) \<and>
    (j + rows \<le> Suc t \<longrightarrow> ms_preload_finished m' \<and> spare m' = freed (V (rows - 1 - i) j)) \<and>
    wo = weights_at V rows (Suc i) j (Suc t)"
  proof (cases "weights_at V rows i j t")
    case None
    then have w: "t < i + j \<or> rows - i \<le> ?k" by (auto simp: weights_at_def split: if_splits)
    have "ms_weight_count m < ms_weight_limit m" using n l u [of "if ?k < rows - i then ?k else 0"] i by auto
    note e = cw(3) [OF None this]
    have "(if Suc t - (i + j) < rows - i then Suc t - (i + j) else 0) = (if ?k < rows - i then ?k else 0)"
      using w i(1) by auto
    moreover have "weights_at V rows (Suc i) j (Suc t) = None" using w by (auto simp: weights_at_def)
    moreover have "j + rows \<le> Suc t \<Longrightarrow> j + rows \<le> t" using w i(1) by linarith
    ultimately show ?thesis using e d n by simp
  next
    case (Some q)
    then have w: "i + j \<le> t" "?k < rows - i" "q = V ?k j" by (auto simp: weights_at_def split: if_splits)
    have cnt: "ms_weight_count m + 1 = of_nat (Suc ?k)" using n w(2) by (simp add: add.commute)
    have lt: "ms_weight_count m + 1 < ms_weight_limit m \<longleftrightarrow> Suc ?k < rows - i" unfolding cnt l using u [of "Suc ?k"] w(2) by simp
    have S: "Suc t - (i + j) = Suc ?k" using w(1) by simp
    show ?thesis
    proof (cases "Suc ?k < rows - i")
      case True
      then have "\<not> j + rows \<le> Suc t" using w(1) by linarith
      moreover have "weights_at V rows (Suc i) j (Suc t) = Some q" using True w by (simp add: weights_at_def)
      ultimately show ?thesis using cw(4) [OF Some] lt cnt True S by simp
    next
      case False
      then have "?k = rows - 1 - i" using w(2) by simp
      moreover have "weights_at V rows (Suc i) j (Suc t) = None" using False w by (simp add: weights_at_def)
      ultimately show ?thesis using cw(5) [OF Some] lt False S w(3) by (simp add: not_less)
    qed
  qed
  show "ms_weight_count m' = of_nat (if Suc t - (i + j) < rows - i then Suc t - (i + j) else 0)"
    "wo = weights_at V rows (Suc i) j (Suc t)" using all by blast+
  show "j + rows \<le> Suc t \<Longrightarrow> ms_preload_finished m'" "j + rows \<le> Suc t \<Longrightarrow> spare m' = freed (V (rows - 1 - i) j)"
    using all by blast+
qed


text \<open>One element in one cycle of the preload.\<close>

definition given :: "(nat \<Rightarrow> nat \<Rightarrow> package) \<Rightarrow> nat \<Rightarrow> nat \<Rightarrow> nat \<times> nat \<Rightarrow> package option" where
  "given V rows t = (\<lambda>(i, j). if i = 0 then row_stream V rows j t else weights_at V rows i j t)"

lemma load_elem:
  assumes ld: "load_at input V freed U rows cols c0 t cs (i, j) m" and pe: "pe_ok input rows cols (i, j) m"
    and i: "i < rows" "rows < 2 ^ 32" and st: "ms_step freed (given V rows t (i, j)) None None m = (m', u)"
  shows "ms_flip_counter m' < 0" "active m' = U (i, j)" "ms_local_cycle m' = c0 + of_nat (Suc t)"
    "ms_act_limit_queue m' = []" "ms_weight_limit m' = of_nat (rows - i)"
    "ms_weight_count m' = of_nat (if Suc t - (i + j) < rows - i then Suc t - (i + j) else 0)"
    "j + rows \<le> Suc t \<Longrightarrow> ms_preload_finished m'" "j + rows \<le> Suc t \<Longrightarrow> spare m' = freed (V (rows - 1 - i) j)"
    "sf_buffer (ms_top_weight_fifo m') = past (row_stream V rows j) (Suc t) (if i = 0 then j else 0)"
    "sf_buffer (ms_left_fifo m') = replicate (if j = 0 then i else 0) None"
    "i = rows - 1 \<Longrightarrow> sf_buffer (ms_accbuffer_fifo m') = replicate (cols - 1 - j) None"
    "u = \<lparr>ou_psum = None, ou_weight = weights_at V rows (Suc i) j (Suc t), ou_act = None, ou_acc = None\<rparr>"
proof -
  note f = load_atD [OF ld]
  have id: "ms_row_num m = i" "ms_col_num m = j" "ms_rows m = rows" "ms_cols m = cols"
    "i + 1 < rows \<longrightarrow> (\<forall>x\<in>set (sf_buffer (ms_accbuffer_fifo m)). x = None)" using pe by (simp_all add: pe_ok_def)
  have m1: "ms_limits (ms_flip m) = m" using f(1,4) by (simp add: ms_flip_def ms_limits_def)
  have line: "last (given V rows t (i, j) # sf_buffer (ms_top_weight_fifo m)) = weights_at V rows i j t \<and>
      butlast (given V rows t (i, j) # sf_buffer (ms_top_weight_fifo m)) = past (row_stream V rows j) (Suc t) (if i = 0 then j else 0)"
  proof (cases "i = 0")
    case True
    then have "given V rows t (i, j) # sf_buffer (ms_top_weight_fifo m) = row_stream V rows j t # past (row_stream V rows j) t j"
      using f(9) by (simp add: given_def)
    then show ?thesis using True by (simp only: past_out weights_top) simp
  next
    case False
    then have "given V rows t (i, j) # sf_buffer (ms_top_weight_fifo m) = [weights_at V rows i j t]" using f(9) by (simp add: given_def)
    then show ?thesis using False by simp
  qed
  obtain fw where d1: "delay (given V rows t (i, j)) (ms_top_weight_fifo m) = (weights_at V rows i j t, fw)"
    and fw: "sf_buffer fw = past (row_stream V rows j) (Suc t) (if i = 0 then j else 0)" using line by (simp add: delay_def)
  have nl: "last (None # sf_buffer (ms_left_fifo m)) = None"
    "butlast (None # sf_buffer (ms_left_fifo m)) = sf_buffer (ms_left_fifo m)"
    using None_line [of "sf_buffer (ms_left_fifo m)"] f(10) by simp_all
  obtain fl where d2: "delay None (ms_left_fifo m) = (None, fl)" and fl: "sf_buffer fl = sf_buffer (ms_left_fifo m)"
    using nl by (simp add: delay_def)
  have "\<forall>x\<in>set (sf_buffer (ms_accbuffer_fifo m)). x = None" using f(11) id(5) i(1) by (cases "i = rows - 1") auto
  note na = None_line [OF this]
  obtain fa where o: "delay None (ms_accbuffer_fifo m) = (None, fa)" and fa: "sf_buffer fa = sf_buffer (ms_accbuffer_fifo m)"
    using na by (simp add: delay_def)
  let ?n = "m\<lparr>ms_top_weight_fifo := fw, ms_left_fifo := fl\<rparr>"
  obtain out wo m2 where c: "ms_compute freed (weights_at V rows i j t) None None ?n = (out, wo, m2)" by (metis prod_cases3)
  have out: "out = None" "others ?n m2" using compute_weight(1,2) [OF c] by simp_all
  have m': "m' = m2\<lparr>ms_accbuffer_fifo := fa, ms_local_cycle := ms_local_cycle m + 1\<rparr>"
    and u: "u = \<lparr>ou_psum = None, ou_weight = (if i = rows - 1 then None else wo), ou_act = None, ou_acc = None\<rparr>"
    using st d1 d2 c o out(1) id(1-4) by (simp_all add: ms_step_def Let_def m1)
  have fr: "same_frame ?n m2" by (rule compute_frame [OF c])
  have sp: "spare ?n = spare m" by (simp add: spare_def)
  have n: "ms_weight_limit ?n = of_nat (rows - i)" "ms_weight_count ?n = of_nat (if t - (i + j) < rows - i then t - (i + j) else 0)"
    "j + rows \<le> t \<Longrightarrow> ms_preload_finished ?n" "j + rows \<le> t \<Longrightarrow> spare ?n = freed (V (rows - 1 - i) j)"
    using f(5-8) sp by simp_all
  note w = weight_count_step [OF c i n]
  have v: "active m' = active m2" "spare m' = spare m2" "active ?n = active m" by (simp_all add: m' active_def spare_def)
  show "ms_flip_counter m' < 0" "active m' = U (i, j)" "ms_act_limit_queue m' = []" "ms_weight_limit m' = of_nat (rows - i)"
    using out(2) f(1,2,4,5) unfolding v others_def by (simp_all add: m' v)
  show "ms_local_cycle m' = c0 + of_nat (Suc t)" using f(3) by (simp add: m')
  show "ms_weight_count m' = of_nat (if Suc t - (i + j) < rows - i then Suc t - (i + j) else 0)"
    "j + rows \<le> Suc t \<Longrightarrow> ms_preload_finished m'" "j + rows \<le> Suc t \<Longrightarrow> spare m' = freed (V (rows - 1 - i) j)"
    using w(1-3) unfolding v by (simp_all add: m')
  show "sf_buffer (ms_top_weight_fifo m') = past (row_stream V rows j) (Suc t) (if i = 0 then j else 0)"
    "sf_buffer (ms_left_fifo m') = replicate (if j = 0 then i else 0) None"
    using fr fw fl f(10) by (simp_all add: m' same_frame_def)
  show "i = rows - 1 \<Longrightarrow> sf_buffer (ms_accbuffer_fifo m') = replicate (cols - 1 - j) None" using fa f(11) by (simp add: m')
  show "u = \<lparr>ou_psum = None, ou_weight = weights_at V rows (Suc i) j (Suc t), ou_act = None, ou_acc = None\<rparr>"
    using w(4) i(1) by (auto simp: u weights_at_def)
qed


lemma load_atI:
  assumes "ms_flip_counter m < 0" "active m = U (i, j)" "ms_local_cycle m = c0 + of_nat t" "ms_act_limit_queue m = []"
    "ms_weight_limit m = of_nat (rows - i)"
    "ms_weight_count m = of_nat (if t - (i + j) < rows - i then t - (i + j) else 0)"
    "j + rows \<le> t \<Longrightarrow> ms_preload_finished m" "j + rows \<le> t \<Longrightarrow> spare m = freed (V (rows - 1 - i) j)"
    "sf_buffer (ms_top_weight_fifo m) = past (row_stream V rows j) t (if i = 0 then j else 0)"
    "sf_buffer (ms_left_fifo m) = replicate (if j = 0 then i else 0) None"
    "i = rows - 1 \<Longrightarrow> sf_buffer (ms_accbuffer_fifo m) = replicate (cols - 1 - j) None"
    "pending (cs (left_wire input cols (i, j))) = []"
    "cn_pending_data (cs (left_wire input cols (i, j))) \<longrightarrow> cn_data (cs (left_wire input cols (i, j))) \<noteq> []"
    "pending (cs (top_wire input (i, j))) = (if i = 0 then [] else opt_list (weights_at V rows i j t))"
  shows "load_at input V freed U rows cols c0 t cs (i, j) m"
  unfolding load_at_def prod.case using assms by blast

section \<open>The preload of the mesh\<close>

definition load_ok ::
    "(nat \<Rightarrow> wire) \<Rightarrow> (nat \<Rightarrow> nat \<Rightarrow> package) \<Rightarrow> (package \<Rightarrow> u32) \<Rightarrow> (nat \<times> nat \<Rightarrow> u32) \<Rightarrow> u32 \<Rightarrow> nat \<Rightarrow> ws_mesh \<Rightarrow> wires \<Rightarrow> bool" where
  "load_ok input V freed U c0 t w cs \<longleftrightarrow> mesh_ok input (wm_rows w) (wm_cols w) (wm_pes w) \<and>
     (\<forall>x\<in>grid (wm_rows w) (wm_cols w). load_at input V freed U (wm_rows w) (wm_cols w) c0 t cs x (wm_pes w x))"

lemma load_in:
  assumes inp: "inputs_ok input (wm_cols w + wm_rows w)" and ld: "load_ok input V freed U c0 t w cs"
    and ty: "\<forall>s j. pk_type (V s j) = WEIGHT"
  shows "mesh_in input (wm_rows w) (wm_cols w) (feed_top input (wm_cols w) (\<lambda>j. row_stream V (wm_rows w) j t) cs)
    (given V (wm_rows w) t) (\<lambda>_. None) (\<lambda>_. None)"
  unfolding mesh_in_def
proof (intro ballI conjI)
  let ?f = "feed_top input (wm_cols w) (\<lambda>j. row_stream V (wm_rows w) j t) cs"
  fix x assume x: "x \<in> grid (wm_rows w) (wm_cols w)"
  obtain i j where ij: "x = (i, j)" by (cases x)
  have "load_at input V freed U (wm_rows w) (wm_cols w) c0 t cs (i, j) (wm_pes w (i, j))"
    using ld x ij by (simp add: load_ok_def)
  note f = load_atD [OF this]
  note w = feed_wires(4-6) [OF inp x, where cs = cs and b = "\<lambda>j. row_stream V (wm_rows w) j t"]
  have "pending (?f (top_wire input x)) = opt_list (given V (wm_rows w) t x)"
    using w(2,3) f(14) ij by (cases "i = 0") (simp_all add: given_def wire_put_simps(2))
  moreover have "pk_type q = WEIGHT" if "given V (wm_rows w) t x = Some q" for q
    using that ty by (auto simp: given_def row_stream_def weights_at_def ij split: if_splits)
  ultimately show "arrives (pending (?f (top_wire input x))) (given V (wm_rows w) t x) None"
    by (cases "given V (wm_rows w) t x") (simp_all add: arrives_def)
  show "pending (?f (left_wire input (wm_cols w) x)) = opt_list None" using w(1) f(12) ij by simp
  show "cn_pending_data (?f (left_wire input (wm_cols w) x)) \<longrightarrow> cn_data (?f (left_wire input (wm_cols w) x)) \<noteq> []"
    using w(1) f(13) ij by simp
qed simp

lemma load_step:
  assumes inp: "inputs_ok input (wm_cols w + wm_rows w)" and ld: "load_ok input V freed U c0 t w cs"
    and ty: "\<forall>s j. pk_type (V s j) = WEIGHT" and np: "wm_cols w \<le> length ports" and b: "wm_rows w < 2 ^ 32"
  shows "\<exists>w' cs'.
    wm_cycle freed (w, feed_top input (wm_cols w) (\<lambda>j. row_stream V (wm_rows w) j t) cs, ports) = Some (w', cs', ports) \<and>
    wm_rows w' = wm_rows w \<and> wm_cols w' = wm_cols w \<and> load_ok input V freed U c0 (Suc t) w' cs'"
proof -
  let ?R = "wm_rows w" and ?C = "wm_cols w"
  let ?g = "grid ?R ?C" and ?f = "feed_top input ?C (\<lambda>j. row_stream V ?R j t) cs"
  note mi = load_in [OF inp ld ty]
  have ok: "mesh_ok input ?R ?C (wm_pes w)" using ld by (simp add: load_ok_def)
  define nxt where "nxt x = fst (ms_step freed (given V ?R t x) None None (wm_pes w x))" for x
  define ou where "ou x = snd (ms_step freed (given V ?R t x) None None (wm_pes w x))" for x
  have st: "ms_step freed (given V ?R t x) None None (wm_pes w x) = (nxt x, ou x)" for x by (simp add: nxt_def ou_def)
  obtain w' cs' ports' where c: "wm_cycle freed (w, ?f, ports) = Some (w', cs', ports')" "wm_rows w' = ?R" "wm_cols w' = ?C"
    "mesh_ok input ?R ?C (wm_pes w')" and h: "half_done input ?R ?C nxt ou (wm_pes w, ?f, ports) ?g (wm_pes w', cs', ports')"
    using wm_cycle_step [OF inp ok mi np st] by blast
  note hd = half_doneD [OF h]
  have el: "load_at input V freed U ?R ?C c0 t cs (i, j) (wm_pes w (i, j))" "pe_ok input ?R ?C (i, j) (wm_pes w (i, j))" "i < ?R"
    if "(i, j) \<in> ?g" for i j using ld ok that by (auto simp: load_ok_def mesh_ok_def grid_def)
  note e = load_elem [OF el b st]
  have ouD: "ou (i, j) = \<lparr>ou_psum = None, ou_weight = weights_at V ?R (Suc i) j (Suc t), ou_act = None, ou_acc = None\<rparr>"
    if "(i, j) \<in> ?g" for i j using e(12) [OF that that that] .
  have "load_at input V freed U ?R ?C c0 (Suc t) cs' (i, j) (wm_pes w' (i, j))" if g: "(i, j) \<in> ?g" for i j
  proof -
    have m: "wm_pes w' (i, j) = nxt (i, j)" using hd(1) [of "(i, j)"] g by simp
    show ?thesis
      unfolding m
    proof (rule load_atI)
      have "left_of (i, j) = Some y \<Longrightarrow> ou_act (ou y) = None" for y
        using ouD g by (cases y) (auto simp: left_of_def grid_def split: if_splits)
      then show "pending (cs' (left_wire input ?C (i, j))) = []"
        using hd(4) [OF g g] by (simp add: sent_def split: option.splits)
      show "pending (cs' (top_wire input (i, j))) = (if i = 0 then [] else opt_list (weights_at V ?R i j (Suc t)))"
      proof (cases i)
        case 0
        then show ?thesis using hd(6) [OF g g] by (simp add: above_def sent_def)
      next
        case (Suc k)
        then have "(k, j) \<in> ?g" using g by (simp add: grid_def)
        then show ?thesis using hd(6) [OF g g] ouD [of k j] Suc by (simp add: above_def sent_def down_def)
      qed
    qed (use e(1-11) [OF g g g] hd(5) [OF g g] in blast)+
  qed
  then have "load_ok input V freed U c0 (Suc t) w' cs'" using c(2-4) by (auto simp: load_ok_def)
  moreover have "ports' = ports"
  proof (rule nth_equalityI)
    show "length ports' = length ports" by (rule hd(8))
    fix k assume "k < length ports'"
    then have k: "k < length ports" using hd(8) by simp
    show "ports' ! k = ports ! k" using hd(9) [OF k] ouD [of "?R - 1" k] by (auto split: if_splits)
  qed
  ultimately show ?thesis using c(1-3) by blast
qed

lemma load_run:
  assumes inp: "inputs_ok input (wm_cols w + wm_rows w)" and ld: "load_ok input V freed U c0 0 w cs"
    and ty: "\<forall>s j. pk_type (V s j) = WEIGHT" and np: "wm_cols w \<le> length ports" and b: "wm_rows w < 2 ^ 32"
    and rd: "\<forall>t ps. length (rd t ps) = length ps"
  shows "\<exists>w' cs' ports'. mesh_run freed input rd (row_stream V (wm_rows w)) (\<lambda>_ _. None) t (w, cs, ports) = Some (w', cs', ports') \<and>
    wm_rows w' = wm_rows w \<and> wm_cols w' = wm_cols w \<and> load_ok input V freed U c0 t w' cs' \<and> length ports' = length ports"
proof (induction t)
  case 0
  then show ?case using ld by simp
next
  case (Suc t)
  then obtain w1 cs1 ports1 where
    r: "mesh_run freed input rd (row_stream V (wm_rows w)) (\<lambda>_ _. None) t (w, cs, ports) = Some (w1, cs1, ports1)"
    "wm_rows w1 = wm_rows w" "wm_cols w1 = wm_cols w" "load_ok input V freed U c0 t w1 cs1" "length ports1 = length ports" by blast
  have pre: "inputs_ok input (wm_cols w1 + wm_rows w1)" "wm_cols w1 \<le> length (rd t ports1)" "wm_rows w1 < 2 ^ 32"
    using inp np b r rd by simp_all
  from load_step [OF pre(1) r(4) ty pre(2,3)] show ?case using r rd by (auto simp: feed_left_def)
qed

text \<open>From an idle mesh to an idle mesh with the weights in the spare registers.\<close>

lemma preload_starts:
  assumes "idle input c0 w cs" "holds U False w"
  shows "load_ok input V freed U c0 0 (wm_preload w) cs"
proof -
  have "pe_ok input (wm_rows w) (wm_cols w) (i, j) (ms_preload (wm_pes w (i, j))) \<and>
      load_at input V freed U (wm_rows w) (wm_cols w) c0 0 cs (i, j) (ms_preload (wm_pes w (i, j)))"
    if "i < wm_rows w" "j < wm_cols w" for i j
  proof
    let ?m = "wm_pes w (i, j)"
    have id: "idle_pe input (wm_rows w) (wm_cols w) c0 cs (i, j) ?m" using assms(1) that by (simp add: idle_def)
    have act: "active ?m = U (i, j)" using assms(2) that by (simp add: holds_def)
    have pe: "pe_ok input (wm_rows w) (wm_cols w) (i, j) ?m" using id by (simp add: idle_pe_def)
    then show "pe_ok input (wm_rows w) (wm_cols w) (i, j) (ms_preload ?m)" by (simp add: pe_ok_def ms_preload_def ms_lines_def)
    show "load_at input V freed U (wm_rows w) (wm_cols w) c0 0 cs (i, j) (ms_preload ?m)"
    proof (rule load_atI)
      have "active (ms_preload ?m) = active ?m" by (simp add: ms_preload_def active_def)
      then show "active (ms_preload ?m) = U (i, j)" using act by simp
      show "sf_buffer (ms_top_weight_fifo (ms_preload ?m)) = past (row_stream V (wm_rows w) j) 0 (if i = 0 then j else 0)"
        using id by (simp add: idle_pe_def ms_preload_def)
    qed (use id pe that in \<open>simp_all add: idle_pe_def ms_preload_def pe_ok_def weights_at_def\<close>)
  qed
  then show ?thesis by (auto simp: load_ok_def mesh_ok_def grid_def wm_preload_def map_pes_def)
qed


lemma all_preloaded:
  "wm_weights_preloaded w \<longleftrightarrow> (\<forall>x\<in>grid (wm_rows w) (wm_cols w). ms_preload_finished (wm_pes w x))"
proof -
  have "foldl (\<lambda>r x. r \<and> P x) b xs \<longleftrightarrow> b \<and> (\<forall>x\<in>set xs. P x)" for P b and xs :: "(nat \<times> nat) list"
    by (induction xs arbitrary: b) auto
  then show ?thesis by (simp add: wm_weights_preloaded_def set_pe_order)
qed

lemma preload_ends:
  assumes "load_ok input V freed U c0 t w cs" "wm_rows w + wm_cols w \<le> Suc t"
  shows "idle input (c0 + of_nat t) w cs" "holds (\<lambda>(i, j). freed (V (wm_rows w - 1 - i) j)) True w" "holds U False w"
    "wm_weights_preloaded w"
proof -
  let ?R = "wm_rows w" and ?C = "wm_cols w"
  have el: "load_at input V freed U ?R ?C c0 t cs (i, j) (wm_pes w (i, j))" "pe_ok input ?R ?C (i, j) (wm_pes w (i, j))"
    "j + ?R \<le> t" if "i < ?R" "j < ?C" for i j
    using assms that by (auto simp: load_ok_def mesh_ok_def grid_def)
  note f = load_atD [OF el(1)]
  have "weights_at V ?R i j t = None" if "i < ?R" "j < ?C" for i j using el(3) [OF that] by (auto simp: weights_at_def)
  then show "idle input (c0 + of_nat t) w cs"
    unfolding idle_def idle_pe_def prod.case using el f past_over [of ?R _ t V] by (auto simp: add.commute)
  show "holds (\<lambda>(i, j). freed (V (?R - 1 - i) j)) True w" using f(8) el(3) by (simp add: holds_def)
  show "holds U False w" using f(2) by (simp add: holds_def)
  show "wm_weights_preloaded w" using f(7) el(3) by (auto simp: all_preloaded grid_def)
qed

text \<open>A run of the preload.\<close>

lemma preload_run:
  assumes "inputs_ok input (wm_cols w + wm_rows w)" "idle input c0 w cs" "holds U False w"
    "\<forall>s j. pk_type (V s j) = WEIGHT" "wm_cols w \<le> length ports" "wm_rows w < 2 ^ 32"
    "\<forall>t ps. length (rd t ps) = length ps" "wm_rows w + wm_cols w \<le> Suc t"
  shows "\<exists>w' cs' ports'.
    mesh_run freed input rd (row_stream V (wm_rows w)) (\<lambda>_ _. None) t (wm_preload w, cs, ports) = Some (w', cs', ports') \<and>
    idle input (c0 + of_nat t) w' cs' \<and> wm_weights_preloaded w' \<and>
    holds (\<lambda>(i, j). freed (V (wm_rows w - 1 - i) j)) True w' \<and> holds U False w' \<and>
    wm_rows w' = wm_rows w \<and> wm_cols w' = wm_cols w \<and> length ports' = length ports"
proof -
  have rc: "wm_rows (wm_preload w) = wm_rows w" "wm_cols (wm_preload w) = wm_cols w" by (simp_all add: wm_preload_def map_pes_def)
  have pre: "inputs_ok input (wm_cols (wm_preload w) + wm_rows (wm_preload w))" "wm_cols (wm_preload w) \<le> length ports"
    "wm_rows (wm_preload w) < 2 ^ 32" using assms by (simp_all add: rc)
  obtain w' cs' ports' where
    r: "mesh_run freed input rd (row_stream V (wm_rows w)) (\<lambda>_ _. None) t (wm_preload w, cs, ports) = Some (w', cs', ports')"
    "wm_rows w' = wm_rows w" "wm_cols w' = wm_cols w" "load_ok input V freed U c0 t w' cs'" "length ports' = length ports"
    using load_run [OF pre(1) preload_starts [OF assms(2,3)] assms(4) pre(2,3) assms(7), of freed t] unfolding rc by blast
  then have "wm_rows w' + wm_cols w' \<le> Suc t" using assms(8) by simp
  from preload_ends [OF r(4) this] show ?thesis using r by auto
qed

end
