(* ===== verification/WSProduct.thy ===== *)
theory WSProduct
  imports WSLoad
begin

text \<open>
  What the weight-stationary mesh computes: fed with the rows of a matrix, one per cycle, it puts out
  the rows of its product with the stationary weights, each column at its port, a fixed number of cycles
  later.
\<close>

section \<open>A cycle\<close>

text \<open>One element in one cycle of the flow.\<close>

lemma flow_elem:
  assumes fl: "flow_at input A W rows cols flip c0 tile t cs (i, j) m" and pe: "pe_ok input rows cols (i, j) m"
    and b: "i + j < 2 ^ 32"
    and p: "map_option wk_data p = (if i = 0 then None else late (psums A W j (i - 1)) 1 t)"
    and st: "ms_step freed None p (seen A t (i, j)) m = (m', u)"
  shows "sf_buffer (ms_top_weight_fifo m') = replicate (if i = 0 then j else 0) None" "armed flip (i + j) (Suc t) (W (i, j)) m'" "ms_local_cycle m' = c0 + of_nat (Suc t)"
    "ms_act_limit_queue m' = (if Suc t \<le> i + j then [limit_of c0 tile (i, j)] else [])"
    "i = rows - 1 \<Longrightarrow> i + j < Suc t \<Longrightarrow> ms_do_output m' = (of_nat j \<le> snd (snd tile) - 1)"
    "sf_buffer (ms_left_fifo m') = past (A i) (Suc t) (if j = 0 then i else 0)"
    "i = rows - 1 \<Longrightarrow> map (map_option wk_data) (sf_buffer (ms_accbuffer_fifo m')) =
        past (column A W rows (snd (snd tile)) j) (Suc t) (cols - 1 - j)"
    "ou_weight u = None" "ou_act u = (if j = cols - 1 then None else late (A i) (i + j) t)"
    "map_option wk_data (ou_psum u) = (if i = rows - 1 then None else psums A W j i t)"
    "\<And>q. ou_psum u = Some q \<Longrightarrow> pk_type q = COMPUTED_PSUM"
    "i = rows - 1 \<Longrightarrow> map_option wk_data (ou_acc u) = late (column A W rows (snd (snd tile)) j) (cols - 1 - j) t"
proof -
  note f = flow_atD [OF fl]
  note l = limits_at [OF fl pe b]
  have id: "ms_row_num m = i" "ms_col_num m = j" "ms_rows m = rows" "ms_cols m = cols" using pe by (simp_all add: pe_ok_def)
  have "quiet m" using f(1) by (simp add: quiet_def)
  note q = quiet_step [OF this st]
  have line: "last (seen A t (i, j) # sf_buffer (ms_left_fifo m)) = late (A i) (i + j) t"
    "butlast (seen A t (i, j) # sf_buffer (ms_left_fifo m)) = past (A i) (Suc t) (if j = 0 then i else 0)"
  proof -
    have "last (seen A t (i, j) # sf_buffer (ms_left_fifo m)) = late (A i) (i + j) t \<and>
      butlast (seen A t (i, j) # sf_buffer (ms_left_fifo m)) = past (A i) (Suc t) (if j = 0 then i else 0)"
    proof (cases "j = 0")
      case True
      then have "seen A t (i, j) # sf_buffer (ms_left_fifo m) = A i t # past (A i) t i" using f(6) by (simp add: seen_def)
      then show ?thesis using True by (simp only: past_out) simp
    next
      case False
      then have "seen A t (i, j) # sf_buffer (ms_left_fifo m) = [late (A i) (i + j) t]" using f(6) by (simp add: seen_def)
      then show ?thesis using False by simp
    qed
    then show "last (seen A t (i, j) # sf_buffer (ms_left_fifo m)) = late (A i) (i + j) t"
      "butlast (seen A t (i, j) # sf_buffer (ms_left_fifo m)) = past (A i) (Suc t) (if j = 0 then i else 0)" by blast+
  qed
  obtain out where out: "map_option wk_data out = mac (active (ms_flip m)) (late (A i) (i + j) t) p"
    "\<And>q. out = Some q \<Longrightarrow> pk_type q = COMPUTED_PSUM"
    "ou_psum u = (if i = rows - 1 then None else out)"
    "ou_acc u = last ((if i = rows - 1 \<and> ms_do_output m' then out else None) # sf_buffer (ms_accbuffer_fifo m))"
    "sf_buffer (ms_accbuffer_fifo m') =
       butlast ((if i = rows - 1 \<and> ms_do_output m' then out else None) # sf_buffer (ms_accbuffer_fifo m))"
    by (rule exE [OF q(9) [unfolded id line]]) (elim conjE, blast)
  have sum: "map_option wk_data out = psums A W j i t" using out(1) mac_psums [OF armed_flip(2) [OF f(2)] p] by simp
  show "sf_buffer (ms_top_weight_fifo m') = replicate (if i = 0 then j else 0) None" using q(1) f(1) by simp
  show "armed flip (i + j) (Suc t) (W (i, j)) m'" by (rule q(2) [OF f(2)])
  show "ms_local_cycle m' = c0 + of_nat (Suc t)" using q(5) f(3) by simp
  show "ms_act_limit_queue m' = (if Suc t \<le> i + j then [limit_of c0 tile (i, j)] else [])" using q(3) l(1) by simp
  show "sf_buffer (ms_left_fifo m') = past (A i) (Suc t) (if j = 0 then i else 0)" using q(6) line(2) by simp
  show "ou_weight u = None" by (rule q(7))
  show "ou_act u = (if j = cols - 1 then None else late (A i) (i + j) t)" using q(8) line(1) id by simp
  show "map_option wk_data (ou_psum u) = (if i = rows - 1 then None else psums A W j i t)" using out(3) sum by simp
  show "\<And>q. ou_psum u = Some q \<Longrightarrow> pk_type q = COMPUTED_PSUM" using out(2,3) by (auto split: if_splits)
  show d: "i = rows - 1 \<Longrightarrow> i + j < Suc t \<Longrightarrow> ms_do_output m' = (of_nat j \<le> snd (snd tile) - 1)"
    using q(4) l(2) by simp
  have col: "map_option wk_data (if i = rows - 1 \<and> ms_do_output m' then out else None) =
      column A W rows (snd (snd tile)) j t" if "i = rows - 1"
  proof (cases "t < i + j")
    case True
    then show ?thesis using sum psums_early [of t i j A W] that by (simp add: column_def)
  qed (use d sum that in \<open>simp add: column_def\<close>)
  let ?l = "(if i = rows - 1 \<and> ms_do_output m' then out else None) # sf_buffer (ms_accbuffer_fifo m)"
  have acc: "map (map_option wk_data) ?l =
      column A W rows (snd (snd tile)) j t # past (column A W rows (snd (snd tile)) j) t (cols - 1 - j)" if "i = rows - 1"
    using col [OF that] f(7) [OF that] by simp
  show "map_option wk_data (ou_acc u) = late (column A W rows (snd (snd tile)) j) (cols - 1 - j) t" if "i = rows - 1"
    unfolding out(4) last_map [of ?l, OF list.distinct(2), symmetric] acc [OF that] past_out ..
  show "map (map_option wk_data) (sf_buffer (ms_accbuffer_fifo m')) =
        past (column A W rows (snd (snd tile)) j) (Suc t) (cols - 1 - j)" if "i = rows - 1"
    unfolding out(5) map_butlast acc [OF that] past_out ..
qed

lemma flow_atI:
  assumes "sf_buffer (ms_top_weight_fifo m) = replicate (if i = 0 then j else 0) None" "armed flip (i + j) t (W (i, j)) m" "ms_local_cycle m = c0 + of_nat t"
    "ms_act_limit_queue m = (if t \<le> i + j then [limit_of c0 tile (i, j)] else [])"
    "i = rows - 1 \<Longrightarrow> i + j < t \<Longrightarrow> ms_do_output m = (of_nat j \<le> snd (snd tile) - 1)"
    "sf_buffer (ms_left_fifo m) = past (A i) t (if j = 0 then i else 0)"
    "i = rows - 1 \<Longrightarrow> map (map_option wk_data) (sf_buffer (ms_accbuffer_fifo m)) =
        past (column A W rows (snd (snd tile)) j) t (cols - 1 - j)"
    "pending (cs (left_wire input cols (i, j))) = (if j = 0 then [] else opt_list (late (A i) (i + j) t))"
    "cn_pending_data (cs (left_wire input cols (i, j))) \<longrightarrow> cn_data (cs (left_wire input cols (i, j))) \<noteq> []"
    "pending (cs (top_wire input (i, j))) = opt_list p" "\<And>q. p = Some q \<Longrightarrow> pk_type q = COMPUTED_PSUM"
    "map_option wk_data p = (if i = 0 then None else late (psums A W j (i - 1)) 1 t)"
  shows "flow_at input A W rows cols flip c0 tile t cs (i, j) m"
  unfolding flow_at_def prod.case using assms by blast

text \<open>The mesh in one cycle of the flow, and what the ports hold after it.\<close>

lemma flow_step:
  assumes inp: "inputs_ok input (wm_cols w + wm_rows w)" and fl: "flow_ok input A W flip c0 tile t w cs"
    and ty: "\<forall>i t q. A i t = Some q \<longrightarrow> pk_type q = IACTIVATION"
    and np: "wm_cols w \<le> length ports" and b: "wm_rows w + wm_cols w \<le> 2 ^ 32"
  obtains w' cs' ports' where
    "wm_cycle freed (w, feed_left input (wm_rows w) (wm_cols w) (\<lambda>i. A i t) cs, ports) = Some (w', cs', ports')"
    "wm_rows w' = wm_rows w" "wm_cols w' = wm_cols w" "flow_ok input A W flip c0 tile (Suc t) w' cs'" "length ports' = length ports"
    "\<And>j. j < wm_cols w \<Longrightarrow> 0 < wm_rows w \<Longrightarrow>
       \<exists>q :: package option. map_option wk_data q = late (column A W (wm_rows w) (snd (snd tile)) j) (wm_cols w - 1 - j) t \<and>
         ports' ! j = (case q of None \<Rightarrow> ports ! j | Some r \<Rightarrow> cn_send [ws_package.truncate r] (ports ! j))"
proof -
  let ?R = "wm_rows w" and ?C = "wm_cols w"
  let ?g = "grid ?R ?C" and ?f = "feed_left input ?R ?C (\<lambda>i. A i t) cs"
  obtain p where mi: "mesh_in input ?R ?C ?f (\<lambda>_. None) p (seen A t)"
    and p: "\<And>i j. (i, j) \<in> ?g \<Longrightarrow> map_option wk_data (p (i, j)) = (if i = 0 then None else late (psums A W j (i - 1)) 1 t)"
  proof (rule flow_in [OF inp fl ty])
  qed (rule that)
  have ok: "mesh_ok input ?R ?C (wm_pes w)" using fl by (simp add: flow_ok_def)
  define nxt where "nxt x = fst (ms_step freed None (p x) (seen A t x) (wm_pes w x))" for x
  define ou where "ou x = snd (ms_step freed None (p x) (seen A t x) (wm_pes w x))" for x
  have st: "ms_step freed None (p x) (seen A t x) (wm_pes w x) = (nxt x, ou x)" for x by (simp add: nxt_def ou_def)
  obtain w' cs' ports' where c: "wm_cycle freed (w, ?f, ports) = Some (w', cs', ports')" "wm_rows w' = ?R" "wm_cols w' = ?C"
    "mesh_ok input ?R ?C (wm_pes w')" and h: "half_done input ?R ?C nxt ou (wm_pes w, ?f, ports) ?g (wm_pes w', cs', ports')"
    using wm_cycle_step [OF inp ok mi np st] by blast
  note hd = half_doneD [OF h]
  have at: "flow_at input A W ?R ?C flip c0 tile t cs (i, j) (wm_pes w (i, j))" if "(i, j) \<in> ?g" for i j
    using fl that by (simp add: flow_ok_def)
  have pe: "pe_ok input ?R ?C (i, j) (wm_pes w (i, j))" if "(i, j) \<in> ?g" for i j
    using ok that by (simp add: mesh_ok_def)
  have b': "i + j < 2 ^ 32" if "(i, j) \<in> ?g" for i j using that b by (simp add: grid_def)
  have el: "flow_at input A W ?R ?C flip c0 tile t cs (i, j) (wm_pes w (i, j))" "pe_ok input ?R ?C (i, j) (wm_pes w (i, j))"
    "i + j < 2 ^ 32" "map_option wk_data (p (i, j)) = (if i = 0 then None else late (psums A W j (i - 1)) 1 t)"
    if "(i, j) \<in> ?g" for i j using at pe b' p that by blast+
  note e = flow_elem [OF el st]
  have "flow_at input A W ?R ?C flip c0 tile (Suc t) cs' (i, j) (wm_pes w' (i, j))" if g: "(i, j) \<in> ?g" for i j
  proof -
    have m: "wm_pes w' (i, j) = nxt (i, j)" using hd(1) [of "(i, j)"] g by simp
    show ?thesis
      unfolding m
    proof (rule flow_atI)
      show "pending (cs' (left_wire input ?C (i, j))) = (if j = 0 then [] else opt_list (late (A i) (i + j) (Suc t)))"
      proof (cases j)
        case 0
        then show ?thesis using hd(4) [OF g g] by (simp add: left_of_def sent_def)
      next
        case (Suc k)
        then have gk: "(i, k) \<in> ?g" and k: "k \<noteq> ?C - 1" using g by (auto simp: grid_def)
        then have "pending (cs' (left_wire input ?C (i, j))) = opt_list (ou_act (ou (i, k)))"
          using hd(4) [OF g g] Suc by (simp add: left_of_def sent_def)
        then show ?thesis using e(9) [OF gk gk gk gk] k Suc by simp
      qed
      let ?p = "if i = 0 then None else ou_psum (ou (i - 1, j))"
      have gi: "(i - 1, j) \<in> ?g" "i - 1 \<noteq> ?R - 1" if "i \<noteq> 0" using g that by (auto simp: grid_def)
      show "pending (cs' (top_wire input (i, j))) = opt_list ?p"
        using hd(6) [OF g g] e(8) [OF gi(1) gi(1) gi(1) gi(1)] gi(1) by (simp add: above_def sent_def down_def)
      show "pk_type q = COMPUTED_PSUM" if "?p = Some q" for q
        using that e(11) [OF gi(1) gi(1) gi(1) gi(1)] by (auto split: if_splits)
      show "map_option wk_data ?p = (if i = 0 then None else late (psums A W j (i - 1)) 1 (Suc t))"
        using e(10) [OF gi(1) gi(1) gi(1) gi(1)] gi(2) by simp
    qed (use e(1-7) [OF g g g g] hd(5) [OF g g] in blast)+
  qed
  then have "flow_ok input A W flip c0 tile (Suc t) w' cs'" using c(2-4) by (auto simp: flow_ok_def)
  moreover have "\<exists>q :: package option. map_option wk_data q = late (column A W ?R (snd (snd tile)) j) (?C - 1 - j) t \<and>
      ports' ! j = (case q of None \<Rightarrow> ports ! j | Some r \<Rightarrow> cn_send [ws_package.truncate r] (ports ! j))"
    if "j < ?C" "0 < ?R" for j
  proof -
    have g: "(?R - 1, j) \<in> ?g" using that by (simp add: grid_def)
    have "ports' ! j = (case ou_acc (ou (?R - 1, j)) of None \<Rightarrow> ports ! j | Some q \<Rightarrow> cn_send [ws_package.truncate q] (ports ! j))"
      using hd(9) [of j] that np g by simp
    with e(12) [OF g g g g refl] show ?thesis by blast
  qed
  ultimately show ?thesis using c(1-3) hd(8) that by blast
qed


section \<open>The product\<close>

lemma flow_run:
  assumes inp: "inputs_ok input (wm_cols w + wm_rows w)" and fl: "flow_ok input A W flip c0 tile 0 w cs"
    and ty: "\<forall>i t q. A i t = Some q \<longrightarrow> pk_type q = IACTIVATION"
    and np: "wm_cols w \<le> length ports" and b: "wm_rows w + wm_cols w \<le> 2 ^ 32" and rd: "\<forall>t ps. length (rd t ps) = length ps"
  shows "\<exists>w' cs' ports'. mesh_run freed input rd (\<lambda>_ _. None) A t (w, cs, ports) = Some (w', cs', ports') \<and> wm_rows w' = wm_rows w \<and>
    wm_cols w' = wm_cols w \<and> flow_ok input A W flip c0 tile t w' cs' \<and> length ports' = length ports"
proof (induction t)
  case 0
  then show ?case using fl by simp
next
  case (Suc t)
  then obtain w1 cs1 ports1 where r: "mesh_run freed input rd (\<lambda>_ _. None) A t (w, cs, ports) = Some (w1, cs1, ports1)"
    "wm_rows w1 = wm_rows w" "wm_cols w1 = wm_cols w" "flow_ok input A W flip c0 tile t w1 cs1" "length ports1 = length ports" by blast
  have pre: "inputs_ok input (wm_cols w1 + wm_rows w1)" "wm_cols w1 \<le> length (rd t ports1)" "wm_rows w1 + wm_cols w1 \<le> 2 ^ 32"
    using inp np b r rd by simp_all
  obtain w2 cs2 ports2 where
    "wm_cycle freed (w1, feed_left input (wm_rows w1) (wm_cols w1) (\<lambda>i. A i t) cs1, rd t ports1) = Some (w2, cs2, ports2)"
    "wm_rows w2 = wm_rows w1" "wm_cols w2 = wm_cols w1" "flow_ok input A W flip c0 tile (Suc t) w2 cs2"
    "length ports2 = length (rd t ports1)"
    by (rule flow_step [OF pre(1) r(4) ty pre(2,3)]) blast
  then show ?case using r rd by (simp add: feed_top_def)
qed

lemma psums_sum:
  "psums (row_stream X n) W j i t =
     (if i + j \<le> t \<and> t - (i + j) < n then Some (\<Sum>k\<le>i. wk_data (X (t - (i + j)) k) * W (k, j)) else None)"
proof (induction i arbitrary: t)
  case 0
  then show ?case by (simp add: row_stream_def late_def)
next
  case (Suc i)
  show ?case
  proof (cases "Suc i + j \<le> t")
    case True
    then have t: "t - 1 - (i + j) = t - (Suc i + j)" "i + j \<le> t - 1" "1 \<le> t" by simp_all
    then show ?thesis
      using True Suc.IH [of "t - 1"] by (simp add: row_stream_def late_def add.commute del: One_nat_def)
  qed (simp add: late_def)
qed

lemma column_sum:
  assumes "j < cols" "0 < rows"
  shows "late (column (row_stream X n) W rows t_n j) (cols - 1 - j) t =
     (if of_nat j \<le> t_n - 1 \<and> rows - 1 + (cols - 1) \<le> t \<and> t - (rows - 1 + (cols - 1)) < n
      then Some (\<Sum>k<rows. wk_data (X (t - (rows - 1 + (cols - 1))) k) * W (k, j)) else None)"
proof -
  have r: "{..rows - 1} = {..<rows}" using assms(2) by auto
  show ?thesis
  proof (cases "cols - 1 - j \<le> t")
    case True
    have t: "t - (cols - 1 - j) - (rows - 1 + j) = t - (rows - 1 + (cols - 1))"
      "rows - 1 + j \<le> t - (cols - 1 - j) \<longleftrightarrow> rows - 1 + (cols - 1) \<le> t"
      using assms True by arith+
    show ?thesis unfolding late_def column_def psums_sum t r using True by (simp del: One_nat_def)
  next
    case False
    then have "\<not> rows - 1 + (cols - 1) \<le> t" using assms by arith
    then show ?thesis using False by (simp add: late_def del: One_nat_def)
  qed
qed

text \<open>The command that starts the flow.\<close>

definition multiply :: "bool \<Rightarrow> u32 \<times> u32 \<times> u32 \<Rightarrow> ws_mesh \<Rightarrow> ws_mesh" where
  "multiply flip = (\<lambda>(t_m, t_k, t_n). if flip then wm_MatrixMultiplyFlip t_m t_k t_n else wm_MatrixMultiply t_m t_k t_n)"

lemma idle_pe_starts:
  fixes t_m t_k t_n :: u32
  assumes r: "idle_pe input rows cols c0 cs (i, j) m" and x: "(if flip then spare m else active m) = W (i, j)"
  defines "n \<equiv> (if flip then ms_MatrixMultiplyFlip t_m t_k t_n m else ms_MatrixMultiply t_m t_k t_n m)"
  shows "pe_ok input rows cols (i, j) n" "flow_at input A W rows cols flip c0 (t_m, t_k, t_n) 0 cs (i, j) n"
proof -
  let ?n = "m\<lparr>ms_flip_counter := if flip then int (i + j) else ms_flip_counter m,
     ms_act_limit_queue := [limit_of c0 (t_m, t_k, t_n) (i, j)]\<rparr>"
  have q: "ms_act_limit_queue m = []" "ms_local_cycle m = c0" "pe_ok input rows cols (i, j) m"
    "sf_buffer (ms_top_weight_fifo m) = replicate (if i = 0 then j else 0) None" "ms_flip_counter m < 0"
    using r by (simp_all add: idle_pe_def)
  have id: "ms_row_num m = i" "ms_col_num m = j" using q(3) by (simp_all add: pe_ok_def)
  have n: "n = ?n"
    using q(1,2) by (simp add: n_def ms_MatrixMultiply_def ms_MatrixMultiplyFlip_def push_limit_def limit_of_def id)
  show "pe_ok input rows cols (i, j) n" using q(3) unfolding n by (simp add: pe_ok_def ms_lines_def)
  show "flow_at input A W rows cols flip c0 (t_m, t_k, t_n) 0 cs (i, j) n"
    unfolding n
  proof (rule flow_atI [where p = None])
    show "sf_buffer (ms_top_weight_fifo ?n) = replicate (if i = 0 then j else 0) None" using q(4) by simp
    have "spare ?n = spare m" "active ?n = active m" by (simp_all add: spare_def active_def cong: if_cong)
    then show "armed flip (i + j) 0 (W (i, j)) ?n" using q(5) x by (cases flip) (simp_all add: armed_def)
  qed (use r in \<open>simp_all add: idle_pe_def late_def\<close>)
qed

lemma multiply_pes: "wm_rows (multiply flip tile w) = wm_rows w" "wm_cols (multiply flip tile w) = wm_cols w"
  "i < wm_rows w \<Longrightarrow> j < wm_cols w \<Longrightarrow> wm_pes (multiply flip (t_m, t_k, t_n) w) (i, j) =
     (if flip then ms_MatrixMultiplyFlip t_m t_k t_n (wm_pes w (i, j)) else ms_MatrixMultiply t_m t_k t_n (wm_pes w (i, j)))"
  by (simp_all add: multiply_def wm_MatrixMultiply_def wm_MatrixMultiplyFlip_def map_pes_def split: prod.split)

lemma idle_starts:
  assumes "idle input c0 w cs" "holds W flip w"
  shows "flow_ok input A W flip c0 (t_m, t_k, t_n) 0 (multiply flip (t_m, t_k, t_n) w) cs"
proof -
  have "pe_ok input (wm_rows w) (wm_cols w) (i, j) (wm_pes (multiply flip (t_m, t_k, t_n) w) (i, j)) \<and>
      flow_at input A W (wm_rows w) (wm_cols w) flip c0 (t_m, t_k, t_n) 0 cs (i, j) (wm_pes (multiply flip (t_m, t_k, t_n) w) (i, j))"
    if "i < wm_rows w" "j < wm_cols w" for i j
    using assms that idle_pe_starts [of input "wm_rows w" "wm_cols w" c0 cs i j "wm_pes w (i, j)" flip W]
    by (simp add: idle_def holds_def multiply_pes)
  then show ?thesis by (auto simp: flow_ok_def mesh_ok_def multiply_pes grid_def)
qed

text \<open>After the last row the mesh is idle again.\<close>

lemma column_over:
  assumes "n + rows + cols \<le> Suc t" "j < cols" "i < rows"
  shows "late (psums (row_stream X n) W j i) 1 t = None"
    "past (column (row_stream X n) W rows t_n j) t (cols - 1 - j) = replicate (cols - 1 - j) None"
proof -
  show "late (psums (row_stream X n) W j i) 1 t = None" unfolding late_def psums_sum using assms by auto
  have "column (row_stream X n) W rows t_n j (t - 1 - k) = None" if "k < cols - 1 - j" for k
    unfolding column_def psums_sum using assms that by auto
  then show "past (column (row_stream X n) W rows t_n j) t (cols - 1 - j) = replicate (cols - 1 - j) None"
    unfolding past_def by (intro nth_equalityI) auto
qed

lemma map_None:
  assumes "map (map_option f) xs = replicate n None"
  shows "xs = replicate n None"
proof (rule replicate_eqI)
  show "length xs = n" using arg_cong [OF assms, of length] by simp
  fix x assume "x \<in> set xs"
  then have "map_option f x \<in> set (replicate n None)" unfolding assms [symmetric] by simp
  then show "x = None" by simp
qed

lemma flow_ends:
  assumes "flow_ok input (row_stream X n) W flip c0 tile t w cs" "n + wm_rows w + wm_cols w \<le> Suc t"
  shows "idle input (c0 + of_nat t) w cs" "holds W False w"
proof -
  let ?R = "wm_rows w" and ?C = "wm_cols w"
  have el: "flow_at input (row_stream X n) W ?R ?C flip c0 tile t cs (i, j) (wm_pes w (i, j))"
    "pe_ok input ?R ?C (i, j) (wm_pes w (i, j))" "i + j < t" "n + i + j \<le> t" if "i < ?R" "j < ?C" for i j
    using assms that by (auto simp: flow_ok_def mesh_ok_def grid_def)
  have "idle_pe input ?R ?C (c0 + of_nat t) cs (i, j) (wm_pes w (i, j)) \<and> active (wm_pes w (i, j)) = W (i, j)"
    if ij: "i < ?R" "j < ?C" for i j
  proof -
    note f = flow_atD [OF el(1) [OF ij]] and co = column_over [OF assms(2) ij(2)]
    have a: "late (row_stream X n i) (i + j) t = None" using el(4) [OF ij] by (auto simp: late_def row_stream_def)
    have arm: "ms_flip_counter (wm_pes w (i, j)) < 0" "active (wm_pes w (i, j)) = W (i, j)"
      using f(2) el(3) [OF ij] by (simp_all add: armed_def)
    have acc: "sf_buffer (ms_accbuffer_fifo (wm_pes w (i, j))) = replicate (?C - 1 - j) None" if "i = ?R - 1"
    proof -
      have "map (map_option wk_data) (sf_buffer (ms_accbuffer_fifo (wm_pes w (i, j)))) = replicate (?C - 1 - j) None"
        using f(7) [OF that] co(2) [OF ij(1)] by simp
      then show ?thesis by (rule map_None)
    qed
    obtain p where p: "pending (cs (top_wire input (i, j))) = opt_list p"
      "map_option wk_data p = (if i = 0 then None else late (psums (row_stream X n) W j (i - 1)) 1 t)" using f(10) by blast
    have "p = None" using p(2) co(1) [of "i - 1"] ij(1) by (cases "i = 0") simp_all
    then have top: "pending (cs (top_wire input (i, j))) = []" using p(1) by simp
    have left: "sf_buffer (ms_left_fifo (wm_pes w (i, j))) = replicate (if j = 0 then i else 0) None"
      using f(6) el(4) [OF ij] past_over [of n i t X i] by simp
    show ?thesis
      unfolding idle_pe_def prod.case using el(2,3) [OF ij] arm f(1,3,4,8,9) acc top left a by simp
  qed
  then show "idle input (c0 + of_nat t) w cs" "holds W False w" by (simp_all add: idle_def holds_def)
qed

text \<open>A run of the product.\<close>

lemma product_run:
  assumes "inputs_ok input (wm_cols w + wm_rows w)" "idle input c0 w cs" "holds W flip w"
    "\<forall>i t. pk_type (X t i) = IACTIVATION" "0 < wm_rows w" "wm_cols w \<le> length ports"
    "wm_rows w + wm_cols w \<le> 2 ^ 32" "\<forall>t ps. length (rd t ps) = length ps"
  defines "d \<equiv> wm_rows w - 1 + (wm_cols w - 1)"
  shows "\<exists>w1 cs1 ports1 w2 cs2 ports2.
    mesh_run freed input rd (\<lambda>_ _. None) (row_stream X n) t (multiply flip (t_m, t_k, t_n) w, cs, ports) = Some (w1, cs1, ports1) \<and>
    wm_rows w1 = wm_rows w \<and> wm_cols w1 = wm_cols w \<and> length ports1 = length ports \<and>
    (n + wm_rows w + wm_cols w \<le> Suc t \<longrightarrow> idle input (c0 + of_nat t) w1 cs1 \<and> holds W False w1) \<and>
    mesh_run freed input rd (\<lambda>_ _. None) (row_stream X n) (Suc t) (multiply flip (t_m, t_k, t_n) w, cs, ports) = Some (w2, cs2, ports2) \<and>
    (\<forall>j<wm_cols w. if of_nat j \<le> t_n - 1 \<and> d \<le> t \<and> t - d < n
       then cn_pending_data (ports2 ! j) \<and>
         map wk_data (cn_data (ports2 ! j)) = [\<Sum>k<wm_rows w. wk_data (X (t - d) k) * W (k, j)]
       else ports2 ! j = rd t ports1 ! j)"
proof -
  let ?w = "multiply flip (t_m, t_k, t_n) w" and ?A = "row_stream X n" and ?R = "wm_rows w" and ?C = "wm_cols w"
  have ty: "\<forall>i t q. ?A i t = Some q \<longrightarrow> pk_type q = IACTIVATION"
    using assms(4) by (auto simp: row_stream_def)
  have pre: "inputs_ok input (wm_cols ?w + wm_rows ?w)" "wm_cols ?w \<le> length ports" "wm_rows ?w + wm_cols ?w \<le> 2 ^ 32"
    using assms(1,6,7) by (simp_all add: multiply_pes)
  obtain w1 cs1 ports1 where r: "mesh_run freed input rd (\<lambda>_ _. None) ?A t (?w, cs, ports) = Some (w1, cs1, ports1)"
    "wm_rows w1 = ?R" "wm_cols w1 = ?C" "flow_ok input ?A W flip c0 (t_m, t_k, t_n) t w1 cs1" "length ports1 = length ports"
    using flow_run [OF pre(1) idle_starts [OF assms(2,3)] ty pre(2,3) assms(8), of freed t] unfolding multiply_pes by blast
  have pre1: "inputs_ok input (wm_cols w1 + wm_rows w1)" "wm_cols w1 \<le> length (rd t ports1)" "wm_rows w1 + wm_cols w1 \<le> 2 ^ 32"
    using assms r by simp_all
  obtain w2 cs2 ports2 where
    c: "wm_cycle freed (w1, feed_left input (wm_rows w1) (wm_cols w1) (\<lambda>i. ?A i t) cs1, rd t ports1) = Some (w2, cs2, ports2)"
    and o: "\<And>j. j < wm_cols w1 \<Longrightarrow> 0 < wm_rows w1 \<Longrightarrow> \<exists>q :: package option.
       map_option wk_data q = late (column ?A W (wm_rows w1) (snd (snd (t_m, t_k, t_n))) j) (wm_cols w1 - 1 - j) t \<and>
         ports2 ! j = (case q of None \<Rightarrow> rd t ports1 ! j | Some r \<Rightarrow> cn_send [ws_package.truncate r] (rd t ports1 ! j))"
    by (rule flow_step [OF pre1(1) r(4) ty pre1(2,3)]) blast
  have "if of_nat j \<le> t_n - 1 \<and> d \<le> t \<and> t - d < n
       then cn_pending_data (ports2 ! j) \<and>
         map wk_data (cn_data (ports2 ! j)) = [\<Sum>k<wm_rows w. wk_data (X (t - d) k) * W (k, j)]
       else ports2 ! j = rd t ports1 ! j" if j: "j < ?C" for j
  proof -
    obtain q :: "package option" where
      q: "map_option wk_data q = late (column ?A W ?R t_n j) (?C - 1 - j) t"
        "ports2 ! j = (case q of None \<Rightarrow> rd t ports1 ! j | Some r \<Rightarrow> cn_send [ws_package.truncate r] (rd t ports1 ! j))"
      using o [of j] j r(2,3) assms(5) by auto
    then show ?thesis
      unfolding column_sum [OF j assms(5)] d_def
      by (cases q) (auto simp: cn_send_def ws_package.truncate_def split: if_splits)
  qed
  moreover have "idle input (c0 + of_nat t) w1 cs1 \<and> holds W False w1" if "n + ?R + ?C \<le> Suc t"
    using flow_ends [OF r(4)] that r(2,3) by simp
  moreover have "mesh_run freed input rd (\<lambda>_ _. None) ?A (Suc t) (?w, cs, ports) = Some (w2, cs2, ports2)"
    using r(1) c by (simp add: feed_top_def)
  ultimately show ?thesis using r(1,2,3,5) by blast
qed

section \<open>The whole mesh\<close>

definition built_mesh :: "u32 \<Rightarrow> nat \<Rightarrow> nat \<Rightarrow> (nat \<Rightarrow> wire) \<Rightarrow> ws_mesh" where
  "built_mesh capacity rows cols input =
     wm_setOutputConnections (wm_setInputConnections input (new_ws_mesh capacity rows cols))"

lemma built_dims: "wm_rows (built_mesh capacity rows cols input) = rows" "wm_cols (built_mesh capacity rows cols input) = cols"
  by (simp_all add: built_mesh_def wm_setOutputConnections_def wm_setInputConnections_def map_pes_def new_ws_mesh_def)

lemma new_fifo_cells:
  assumes "0 < n" "n < 2 ^ 32"
  shows "sf_buffer (new_sync_fifo capacity (of_nat n)) = replicate (n - 1) None"
    "delay_line (new_sync_fifo capacity (of_nat n) :: 'a sync_fifo)"
proof -
  have "(of_nat n :: u32) \<noteq> 0" using assms of_nat_u32_eq [of n 0] by simp
  then have u: "unat (of_nat n - 1 :: u32) = n - 1" using assms by (simp add: unat_minus_one unat_of_nat take_bit_nat_eq_self)
  then show "sf_buffer (new_sync_fifo capacity (of_nat n)) = replicate (n - 1) None" 
    by (auto simp: new_sync_fifo_def Let_def unat_eq_zero)
  show "delay_line (new_sync_fifo capacity (of_nat n) :: 'a sync_fifo)"
    using u by (auto simp: new_sync_fifo_def Let_def delay_line_def sf_wf_def)
qed

lemma built_pe:
  assumes "i < rows" "j < cols"
  shows "wm_pes (built_mesh capacity rows cols input) (i, j) = (new_multiplier capacity rows cols i j)
    \<lparr>ms_top_connection := Some (top_wire input (i, j)), ms_left_connection := Some (left_wire input cols (i, j)),
      ms_bottom_connection := (if i + 1 < rows then Some (Vertical (i + 1) j) else None),
      ms_right_connection := (if j + 1 < cols then Some (Horizontal i (j + 1)) else None),
      ms_accbuffer_connection := (if i = rows - 1 then Some j else None)\<rparr>"
  using assms
  by (simp add: built_mesh_def wm_setOutputConnections_def wm_setInputConnections_def map_pes_def new_ws_mesh_def link_def
      new_multiplier_def top_wire_def left_wire_def Let_def)

lemma built_idle:
  assumes "rows + cols \<le> 2 ^ 32"
  shows "idle input 0 (built_mesh capacity rows cols input) (\<lambda>_. new_connection bw)"
    "holds (\<lambda>_. 0) False (built_mesh capacity rows cols input)"
proof -
  let ?w = "built_mesh capacity rows cols input"
  have "idle_pe input rows cols 0 (\<lambda>_. new_connection bw) (i, j) (wm_pes ?w (i, j)) \<and> active (wm_pes ?w (i, j)) = 0"
    if ij: "i < rows" "j < cols" for i j
  proof -
    let ?t = "new_sync_fifo capacity (of_nat (if i = 0 then j + 1 else 1)) :: package sync_fifo"
    let ?l = "new_sync_fifo capacity (of_nat (if j = 0 then i + 1 else 1)) :: package sync_fifo"
    let ?a = "new_sync_fifo capacity (of_nat (if i = rows - 1 then cols - j else 1)) :: package sync_fifo"
    let ?p = "new_sync_fifo capacity 1 :: package sync_fifo"
    have t: "sf_buffer ?t = replicate (if i = 0 then j else 0) None" "delay_line ?t"
      using new_fifo_cells [of "if i = 0 then j + 1 else 1" capacity] assms ij by auto
    have l: "sf_buffer ?l = replicate (if j = 0 then i else 0) None" "delay_line ?l"
      using new_fifo_cells [of "if j = 0 then i + 1 else 1" capacity] assms ij by auto
    have a: "sf_buffer ?a = replicate (if i = rows - 1 then cols - 1 - j else 0) None" "delay_line ?a"
      using new_fifo_cells [of "if i = rows - 1 then cols - j else 1" capacity] assms ij by auto
    have p: "plain_line ?p" by (simp add: plain_line_def new_sync_fifo_def)
    have f: "ms_top_weight_fifo (wm_pes ?w (i, j)) = ?t" "ms_left_fifo (wm_pes ?w (i, j)) = ?l"
      "ms_accbuffer_fifo (wm_pes ?w (i, j)) = ?a" "ms_top_psum_fifo (wm_pes ?w (i, j)) = ?p"
      "ms_right_fifo (wm_pes ?w (i, j)) = ?p" "ms_bottom_weight_fifo (wm_pes ?w (i, j)) = ?p"
      "ms_bottom_psum_fifo (wm_pes ?w (i, j)) = ?p"
      unfolding built_pe [OF ij] by (simp_all add: new_multiplier_def Let_def)
    have lines: "ms_lines (wm_pes ?w (i, j))" unfolding ms_lines_def f using t(2) l(2) a(2) p by blast
    have v: "ms_row_num (wm_pes ?w (i, j)) = i" "ms_col_num (wm_pes ?w (i, j)) = j" "ms_rows (wm_pes ?w (i, j)) = rows"
      "ms_cols (wm_pes ?w (i, j)) = cols" "ms_top_connection (wm_pes ?w (i, j)) = Some (top_wire input (i, j))"
      "ms_left_connection (wm_pes ?w (i, j)) = Some (left_wire input cols (i, j))"
      "ms_bottom_connection (wm_pes ?w (i, j)) = (if i + 1 < rows then Some (Vertical (i + 1) j) else None)"
      "ms_right_connection (wm_pes ?w (i, j)) = (if j + 1 < cols then Some (Horizontal i (j + 1)) else None)"
      "ms_accbuffer_connection (wm_pes ?w (i, j)) = (if i = rows - 1 then Some j else None)"
      unfolding built_pe [OF ij] by (simp_all add: new_multiplier_def Let_def)
    have ok: "pe_ok input rows cols (i, j) (wm_pes ?w (i, j))"
      unfolding pe_ok_def prod.case f(3) using lines a(1) ij v by auto
    have id: "ms_flip_counter (wm_pes ?w (i, j)) < 0" "ms_local_cycle (wm_pes ?w (i, j)) = 0"
      "ms_act_limit_queue (wm_pes ?w (i, j)) = []" "active (wm_pes ?w (i, j)) = 0"
      unfolding built_pe [OF ij] by (simp_all add: new_multiplier_def Let_def active_def)
    have a1: "i = rows - 1 \<Longrightarrow> sf_buffer ?a = replicate (cols - 1 - j) None" unfolding a(1) by simp
    have n: "pending (new_connection bw) = []" "\<not> cn_pending_data (new_connection bw)"
      by (simp_all add: pending_def new_connection_def)
    show ?thesis
      unfolding idle_pe_def prod.case f using ok id t(1) l(1) a1 n by blast
  qed
  then show "idle input 0 ?w (\<lambda>_. new_connection bw)" "holds (\<lambda>_. 0) False ?w"
    by (simp_all add: idle_def holds_def built_dims)
qed

text \<open>
  C18. The preload loads the weights.  After the command \<open>preload\<close> the rows of a matrix \<open>V\<close> of weights are
  given to the columns, one row per cycle; from cycle \<open>rows + cols - 1\<close> on the mesh is idle again and
  reports \<open>weights_preloaded\<close>, the element in row \<open>i\<close> and column \<open>j\<close> has row \<open>rows - 1 - i\<close> of \<open>V\<close> in its spare
  register, as far as the read of the deleted package returns it, and the weights in use are the old ones.
\<close>

theorem mesh_preloads:
  assumes "inputs_ok input (wm_cols w + wm_rows w)" "idle input c0 w cs" "holds U False w"
    "\<forall>s j. pk_type (V s j) = WEIGHT" "wm_cols w \<le> length ports" "wm_rows w < 2 ^ 32"
    "\<forall>t ps. length (rd t ps) = length ps" "wm_rows w + wm_cols w \<le> Suc t"
  shows "\<exists>w' cs' ports'.
    mesh_run freed input rd (row_stream V (wm_rows w)) (\<lambda>_ _. None) t (wm_preload w, cs, ports) = Some (w', cs', ports') \<and>
    idle input (c0 + of_nat t) w' cs' \<and> wm_weights_preloaded w' \<and>
    holds (\<lambda>(i, j). freed (V (wm_rows w - 1 - i) j)) True w' \<and> holds U False w' \<and>
    wm_rows w' = wm_rows w \<and> wm_cols w' = wm_cols w \<and> length ports' = length ports"
  by (rule preload_run [OF assms])

text \<open>
  C17. The mesh multiplies.  Started with \<open>MatrixMultiply\<close> or, on the weights just loaded, with
  \<open>MatrixMultiplyFlip\<close>, and given row \<open>s\<close> of the matrix \<open>X\<close> in cycle \<open>s\<close>, it runs without a failed assertion, and
  in cycle \<open>s + (rows - 1) + (cols - 1)\<close> every column \<open>j \<le> T_N - 1\<close> sends to its port exactly one package with
  the product of row \<open>s\<close> and column \<open>j\<close> of the weights; in no other cycle and at no other column does it send anything.
  When the last result is out the mesh is idle again, with these weights in use.
\<close>

theorem mesh_multiplies:
  assumes "inputs_ok input (wm_cols w + wm_rows w)" "idle input c0 w cs" "holds W flip w"
    "\<forall>i t. pk_type (X t i) = IACTIVATION" "0 < wm_rows w" "wm_cols w \<le> length ports"
    "wm_rows w + wm_cols w \<le> 2 ^ 32" "\<forall>t ps. length (rd t ps) = length ps"
  defines "d \<equiv> wm_rows w - 1 + (wm_cols w - 1)"
  shows "\<exists>w1 cs1 ports1 w2 cs2 ports2.
    mesh_run freed input rd (\<lambda>_ _. None) (row_stream X n) t (multiply flip (t_m, t_k, t_n) w, cs, ports) = Some (w1, cs1, ports1) \<and>
    wm_rows w1 = wm_rows w \<and> wm_cols w1 = wm_cols w \<and> length ports1 = length ports \<and>
    (n + wm_rows w + wm_cols w \<le> Suc t \<longrightarrow> idle input (c0 + of_nat t) w1 cs1 \<and> holds W False w1) \<and>
    mesh_run freed input rd (\<lambda>_ _. None) (row_stream X n) (Suc t) (multiply flip (t_m, t_k, t_n) w, cs, ports) = Some (w2, cs2, ports2) \<and>
    (\<forall>j<wm_cols w. if of_nat j \<le> t_n - 1 \<and> d \<le> t \<and> t - d < n
       then cn_pending_data (ports2 ! j) \<and>
         map wk_data (cn_data (ports2 ! j)) = [\<Sum>k<wm_rows w. wk_data (X (t - d) k) * W (k, j)]
       else ports2 ! j = rd t ports1 ! j)"
  unfolding d_def by (rule product_run [OF assms(1-8)])

text \<open>
  C2. The mesh multiplies the rows it is given by the weights it reads from the packages it was given.  A mesh as
  the constructors build it, told to load the packages \<open>V\<close>, one row a cycle, and, when they are in, to multiply with a
  flip, runs without a failed assertion.  From row \<open>s\<close> of \<open>X\<close> given in cycle \<open>s\<close> each column \<open>j\<close> up to \<open>T_N - 1\<close> has, after
  cycle \<open>s + (rows - 1) + (cols - 1)\<close>, one package at its port, with the sum over \<open>k\<close> of \<open>X s k\<close> times the weight that
  \<open>freed\<close> gives for \<open>V (rows - 1 - k) j\<close>: the rows of weights are to be sent last first.  \<open>freed\<close> stands for the read of
  a weight from its package after the package was deleted, which is what the code does; that the memory still holds
  the data (\<open>freed = wk_data\<close>) is not claimed, and only then the sum is an entry of the matrix product.  Of the columns
  from \<open>T_N\<close> on nothing is said here.
\<close>

theorem systolic_gemm:
  assumes "inputs_ok input (cols + rows)" "0 < rows" "0 < cols" "rows + cols \<le> 2 ^ 32"
    "\<forall>s j. pk_type (V s j) = WEIGHT" "\<forall>i t. pk_type (X t i) = IACTIVATION" "cols \<le> length ports"
    "\<forall>t ps. length (rd t ps) = length ps" "\<forall>t ps. length (rd' t ps) = length ps" "rows + cols \<le> Suc t0"
  shows "\<exists>w0 cs0 ports0.
    mesh_run freed input rd (row_stream V rows) (\<lambda>_ _. None) t0
      (wm_preload (built_mesh capacity rows cols input), \<lambda>_. new_connection bw, ports) = Some (w0, cs0, ports0) \<and>
    wm_weights_preloaded w0 \<and>
    (\<forall>s<n. \<exists>w1 cs1 ports1.
       mesh_run freed input rd' (\<lambda>_ _. None) (row_stream X n) (s + (rows - 1) + (cols - 1) + 1)
         (multiply True (t_m, t_k, t_n) w0, cs0, ports0) = Some (w1, cs1, ports1) \<and>
       (\<forall>j<cols. of_nat j \<le> t_n - 1 \<longrightarrow> cn_pending_data (ports1 ! j) \<and>
         map wk_data (cn_data (ports1 ! j)) = [\<Sum>k<rows. wk_data (X s k) * freed (V (rows - 1 - k) j)]))"
proof -
  let ?w = "wm_preload (built_mesh capacity rows cols input)" and ?C0 = "\<lambda>_ :: wire. new_connection bw :: package connection"
  let ?W = "\<lambda>(i, j). freed (V (rows - 1 - i) j)"
  have pre: "inputs_ok input (wm_cols (built_mesh capacity rows cols input) + wm_rows (built_mesh capacity rows cols input))"
    "wm_cols (built_mesh capacity rows cols input) \<le> length ports" "wm_rows (built_mesh capacity rows cols input) < 2 ^ 32"
    "wm_rows (built_mesh capacity rows cols input) + wm_cols (built_mesh capacity rows cols input) \<le> Suc t0"
    using assms by (simp_all add: built_dims)
  obtain w0 cs0 ports0 where
    r: "mesh_run freed input rd (row_stream V rows) (\<lambda>_ _. None) t0 (?w, ?C0, ports) = Some (w0, cs0, ports0)"
    "idle input (0 + of_nat t0) w0 cs0" "wm_weights_preloaded w0" "holds ?W True w0" "wm_rows w0 = rows" "wm_cols w0 = cols"
    "length ports0 = length ports"
    using preload_run [OF pre(1) built_idle [OF assms(4)] assms(5) pre(2,3) assms(8) pre(4), of freed] unfolding built_dims by blast
  have pre0: "inputs_ok input (wm_cols w0 + wm_rows w0)" "0 < wm_rows w0" "wm_cols w0 \<le> length ports0"
    "wm_rows w0 + wm_cols w0 \<le> 2 ^ 32" using assms r by simp_all
  have "\<exists>w1 cs1 ports1.
       mesh_run freed input rd' (\<lambda>_ _. None) (row_stream X n) (s + (rows - 1) + (cols - 1) + 1)
         (multiply True (t_m, t_k, t_n) w0, cs0, ports0) = Some (w1, cs1, ports1) \<and>
       (\<forall>j<cols. of_nat j \<le> t_n - 1 \<longrightarrow> cn_pending_data (ports1 ! j) \<and>
         map wk_data (cn_data (ports1 ! j)) = [\<Sum>k<rows. wk_data (X s k) * freed (V (rows - 1 - k) j)])" if "s < n" for s
  proof -
    let ?t = "s + (rows - 1) + (cols - 1)"
    have t: "rows - 1 + (cols - 1) \<le> ?t" "?t - (rows - 1 + (cols - 1)) = s" by simp_all
    obtain w1 cs1 ports1 w2 cs2 ports2 where
      m: "mesh_run freed input rd' (\<lambda>_ _. None) (row_stream X n) (Suc ?t) (multiply True (t_m, t_k, t_n) w0, cs0, ports0) =
          Some (w2, cs2, ports2)"
      and o: "\<forall>j<cols. if of_nat j \<le> t_n - 1 \<and> rows - 1 + (cols - 1) \<le> ?t \<and> ?t - (rows - 1 + (cols - 1)) < n
         then cn_pending_data (ports2 ! j) \<and> map wk_data (cn_data (ports2 ! j)) =
           [\<Sum>k<rows. wk_data (X (?t - (rows - 1 + (cols - 1))) k) * freed (V (rows - 1 - k) j)]
         else ports2 ! j = rd' ?t ports1 ! j"
      using product_run [OF pre0(1) r(2,4) assms(6) pre0(2,3,4) assms(9), of freed n ?t t_m t_k t_n]
      unfolding r(5,6) prod.case by blast
    have "cn_pending_data (ports2 ! j) \<and>
        map wk_data (cn_data (ports2 ! j)) = [\<Sum>k<rows. wk_data (X s k) * freed (V (rows - 1 - k) j)]"
      if "j < cols" "of_nat j \<le> t_n - 1" for j
      using o [rule_format, OF that(1)] that(2) \<open>s < n\<close> unfolding t(2) by simp
    then show ?thesis using m unfolding Suc_eq_plus1 by blast
  qed
  with r(1,3) show ?thesis by blast
qed


text \<open>
  C3. The mesh is synchronous.  A call of \<open>cycle\<close>, which runs the elements one after the other on shared wires, does
  what one clock edge of all elements does: every element makes its step on what was on its wires before the
  call, and what it puts out is after the call on the wires of its right and its lower neighbour and at its port.
\<close>

theorem mesh_is_synchronous:
  assumes "inputs_ok input (wm_cols w + wm_rows w)" "mesh_ok input (wm_rows w) (wm_cols w) (wm_pes w)"
    "mesh_in input (wm_rows w) (wm_cols w) cs wt p a" "wm_cols w \<le> length ports"
  shows "\<exists>w' cs' ports'. wm_cycle freed (w, cs, ports) = Some (w', cs', ports') \<and>
    (\<forall>i<wm_rows w. \<forall>j<wm_cols w.
       let (m, u) = ms_step freed (wt (i, j)) (p (i, j)) (a (i, j)) (wm_pes w (i, j))
       in wm_pes w' (i, j) = m \<and>
          (Suc j < wm_cols w \<longrightarrow> pending (cs' (Horizontal i (Suc j))) = opt_list (ou_act u)) \<and>
          (Suc i < wm_rows w \<longrightarrow> pending (cs' (Vertical (Suc i) j)) = opt_list (ou_weight u) @ opt_list (ou_psum u)) \<and>
          (i = wm_rows w - 1 \<longrightarrow> ports' ! j =
             (case ou_acc u of None \<Rightarrow> ports ! j | Some q \<Rightarrow> cn_send [ws_package.truncate q] (ports ! j))))"
proof -
  let ?R = "wm_rows w" and ?C = "wm_cols w"
  let ?g = "grid ?R ?C"
  define nxt where "nxt x = fst (ms_step freed (wt x) (p x) (a x) (wm_pes w x))" for x
  define ou where "ou x = snd (ms_step freed (wt x) (p x) (a x) (wm_pes w x))" for x
  have st: "ms_step freed (wt x) (p x) (a x) (wm_pes w x) = (nxt x, ou x)" for x by (simp add: nxt_def ou_def)
  obtain w' cs' ports' where c: "wm_cycle freed (w, cs, ports) = Some (w', cs', ports')"
    and h: "half_done input ?R ?C nxt ou (wm_pes w, cs, ports) ?g (wm_pes w', cs', ports')"
    using wm_cycle_step [OF assms st] by blast
  note hd = half_doneD [OF h]
  have "wm_pes w' (i, j) = nxt (i, j) \<and>
      (Suc j < ?C \<longrightarrow> pending (cs' (Horizontal i (Suc j))) = opt_list (ou_act (ou (i, j)))) \<and>
      (Suc i < ?R \<longrightarrow> pending (cs' (Vertical (Suc i) j)) = opt_list (ou_weight (ou (i, j))) @ opt_list (ou_psum (ou (i, j)))) \<and>
      (i = ?R - 1 \<longrightarrow> ports' ! j =
         (case ou_acc (ou (i, j)) of None \<Rightarrow> ports ! j | Some q \<Rightarrow> cn_send [ws_package.truncate q] (ports ! j)))"
    if ij: "i < ?R" "j < ?C" for i j
  proof (intro conjI impI)
    have g: "(i, j) \<in> ?g" using ij by (simp add: grid_def)
    show "wm_pes w' (i, j) = nxt (i, j)" using hd(1) [of "(i, j)"] g by simp
    show "pending (cs' (Horizontal i (Suc j))) = opt_list (ou_act (ou (i, j)))" if "Suc j < ?C"
    proof -
      have r: "(i, Suc j) \<in> ?g" using ij that by (simp add: grid_def)
      show ?thesis using hd(4) [OF r r] g by (simp add: left_wire_def left_of_def sent_def)
    qed
    show "pending (cs' (Vertical (Suc i) j)) = opt_list (ou_weight (ou (i, j))) @ opt_list (ou_psum (ou (i, j)))" if "Suc i < ?R"
    proof -
      have r: "(Suc i, j) \<in> ?g" using ij that by (simp add: grid_def)
      show ?thesis using hd(6) [OF r r] g by (simp add: top_wire_def above_def sent_def down_def)
    qed
    show "ports' ! j = (case ou_acc (ou (i, j)) of None \<Rightarrow> ports ! j | Some q \<Rightarrow> cn_send [ws_package.truncate q] (ports ! j))"
      if "i = ?R - 1"
      using hd(9) [of j] that ij assms(4) g by simp
  qed
  then show ?thesis using c st by auto
qed

section \<open>Examples\<close>

lemma ports_ok [simp]: "inputs_ok InPort n"
  by (simp add: inputs_ok_def inj_on_def)

theorem mesh_is_synchronous_witness:
  "\<exists>w' cs' ports'. wm_cycle wk_data (built_mesh 16 2 2 InPort, \<lambda>_. new_connection 4, replicate 2 (new_connection 4)) =
      Some (w', cs', ports') \<and> pending (cs' (Horizontal 0 (Suc 0))) = []"
proof -
  let ?w = "built_mesh 16 2 2 InPort" and ?c = "\<lambda>_ :: wire. new_connection 4 :: package connection"
  have idle: "idle InPort 0 ?w ?c" by (rule built_idle) simp
  then have "mesh_ok InPort (wm_rows ?w) (wm_cols ?w) (wm_pes ?w)" "mesh_in InPort (wm_rows ?w) (wm_cols ?w) ?c (\<lambda>_. None) (\<lambda>_. None) (\<lambda>_. None)"
    by (auto simp: mesh_ok_def mesh_in_def idle_def idle_pe_def grid_def arrives_def)
  from mesh_is_synchronous [OF ports_ok this, of "replicate 2 (new_connection 4)" wk_data]
  obtain w' cs' ports' where c: "wm_cycle wk_data (?w, ?c, replicate 2 (new_connection 4)) = Some (w', cs', ports')"
    and o: "\<forall>i<2. \<forall>j<2. let (m, u) = ms_step wk_data None None None (wm_pes ?w (i, j))
       in Suc j < 2 \<longrightarrow> pending (cs' (Horizontal i (Suc j))) = opt_list (ou_act u)"
    by (auto simp: built_dims split: prod.splits)
  have "quiet (wm_pes ?w (0, 0))" "sf_buffer (ms_left_fifo (wm_pes ?w (0, 0))) = []"
    using idle by (auto simp: idle_def idle_pe_def built_dims quiet_def)
  moreover obtain m u where st: "ms_step wk_data None None None (wm_pes ?w (0, 0)) = (m, u)" by fastforce
  ultimately have "ou_act u = None" using quiet_step(8) [OF _ st] by (simp split: if_splits)
  then show ?thesis using c o [rule_format, of 0 0] st by simp
qed

theorem mesh_preloads_witness:
  "\<exists>w' cs' ports'. mesh_run wk_data InPort (\<lambda>_ ps. ps) (row_stream (\<lambda>s j. new_package 4 (of_nat (s + 2 * j)) WEIGHT 0 MULTICAST) 2)
      (\<lambda>_ _. None) 3 (wm_preload (built_mesh 16 2 2 InPort), \<lambda>_. new_connection 4, replicate 2 (new_connection 4)) =
      Some (w', cs', ports') \<and> wm_weights_preloaded w' \<and> spare (wm_pes w' (0, 1)) = 3"
proof -
  let ?w = "built_mesh 16 2 2 InPort" and ?c = "\<lambda>_ :: wire. new_connection 4 :: package connection"
    and ?V = "\<lambda>s j. new_package 4 (of_nat (s + 2 * j)) WEIGHT 0 MULTICAST"
  have idle: "idle InPort 0 ?w ?c" "holds (\<lambda>_. 0) False ?w" by (rule built_idle, simp)+
  have "\<exists>w' cs' ports'. mesh_run wk_data InPort (\<lambda>_ ps. ps) (row_stream ?V (wm_rows ?w)) (\<lambda>_ _. None) 3
      (wm_preload ?w, ?c, replicate 2 (new_connection 4)) = Some (w', cs', ports') \<and>
    idle InPort (0 + of_nat 3) w' cs' \<and> wm_weights_preloaded w' \<and>
    holds (\<lambda>(i, j). wk_data (?V (wm_rows ?w - 1 - i) j)) True w' \<and> holds (\<lambda>_. 0) False w' \<and>
    wm_rows w' = wm_rows ?w \<and> wm_cols w' = wm_cols ?w \<and> length ports' = length (replicate 2 (new_connection 4 :: ws_package connection))"
    by (rule mesh_preloads [OF ports_ok idle]) (simp_all add: built_dims)
  then obtain w' cs' ports' where r: "mesh_run wk_data InPort (\<lambda>_ ps. ps) (row_stream ?V 2) (\<lambda>_ _. None) 3
      (wm_preload ?w, ?c, replicate 2 (new_connection 4)) = Some (w', cs', ports')" "wm_weights_preloaded w'"
      "holds (\<lambda>(i, j). wk_data (?V (2 - 1 - i) j)) True w'" "wm_rows w' = 2" "wm_cols w' = 2"
    unfolding built_dims by blast
  have "spare (wm_pes w' (0, 1)) = 3" using r(3-5) by (simp add: holds_def)
  with r(1,2) show ?thesis by blast
qed

theorem mesh_multiplies_witness:
  "\<exists>w2 cs2 ports2. mesh_run wk_data InPort (\<lambda>_ ps. ps) (\<lambda>_ _. None) (row_stream (\<lambda>t i. new_package 4 (of_nat (t + i + 1)) IACTIVATION 0 MULTICAST) 1)
      3 (multiply False (1, 2, 2) ((built_mesh 16 2 2 InPort)\<lparr>wm_pes := (\<lambda>x. (wm_pes (built_mesh 16 2 2 InPort) x)\<lparr>ms_weight1 := 5, ms_prop := False\<rparr>)\<rparr>),
         \<lambda>_. new_connection 4, replicate 2 (new_connection 4)) = Some (w2, cs2, ports2) \<and>
    map wk_data (cn_data (ports2 ! 1)) = [15]"
proof -
  let ?v = "built_mesh 16 2 2 InPort" and ?c = "\<lambda>_ :: wire. new_connection 4 :: package connection"
    and ?X = "\<lambda>t i. new_package 4 (of_nat (t + i + 1)) IACTIVATION 0 MULTICAST"
  let ?w = "?v\<lparr>wm_pes := (\<lambda>x. (wm_pes ?v x)\<lparr>ms_weight1 := 5, ms_prop := False\<rparr>)\<rparr>"
  have dims: "wm_rows ?w = 2" "wm_cols ?w = 2" by (simp_all add: built_dims)
  have "idle InPort 0 ?v ?c" by (rule built_idle) simp
  then have idle: "idle InPort 0 ?w ?c" by (simp add: idle_def idle_pe_def pe_ok_def ms_lines_def)
  have W: "holds (\<lambda>_. 5) False ?w" by (simp add: holds_def active_def)
  have "\<exists>w1 cs1 ports1 w2 cs2 ports2.
    mesh_run wk_data InPort (\<lambda>_ ps. ps) (\<lambda>_ _. None) (row_stream ?X 1) 2 (multiply False (1, 2, 2) ?w, ?c, replicate 2 (new_connection 4)) =
      Some (w1, cs1, ports1) \<and>
    wm_rows w1 = wm_rows ?w \<and> wm_cols w1 = wm_cols ?w \<and> length ports1 = length (replicate 2 (new_connection 4 :: ws_package connection)) \<and>
    (1 + wm_rows ?w + wm_cols ?w \<le> Suc 2 \<longrightarrow> idle InPort (0 + of_nat 2) w1 cs1 \<and> holds (\<lambda>_. 5) False w1) \<and>
    mesh_run wk_data InPort (\<lambda>_ ps. ps) (\<lambda>_ _. None) (row_stream ?X 1) (Suc 2) (multiply False (1, 2, 2) ?w, ?c, replicate 2 (new_connection 4)) =
      Some (w2, cs2, ports2) \<and>
    (\<forall>j<wm_cols ?w. if of_nat j \<le> (2 :: u32) - 1 \<and> wm_rows ?w - 1 + (wm_cols ?w - 1) \<le> 2 \<and> 2 - (wm_rows ?w - 1 + (wm_cols ?w - 1)) < 1
       then cn_pending_data (ports2 ! j) \<and>
         map wk_data (cn_data (ports2 ! j)) = [\<Sum>k<wm_rows ?w. wk_data (?X (2 - (wm_rows ?w - 1 + (wm_cols ?w - 1))) k) * 5]
       else ports2 ! j = ports1 ! j)"
    by (rule mesh_multiplies [OF ports_ok idle W]) (simp_all add: built_dims)
  then obtain ps w2 cs2 ports2 where
    m: "mesh_run wk_data InPort (\<lambda>_ ps. ps) (\<lambda>_ _. None) (row_stream ?X 1) (Suc 2) (multiply False (1, 2, 2) ?w, ?c, replicate 2 (new_connection 4)) =
      Some (w2, cs2, ports2)" and
    o: "\<forall>j<2. if of_nat j \<le> (2 :: u32) - 1 \<and> 2 - 1 + (2 - 1) \<le> (2 :: nat) \<and> 2 - (2 - 1 + (2 - 1)) < (1 :: nat)
       then cn_pending_data (ports2 ! j) \<and> map wk_data (cn_data (ports2 ! j)) = [\<Sum>k<2. wk_data (?X (2 - (2 - 1 + (2 - 1))) k) * 5]
       else ports2 ! j = ps ! j"
    unfolding dims by blast
  have "map wk_data (cn_data (ports2 ! 1)) = [15]" using o [rule_format, of 1] by (simp add: lessThan_Suc numeral_2_eq_2)
  moreover have "Suc 2 = 3" by simp
  ultimately show ?thesis using m by metis
qed

theorem systolic_gemm_witness:
  "\<exists>w0 cs0 ports0 w1 cs1 ports1. mesh_run wk_data InPort (\<lambda>_ ps. ps) (row_stream (\<lambda>s j. new_package 4 (of_nat (s + 2 * j + 1)) WEIGHT 0 MULTICAST) 2)
      (\<lambda>_ _. None) 3 (wm_preload (built_mesh 16 2 2 InPort), \<lambda>_. new_connection 4, replicate 2 (new_connection 4)) = Some (w0, cs0, ports0) \<and>
    mesh_run wk_data InPort (\<lambda>_ ps. ps) (\<lambda>_ _. None) (row_stream (\<lambda>t i. new_package 4 (of_nat (t + i + 1)) IACTIVATION 0 MULTICAST) 1)
      3 (multiply True (1, 2, 2) w0, cs0, ports0) = Some (w1, cs1, ports1) \<and>
    map wk_data (cn_data (ports1 ! 0)) = [4] \<and> map wk_data (cn_data (ports1 ! 1)) = [10]"
proof -
  let ?V = "\<lambda>s j. new_package 4 (of_nat (s + 2 * j + 1)) WEIGHT 0 MULTICAST"
    and ?X = "\<lambda>t i. new_package 4 (of_nat (t + i + 1)) IACTIVATION 0 MULTICAST"
  have "\<exists>w0 cs0 ports0.
    mesh_run wk_data InPort (\<lambda>_ ps. ps) (row_stream ?V 2) (\<lambda>_ _. None) 3
      (wm_preload (built_mesh 16 2 2 InPort), \<lambda>_. new_connection 4, replicate 2 (new_connection 4)) = Some (w0, cs0, ports0) \<and>
    wm_weights_preloaded w0 \<and>
    (\<forall>s<1. \<exists>w1 cs1 ports1.
       mesh_run wk_data InPort (\<lambda>_ ps. ps) (\<lambda>_ _. None) (row_stream ?X 1) (s + (2 - 1) + (2 - 1) + 1) (multiply True (1, 2, 2) w0, cs0, ports0) =
         Some (w1, cs1, ports1) \<and>
       (\<forall>j<2. of_nat j \<le> (2 :: u32) - 1 \<longrightarrow> cn_pending_data (ports1 ! j) \<and>
         map wk_data (cn_data (ports1 ! j)) = [\<Sum>k<2. wk_data (?X s k) * wk_data (?V (2 - 1 - k) j)]))"
    by (rule systolic_gemm [OF ports_ok]) simp_all
  then obtain w0 cs0 ports0 where
    r: "mesh_run wk_data InPort (\<lambda>_ ps. ps) (row_stream ?V 2) (\<lambda>_ _. None) 3
      (wm_preload (built_mesh 16 2 2 InPort), \<lambda>_. new_connection 4, replicate 2 (new_connection 4)) = Some (w0, cs0, ports0)"
    and all: "\<And>s. s < 1 \<Longrightarrow> \<exists>w1 cs1 ports1.
       mesh_run wk_data InPort (\<lambda>_ ps. ps) (\<lambda>_ _. None) (row_stream ?X 1) (s + (2 - 1) + (2 - 1) + 1) (multiply True (1, 2, 2) w0, cs0, ports0) =
         Some (w1, cs1, ports1) \<and>
       (\<forall>j<2. of_nat j \<le> (2 :: u32) - 1 \<longrightarrow> cn_pending_data (ports1 ! j) \<and>
         map wk_data (cn_data (ports1 ! j)) = [\<Sum>k<2. wk_data (?X s k) * wk_data (?V (2 - 1 - k) j)])"
    by blast
  have three: "0 + (2 - 1) + (2 - 1) + 1 = (3 :: nat)" by simp
  from all [of 0] obtain w1 cs1 ports1 where
    m: "mesh_run wk_data InPort (\<lambda>_ ps. ps) (\<lambda>_ _. None) (row_stream ?X 1) 3 (multiply True (1, 2, 2) w0, cs0, ports0) = Some (w1, cs1, ports1)"
    and o: "\<And>j. j < 2 \<Longrightarrow> of_nat j \<le> (2 :: u32) - 1 \<Longrightarrow>
       map wk_data (cn_data (ports1 ! j)) = [\<Sum>k<2. wk_data (?X 0 k) * wk_data (?V (2 - 1 - k) j)]"
    unfolding three by auto
  have "map wk_data (cn_data (ports1 ! 0)) = [4]" "map wk_data (cn_data (ports1 ! 1)) = [10]"
    using o [of 0] o [of 1] by (simp_all add: lessThan_Suc numeral_2_eq_2)
  then show ?thesis using r m by (intro exI conjI)
qed

end
