(* ===== verification/SAController.thy ===== *)
theory SAController
  imports SAQueue DMAEngine AccBuffer
begin

text \<open>
  The accelerator controller: \<open>sim/src/SA/SAController.cpp\<close> and \<open>sim/include/SA/SAController.h\<close>,
  the cycle of the accelerator (\<open>Stonne::cycle\<close>) and the path by which the core sends it commands
  (\<open>Core::cosim_issue\<close>).  Commands go from the instruction queue into the reorder buffer and a
  queue of their kind, from there into a controller, and execute on the array, on the DMA engine or
  as a fence; they retire in order.

  The array and its memory controller are used through their abstract classes
  \<open>MultiplierNetwork\<close> and \<open>MemoryController\<close>; record \<open>sa_env\<close> has one field per virtual
  method called, over a state \<open>'n\<close> for both.
\<close>

section \<open>Interfaces of the array\<close>

record 'n sa_env =
  en_weights_preloaded :: "'n \<Rightarrow> bool"
  en_reset_weights_preloaded :: "'n \<Rightarrow> 'n"
  en_reset_fifos :: "'n \<Rightarrow> 'n"
  en_is_compute_finished :: "'n \<Rightarrow> bool"
  en_psums_received :: "'n \<Rightarrow> bool"
  en_reset_psums_received :: "'n \<Rightarrow> 'n"
  en_has_array_flipped :: "'n \<Rightarrow> bool"
  en_preload :: "'n \<Rightarrow> 'n"
  en_MatrixMultiply :: "u32 \<Rightarrow> u32 \<Rightarrow> u32 \<Rightarrow> 'n \<Rightarrow> 'n"
  en_MatrixMultiplyStay :: "u32 \<Rightarrow> u32 \<Rightarrow> u32 \<Rightarrow> 'n \<Rightarrow> 'n"
  en_MatrixMultiplyFlip :: "u32 \<Rightarrow> u32 \<Rightarrow> u32 \<Rightarrow> 'n \<Rightarrow> 'n"
  en_setActivationLimit :: "u32 \<Rightarrow> 'n \<Rightarrow> 'n"
  en_msnet_cycle :: "'n \<times> ws_package connection list \<Rightarrow> 'n \<times> ws_package connection list"
  en_dsnet_cycle :: "'n \<Rightarrow> 'n"
  en_mem_is_idle :: "'n \<Rightarrow> bool"
  en_mem_get_command :: "'n \<Rightarrow> nat option"
  en_mem_reset_compute_finished :: "'n \<Rightarrow> 'n"
  en_mem_preload :: "u32 \<Rightarrow> u32 \<Rightarrow> u32 \<Rightarrow> nat \<Rightarrow> 'n \<Rightarrow> 'n"
  en_mem_MatrixMultiply :: "command \<Rightarrow> nat \<Rightarrow> 'n \<Rightarrow> 'n"
  en_mem_config :: "command \<Rightarrow> 'n \<Rightarrow> 'n"
  en_mem_cycle :: "'n \<Rightarrow> 'n"

section \<open>State\<close>

text \<open>
  The members of \<open>SAController\<close>, followed by what its pointers reach: the commands, the
  accumulation buffer, the array, the transactions, the L2 cache, and the instructions set to
  \<open>FINISHED\<close> on retirement.
\<close>

record 'n sa =
  sa_load_queue :: base_queue
  sa_store_queue :: base_queue
  sa_exe_queue :: base_queue
  sa_load_contlr :: base_queue
  sa_store_contlr :: base_queue
  sa_exe_contlr :: base_queue
  sa_rob :: rob
  sa_inst_queue :: base_queue
  sa_local_cycle :: u32
  sa_fu_idle :: "operation_type \<Rightarrow> bool"
  sa_dataflow :: dataflow_type
  sa_preloads :: "nat list"
  sa_mms :: "nat list"
  sa_fence_active :: bool
  sa_fence_cmd :: "nat option"
  sa_preloading :: bool
  sa_dma :: dma_engine
  sa_performing_mm :: bool
  sa_max_load_dma :: int
  sa_max_store_dma :: int
  sa_exe_cycle :: u64
  sa_ld_cycle :: u64
  sa_st_cycle :: u64
  sa_ld_st_cycle :: u64
  sa_cmds :: cmd_store
  sa_ab :: acc_buffer
  sa_net :: 'n
  sa_txns :: txn_store
  sa_l2 :: cache
  sa_finished :: "nat list"

definition new_rob :: "int \<Rightarrow> int \<Rightarrow> rob" where
  "new_rob n width = \<lparr>rb_queue = new_queue n, rb_commit_width = width, rb_commit_seq_num = 0,
     rb_cmd_commit = False, rb_local_cycle = 0\<rparr>"

definition new_sa :: "dataflow_type \<Rightarrow> cmd_store \<Rightarrow> acc_buffer \<Rightarrow> 'n \<Rightarrow> txn_store \<Rightarrow> cache \<Rightarrow> 'n sa" where
  "new_sa dataflow cs ab net m l2 =
     \<lparr>sa_load_queue = new_queue 8, sa_store_queue = new_queue 2, sa_exe_queue = new_queue 8,
      sa_load_contlr = new_queue 8, sa_store_contlr = new_queue 4, sa_exe_contlr = new_queue 16,
      sa_rob = new_rob 48 1, sa_inst_queue = new_queue 2, sa_local_cycle = 0,
      sa_fu_idle = (\<lambda>_. True), sa_dataflow = dataflow, sa_preloads = [], sa_mms = [],
      sa_fence_active = False, sa_fence_cmd = None, sa_preloading = False, sa_dma = new_dma,
      sa_performing_mm = False, sa_max_load_dma = 0, sa_max_store_dma = 0,
      sa_exe_cycle = 0, sa_ld_cycle = 0, sa_st_cycle = 0, sa_ld_st_cycle = 0,
      sa_cmds = cs, sa_ab = ab, sa_net = net, sa_txns = m, sa_l2 = l2, sa_finished = []\<rparr>"

section \<open>Guards\<close>

definition can_receive :: "'n sa \<Rightarrow> bool" where
  "can_receive s \<longleftrightarrow> \<not> bq_is_full (sa_inst_queue s)"

definition can_dispatch :: "'n sa \<Rightarrow> nat \<Rightarrow> bool" where
  "can_dispatch s c =
     (if bq_is_full (rb_queue (sa_rob s)) then False
      else case cm_type (sa_cmds s c) of
        LOAD \<Rightarrow> \<not> bq_is_full (sa_load_queue s)
      | LOAD_ACC \<Rightarrow> \<not> bq_is_full (sa_load_queue s)
      | STORE \<Rightarrow> \<not> bq_is_full (sa_store_queue s)
      | EXE \<Rightarrow> \<not> bq_is_full (sa_exe_queue s))"

definition can_issue :: "'n sa \<Rightarrow> nat \<Rightarrow> bool" where
  "can_issue s c \<longleftrightarrow> cmd_is_ready (sa_cmds s) c \<and> cm_status (sa_cmds s c) = COSIM_WAITING"

definition can_execute :: "'n sa_env \<Rightarrow> 'n sa \<Rightarrow> nat \<Rightarrow> bool" where
  "can_execute E s c =
     (let op0 = cm_op (sa_cmds s c) in
      if op0 = PRELOAD then sa_fu_idle s op0 \<and> en_has_array_flipped E (sa_net s)
      else if op0 = MATRIX_MULTIPLY \<or> op0 = MATRIX_MULTIPLY_FLIP
      then en_has_array_flipped E (sa_net s) \<and> en_mem_is_idle E (sa_net s)
      else if op0 = MOVE_IN \<or> op0 = MOVE_IN_ACC then sa_max_load_dma s < 2
      else if op0 = MOVE_OUT then sa_max_store_dma s < 2
      else sa_fu_idle s op0)"

definition can_release_fence :: "'n sa \<Rightarrow> bool" where
  "can_release_fence s \<longleftrightarrow>
     bq_is_empty (sa_load_queue s) \<and> bq_is_empty (sa_store_queue s) \<and> bq_is_empty (sa_exe_queue s) \<and>
     bq_is_empty (sa_load_contlr s) \<and> bq_is_empty (sa_store_contlr s) \<and> bq_is_empty (sa_exe_contlr s) \<and>
     sa_preloads s = [] \<and> sa_mms s = [] \<and> \<not> has_inflight (sa_dma s)"

definition is_execution_finished :: "'n sa \<Rightarrow> bool" where
  "is_execution_finished s \<longleftrightarrow>
     bq_is_empty (sa_inst_queue s) \<and> bq_is_empty (sa_load_queue s) \<and>
     bq_is_empty (sa_store_queue s) \<and> bq_is_empty (sa_exe_queue s) \<and>
     bq_is_empty (sa_load_contlr s) \<and> bq_is_empty (sa_store_contlr s) \<and>
     bq_is_empty (sa_exe_contlr s) \<and> bq_is_empty (rb_queue (sa_rob s))"

section \<open>Reception, dispatch and issue\<close>

definition sa_receive :: "nat \<Rightarrow> 'n sa \<Rightarrow> 'n sa option" where
  "sa_receive c s = do { q \<leftarrow> bq_insert c (sa_inst_queue s); Some (s\<lparr>sa_inst_queue := q\<rparr>) }"

definition upd_status :: "nat \<Rightarrow> command_status \<Rightarrow> 'n sa \<Rightarrow> 'n sa" where
  "upd_status c st s = s\<lparr>sa_cmds := update_status c st (sa_cmds s)\<rparr>"

definition dispatch_cmd :: "nat \<Rightarrow> 'n sa \<Rightarrow> 'n sa option" where
  "dispatch_cmd c s0 =
     (let s = s0\<lparr>sa_cmds := build_data_dep c (sa_rob s0) (sa_cmds s0)\<rparr> in
      do { rq \<leftarrow> bq_insert c (rb_queue (sa_rob s));
           let s1 = s\<lparr>sa_rob := (sa_rob s)\<lparr>rb_queue := rq\<rparr>\<rparr>;
           case cm_type (sa_cmds s1 c) of
             LOAD \<Rightarrow> do { q \<leftarrow> bq_insert c (sa_load_queue s1); Some (s1\<lparr>sa_load_queue := q\<rparr>) }
           | LOAD_ACC \<Rightarrow> do { q \<leftarrow> bq_insert c (sa_load_queue s1); Some (s1\<lparr>sa_load_queue := q\<rparr>) }
           | STORE \<Rightarrow> do { q \<leftarrow> bq_insert c (sa_store_queue s1); Some (s1\<lparr>sa_store_queue := q\<rparr>) }
           | EXE \<Rightarrow> do { q \<leftarrow> bq_insert c (sa_exe_queue s1); Some (s1\<lparr>sa_exe_queue := q\<rparr>) } })"

definition sa_dispatch :: "'n sa \<Rightarrow> 'n sa option" where
  "sa_dispatch s =
     (if bq_is_empty (sa_inst_queue s) then Some s
      else if sa_fence_active s then Some s
      else let c = hd (bq_list (sa_inst_queue s)) in
        if can_dispatch s c
        then do { s1 \<leftarrow> dispatch_cmd c (upd_status c COSIM_WAITING s);
                  let s2 = s1\<lparr>sa_inst_queue := bq_pop_front (sa_inst_queue s1)\<rparr>;
                  Some (if cm_op (sa_cmds s2 c) = FENCE then s2\<lparr>sa_fence_active := True\<rparr> else s2) }
        else Some s)"

definition issue_cmd :: "nat \<Rightarrow> 'n sa \<Rightarrow> 'n sa option" where
  "issue_cmd c s =
     (case cm_type (sa_cmds s c) of
        LOAD \<Rightarrow> do { q \<leftarrow> bq_insert c (sa_load_contlr s); Some (s\<lparr>sa_load_contlr := q\<rparr>) }
      | LOAD_ACC \<Rightarrow> do { q \<leftarrow> bq_insert c (sa_load_contlr s); Some (s\<lparr>sa_load_contlr := q\<rparr>) }
      | STORE \<Rightarrow> do { q \<leftarrow> bq_insert c (sa_store_contlr s); Some (s\<lparr>sa_store_contlr := q\<rparr>) }
      | EXE \<Rightarrow> do { q \<leftarrow> bq_insert c (sa_exe_contlr s); Some (s\<lparr>sa_exe_contlr := q\<rparr>) })"

definition issue_store :: "'n sa \<Rightarrow> 'n sa option" where
  "issue_store s =
     (if \<not> bq_is_empty (sa_store_queue s) \<and> \<not> bq_is_full (sa_store_contlr s)
      then do { c \<leftarrow> bq_get_cmd_at 0 (sa_store_queue s);
                if can_issue s c
                then do { s1 \<leftarrow> issue_cmd c (upd_status c COSIM_ISSUED s);
                          Some (s1\<lparr>sa_store_queue := bq_remove c (sa_store_queue s1)\<rparr>) }
                else Some s }
      else Some s)"

definition issue_load :: "'n sa \<Rightarrow> 'n sa option" where
  "issue_load s =
     (if \<not> bq_is_empty (sa_load_queue s) \<and> \<not> bq_is_full (sa_load_contlr s)
      then do { c \<leftarrow> bq_get_cmd_at 0 (sa_load_queue s);
                if can_issue s c
                then do { s1 \<leftarrow> issue_cmd c (upd_status c COSIM_ISSUED s);
                          Some (s1\<lparr>sa_load_queue := bq_remove c (sa_load_queue s1)\<rparr>) }
                else Some s }
      else Some s)"

definition issue_exe :: "'n sa \<Rightarrow> 'n sa option" where
  "issue_exe s =
     (if \<not> bq_is_empty (sa_exe_queue s) \<and> \<not> bq_is_full (sa_exe_contlr s)
      then do { c \<leftarrow> bq_get_cmd_at 0 (sa_exe_queue s);
                if can_issue s c
                then do { s1 \<leftarrow> issue_cmd c (upd_status c COSIM_ISSUED s);
                          Some (s1\<lparr>sa_exe_queue := bq_remove c (sa_exe_queue s1)\<rparr>) }
                else Some s }
      else Some s)"

definition sa_issue :: "'n sa \<Rightarrow> 'n sa option" where
  "sa_issue s = do { s1 \<leftarrow> issue_store s; s2 \<leftarrow> issue_load s1; issue_exe s2 }"

section \<open>Execution\<close>

definition complete_op :: "operation_type \<Rightarrow> 'n sa \<Rightarrow> 'n sa" where
  "complete_op op0 s = s\<lparr>sa_fu_idle := (sa_fu_idle s)(op0 := True)\<rparr>"

text \<open>\<open>cmd->set_done(); complete(cmd->get_op_type());\<close>\<close>

definition finish_cmd :: "nat \<Rightarrow> 'n sa \<Rightarrow> 'n sa" where
  "finish_cmd c s = complete_op (cm_op (sa_cmds s c)) (s\<lparr>sa_cmds := set_done c (sa_cmds s)\<rparr>)"

definition sa_submit :: "nat \<Rightarrow> bool \<Rightarrow> 'n sa \<Rightarrow> 'n sa option" where
  "sa_submit c is_read s =
     (let cmd = sa_cmds s c in
      do { (rid, m, e) \<leftarrow> dma_submit c (cm_op cmd) (cm_dram_addr cmd)
             (ucast (cm_rows cmd * cm_cols cmd * 1)) is_read (sa_local_cycle s) (sa_txns s, sa_dma s);
           Some (s\<lparr>sa_txns := m, sa_dma := e\<rparr>) })"

definition sa_load :: "nat \<Rightarrow> 'n sa \<Rightarrow> 'n sa option" where
  "sa_load c s = sa_submit c True (s\<lparr>sa_max_load_dma := sa_max_load_dma s + 1\<rparr>)"

definition sa_store :: "nat \<Rightarrow> 'n sa \<Rightarrow> 'n sa option" where
  "sa_store c s = sa_submit c False (s\<lparr>sa_max_store_dma := sa_max_store_dma s + 1\<rparr>)"

definition sa_MatrixMultiply :: "'n sa_env \<Rightarrow> nat \<Rightarrow> bool \<Rightarrow> 'n sa \<Rightarrow> 'n sa" where
  "sa_MatrixMultiply E c flip s =
     (let cmd = sa_cmds s c;
          n1 = en_mem_MatrixMultiply E cmd c (sa_net s);
          n2 = (if flip then en_MatrixMultiplyFlip E (cm_T_M cmd) (cm_T_K cmd) (cm_T_N cmd) n1
                else if cm_stay cmd then en_MatrixMultiplyStay E (cm_T_M cmd) (cm_T_K cmd) (cm_T_N cmd) n1
                else en_MatrixMultiply E (cm_T_M cmd) (cm_T_K cmd) (cm_T_N cmd) n1);
          ab = (if \<not> cm_stay cmd
                then ab_matrix_multiply (cm_T_M cmd) (cm_T_N cmd) (cm_offset_to_MN cmd) c (sa_ab s)
                else sa_ab s)
      in s\<lparr>sa_net := n2, sa_ab := ab\<rparr>)"

definition sa_Preload :: "'n sa_env \<Rightarrow> u32 \<Rightarrow> u32 \<Rightarrow> u32 \<Rightarrow> nat \<Rightarrow> 'n sa \<Rightarrow> 'n sa" where
  "sa_Preload E t_n t_k offset c s =
     s\<lparr>sa_net := en_preload E (en_mem_preload E t_n t_k offset c (sa_net s))\<rparr>"

definition configMem :: "'n sa_env \<Rightarrow> command \<Rightarrow> 'n sa \<Rightarrow> 'n sa" where
  "configMem E cmd s =
     s\<lparr>sa_net := en_setActivationLimit E
          (case sa_dataflow s of DATAFLOW_WS \<Rightarrow> cm_T_M cmd | DATAFLOW_OS \<Rightarrow> cm_T_K cmd)
          (en_mem_config E cmd (sa_net s)),
       sa_ab := ab_config (cm_MN_address cmd) (cm_M cmd) (cm_N cmd) (cm_T_M cmd) (cm_T_N cmd) (sa_ab s)\<rparr>"

definition execute_cmd :: "'n sa_env \<Rightarrow> nat \<Rightarrow> 'n sa \<Rightarrow> 'n sa option" where
  "execute_cmd E c s =
     (let cmd = sa_cmds s c in
      case cm_op cmd of
        FAKE \<Rightarrow> Some (finish_cmd c s)
      | FENCE \<Rightarrow> Some (s\<lparr>sa_fence_cmd := Some c, sa_fu_idle := (sa_fu_idle s)(FENCE := False)\<rparr>)
      | CONFIG \<Rightarrow> Some (finish_cmd c (configMem E cmd s))
      | PRELOAD \<Rightarrow>
          (let s1 = (case sa_dataflow s of
                       DATAFLOW_OS \<Rightarrow> sa_Preload E (cm_T_M cmd) (cm_T_N cmd) (cm_offset_to_MN cmd) c s
                     | DATAFLOW_WS \<Rightarrow> sa_Preload E (cm_T_N cmd) (cm_T_K cmd) (cm_offset_to_KN cmd) c s)
           in Some (s1\<lparr>sa_fu_idle := (sa_fu_idle s1)(PRELOAD := False), sa_preloading := True,
                       sa_preloads := sa_preloads s1 @ [c]\<rparr>))
      | MATRIX_MULTIPLY \<Rightarrow>
          (let s1 = sa_MatrixMultiply E c False s
           in Some (s1\<lparr>sa_fu_idle := (sa_fu_idle s1)(MATRIX_MULTIPLY := False),
                       sa_mms := sa_mms s1 @ [c], sa_performing_mm := True\<rparr>))
      | MATRIX_MULTIPLY_FLIP \<Rightarrow>
          (let s1 = sa_MatrixMultiply E c True s
           in Some (s1\<lparr>sa_fu_idle := (sa_fu_idle s1)(MATRIX_MULTIPLY_FLIP := False),
                       sa_mms := sa_mms s1 @ [c], sa_performing_mm := True\<rparr>))
      | _ \<Rightarrow> None)"

text \<open>The blocks of \<open>SAController::execute()\<close>, in its order.\<close>

definition exec_weights :: "'n sa_env \<Rightarrow> 'n sa \<Rightarrow> 'n sa option" where
  "exec_weights E s =
     (if sa_dataflow s = DATAFLOW_WS \<and> en_weights_preloaded E (sa_net s)
      then case sa_preloads s of
             [] \<Rightarrow> Some (s\<lparr>sa_net := en_reset_weights_preloaded E (sa_net s)\<rparr>)
           | c # cs \<Rightarrow>
               (let s1 = finish_cmd c (s\<lparr>sa_preloads := cs\<rparr>)
                in Some (s1\<lparr>sa_preloading := False, sa_net := en_reset_weights_preloaded E (sa_net s1)\<rparr>))
      else Some s)"

definition remove_tracked_mm_cmd :: "nat \<Rightarrow> 'n sa \<Rightarrow> 'n sa option" where
  "remove_tracked_mm_cmd target s =
     (case sa_mms s of [] \<Rightarrow> None
      | c # cs \<Rightarrow> Some (if c = target then s\<lparr>sa_mms := cs\<rparr> else s))"

definition exec_psums_ws :: "'n sa_env \<Rightarrow> 'n sa \<Rightarrow> 'n sa option" where
  "exec_psums_ws E s =
     (if sa_dataflow s = DATAFLOW_WS \<and> is_psums_accumulated (sa_ab s)
      then case get_head_command (sa_ab s) of
             None \<Rightarrow> Some s
           | Some c \<Rightarrow>
               (let s1 = finish_cmd c s;
                    s2 = s1\<lparr>sa_ab := reset_psums_accumulated (sa_ab s1), sa_net := en_reset_fifos E (sa_net s1)\<rparr>
                in do { s3 \<leftarrow> remove_tracked_mm_cmd c s2; Some (s3\<lparr>sa_performing_mm := False\<rparr>) })
      else Some s)"

definition exec_mm_os :: "'n sa_env \<Rightarrow> 'n sa \<Rightarrow> 'n sa option" where
  "exec_mm_os E s =
     (if sa_dataflow s = DATAFLOW_OS
      then case sa_mms s of
             [] \<Rightarrow> Some s
           | c # cs \<Rightarrow>
               if cm_stay (sa_cmds s c)
               then if en_is_compute_finished E (sa_net s)
                    then Some ((finish_cmd c s)\<lparr>sa_mms := cs, sa_performing_mm := False\<rparr>)
                    else Some s
               else if is_psums_accumulated (sa_ab s)
               then do { h \<leftarrow> get_head_command (sa_ab s);
                         Some (if h = c
                               then (finish_cmd c s)\<lparr>sa_ab := reset_psums_accumulated (sa_ab s),
                                      sa_mms := cs, sa_performing_mm := False\<rparr>
                               else s) }
               else Some s
      else Some s)"

definition exec_psums_os :: "'n sa_env \<Rightarrow> 'n sa \<Rightarrow> 'n sa option" where
  "exec_psums_os E s =
     (if sa_dataflow s = DATAFLOW_OS \<and> en_psums_received E (sa_net s)
      then case en_mem_get_command E (sa_net s) of
             None \<Rightarrow> Some s
           | Some c \<Rightarrow>
               (let s1 = finish_cmd c s;
                    s2 = s1\<lparr>sa_net := en_mem_reset_compute_finished E (en_reset_psums_received E (sa_net s1))\<rparr>
                in case sa_preloads s2 of
                     [] \<Rightarrow> None
                   | front # cs \<Rightarrow> do { assert_that (front = c); Some (s2\<lparr>sa_preloads := cs\<rparr>) })
      else Some s)"

definition exec_exe :: "'n sa_env \<Rightarrow> 'n sa \<Rightarrow> 'n sa option" where
  "exec_exe E s =
     (if bq_is_empty (sa_exe_contlr s) then Some s
      else do { c \<leftarrow> bq_get_cmd_at 0 (sa_exe_contlr s);
                if can_execute E s c
                then do { assert_that (cmd_is_ready (sa_cmds s) c);
                          s1 \<leftarrow> execute_cmd E c (upd_status c COSIM_EXECUTING s);
                          Some (s1\<lparr>sa_exe_contlr := bq_remove c (sa_exe_contlr s1)\<rparr>) }
                else Some s })"

definition exec_load :: "'n sa_env \<Rightarrow> 'n sa \<Rightarrow> 'n sa option" where
  "exec_load E s =
     (if bq_is_empty (sa_load_contlr s) then Some s
      else do { c \<leftarrow> bq_get_cmd_at 0 (sa_load_contlr s);
                if can_execute E s c
                then do { assert_that (cmd_is_ready (sa_cmds s) c);
                          s1 \<leftarrow> sa_load c (upd_status c COSIM_EXECUTING s);
                          Some (s1\<lparr>sa_load_contlr := bq_remove c (sa_load_contlr s1)\<rparr>) }
                else Some s })"

definition exec_store :: "'n sa_env \<Rightarrow> 'n sa \<Rightarrow> 'n sa option" where
  "exec_store E s =
     (if bq_is_empty (sa_store_contlr s) then Some s
      else do { c \<leftarrow> bq_get_cmd_at 0 (sa_store_contlr s);
                if can_execute E s c
                then do { assert_that (cmd_is_ready (sa_cmds s) c);
                          s1 \<leftarrow> sa_store c (upd_status c COSIM_EXECUTING s);
                          Some (s1\<lparr>sa_store_contlr := bq_remove c (sa_store_contlr s1)\<rparr>) }
                else Some s })"

definition sa_execute :: "'n sa_env \<Rightarrow> 'n sa \<Rightarrow> 'n sa option" where
  "sa_execute E s =
     do { s1 \<leftarrow> exec_weights E s; s2 \<leftarrow> exec_psums_ws E s1; s3 \<leftarrow> exec_mm_os E s2;
          s4 \<leftarrow> exec_psums_os E s3; s5 \<leftarrow> exec_exe E s4; s6 \<leftarrow> exec_load E s5; exec_store E s6 }"

section \<open>Commit, fences and the cycle\<close>

definition sa_commit :: "'n sa \<Rightarrow> 'n sa" where
  "sa_commit s =
     (let (cs, r, lg) = rob_commit (sa_cmds s, sa_rob s)
      in s\<lparr>sa_cmds := cs, sa_rob := r, sa_finished := sa_finished s @ cl_finished lg\<rparr>)"

definition try_complete_fence :: "'n sa \<Rightarrow> 'n sa" where
  "try_complete_fence s =
     (case sa_fence_cmd s of
        None \<Rightarrow> s
      | Some c \<Rightarrow>
          if can_release_fence s
          then (complete_op FENCE (s\<lparr>sa_cmds := set_done c (sa_cmds s)\<rparr>))
                 \<lparr>sa_fence_cmd := None, sa_fence_active := False\<rparr>
          else s)"

text \<open>The loop over \<open>take_completed()\<close>; the engine never holds a null command.\<close>

fun retire_dma :: "nat list \<Rightarrow> 'n sa \<Rightarrow> 'n sa option" where
  "retire_dma [] s = Some s"
| "retire_dma (c # cs) s =
     (let s1 = finish_cmd c s in
      case cm_type (sa_cmds s1 c) of
        LOAD \<Rightarrow> retire_dma cs (s1\<lparr>sa_max_load_dma := sa_max_load_dma s1 - 1\<rparr>)
      | LOAD_ACC \<Rightarrow> retire_dma cs (s1\<lparr>sa_max_load_dma := sa_max_load_dma s1 - 1\<rparr>)
      | STORE \<Rightarrow> retire_dma cs (s1\<lparr>sa_max_store_dma := sa_max_store_dma s1 - 1\<rparr>)
      | EXE \<Rightarrow> None)"

definition count_cycle :: "'n sa \<Rightarrow> 'n sa" where
  "count_cycle s =
     (if length (sa_mms s) \<ge> 1 then s\<lparr>sa_exe_cycle := sa_exe_cycle s + 1\<rparr>
      else if sa_max_load_dma s > 0 \<and> sa_max_store_dma s > 0 then s\<lparr>sa_ld_st_cycle := sa_ld_st_cycle s + 1\<rparr>
      else if sa_max_load_dma s > 0 then s\<lparr>sa_ld_cycle := sa_ld_cycle s + 1\<rparr>
      else if sa_max_store_dma s > 0 then s\<lparr>sa_st_cycle := sa_st_cycle s + 1\<rparr>
      else s)"

definition run_dma :: "'n sa \<Rightarrow> 'n sa option" where
  "run_dma s =
     do { (l2, e) \<leftarrow> dma_cycle (sa_local_cycle s - 1) (sa_txns s, sa_l2 s, sa_dma s);
          let (cs, e1) = take_completed e;
          retire_dma cs (s\<lparr>sa_l2 := l2, sa_dma := e1\<rparr>) }"

definition sa_cycle :: "'n sa_env \<Rightarrow> 'n sa \<Rightarrow> 'n sa option" where
  "sa_cycle E s =
     do { let s0 = count_cycle s;
          s1 \<leftarrow> run_dma (s0\<lparr>sa_local_cycle := sa_local_cycle s0 + 1\<rparr>);
          s2 \<leftarrow> sa_execute E (sa_commit s1);
          s3 \<leftarrow> sa_issue (try_complete_fence s2);
          sa_dispatch s3 }"

text \<open>\<open>Stonne::cycle\<close>: the array sends its results to the ports of the accumulation buffer.\<close>

definition stonne_cycle :: "'n sa_env \<Rightarrow> 'n sa \<Rightarrow> 'n sa option" where
  "stonne_cycle E s =
     do { s1 \<leftarrow> sa_cycle E s;
          let s2 = s1\<lparr>sa_net := en_mem_cycle E (sa_net s1)\<rparr>;
          ab \<leftarrow> ab_cycle (sa_ab s2);
          let (n, ports) = en_msnet_cycle E (sa_net s2, ab_ports ab);
          Some (s2\<lparr>sa_net := en_dsnet_cycle E n, sa_ab := ab\<lparr>ab_ports := ports\<rparr>\<rparr>) }"

section \<open>Commands from the core\<close>

text \<open>The fields of a dynamic instruction that \<open>cosim_issue\<close> reads.\<close>

record cosim_insn =
  ci_insn :: nat
  ci_dyn_id :: u64
  ci_is_cosim_func :: bool
  ci_is_config :: bool
  ci_is_fence :: bool
  ci_is_mm :: bool
  ci_is_mm_stay :: bool
  ci_is_mm_flip :: bool
  ci_is_preload :: bool
  ci_is_mvin :: bool
  ci_is_mvout :: bool
  ci_is_mvin_acc :: bool
  ci_is_fake :: bool
  ci_T_N :: u32
  ci_T_K :: u32
  ci_T_M :: u32
  ci_N :: u32
  ci_K :: u32
  ci_M :: u32
  ci_addr_MK :: u64
  ci_addr_KN :: u64
  ci_addr_MN :: u64
  ci_MK_offset :: u32
  ci_MN_offset :: u32
  ci_KN_offset :: u32
  ci_sp_a_addr :: u64
  ci_sp_b_addr :: u64
  ci_sp_c_addr :: u64
  ci_dram :: u64
  ci_sp :: u64
  ci_cols :: u32
  ci_rows :: u32

definition exe_params :: "cosim_insn \<Rightarrow> command \<Rightarrow> command" where
  "exe_params i = set_params_exe (ci_T_N i) (ci_T_K i) (ci_T_M i) (ci_MK_offset i) (ci_MN_offset i)
     (ci_KN_offset i) (ci_sp_a_addr i) (ci_sp_b_addr i) (ci_sp_c_addr i)"

definition move_params :: "cosim_insn \<Rightarrow> command \<Rightarrow> command" where
  "move_params i = set_params_move (ci_dram i) (ci_sp i) (ci_cols i) (ci_rows i)"

definition cosim_command :: "cosim_insn \<Rightarrow> command option" where
  "cosim_command i =
     (let new = (\<lambda>ty op0. new_command (ci_dyn_id i) ty op0 (Some (ci_insn i))) in
      if ci_is_config i
      then Some (set_params_config (ci_T_N i) (ci_T_K i) (ci_T_M i) (ci_addr_MK i) (ci_addr_KN i)
                  (ci_addr_MN i) (ci_N i) (ci_K i) (ci_M i) (new EXE CONFIG))
      else if ci_is_fence i then Some (new EXE FENCE)
      else if ci_is_mm i then Some ((exe_params i (new EXE MATRIX_MULTIPLY))\<lparr>cm_stay := False\<rparr>)
      else if ci_is_mm_stay i then Some ((exe_params i (new EXE MATRIX_MULTIPLY))\<lparr>cm_stay := True\<rparr>)
      else if ci_is_mm_flip i then Some (exe_params i (new EXE MATRIX_MULTIPLY_FLIP))
      else if ci_is_preload i then Some (exe_params i (new EXE PRELOAD))
      else if ci_is_mvin i then Some (move_params i (new LOAD MOVE_IN))
      else if ci_is_mvout i then Some (move_params i (new STORE MOVE_OUT))
      else if ci_is_mvin_acc i then Some (move_params i (new LOAD_ACC MOVE_IN_ACC))
      else if ci_is_fake i then Some (new EXE FAKE)
      else None)"

text \<open>
  \<open>cosim_issue\<close>: the command is allocated at \<open>p\<close> and received.  The core's counters of commands
  are left out.
\<close>

definition cosim_issue :: "cosim_insn \<Rightarrow> nat \<Rightarrow> 'n sa \<Rightarrow> 'n sa option" where
  "cosim_issue i p s =
     (if ci_is_cosim_func i
      then do { cmd \<leftarrow> cosim_command i; sa_receive p (s\<lparr>sa_cmds := (sa_cmds s)(p := cmd)\<rparr>) }
      else Some s)"

end
