(* ===== verification/SASafety.thy ===== *)
theory SASafety
  imports SAController
begin

text \<open>
  What the accelerator controller of theory \<open>SAController\<close> keeps: every command of the reorder
  buffer is in exactly the place its status and kind say, the controller refines the scoreboard of
  theory \<open>SAQueue\<close>, a fence separates what is older from what is younger, and no assertion of the
  controller can fail.
\<close>

section \<open>Places\<close>

definition is_ld :: "command_type \<Rightarrow> operation_type \<Rightarrow> bool" where
  "is_ld t op0 \<longleftrightarrow> t = LOAD \<or> t = LOAD_ACC"

definition is_st :: "command_type \<Rightarrow> operation_type \<Rightarrow> bool" where
  "is_st t op0 \<longleftrightarrow> t = STORE"

definition is_mv :: "command_type \<Rightarrow> operation_type \<Rightarrow> bool" where
  "is_mv t op0 \<longleftrightarrow> t \<noteq> EXE"

definition is_ex :: "operation_type set \<Rightarrow> command_type \<Rightarrow> operation_type \<Rightarrow> bool" where
  "is_ex ops t op0 \<longleftrightarrow> t = EXE \<and> op0 \<in> ops"

definition mm_ops :: "operation_type set" where
  "mm_ops = {MATRIX_MULTIPLY, MATRIX_MULTIPLY_FLIP}"

text \<open>The commands of \<open>R\<close> with a status and of a kind.\<close>

definition at :: "cmd_store \<Rightarrow> nat set \<Rightarrow> command_status \<Rightarrow> (command_type \<Rightarrow> operation_type \<Rightarrow> bool) \<Rightarrow> nat set" where
  "at cs R st P = {c \<in> R. cm_status (cs c) = st \<and> P (cm_type (cs c)) (cm_op (cs c))}"

definition sa_parts :: "cmd_store \<Rightarrow> nat set \<Rightarrow> nat set \<Rightarrow> nat set \<Rightarrow> nat set \<Rightarrow> nat set \<Rightarrow> nat set \<Rightarrow> nat set \<Rightarrow>
    nat set \<Rightarrow> nat set \<Rightarrow> nat set \<Rightarrow> nat set \<Rightarrow> bool" where
  "sa_parts cs R lq sq xq lc sc xc pre mm fen live \<longleftrightarrow>
     lq = at cs R COSIM_WAITING is_ld \<and> sq = at cs R COSIM_WAITING is_st \<and>
     xq = at cs R COSIM_WAITING (is_ex UNIV) \<and>
     lc = at cs R COSIM_ISSUED is_ld \<and> sc = at cs R COSIM_ISSUED is_st \<and>
     xc = at cs R COSIM_ISSUED (is_ex UNIV) \<and>
     pre = at cs R COSIM_EXECUTING (is_ex {PRELOAD}) \<and> mm = at cs R COSIM_EXECUTING (is_ex mm_ops) \<and>
     fen = at cs R COSIM_EXECUTING (is_ex {FENCE}) \<and> live = at cs R COSIM_EXECUTING is_mv \<and>
     at cs R COSIM_EXECUTING (is_ex (- ({PRELOAD, FENCE} \<union> mm_ops))) = {} \<and>
     (\<forall>c\<in>R. cm_status (cs c) \<in> {COSIM_WAITING, COSIM_ISSUED, COSIM_EXECUTING, COSIM_FINISHED})"

lemmas kind_defs = is_ld_def is_st_def is_mv_def is_ex_def mm_ops_def

lemma update_status_simps [simp]:
  "cm_status (update_status c st cs x) = (if x = c then st else cm_status (cs x))"
  "cm_type (update_status c st cs x) = cm_type (cs x)" "cm_op (update_status c st cs x) = cm_op (cs x)"
  "cm_stay (update_status c st cs x) = cm_stay (cs x)"
  by (auto simp: update_status_def upd_cmd_def)

lemma set_done_status: "set_done c = update_status c COSIM_FINISHED"
  by (simp add: set_done_def update_status_def fun_eq_iff)

lemma at_upd:
  "c \<in> R \<Longrightarrow> at (update_status c st' cs) R st P =
    (if st = st' \<and> P (cm_type (cs c)) (cm_op (cs c)) then insert c (at cs R st P) else at cs R st P - {c})"
  by (auto simp: at_def)

lemma at_not: "\<not> (cm_status (cs c) = st \<and> P (cm_type (cs c)) (cm_op (cs c))) \<Longrightarrow> at cs R st P - {c} = at cs R st P"
  by (auto simp: at_def)

lemma at_yes: "c \<in> at cs R st P \<longleftrightarrow> c \<in> R \<and> cm_status (cs c) = st \<and> P (cm_type (cs c)) (cm_op (cs c))"
  by (simp add: at_def)

lemma parts_issue:
  assumes "sa_parts cs R lq sq xq lc sc xc pre mm fen live"
  shows "c \<in> lq \<Longrightarrow> sa_parts (update_status c COSIM_ISSUED cs) R (lq - {c}) sq xq (insert c lc) sc xc pre mm fen live"
    "c \<in> sq \<Longrightarrow> sa_parts (update_status c COSIM_ISSUED cs) R lq (sq - {c}) xq lc (insert c sc) xc pre mm fen live"
    "c \<in> xq \<Longrightarrow> sa_parts (update_status c COSIM_ISSUED cs) R lq sq (xq - {c}) lc sc (insert c xc) pre mm fen live"
  using assms by (auto simp: sa_parts_def at_yes at_upd at_not kind_defs)

lemma parts_execute:
  assumes "sa_parts cs R lq sq xq lc sc xc pre mm fen live"
  shows "c \<in> lc \<Longrightarrow> sa_parts (update_status c COSIM_EXECUTING cs) R lq sq xq (lc - {c}) sc xc pre mm fen (insert c live)"
    "c \<in> sc \<Longrightarrow> sa_parts (update_status c COSIM_EXECUTING cs) R lq sq xq lc (sc - {c}) xc pre mm fen (insert c live)"
    "c \<in> xc \<Longrightarrow> cm_op (cs c) = PRELOAD \<Longrightarrow>
      sa_parts (update_status c COSIM_EXECUTING cs) R lq sq xq lc sc (xc - {c}) (insert c pre) mm fen live"
    "c \<in> xc \<Longrightarrow> cm_op (cs c) \<in> mm_ops \<Longrightarrow>
      sa_parts (update_status c COSIM_EXECUTING cs) R lq sq xq lc sc (xc - {c}) pre (insert c mm) fen live"
    "c \<in> xc \<Longrightarrow> cm_op (cs c) = FENCE \<Longrightarrow>
      sa_parts (update_status c COSIM_EXECUTING cs) R lq sq xq lc sc (xc - {c}) pre mm (insert c fen) live"
    "c \<in> xc \<Longrightarrow> sa_parts (update_status c COSIM_FINISHED cs) R lq sq xq lc sc (xc - {c}) pre mm fen live"
  using assms by (auto simp: sa_parts_def at_yes at_upd at_not kind_defs)

lemma parts_finish:
  assumes "sa_parts cs R lq sq xq lc sc xc pre mm fen live"
  shows "c \<in> pre \<Longrightarrow> sa_parts (set_done c cs) R lq sq xq lc sc xc (pre - {c}) mm fen live"
    "c \<in> mm \<Longrightarrow> sa_parts (set_done c cs) R lq sq xq lc sc xc pre (mm - {c}) fen live"
    "c \<in> fen \<Longrightarrow> sa_parts (set_done c cs) R lq sq xq lc sc xc pre mm (fen - {c}) live"
    "c \<in> live \<Longrightarrow> sa_parts (set_done c cs) R lq sq xq lc sc xc pre mm fen (live - {c})"
  using assms by (auto simp: sa_parts_def at_yes at_upd at_not kind_defs set_done_status)

text \<open>Changes that keep status and kind, arrivals and retirements.\<close>

definition same_kind :: "command \<Rightarrow> command \<Rightarrow> bool" where
  "same_kind c d \<longleftrightarrow> cm_type c = cm_type d \<and> cm_op c = cm_op d \<and> cm_stay c = cm_stay d \<and> cm_status c = cm_status d"

lemma same_kind_refl [simp]: "same_kind c c"
  by (simp add: same_kind_def)

lemma same_kind_trans: "same_kind c d \<Longrightarrow> same_kind d e \<Longrightarrow> same_kind c e"
  by (simp add: same_kind_def)

lemma at_cong: "\<forall>c\<in>R. same_kind (cs' c) (cs c) \<Longrightarrow> at cs' R = at cs R"
  by (auto simp: at_def same_kind_def fun_eq_iff)

lemma parts_cong:
  "\<forall>c\<in>R. same_kind (cs' c) (cs c) \<Longrightarrow> sa_parts cs' R = sa_parts cs R"
proof -
  assume k: "\<forall>c\<in>R. same_kind (cs' c) (cs c)"
  then have "\<forall>c\<in>R. cm_status (cs' c) = cm_status (cs c)" by (simp add: same_kind_def)
  then show ?thesis by (simp add: sa_parts_def at_cong [OF k] fun_eq_iff)
qed

lemma build_deps_kind: "same_kind (build_deps c ps cs x) (cs x)"
proof (induction ps arbitrary: cs)
  case (Cons p ps)
  have "same_kind (insert_child p c (insert_parent c p cs) x) (cs x)"
    by (simp add: insert_child_def insert_parent_def upd_cmd_def same_kind_def)
  with Cons.IH show ?case by (auto intro: same_kind_trans)
qed simp

lemma at_insert:
  "c \<notin> R \<Longrightarrow> at cs (insert c R) st P =
    (if cm_status (cs c) = st \<and> P (cm_type (cs c)) (cm_op (cs c)) then insert c (at cs R st P) else at cs R st P)"
  by (auto simp: at_def)

lemma parts_dispatch:
  assumes "sa_parts cs R lq sq xq lc sc xc pre mm fen live" "c \<notin> R" "cm_status (cs c) = COSIM_WAITING"
  shows "is_ld (cm_type (cs c)) op0 \<Longrightarrow> sa_parts cs (insert c R) (insert c lq) sq xq lc sc xc pre mm fen live"
    "cm_type (cs c) = STORE \<Longrightarrow> sa_parts cs (insert c R) lq (insert c sq) xq lc sc xc pre mm fen live"
    "cm_type (cs c) = EXE \<Longrightarrow> sa_parts cs (insert c R) lq sq (insert c xq) lc sc xc pre mm fen live"
  using assms by (auto simp: sa_parts_def at_insert kind_defs)

lemma parts_retire:
  assumes "sa_parts cs R lq sq xq lc sc xc pre mm fen live" "\<forall>c\<in>D. cm_status (cs c) = COSIM_FINISHED"
  shows "sa_parts cs (R - D) lq sq xq lc sc xc pre mm fen live"
proof -
  have "st \<noteq> COSIM_FINISHED \<Longrightarrow> at cs (R - D) st P = at cs R st P" for st P
    using assms(2) by (auto simp: at_def)
  then show ?thesis using assms(1) by (auto simp: sa_parts_def)
qed

lemma remove_parents_kind: "same_kind (fold (\<lambda>ch. remove_parent ch c) chs cs x) (cs x)"
proof (induction chs arbitrary: cs)
  case (Cons ch chs)
  have "same_kind (remove_parent ch c cs x) (cs x)"
    by (simp add: remove_parent_def upd_cmd_def same_kind_def)
  with Cons.IH show ?case by (auto intro: same_kind_trans)
qed simp

lemma commit_one_kind: "x \<noteq> c \<Longrightarrow> same_kind (fst (commit_one c (cs, r, lg)) x) (cs x)"
  using remove_parents_kind [of c _ "update_status c COSIM_COMMITTED cs" x]
  by (simp add: commit_one_def Let_def update_status_def upd_cmd_def)

lemma commit_loop_kind:
  assumes "commit_loop n (cs, r, lg) = (cs', r', lg')" "bq_wf (rb_queue r)"
    "x \<in> set (bq_list (rb_queue r')) \<or> x \<notin> set (bq_list (rb_queue r))"
  shows "same_kind (cs' x) (cs x)"
  using assms
proof (induction n arbitrary: cs r lg)
  case (Suc n)
  show ?case
  proof (cases "bq_is_empty (rb_queue r) \<or> get_commit_head cs r = None")
    case True
    then show ?thesis using Suc.prems(1) by (auto split: if_splits)
  next
    case False
    then obtain c where c: "get_commit_head cs r = Some c" "\<not> bq_is_empty (rb_queue r)" by auto
    obtain cs1 r1 lg1 where one: "commit_one c (cs, r, lg) = (cs1, r1, lg1)" by (metis prod_cases3)
    have loop: "commit_loop n (cs1, r1, lg1) = (cs', r', lg')"
      using Suc.prems(1) c one by simp
    have hd: "c = hd (bq_list (rb_queue r))"
      using c(1) by (auto simp: get_commit_head_def Let_def split: if_splits)
    obtain l where l: "bq_list (rb_queue r) = c # l"
      using c(2) hd Suc.prems(2) by (cases "bq_list (rb_queue r)") (auto simp: bq_wf_def bq_is_empty_def)
    note c1 = commit_one_simps [OF one]
    have wf1: "bq_wf (rb_queue r1)" "bq_list (rb_queue r1) = l" "c \<notin> set l"
      using Suc.prems(2) l c1(1-3) by (auto simp: bq_wf_def)
    have "set (bq_list (rb_queue r')) \<subseteq> set l"
      using commit_loop_spec [OF wf1(1) loop] wf1(2) by (metis Un_upper2 set_append)
    then have "x \<noteq> c" "x \<in> set (bq_list (rb_queue r')) \<or> x \<notin> set (bq_list (rb_queue r1))"
      using wf1(2,3) Suc.prems(3) l by auto
    then show ?thesis
      using Suc.IH [OF loop wf1(1)] commit_one_kind [of x c cs r lg] one
      by (auto intro: same_kind_trans)
  qed
qed simp

lemma commit_loop_sb:
  assumes "commit_loop n (cs, r, lg) = (cs', r', lg')" "bq_wf (rb_queue r)" "sb_reach (cs, bq_list (rb_queue r))"
  shows "sb_reach (cs', bq_list (rb_queue r'))"
  using assms
proof (induction n arbitrary: cs r lg)
  case (Suc n)
  show ?case
  proof (cases "bq_is_empty (rb_queue r) \<or> get_commit_head cs r = None")
    case True
    then show ?thesis using Suc.prems by (auto split: if_splits)
  next
    case False
    then obtain c where c: "get_commit_head cs r = Some c" "\<not> bq_is_empty (rb_queue r)" by auto
    obtain cs1 r1 lg1 where one: "commit_one c (cs, r, lg) = (cs1, r1, lg1)" by (metis prod_cases3)
    have loop: "commit_loop n (cs1, r1, lg1) = (cs', r', lg')"
      using Suc.prems(1) c one by simp
    have hd: "c = hd (bq_list (rb_queue r))" "cm_status (cs c) = COSIM_FINISHED"
      using c(1) by (auto simp: get_commit_head_def Let_def can_commit_def split: if_splits)
    obtain l where l: "bq_list (rb_queue r) = c # l"
      using c(2) hd(1) Suc.prems(2) by (cases "bq_list (rb_queue r)") (auto simp: bq_wf_def bq_is_empty_def)
    note c1 = commit_one_simps [OF one]
    have wf1: "bq_wf (rb_queue r1)" "bq_list (rb_queue r1) = l"
      using Suc.prems(2) l c1(1-3) by (auto simp: bq_wf_def)
    have "sb_step (cs, c # l) (cs1, l)"
      by (rule sb_commit [where r = r and lg = lg]) (use hd(2) one in simp_all)
    with Suc.prems(3) l have "sb_reach (cs1, l)" by (auto intro: sb_more)
    then show ?thesis using Suc.IH [OF loop wf1(1)] wf1(2) by simp
  qed
qed simp

section \<open>The invariant\<close>

text \<open>Commands are well-typed, and in the weight-stationary dataflow no multiplication stays in the array.\<close>

definition cmd_wt :: "dataflow_type \<Rightarrow> command \<Rightarrow> bool" where
  "cmd_wt df c \<longleftrightarrow>
     (case cm_type c of LOAD \<Rightarrow> cm_op c = MOVE_IN | LOAD_ACC \<Rightarrow> cm_op c = MOVE_IN_ACC
      | STORE \<Rightarrow> cm_op c = MOVE_OUT
      | EXE \<Rightarrow> cm_op c \<in> {PRELOAD, FENCE, CONFIG, FAKE} \<union> mm_ops) \<and>
     (df = DATAFLOW_WS \<and> cm_op c \<in> mm_ops \<longrightarrow> \<not> cm_stay c)"

definition queues_ok :: "'n sa \<Rightarrow> bool" where
  "queues_ok s \<longleftrightarrow> bq_wf (sa_inst_queue s) \<and> bq_wf (rb_queue (sa_rob s)) \<and>
     bq_wf (sa_load_queue s) \<and> bq_wf (sa_store_queue s) \<and> bq_wf (sa_exe_queue s) \<and>
     bq_wf (sa_load_contlr s) \<and> bq_wf (sa_store_contlr s) \<and> bq_wf (sa_exe_contlr s) \<and>
     distinct (sa_preloads s) \<and> distinct (sa_mms s)"

abbreviation rob_list :: "'n sa \<Rightarrow> nat list" where
  "rob_list s \<equiv> bq_list (rb_queue (sa_rob s))"

abbreviation inst_list :: "'n sa \<Rightarrow> nat list" where
  "inst_list s \<equiv> bq_list (sa_inst_queue s)"

definition own_ok :: "nat set \<Rightarrow> nat set \<Rightarrow> nat set \<Rightarrow> cmd_store \<Rightarrow> dataflow_type \<Rightarrow> bool" where
  "own_ok h is R cs df \<longleftrightarrow> is \<union> R \<subseteq> h \<and> is \<inter> R = {} \<and> (\<forall>c\<in>is \<union> R. cmd_wt df (cs c))"

text \<open>
  A fence that is not finished is the youngest command of the buffer, and the flag says so; what is
  older than a finished fence is finished.
\<close>

definition fence_ok :: "bool \<Rightarrow> cmd_store \<Rightarrow> nat list \<Rightarrow> bool" where
  "fence_ok active cs R \<longleftrightarrow>
     (active \<longrightarrow> R \<noteq> [] \<and> cm_op (cs (last R)) = FENCE \<and> cm_status (cs (last R)) < COSIM_FINISHED) \<and>
     (\<forall>c\<in>set R. cm_op (cs c) = FENCE \<and> cm_status (cs c) < COSIM_FINISHED \<longrightarrow> active \<and> c = last R) \<and>
     (\<forall>x y. older R x y \<and> cm_op (cs y) = FENCE \<and> \<not> cm_status (cs y) < COSIM_FINISHED \<longrightarrow>
        \<not> cm_status (cs x) < COSIM_FINISHED)"

text \<open>
  A command that has left its queue is ready and stays so: its parents are finished, and no pointer to
  a command still to be dispatched is among them.
\<close>

definition ready_ok :: "nat set \<Rightarrow> nat set \<Rightarrow> nat set \<Rightarrow> cmd_store \<Rightarrow> bool" where
  "ready_ok h is R cs \<longleftrightarrow> (\<forall>c\<in>h. set (cm_parents (cs c)) \<subseteq> h - is) \<and>
     (\<forall>c\<in>R. cm_status (cs c) \<noteq> COSIM_WAITING \<longrightarrow> cmd_is_ready cs c)"

definition ab_ok :: "nat list \<Rightarrow> nat list \<Rightarrow> cmd_store \<Rightarrow> bool" where
  "ab_ok pend mms cs \<longleftrightarrow> pend = filter (\<lambda>c. \<not> cm_stay (cs c)) mms"

text \<open>
  \<open>X\<close> are the completed commands the controller has taken from the engine and not yet marked;
  \<open>k\<close> is how many requests the identifier counter still has room for.
\<close>

definition dma_ok :: "nat set \<Rightarrow> nat list \<Rightarrow> nat \<Rightarrow> nat set \<Rightarrow> nat set \<Rightarrow> cmd_store \<Rightarrow> txn_store \<Rightarrow> dma_engine \<Rightarrow> bool" where
  "dma_ok h X k is R cs m e \<longleftrightarrow> (\<exists>taken. dma_reach taken m e \<and> set taken \<union> dma_seen e \<subseteq> h - is \<and>
     (\<forall>c\<in>set taken \<union> dma_seen e. c \<in> R \<longrightarrow> cm_status (cs c) \<notin> {COSIM_WAITING, COSIM_ISSUED})) \<and>
     distinct X \<and> set X \<inter> dma_live e = {} \<and> unat (de_next_req_id e) + k < 2 ^ 64"

definition sa_inv :: "nat set \<Rightarrow> nat list \<Rightarrow> nat \<Rightarrow> 'n sa \<Rightarrow> bool" where
  "sa_inv h X k s \<longleftrightarrow> sb_reach (sa_cmds s, rob_list s) \<and> queues_ok s \<and>
     sa_parts (sa_cmds s) (set (rob_list s))
       (set (bq_list (sa_load_queue s))) (set (bq_list (sa_store_queue s))) (set (bq_list (sa_exe_queue s)))
       (set (bq_list (sa_load_contlr s))) (set (bq_list (sa_store_contlr s))) (set (bq_list (sa_exe_contlr s)))
       (set (sa_preloads s)) (set (sa_mms s)) (set_option (sa_fence_cmd s)) (dma_live (sa_dma s) \<union> set X) \<and>
     own_ok h (set (inst_list s)) (set (rob_list s)) (sa_cmds s) (sa_dataflow s) \<and>
     fence_ok (sa_fence_active s) (sa_cmds s) (rob_list s) \<and>
     ready_ok h (set (inst_list s)) (set (rob_list s)) (sa_cmds s) \<and>
     ab_ok (ab_cmds (sa_ab s)) (sa_mms s) (sa_cmds s) \<and>
     dma_ok h X k (set (inst_list s)) (set (rob_list s)) (sa_cmds s) (sa_txns s) (sa_dma s)"

lemma bq_insert_Some:
  "bq_insert c q = Some q' \<Longrightarrow> bq_wf q \<Longrightarrow> c \<notin> set (bq_list q) \<Longrightarrow>
    bq_wf q' \<and> bq_list q' = bq_list q @ [c] \<and> bq_capacity q' = bq_capacity q"
  by (auto simp: bq_insert_def bq_wf_def)

lemma bq_remove_list [simp]: "set (bq_list (bq_remove c q)) = set (bq_list q) - {c}"
  by (auto simp: bq_remove_def)

lemma bq_pop_list [simp]: "bq_list (bq_pop_front q) = tl (bq_list q)"
  by (simp add: bq_pop_front_def)

text \<open>How the parts of the invariant react to a change of status.\<close>

lemma cmd_wt_status [simp]: "cmd_wt df (update_status c st cs x) = cmd_wt df (cs x)"
  by (simp add: cmd_wt_def split: command_type.split)

lemma own_upd [simp]: "own_ok h is R (update_status c st cs) df = own_ok h is R cs df"
  by (simp add: own_ok_def)

lemma ab_upd [simp]: "ab_ok pend mms (update_status c st cs) = ab_ok pend mms cs"
  by (simp add: ab_ok_def)

lemma fence_upd:
  "fence_ok active cs R \<Longrightarrow> cm_op (cs c) \<noteq> FENCE \<and> \<not> st < COSIM_FINISHED \<or>
    (st < COSIM_FINISHED) = (cm_status (cs c) < COSIM_FINISHED) \<Longrightarrow>
    fence_ok active (update_status c st cs) R"
  unfolding fence_ok_def by auto

lemma ready_upd:
  assumes "ready_ok h is R cs" "c \<in> R" "\<not> st < COSIM_FINISHED \<or> cm_status (cs c) < COSIM_FINISHED"
    "cm_status (cs c) = COSIM_WAITING \<longrightarrow> cmd_is_ready cs c"
  shows "ready_ok h is R (update_status c st cs)"
proof -
  have p: "cm_parents (update_status c st cs x) = cm_parents (cs x)" for x
    by (simp add: update_status_def upd_cmd_def)
  have "cmd_is_ready cs x \<Longrightarrow> cmd_is_ready (update_status c st cs) x" for x
    using assms(3) by (auto simp: cmd_is_ready_def p)
  then show ?thesis using assms unfolding ready_ok_def by (auto simp: p)
qed

lemma dma_upd:
  "dma_ok h X k is R cs m e \<Longrightarrow> st \<notin> {COSIM_WAITING, COSIM_ISSUED} \<or> cm_status (cs c) \<in> {COSIM_WAITING, COSIM_ISSUED} \<and> c \<in> R \<Longrightarrow>
    dma_ok h X k is R (update_status c st cs) m e"
  unfolding dma_ok_def by (elim conjE exE, intro conjI exI) auto

lemma sa_invD:
  assumes "sa_inv h X k s"
  shows "sb_reach (sa_cmds s, rob_list s)" "queues_ok s"
    "own_ok h (set (inst_list s)) (set (rob_list s)) (sa_cmds s) (sa_dataflow s)"
    "fence_ok (sa_fence_active s) (sa_cmds s) (rob_list s)" "ab_ok (ab_cmds (sa_ab s)) (sa_mms s) (sa_cmds s)"
    "dma_ok h X k (set (inst_list s)) (set (rob_list s)) (sa_cmds s) (sa_txns s) (sa_dma s)"
  using assms by (simp_all add: sa_inv_def)

lemma sa_inv_ready: "sa_inv h X k s \<Longrightarrow> ready_ok h (set (inst_list s)) (set (rob_list s)) (sa_cmds s)"
  by (simp add: sa_inv_def)

lemma sa_inv_parts:
  "sa_inv h X k s \<Longrightarrow> sa_parts (sa_cmds s) (set (rob_list s))
       (set (bq_list (sa_load_queue s))) (set (bq_list (sa_store_queue s))) (set (bq_list (sa_exe_queue s)))
       (set (bq_list (sa_load_contlr s))) (set (bq_list (sa_store_contlr s))) (set (bq_list (sa_exe_contlr s)))
       (set (sa_preloads s)) (set (sa_mms s)) (set_option (sa_fence_cmd s)) (dma_live (sa_dma s) \<union> set X)"
  by (simp add: sa_inv_def)

text \<open>Fields the invariant does not look at.\<close>

lemma sa_inv_irrelevant [simp]:
  "sa_inv h X k (s\<lparr>sa_local_cycle := v1\<rparr>) = sa_inv h X k s" "sa_inv h X k (s\<lparr>sa_fu_idle := v2\<rparr>) = sa_inv h X k s"
  "sa_inv h X k (s\<lparr>sa_preloading := v3\<rparr>) = sa_inv h X k s" "sa_inv h X k (s\<lparr>sa_performing_mm := v3\<rparr>) = sa_inv h X k s"
  "sa_inv h X k (s\<lparr>sa_max_load_dma := v4\<rparr>) = sa_inv h X k s" "sa_inv h X k (s\<lparr>sa_max_store_dma := v4\<rparr>) = sa_inv h X k s"
  "sa_inv h X k (s\<lparr>sa_exe_cycle := v5\<rparr>) = sa_inv h X k s" "sa_inv h X k (s\<lparr>sa_ld_cycle := v5\<rparr>) = sa_inv h X k s"
  "sa_inv h X k (s\<lparr>sa_st_cycle := v5\<rparr>) = sa_inv h X k s" "sa_inv h X k (s\<lparr>sa_ld_st_cycle := v5\<rparr>) = sa_inv h X k s"
  "sa_inv h X k (s\<lparr>sa_net := v6\<rparr>) = sa_inv h X k s" "sa_inv h X k (s\<lparr>sa_l2 := v7\<rparr>) = sa_inv h X k s"
  "sa_inv h X k (s\<lparr>sa_finished := v8\<rparr>) = sa_inv h X k s"
  by (simp_all add: sa_inv_def queues_ok_def)

lemma parts_mem:
  assumes "sa_parts cs R lq sq xq lc sc xc pre mm fen live"
  shows "c \<in> lq \<Longrightarrow> c \<in> R \<and> cm_status (cs c) = COSIM_WAITING \<and> (cm_type (cs c) = LOAD \<or> cm_type (cs c) = LOAD_ACC)"
    "c \<in> sq \<Longrightarrow> c \<in> R \<and> cm_status (cs c) = COSIM_WAITING \<and> cm_type (cs c) = STORE"
    "c \<in> xq \<Longrightarrow> c \<in> R \<and> cm_status (cs c) = COSIM_WAITING \<and> cm_type (cs c) = EXE"
    "c \<in> lc \<Longrightarrow> c \<in> R \<and> cm_status (cs c) = COSIM_ISSUED \<and> (cm_type (cs c) = LOAD \<or> cm_type (cs c) = LOAD_ACC)"
    "c \<in> sc \<Longrightarrow> c \<in> R \<and> cm_status (cs c) = COSIM_ISSUED \<and> cm_type (cs c) = STORE"
    "c \<in> xc \<Longrightarrow> c \<in> R \<and> cm_status (cs c) = COSIM_ISSUED \<and> cm_type (cs c) = EXE"
    "c \<in> pre \<Longrightarrow> c \<in> R \<and> cm_status (cs c) = COSIM_EXECUTING \<and> cm_type (cs c) = EXE \<and> cm_op (cs c) = PRELOAD"
    "c \<in> mm \<Longrightarrow> c \<in> R \<and> cm_status (cs c) = COSIM_EXECUTING \<and> cm_type (cs c) = EXE \<and> cm_op (cs c) \<in> mm_ops"
    "c \<in> fen \<Longrightarrow> c \<in> R \<and> cm_status (cs c) = COSIM_EXECUTING \<and> cm_type (cs c) = EXE \<and> cm_op (cs c) = FENCE"
    "c \<in> live \<Longrightarrow> c \<in> R \<and> cm_status (cs c) = COSIM_EXECUTING \<and> cm_type (cs c) \<noteq> EXE"
  using assms by (auto simp: sa_parts_def at_yes is_ld_def is_st_def is_mv_def is_ex_def)

section \<open>Issue\<close>

lemma set_filter_neq: "set (filter (\<lambda>x. x \<noteq> c) l) = set l - {c}"
  by auto

lemma sb_update:
  "sb_reach (cs, l) \<Longrightarrow> c \<in> set l \<Longrightarrow> cmd_is_ready cs c \<Longrightarrow> cm_status (cs c) = COSIM_WAITING \<Longrightarrow>
    sb_reach (update_status c COSIM_ISSUED cs, l)"
  "sb_reach (cs, l) \<Longrightarrow> c \<in> set l \<Longrightarrow> cm_status (cs c) = COSIM_ISSUED \<Longrightarrow>
    sb_reach (update_status c COSIM_EXECUTING cs, l)"
  "sb_reach (cs, l) \<Longrightarrow> c \<in> set l \<Longrightarrow> cm_status (cs c) = COSIM_EXECUTING \<Longrightarrow> sb_reach (set_done c cs, l)"
  by (auto intro: sb_more sb_step.intros)

lemma issue_parts:
  assumes "sa_inv h X k s" "cm_status (sa_cmds s c) = COSIM_WAITING" "c \<in> set (rob_list s)" "cmd_is_ready (sa_cmds s) c"
  defines "cs \<equiv> update_status c COSIM_ISSUED (sa_cmds s)"
  shows "sb_reach (cs, rob_list s)" "own_ok h (set (inst_list s)) (set (rob_list s)) cs (sa_dataflow s)"
    "fence_ok (sa_fence_active s) cs (rob_list s)" "ab_ok (ab_cmds (sa_ab s)) (sa_mms s) cs"
    "dma_ok h X k (set (inst_list s)) (set (rob_list s)) cs (sa_txns s) (sa_dma s)"
    "ready_ok h (set (inst_list s)) (set (rob_list s)) cs"
  unfolding cs_def
  using sa_invD [OF assms(1)] sa_inv_ready [OF assms(1)] sb_update(1) fence_upd dma_upd ready_upd assms(2-4)
  by simp_all

lemma issue_store_inv:
  assumes "sa_inv h X k s" "issue_store s = Some s'"
  shows "sa_inv h X k s'"
proof (cases "s' = s")
  case False
  then obtain c s1 where c: "\<not> bq_is_empty (sa_store_queue s)" "bq_get_cmd_at 0 (sa_store_queue s) = Some c"
    "can_issue s c" "issue_cmd c (upd_status c COSIM_ISSUED s) = Some s1"
    "s' = s1\<lparr>sa_store_queue := bq_remove c (sa_store_queue s1)\<rparr>"
    using assms(2) by (auto simp: issue_store_def split: if_splits bind_splits)
  note inv = sa_invD [OF assms(1)] sa_inv_parts [OF assms(1)]
  have mem: "c \<in> set (bq_list (sa_store_queue s))"
    using bq_head [of "sa_store_queue s"] c(1,2) inv(2) by (simp add: queues_ok_def)
  note pm = parts_mem(2) [OF inv(7) mem] 
  have "c \<notin> set (bq_list (sa_store_contlr s))" using parts_mem(5) [OF inv(7), of c] pm by auto
  moreover obtain q where q: "bq_insert c (sa_store_contlr s) = Some q"
    "s1 = s\<lparr>sa_cmds := update_status c COSIM_ISSUED (sa_cmds s), sa_store_contlr := q\<rparr>"
    using c(4) pm by (auto simp: issue_cmd_def upd_status_def split: bind_splits)
  ultimately have q': "bq_wf q" "bq_list q = bq_list (sa_store_contlr s) @ [c]"
    using bq_insert_Some inv(2) by (auto simp: queues_ok_def)
  have st: "cm_status (sa_cmds s c) = COSIM_WAITING" "c \<in> set (rob_list s)" "cmd_is_ready (sa_cmds s) c"
    using c(3) pm by (simp_all add: can_issue_def)
  have "queues_ok s'" using inv(2) q'(1) bq_remove_wf mem by (simp add: queues_ok_def c(5) q(2))
  with issue_parts [OF assms(1) st] parts_issue(2) [OF inv(7) mem] show ?thesis
    by (simp add: sa_inv_def c(5) q(2) q'(2))
qed (use assms(1) in simp)

lemma issue_load_inv:
  assumes "sa_inv h X k s" "issue_load s = Some s'"
  shows "sa_inv h X k s'"
proof (cases "s' = s")
  case False
  then obtain c s1 where c: "\<not> bq_is_empty (sa_load_queue s)" "bq_get_cmd_at 0 (sa_load_queue s) = Some c"
    "can_issue s c" "issue_cmd c (upd_status c COSIM_ISSUED s) = Some s1"
    "s' = s1\<lparr>sa_load_queue := bq_remove c (sa_load_queue s1)\<rparr>"
    using assms(2) by (auto simp: issue_load_def split: if_splits bind_splits)
  note inv = sa_invD [OF assms(1)] sa_inv_parts [OF assms(1)]
  have mem: "c \<in> set (bq_list (sa_load_queue s))"
    using bq_head [of "sa_load_queue s"] c(1,2) inv(2) by (simp add: queues_ok_def)
  note pm = parts_mem(1) [OF inv(7) mem] 
  have "c \<notin> set (bq_list (sa_load_contlr s))" using parts_mem(4) [OF inv(7), of c] pm by auto
  moreover obtain q where q: "bq_insert c (sa_load_contlr s) = Some q"
    "s1 = s\<lparr>sa_cmds := update_status c COSIM_ISSUED (sa_cmds s), sa_load_contlr := q\<rparr>"
    using c(4) pm by (auto simp: issue_cmd_def upd_status_def split: bind_splits)
  ultimately have q': "bq_wf q" "bq_list q = bq_list (sa_load_contlr s) @ [c]"
    using bq_insert_Some inv(2) by (auto simp: queues_ok_def)
  have st: "cm_status (sa_cmds s c) = COSIM_WAITING" "c \<in> set (rob_list s)" "cmd_is_ready (sa_cmds s) c"
    using c(3) pm by (simp_all add: can_issue_def)
  have "queues_ok s'" using inv(2) q'(1) bq_remove_wf mem by (simp add: queues_ok_def c(5) q(2))
  with issue_parts [OF assms(1) st] parts_issue(1) [OF inv(7) mem] show ?thesis
    by (simp add: sa_inv_def c(5) q(2) q'(2))
qed (use assms(1) in simp)

lemma issue_exe_inv:
  assumes "sa_inv h X k s" "issue_exe s = Some s'"
  shows "sa_inv h X k s'"
proof (cases "s' = s")
  case False
  then obtain c s1 where c: "\<not> bq_is_empty (sa_exe_queue s)" "bq_get_cmd_at 0 (sa_exe_queue s) = Some c"
    "can_issue s c" "issue_cmd c (upd_status c COSIM_ISSUED s) = Some s1"
    "s' = s1\<lparr>sa_exe_queue := bq_remove c (sa_exe_queue s1)\<rparr>"
    using assms(2) by (auto simp: issue_exe_def split: if_splits bind_splits)
  note inv = sa_invD [OF assms(1)] sa_inv_parts [OF assms(1)]
  have mem: "c \<in> set (bq_list (sa_exe_queue s))"
    using bq_head [of "sa_exe_queue s"] c(1,2) inv(2) by (simp add: queues_ok_def)
  note pm = parts_mem(3) [OF inv(7) mem] 
  have "c \<notin> set (bq_list (sa_exe_contlr s))" using parts_mem(6) [OF inv(7), of c] pm by auto
  moreover obtain q where q: "bq_insert c (sa_exe_contlr s) = Some q"
    "s1 = s\<lparr>sa_cmds := update_status c COSIM_ISSUED (sa_cmds s), sa_exe_contlr := q\<rparr>"
    using c(4) pm by (auto simp: issue_cmd_def upd_status_def split: bind_splits)
  ultimately have q': "bq_wf q" "bq_list q = bq_list (sa_exe_contlr s) @ [c]"
    using bq_insert_Some inv(2) by (auto simp: queues_ok_def)
  have st: "cm_status (sa_cmds s c) = COSIM_WAITING" "c \<in> set (rob_list s)" "cmd_is_ready (sa_cmds s) c"
    using c(3) pm by (simp_all add: can_issue_def)
  have "queues_ok s'" using inv(2) q'(1) bq_remove_wf mem by (simp add: queues_ok_def c(5) q(2))
  with issue_parts [OF assms(1) st] parts_issue(3) [OF inv(7) mem] show ?thesis
    by (simp add: sa_inv_def c(5) q(2) q'(2))
qed (use assms(1) in simp)

section \<open>Completion on the array\<close>

lemma finish_parts:
  assumes "sa_inv h X k s" "cm_status (sa_cmds s c) = COSIM_EXECUTING" "c \<in> set (rob_list s)"
    "cm_op (sa_cmds s c) \<noteq> FENCE"
  defines "cs \<equiv> set_done c (sa_cmds s)"
  shows "sb_reach (cs, rob_list s)" "own_ok h (set (inst_list s)) (set (rob_list s)) cs (sa_dataflow s)"
    "fence_ok (sa_fence_active s) cs (rob_list s)" "ab_ok pend mms cs = ab_ok pend mms (sa_cmds s)"
    "dma_ok h X k (set (inst_list s)) (set (rob_list s)) cs (sa_txns s) (sa_dma s)"
    "ready_ok h (set (inst_list s)) (set (rob_list s)) cs"
  unfolding cs_def using sa_invD [OF assms(1)] sa_inv_ready [OF assms(1)] assms(2-4) sb_update(3)
  by (simp_all add: set_done_status fence_upd dma_upd ready_upd)

lemma finish_cmd_eq: "finish_cmd c s = s\<lparr>sa_cmds := set_done c (sa_cmds s),
    sa_fu_idle := (sa_fu_idle s)(cm_op (sa_cmds s c) := True)\<rparr>"
  by (simp add: finish_cmd_def complete_op_def)

lemma finish_preload:
  assumes "sa_inv h X k s" "sa_preloads s = c # cs"
  shows "sa_inv h X k ((finish_cmd c s)\<lparr>sa_preloads := cs\<rparr>)"
proof -
  note inv = sa_invD [OF assms(1)] sa_inv_parts [OF assms(1)]
  have mem: "c \<in> set (sa_preloads s)" using assms(2) by simp
  note pm = parts_mem(7) [OF inv(7) mem]
  have cs: "set cs = set (sa_preloads s) - {c}" and d: "distinct cs"
    using inv(2) assms(2) by (auto simp: queues_ok_def)
  have "queues_ok ((finish_cmd c s)\<lparr>sa_preloads := cs\<rparr>)"
    using inv(2) d by (simp add: queues_ok_def finish_cmd_eq)
  with finish_parts [OF assms(1), of c] pm parts_finish(1) [OF inv(7) mem] inv(5) show ?thesis
    by (simp add: sa_inv_def finish_cmd_eq cs)
qed

lemma exec_weights_inv:
  assumes "sa_inv h X k s" "exec_weights E s = Some s'"
  shows "sa_inv h X k s'"
proof (cases "sa_dataflow s = DATAFLOW_WS \<and> en_weights_preloaded E (sa_net s) \<and> sa_preloads s \<noteq> []")
  case True
  then obtain c cs where c: "sa_preloads s = c # cs" by (cases "sa_preloads s") auto
  have "s' = ((finish_cmd c s)\<lparr>sa_preloads := cs\<rparr>)\<lparr>sa_preloading := False, sa_net := en_reset_weights_preloaded E (sa_net s)\<rparr>"
    using assms(2) True c by (auto simp: exec_weights_def Let_def finish_cmd_eq intro!: sa.equality)
  with finish_preload [OF assms(1) c] show ?thesis by simp
next
  case False
  then show ?thesis using assms by (auto simp: exec_weights_def split: list.splits if_splits)
qed

text \<open>The oldest multiplication finishes; \<open>b\<close> is the accumulation buffer afterwards.\<close>

lemma finish_mm:
  assumes "sa_inv h X k s" "sa_mms s = c # cs"
    "if cm_stay (sa_cmds s c) then ab_cmds b = ab_cmds (sa_ab s) else ab_cmds b = tl (ab_cmds (sa_ab s))"
  shows "sa_inv h X k ((finish_cmd c s)\<lparr>sa_ab := b, sa_mms := cs\<rparr>)"
proof -
  note inv = sa_invD [OF assms(1)] sa_inv_parts [OF assms(1)]
  have mem: "c \<in> set (sa_mms s)" using assms(2) by simp
  note pm = parts_mem(8) [OF inv(7) mem]
  have nf: "cm_op (sa_cmds s c) \<noteq> FENCE" using pm by (auto simp: mm_ops_def)
  have cs: "set cs = set (sa_mms s) - {c}" and d: "distinct cs"
    using inv(2) assms(2) by (auto simp: queues_ok_def)
  have ab: "ab_ok (ab_cmds b) cs (sa_cmds s)"
    using inv(5) assms(2,3) by (auto simp: ab_ok_def split: if_splits)
  have "queues_ok ((finish_cmd c s)\<lparr>sa_ab := b, sa_mms := cs\<rparr>)"
    using inv(2) d by (simp add: queues_ok_def finish_cmd_eq)
  with finish_parts [OF assms(1), of c] pm nf parts_finish(2) [OF inv(7) mem] ab show ?thesis
    by (simp add: sa_inv_def finish_cmd_eq cs)
qed

lemma ws_pending:
  assumes "sa_inv h X k s" "sa_dataflow s = DATAFLOW_WS"
  shows "ab_cmds (sa_ab s) = sa_mms s" "c \<in> set (sa_mms s) \<Longrightarrow> \<not> cm_stay (sa_cmds s c)"
proof -
  note inv = sa_invD [OF assms(1)] sa_inv_parts [OF assms(1)]
  show ns: "\<not> cm_stay (sa_cmds s c)" if "c \<in> set (sa_mms s)" for c
    using parts_mem(8) [OF inv(7) that] inv(3) assms(2) by (simp add: own_ok_def cmd_wt_def)
  show "ab_cmds (sa_ab s) = sa_mms s"
    using inv(5) ns by (simp add: ab_ok_def)
qed

lemma exec_psums_ws_inv:
  assumes "sa_inv h X k s" "exec_psums_ws E s = Some s'"
  shows "sa_inv h X k s'"
proof (cases "sa_dataflow s = DATAFLOW_WS \<and> is_psums_accumulated (sa_ab s)")
  case True
  obtain c cs where c: "ab_cmds (sa_ab s) = c # cs" "get_head_command (sa_ab s) = Some c"
    using ab_head True by blast
  note ws = ws_pending [OF assms(1)]
  have mms: "sa_mms s = c # cs" using ws(1) True c(1) by simp
  let ?b = "reset_psums_accumulated (sa_ab s)"
  have "s' = ((finish_cmd c s)\<lparr>sa_ab := ?b, sa_mms := cs\<rparr>)\<lparr>sa_net := en_reset_fifos E (sa_net s), sa_performing_mm := False\<rparr>"
    using assms(2) True c(2) mms
    by (auto simp: exec_psums_ws_def Let_def remove_tracked_mm_cmd_def finish_cmd_eq intro!: sa.equality)
  moreover have "sa_inv h X k ((finish_cmd c s)\<lparr>sa_ab := ?b, sa_mms := cs\<rparr>)"
    by (rule finish_mm [OF assms(1) mms]) (use True ws(2) mms in auto)
  ultimately show ?thesis by simp
qed (use assms in \<open>auto simp: exec_psums_ws_def\<close>)

lemma exec_mm_os_inv:
  assumes "sa_inv h X k s" "exec_mm_os E s = Some s'"
  shows "sa_inv h X k s'"
proof (cases "s' = s")
  case False
  with assms(2) obtain c cs where c: "sa_mms s = c # cs" "sa_dataflow s = DATAFLOW_OS"
    by (cases "sa_mms s") (auto simp: exec_mm_os_def split: if_splits)
  show ?thesis
  proof (cases "cm_stay (sa_cmds s c)")
    case True
    then have "s' = ((finish_cmd c s)\<lparr>sa_ab := sa_ab s, sa_mms := cs\<rparr>)\<lparr>sa_performing_mm := False\<rparr>"
      using assms(2) c False by (auto simp: exec_mm_os_def finish_cmd_eq split: if_splits)
    then show ?thesis using finish_mm [OF assms(1) c(1), of "sa_ab s"] True by simp
  next
    case ns: False
    then have "is_psums_accumulated (sa_ab s) \<and>
        s' = ((finish_cmd c s)\<lparr>sa_ab := reset_psums_accumulated (sa_ab s), sa_mms := cs\<rparr>)\<lparr>sa_performing_mm := False\<rparr>"
      using assms(2) c False by (auto simp: exec_mm_os_def finish_cmd_eq split: if_splits bind_splits)
    then show ?thesis using finish_mm [OF assms(1) c(1), of "reset_psums_accumulated (sa_ab s)"] ns by simp
  qed
qed (use assms in simp)

lemma exec_psums_os_inv:
  assumes "sa_inv h X k s" "exec_psums_os E s = Some s'"
  shows "sa_inv h X k s'"
proof (cases "s' = s")
  case False
  with assms(2) obtain c where c: "en_mem_get_command E (sa_net s) = Some c"
    by (auto simp: exec_psums_os_def split: if_splits option.splits)
  let ?n = "en_mem_reset_compute_finished E (en_reset_psums_received E (sa_net s))"
  from assms(2) False c obtain cs where cs: "sa_preloads s = c # cs"
    "s' = ((finish_cmd c s)\<lparr>sa_preloads := cs\<rparr>)\<lparr>sa_net := ?n\<rparr>"
    by (auto simp: exec_psums_os_def Let_def finish_cmd_eq split: if_splits list.splits)
  with finish_preload [OF assms(1) cs(1)] show ?thesis by simp
qed (use assms in simp)

section \<open>Start of execution\<close>

lemma start_parts:
  assumes "sa_inv h X k s" "cm_status (sa_cmds s c) = COSIM_ISSUED" "c \<in> set (rob_list s)"
  defines "cs \<equiv> update_status c COSIM_EXECUTING (sa_cmds s)"
  shows "sb_reach (cs, rob_list s)" "own_ok h (set (inst_list s)) (set (rob_list s)) cs (sa_dataflow s)"
    "fence_ok (sa_fence_active s) cs (rob_list s)" "ab_ok pend mms cs = ab_ok pend mms (sa_cmds s)"
    "dma_ok h X k (set (inst_list s)) (set (rob_list s)) cs (sa_txns s) (sa_dma s)"
    "ready_ok h (set (inst_list s)) (set (rob_list s)) cs"
  unfolding cs_def
  using sa_invD [OF assms(1)] sa_inv_ready [OF assms(1)] sb_update(2) assms(2,3)
  by (simp_all add: fence_upd dma_upd ready_upd)

lemma skip_parts:
  assumes "sa_inv h X k s" "cm_status (sa_cmds s c) = COSIM_ISSUED" "c \<in> set (rob_list s)"
    "cm_op (sa_cmds s c) \<noteq> FENCE"
  defines "cs \<equiv> update_status c COSIM_FINISHED (sa_cmds s)"
  shows "sb_reach (cs, rob_list s)" "own_ok h (set (inst_list s)) (set (rob_list s)) cs (sa_dataflow s)"
    "fence_ok (sa_fence_active s) cs (rob_list s)" "ab_ok pend mms cs = ab_ok pend mms (sa_cmds s)"
    "dma_ok h X k (set (inst_list s)) (set (rob_list s)) cs (sa_txns s) (sa_dma s)"
    "ready_ok h (set (inst_list s)) (set (rob_list s)) cs"
proof -
  have eq: "set_done c (update_status c COSIM_EXECUTING (sa_cmds s)) = cs"
    by (simp add: cs_def set_done_def update_status_def upd_cmd_def)
  have "sb_reach (set_done c (update_status c COSIM_EXECUTING (sa_cmds s)), rob_list s)"
    by (rule sb_update(3) [OF start_parts(1) [OF assms(1-3)]]) (simp_all add: assms(3))
  then show "sb_reach (cs, rob_list s)" by (simp add: eq)
qed (use sa_invD [OF assms(1)] sa_inv_ready [OF assms(1)] assms(2-4) in
    \<open>simp_all add: cs_def fence_upd dma_upd ready_upd\<close>)

lemma execute_cmd_cases:
  assumes "execute_cmd E c (upd_status c COSIM_EXECUTING s) = Some s'"
  defines "cs \<equiv> update_status c COSIM_EXECUTING (sa_cmds s)"
  obtains (skip) b n f where "cm_op (sa_cmds s c) \<noteq> FENCE"
      "s' = s\<lparr>sa_cmds := update_status c COSIM_FINISHED (sa_cmds s), sa_ab := b, sa_net := n, sa_fu_idle := f\<rparr>"
      "ab_cmds b = ab_cmds (sa_ab s)"
  | (fence) f where "cm_op (sa_cmds s c) = FENCE" "s' = s\<lparr>sa_cmds := cs, sa_fence_cmd := Some c, sa_fu_idle := f\<rparr>"
  | (preload) n f where "cm_op (sa_cmds s c) = PRELOAD"
      "s' = s\<lparr>sa_cmds := cs, sa_net := n, sa_fu_idle := f, sa_preloading := True, sa_preloads := sa_preloads s @ [c]\<rparr>"
  | (mm) n f b where "cm_op (sa_cmds s c) \<in> mm_ops"
      "s' = s\<lparr>sa_cmds := cs, sa_net := n, sa_ab := b, sa_fu_idle := f, sa_mms := sa_mms s @ [c], sa_performing_mm := True\<rparr>"
      "ab_cmds b = ab_cmds (sa_ab s) @ (if cm_stay (sa_cmds s c) then [] else [c])"
proof -
  have eq: "set_done c (update_status c COSIM_EXECUTING (sa_cmds s)) = update_status c COSIM_FINISHED (sa_cmds s)"
    by (simp add: set_done_def update_status_def upd_cmd_def)
  have ss: "s\<lparr>sa_ab := sa_ab s, sa_net := sa_net s\<rparr> = s" by simp
  show thesis
  proof (cases "cm_op (sa_cmds s c)")
    case PRELOAD
    then show ?thesis using assms(1)
      by (intro preload [of "sa_fu_idle s'" "sa_net s'"]) (auto simp: execute_cmd_def Let_def upd_status_def sa_Preload_def cs_def split: dataflow_type.splits)
  next
    case MATRIX_MULTIPLY
    let ?b = "if cm_stay (sa_cmds s c) then sa_ab s else ab_matrix_multiply (cm_T_M (cs c)) (cm_T_N (cs c)) (cm_offset_to_MN (cs c)) c (sa_ab s)"
    show ?thesis using assms(1) MATRIX_MULTIPLY
      by (intro mm [of "sa_fu_idle s'" ?b "sa_net s'"]) (auto simp: execute_cmd_def Let_def upd_status_def sa_MatrixMultiply_def cs_def mm_ops_def)
  next
    case MATRIX_MULTIPLY_FLIP
    let ?b = "if cm_stay (sa_cmds s c) then sa_ab s else ab_matrix_multiply (cm_T_M (cs c)) (cm_T_N (cs c)) (cm_offset_to_MN (cs c)) c (sa_ab s)"
    show ?thesis using assms(1) MATRIX_MULTIPLY_FLIP
      by (intro mm [of "sa_fu_idle s'" ?b "sa_net s'"]) (auto simp: execute_cmd_def Let_def upd_status_def sa_MatrixMultiply_def cs_def mm_ops_def)
  next
    case FENCE
    then show ?thesis using assms(1) by (intro fence [of "sa_fu_idle s'"]) (auto simp: execute_cmd_def upd_status_def cs_def)
  next
    case CONFIG
    let ?cmd = "cs c"
    show ?thesis using assms(1) CONFIG
      by (intro skip [of "sa_fu_idle s'" "sa_net s'" "ab_config (cm_MN_address ?cmd) (cm_M ?cmd) (cm_N ?cmd) (cm_T_M ?cmd) (cm_T_N ?cmd) (sa_ab s)"])
        (auto simp: execute_cmd_def Let_def upd_status_def configMem_def finish_cmd_eq eq cs_def)
  next
    case FAKE
    then show ?thesis using assms(1)
      by (intro skip [of "sa_fu_idle s'" "sa_net s" "sa_ab s"]) (auto simp: execute_cmd_def upd_status_def finish_cmd_eq eq)
  qed (use assms(1) in \<open>simp_all add: execute_cmd_def upd_status_def\<close>)
qed

lemma exec_exe_inv:
  assumes "sa_inv h X k s" "exec_exe E s = Some s'"
  shows "sa_inv h X k s'"
proof (cases "s' = s")
  case False
  then obtain c s1 where c: "\<not> bq_is_empty (sa_exe_contlr s)" "bq_get_cmd_at 0 (sa_exe_contlr s) = Some c"
    "execute_cmd E c (upd_status c COSIM_EXECUTING s) = Some s1"
    "s' = s1\<lparr>sa_exe_contlr := bq_remove c (sa_exe_contlr s1)\<rparr>"
    using assms(2) by (auto simp: exec_exe_def split: if_splits bind_splits)
  note inv = sa_invD [OF assms(1)] sa_inv_parts [OF assms(1)]
  have mem: "c \<in> set (bq_list (sa_exe_contlr s))"
    using bq_head [of "sa_exe_contlr s"] c(1,2) inv(2) by (simp add: queues_ok_def)
  note pm = parts_mem(6) [OF inv(7) mem]
  have wf: "bq_wf (bq_remove c (sa_exe_contlr s))" using inv(2) mem bq_remove_wf by (simp add: queues_ok_def)
  have new: "c \<notin> set (sa_preloads s)" "c \<notin> set (sa_mms s)"
    using parts_mem(7,8) [OF inv(7), of c] pm by auto
  have sp: "cm_status (sa_cmds s c) = COSIM_ISSUED" "c \<in> set (rob_list s)" using pm by simp_all
  note start = start_parts [OF assms(1) sp]
  from c(3) show ?thesis
  proof (cases rule: execute_cmd_cases)
    case (skip b n f)
    then have "queues_ok s'" using inv(2) wf by (simp add: queues_ok_def c(4))
    with skip_parts [OF assms(1) sp skip(1)] parts_execute(6) [OF inv(7) mem] inv(5) show ?thesis
      by (simp add: sa_inv_def c(4) skip(2,3))
  next
    case (fence f)
    then have q: "queues_ok s'" using inv(2) wf by (simp add: queues_ok_def c(4))
    have "set_option (sa_fence_cmd s) \<subseteq> {c}"
    proof
      fix d assume "d \<in> set_option (sa_fence_cmd s)"
      from parts_mem(9) [OF inv(7) this] have "d = last (rob_list s)"
        using inv(4) by (auto simp: fence_ok_def)
      moreover have "c = last (rob_list s)" using inv(4) pm fence(1) by (auto simp: fence_ok_def)
      ultimately show "d \<in> {c}" by simp
    qed
    then have eq: "insert c (set_option (sa_fence_cmd s)) = {c}" by blast
    note p = parts_execute(5) [OF inv(7) mem fence(1), unfolded eq]
    show ?thesis
      using q start p inv(5) by (simp add: sa_inv_def c(4) fence(2))
  next
    case (preload n f)
    then have "queues_ok s'" using inv(2) wf new by (simp add: queues_ok_def c(4))
    then show ?thesis
      using start parts_execute(3) [OF inv(7) mem preload(1)] inv(5) by (simp add: sa_inv_def c(4) preload(2))
  next
    case (mm n f b)
    then have "queues_ok s'" using inv(2) wf new by (simp add: queues_ok_def c(4))
    moreover have "ab_ok (ab_cmds b) (sa_mms s @ [c]) (sa_cmds s)"
      using inv(5) by (simp add: ab_ok_def mm(3))
    ultimately show ?thesis
      using start parts_execute(4) [OF inv(7) mem mm(1)] by (simp add: sa_inv_def c(4) mm(2))
  qed
qed (use assms in simp)

lemma dma_ok_submit:
  assumes ok: "dma_ok h X (Suc k) is R cs m e" and R: "own_ok h is R cs df" "c \<in> R"
    and st: "cm_status (cs c) = COSIM_ISSUED" "c \<notin> set X"
    and sub: "dma_submit c op0 a bytes r now (m, e) = Some (rid, m', e')"
  shows "dma_ok h X k is R (update_status c COSIM_EXECUTING cs) m' e' \<and> dma_live e' = insert c (dma_live e)"
proof -
  obtain taken where t: "dma_reach taken m e" "set taken \<union> dma_seen e \<subseteq> h - is"
     "\<forall>c\<in>set taken \<union> dma_seen e. c \<in> R \<longrightarrow> cm_status (cs c) \<notin> {COSIM_WAITING, COSIM_ISSUED}"
    using ok by (auto simp: dma_ok_def)
  have dx: "distinct X" "set X \<inter> dma_live e = {}" "unat (de_next_req_id e) + Suc k < 2 ^ 64"
    using ok by (auto simp: dma_ok_def)
  have n: "c \<notin> set taken" "c \<notin> dma_seen e" using t(3) R(2) st(1) by auto
  have "rq_cmd r \<noteq> c" if "map_of (de_inflight e) k = Some r" for k r
  proof -
    have "rq_cmd r \<in> known (map_of (de_inflight e) k)" using that by simp
    then have "rq_cmd r \<in> dma_seen e" unfolding dma_seen_def by blast
    with n show ?thesis by blast
  qed
  moreover have "de_next_req_id e \<noteq> - 1"
    using dx(3) by (auto simp: unsigned_minus_1_eq_mask mask_eq_exp_minus_1)
  ultimately have "fresh_cmd taken e c" using n by (auto simp: fresh_cmd_def dma_seen_def)
  then have reach: "dma_reach taken m' e'" by (rule dma_do_submit [OF t(1) _ sub])
  have "dma_inv taken m e" using dma_reach_inv [OF t(1)] by simp
  note live = dma_submit_live [OF this sub]
  have "unat (de_next_req_id e + 1) \<le> unat (de_next_req_id e) + 1"
    by (simp add: unat_word_ariths(1) take_bit_nat_eq_self)
  moreover have "c \<in> h - is" using R by (auto simp: own_ok_def)
  ultimately show ?thesis
    unfolding dma_ok_def using t reach live dx st by (auto intro!: exI [of _ taken])
qed

lemma exec_load_inv:
  assumes "sa_inv h X (Suc k) s" "exec_load E s = Some s'" "X = []"
  shows "sa_inv h X k s'"
proof (cases "s' = s")
  case False
  then obtain c s1 where c: "\<not> bq_is_empty (sa_load_contlr s)" "bq_get_cmd_at 0 (sa_load_contlr s) = Some c"
    "sa_load c (upd_status c COSIM_EXECUTING s) = Some s1"
    "s' = s1\<lparr>sa_load_contlr := bq_remove c (sa_load_contlr s1)\<rparr>"
    using assms(2) by (auto simp: exec_load_def split: if_splits bind_splits)
  note inv = sa_invD [OF assms(1)] sa_inv_parts [OF assms(1)]
  have mem: "c \<in> set (bq_list (sa_load_contlr s))"
    using bq_head [of "sa_load_contlr s"] c(1,2) inv(2) by (simp add: queues_ok_def)
  note pm = parts_mem(4) [OF inv(7) mem]
  have sp: "cm_status (sa_cmds s c) = COSIM_ISSUED" "c \<in> set (rob_list s)" using pm by simp_all
  obtain op0 a bytes rid m e where sub: "dma_submit c op0 a bytes True (sa_local_cycle s) (sa_txns s, sa_dma s) = Some (rid, m, e)"
    "s1 = s\<lparr>sa_cmds := update_status c COSIM_EXECUTING (sa_cmds s), sa_max_load_dma := sa_max_load_dma s + 1, sa_txns := m, sa_dma := e\<rparr>"
    using c(3) by (auto simp: sa_load_def sa_submit_def Let_def upd_status_def split: bind_splits)
  have "c \<notin> set X" by (simp add: assms(3))
  note dma = dma_ok_submit [OF inv(6,3) sp(2,1) this sub(1)]
  have "queues_ok s'" using inv(2) mem bq_remove_wf by (simp add: queues_ok_def c(4) sub(2))
  with start_parts(1-4,6) [OF assms(1) sp] parts_execute(1) [OF inv(7) mem] dma inv(5) show ?thesis
    by (simp add: sa_inv_def c(4) sub(2))
qed (use assms in \<open>auto simp: sa_inv_def dma_ok_def\<close>)

lemma exec_store_inv:
  assumes "sa_inv h X (Suc k) s" "exec_store E s = Some s'" "X = []"
  shows "sa_inv h X k s'"
proof (cases "s' = s")
  case False
  then obtain c s1 where c: "\<not> bq_is_empty (sa_store_contlr s)" "bq_get_cmd_at 0 (sa_store_contlr s) = Some c"
    "sa_store c (upd_status c COSIM_EXECUTING s) = Some s1"
    "s' = s1\<lparr>sa_store_contlr := bq_remove c (sa_store_contlr s1)\<rparr>"
    using assms(2) by (auto simp: exec_store_def split: if_splits bind_splits)
  note inv = sa_invD [OF assms(1)] sa_inv_parts [OF assms(1)]
  have mem: "c \<in> set (bq_list (sa_store_contlr s))"
    using bq_head [of "sa_store_contlr s"] c(1,2) inv(2) by (simp add: queues_ok_def)
  note pm = parts_mem(5) [OF inv(7) mem]
  have sp: "cm_status (sa_cmds s c) = COSIM_ISSUED" "c \<in> set (rob_list s)" using pm by simp_all
  obtain op0 a bytes rid m e where sub: "dma_submit c op0 a bytes False (sa_local_cycle s) (sa_txns s, sa_dma s) = Some (rid, m, e)"
    "s1 = s\<lparr>sa_cmds := update_status c COSIM_EXECUTING (sa_cmds s), sa_max_store_dma := sa_max_store_dma s + 1, sa_txns := m, sa_dma := e\<rparr>"
    using c(3) by (auto simp: sa_store_def sa_submit_def Let_def upd_status_def split: bind_splits)
  have "c \<notin> set X" by (simp add: assms(3))
  note dma = dma_ok_submit [OF inv(6,3) sp(2,1) this sub(1)]
  have "queues_ok s'" using inv(2) mem bq_remove_wf by (simp add: queues_ok_def c(4) sub(2))
  with start_parts(1-4,6) [OF assms(1) sp] parts_execute(2) [OF inv(7) mem] dma inv(5) show ?thesis
    by (simp add: sa_inv_def c(4) sub(2))
qed (use assms in \<open>auto simp: sa_inv_def dma_ok_def\<close>)

lemma sa_execute_inv:
  assumes "sa_inv h [] (Suc (Suc k)) s" "sa_execute E s = Some s'"
  shows "sa_inv h [] k s'"
proof -
  obtain s1 s2 s3 s4 s5 s6 where s: "exec_weights E s = Some s1" "exec_psums_ws E s1 = Some s2"
    "exec_mm_os E s2 = Some s3" "exec_psums_os E s3 = Some s4" "exec_exe E s4 = Some s5"
    "exec_load E s5 = Some s6" "exec_store E s6 = Some s'"
    using assms(2) by (auto simp: sa_execute_def split: bind_splits)
  have "sa_inv h [] (Suc (Suc k)) s5"
    by (rule exec_exe_inv [OF exec_psums_os_inv [OF exec_mm_os_inv [OF exec_psums_ws_inv
          [OF exec_weights_inv [OF assms(1) s(1)] s(2)] s(3)] s(4)] s(5)])
  from exec_store_inv [OF exec_load_inv [OF this s(6) refl] s(7) refl] show ?thesis .
qed

section \<open>Retirement, fences, dispatch\<close>

lemma fence_retire:
  assumes f: "fence_ok active cs R" and split: "R = D @ R'" and D: "\<forall>c\<in>set D. cm_status (cs c) = COSIM_FINISHED"
    and kind: "\<forall>c\<in>set R'. same_kind (cs' c) (cs c)"
  shows "fence_ok active cs' R'"
proof -
  have ne: "R' \<noteq> [] \<and> last R' = last R" if active
  proof -
    have "R \<noteq> []" "cm_status (cs (last R)) < COSIM_FINISHED" using f that by (simp_all add: fence_ok_def)
    then have "last R \<notin> set D" "last R \<in> set R" using D by fastforce+
    then have "R' \<noteq> []" unfolding split by auto
    then show ?thesis unfolding split by simp
  qed
  have l: "active \<Longrightarrow> last R' \<in> set R'" using ne last_in_set by metis
  show ?thesis
    unfolding fence_ok_def
  proof (intro conjI impI ballI allI)
    assume active
    with ne l kind f show "R' \<noteq> []" "cm_op (cs' (last R')) = FENCE" "cm_status (cs' (last R')) < COSIM_FINISHED"
      by (auto simp: fence_ok_def same_kind_def)
  next
    fix c assume c: "c \<in> set R'" "cm_op (cs' c) = FENCE \<and> cm_status (cs' c) < COSIM_FINISHED"
    then have "active \<and> c = last R" using f kind unfolding fence_ok_def split by (auto simp: same_kind_def)
    with ne show active "c = last R'" by auto
  next
    fix x y assume xy: "older R' x y \<and> cm_op (cs' y) = FENCE \<and> \<not> cm_status (cs' y) < COSIM_FINISHED"
    then have "x \<in> set R'" "y \<in> set R'" using older_mem by blast+
    moreover have "older R x y" using xy unfolding split by (induction D) auto
    ultimately show "\<not> cm_status (cs' x) < COSIM_FINISHED"
      using f kind xy unfolding fence_ok_def same_kind_def by metis
  qed
qed

lemma ready_retire:
  assumes r: "ready_ok h is R cs" and sub: "R' \<subseteq> R"
    and par: "\<forall>c. set (cm_parents (cs' c)) \<subseteq> set (cm_parents (cs c))"
    and st: "\<forall>c. cm_status (cs' c) = (if c \<in> D then COSIM_COMMITTED else cm_status (cs c))"
    and D: "R' \<inter> D = {}"
    and fin: "\<forall>c\<in>D. \<not> cm_status (cs c) < COSIM_FINISHED"
  shows "ready_ok h is R' cs'"
  unfolding ready_ok_def
proof (intro conjI ballI impI)
  fix c assume "c \<in> h"
  then show "set (cm_parents (cs' c)) \<subseteq> h - is" using r par unfolding ready_ok_def by blast
next
  fix c assume c: "c \<in> R'" "cm_status (cs' c) \<noteq> COSIM_WAITING"
  then have "c \<notin> D" "c \<in> R" using D sub by auto
  then have "cm_status (cs c) \<noteq> COSIM_WAITING" "c \<in> R" using st c(2) by auto
  then have "cmd_is_ready cs c" using r by (simp add: ready_ok_def)
  then show "cmd_is_ready cs' c" using par st by (auto simp: cmd_is_ready_def)
qed

lemma commit_loop_parents:
  "commit_loop n (cs, r, lg) = (cs', r', lg') \<Longrightarrow> set (cm_parents (cs' x)) \<subseteq> set (cm_parents (cs x))"
proof (induction n arbitrary: cs r lg)
  case (Suc n)
  have rp: "set (cm_parents (fold (\<lambda>ch. remove_parent ch c) chs cs x)) \<subseteq> set (cm_parents (cs x))" for c chs and cs :: cmd_store
  proof (induction chs arbitrary: cs)
    case (Cons ch chs)
    have "set (cm_parents (remove_parent ch c cs x)) \<subseteq> set (cm_parents (cs x))"
      by (simp add: remove_parent_def upd_cmd_def)
    with Cons.IH show ?case by fastforce
  qed simp
  show ?case
  proof (cases "bq_is_empty (rb_queue r) \<or> get_commit_head cs r = None")
    case True
    then show ?thesis using Suc.prems by (auto split: if_splits)
  next
    case False
    then obtain c where c: "get_commit_head cs r = Some c" "\<not> bq_is_empty (rb_queue r)" by auto
    obtain cs1 r1 lg1 where one: "commit_one c (cs, r, lg) = (cs1, r1, lg1)" by (metis prod_cases3)
    have "set (cm_parents (cs1 x)) \<subseteq> set (cm_parents (cs x))"
    proof -
      have "cs1 = fold (\<lambda>ch. remove_parent ch c) (cm_children (cs c)) (update_status c COSIM_COMMITTED cs)"
        using one by (simp add: commit_one_def Let_def update_status_def upd_cmd_def)
      moreover have "cm_parents (update_status c COSIM_COMMITTED cs x) = cm_parents (cs x)"
        by (simp add: update_status_def upd_cmd_def)
      ultimately show ?thesis using rp by metis
    qed
    moreover have "commit_loop n (cs1, r1, lg1) = (cs', r', lg')" using Suc.prems c one by simp
    ultimately show ?thesis using Suc.IH by blast
  qed
qed simp

lemma sa_commit_inv:
  assumes "sa_inv h X k s"
  shows "sa_inv h X k (sa_commit s)"
proof -
  note inv = sa_invD [OF assms] sa_inv_parts [OF assms]
  let ?lg = "\<lparr>cl_finished = [], cl_deleted = []\<rparr>"
  obtain cs r lg where loop: "commit_loop (nat (rb_commit_width (sa_rob s) + 1)) (sa_cmds s, sa_rob s, ?lg) = (cs, r, lg)"
    by (metis prod_cases3)
  have s': "sa_commit s = s\<lparr>sa_cmds := cs, sa_rob := r\<lparr>rb_local_cycle := rb_local_cycle r + 1\<rparr>, sa_finished := sa_finished s @ cl_finished lg\<rparr>"
    by (simp add: sa_commit_def rob_commit_def loop)
  have wf: "bq_wf (rb_queue (sa_rob s))" using inv(2) by (simp add: queues_ok_def)
  let ?D = "take (nat (rb_commit_width (sa_rob s) + 1)) (finished_prefix (sa_cmds s) (rob_list s))"
  let ?R = "bq_list (rb_queue r)"
  note spec = commit_loop_spec [OF wf loop]
  have split: "rob_list s = ?D @ ?R" and wf': "bq_wf (rb_queue r)" using spec by auto
  have D: "\<forall>c\<in>set ?D. cm_status (sa_cmds s c) = COSIM_FINISHED"
    by (auto simp: finished_prefix_def dest!: in_set_takeD set_takeWhileD)
  have kind: "same_kind (cs c) (sa_cmds s c)" if "c \<in> set ?R \<or> c \<notin> set (rob_list s)" for c
    by (rule commit_loop_kind [OF loop wf that])
  have "distinct (?D @ ?R)" using wf split by (simp add: bq_wf_def)
  moreover have "set (rob_list s) = set ?D \<union> set ?R" by (subst split) simp
  ultimately have R': "set ?R = set (rob_list s) - set ?D" by auto
  have kinst: "c \<in> set (inst_list s) \<Longrightarrow> same_kind (cs c) (sa_cmds s c)" for c
    using inv(3) by (intro kind) (auto simp: own_ok_def)
  have wt: "same_kind c d \<Longrightarrow> cmd_wt df c = cmd_wt df d" for c d df
    by (cases "cm_type d") (simp_all add: same_kind_def cmd_wt_def)
  have "queues_ok (sa_commit s)" using inv(2) wf' by (simp add: queues_ok_def s')
  moreover have "own_ok h (set (inst_list s)) (set ?R) cs (sa_dataflow s)"
    using inv(3) kinst kind wt R' unfolding own_ok_def by blast
  moreover have "sb_reach (cs, ?R)" by (rule commit_loop_sb [OF loop wf inv(1)])
  moreover have "fence_ok (sa_fence_active s) cs ?R"
    by (rule fence_retire [OF inv(4) split D]) (use kind in blast)
  moreover have "ready_ok h (set (inst_list s)) (set ?R) cs"
    by (rule ready_retire [OF sa_inv_ready [OF assms], where D = "set ?D"])
      (use R' spec D commit_loop_parents [OF loop] in auto)
  moreover have "ab_ok (ab_cmds (sa_ab s)) (sa_mms s) cs"
  proof -
    have "cm_stay (cs c) = cm_stay (sa_cmds s c)" if "c \<in> set (sa_mms s)" for c
    proof -
      have "c \<in> set (rob_list s)" "cm_status (sa_cmds s c) = COSIM_EXECUTING"
        using parts_mem(8) [OF inv(7) that] by simp_all
      then have "c \<in> set ?R" using D unfolding R' by fastforce
      then show ?thesis using kind [of c] by (simp add: same_kind_def)
    qed
    then show ?thesis using inv(5) by (simp add: ab_ok_def cong: filter_cong)
  qed
  moreover have "dma_ok h X k (set (inst_list s)) (set ?R) cs (sa_txns s) (sa_dma s)"
  proof -
    have "c \<in> set ?R \<Longrightarrow> c \<in> set (rob_list s) \<and> cm_status (cs c) = cm_status (sa_cmds s c)" for c
      using R' kind [of c] by (auto simp: same_kind_def)
    then show ?thesis using inv(6) unfolding dma_ok_def by (elim conjE exE, intro conjI exI) auto
  qed
  moreover note parts_retire [OF inv(7) D] parts_cong [of "set ?R" cs "sa_cmds s"] kind
  ultimately show ?thesis by (simp add: sa_inv_def s' R')
qed

lemma fence_idle:
  assumes "sa_inv h X k s" "can_release_fence s" "X = []" "de_completed (sa_dma s) = []"
    "c \<in> set (rob_list s)" "cm_status (sa_cmds s c) < COSIM_FINISHED"
  shows "sa_fence_cmd s = Some c"
proof -
  note inv = sa_invD [OF assms(1)] sa_inv_parts [OF assms(1)]
  have empty: "bq_list (sa_load_queue s) = []" "bq_list (sa_store_queue s) = []" "bq_list (sa_exe_queue s) = []"
    "bq_list (sa_load_contlr s) = []" "bq_list (sa_store_contlr s) = []" "bq_list (sa_exe_contlr s) = []"
    "sa_preloads s = []" "sa_mms s = []"
    using assms(2) inv(2) by (auto simp: can_release_fence_def queues_ok_def bq_wf_def bq_is_empty_def)
  have live: "dma_live (sa_dma s) = {}"
    using assms(2,4) by (simp add: can_release_fence_def has_inflight_def dma_live_def)
  have "cm_status (sa_cmds s c) \<in> {COSIM_WAITING, COSIM_ISSUED, COSIM_EXECUTING}"
    using assms(5,6) inv(7) by (auto simp: sa_parts_def)
  moreover have "cmd_wt (sa_dataflow s) (sa_cmds s c)" using inv(3) assms(5) by (simp add: own_ok_def)
  ultimately have "c \<in> set_option (sa_fence_cmd s)"
    using inv(7) assms(5) unfolding empty live assms(3) sa_parts_def at_def kind_defs
    by (cases "cm_type (sa_cmds s c)") auto
  then show ?thesis by simp
qed

lemma try_complete_fence_inv:
  assumes "sa_inv h [] k s" "de_completed (sa_dma s) = []"
  shows "sa_inv h [] k (try_complete_fence s)"
proof (cases "sa_fence_cmd s \<noteq> None \<and> can_release_fence s")
  case True
  then obtain c where c: "sa_fence_cmd s = Some c" by auto
  note inv = sa_invD [OF assms(1)] sa_inv_parts [OF assms(1)]
  have mem: "c \<in> set_option (sa_fence_cmd s)" using c by simp
  note pm = parts_mem(9) [OF inv(7) mem]
  have s': "try_complete_fence s = s\<lparr>sa_cmds := set_done c (sa_cmds s), sa_fu_idle := (sa_fu_idle s)(FENCE := True),
      sa_fence_cmd := None, sa_fence_active := False\<rparr>"
    using True c by (simp add: try_complete_fence_def complete_op_def)
  have "fence_ok False (set_done c (sa_cmds s)) (rob_list s)"
    using fence_idle [OF assms(1) _ refl assms(2)] True c older_mem [of "rob_list s"]
    by (fastforce simp: fence_ok_def set_done_status)
  moreover have "queues_ok (try_complete_fence s)" using inv(2) by (simp add: queues_ok_def s')
  moreover have "dma_ok h [] k (set (inst_list s)) (set (rob_list s)) (set_done c (sa_cmds s)) (sa_txns s) (sa_dma s)"
    using inv(6) by (simp add: set_done_status dma_upd)
  moreover have "sb_reach (set_done c (sa_cmds s), rob_list s)" using sb_update(3) inv(1) pm by blast
  moreover have "sa_parts (set_done c (sa_cmds s)) (set (rob_list s))
     (set (bq_list (sa_load_queue s))) (set (bq_list (sa_store_queue s))) (set (bq_list (sa_exe_queue s)))
     (set (bq_list (sa_load_contlr s))) (set (bq_list (sa_store_contlr s))) (set (bq_list (sa_exe_contlr s)))
     (set (sa_preloads s)) (set (sa_mms s)) {} (dma_live (sa_dma s) \<union> set [])"
    using parts_finish(3) [OF inv(7) mem] c by simp
  moreover have "ready_ok h (set (inst_list s)) (set (rob_list s)) (set_done c (sa_cmds s))"
    using ready_upd [OF sa_inv_ready [OF assms(1)]] pm by (simp add: set_done_status)
  ultimately show ?thesis
    using inv(3,5) by (simp add: sa_inv_def s' set_done_status)
next
  case False
  then have "try_complete_fence s = s" by (auto simp: try_complete_fence_def split: option.split)
  with assms show ?thesis by simp
qed

lemma sa_issue_inv:
  assumes "sa_inv h X k s" "sa_issue s = Some s'"
  shows "sa_inv h X k s'"
proof -
  obtain s1 s2 where "issue_store s = Some s1" "issue_load s1 = Some s2" "issue_exe s2 = Some s'"
    using assms(2) by (auto simp: sa_issue_def split: bind_splits)
  with assms(1) show ?thesis by (blast intro: issue_store_inv issue_load_inv issue_exe_inv)
qed

lemma wt_same_kind: "same_kind c d \<Longrightarrow> cmd_wt df c = cmd_wt df d"
  by (cases "cm_type d") (simp_all add: same_kind_def cmd_wt_def)

lemma dispatch_cmd_cases:
  assumes "dispatch_cmd c s0 = Some s'"
  defines "cs \<equiv> build_data_dep c (sa_rob s0) (sa_cmds s0)"
  obtains rq q where "bq_insert c (rb_queue (sa_rob s0)) = Some rq"
    "cm_type (cs c) = LOAD \<or> cm_type (cs c) = LOAD_ACC" "bq_insert c (sa_load_queue s0) = Some q"
    "s' = s0\<lparr>sa_cmds := cs, sa_rob := (sa_rob s0)\<lparr>rb_queue := rq\<rparr>, sa_load_queue := q\<rparr>"
  | rq q where "bq_insert c (rb_queue (sa_rob s0)) = Some rq"
    "cm_type (cs c) = STORE" "bq_insert c (sa_store_queue s0) = Some q"
    "s' = s0\<lparr>sa_cmds := cs, sa_rob := (sa_rob s0)\<lparr>rb_queue := rq\<rparr>, sa_store_queue := q\<rparr>"
  | rq q where "bq_insert c (rb_queue (sa_rob s0)) = Some rq"
    "cm_type (cs c) = EXE" "bq_insert c (sa_exe_queue s0) = Some q"
    "s' = s0\<lparr>sa_cmds := cs, sa_rob := (sa_rob s0)\<lparr>rb_queue := rq\<rparr>, sa_exe_queue := q\<rparr>"
proof -
  obtain rq where rq: "bq_insert c (rb_queue (sa_rob s0)) = Some rq"
    using assms(1) by (auto simp: dispatch_cmd_def Let_def split: bind_splits)
  show thesis
    using assms(1) rq that unfolding cs_def
    by (cases "cm_type (build_data_dep c (sa_rob s0) (sa_cmds s0) c)")
      (auto simp: dispatch_cmd_def Let_def split: bind_splits)
qed

text \<open>What a dispatch leaves behind, whatever queue the command goes to.\<close>

lemma dispatch_parts:
  assumes inv: "sa_inv h X k s" and c: "inst_list s = c # l" and idle: "\<not> sa_fence_active s"
  defines "cs \<equiv> build_data_dep c (sa_rob s) (update_status c COSIM_WAITING (sa_cmds s))"
  shows "c \<notin> set (rob_list s)" "same_kind (cs x) (update_status c COSIM_WAITING (sa_cmds s) x)"
    "sb_reach (cs, rob_list s @ [c])"
    "own_ok h (set l) (set (rob_list s @ [c])) cs (sa_dataflow s)"
    "fence_ok (cm_op (sa_cmds s c) = FENCE) cs (rob_list s @ [c])"
    "ab_ok (ab_cmds (sa_ab s)) (sa_mms s) cs"
    "dma_ok h X k (set l) (set (rob_list s @ [c])) cs (sa_txns s) (sa_dma s)"
    "ready_ok h (set l) (set (rob_list s @ [c])) cs"
proof -
  note i = sa_invD [OF inv] sa_inv_parts [OF inv]
  have d: "c \<notin> set l" using i(2) c by (simp add: queues_ok_def bq_wf_def)
  show new: "c \<notin> set (rob_list s)" using i(3) c by (auto simp: own_ok_def)
  show kind: "same_kind (cs x) (update_status c COSIM_WAITING (sa_cmds s) x)" for x
    unfolding cs_def build_data_dep_def by (rule build_deps_kind)
  then have st: "cm_status (cs x) = (if x = c then COSIM_WAITING else cm_status (sa_cmds s x))"
    "cm_op (cs x) = cm_op (sa_cmds s x)" "cm_stay (cs x) = cm_stay (sa_cmds s x)" for x
    by (simp_all add: same_kind_def)
  have wt: "cmd_wt df (cs x) = cmd_wt df (sa_cmds s x)" for x df
    using wt_same_kind [OF kind] by simp
  show "sb_reach (cs, rob_list s @ [c])"
    unfolding cs_def build_data_dep_def using i(1) new by (blast intro: sb_more sb_dispatch)
  show "own_ok h (set l) (set (rob_list s @ [c])) cs (sa_dataflow s)"
    using i(3) c d by (auto simp: own_ok_def wt)
  show "fence_ok (cm_op (sa_cmds s c) = FENCE) cs (rob_list s @ [c])"
    using i(4) idle new older_mem [of "rob_list s"]
    by (fastforce simp: fence_ok_def st older_snoc)
  show "ab_ok (ab_cmds (sa_ab s)) (sa_mms s) cs" using i(5) by (simp add: ab_ok_def st)
  show "dma_ok h X k (set l) (set (rob_list s @ [c])) cs (sa_txns s) (sa_dma s)"
    using i(6) c unfolding dma_ok_def by (elim conjE exE, intro conjI exI) (auto simp: st)
  show "ready_ok h (set l) (set (rob_list s @ [c])) cs"
  proof -
    have spec: "x \<noteq> c \<Longrightarrow> cm_parents (cs x) = cm_parents (sa_cmds s x)"
      "set (cm_parents (cs c)) \<subseteq> set (cm_parents (sa_cmds s c)) \<union> set (rob_list s)" for x
      using build_deps_spec [OF new, of "update_status c COSIM_WAITING (sa_cmds s)"]
      by (auto simp: cs_def build_data_dep_def update_status_def upd_cmd_def)
    have r: "\<forall>x\<in>h. set (cm_parents (sa_cmds s x)) \<subseteq> h - set (c # l)"
      "\<forall>x\<in>set (rob_list s). cm_status (sa_cmds s x) \<noteq> COSIM_WAITING \<longrightarrow> cmd_is_ready (sa_cmds s) x"
      using sa_inv_ready [OF inv] c by (simp_all add: ready_ok_def)
    have own: "set (rob_list s) \<subseteq> h - set (c # l)" using i(3) c by (auto simp: own_ok_def)
    have "c \<in> h" using i(3) c by (auto simp: own_ok_def)
    have "set (cm_parents (cs x)) \<subseteq> h - set l" if "x \<in> h" for x
    proof (cases "x = c")
      case True
      have "set (cm_parents (sa_cmds s c)) \<subseteq> h - set (c # l)" using r(1) \<open>c \<in> h\<close> by blast
      with True spec(2) own show ?thesis by auto
    next
      case False
      then show ?thesis using spec(1) r(1) that by auto
    qed
    moreover have "cmd_is_ready cs x" if "x \<in> set (rob_list s)" "cm_status (cs x) \<noteq> COSIM_WAITING" for x
    proof -
      have x: "x \<noteq> c" "x \<in> h" using that(1) new own by auto
      then have "cmd_is_ready (sa_cmds s) x" using r(2) that st by auto
      moreover have "c \<notin> set (cm_parents (sa_cmds s x))" using r(1) x(2) by auto
      ultimately show ?thesis using spec(1) [OF x(1)] by (auto simp: cmd_is_ready_def st)
    qed
    ultimately show ?thesis by (auto simp: ready_ok_def st)
  qed
qed

lemma sa_dispatch_inv:
  assumes "sa_inv h X k s" "sa_dispatch s = Some s'"
  shows "sa_inv h X k s'"
proof (cases "s' = s")
  case False
  let ?c = "hd (inst_list s)"
  from assms(2) False obtain s1 where ne: "\<not> bq_is_empty (sa_inst_queue s)" "\<not> sa_fence_active s"
    and s1: "dispatch_cmd ?c (upd_status ?c COSIM_WAITING s) = Some s1"
    and s': "s' = (s1\<lparr>sa_inst_queue := bq_pop_front (sa_inst_queue s1)\<rparr>)
      \<lparr>sa_fence_active := sa_fence_active s1 \<or> cm_op (sa_cmds s1 ?c) = FENCE\<rparr>"
    by (auto simp: sa_dispatch_def Let_def split: if_splits bind_splits)
  note inv = sa_invD [OF assms(1)] sa_inv_parts [OF assms(1)]
  obtain c l where cl: "inst_list s = c # l"
    using ne(1) inv(2) by (cases "inst_list s") (auto simp: queues_ok_def bq_wf_def bq_is_empty_def)
  let ?cs = "build_data_dep c (sa_rob s) (update_status c COSIM_WAITING (sa_cmds s))"
  note dp = dispatch_parts [OF assms(1) cl ne(2)]
  have pop: "bq_wf (bq_pop_front (sa_inst_queue s))" "bq_list (bq_pop_front (sa_inst_queue s)) = l"
    using ne(1) inv(2) cl bq_pop_wf by (simp_all add: queues_ok_def)
  have kindR: "\<forall>x\<in>set (rob_list s). same_kind (?cs x) (sa_cmds s x)"
    using dp(1,2) by (auto simp: same_kind_def)
  have kc: "cm_status (?cs c) = COSIM_WAITING" "cm_op (?cs c) = cm_op (sa_cmds s c)"
    using dp(2) [of c] by (auto simp: same_kind_def)
  note parts = parts_dispatch [OF inv(7) [folded parts_cong [OF kindR]] dp(1) kc(1)]
  have notin: "c \<notin> set (bq_list (sa_load_queue s))" "c \<notin> set (bq_list (sa_store_queue s))" "c \<notin> set (bq_list (sa_exe_queue s))"
    using parts_mem(1-3) [OF inv(7)] dp(1) by blast+
  have wf: "bq_wf (rb_queue (sa_rob s))" "bq_wf (sa_load_queue s)" "bq_wf (sa_store_queue s)" "bq_wf (sa_exe_queue s)"
    using inv(2) by (simp_all add: queues_ok_def)
  from s1 have "dispatch_cmd c (upd_status c COSIM_WAITING s) = Some s1" using cl by simp
  then show ?thesis
  proof (cases rule: dispatch_cmd_cases)
    case (1 rq q)
    note ins = bq_insert_Some [OF 1(1) [unfolded upd_status_def, simplified] wf(1) dp(1)]
      bq_insert_Some [OF 1(3) [unfolded upd_status_def, simplified] wf(2) notin(1)]
    have eq: "s' = s\<lparr>sa_cmds := ?cs, sa_rob := (sa_rob s)\<lparr>rb_queue := rq\<rparr>, sa_load_queue := q,
        sa_inst_queue := bq_pop_front (sa_inst_queue s), sa_fence_active := cm_op (sa_cmds s c) = FENCE\<rparr>"
      using ne(2) kc(2) cl by (simp add: s' 1(4) upd_status_def)
    have "queues_ok s'" using inv(2) pop(1) ins by (simp add: eq queues_ok_def)
    moreover have "is_ld (cm_type (?cs c)) FENCE" using 1(2) by (simp add: is_ld_def upd_status_def)
    note parts(1) [OF this]
    ultimately show ?thesis using dp(3-8) ins pop(2) by (simp add: sa_inv_def eq)
  next
    case (2 rq q)
    note ins = bq_insert_Some [OF 2(1) [unfolded upd_status_def, simplified] wf(1) dp(1)]
      bq_insert_Some [OF 2(3) [unfolded upd_status_def, simplified] wf(3) notin(2)]
    have eq: "s' = s\<lparr>sa_cmds := ?cs, sa_rob := (sa_rob s)\<lparr>rb_queue := rq\<rparr>, sa_store_queue := q,
        sa_inst_queue := bq_pop_front (sa_inst_queue s), sa_fence_active := cm_op (sa_cmds s c) = FENCE\<rparr>"
      using ne(2) kc(2) cl by (simp add: s' 2(4) upd_status_def)
    have "queues_ok s'" using inv(2) pop(1) ins by (simp add: eq queues_ok_def)
    moreover have "cm_type (?cs c) = STORE" using 2(2) by (simp add: upd_status_def)
    note parts(2) [OF this]
    ultimately show ?thesis using dp(3-8) ins pop(2) by (simp add: sa_inv_def eq)
  next
    case (3 rq q)
    note ins = bq_insert_Some [OF 3(1) [unfolded upd_status_def, simplified] wf(1) dp(1)]
      bq_insert_Some [OF 3(3) [unfolded upd_status_def, simplified] wf(4) notin(3)]
    have eq: "s' = s\<lparr>sa_cmds := ?cs, sa_rob := (sa_rob s)\<lparr>rb_queue := rq\<rparr>, sa_exe_queue := q,
        sa_inst_queue := bq_pop_front (sa_inst_queue s), sa_fence_active := cm_op (sa_cmds s c) = FENCE\<rparr>"
      using ne(2) kc(2) cl by (simp add: s' 3(4) upd_status_def)
    have "queues_ok s'" using inv(2) pop(1) ins by (simp add: eq queues_ok_def)
    moreover have "cm_type (?cs c) = EXE" using 3(2) by (simp add: upd_status_def)
    note parts(3) [OF this]
    ultimately show ?thesis using dp(3-8) ins pop(2) by (simp add: sa_inv_def eq)
  qed
qed (use assms in simp)

section \<open>The DMA engine and the clients\<close>

lemma retire_one:
  assumes "sa_inv h (c # cs) k s"
  shows "sa_inv h cs k (finish_cmd c s)" "cm_type (sa_cmds (finish_cmd c s) c) \<noteq> EXE"
proof -
  note inv = sa_invD [OF assms] sa_inv_parts [OF assms]
  have mem: "c \<in> dma_live (sa_dma s) \<union> set (c # cs)" by simp
  note pm = parts_mem(10) [OF inv(7) mem]
  then show "cm_type (sa_cmds (finish_cmd c s) c) \<noteq> EXE" by (simp add: finish_cmd_eq set_done_status)
  have "cmd_wt (sa_dataflow s) (sa_cmds s c)" using inv(3) pm by (simp add: own_ok_def)
  then have nf: "cm_op (sa_cmds s c) \<noteq> FENCE" using pm by (cases "cm_type (sa_cmds s c)") (auto simp: cmd_wt_def)
  have X: "c \<notin> dma_live (sa_dma s)" "c \<notin> set cs" using inv(6) by (auto simp: dma_ok_def)
  then have eq: "dma_live (sa_dma s) \<union> set (c # cs) - {c} = dma_live (sa_dma s) \<union> set cs" by auto
  note p = parts_finish(4) [OF inv(7) mem, unfolded eq]
  have "dma_ok h cs k (set (inst_list s)) (set (rob_list s)) (set_done c (sa_cmds s)) (sa_txns s) (sa_dma s)"
    using finish_parts(5) [OF assms, of c] pm nf unfolding dma_ok_def by auto
  moreover have "queues_ok (finish_cmd c s)" using inv(2) by (simp add: queues_ok_def finish_cmd_eq)
  ultimately show "sa_inv h cs k (finish_cmd c s)"
    using finish_parts(1-4,6) [OF assms, of c] pm nf p inv(5)
    by (simp add: sa_inv_def finish_cmd_eq)
qed

lemma retire_dma_inv:
  assumes "sa_inv h cs k s"
  shows "\<exists>s'. retire_dma cs s = Some s' \<and> sa_inv h [] k s' \<and> sa_dma s' = sa_dma s \<and> sa_net s' = sa_net s \<and>
    sa_dataflow s' = sa_dataflow s \<and> sa_preloads s' = sa_preloads s"
  using assms
proof (induction cs arbitrary: s)
  case (Cons c cs)
  note one = retire_one [OF Cons.prems]
  then have i: "sa_inv h cs k ((finish_cmd c s)\<lparr>sa_max_load_dma := n\<rparr>)" "sa_inv h cs k ((finish_cmd c s)\<lparr>sa_max_store_dma := n\<rparr>)" for n
    by simp_all
  show ?case
    using one(2) Cons.IH [OF i(1)] Cons.IH [OF i(2)]
    by (cases "cm_type (sa_cmds (finish_cmd c s) c)") (auto simp: Let_def finish_cmd_eq)
qed simp

lemma run_dma_taken:
  assumes inv0: "sa_inv h [] k s" and d: "dma_cycle (sa_local_cycle s - 1) (sa_txns s, sa_l2 s, sa_dma s) = Some (l2, e)"
    "take_completed e = (cs, e1)"
  shows "sa_inv h cs k (s\<lparr>sa_l2 := l2, sa_dma := e1\<rparr>)" "de_completed e1 = []" "de_burst_bytes e1 = de_burst_bytes (sa_dma s)"
proof -
  note inv = sa_invD [OF inv0] sa_inv_parts [OF inv0]
  obtain taken where t: "dma_reach taken (sa_txns s) (sa_dma s)"
    "set taken \<union> dma_seen (sa_dma s) \<subseteq> h - set (inst_list s)"
    "\<forall>c\<in>set taken \<union> dma_seen (sa_dma s). c \<in> set (rob_list s) \<longrightarrow>
       cm_status (sa_cmds s c) \<notin> {COSIM_WAITING, COSIM_ISSUED}"
    "unat (de_next_req_id (sa_dma s)) + k < 2 ^ 64"
    using inv(6) by (auto simp: dma_ok_def)
  have r: "dma_reach taken (sa_txns s) e" by (rule dma_do_cycle [OF t(1) d(1)])
  have "dma_inv taken (sa_txns s) (sa_dma s)" "dma_inv taken (sa_txns s) e"
    using dma_reach_inv t(1) r by blast+
  note live = dma_cycle_live [OF this(1) d(1)] take_completed_live [OF this(2) d(2)]
  then show "de_completed e1 = []" "de_burst_bytes e1 = de_burst_bytes (sa_dma s)" by simp_all
  have "dma_reach (taken @ cs) (sa_txns s) e1" by (rule dma_do_take [OF r d(2)])
  then have "dma_ok h cs k (set (inst_list s)) (set (rob_list s)) (sa_cmds s) (sa_txns s) e1"
    unfolding dma_ok_def using live t(2-4) by (intro conjI exI [of _ "taken @ cs"]) auto
  moreover have "queues_ok (s\<lparr>sa_l2 := l2, sa_dma := e1\<rparr>)" using inv(2) by (simp add: queues_ok_def)
  moreover have "dma_live (sa_dma s) \<union> set [] = dma_live e1 \<union> set cs" using live by auto
  note inv(7) [unfolded this]
  ultimately show "sa_inv h cs k (s\<lparr>sa_l2 := l2, sa_dma := e1\<rparr>)"
    using inv(1,3-5) sa_inv_ready [OF inv0] by (simp add: sa_inv_def)
qed

lemma run_dma_inv:
  assumes "sa_inv h [] k s" "run_dma s = Some s'"
  shows "sa_inv h [] k s' \<and> de_completed (sa_dma s') = [] \<and> sa_net s' = sa_net s \<and> sa_dataflow s' = sa_dataflow s \<and>
    sa_preloads s' = sa_preloads s \<and> de_burst_bytes (sa_dma s') = de_burst_bytes (sa_dma s)"
proof -
  obtain l2 e cs e1 where d: "dma_cycle (sa_local_cycle s - 1) (sa_txns s, sa_l2 s, sa_dma s) = Some (l2, e)"
    "take_completed e = (cs, e1)" "retire_dma cs (s\<lparr>sa_l2 := l2, sa_dma := e1\<rparr>) = Some s'"
    using assms(2) by (auto simp: run_dma_def split: bind_splits prod.splits)
  note taken = run_dma_taken [OF assms(1) d(1,2)]
  from retire_dma_inv [OF taken(1)] d(3) taken(2,3) show ?thesis by auto
qed

lemma count_cycle_inv [simp]: "sa_inv h X k (count_cycle s) = sa_inv h X k s"
  by (simp add: count_cycle_def)

lemma commit_dma [simp]: "sa_dma (sa_commit s) = sa_dma s"
  by (simp add: sa_commit_def split: prod.split)

lemma sa_room: "sa_inv h X k s \<Longrightarrow> unat (de_next_req_id (sa_dma s)) + k' < 2 ^ 64 \<Longrightarrow> sa_inv h X k' s"
  by (auto simp: sa_inv_def dma_ok_def)

lemma dma_submit_completed:
  "dma_reach taken m e \<Longrightarrow> dma_submit c op0 a b r now (m, e) = Some (rid, m', e') \<Longrightarrow> de_completed e' = de_completed e"
  using dma_submit_live dma_reach_inv by blast

lemma array_keeps_dma:
  assumes s: "exec_weights E s = Some s1" "exec_psums_ws E s1 = Some s2"
    "exec_mm_os E s2 = Some s3" "exec_psums_os E s3 = Some s4" "exec_exe E s4 = Some s5"
  shows "sa_dma s5 = sa_dma s"
proof -
  have "sa_dma s1 = sa_dma s" using s(1)
    by (auto simp: exec_weights_def Let_def finish_cmd_eq split: if_splits list.splits)
  moreover have "sa_dma s2 = sa_dma s1" using s(2)
    by (auto simp: exec_psums_ws_def Let_def finish_cmd_eq remove_tracked_mm_cmd_def split: if_splits list.splits option.splits)
  moreover have "sa_dma s3 = sa_dma s2" using s(3)
    by (auto simp: exec_mm_os_def finish_cmd_eq split: if_splits list.splits bind_splits)
  moreover have "sa_dma s4 = sa_dma s3" using s(4)
    by (auto simp: exec_psums_os_def Let_def finish_cmd_eq split: if_splits list.splits option.splits)
  moreover have "sa_dma s5 = sa_dma s4"
  proof -
    have "execute_cmd E c (upd_status c COSIM_EXECUTING s4) = Some x \<Longrightarrow> sa_dma x = sa_dma s4" for c x
      by (erule execute_cmd_cases) simp_all
    then show ?thesis using s(5) by (auto simp: exec_exe_def split: if_splits bind_splits)
  qed
  ultimately show ?thesis by simp
qed

lemma execute_keeps_completed:
  assumes "sa_inv h [] (Suc (Suc k)) s" "sa_execute E s = Some s'"
  shows "de_completed (sa_dma s') = de_completed (sa_dma s)"
proof -
  obtain s1 s2 s3 s4 s5 s6 where s: "exec_weights E s = Some s1" "exec_psums_ws E s1 = Some s2"
    "exec_mm_os E s2 = Some s3" "exec_psums_os E s3 = Some s4" "exec_exe E s4 = Some s5"
    "exec_load E s5 = Some s6" "exec_store E s6 = Some s'"
    using assms(2) by (auto simp: sa_execute_def split: bind_splits)
  have i5: "sa_inv h [] (Suc (Suc k)) s5"
    by (rule exec_exe_inv [OF exec_psums_os_inv [OF exec_mm_os_inv [OF exec_psums_ws_inv
          [OF exec_weights_inv [OF assms(1) s(1)] s(2)] s(3)] s(4)] s(5)])
  note i6 = exec_load_inv [OF i5 s(6) refl]
  note array_keeps_dma [OF s(1-5)]
  moreover have "de_completed (sa_dma s6) = de_completed (sa_dma s5)"
    using s(6) sa_invD(6) [OF i5]
    by (auto simp: exec_load_def sa_load_def sa_submit_def Let_def upd_status_def dma_ok_def
        dest: dma_submit_completed split: if_splits bind_splits)
  moreover have "de_completed (sa_dma s') = de_completed (sa_dma s6)"
    using s(7) sa_invD(6) [OF i6]
    by (auto simp: exec_store_def sa_store_def sa_submit_def Let_def upd_status_def dma_ok_def
        dest: dma_submit_completed split: if_splits bind_splits)
  ultimately show ?thesis by simp
qed

lemma sa_cycle_inv:
  assumes "sa_inv h [] k s" "unat (de_next_req_id (sa_dma s)) + 2 < 2 ^ 64" "sa_cycle E s = Some s'"
  shows "sa_inv h [] 0 s'"
proof -
  let ?s0 = "(count_cycle s)\<lparr>sa_local_cycle := sa_local_cycle (count_cycle s) + 1\<rparr>"
  obtain s1 s2 s3 where s: "run_dma ?s0 = Some s1" "sa_execute E (sa_commit s1) = Some s2"
    "sa_issue (try_complete_fence s2) = Some s3" "sa_dispatch s3 = Some s'"
    using assms(3) by (auto simp: sa_cycle_def Let_def split: bind_splits)
  have "sa_inv h [] 2 s" by (rule sa_room [OF assms(1,2)])
  then have "sa_inv h [] 2 ?s0" by simp
  note i1 = run_dma_inv [OF this s(1)]
  then have i2: "sa_inv h [] (Suc (Suc 0)) (sa_commit s1)" using sa_commit_inv [of h "[]" _ s1] by (simp add: numeral_2_eq_2)
  have "de_completed (sa_dma s2) = []" using execute_keeps_completed [OF i2 s(2)] i1 by simp
  from sa_dispatch_inv [OF sa_issue_inv [OF try_complete_fence_inv [OF sa_execute_inv [OF i2 s(2)] this] s(3)] s(4)]
  show ?thesis .
qed

lemma stonne_cycle_inv:
  assumes "sa_inv h [] k s" "unat (de_next_req_id (sa_dma s)) + 2 < 2 ^ 64" "stonne_cycle E s = Some s'"
  shows "sa_inv h [] 0 s'"
proof -
  obtain s1 ab n ports where s1: "sa_cycle E s = Some s1" "ab_cycle (sa_ab s1) = Some ab"
    "s' = s1\<lparr>sa_net := n, sa_ab := ab\<lparr>ab_ports := ports\<rparr>\<rparr>"
    using assms(3) by (auto simp: stonne_cycle_def Let_def split: bind_splits prod.splits)
  have i: "sa_inv h [] 0 s1" by (rule sa_cycle_inv [OF assms(1,2) s1(1)])
  have "ab_cmds (ab\<lparr>ab_ports := ports\<rparr>) = ab_cmds (sa_ab s1)"
    using ab_cycle_cmds [OF s1(2)] by (simp add: ab_cmds_def)
  then show ?thesis using i by (simp add: sa_inv_def s1(3) queues_ok_def)
qed

lemma sa_receive_inv:
  assumes inv: "sa_inv h [] k s" and new: "p \<notin> h" and wt: "cmd_wt (sa_dataflow s) cmd" "cm_parents cmd = []"
    and rec: "sa_receive p (s\<lparr>sa_cmds := (sa_cmds s)(p := cmd)\<rparr>) = Some s'"
  shows "sa_inv (insert p h) [] k s'"
proof -
  note i = sa_invD [OF inv] sa_inv_parts [OF inv]
  obtain q where q: "bq_insert p (sa_inst_queue s) = Some q"
    "s' = s\<lparr>sa_cmds := (sa_cmds s)(p := cmd), sa_inst_queue := q\<rparr>"
    using rec by (auto simp: sa_receive_def split: bind_splits)
  have out: "p \<notin> set (inst_list s)" "p \<notin> set (rob_list s)" using i(3) new by (auto simp: own_ok_def)
  have mm: "p \<notin> set (sa_mms s)" using parts_mem(8) [OF i(7), of p] out by blast
  note q' = bq_insert_Some [OF q(1) _ out(1)]
  have wf: "bq_wf (sa_inst_queue s)" using i(2) by (simp add: queues_ok_def)
  have "queues_ok s'" using i(2) q' by (simp add: queues_ok_def q(2))
  moreover have "sb_reach ((sa_cmds s)(p := cmd), rob_list s)"
    using i(1) out(2) by (blast intro: sb_more sb_arrive)
  moreover have "\<forall>c\<in>set (rob_list s). same_kind (((sa_cmds s)(p := cmd)) c) (sa_cmds s c)" using out by auto
  note i(7) [folded parts_cong [OF this]]
  moreover have "own_ok (insert p h) (insert p (set (inst_list s))) (set (rob_list s)) ((sa_cmds s)(p := cmd)) (sa_dataflow s)"
    using i(3) out wt by (auto simp: own_ok_def)
  moreover have "fence_ok (sa_fence_active s) ((sa_cmds s)(p := cmd)) (rob_list s)"
    using i(4) out older_mem [of "rob_list s"] unfolding fence_ok_def by (metis fun_upd_other last_in_set)
  moreover have "ready_ok (insert p h) (insert p (set (inst_list s))) (set (rob_list s)) ((sa_cmds s)(p := cmd))"
  proof -
    have par: "\<forall>c\<in>h. p \<notin> set (cm_parents (sa_cmds s c))"
      using sa_inv_ready [OF inv] new unfolding ready_ok_def by blast
    moreover have "set (rob_list s) \<subseteq> h" using i(3) by (auto simp: own_ok_def)
    moreover have "x \<in> h \<Longrightarrow> x \<noteq> p" for x using new by blast
    ultimately show ?thesis
      using sa_inv_ready [OF inv] wt(2) out(2) unfolding ready_ok_def cmd_is_ready_def
      by (auto simp: subset_iff)
  qed
  moreover have "ab_ok (ab_cmds (sa_ab s)) (sa_mms s) ((sa_cmds s)(p := cmd))"
    using i(5) mm by (auto simp: ab_ok_def intro!: filter_cong)
  moreover have "dma_ok (insert p h) [] k (insert p (set (inst_list s))) (set (rob_list s)) ((sa_cmds s)(p := cmd)) (sa_txns s) (sa_dma s)"
    using i(6) new out unfolding dma_ok_def by (elim conjE exE, intro conjI exI) auto
  ultimately show ?thesis using q' wf by (simp add: sa_inv_def q(2))
qed

section \<open>No assertion fails\<close>

lemma submit_burst:
  assumes "dma_submit c op0 a b r now (m, e) = Some (rid, m', e')"
  shows "de_burst_bytes e' = de_burst_bytes e"
proof -
  let ?n = "de_next_req_id e"
  obtain e2 where enq: "enqueue_bursts ?n a b r now (m, e\<lparr>de_next_req_id := ?n + 1\<rparr>) = (m', e2)"
    and e': "de_burst_bytes e' = de_burst_bytes e2"
    by (cases "enqueue_bursts ?n a b r now (m, e\<lparr>de_next_req_id := ?n + 1\<rparr>)")
      (use assms in \<open>auto simp: dma_submit_def Let_def\<close>)
  have "de_burst_bytes e2 = de_burst_bytes e"
  proof (cases "b \<noteq> 0 \<and> de_has_l2 e")
    case True
    then have "inject_bursts ?n a r [0..<unat (burst_count (de_burst_bytes e) b)]
        (m, e\<lparr>de_next_req_id := ?n + 1\<rparr>) = (m', e2)"
      using enq by (simp add: enqueue_bursts_def Let_def)
    from inject_bursts_facts [OF this] show ?thesis by auto
  next
    case False
    then show ?thesis using enq by (auto simp: enqueue_bursts_def Let_def split: if_splits)
  qed
  with e' show ?thesis by simp
qed

lemma submit_total:
  "de_burst_bytes e \<noteq> 0 \<Longrightarrow> \<exists>rid m' e'. dma_submit c op0 a b r now (m, e) = Some (rid, m', e')"
  by (simp add: dma_submit_def Let_def split_beta)

lemma head_total:
  "bq_wf q \<Longrightarrow> \<not> bq_is_empty q \<Longrightarrow> \<exists>c. bq_get_cmd_at 0 q = Some c \<and> c \<in> set (bq_list q)"
  using bq_head by blast

lemma insert_total: "bq_wf q \<Longrightarrow> \<not> bq_is_full q \<Longrightarrow> \<exists>q'. bq_insert c q = Some q'"
  by (auto simp: bq_insert_def bq_wf_def bq_is_full_def)

lemma run_dma_total:
  assumes "sa_inv h [] k s" "dma_cycle (sa_local_cycle s - 1) (sa_txns s, sa_l2 s, sa_dma s) \<noteq> None"
  shows "\<exists>s'. run_dma s = Some s'"
proof -
  note inv = sa_invD [OF assms(1)] sa_inv_parts [OF assms(1)]
  obtain l2 e where d: "dma_cycle (sa_local_cycle s - 1) (sa_txns s, sa_l2 s, sa_dma s) = Some (l2, e)"
    using assms(2) by auto
  obtain cs e1 where t: "take_completed e = (cs, e1)" by fastforce
  have "sa_inv h cs k (s\<lparr>sa_l2 := l2, sa_dma := e1\<rparr>)" by (rule run_dma_taken [OF assms(1) d t])
  from retire_dma_inv [OF this] show ?thesis by (auto simp: run_dma_def d t)
qed

lemma exec_weights_total: "\<exists>s'. exec_weights E s = Some s'"
  by (simp add: exec_weights_def Let_def split: list.split)

lemma exec_weights_os: "sa_dataflow s = DATAFLOW_OS \<Longrightarrow> exec_weights E s = Some s' \<Longrightarrow> s' = s"
  by (simp add: exec_weights_def)

lemma exec_psums_ws_total:
  assumes "sa_inv h X k s"
  shows "\<exists>s'. exec_psums_ws E s = Some s'"
proof (cases "sa_dataflow s = DATAFLOW_WS \<and> is_psums_accumulated (sa_ab s)")
  case True
  obtain c cs where c: "ab_cmds (sa_ab s) = c # cs" "get_head_command (sa_ab s) = Some c"
    using ab_head True by blast
  then have "sa_mms s = c # cs" using ws_pending(1) [OF assms] True by simp
  with True c show ?thesis by (simp add: exec_psums_ws_def Let_def remove_tracked_mm_cmd_def finish_cmd_eq)
qed (auto simp: exec_psums_ws_def)

lemma exec_psums_ws_os: "sa_dataflow s = DATAFLOW_OS \<Longrightarrow> exec_psums_ws E s = Some s' \<Longrightarrow> s' = s"
  by (simp add: exec_psums_ws_def)

lemma exec_mm_os_total: "\<exists>s'. exec_mm_os E s = Some s'"
proof (cases "is_psums_accumulated (sa_ab s)")
  case True
  then obtain c where "get_head_command (sa_ab s) = Some c" using ab_head by blast
  then show ?thesis by (auto simp: exec_mm_os_def split: list.split)
qed (auto simp: exec_mm_os_def split: list.split)

lemma exec_mm_os_keeps:
  "exec_mm_os E s = Some s' \<Longrightarrow> sa_net s' = sa_net s \<and> sa_preloads s' = sa_preloads s \<and> sa_dataflow s' = sa_dataflow s"
  by (auto simp: exec_mm_os_def finish_cmd_eq split: if_splits list.splits bind_splits)

definition os_head :: "'n sa_env \<Rightarrow> 'n sa \<Rightarrow> bool" where
  "os_head E s \<longleftrightarrow> (sa_dataflow s = DATAFLOW_OS \<and> en_psums_received E (sa_net s) \<longrightarrow>
     en_mem_get_command E (sa_net s) \<in> {None} \<union> (case sa_preloads s of [] \<Rightarrow> {} | c # _ \<Rightarrow> {Some c}))"

lemma exec_psums_os_total: "os_head E s \<Longrightarrow> \<exists>s'. exec_psums_os E s = Some s'"
  by (auto simp: os_head_def exec_psums_os_def Let_def finish_cmd_eq split: list.splits option.split)

lemma execute_cmd_total:
  "cmd_wt df (sa_cmds s c) \<Longrightarrow> cm_type (sa_cmds s c) = EXE \<Longrightarrow> \<exists>s'. execute_cmd E c s = Some s'"
  by (cases "cm_op (sa_cmds s c)") (auto simp: cmd_wt_def execute_cmd_def Let_def mm_ops_def)

lemma contlr_ready:
  assumes "sa_inv h X k s" "c \<in> set (rob_list s)" "cm_status (sa_cmds s c) = COSIM_ISSUED"
  shows "cmd_is_ready (sa_cmds s) c"
  using sa_inv_ready [OF assms(1)] assms(2,3) by (simp add: ready_ok_def)

lemma exec_exe_total:
  assumes "sa_inv h X k s"
  shows "\<exists>s'. exec_exe E s = Some s'"
proof (cases "bq_is_empty (sa_exe_contlr s)")
  case False
  note inv = sa_invD [OF assms] sa_inv_parts [OF assms]
  obtain c where c: "bq_get_cmd_at 0 (sa_exe_contlr s) = Some c" "c \<in> set (bq_list (sa_exe_contlr s))"
    using head_total False inv(2) unfolding queues_ok_def by blast
  note pm = parts_mem(6) [OF inv(7) c(2)]
  have "cmd_wt (sa_dataflow s) (sa_cmds s c)" using inv(3) pm by (simp add: own_ok_def)
  then have "\<exists>s'. execute_cmd E c (upd_status c COSIM_EXECUTING s) = Some s'"
    using pm by (intro execute_cmd_total [of "sa_dataflow s"]) (simp_all add: upd_status_def)
  with c(1) False pm contlr_ready [OF assms] show ?thesis by (auto simp: exec_exe_def)
qed (simp add: exec_exe_def)

lemma exec_load_total:
  assumes "sa_inv h X k s" "de_burst_bytes (sa_dma s) \<noteq> 0"
  shows "\<exists>s'. exec_load E s = Some s' \<and> de_burst_bytes (sa_dma s') = de_burst_bytes (sa_dma s)"
proof (cases "bq_is_empty (sa_load_contlr s)")
  case False
  note inv = sa_invD [OF assms(1)] sa_inv_parts [OF assms(1)]
  obtain c where c: "bq_get_cmd_at 0 (sa_load_contlr s) = Some c" "c \<in> set (bq_list (sa_load_contlr s))"
    using head_total False inv(2) unfolding queues_ok_def by blast
  note pm = parts_mem(4) [OF inv(7) c(2)]
  let ?s = "upd_status c COSIM_EXECUTING s"
  obtain rid m e where sub: "dma_submit c (cm_op (sa_cmds ?s c)) (cm_dram_addr (sa_cmds ?s c))
      (ucast (cm_rows (sa_cmds ?s c) * cm_cols (sa_cmds ?s c) * 1)) True (sa_local_cycle s) (sa_txns s, sa_dma s) = Some (rid, m, e)"
    using submit_total [OF assms(2)] by blast
  have "sa_load c ?s = Some (?s\<lparr>sa_max_load_dma := sa_max_load_dma s + 1, sa_txns := m, sa_dma := e\<rparr>)"
    using sub by (simp add: sa_load_def sa_submit_def upd_status_def)
  with c(1) False pm contlr_ready [OF assms(1)] submit_burst [OF sub] show ?thesis
    by (auto simp: exec_load_def upd_status_def)
qed (simp add: exec_load_def)

lemma exec_store_total:
  assumes "sa_inv h X k s" "de_burst_bytes (sa_dma s) \<noteq> 0"
  shows "\<exists>s'. exec_store E s = Some s'"
proof (cases "bq_is_empty (sa_store_contlr s)")
  case False
  note inv = sa_invD [OF assms(1)] sa_inv_parts [OF assms(1)]
  obtain c where c: "bq_get_cmd_at 0 (sa_store_contlr s) = Some c" "c \<in> set (bq_list (sa_store_contlr s))"
    using head_total False inv(2) unfolding queues_ok_def by blast
  note pm = parts_mem(5) [OF inv(7) c(2)]
  let ?s = "upd_status c COSIM_EXECUTING s"
  obtain rid m e where sub: "dma_submit c (cm_op (sa_cmds ?s c)) (cm_dram_addr (sa_cmds ?s c))
      (ucast (cm_rows (sa_cmds ?s c) * cm_cols (sa_cmds ?s c) * 1)) False (sa_local_cycle s) (sa_txns s, sa_dma s) = Some (rid, m, e)"
    using submit_total [OF assms(2)] by blast
  have "sa_store c ?s = Some (?s\<lparr>sa_max_store_dma := sa_max_store_dma s + 1, sa_txns := m, sa_dma := e\<rparr>)"
    using sub by (simp add: sa_store_def sa_submit_def upd_status_def)
  with c(1) False pm contlr_ready [OF assms(1)] show ?thesis by (auto simp: exec_store_def)
qed (simp add: exec_store_def)

lemma sa_issue_total:
  assumes "sa_inv h X k s"
  shows "\<exists>s'. sa_issue s = Some s'"
proof -
  have "\<exists>s'. issue_store s = Some s'" if "sa_inv h X k s" for s :: "'a sa"
  proof (cases "bq_is_empty (sa_store_queue s) \<or> bq_is_full (sa_store_contlr s)")
    case False
    note inv = sa_invD [OF that] sa_inv_parts [OF that]
    obtain c where c: "bq_get_cmd_at 0 (sa_store_queue s) = Some c" "c \<in> set (bq_list (sa_store_queue s))"
      using head_total False inv(2) unfolding queues_ok_def by blast
    have "\<exists>q. bq_insert c (sa_store_contlr s) = Some q" using insert_total False inv(2) unfolding queues_ok_def by blast
    with parts_mem(2) [OF inv(7) c(2)] c(1) False show ?thesis
      by (auto simp: issue_store_def issue_cmd_def upd_status_def)
  qed (auto simp: issue_store_def)
  moreover have "\<exists>s'. issue_load s = Some s'" if "sa_inv h X k s" for s :: "'a sa"
  proof (cases "bq_is_empty (sa_load_queue s) \<or> bq_is_full (sa_load_contlr s)")
    case False
    note inv = sa_invD [OF that] sa_inv_parts [OF that]
    obtain c where c: "bq_get_cmd_at 0 (sa_load_queue s) = Some c" "c \<in> set (bq_list (sa_load_queue s))"
      using head_total False inv(2) unfolding queues_ok_def by blast
    have "\<exists>q. bq_insert c (sa_load_contlr s) = Some q" using insert_total False inv(2) unfolding queues_ok_def by blast
    with parts_mem(1) [OF inv(7) c(2)] c(1) False show ?thesis
      by (auto simp: issue_load_def issue_cmd_def upd_status_def)
  qed (auto simp: issue_load_def)
  moreover have "\<exists>s'. issue_exe s = Some s'" if "sa_inv h X k s" for s :: "'a sa"
  proof (cases "bq_is_empty (sa_exe_queue s) \<or> bq_is_full (sa_exe_contlr s)")
    case False
    note inv = sa_invD [OF that] sa_inv_parts [OF that]
    obtain c where c: "bq_get_cmd_at 0 (sa_exe_queue s) = Some c" "c \<in> set (bq_list (sa_exe_queue s))"
      using head_total False inv(2) unfolding queues_ok_def by blast
    have "\<exists>q. bq_insert c (sa_exe_contlr s) = Some q" using insert_total False inv(2) unfolding queues_ok_def by blast
    with parts_mem(3) [OF inv(7) c(2)] c(1) False show ?thesis
      by (auto simp: issue_exe_def issue_cmd_def upd_status_def)
  qed (auto simp: issue_exe_def)
  ultimately obtain s1 s2 s3 where "issue_store s = Some s1" "issue_load s1 = Some s2" "issue_exe s2 = Some s3"
    using assms issue_store_inv issue_load_inv by metis
  then show ?thesis by (simp add: sa_issue_def)
qed

lemma sa_dispatch_total:
  assumes "sa_inv h X k s"
  shows "\<exists>s'. sa_dispatch s = Some s'"
proof (cases "bq_is_empty (sa_inst_queue s) \<or> sa_fence_active s \<or> \<not> can_dispatch s (hd (inst_list s))")
  case False
  note inv = sa_invD [OF assms]
  let ?c = "hd (inst_list s)" and ?s = "upd_status (hd (inst_list s)) COSIM_WAITING s"
  have wf: "bq_wf (rb_queue (sa_rob s))" "bq_wf (sa_load_queue s)" "bq_wf (sa_store_queue s)" "bq_wf (sa_exe_queue s)"
    using inv(2) by (simp_all add: queues_ok_def)
  have ty: "cm_type (build_data_dep ?c (sa_rob ?s) (sa_cmds ?s) ?c) = cm_type (sa_cmds s ?c)"
    using build_deps_kind [of ?c "bq_list (rb_queue (sa_rob ?s))" "sa_cmds ?s" ?c]
    by (simp add: build_data_dep_def same_kind_def upd_status_def)
  obtain rq where rq: "bq_insert ?c (rb_queue (sa_rob s)) = Some rq"
    using insert_total [OF wf(1)] False by (auto simp: can_dispatch_def split: if_splits)
  have "\<exists>s1. dispatch_cmd ?c ?s = Some s1"
    using False rq ty insert_total [OF wf(2), of ?c] insert_total [OF wf(3), of ?c] insert_total [OF wf(4), of ?c]
    by (cases "cm_type (sa_cmds s ?c)")
      (auto simp: dispatch_cmd_def can_dispatch_def Let_def upd_status_def split: if_splits)
  with False show ?thesis by (auto simp: sa_dispatch_def Let_def)
qed (auto simp: sa_dispatch_def Let_def)

section \<open>Reachable states\<close>

text \<open>
  The accelerator starts empty, with an idle engine of any configuration.  A cycle runs; the core
  allocates a command at an address it has not used before and sends it; the memory system answers
  the engine, changes its own state, or changes the transactions other than those that wait for
  injection.  \<open>h\<close> collects the addresses used.  A cycle needs room for the two requests it may
  submit in the 64-bit identifier counter.
\<close>

inductive sa_reach :: "'n sa_env \<Rightarrow> nat set \<Rightarrow> 'n sa \<Rightarrow> bool" for E where
  sa_start: "de_inflight e = [] \<Longrightarrow> de_completed e = [] \<Longrightarrow> de_pending_zero e = [] \<Longrightarrow>
     de_pending_inject e = [] \<Longrightarrow> de_pending_fallback e = [] \<Longrightarrow> ab_pending ab = [] \<Longrightarrow>
     sa_reach E {} ((new_sa df cs ab net m l2)\<lparr>sa_dma := e\<rparr>)"
| sa_do_cycle: "sa_reach E h s \<Longrightarrow> unat (de_next_req_id (sa_dma s)) + 2 < 2 ^ 64 \<Longrightarrow>
     stonne_cycle E s = Some s' \<Longrightarrow> sa_reach E h s'"
| sa_do_receive: "sa_reach E h s \<Longrightarrow> p \<notin> h \<Longrightarrow> cmd_wt (sa_dataflow s) cmd \<Longrightarrow> cm_parents cmd = [] \<Longrightarrow>
     sa_receive p (s\<lparr>sa_cmds := (sa_cmds s)(p := cmd)\<rparr>) = Some s' \<Longrightarrow> sa_reach E (insert p h) s'"
| sa_do_response: "sa_reach E h s \<Longrightarrow> dma_recvResponse (sa_txns s) t (sa_dma s) = Some e \<Longrightarrow>
     sa_reach E h (s\<lparr>sa_dma := e\<rparr>)"
| sa_do_memory: "sa_reach E h s \<Longrightarrow> ts_next (sa_txns s) \<le> ts_next m \<Longrightarrow>
     (\<forall>t\<in>set (de_pending_inject (sa_dma s)).
        t_dma_req_id (ts_txn m t) = t_dma_req_id (ts_txn (sa_txns s) t)) \<Longrightarrow>
     sa_reach E h (s\<lparr>sa_txns := m, sa_l2 := l2\<rparr>)"

text \<open>What the core sends is well-typed; only the stationary multiplication depends on the dataflow.\<close>

definition keeps_kind :: "(command \<Rightarrow> command) \<Rightarrow> bool" where
  "keeps_kind f \<longleftrightarrow> (\<forall>c. same_kind (f c) c \<and> cm_parents (f c) = cm_parents c)"

lemma range_keeps: "keeps_kind compute_sp_addr_range"
proof -
  have "same_kind (compute_sp_addr_range c) c \<and> cm_parents (compute_sp_addr_range c) = cm_parents c" for c
    by (cases "cm_op c = PRELOAD") (simp_all add: compute_sp_addr_range_def same_kind_def)
  then show ?thesis by (simp add: keeps_kind_def)
qed

lemma params_keep: "keeps_kind (exe_params i)" "keeps_kind (move_params i)"
  "keeps_kind (set_params_config a b c d e f g j k)"
proof -
  show "keeps_kind (exe_params i)"
    using range_keeps by (simp add: keeps_kind_def exe_params_def set_params_exe_def same_kind_def)
  show "keeps_kind (move_params i)"
    by (simp add: keeps_kind_def move_params_def set_params_move_def Let_def same_kind_def)
  show "keeps_kind (set_params_config a b c d e f g j k)"
    by (simp add: keeps_kind_def set_params_config_def same_kind_def)
qed

lemma new_command_kind [simp]:
  "cm_type (new_command n t op0 d) = t" "cm_op (new_command n t op0 d) = op0"
  "cm_stay (new_command n t op0 d) = False" "cm_parents (new_command n t op0 d) = []"
  by (simp_all add: new_command_def)

lemma new_command_wt:
  assumes "keeps_kind f" "cmd_wt df ((new_command n t op0 d)\<lparr>cm_stay := st\<rparr>)"
  shows "cmd_wt df ((f (new_command n t op0 d))\<lparr>cm_stay := st\<rparr>)" "st = False \<Longrightarrow> cmd_wt df (f (new_command n t op0 d))"
proof -
  let ?c = "new_command n t op0 d"
  have k: "same_kind (f ?c) ?c" using assms(1) by (simp add: keeps_kind_def)
  show "cmd_wt df ((f ?c)\<lparr>cm_stay := st\<rparr>)"
    using assms(2) k(1) by (simp add: cmd_wt_def same_kind_def split: command_type.splits)
  show "cmd_wt df (f ?c)" if "st = False"
    using assms(2) k(1) that by (simp add: cmd_wt_def same_kind_def split: command_type.splits)
qed

lemma if_SomeE:
  "(if b then x else y) = Some c \<Longrightarrow> (b \<Longrightarrow> x = Some c \<Longrightarrow> P) \<Longrightarrow> (y = Some c \<Longrightarrow> P) \<Longrightarrow> P"
  by (cases b) simp_all

lemma cosim_command_wt:
  assumes "cosim_command i = Some cmd" "df = DATAFLOW_WS \<longrightarrow> \<not> ci_is_mm_stay i"
  shows "cmd_wt df cmd \<and> cm_parents cmd = []"
proof -
  let ?new = "\<lambda>ty op0. new_command (ci_dyn_id i) ty op0 (Some (ci_insn i))"
  have wt: "cmd_wt df ((?new t op0)\<lparr>cm_stay := st\<rparr>)"
    if "(t, op0) \<in> {(EXE, CONFIG), (EXE, FENCE), (EXE, MATRIX_MULTIPLY), (EXE, MATRIX_MULTIPLY_FLIP), (EXE, PRELOAD),
        (EXE, FAKE), (LOAD, MOVE_IN), (STORE, MOVE_OUT), (LOAD_ACC, MOVE_IN_ACC)}" "st \<longrightarrow> df = DATAFLOW_OS" for t op0 st
    using that by (auto simp: cmd_wt_def mm_ops_def)
  have id: "keeps_kind (\<lambda>c. c)" by (simp add: keeps_kind_def)
  note nw = new_command_wt [where st = False, OF params_keep(1)] new_command_wt [where st = False, OF params_keep(2)]
    new_command_wt [where st = False, OF params_keep(3)] new_command_wt [where st = False, OF id]
    new_command_wt [where st = True, OF params_keep(1)]
  have os: "ci_is_mm_stay i \<Longrightarrow> df = DATAFLOW_OS" using assms(2) by (cases df) auto
  have par: "cm_parents (exe_params i c) = cm_parents c" "cm_parents (move_params i c) = cm_parents c"
    "cm_parents (set_params_config a1 b1 c1 d1 e1 f1 g1 j1 k1 c) = cm_parents c" for c a1 b1 c1 d1 e1 f1 g1 j1 k1
    using params_keep by (simp_all add: keeps_kind_def)
  have up: "cm_parents (c\<lparr>cm_stay := b\<rparr>) = cm_parents c" for c :: command and b by simp
  have "cmd_wt df cmd"
    using assms(1) unfolding cosim_command_def Let_def
    apply (elim if_SomeE)
    apply (simp_all only: option.inject option.distinct(1) simp_thms)
    by (hypsubst, rule nw, rule wt; simp add: os)+
  moreover have "cm_parents cmd = []"
    using assms(1) unfolding cosim_command_def Let_def
    apply (elim if_SomeE)
    apply (simp_all only: option.inject option.distinct(1) simp_thms)
    by (hypsubst, simp only: par up new_command_kind)+
  ultimately show ?thesis by simp
qed

lemma cosim_issue_reach:
  assumes "sa_reach E h s" "cosim_issue i p s = Some s'" "ci_is_cosim_func i" "p \<notin> h"
    "sa_dataflow s = DATAFLOW_WS \<longrightarrow> \<not> ci_is_mm_stay i"
  shows "sa_reach E (insert p h) s'"
proof -
  obtain cmd where "cosim_command i = Some cmd" "sa_receive p (s\<lparr>sa_cmds := (sa_cmds s)(p := cmd)\<rparr>) = Some s'"
    using assms(2,3) by (auto simp: cosim_issue_def split: bind_splits)
  with cosim_command_wt [OF this(1) assms(5)] assms(1,4) show ?thesis by (auto intro: sa_do_receive)
qed

lemma dma_ok_reach:
  assumes "dma_ok h X k is R cs m e" "\<And>taken. dma_reach taken m e \<Longrightarrow> dma_reach taken m' e'"
    "de_inflight e' = de_inflight e" "de_completed e' = de_completed e" "de_next_req_id e' = de_next_req_id e"
  shows "dma_ok h X k is R cs m' e' \<and> dma_live e' = dma_live e"
proof -
  have l: "dma_live e' = dma_live e" "dma_seen e' = dma_seen e" by (simp_all add: dma_live_def dma_seen_def assms(3,4))
  from assms(1) obtain taken where "dma_reach taken m e" "set taken \<union> dma_seen e \<subseteq> h - is"
    "\<forall>c\<in>set taken \<union> dma_seen e. c \<in> R \<longrightarrow> cm_status (cs c) \<notin> {COSIM_WAITING, COSIM_ISSUED}"
    "distinct X \<and> set X \<inter> dma_live e = {} \<and> unat (de_next_req_id e) + k < 2 ^ 64"
    unfolding dma_ok_def by (elim conjE exE) blast
  then show ?thesis unfolding dma_ok_def l assms(5) using assms(2) by (intro conjI exI [of _ taken]) simp_all
qed

lemma sa_start_inv:
  assumes "de_inflight e = []" "de_completed e = []" "de_pending_zero e = []"
     "de_pending_inject e = []" "de_pending_fallback e = []" "ab_pending ab = []"
  shows "sa_inv {} [] 0 ((new_sa df cs ab net m l2)\<lparr>sa_dma := e\<rparr>)" (is "sa_inv _ _ _ ?s")
proof -
  have l: "dma_live e = {}" "dma_seen e = {}" using assms by (simp_all add: dma_live_def dma_seen_def)
  have "dma_reach [] m e" using assms(1-5) by (rule dma_start)
  then have "dma_ok {} [] 0 {} {} cs m e"
    using unsigned_less [of "de_next_req_id e"] by (auto simp: dma_ok_def l intro!: exI [of _ "[]"])
  moreover have "sa_parts cs {} {} {} {} {} {} {} {} {} {} {}" by (simp add: sa_parts_def at_def)
  moreover have "sb_reach (cs, [])" by (rule sb_init)
  ultimately show ?thesis
    using assms(6) l
    by (simp add: sa_inv_def new_sa_def new_rob_def new_queue_def queues_ok_def bq_wf_def own_ok_def fence_ok_def
        ready_ok_def ab_ok_def ab_cmds_def)
qed

lemma sa_reach_inv: "sa_reach E h s \<Longrightarrow> sa_inv h [] 0 s"
proof (induction rule: sa_reach.induct)
  case (sa_start e ab df cs net m l2)
  then show ?case by (rule sa_start_inv)
next
  case (sa_do_cycle h s s')
  from stonne_cycle_inv [OF sa_do_cycle(4,2,3)] show ?case .
next
  case (sa_do_receive h s p cmd s')
  from sa_receive_inv [OF sa_do_receive(6,2-5)] show ?case .
next
  case (sa_do_response h s t e)
  note inv = sa_invD [OF sa_do_response(3)] sa_inv_parts [OF sa_do_response(3)] sa_inv_ready [OF sa_do_response(3)]
  have "dma_ok h [] 0 (set (inst_list s)) (set (rob_list s)) (sa_cmds s) (sa_txns s) e \<and> dma_live e = dma_live (sa_dma s)"
    by (rule dma_ok_reach [OF inv(6)])
      (use sa_do_response(2) dma_do_recv in \<open>auto simp: dma_recvResponse_def\<close>)
  with inv show ?case by (simp add: sa_inv_def queues_ok_def)
next
  case (sa_do_memory h s m l2)
  note inv = sa_invD [OF sa_do_memory(4)] sa_inv_parts [OF sa_do_memory(4)] sa_inv_ready [OF sa_do_memory(4)]
  have "dma_ok h [] 0 (set (inst_list s)) (set (rob_list s)) (sa_cmds s) m (sa_dma s)"
    using dma_ok_reach [OF inv(6), of m "sa_dma s"] dma_env sa_do_memory(2,3) by blast
  with inv show ?case by (simp add: sa_inv_def queues_ok_def)
qed

section \<open>A run\<close>

text \<open>An array that answers at once, and a program of a load and a fence.\<close>

definition quick_env :: "unit sa_env" where
  "quick_env = \<lparr>en_weights_preloaded = (\<lambda>_. False), en_reset_weights_preloaded = id, en_reset_fifos = id,
     en_is_compute_finished = (\<lambda>_. True), en_psums_received = (\<lambda>_. False), en_reset_psums_received = id,
     en_has_array_flipped = (\<lambda>_. True), en_preload = id, en_MatrixMultiply = (\<lambda>_ _ _. id),
     en_MatrixMultiplyStay = (\<lambda>_ _ _. id), en_MatrixMultiplyFlip = (\<lambda>_ _ _. id), en_setActivationLimit = (\<lambda>_. id),
     en_msnet_cycle = id, en_dsnet_cycle = id, en_mem_is_idle = (\<lambda>_. True), en_mem_get_command = (\<lambda>_. None),
     en_mem_reset_compute_finished = id, en_mem_preload = (\<lambda>_ _ _ _. id), en_mem_MatrixMultiply = (\<lambda>_ _. id),
     en_mem_config = (\<lambda>_. id), en_mem_cycle = id\<rparr>"

definition demo_fence :: cmd_store where
  "demo_fence = ((\<lambda>_. new_command 9 EXE FAKE None)(0 := new_command 0 EXE FENCE None))(1 := new_command 1 EXE FAKE None)"

definition demo_buffer :: acc_buffer where
  "demo_buffer = new_acc_buffer 0 1 0 64 DATAFLOW_WS"

definition demo_l2 :: cache where
  "demo_l2 = new_cache 2 False 1 64 4096 4 1 4 4"

text \<open>The accelerator \<open>n\<close> cycles after it was started, with its commands, queues and flags.\<close>

definition demo_sa :: "u32 \<Rightarrow> cmd_store \<Rightarrow> nat list \<Rightarrow> nat list \<Rightarrow> nat list \<Rightarrow> nat list \<Rightarrow> bool \<Rightarrow> unit sa" where
  "demo_sa n cs insts rob xq xc fence =
     (new_sa DATAFLOW_WS cs (demo_buffer\<lparr>ab_local_cycle := n\<rparr>) () demo_store demo_l2)
       \<lparr>sa_local_cycle := n, sa_inst_queue := \<lparr>bq_list = insts, bq_capacity = 2, bq_used = int (length insts)\<rparr>,
        sa_rob := (new_rob 48 1)\<lparr>rb_queue := \<lparr>bq_list = rob, bq_capacity = 48, bq_used = int (length rob)\<rparr>, rb_local_cycle := n\<rparr>,
        sa_exe_queue := \<lparr>bq_list = xq, bq_capacity = 8, bq_used = int (length xq)\<rparr>,
        sa_exe_contlr := \<lparr>bq_list = xc, bq_capacity = 16, bq_used = int (length xc)\<rparr>,
        sa_fence_active := fence\<rparr>"

lemma idle_dma: "dma_cycle t (demo_store, demo_l2, new_dma) = Some (demo_l2, new_dma)" "take_completed new_dma = ([], new_dma)"
  by (simp_all add: dma_cycle_def new_dma_def dma_retire.simps take_completed_def)

lemma idle_buffer: "ab_cycle (demo_buffer\<lparr>ab_local_cycle := n\<rparr>) = Some (demo_buffer\<lparr>ab_local_cycle := n + 1\<rparr>)"
  "ab_ports (demo_buffer\<lparr>ab_local_cycle := n\<rparr>) = []" "is_psums_accumulated (demo_buffer\<lparr>ab_local_cycle := n\<rparr>) = False"
  by (simp_all add: ab_cycle_def ab_receive_def ab_accumulate_def ff_is_empty_def demo_buffer_def new_acc_buffer_def
      new_fifo_def is_psums_accumulated_def)

lemma run_dma_idle:
  "sa_dma s = new_dma \<Longrightarrow> sa_txns s = demo_store \<Longrightarrow> sa_l2 s = demo_l2 \<Longrightarrow> run_dma s = Some s"
  by (simp add: run_dma_def idle_dma)

lemma execute_exe_only:
  "sa_dataflow s = DATAFLOW_WS \<Longrightarrow> sa_preloads s = [] \<Longrightarrow> \<not> is_psums_accumulated (sa_ab s) \<Longrightarrow>
   bq_is_empty (sa_load_contlr s) \<Longrightarrow> bq_is_empty (sa_store_contlr s) \<Longrightarrow>
   (\<And>s'. exec_exe quick_env s = Some s' \<Longrightarrow> bq_is_empty (sa_load_contlr s') \<and> bq_is_empty (sa_store_contlr s')) \<Longrightarrow>
   sa_execute quick_env s = exec_exe quick_env s"
  by (cases "exec_exe quick_env s")
    (auto simp: sa_execute_def exec_weights_def exec_psums_ws_def exec_mm_os_def exec_psums_os_def exec_load_def exec_store_def quick_env_def)

lemma issue_exe_only:
  "bq_is_empty (sa_load_queue s) \<Longrightarrow> bq_is_empty (sa_store_queue s) \<Longrightarrow> sa_issue s = issue_exe s"
  by (simp add: sa_issue_def issue_store_def issue_load_def)

definition demo_mid :: "u32 \<Rightarrow> cmd_store \<Rightarrow> nat list \<Rightarrow> nat list \<Rightarrow> nat list \<Rightarrow> nat list \<Rightarrow> bool \<Rightarrow> unit sa" where
  "demo_mid n cs insts rob xq xc fence =
     (demo_sa n cs insts rob xq xc fence)\<lparr>sa_local_cycle := n + 1,
        sa_rob := (new_rob 48 1)\<lparr>rb_queue := \<lparr>bq_list = rob, bq_capacity = 48, bq_used = int (length rob)\<rparr>, rb_local_cycle := n + 1\<rparr>\<rparr>"

lemma demo_cycle:
  assumes "\<forall>c rs. rob = c # rs \<longrightarrow> cm_status (cs c) \<noteq> COSIM_FINISHED"
  shows "stonne_cycle quick_env (demo_sa n cs insts rob xq xc fence) =
    Option.bind (sa_execute quick_env (demo_mid n cs insts rob xq xc fence)) (\<lambda>s2.
    Option.bind (sa_issue (try_complete_fence s2)) (\<lambda>s3.
    Option.bind (sa_dispatch s3) (\<lambda>s4.
    Option.bind (ab_cycle (sa_ab s4)) (\<lambda>ab. Some (s4\<lparr>sa_ab := ab\<rparr>)))))"
proof -
  let ?s = "demo_sa n cs insts rob xq xc fence"
  have c: "count_cycle ?s = ?s" by (simp add: count_cycle_def demo_sa_def new_sa_def)
  have r: "run_dma (?s\<lparr>sa_local_cycle := n + 1\<rparr>) = Some (?s\<lparr>sa_local_cycle := n + 1\<rparr>)"
    by (rule run_dma_idle) (simp_all add: demo_sa_def new_sa_def)
  have "rob_commit (cs, sa_rob ?s) = (cs, (sa_rob ?s)\<lparr>rb_local_cycle := n + 1\<rparr>, \<lparr>cl_finished = [], cl_deleted = []\<rparr>)"
    using assms by (cases rob)
      (simp_all add: rob_commit_def demo_sa_def new_rob_def bq_is_empty_def get_commit_head_def can_commit_def numeral_2_eq_2)
  then have m: "sa_commit (?s\<lparr>sa_local_cycle := n + 1\<rparr>) = demo_mid n cs insts rob xq xc fence"
    by (simp add: sa_commit_def demo_mid_def demo_sa_def new_sa_def)
  have l: "sa_local_cycle ?s = n" by (simp add: demo_sa_def)
  show ?thesis
    by (simp add: stonne_cycle_def sa_cycle_def Let_def c r m l quick_env_def cong: bind_weak_cong)
      (simp split: Option.bind_split)
qed

lemmas demo_defs = demo_mid_def demo_sa_def new_sa_def new_queue_def new_rob_def

text \<open>A cycle evaluated stage by stage.\<close>

lemma demo_stages:
  assumes "\<forall>c rs. rob = c # rs \<longrightarrow> cm_status (cs c) \<noteq> COSIM_FINISHED"
    "exec_exe quick_env (demo_mid n cs insts rob xq xc fence) = Some s2"
    "bq_is_empty (sa_load_contlr s2)" "bq_is_empty (sa_store_contlr s2)"
    "try_complete_fence s2 = s3" "bq_is_empty (sa_load_queue s3)" "bq_is_empty (sa_store_queue s3)"
    "issue_exe s3 = Some s4" "sa_dispatch s4 = Some s5" "sa_ab s5 = demo_buffer\<lparr>ab_local_cycle := n\<rparr>"
    "s5\<lparr>sa_ab := demo_buffer\<lparr>ab_local_cycle := n + 1\<rparr>\<rparr> = s6"
  shows "stonne_cycle quick_env (demo_sa n cs insts rob xq xc fence) = Some s6"
proof -
  have "sa_execute quick_env (demo_mid n cs insts rob xq xc fence) = Some s2"
    using assms(2-4) by (subst execute_exe_only) (simp_all add: demo_mid_def demo_sa_def new_sa_def idle_buffer bq_is_empty_def new_queue_def)
  moreover have "sa_issue s3 = Some s4" using assms(6-8) issue_exe_only by metis
  ultimately show ?thesis
    using assms(5,9-11) by (subst demo_cycle [OF assms(1)]) (simp add: idle_buffer)
qed

lemmas stage_defs = demo_defs exec_exe_def bq_is_empty_def try_complete_fence_def issue_exe_def sa_dispatch_def
  dispatch_cmd_def bq_is_full_def can_dispatch_def upd_status_def build_data_dep_def bq_insert_def
  bq_pop_front_def bq_get_cmd_at_def can_issue_def issue_cmd_def bq_remove_def cmd_is_ready_def can_execute_def
  execute_cmd_def

lemma cycle1:
  assumes "cm_type (cs 0) = EXE" "cm_op (cs 0) = FENCE"
  shows "stonne_cycle quick_env (demo_sa n cs [0, 1] [] [] [] False) =
   Some (demo_sa (n + 1) (update_status 0 COSIM_WAITING cs) [1] [0] [0] [] True)"
  by (rule demo_stages [OF _ _ _ _ refl]) (simp add: stage_defs assms Let_def)+

lemma cycle2:
  assumes "cm_type (cs 0) = EXE" "cm_parents (cs 0) = []" "cm_status (cs 0) = COSIM_WAITING"
  shows "stonne_cycle quick_env (demo_sa n cs [1] [0] [0] [] True) =
   Some (demo_sa (n + 1) (update_status 0 COSIM_ISSUED cs) [1] [0] [] [0] True)"
  by (rule demo_stages [OF _ _ _ _ refl]) (simp add: stage_defs assms Let_def)+

lemma all_idle: "(\<lambda>_. True)(x := True) = (\<lambda>_. True)"
  by auto

lemma cycle3:
  assumes "cm_type (cs 0) = EXE" "cm_op (cs 0) = FENCE" "cm_parents (cs 0) = []" "cm_status (cs 0) = COSIM_ISSUED"
    "cm_type (cs (Suc 0)) = EXE" "cm_op (cs (Suc 0)) = FAKE"
  shows "stonne_cycle quick_env (demo_sa n cs [1] [0] [] [0] True) =
   Some (demo_sa (n + 1) (update_status 1 COSIM_WAITING (set_done 0 (update_status 0 COSIM_EXECUTING cs))) [] [0, 1] [1] [] False)"
proof -
  have p: "cm_parents (update_status c st cs x) = cm_parents (cs x)" for c st cs x
    by (simp add: update_status_def upd_cmd_def)
  show ?thesis
    by (rule demo_stages [OF _ _ _ _ refl])
      (simp add: stage_defs assms Let_def can_release_fence_def complete_op_def has_inflight_def new_dma_def quick_env_def
        set_done_status all_idle p)+
qed

text \<open>Three cycles in: the fence is finished and the command behind it dispatched.\<close>

definition demo_end :: cmd_store where
  "demo_end = update_status 1 COSIM_WAITING (set_done 0 (update_status 0 COSIM_EXECUTING
     (update_status 0 COSIM_ISSUED (update_status 0 COSIM_WAITING demo_fence))))"

lemma demo_reach:
  "sa_reach quick_env {0, 1} (demo_sa 0 demo_fence [0, 1] [] [] [] False)" "sa_reach quick_env {0, 1} (demo_sa 3 demo_end [] [0, 1] [1] [] False)"
proof -
  have wt: "cmd_wt DATAFLOW_WS (new_command n EXE FENCE None)" "cmd_wt DATAFLOW_WS (new_command n EXE FAKE None)" for n
    by (simp_all add: cmd_wt_def)
  let ?c0 = "\<lambda>_. new_command 9 EXE FAKE None"
  have "new_sa DATAFLOW_WS ?c0 demo_buffer () demo_store demo_l2\<lparr>sa_dma := new_dma\<rparr> = demo_sa 0 ?c0 [] [] [] [] False"
    by (simp add: demo_defs demo_buffer_def new_acc_buffer_def)
  moreover have "sa_reach quick_env {} (new_sa DATAFLOW_WS ?c0 demo_buffer () demo_store demo_l2\<lparr>sa_dma := new_dma\<rparr>)"
    by (rule sa_start) (simp_all add: new_dma_def demo_buffer_def new_acc_buffer_def)
  ultimately have r0: "sa_reach quick_env {} (demo_sa 0 ?c0 [] [] [] [] False)" by simp
  have r1: "sa_reach quick_env {0} (demo_sa 0 (?c0(0 := new_command 0 EXE FENCE None)) [0] [] [] [] False)"
    by (rule sa_do_receive [OF r0, of 0 "new_command 0 EXE FENCE None"])
      (simp_all add: wt demo_defs sa_receive_def bq_insert_def)
  have "sa_reach quick_env (insert 1 {0}) (demo_sa 0 demo_fence [0, 1] [] [] [] False)"
    by (rule sa_do_receive [OF r1, of 1 "new_command 1 EXE FAKE None"])
      (simp_all add: wt demo_defs sa_receive_def bq_insert_def demo_fence_def)
  then show r2: "sa_reach quick_env {0, 1} (demo_sa 0 demo_fence [0, 1] [] [] [] False)" by (simp add: insert_commute)
  have room: "unat (de_next_req_id (sa_dma (demo_sa n cs a b c d f))) + 2 < 2 ^ 64" for n cs a b c d f
    by (simp add: demo_defs new_dma_def)
  have p: "cm_parents (update_status c st cs x) = cm_parents (cs x)" for c st cs x
    by (simp add: update_status_def upd_cmd_def)
  note c3 = sa_do_cycle [OF sa_do_cycle [OF sa_do_cycle [OF r2 room cycle1] room cycle2] room cycle3]
  show "sa_reach quick_env {0, 1} (demo_sa 3 demo_end [] [0, 1] [1] [] False)"
    using c3 by (simp add: demo_fence_def demo_end_def p)
qed

lemma sa_cycle_total:
  assumes inv: "sa_inv h [] 0 s" and room: "unat (de_next_req_id (sa_dma s)) + 2 < 2 ^ 64"
    and burst: "de_burst_bytes (sa_dma s) \<noteq> 0"
    and dma: "dma_cycle (sa_local_cycle s) (sa_txns s, sa_l2 s, sa_dma s) \<noteq> None" and os: "os_head E s"
  shows "\<exists>s'. sa_cycle E s = Some s'"
proof -
  let ?s0 = "(count_cycle s)\<lparr>sa_local_cycle := sa_local_cycle (count_cycle s) + 1\<rparr>"
  have same: "sa_local_cycle (count_cycle s) = sa_local_cycle s" "sa_txns (count_cycle s) = sa_txns s"
    "sa_l2 (count_cycle s) = sa_l2 s" "sa_dma (count_cycle s) = sa_dma s" "sa_net (count_cycle s) = sa_net s"
    "sa_preloads (count_cycle s) = sa_preloads s" "sa_dataflow (count_cycle s) = sa_dataflow s"
    by (simp_all add: count_cycle_def)
  have "sa_inv h [] 2 s" by (rule sa_room [OF inv room])
  then have i0: "sa_inv h [] 2 ?s0" by simp
  obtain s1 where s1: "run_dma ?s0 = Some s1" using run_dma_total [OF i0] dma by (auto simp: same)
  note i1 = run_dma_inv [OF i0 s1]
  let ?s1 = "sa_commit s1"
  have i1': "sa_inv h [] (Suc (Suc 0)) ?s1" using i1 sa_commit_inv [of h "[]" _ s1] by (simp add: numeral_2_eq_2)
  have keep: "sa_net ?s1 = sa_net s1 \<and> sa_preloads ?s1 = sa_preloads s1 \<and> sa_dataflow ?s1 = sa_dataflow s1"
    by (simp add: sa_commit_def split: prod.split)
  have o1: "os_head E ?s1" using os i1 keep by (simp add: os_head_def same)
  obtain s2 where s2: "exec_weights E ?s1 = Some s2" using exec_weights_total by blast
  note i2 = exec_weights_inv [OF i1' s2]
  obtain s3 where s3: "exec_psums_ws E s2 = Some s3" using exec_psums_ws_total [OF i2] by blast
  note i3 = exec_psums_ws_inv [OF i2 s3]
  obtain s4 where s4: "exec_mm_os E s3 = Some s4" using exec_mm_os_total by blast
  note i4 = exec_mm_os_inv [OF i3 s4]
  have df: "sa_dataflow s2 = sa_dataflow ?s1" "sa_dataflow s3 = sa_dataflow s2"
    using s2 s3 by (auto simp: exec_weights_def exec_psums_ws_def Let_def finish_cmd_eq remove_tracked_mm_cmd_def
        split: if_splits list.splits option.splits)
  have "os_head E s4"
  proof (cases "sa_dataflow ?s1")
    case DATAFLOW_WS
    then show ?thesis using df exec_mm_os_keeps [OF s4] by (simp add: os_head_def)
  next
    case DATAFLOW_OS
    then have "s2 = ?s1" "s3 = ?s1" using exec_weights_os [OF _ s2] exec_psums_ws_os [OF _ s3] by auto
    then show ?thesis using o1 exec_mm_os_keeps [OF s4] by (simp add: os_head_def)
  qed
  then obtain s5 where s5: "exec_psums_os E s4 = Some s5" using exec_psums_os_total by blast
  note i5 = exec_psums_os_inv [OF i4 s5]
  obtain s6 where s6: "exec_exe E s5 = Some s6" using exec_exe_total [OF i5] by blast
  note i6 = exec_exe_inv [OF i5 s6]
  have b: "de_burst_bytes (sa_dma s6) \<noteq> 0"
    using array_keeps_dma [OF s2 s3 s4 s5 s6] i1 burst by (simp add: same)
  obtain s7 where s7: "exec_load E s6 = Some s7" "de_burst_bytes (sa_dma s7) \<noteq> 0"
    using exec_load_total [OF i6 b, of E] b by auto
  note i7 = exec_load_inv [OF i6 s7(1) refl]
  obtain s8 where s8: "exec_store E s7 = Some s8" using exec_store_total [OF i7 s7(2)] by blast
  have ex: "sa_execute E ?s1 = Some s8" by (simp add: sa_execute_def s2 s3 s4 s5 s6 s7 s8)
  have "de_completed (sa_dma s8) = []" using execute_keeps_completed [OF i1' ex] i1 by simp
  note i9 = try_complete_fence_inv [OF sa_execute_inv [OF i1' ex] this]
  obtain s10 where s10: "sa_issue (try_complete_fence s8) = Some s10" using sa_issue_total [OF i9] by blast
  obtain s11 where "sa_dispatch s10 = Some s11" using sa_dispatch_total [OF sa_issue_inv [OF i9 s10]] by blast
  then show ?thesis by (simp add: sa_cycle_def Let_def s1 ex s10)
qed

lemma older_not_last: "distinct l \<Longrightarrow> older l x y \<Longrightarrow> x \<noteq> last l"
  by (induction l) (auto dest: older_mem)

section \<open>Properties\<close>

text \<open>
  C7. The controller refines the scoreboard: in every state the accelerator reaches, whatever the
  array, the memory system and the core do, the commands and the reorder buffer are as the
  scoreboard of theory SAQueue allows; so a command that is issued or executing conflicts with no
  older unfinished one, matrix operations among themselves excepted.
\<close>

theorem controller_refines_scoreboard:
  assumes "sa_reach E h s"
  shows "sb_reach (sa_cmds s, rob_list s) \<and>
    (\<forall>x y. older (rob_list s) x y \<and> cm_status (sa_cmds s x) < COSIM_FINISHED \<and>
       cm_status (sa_cmds s y) \<in> {COSIM_ISSUED, COSIM_EXECUTING} \<and>
       \<not> (cm_type (sa_cmds s x) = EXE \<and> cm_type (sa_cmds s y) = EXE) \<longrightarrow>
       \<not> conflict (sa_cmds s y) (sa_cmds s x))"
proof -
  have r: "sb_reach (sa_cmds s, rob_list s)" using sa_invD(1) [OF sa_reach_inv [OF assms]] .
  moreover have "\<not> conflict (sa_cmds s y) (sa_cmds s x)"
    if "older (rob_list s) x y" "cm_status (sa_cmds s x) < COSIM_FINISHED"
       "cm_status (sa_cmds s y) \<in> {COSIM_ISSUED, COSIM_EXECUTING}"
       "\<not> (cm_type (sa_cmds s x) = EXE \<and> cm_type (sa_cmds s y) = EXE)" for x y
    using hazard_freeD [OF hazard_free_reach [OF r]] that by (auto simp: cmd_overlap_conflict)
  ultimately show ?thesis by blast
qed

theorem controller_refines_scoreboard_witness:
  "sb_reach (demo_end, [0, 1])"
  using controller_refines_scoreboard [OF demo_reach(2)] by (simp add: demo_defs)

text \<open>
  C5. A fence is a barrier: a command enters the reorder buffer only when every older fence has
  finished, and a fence finishes only when every older command has.
\<close>

theorem fence_is_barrier:
  assumes "sa_reach E h s" "older (rob_list s) x y"
  shows "(cm_op (sa_cmds s x) = FENCE \<longrightarrow> \<not> cm_status (sa_cmds s x) < COSIM_FINISHED) \<and>
    (cm_op (sa_cmds s y) = FENCE \<and> \<not> cm_status (sa_cmds s y) < COSIM_FINISHED \<longrightarrow>
       \<not> cm_status (sa_cmds s x) < COSIM_FINISHED)"
proof -
  note inv = sa_invD [OF sa_reach_inv [OF assms(1)]]
  have "distinct (rob_list s)" using inv(2) by (simp add: queues_ok_def bq_wf_def)
  then have "x \<noteq> last (rob_list s)" "x \<in> set (rob_list s)"
    using assms(2) older_not_last older_mem by blast+
  with inv(4) assms(2) show ?thesis by (auto simp: fence_ok_def)
qed

theorem fence_is_barrier_witness:
  "older [0, 1] 0 1 \<and> cm_op (demo_end 0) = FENCE \<and> \<not> cm_status (demo_end 0) < COSIM_FINISHED"
proof -
  have f: "cm_op (demo_end 0) = FENCE"
    by (simp add: demo_end_def demo_fence_def set_done_status)
  have "older (rob_list (demo_sa 3 demo_end [] [0, 1] [1] [] False)) 0 1" by (simp add: demo_defs)
  from fence_is_barrier [OF demo_reach(2) this] f show ?thesis by (simp add: demo_defs)
qed

text \<open>
  C6. No assertion of the controller fails: from every reachable state its cycle returns, provided
  the engine's own cycle does, the burst size is not zero, and, in the output-stationary dataflow, the
  memory controller reports the preload the controller issued first.  No queue overflows, no
  controller is read empty, what executes is ready, and every completion meets its command.
\<close>

theorem controller_never_aborts:
  assumes "sa_reach E h s" "unat (de_next_req_id (sa_dma s)) + 2 < 2 ^ 64" "de_burst_bytes (sa_dma s) \<noteq> 0"
    "dma_cycle (sa_local_cycle s) (sa_txns s, sa_l2 s, sa_dma s) \<noteq> None" "os_head E s"
  shows "\<exists>s'. sa_cycle E s = Some s'"
  by (rule sa_cycle_total [OF sa_reach_inv [OF assms(1)] assms(2-5)])

theorem controller_never_aborts_witness:
  "\<exists>s'. sa_cycle quick_env (demo_sa 3 demo_end [] [0, 1] [1] [] False) = Some s'"
proof -
  let ?s = "demo_sa 3 demo_end [] [0, 1] [1] [] False"
  have d: "sa_dma ?s = new_dma" "sa_txns ?s = demo_store" "sa_l2 ?s = demo_l2" "sa_dataflow ?s = DATAFLOW_WS"
    by (simp_all add: demo_defs)
  have n: "unat (de_next_req_id new_dma) + 2 < 2 ^ 64" "de_burst_bytes new_dma \<noteq> 0" by (simp_all add: new_dma_def)
  have "dma_cycle (sa_local_cycle ?s) (sa_txns ?s, sa_l2 ?s, sa_dma ?s) \<noteq> None" unfolding d idle_dma by simp
  moreover have "os_head quick_env ?s" unfolding os_head_def d by simp
  ultimately show ?thesis
    using controller_never_aborts [OF demo_reach(2)] n unfolding d by blast
qed

text \<open>
  C21. When the controller reports that execution has finished, the accelerator is drained: nothing is
  being preloaded, multiplied or fenced, the accumulation buffer waits for nothing and the engine owes
  no completion.
\<close>

theorem finished_means_drained:
  assumes "sa_reach E h s" "is_execution_finished s"
  shows "sa_preloads s = [] \<and> sa_mms s = [] \<and> sa_fence_cmd s = None \<and> ab_pending (sa_ab s) = [] \<and>
    dma_live (sa_dma s) = {}"
proof -
  note inv = sa_invD [OF sa_reach_inv [OF assms(1)]] sa_inv_parts [OF sa_reach_inv [OF assms(1)]]
  have "rob_list s = []"
    using assms(2) inv(2) by (simp add: is_execution_finished_def queues_ok_def bq_wf_def bq_is_empty_def)
  then have "set (sa_preloads s) = {} \<and> set (sa_mms s) = {} \<and> set_option (sa_fence_cmd s) = {} \<and> dma_live (sa_dma s) = {}"
    using inv(7) by (simp add: sa_parts_def at_def)
  moreover from this have "ab_cmds (sa_ab s) = []" using inv(5) by (simp add: ab_ok_def)
  ultimately show ?thesis by (simp add: ab_cmds_def)
qed

theorem finished_means_drained_witness:
  "\<exists>s. sa_reach quick_env {} s \<and> is_execution_finished s \<and> sa_mms s = [] \<and> dma_live (sa_dma s) = {}"
proof -
  let ?s = "new_sa DATAFLOW_WS demo_fence demo_buffer () demo_store demo_l2\<lparr>sa_dma := new_dma\<rparr>"
  have r: "sa_reach quick_env {} ?s"
    by (rule sa_start) (simp_all add: new_dma_def demo_buffer_def new_acc_buffer_def)
  moreover have "is_execution_finished ?s"
    by (simp add: is_execution_finished_def new_sa_def new_queue_def new_rob_def bq_is_empty_def)
  ultimately show ?thesis using finished_means_drained [OF r] by blast
qed

end
