(* ===== verification/WSMemory.thy ===== *)
theory WSMemory
  imports WSProduct
begin

text \<open>
  The memory controller of the weight-stationary array: \<open>sim/src/SA/WSMeshSDMemory.cpp\<close>.  It turns the commands
  into one package per input of the mesh and cycle.  The reads of the matrices are commented out in the source, so
  every package carries 0: the controller models when data moves.

  \<open>receive\<close> and \<open>reset\<close> are private and never called; they, the output connections and the use counts
  of the ports, which only feed the report, are left out.
\<close>

section \<open>State\<close>

datatype ws_state = WS_CONFIGURING | WS_DIST_WEIGHT | WS_DIST_INPUTS | WS_WAITING_FOR_NEXT_ITER | WS_ALL_DATA_SENT | WS_IDLE

record ws_memory =
  sm_M :: u32
  sm_N :: u32
  sm_K :: u32
  sm_offset_to_KN :: u32
  sm_offset_to_MK :: u32
  sm_offset_to_MN :: u32
  sm_w_state :: ws_state
  sm_a_state :: ws_state
  sm_read_connections :: "wire list"
  sm_ms_rows :: u32
  sm_ms_cols :: u32
  sm_n_read_ports :: u32
  sm_rows_used :: u32
  sm_cols_used :: u32
  sm_k_used :: u32
  sm_per_port :: u32
  sm_input_fifos :: "package fifo list"
  sm_psum_fifos :: "package fifo list"
  sm_T_N :: u32
  sm_T_K :: u32
  sm_T_M :: u32
  sm_current_M :: u32
  sm_current_N :: u32
  sm_current_K :: u32
  sm_offset_T_M :: u32
  sm_execution_finished :: bool
  sm_local_cycle :: u32
  sm_weight_reads :: u32
  sm_input_reads :: u32
  sm_cmd :: "nat option"

text \<open>What the constructor leaves unset is \<open>junk\<close>, the command (read only after one was given) none; the division fails
  when there are no ports.\<close>

definition new_ws_memory :: "u32 \<Rightarrow> u32 \<Rightarrow> u32 \<Rightarrow> u32 \<Rightarrow> u32 \<Rightarrow> ws_memory option" where
  "new_ws_memory junk rows cols ports capacity =
     do { assert_that (ports \<noteq> 0);
          Some \<lparr>sm_M = junk, sm_N = junk, sm_K = junk, sm_offset_to_KN = junk, sm_offset_to_MK = junk,
                sm_offset_to_MN = junk, sm_w_state = WS_IDLE, sm_a_state = WS_IDLE, sm_read_connections = [],
                sm_ms_rows = rows, sm_ms_cols = cols, sm_n_read_ports = ports,
                sm_rows_used = junk, sm_cols_used = junk, sm_k_used = junk,
                sm_per_port = (rows + cols) div ports,
                sm_input_fifos = replicate (unat ports) (new_fifo capacity),
                sm_psum_fifos = replicate (unat ports) (new_fifo capacity),
                sm_T_N = junk, sm_T_K = junk, sm_T_M = junk, sm_current_M = 0, sm_current_N = 0, sm_current_K = 0,
                sm_offset_T_M = junk, sm_execution_finished = False, sm_local_cycle = 0,
                sm_weight_reads = 0, sm_input_reads = 0, sm_cmd = None\<rparr> }"

definition sm_setReadConnections :: "wire list \<Rightarrow> ws_memory \<Rightarrow> ws_memory option" where
  "sm_setReadConnections cs m =
     do { assert_that (length cs = unat (sm_n_read_ports m)); Some (m\<lparr>sm_read_connections := cs\<rparr>) }"

section \<open>Commands\<close>

definition sm_config :: "u32 \<Rightarrow> u32 \<Rightarrow> u32 \<Rightarrow> u32 \<Rightarrow> u32 \<Rightarrow> u32 \<Rightarrow> ws_memory \<Rightarrow> ws_memory" where
  "sm_config M N K t_m t_n t_k m =
     m\<lparr>sm_M := M, sm_N := N, sm_K := K, sm_T_M := t_m, sm_T_N := t_n, sm_T_K := t_k\<rparr>"

definition sm_preload :: "u32 \<Rightarrow> u32 \<Rightarrow> u32 \<Rightarrow> nat \<Rightarrow> ws_memory \<Rightarrow> ws_memory" where
  "sm_preload t_n t_k offset cmd m =
     m\<lparr>sm_w_state := WS_DIST_WEIGHT, sm_offset_to_KN := offset, sm_cols_used := t_n, sm_k_used := t_k,
       sm_current_K := sm_ms_cols m - 1, sm_current_N := 0, sm_cmd := Some cmd, sm_T_N := t_n, sm_T_K := t_k\<rparr>"

definition sm_MatrixMultiply :: "u32 \<Rightarrow> u32 \<Rightarrow> u32 \<Rightarrow> u32 \<Rightarrow> u32 \<Rightarrow> nat \<Rightarrow> ws_memory \<Rightarrow> ws_memory" where
  "sm_MatrixMultiply t_m t_k t_n offset_to_MK offset_to_MN cmd m =
     m\<lparr>sm_a_state := WS_DIST_INPUTS, sm_offset_to_MK := offset_to_MK, sm_offset_to_MN := offset_to_MN,
       sm_rows_used := t_m, sm_k_used := t_k, sm_current_M := 0, sm_cmd := Some cmd, sm_offset_T_M := 0,
       sm_T_K := t_k, sm_T_M := t_m\<rparr>"

definition sm_is_idle :: "ws_memory \<Rightarrow> bool" where
  "sm_is_idle m \<longleftrightarrow> sm_a_state m = WS_IDLE"

definition sm_isExecutionFinished :: "ws_memory \<Rightarrow> bool" where
  "sm_isExecutionFinished m = sm_execution_finished m"

definition sm_get_command :: "ws_memory \<Rightarrow> nat option" where
  "sm_get_command m = sm_cmd m"

section \<open>Distribution to the ports\<close>

text \<open>A loop whose body can fail.\<close>

fun foldM :: "('a \<Rightarrow> 's \<Rightarrow> 's option) \<Rightarrow> 'a list \<Rightarrow> 's \<Rightarrow> 's option" where
  "foldM f [] s = Some s"
| "foldM f (x # xs) s = do { s1 \<leftarrow> f x s; foldM f xs s1 }"

lemma foldM_append [simp]: "foldM f (xs @ ys) s = do { s1 \<leftarrow> foldM f xs s; foldM f ys s1 }"
  by (induction xs arbitrary: s) (auto split: Option.bind_splits)

definition put_fifo :: "nat \<Rightarrow> package \<Rightarrow> ws_memory \<Rightarrow> ws_memory option" where
  "put_fifo i p m =
     (if pk_type p = PSUM
      then do { assert_that (i < length (sm_psum_fifos m));
                Some (m\<lparr>sm_psum_fifos := (sm_psum_fifos m)[i := ff_push p (sm_psum_fifos m ! i)]\<rparr>) }
      else do { assert_that (i < length (sm_input_fifos m));
                Some (m\<lparr>sm_input_fifos := (sm_input_fifos m)[i := ff_push p (sm_input_fifos m ! i)]\<rparr>) })"

text \<open>The array \<open>dests\<close> of a multicast is cut into the pieces of the ports; a port without a receiver gets nothing.\<close>

definition sendPackageToInputFifos :: "package \<Rightarrow> ws_memory \<Rightarrow> ws_memory option" where
  "sendPackageToInputFifos p m =
     (let sz = pk_size p; d = wk_data p; ty = pk_type p; n = unat (sm_n_read_ports m); per = unat (sm_per_port m)
      in case pk_traffic p of
           BROADCAST \<Rightarrow> foldM (\<lambda>i. put_fifo i (new_package sz d ty (of_nat i) BROADCAST)) [0..<n] m
         | UNICAST \<Rightarrow>
             do { assert_that (sm_per_port m \<noteq> 0);
                  let port = pk_unicast_dest p div sm_per_port m;
                  put_fifo (unat port) (new_unicast sz d ty port (pk_unicast_dest p mod sm_per_port m)) m }
         | MULTICAST \<Rightarrow>
             foldM (\<lambda>i m. do { assert_that (i * per + per \<le> length (pk_dests p));
                               let local = take per (drop (i * per) (pk_dests p));
                               if True \<in> set local then put_fifo i (new_multicast sz d ty (of_nat i) local) m else Some m })
               [0..<n] m)"

text \<open>A port sends one package per cycle, partial sums first.\<close>

definition send_port :: "nat \<Rightarrow> ws_memory \<times> wires \<Rightarrow> (ws_memory \<times> wires) option" where
  "send_port i = (\<lambda>(m, cs).
     do { assert_that (i < length (sm_psum_fifos m) \<and> i < length (sm_input_fifos m));
          if \<not> ff_is_empty (sm_psum_fifos m ! i)
          then do { (p, f) \<leftarrow> ff_pop (sm_psum_fifos m ! i);
                    assert_that (i < length (sm_read_connections m));
                    Some (m\<lparr>sm_psum_fifos := (sm_psum_fifos m)[i := f]\<rparr>, wire_send (sm_read_connections m ! i) [p] cs) }
          else if \<not> ff_is_empty (sm_input_fifos m ! i)
          then do { (p, f) \<leftarrow> ff_front (sm_input_fifos m ! i);
                    assert_that (i < length (sm_read_connections m));
                    (_, f1) \<leftarrow> ff_pop f;
                    Some (m\<lparr>sm_input_fifos := (sm_input_fifos m)[i := f1]\<rparr>, wire_send (sm_read_connections m ! i) [p] cs) }
          else Some (m, cs) })"

definition sm_send :: "ws_memory \<times> wires \<Rightarrow> (ws_memory \<times> wires) option" where
  "sm_send = (\<lambda>(m, cs). foldM send_port [0..<unat (sm_n_read_ports m)] (m, cs))"

section \<open>A cycle\<close>

text \<open>
  The loop over the columns runs to \<open>ms_rows\<close>.  A row above \<open>T_K\<close> is padding and is not counted as a read.
\<close>

definition send_weight :: "nat \<Rightarrow> ws_memory \<Rightarrow> ws_memory option" where
  "send_weight i m = sendPackageToInputFifos (new_unicast 4 0 WEIGHT 0 (of_nat i)) m"

definition count_weight :: "ws_memory \<Rightarrow> ws_memory" where
  "count_weight m = m\<lparr>sm_weight_reads := sm_weight_reads m + 1\<rparr>"

definition dist_weights :: "ws_memory \<Rightarrow> ws_memory option" where
  "dist_weights m =
     (if sm_w_state m = WS_DIST_WEIGHT
      then do { m1 \<leftarrow> (if sm_current_K m > sm_T_K m - 1
                       then foldM send_weight [0..<unat (sm_ms_rows m)] m
                       else foldM (\<lambda>i m. send_weight i (count_weight m)) [0..<unat (sm_ms_rows m)] m);
                Some (if sm_current_K m1 = 0 then m1\<lparr>sm_w_state := WS_IDLE\<rparr>
                      else m1\<lparr>sm_current_K := sm_current_K m1 - 1\<rparr>) }
      else Some m)"

definition send_input :: "nat \<Rightarrow> ws_memory \<Rightarrow> ws_memory option" where
  "send_input k m =
     sendPackageToInputFifos (new_unicast 4 0 IACTIVATION 0 (of_nat k + sm_ms_cols m)) (m\<lparr>sm_input_reads := sm_input_reads m + 1\<rparr>)"

definition dist_inputs :: "ws_memory \<Rightarrow> ws_memory option" where
  "dist_inputs m =
     (if sm_a_state m = WS_DIST_INPUTS
      then do { m1 \<leftarrow> foldM send_input [0..<unat (sm_ms_rows m)] m;
                let m2 = m1\<lparr>sm_current_M := sm_current_M m1 + 1\<rparr>;
                Some (if sm_current_M m2 = sm_rows_used m2 then m2\<lparr>sm_a_state := WS_IDLE\<rparr> else m2) }
      else Some m)"

definition sm_cycle :: "ws_memory \<times> wires \<Rightarrow> (ws_memory \<times> wires) option" where
  "sm_cycle = (\<lambda>(m, cs).
     do { m1 \<leftarrow> dist_weights (m\<lparr>sm_local_cycle := sm_local_cycle m + 1\<rparr>);
          m2 \<leftarrow> dist_inputs m1;
          sm_send (m2, cs) })"


section \<open>A port per input\<close>

text \<open>
  With a port for every input of a mesh of \<open>n\<close> rows and columns a package reaches its input in the cycle it is made.
\<close>

definition direct :: "nat \<Rightarrow> ws_memory \<Rightarrow> bool" where
  "direct n m \<longleftrightarrow> n + n < 2 ^ 32 \<and> sm_ms_rows m = of_nat n \<and> sm_ms_cols m = of_nat n \<and>
     sm_n_read_ports m = of_nat (n + n) \<and> sm_per_port m = 1 \<and> sm_read_connections m = map InPort [0..<n + n] \<and>
     length (sm_input_fifos m) = n + n \<and> length (sm_psum_fifos m) = n + n \<and>
     (\<forall>i<n + n. ff_queue (sm_psum_fifos m ! i) = [])"

definition queue_at :: "ws_memory \<Rightarrow> nat \<Rightarrow> package list" where
  "queue_at m i = ff_queue (sm_input_fifos m ! i)"

lemma direct_views: "direct n (m\<lparr>sm_input_reads := a\<rparr>) = direct n m" "direct n (m\<lparr>sm_weight_reads := a\<rparr>) = direct n m"
  "direct n (m\<lparr>sm_local_cycle := a\<rparr>) = direct n m" "direct n (m\<lparr>sm_w_state := x\<rparr>) = direct n m"
  "direct n (m\<lparr>sm_a_state := x\<rparr>) = direct n m" "direct n (m\<lparr>sm_current_K := a\<rparr>) = direct n m"
  "direct n (m\<lparr>sm_current_M := a\<rparr>) = direct n m"
  by (simp_all add: direct_def)

lemma unat_small: "i < n + n \<Longrightarrow> direct n m \<Longrightarrow> unat (of_nat i :: u32) = i"
  by (simp add: direct_def unat_of_nat take_bit_nat_eq_self)

text \<open>What a command may change in a cycle: the fifos and the counters.\<close>

definition mem_same :: "ws_memory \<Rightarrow> ws_memory \<Rightarrow> bool" where
  "mem_same m m' \<longleftrightarrow> (\<exists>fs a b. m' = m\<lparr>sm_input_fifos := fs, sm_weight_reads := a, sm_input_reads := b\<rparr> \<and>
     length fs = length (sm_input_fifos m))"

lemma mem_same_refl: "mem_same m m"
  unfolding mem_same_def
  by (intro exI [of _ "sm_input_fifos m"] exI [of _ "sm_weight_reads m"] exI [of _ "sm_input_reads m"]) simp

lemma mem_same_trans: "mem_same a b \<Longrightarrow> mem_same b c \<Longrightarrow> mem_same a c"
  unfolding mem_same_def by (elim exE conjE) (simp, blast)

lemma mem_sameD:
  assumes "mem_same m m'"
  shows "direct n m' = direct n m" "sm_w_state m' = sm_w_state m" "sm_a_state m' = sm_a_state m"
    "sm_current_K m' = sm_current_K m" "sm_current_M m' = sm_current_M m" "sm_rows_used m' = sm_rows_used m"
    "sm_ms_cols m' = sm_ms_cols m" "sm_T_K m' = sm_T_K m" "sm_ms_rows m' = sm_ms_rows m"
  using assms by (auto simp: mem_same_def direct_def)

lemma unicast_direct:
  assumes "direct n m" "i < n + n" "ty \<noteq> PSUM"
  shows "\<exists>m'. sendPackageToInputFifos (new_unicast sz d ty s (of_nat i)) m = Some m' \<and> mem_same m m' \<and>
    (\<forall>k<n + n. queue_at m' k = queue_at m k @ (if k = i then [new_unicast sz d ty (of_nat i) 0] else []))"
proof -
  have u: "unat (of_nat i :: u32) = i" by (rule unat_small [OF assms(2,1)])
  have l: "i < length (sm_input_fifos m)" "sm_per_port m = 1" using assms by (simp_all add: direct_def)
  let ?p = "new_unicast sz d ty (of_nat i) 0"
  let ?m = "m\<lparr>sm_input_fifos := (sm_input_fifos m)[i := ff_push ?p (sm_input_fifos m ! i)]\<rparr>"
  have sz: "pk_size (new_unicast sz d ty s x) = sz" for x by (simp add: new_unicast_def new_package_def)
  have "sendPackageToInputFifos (new_unicast sz d ty s (of_nat i)) m = Some ?m"
    using l u assms(3) by (simp add: sendPackageToInputFifos_def put_fifo_def sz Let_def)
  moreover have "mem_same m ?m"
    unfolding mem_same_def
    by (intro exI [of _ "sm_input_fifos ?m"] exI [of _ "sm_weight_reads m"] exI [of _ "sm_input_reads m"]) simp
  moreover have "\<forall>k<n + n. queue_at ?m k = queue_at m k @ (if k = i then [?p] else [])"
    using l by (auto simp: queue_at_def nth_list_update)
  ultimately show ?thesis by blast
qed

text \<open>A loop that sends one package to each of a range of ports.\<close>

lemma sends_direct:
  assumes step: "\<And>i m. i < k \<Longrightarrow> direct n m \<Longrightarrow> \<exists>m'. f i m = Some m' \<and> mem_same m m' \<and>
      (\<forall>q<n + n. queue_at m' q = queue_at m q @ (if q = i + c then [g q] else []))"
    and "direct n m"
  shows "\<exists>m'. foldM f [0..<k] m = Some m' \<and> mem_same m m' \<and>
    (\<forall>q<n + n. queue_at m' q = queue_at m q @ (if c \<le> q \<and> q < k + c then [g q] else []))"
  using step
proof (induction k)
  case 0
  then show ?case using mem_same_refl by simp
next
  case (Suc k)
  then obtain m1 where m1: "foldM f [0..<k] m = Some m1" "mem_same m m1"
    "\<forall>q<n + n. queue_at m1 q = queue_at m q @ (if c \<le> q \<and> q < k + c then [g q] else [])" by auto
  have "direct n m1" using assms(2) mem_sameD(1) [OF m1(2)] by simp
  then obtain m2 where m2: "f k m1 = Some m2" "mem_same m1 m2"
    "\<forall>q<n + n. queue_at m2 q = queue_at m1 q @ (if q = k + c then [g q] else [])" using Suc.prems [of k m1] by auto
  have "\<forall>q<n + n. queue_at m2 q = queue_at m q @ (if c \<le> q \<and> q < Suc k + c then [g q] else [])"
    using m1(3) m2(3) by auto
  then show ?case using m1(1) m2(1) mem_same_trans [OF m1(2) m2(2)] by simp
qed

text \<open>The packages of the controller as they reach the mesh.\<close>

definition null_weight :: "nat \<Rightarrow> package" where
  "null_weight i = new_unicast 4 0 WEIGHT (of_nat i) 0"

definition null_input :: "nat \<Rightarrow> package" where
  "null_input i = new_unicast 4 0 IACTIVATION (of_nat i) 0"

lemma inputs_sent:
  assumes "direct n m"
  shows "\<exists>m'. foldM send_input [0..<n] m = Some m' \<and> mem_same m m' \<and>
    (\<forall>q<n + n. queue_at m' q = queue_at m q @ (if n \<le> q then [null_input q] else []))"
proof -
  have "\<exists>m'. foldM send_input [0..<n] m = Some m' \<and> mem_same m m' \<and>
    (\<forall>q<n + n. queue_at m' q = queue_at m q @ (if n \<le> q \<and> q < n + n then [null_input q] else []))"
  proof (rule sends_direct)
    fix i m assume i: "i < n" and m: "direct n m"
    let ?m = "m\<lparr>sm_input_reads := sm_input_reads m + 1\<rparr>"
    have d: "direct n ?m" "i + n < n + n" using m i by (simp_all add: direct_views)
    have c: "of_nat i + sm_ms_cols m = of_nat (i + n)" using m by (simp add: direct_def)
    obtain m' where m': "sendPackageToInputFifos (new_unicast 4 0 IACTIVATION 0 (of_nat (i + n))) ?m = Some m'" "mem_same ?m m'"
      "\<forall>k<n + n. queue_at m' k = queue_at ?m k @ (if k = i + n then [new_unicast 4 0 IACTIVATION (of_nat (i + n)) 0] else [])"
      using unicast_direct [OF d, of IACTIVATION 4 0 0] by auto
    have "mem_same m ?m"
      unfolding mem_same_def
      by (intro exI [of _ "sm_input_fifos m"] exI [of _ "sm_weight_reads m"] exI [of _ "sm_input_reads ?m"]) simp
    then have "mem_same m m'" using mem_same_trans m'(2) by blast
    moreover have "\<forall>q<n + n. queue_at m' q = queue_at m q @ (if q = i + n then [null_input q] else [])"
      using m'(3) by (auto simp: queue_at_def null_input_def)
    ultimately show "\<exists>m'. send_input i m = Some m' \<and> mem_same m m' \<and>
      (\<forall>q<n + n. queue_at m' q = queue_at m q @ (if q = i + n then [null_input q] else []))"
      using m'(1) unfolding send_input_def c by blast
  qed (rule assms)
  then show ?thesis by auto
qed


lemma weights_sent:
  assumes "direct n m"
  shows "\<exists>m'. foldM send_weight [0..<n] m = Some m' \<and> mem_same m m' \<and>
      (\<forall>q<n + n. queue_at m' q = queue_at m q @ (if q < n then [null_weight q] else []))"
    "\<exists>m'. foldM (\<lambda>i m. send_weight i (count_weight m)) [0..<n] m = Some m' \<and> mem_same m m' \<and>
      (\<forall>q<n + n. queue_at m' q = queue_at m q @ (if q < n then [null_weight q] else []))"
proof -
  have one: "\<exists>m'. send_weight i m = Some m' \<and> mem_same m m' \<and>
      (\<forall>q<n + n. queue_at m' q = queue_at m q @ (if q = i + 0 then [null_weight q] else []))"
    if i: "i < n" and m: "direct n m" for i m
  proof -
    have "i < n + n" using i by simp
    then obtain m' where m': "sendPackageToInputFifos (new_unicast 4 0 WEIGHT 0 (of_nat i)) m = Some m'" "mem_same m m'"
      "\<forall>k<n + n. queue_at m' k = queue_at m k @ (if k = i then [new_unicast 4 0 WEIGHT (of_nat i) 0] else [])"
      using unicast_direct [OF m, of i WEIGHT 4 0 0] by auto
    have "\<forall>q<n + n. queue_at m' q = queue_at m q @ (if q = i + 0 then [null_weight q] else [])"
      using m'(3) by (auto simp: null_weight_def)
    then show ?thesis using m'(1,2) unfolding send_weight_def by blast
  qed
  have two: "\<exists>m'. send_weight i (count_weight m) = Some m' \<and> mem_same m m' \<and>
      (\<forall>q<n + n. queue_at m' q = queue_at m q @ (if q = i + 0 then [null_weight q] else []))"
    if i: "i < n" and m: "direct n m" for i m
  proof -
    have d: "direct n (count_weight m)" using m by (simp add: count_weight_def direct_views)
    have "mem_same m (count_weight m)"
      unfolding mem_same_def count_weight_def
      by (intro exI [of _ "sm_input_fifos m"] exI [of _ "sm_weight_reads m + 1"] exI [of _ "sm_input_reads m"]) simp
    moreover have "queue_at (count_weight m) q = queue_at m q" for q by (simp add: queue_at_def count_weight_def)
    ultimately show ?thesis using one [OF i d] mem_same_trans by metis
  qed
  have r: "(0 \<le> q \<and> q < n + 0) = (q < n)" for q :: nat by simp
  show "\<exists>m'. foldM send_weight [0..<n] m = Some m' \<and> mem_same m m' \<and>
      (\<forall>q<n + n. queue_at m' q = queue_at m q @ (if q < n then [null_weight q] else []))"
    using sends_direct [of n n send_weight 0 null_weight m, OF one assms] unfolding r by blast
  show "\<exists>m'. foldM (\<lambda>i m. send_weight i (count_weight m)) [0..<n] m = Some m' \<and> mem_same m m' \<and>
      (\<forall>q<n + n. queue_at m' q = queue_at m q @ (if q < n then [null_weight q] else []))"
    using sends_direct [of n n "\<lambda>i m. send_weight i (count_weight m)" 0 null_weight m, OF two assms] unfolding r by blast
qed

definition head_at :: "ws_memory \<Rightarrow> nat \<Rightarrow> package option" where
  "head_at m i = (case queue_at m i of [] \<Rightarrow> None | p # _ \<Rightarrow> Some p)"

lemma put_all_Suc: "put_all nm (Suc n) a cs = wire_put (Some (nm n)) (opt_list (a n)) (put_all nm n a cs)"
  by (simp add: put_all_def)

lemma ports_sent:
  assumes "direct n m"
  shows "k \<le> n + n \<Longrightarrow> \<exists>m'. foldM send_port [0..<k] (m, cs) = Some (m', put_all InPort k (head_at m) cs) \<and> mem_same m m' \<and>
    (\<forall>q<n + n. queue_at m' q = (if q < k then tl (queue_at m q) else queue_at m q))"
proof (induction k)
  case 0
  then show ?case using mem_same_refl by (simp add: put_all_def)
next
  case (Suc k)
  then obtain m1 where m1: "foldM send_port [0..<k] (m, cs) = Some (m1, put_all InPort k (head_at m) cs)" "mem_same m m1"
    "\<forall>q<n + n. queue_at m1 q = (if q < k then tl (queue_at m q) else queue_at m q)" by auto
  have d: "direct n m1" using assms mem_sameD(1) [OF m1(2)] by simp
  have k: "k < n + n" "queue_at m1 k = queue_at m k" using m1(3) Suc.prems by simp_all
  have e: "ff_queue (sm_psum_fifos m1 ! k) = []" "k < length (sm_psum_fifos m1)" "k < length (sm_input_fifos m1)"
    "k < length (sm_read_connections m1)" "sm_read_connections m1 ! k = InPort k"
    using d k(1) by (simp_all add: direct_def)
  let ?cs = "put_all InPort k (head_at m) cs"
  have S: "put_all InPort (Suc k) (head_at m) cs = wire_put (Some (InPort k)) (opt_list (head_at m k)) ?cs" by (rule put_all_Suc)
  show ?case
  proof (cases "queue_at m k")
    case Nil
    then have "send_port k (m1, ?cs) = Some (m1, ?cs)" using e k(2) by (simp add: send_port_def queue_at_def ff_is_empty_def)
    moreover have "put_all InPort (Suc k) (head_at m) cs = ?cs" unfolding S using Nil by (simp add: head_at_def wire_put_def)
    moreover have "\<forall>q<n + n. queue_at m1 q = (if q < Suc k then tl (queue_at m q) else queue_at m q)"
      using m1(3) Nil by (auto simp: less_Suc_eq)
    ultimately show ?thesis using m1(1,2) by simp
  next
    case (Cons p ps)
    then have q: "ff_queue (sm_input_fifos m1 ! k) = p # ps" using k(2) by (simp add: queue_at_def)
    obtain f1 where f1: "ff_front (sm_input_fifos m1 ! k) = Some (p, f1)" "ff_queue f1 = p # ps" using q by (simp add: ff_front_def)
    obtain f2 where f2: "ff_pop f1 = Some (p, f2)" "ff_queue f2 = ps" using f1(2) by (simp add: ff_pop_def)
    let ?m = "m1\<lparr>sm_input_fifos := (sm_input_fifos m1)[k := f2]\<rparr>"
    have "send_port k (m1, ?cs) = Some (?m, wire_send (InPort k) [p] ?cs)"
      using e q f1(1) f2(1) by (simp add: send_port_def ff_is_empty_def)
    moreover have "put_all InPort (Suc k) (head_at m) cs = wire_send (InPort k) [p] ?cs"
      unfolding S using Cons by (simp add: head_at_def wire_put_def)
    moreover have "mem_same m1 ?m"
      unfolding mem_same_def
      by (intro exI [of _ "sm_input_fifos ?m"] exI [of _ "sm_weight_reads m1"] exI [of _ "sm_input_reads m1"]) simp
    moreover have "queue_at ?m q = (if q < Suc k then tl (queue_at m q) else queue_at m q)" if "q < n + n" for q
      using m1(3) that Cons f2(2) e(3) by (auto simp: queue_at_def nth_list_update less_Suc_eq)
    ultimately show ?thesis using m1(1) mem_same_trans [OF m1(2)] by auto
  qed
qed

lemma put_all_split: "put_all nm (c + r) a cs = put_all (\<lambda>i. nm (i + c)) r (\<lambda>i. a (i + c)) (put_all nm c a cs)"
proof (induction r)
  case (Suc r)
  then show ?case by (simp only: add_Suc_right put_all_Suc) (simp add: add.commute)
qed (simp add: put_all_def)

lemma put_all_cong: "(\<And>i. i < n \<Longrightarrow> a i = b i) \<Longrightarrow> put_all nm n a cs = put_all nm n b cs"
  by (induction n) (simp_all add: put_all_Suc, simp add: put_all_def)

text \<open>A cycle of the controller feeds the mesh.\<close>

lemma sm_cycle_direct:
  assumes d: "direct n m" and q: "\<forall>q<n + n. queue_at m q = []"
  shows "\<exists>m'. sm_cycle (m, cs) = Some (m',
      feed_left InPort n n (\<lambda>i. if sm_a_state m = WS_DIST_INPUTS then Some (null_input (i + n)) else None)
        (feed_top InPort n (\<lambda>j. if sm_w_state m = WS_DIST_WEIGHT then Some (null_weight j) else None) cs)) \<and>
    direct n m' \<and> (\<forall>q<n + n. queue_at m' q = []) \<and>
    sm_w_state m' = (if sm_w_state m = WS_DIST_WEIGHT \<and> sm_current_K m = 0 then WS_IDLE else sm_w_state m) \<and>
    sm_current_K m' = (if sm_w_state m = WS_DIST_WEIGHT \<and> sm_current_K m \<noteq> 0 then sm_current_K m - 1 else sm_current_K m) \<and>
    sm_a_state m' = (if sm_a_state m = WS_DIST_INPUTS \<and> sm_current_M m + 1 = sm_rows_used m then WS_IDLE else sm_a_state m) \<and>
    sm_current_M m' = (if sm_a_state m = WS_DIST_INPUTS then sm_current_M m + 1 else sm_current_M m) \<and>
    sm_rows_used m' = sm_rows_used m"
proof -
  let ?W = "sm_w_state m = WS_DIST_WEIGHT" and ?A = "sm_a_state m = WS_DIST_INPUTS"
  let ?m0 = "m\<lparr>sm_local_cycle := sm_local_cycle m + 1\<rparr>"
  have d0: "direct n ?m0" using d by (simp add: direct_views)
  have n: "unat (sm_ms_rows ?m0) = n" "n < 2 ^ 32" using d by (simp_all add: direct_def unat_of_nat take_bit_nat_eq_self)
  obtain m1 where m1: "dist_weights ?m0 = Some m1" "direct n m1" "sm_a_state m1 = sm_a_state m" "sm_current_M m1 = sm_current_M m"
    "sm_rows_used m1 = sm_rows_used m" "sm_w_state m1 = (if ?W \<and> sm_current_K m = 0 then WS_IDLE else sm_w_state m)"
    "sm_current_K m1 = (if ?W \<and> sm_current_K m \<noteq> 0 then sm_current_K m - 1 else sm_current_K m)"
    "\<forall>q<n + n. queue_at m1 q = (if ?W \<and> q < n then [null_weight q] else [])"
  proof (cases ?W)
    case False
    then show ?thesis using d0 q by (intro that [of ?m0]) (simp_all add: dist_weights_def queue_at_def)
  next
    case True
    obtain m' where m': "(if sm_current_K ?m0 > sm_T_K ?m0 - 1 then foldM send_weight [0..<n] ?m0
        else foldM (\<lambda>i m. send_weight i (count_weight m)) [0..<n] ?m0) = Some m'" "mem_same ?m0 m'"
      "\<forall>q<n + n. queue_at m' q = queue_at ?m0 q @ (if q < n then [null_weight q] else [])"
      using weights_sent [OF d0] by (cases "sm_current_K ?m0 > sm_T_K ?m0 - 1") auto
    note s = mem_sameD [OF m'(2)]
    let ?m1 = "if sm_current_K m' = 0 then m'\<lparr>sm_w_state := WS_IDLE\<rparr> else m'\<lparr>sm_current_K := sm_current_K m' - 1\<rparr>"
    have "dist_weights ?m0 = Some ?m1" using True m'(1) unfolding dist_weights_def n(1) by simp
    moreover have "queue_at ?m1 k = queue_at m' k" for k by (simp add: queue_at_def)
    ultimately show ?thesis
      using True d0 q s m'(3) by (intro that [of ?m1]) (simp_all add: direct_views queue_at_def)
  qed
  have n1: "unat (sm_ms_rows m1) = n" using m1(2) n(2) by (simp add: direct_def unat_of_nat take_bit_nat_eq_self)
  obtain m2 where m2: "dist_inputs m1 = Some m2" "direct n m2" "sm_w_state m2 = sm_w_state m1" "sm_current_K m2 = sm_current_K m1"
    "sm_rows_used m2 = sm_rows_used m" "sm_a_state m2 = (if ?A \<and> sm_current_M m + 1 = sm_rows_used m then WS_IDLE else sm_a_state m)"
    "sm_current_M m2 = (if ?A then sm_current_M m + 1 else sm_current_M m)"
    "\<forall>q<n + n. queue_at m2 q = (if ?A \<and> n \<le> q then [null_input q] else if ?W \<and> q < n then [null_weight q] else [])"
  proof (cases ?A)
    case False
    then show ?thesis using m1 by (intro that [of m1]) (simp_all add: dist_inputs_def)
  next
    case True
    obtain m' where m': "foldM send_input [0..<n] m1 = Some m'" "mem_same m1 m'"
      "\<forall>q<n + n. queue_at m' q = queue_at m1 q @ (if n \<le> q then [null_input q] else [])"
      using inputs_sent [OF m1(2)] by blast
    note s = mem_sameD [OF m'(2)]
    let ?m' = "m'\<lparr>sm_current_M := sm_current_M m' + 1\<rparr>"
    let ?m2 = "if sm_current_M ?m' = sm_rows_used ?m' then ?m'\<lparr>sm_a_state := WS_IDLE\<rparr> else ?m'"
    have "dist_inputs m1 = Some ?m2" using True m'(1) m1(3) unfolding dist_inputs_def n1 by (simp add: Let_def)
    moreover have "queue_at ?m2 k = queue_at m' k" for k by (simp add: queue_at_def)
    ultimately show ?thesis
      using True m1 s m'(3) by (intro that [of ?m2]) (simp_all add: direct_views)
  qed
  have p: "unat (sm_n_read_ports m2) = n + n" using m2(2) unat_of_nat [of "n + n", where 'a = 32]
    by (simp add: direct_def take_bit_nat_eq_self)
  obtain m3 where m3: "sm_send (m2, cs) = Some (m3, put_all InPort (n + n) (head_at m2) cs)" "mem_same m2 m3"
    "\<forall>q<n + n. queue_at m3 q = tl (queue_at m2 q)"
    using ports_sent [OF m2(2), of "n + n" cs] unfolding sm_send_def prod.case p by auto
  have hd: "head_at m2 q = (if n \<le> q then if ?A then Some (null_input q) else None else if ?W then Some (null_weight q) else None)"
    if "q < n + n" for q using m2(8) that by (auto simp: head_at_def)
  have c1: "put_all InPort n (head_at m2) cs = put_all InPort n (\<lambda>j. if ?W then Some (null_weight j) else None) cs"
    by (rule put_all_cong) (simp add: hd)
  have c2: "put_all (\<lambda>i. InPort (i + n)) n (\<lambda>i. head_at m2 (i + n)) c =
      put_all (\<lambda>i. InPort (i + n)) n (\<lambda>i. if ?A then Some (null_input (i + n)) else None) c" for c
    by (rule put_all_cong) (simp add: hd)
  have w: "put_all InPort (n + n) (head_at m2) cs =
      feed_left InPort n n (\<lambda>i. if ?A then Some (null_input (i + n)) else None)
        (feed_top InPort n (\<lambda>j. if ?W then Some (null_weight j) else None) cs)"
    unfolding put_all_split c1 c2 feed_left_def feed_top_def ..
  have "sm_cycle (m, cs) = Some (m3, put_all InPort (n + n) (head_at m2) cs)"
    using m1(1) m2(1) m3(1) by (simp add: sm_cycle_def)
  moreover have "queue_at m3 q = []" if "q < n + n" for q using m3(3) m2(8) that by auto
  ultimately show ?thesis unfolding w using mem_sameD [OF m3(2)] m2 m1 by (intro exI [of _ m3]) simp
qed

end
