(* ===== verification/DSTree.thy ===== *)
theory DSTree
  imports ArrayWires
begin

text \<open>
  The distribution network: \<open>sim/src/SA/DSwitch.cpp\<close>, \<open>DSNetwork.cpp\<close> and \<open>DSNetworkTop.cpp\<close>.  A binary tree of switches
  per read port of the memory controller carries a package from the port to the leaves it is addressed to, all
  levels in one cycle.

  The middle of the range of a switch is a \<open>float\<close> in the source: a number with 24 significant bits.  It is kept
  doubled, as a natural number, rounded as the conversion to \<open>float\<close> rounds it.  Up to \<open>2 ^ 23\<close> leaves the rounding
  changes nothing, and the lemmas about a tree are stated for trees of that size: in a larger one a switch whose
  middle is rounded may send a package to the wrong side.  The counters of \<open>dswitchStats\<close> are left out.
\<close>

section \<open>A switch\<close>

record dswitch =
  dw_level :: nat
  dw_num_in_level :: u32
  dw_num_ms :: u32
  dw_pending_data :: bool
  dw_data :: "package list"
  dw_left :: wire
  dw_right :: wire
  dw_input :: wire

definition new_dswitch :: "nat \<Rightarrow> u32 \<Rightarrow> u32 \<Rightarrow> wire \<Rightarrow> wire \<Rightarrow> wire \<Rightarrow> dswitch" where
  "new_dswitch level num ms_size left right input =
     \<lparr>dw_level = level, dw_num_in_level = num, dw_num_ms = ms_size, dw_pending_data = False, dw_data = [],
      dw_left = left, dw_right = right, dw_input = input\<rparr>"

text \<open>The copy constructor of \<open>DataPackage\<close> copies the destinations of a multicast only.\<close>

definition copy_package :: "package \<Rightarrow> package" where
  "copy_package p = (if pk_traffic p = MULTICAST then p else p\<lparr>pk_dests := []\<rparr>)"

definition ms_to_route :: "dswitch \<Rightarrow> u32" where
  "ms_to_route s = drop_bit (dw_level s) (dw_num_ms s)"

definition first_ms :: "dswitch \<Rightarrow> u32" where
  "first_ms s = dw_num_in_level s * ms_to_route s"

text \<open>
  The conversion to \<open>float\<close>: the nearest number with 24 significant bits, the even one of two equally near.  It
  commutes with doubling, so it serves for doubled numbers too.
\<close>

definition to_float :: "nat \<Rightarrow> nat" where
  "to_float n =
     (let e = ilog2 n - 23; q = n div 2 ^ e; rest = n mod 2 ^ e
      in (if 2 * rest > 2 ^ e \<or> 2 * rest = 2 ^ e \<and> odd q then q + 1 else q) * 2 ^ e)"

definition twice_half :: "dswitch \<Rightarrow> nat" where
  "twice_half s = to_float (2 * unat (first_ms s) + unat (ms_to_route s - 1))"

text \<open>The search for a receiver stops at the first one found.\<close>

fun find_dest :: "bool list \<Rightarrow> nat list \<Rightarrow> bool option" where
  "find_dest dests [] = Some False"
| "find_dest dests (i # is) =
     do { assert_that (i < length dests); if dests ! i then Some True else find_dest dests is }"

text \<open>
  Whether a package goes to the left and whether it goes to the right.  The destination of a unicast is converted to
  \<open>float\<close> for the comparison; the conversion of the middle to \<open>int\<close> is undefined from \<open>2 ^ 31\<close> on.
\<close>

definition route :: "dswitch \<Rightarrow> package \<Rightarrow> (bool \<times> bool) option" where
  "route s p =
     (case pk_traffic p of
        BROADCAST \<Rightarrow> Some (True, True)
      | UNICAST \<Rightarrow> let l = (to_float (2 * unat (pk_unicast_dest p)) < twice_half s) in Some (l, \<not> l)
      | MULTICAST \<Rightarrow>
          let first = unat (first_ms s); last = unat (first_ms s + ms_to_route s); lim = twice_half s div 2
          in do { assert_that (lim < 2 ^ 31);
                  l \<leftarrow> find_dest (pk_dests p) [first..<lim + 1];
                  r \<leftarrow> find_dest (pk_dests p) [lim + 1..<last];
                  Some (l, r) })"

fun route_all :: "dswitch \<Rightarrow> package list \<Rightarrow> (package list \<times> package list) option" where
  "route_all s [] = Some ([], [])"
| "route_all s (p # ps) =
     do { (l, r) \<leftarrow> route s p;
          (ls, rs) \<leftarrow> route_all s ps;
          Some ((if l then [copy_package p] else []) @ ls, (if r then [copy_package p] else []) @ rs) }"

definition ds_send :: "package list \<Rightarrow> wire \<Rightarrow> dswitch \<Rightarrow> wires \<Rightarrow> wires option" where
  "ds_send ps c s cs = (if ps = [] then Some cs else do { assert_that (dw_pending_data s); Some (wire_send c ps cs) })"

definition route_packages :: "dswitch \<times> wires \<Rightarrow> (dswitch \<times> wires) option" where
  "route_packages = (\<lambda>(s, cs).
     do { (ls, rs) \<leftarrow> route_all s (dw_data s);
          cs1 \<leftarrow> ds_send ls (dw_left s) s cs;
          cs2 \<leftarrow> ds_send rs (dw_right s) s cs1;
          Some (s\<lparr>dw_pending_data := False\<rparr>, cs2) })"

definition ds_receive :: "dswitch \<times> wires \<Rightarrow> dswitch \<times> wires" where
  "ds_receive = (\<lambda>(s, cs).
     if cn_exist_pending_data (cs (dw_input s))
     then let (ps, cs1) = wire_receive (dw_input s) cs in (s\<lparr>dw_data := ps, dw_pending_data := True\<rparr>, cs1)
     else (s, cs))"

definition ds_cycle :: "dswitch \<times> wires \<Rightarrow> (dswitch \<times> wires) option" where
  "ds_cycle x = (let (s, cs) = ds_receive x in if dw_pending_data s then route_packages (s, cs) else Some (s, cs))"

section \<open>A tree and the network\<close>

record ds_network =
  dn_ms_size :: u32
  dn_nlevels :: nat
  dn_switches :: "nat \<times> nat \<Rightarrow> dswitch"
  dn_input :: wire
  dn_id :: nat

text \<open>
  The wire into position \<open>j\<close> of level \<open>i\<close>; below the last level are the leaves.  \<open>nlevels\<close> is computed with
  \<open>log10\<close>, which gives the logarithm of a power of two up to the sizes of an array.
\<close>

definition into_level :: "nat \<Rightarrow> wire \<Rightarrow> nat \<Rightarrow> nat \<Rightarrow> wire" where
  "into_level t input i j = (if i = 0 then input else Tree t (i - 1) j)"

definition new_ds_network :: "nat \<Rightarrow> u32 \<Rightarrow> wire \<Rightarrow> ds_network option" where
  "new_ds_network t ms_size input =
     do { assert_that (ms_size \<noteq> 0 \<and> ms_size AND (ms_size - 1) = 0);
          Some \<lparr>dn_ms_size = ms_size, dn_nlevels = ilog2 (unat ms_size),
                dn_switches = (\<lambda>(i, j). new_dswitch i (of_nat j) ms_size (Tree t i (2 * j)) (Tree t i (2 * j + 1))
                                          (into_level t input i j)),
                dn_input = input, dn_id = t\<rparr> }"

definition dn_getLastLevelConnections :: "ds_network \<Rightarrow> nat \<Rightarrow> wire" where
  "dn_getLastLevelConnections t i = into_level (dn_id t) (dn_input t) (dn_nlevels t) i"

definition level_order :: "nat \<Rightarrow> (nat \<times> nat) list" where
  "level_order i = map (Pair i) [0..<2 ^ i]"

fun switches_cycle :: "(nat \<times> nat) list \<Rightarrow> (nat \<times> nat \<Rightarrow> dswitch) \<times> wires \<Rightarrow> ((nat \<times> nat \<Rightarrow> dswitch) \<times> wires) option" where
  "switches_cycle [] x = Some x"
| "switches_cycle (p # ps) (sw, cs) = do { (s, cs1) \<leftarrow> ds_cycle (sw p, cs); switches_cycle ps (sw(p := s), cs1) }"

definition dn_cycle :: "ds_network \<times> wires \<Rightarrow> (ds_network \<times> wires) option" where
  "dn_cycle = (\<lambda>(t, cs).
     do { (sw, cs1) \<leftarrow> switches_cycle (concat (map level_order [0..<dn_nlevels t])) (dn_switches t, cs);
          Some (t\<lparr>dn_switches := sw\<rparr>, cs1) })"

text \<open>\<open>DSNetworkTop\<close>: one tree per input port, for the two kinds of mesh.\<close>

fun new_trees :: "u32 \<Rightarrow> nat list \<Rightarrow> ds_network list option" where
  "new_trees sz [] = Some []"
| "new_trees sz (i # is) = do { t \<leftarrow> new_ds_network i sz (InPort i); ts \<leftarrow> new_trees sz is; Some (t # ts) }"

definition new_ds_top :: "u32 \<Rightarrow> u32 \<Rightarrow> u32 \<Rightarrow> (u32 \<times> ds_network list) option" where
  "new_ds_top rows cols ports =
     do { assert_that (ports \<noteq> 0);
          let per = (rows + cols) div ports;
          ts \<leftarrow> new_trees per [0..<unat ports];
          Some (per, ts) }"

definition dt_getLastLevelConnections :: "u32 \<times> ds_network list \<Rightarrow> nat \<Rightarrow> wire" where
  "dt_getLastLevelConnections = (\<lambda>(per, ts) k. dn_getLastLevelConnections (ts ! (k div unat per)) (k mod unat per))"

definition dt_getTopConnections :: "u32 \<times> ds_network list \<Rightarrow> wire list" where
  "dt_getTopConnections = (\<lambda>(per, ts). map InPort [0..<length ts])"

fun trees_cycle :: "ds_network list \<times> wires \<Rightarrow> (ds_network list \<times> wires) option" where
  "trees_cycle ([], cs) = Some ([], cs)"
| "trees_cycle (t # ts, cs) =
     do { (t1, cs1) \<leftarrow> dn_cycle (t, cs);
          (ts1, cs2) \<leftarrow> trees_cycle (ts, cs1);
          Some (t1 # ts1, cs2) }"

section \<open>What a switch routes\<close>

definition addressed :: "package \<Rightarrow> nat \<Rightarrow> bool" where
  "addressed p d = (case pk_traffic p of BROADCAST \<Rightarrow> True | UNICAST \<Rightarrow> unat (pk_unicast_dest p) = d | MULTICAST \<Rightarrow> pk_dests p ! d)"

definition hits :: "nat \<Rightarrow> nat \<Rightarrow> package \<Rightarrow> bool" where
  "hits lo hi p \<longleftrightarrow> (\<exists>d. lo \<le> d \<and> d < hi \<and> addressed p d)"

text \<open>A package for a tree of \<open>n\<close> leaves: it has a receiver there.\<close>

definition package_ok :: "nat \<Rightarrow> package \<Rightarrow> bool" where
  "package_ok n p \<longleftrightarrow> (case pk_traffic p of
     BROADCAST \<Rightarrow> pk_dests p = [] | UNICAST \<Rightarrow> unat (pk_unicast_dest p) < n \<and> pk_dests p = [] | MULTICAST \<Rightarrow> n \<le> length (pk_dests p) \<and> hits 0 n p)"

lemma find_dest_spec:
  "\<forall>i\<in>set is. i < length dests \<Longrightarrow> find_dest dests is = Some (\<exists>i\<in>set is. dests ! i)"
  by (induction "is") auto

lemma package_ok_hits: "package_ok n p \<Longrightarrow> 0 < n \<Longrightarrow> hits 0 n p"
  by (auto simp: package_ok_def hits_def addressed_def split: traffic.splits)

lemma copy_ok: "package_ok n p \<Longrightarrow> copy_package p = p"
  by (auto simp: copy_package_def package_ok_def split: traffic.splits)

lemma to_float_exact:
  assumes "n < 2 ^ 24"
  shows "to_float n = n"
proof (cases "n = 0")
  case False
  then have "(2 :: nat) ^ ilog2 n < 2 ^ 24" using ilog2_le [of n] assms by simp
  then have "ilog2 n < 24" by (rule power_less_imp_less_exp [rotated]) simp
  then show ?thesis by (simp add: to_float_def)
qed (simp add: to_float_def)

lemma route_spec:
  assumes "package_ok n p" "hits f (f + (h + h)) p" "0 < h" "f + (h + h) \<le> n" "n \<le> 2 ^ 23"
    "first_ms s = of_nat f" "ms_to_route s = of_nat (h + h)"
  shows "route s p = Some (hits f (f + h) p, hits (f + h) (f + (h + h)) p)"
proof -
  have u: "unat (first_ms s) = f" "unat (first_ms s + ms_to_route s) = f + (h + h)"
    using assms(4-7) by (simp_all add: unat_of_nat take_bit_nat_eq_self flip: of_nat_add)
  have "ms_to_route s - 1 = of_nat (h + h - 1)" unfolding assms(7) using assms(3) by (simp add: of_nat_diff)
  moreover have "unat (of_nat (h + h - 1) :: u32) = h + h - 1"
    unfolding unat_of_nat by (rule mod_less) (use assms(3-5) in simp)
  ultimately have m: "unat (ms_to_route s - 1) = h + h - 1" by (simp only:)
  have "2 * f + (h + h - 1) < 2 ^ 24" using assms(3-5) by simp
  then have t: "twice_half s = 2 * f + (h + h - 1)" by (simp add: twice_half_def u m to_float_exact)
  have lim: "twice_half s div 2 + 1 = f + h" unfolding t using assms(3) by linarith
  show ?thesis
  proof (cases "pk_traffic p")
    case BROADCAST
    then have "addressed p d" for d by (simp add: addressed_def)
    then have "hits f (f + h) p" "hits (f + h) (f + (h + h)) p" using assms(3) by (auto simp: hits_def)
    then show ?thesis using BROADCAST by (simp add: route_def)
  next
    case UNICAST
    then have a: "addressed p d \<longleftrightarrow> unat (pk_unicast_dest p) = d" for d by (simp add: addressed_def)
    then have d: "f \<le> unat (pk_unicast_dest p)" "unat (pk_unicast_dest p) < f + (h + h)" using assms(2) by (auto simp: hits_def)
    have "hits f (f + h) p \<longleftrightarrow> unat (pk_unicast_dest p) < f + h" "hits (f + h) (f + (h + h)) p \<longleftrightarrow> \<not> unat (pk_unicast_dest p) < f + h"
      unfolding hits_def a using d by auto
    moreover have "to_float (2 * unat (pk_unicast_dest p)) = 2 * unat (pk_unicast_dest p)"
      using d(2) assms(4,5) by (intro to_float_exact) simp
    moreover have "2 * unat (pk_unicast_dest p) < twice_half s \<longleftrightarrow> unat (pk_unicast_dest p) < f + h"
      unfolding t using assms(3) by linarith
    ultimately show ?thesis using UNICAST by (simp add: route_def Let_def)
  next
    case MULTICAST
    then have a: "addressed p d \<longleftrightarrow> pk_dests p ! d" for d by (simp add: addressed_def)
    have l: "n \<le> length (pk_dests p)" using assms(1) MULTICAST by (simp add: package_ok_def)
    have "find_dest (pk_dests p) [f..<f + h] = Some (hits f (f + h) p)"
      "find_dest (pk_dests p) [f + h..<f + (h + h)] = Some (hits (f + h) (f + (h + h)) p)"
      using l assms(4) by (auto simp: find_dest_spec hits_def a)
    moreover have "twice_half s div 2 < 2 ^ 31" using lim assms(3-5) by simp
    ultimately show ?thesis using MULTICAST unfolding route_def Let_def u lim by simp
  qed
qed

lemma route_all_spec:
  assumes "\<And>p. p \<in> set ps \<Longrightarrow> package_ok n p \<and> route s p = Some (P p, Q p)"
  shows "route_all s ps = Some (filter P ps, filter Q ps)"
  using assms
proof (induction ps)
  case (Cons p ps)
  have p: "package_ok n p" "route s p = Some (P p, Q p)" using Cons.prems [of p] by simp_all
  show ?case using Cons p(2) copy_ok [OF p(1)] by simp
qed simp


text \<open>The switch at position \<open>j\<close> of level \<open>i\<close> of a tree with \<open>L\<close> levels, between cycles.\<close>

definition switch_ok :: "nat \<Rightarrow> nat \<Rightarrow> nat \<Rightarrow> nat \<Rightarrow> wire \<Rightarrow> dswitch \<Rightarrow> bool" where
  "switch_ok k L i j input s \<longleftrightarrow>
     s\<lparr>dw_data := []\<rparr> = new_dswitch i (of_nat j) (of_nat (2 ^ L)) (Tree k i (2 * j)) (Tree k i (2 * j + 1)) input"

lemma switch_okD:
  assumes "switch_ok k L i j input s"
  shows "dw_level s = i" "dw_num_in_level s = of_nat j" "dw_num_ms s = of_nat (2 ^ L)" "\<not> dw_pending_data s"
    "dw_left s = Tree k i (2 * j)" "dw_right s = Tree k i (2 * j + 1)" "dw_input s = input"
  using assms by (cases s; simp add: switch_ok_def new_dswitch_def)+

lemma route_numbers:
  assumes "switch_ok k L i j input s" "i < L" "L < 24"
  shows "first_ms s = of_nat (j * (2 ^ (L - 1 - i) + 2 ^ (L - 1 - i)))" "ms_to_route s = of_nat (2 ^ (L - 1 - i) + 2 ^ (L - 1 - i))"
proof -
  note sw = switch_okD [OF assms(1)]
  have e: "(2 :: nat) ^ (L - 1 - i) + 2 ^ (L - 1 - i) = 2 ^ (L - i)"
    using assms(2) by (simp add: mult_2 [symmetric] power_Suc [symmetric] Suc_diff_Suc del: power_Suc)
  have "drop_bit i (2 ^ L :: u32) = 2 ^ (L - i)"
    using assms(2,3) by (simp add: drop_bit_exp_eq)
  then show r: "ms_to_route s = of_nat (2 ^ (L - 1 - i) + 2 ^ (L - 1 - i))" unfolding e by (simp add: ms_to_route_def sw)
  show "first_ms s = of_nat (j * (2 ^ (L - 1 - i) + 2 ^ (L - 1 - i)))" unfolding first_ms_def r sw by simp
qed


text \<open>A cycle of a switch: what was on its input is on its outputs, each package where its receivers are.\<close>

lemma ds_cycle_spec:
  assumes sw: "switch_ok k L i j input s" and i: "i < L" "L < 24" "j < 2 ^ i"
    and wires: "input \<noteq> Tree k i (2 * j)" "input \<noteq> Tree k i (2 * j + 1)"
    and out: "pending (cs (Tree k i (2 * j))) = []" "pending (cs (Tree k i (2 * j + 1))) = []"
    and ps: "\<forall>p\<in>set (pending (cs input)). package_ok (2 ^ L) p \<and> hits (j * (h + h)) (j * (h + h) + (h + h)) p"
    and h: "h = 2 ^ (L - 1 - i)"
  shows "\<exists>s' cs'. ds_cycle (s, cs) = Some (s', cs') \<and> switch_ok k L i j input s' \<and>
    pending (cs' input) = [] \<and>
    pending (cs' (Tree k i (2 * j))) = filter (hits (j * (h + h)) (j * (h + h) + h)) (pending (cs input)) \<and>
    pending (cs' (Tree k i (2 * j + 1))) = filter (hits (j * (h + h) + h) (j * (h + h) + (h + h))) (pending (cs input)) \<and>
    (\<forall>c. c \<noteq> input \<longrightarrow> c \<noteq> Tree k i (2 * j) \<longrightarrow> c \<noteq> Tree k i (2 * j + 1) \<longrightarrow> cs' c = cs c)"
proof -
  let ?f = "j * (h + h)" and ?ps = "pending (cs input)"
  let ?P = "hits ?f (?f + h)" and ?Q = "hits (?f + h) (?f + (h + h))"
  note d = switch_okD [OF sw]
  show ?thesis
  proof (cases "cn_pending_data (cs input)")
    case False
    then have "ds_cycle (s, cs) = Some (s, cs)" using d by (simp add: ds_cycle_def ds_receive_def cn_exist_pending_data_def)
    moreover have "?ps = []" using False by (simp add: pending_def)
    ultimately show ?thesis using sw out by auto
  next
    case True
    let ?s = "s\<lparr>dw_data := ?ps, dw_pending_data := True\<rparr>" and ?cs = "cs(input := cs input\<lparr>cn_pending_data := False\<rparr>)"
    have rcv: "ds_receive (s, cs) = (?s, ?cs)"
      using True d wire_receive_simps [of input cs] by (cases "wire_receive input cs") (simp add: ds_receive_def cn_exist_pending_data_def)
    have h2: "(2 :: nat) ^ (L - i) = h + h"
      using i(1) unfolding h by (simp add: mult_2 [symmetric] power_Suc [symmetric] Suc_diff_Suc del: power_Suc)
    have "j * (h + h) + (h + h) = (j + 1) * 2 ^ (L - i)" unfolding h2 by simp
    also have "\<dots> \<le> 2 ^ i * 2 ^ (L - i)" using i(3) by (intro mult_le_mono) simp_all
    also have "\<dots> = 2 ^ L" using i(1) by (simp flip: power_add)
    finally have le: "?f + (h + h) \<le> 2 ^ L" .
    have L: "(2 :: nat) ^ L \<le> 2 ^ 23" using i(2) by (intro power_increasing) simp_all
    have num: "first_ms ?s = of_nat ?f" "ms_to_route ?s = of_nat (h + h)"
      using route_numbers [OF sw i(1,2)] unfolding h by (simp_all add: first_ms_def ms_to_route_def)
    have "route_all ?s ?ps = Some (filter ?P ?ps, filter ?Q ?ps)"
    proof (rule route_all_spec)
      fix p assume "p \<in> set ?ps"
      then have "package_ok (2 ^ L) p" "hits ?f (?f + (h + h)) p" using ps by blast+
      then show "package_ok (2 ^ L) p \<and> route ?s p = Some (?P p, ?Q p)" using route_spec [OF _ _ _ le L num] h by simp
    qed
    then have c: "ds_cycle (s, cs) = Some (s\<lparr>dw_data := ?ps, dw_pending_data := False\<rparr>,
        (let c1 = (if filter ?P ?ps = [] then ?cs else wire_send (Tree k i (2 * j)) (filter ?P ?ps) ?cs)
         in if filter ?Q ?ps = [] then c1 else wire_send (Tree k i (2 * j + 1)) (filter ?Q ?ps) c1))"
      unfolding ds_cycle_def rcv by (simp add: route_packages_def ds_send_def d Let_def)
    have "switch_ok k L i j input (s\<lparr>dw_data := ?ps, dw_pending_data := False\<rparr>)"
      using sw d(4) by (cases s; simp add: switch_ok_def new_dswitch_def)
    then show ?thesis unfolding c Let_def using wires out by (auto simp: wire_send_def)
  qed
qed


lemma switches_append: "switches_cycle (xs @ ys) x = do { y \<leftarrow> switches_cycle xs x; switches_cycle ys y }"
  by (induction xs arbitrary: x) (auto split: Option.bind_splits)

lemma into_neq:
  assumes "\<forall>a b. input \<noteq> Tree k a b"
  shows "into_level k input i j \<noteq> Tree k i q" "into_level k input i j = into_level k input i j' \<longleftrightarrow> i = 0 \<or> j = j'"
  using assms by (auto simp: into_level_def)

lemma level_spec:
  assumes inp: "\<forall>a b. input \<noteq> Tree k a b" and i: "i < L" "L < 24" and h: "h = 2 ^ (L - 1 - i)"
    and sw: "\<forall>j<2 ^ i. switch_ok k L i j (into_level k input i j) (sw (i, j))"
    and out: "\<forall>q<2 * 2 ^ i. pending (cs (Tree k i q)) = []"
    and ps: "\<forall>j<2 ^ i. \<forall>p\<in>set (pending (cs (into_level k input i j))).
       package_ok (2 ^ L) p \<and> hits (j * (h + h)) (j * (h + h) + (h + h)) p"
  shows "m \<le> 2 ^ i \<Longrightarrow> \<exists>sw' cs'. switches_cycle (map (Pair i) [0..<m]) (sw, cs) = Some (sw', cs') \<and>
    (\<forall>j<2 ^ i. switch_ok k L i j (into_level k input i j) (sw' (i, j))) \<and> (\<forall>a b. a \<noteq> i \<longrightarrow> sw' (a, b) = sw (a, b)) \<and>
    (\<forall>j<m. pending (cs' (into_level k input i j)) = [] \<and>
       pending (cs' (Tree k i (2 * j))) = filter (hits (j * (h + h)) (j * (h + h) + h)) (pending (cs (into_level k input i j))) \<and>
       pending (cs' (Tree k i (2 * j + 1))) = filter (hits (j * (h + h) + h) (j * (h + h) + (h + h))) (pending (cs (into_level k input i j)))) \<and>
    (\<forall>c. (\<forall>j<m. c \<noteq> into_level k input i j) \<longrightarrow> (\<forall>q<2 * m. c \<noteq> Tree k i q) \<longrightarrow> cs' c = cs c)"
proof (induction m)
  case 0
  then show ?case using sw by simp
next
  case (Suc m)
  let ?in = "into_level k input i"
  let ?L = "\<lambda>j. filter (hits (j * (h + h)) (j * (h + h) + h)) (pending (cs (?in j)))"
  let ?R = "\<lambda>j. filter (hits (j * (h + h) + h) (j * (h + h) + (h + h))) (pending (cs (?in j)))"
  from Suc obtain sw1 cs1 where m: "switches_cycle (map (Pair i) [0..<m]) (sw, cs) = Some (sw1, cs1)"
    and s1: "\<forall>j<2 ^ i. switch_ok k L i j (?in j) (sw1 (i, j))" "\<forall>a b. a \<noteq> i \<longrightarrow> sw1 (a, b) = sw (a, b)"
    and w1: "\<forall>j<m. pending (cs1 (?in j)) = [] \<and> pending (cs1 (Tree k i (2 * j))) = ?L j \<and> pending (cs1 (Tree k i (2 * j + 1))) = ?R j"
    and o1: "\<forall>c. (\<forall>j<m. c \<noteq> ?in j) \<longrightarrow> (\<forall>q<2 * m. c \<noteq> Tree k i q) \<longrightarrow> cs1 c = cs c" by auto
  have mi: "m < 2 ^ i" "2 * m + 1 < 2 * 2 ^ i" using Suc.prems by simp_all
  note ne = into_neq [OF inp]
  have new: "?in m \<noteq> ?in j" if "j < m" for j using ne(2) [of i m j] mi(1) that by (cases i) auto
  have keep: "cs1 (?in m) = cs (?in m)" using o1 new ne(1) by blast
  have outs: "cs1 (Tree k i (2 * m)) = cs (Tree k i (2 * m))" "cs1 (Tree k i (2 * m + 1)) = cs (Tree k i (2 * m + 1))"
  proof -
    have "Tree k i q \<noteq> ?in j" for q j using ne(1) by metis
    then show "cs1 (Tree k i (2 * m)) = cs (Tree k i (2 * m))" "cs1 (Tree k i (2 * m + 1)) = cs (Tree k i (2 * m + 1))"
      using o1 by auto
  qed
  have e: "pending (cs1 (Tree k i (2 * m))) = []" "pending (cs1 (Tree k i (2 * m + 1))) = []" using outs out mi by simp_all
  have p: "\<forall>p\<in>set (pending (cs1 (?in m))). package_ok (2 ^ L) p \<and> hits (m * (h + h)) (m * (h + h) + (h + h)) p"
    using ps mi(1) keep by simp
  have sm: "switch_ok k L i m (?in m) (sw1 (i, m))" using s1(1) mi(1) by simp
  obtain s' cs2 where c: "ds_cycle (sw1 (i, m), cs1) = Some (s', cs2)" "switch_ok k L i m (?in m) s'"
    "pending (cs2 (?in m)) = []" "pending (cs2 (Tree k i (2 * m))) = ?L m" "pending (cs2 (Tree k i (2 * m + 1))) = ?R m"
    "\<forall>c. c \<noteq> ?in m \<longrightarrow> c \<noteq> Tree k i (2 * m) \<longrightarrow> c \<noteq> Tree k i (2 * m + 1) \<longrightarrow> cs2 c = cs1 c"
    using ds_cycle_spec [OF sm i mi(1) ne(1) ne(1) e p h] unfolding keep by blast
  have old: "cs2 (?in j) = cs1 (?in j)" "cs2 (Tree k i (2 * j)) = cs1 (Tree k i (2 * j))"
    "cs2 (Tree k i (2 * j + 1)) = cs1 (Tree k i (2 * j + 1))" if "j < m" for j
  proof -
    have "?in j \<noteq> ?in m" "Tree k i q \<noteq> ?in m" for q using new [OF that] ne(1) [of i m] by metis+
    then show "cs2 (?in j) = cs1 (?in j)" "cs2 (Tree k i (2 * j)) = cs1 (Tree k i (2 * j))"
      "cs2 (Tree k i (2 * j + 1)) = cs1 (Tree k i (2 * j + 1))" using c(6) ne(1) [of i j] that by auto
  qed
  show ?case
  proof (intro exI conjI)
    show "switches_cycle (map (Pair i) [0..<Suc m]) (sw, cs) = Some (sw1((i, m) := s'), cs2)"
      using m c(1) by (simp add: switches_append)
    show "\<forall>j<2 ^ i. switch_ok k L i j (?in j) ((sw1((i, m) := s')) (i, j))" using s1(1) c(2) by simp
    show "\<forall>a b. a \<noteq> i \<longrightarrow> (sw1((i, m) := s')) (a, b) = sw (a, b)" using s1(2) by simp
    show "\<forall>j<Suc m. pending (cs2 (?in j)) = [] \<and> pending (cs2 (Tree k i (2 * j))) = ?L j \<and> pending (cs2 (Tree k i (2 * j + 1))) = ?R j"
      using c(3-5) w1 old by (simp add: less_Suc_eq)
    show "\<forall>c. (\<forall>j<Suc m. c \<noteq> ?in j) \<longrightarrow> (\<forall>q<2 * Suc m. c \<noteq> Tree k i q) \<longrightarrow> cs2 c = cs c"
      using o1 c(6) by simp
  qed
qed

text \<open>The packages on the wire into position \<open>j\<close> of level \<open>i\<close>: those addressed to a leaf below it.\<close>

definition below :: "nat \<Rightarrow> nat \<Rightarrow> nat \<Rightarrow> package \<Rightarrow> bool" where
  "below L i j p \<longleftrightarrow> hits (j * 2 ^ (L - i)) (j * 2 ^ (L - i) + 2 ^ (L - i)) p"

lemma below_leaf: "below L L j p \<longleftrightarrow> addressed p j"
  by (auto simp: below_def hits_def less_Suc_eq le_less)

lemma hits_split: "hits a (a + h) p \<or> hits (a + h) (a + (h + h)) p \<longleftrightarrow> hits a (a + (h + h)) p"
proof -
  have "hits a (a + (h + h)) p" if w: "hits x y p" "a \<le> x" "y \<le> a + (h + h)" for x y
  proof -
    from w(1) obtain d where "x \<le> d" "d < y" "addressed p d" unfolding hits_def by blast
    then show ?thesis using w(2,3) unfolding hits_def by (intro exI [of _ d]) simp
  qed
  from this [of a "a + h"] this [of "a + h" "a + (h + h)"]
  have "hits a (a + h) p \<Longrightarrow> hits a (a + (h + h)) p" "hits (a + h) (a + (h + h)) p \<Longrightarrow> hits a (a + (h + h)) p"
    by simp_all
  moreover have "hits a (a + h) p \<or> hits (a + h) (a + (h + h)) p" if w: "hits a (a + (h + h)) p"
  proof -
    from w obtain d where d: "a \<le> d" "d < a + (h + h)" "addressed p d" by (auto simp: hits_def)
    show ?thesis
    proof (cases "d < a + h")
      case True
      then show ?thesis using d by (auto simp: hits_def)
    next
      case False
      then have "a + h \<le> d" by simp
      then show ?thesis using d by (auto simp: hits_def)
    qed
  qed
  ultimately show ?thesis by blast
qed

lemma below_children:
  assumes "i < L" "h = 2 ^ (L - 1 - i)"
  shows "below L i j p \<longleftrightarrow> hits (j * (h + h)) (j * (h + h) + (h + h)) p"
    "below L (Suc i) (2 * j) p \<longleftrightarrow> hits (j * (h + h)) (j * (h + h) + h) p"
    "below L (Suc i) (2 * j + 1) p \<longleftrightarrow> hits (j * (h + h) + h) (j * (h + h) + (h + h)) p"
    "below L (Suc i) (2 * j) p \<or> below L (Suc i) (2 * j + 1) p \<longleftrightarrow> below L i j p"
proof -
  have j: "2 * j * h = j * (h + h)" "(2 * j + 1) * h = j * (h + h) + h" by (simp_all add: algebra_simps)
  have h: "2 ^ (L - i) = h + h" "2 ^ (L - Suc i) = h"
    using assms by (simp_all add: mult_2 [symmetric] power_Suc [symmetric] Suc_diff_Suc del: power_Suc)
  show b: "below L i j p \<longleftrightarrow> hits (j * (h + h)) (j * (h + h) + (h + h)) p"
    "below L (Suc i) (2 * j) p \<longleftrightarrow> hits (j * (h + h)) (j * (h + h) + h) p"
    "below L (Suc i) (2 * j + 1) p \<longleftrightarrow> hits (j * (h + h) + h) (j * (h + h) + (h + h)) p"
    unfolding below_def h j by (simp_all add: add.assoc)
  show "below L (Suc i) (2 * j) p \<or> below L (Suc i) (2 * j + 1) p \<longleftrightarrow> below L i j p"
    unfolding b by (rule hits_split)
qed

text \<open>The tree, level by level.\<close>

definition tree_ok :: "nat \<Rightarrow> nat \<Rightarrow> wire \<Rightarrow> (nat \<times> nat \<Rightarrow> dswitch) \<Rightarrow> bool" where
  "tree_ok k L input sw \<longleftrightarrow> (\<forall>i<L. \<forall>j<2 ^ i. switch_ok k L i j (into_level k input i j) (sw (i, j)))"

lemma levels_spec:
  assumes inp: "\<forall>a b. input \<noteq> Tree k a b" and L: "L < 24" and sw: "tree_ok k L input sw"
    and out: "\<forall>i<L. \<forall>q<2 * 2 ^ i. pending (cs (Tree k i q)) = []"
    and ps: "\<forall>p\<in>set (pending (cs input)). package_ok (2 ^ L) p"
  shows "l \<le> L \<Longrightarrow> \<exists>sw' cs'. switches_cycle (concat (map level_order [0..<l])) (sw, cs) = Some (sw', cs') \<and>
    tree_ok k L input sw' \<and>
    (\<forall>j<2 ^ l. pending (cs' (into_level k input l j)) = filter (below L l j) (pending (cs input))) \<and>
    (\<forall>i<l. \<forall>j<2 ^ i. pending (cs' (into_level k input i j)) = []) \<and>
    (\<forall>c. c \<noteq> input \<longrightarrow> (\<forall>i<l. \<forall>q<2 * 2 ^ i. c \<noteq> Tree k i q) \<longrightarrow> cs' c = cs c)"
proof (induction l)
  case 0
  have "below L 0 0 p" if "p \<in> set (pending (cs input))" for p
    using package_ok_hits ps that by (simp add: below_def)
  then show ?case using sw by (simp add: into_level_def)
next
  case (Suc l)
  let ?ps = "pending (cs input)" and ?in = "into_level k input"
  from Suc obtain sw1 cs1 where m: "switches_cycle (concat (map level_order [0..<l])) (sw, cs) = Some (sw1, cs1)"
    and s1: "tree_ok k L input sw1" and w1: "\<forall>j<2 ^ l. pending (cs1 (?in l j)) = filter (below L l j) ?ps"
    and e1: "\<forall>i<l. \<forall>j<2 ^ i. pending (cs1 (?in i j)) = []"
    and o1: "\<forall>c. c \<noteq> input \<longrightarrow> (\<forall>i<l. \<forall>q<2 * 2 ^ i. c \<noteq> Tree k i q) \<longrightarrow> cs1 c = cs c" by auto
  have l: "l < L" using Suc.prems by simp
  define h :: nat where "h = 2 ^ (L - 1 - l)"
  note ch = below_children [OF l h_def]
  have sl: "\<forall>j<2 ^ l. switch_ok k L l j (?in l j) (sw1 (l, j))" using s1 l by (simp add: tree_ok_def)
  have ol: "\<forall>q<2 * 2 ^ l. pending (cs1 (Tree k l q)) = []"
    using o1 inp out l by (metis nat_less_le wire.inject(2))
  have pl: "\<forall>j<2 ^ l. \<forall>p\<in>set (pending (cs1 (?in l j))). package_ok (2 ^ L) p \<and> hits (j * (h + h)) (j * (h + h) + (h + h)) p"
    using w1 ps ch(1) by simp
  obtain sw2 cs2 where c: "switches_cycle (map (Pair l) [0..<2 ^ l]) (sw1, cs1) = Some (sw2, cs2)"
    "\<forall>j<2 ^ l. switch_ok k L l j (?in l j) (sw2 (l, j))" "\<forall>a b. a \<noteq> l \<longrightarrow> sw2 (a, b) = sw1 (a, b)"
    "\<forall>j<2 ^ l. pending (cs2 (?in l j)) = [] \<and>
       pending (cs2 (Tree k l (2 * j))) = filter (hits (j * (h + h)) (j * (h + h) + h)) (pending (cs1 (?in l j))) \<and>
       pending (cs2 (Tree k l (2 * j + 1))) = filter (hits (j * (h + h) + h) (j * (h + h) + (h + h))) (pending (cs1 (?in l j)))"
    "\<forall>c. (\<forall>j<2 ^ l. c \<noteq> ?in l j) \<longrightarrow> (\<forall>q<2 * 2 ^ l. c \<noteq> Tree k l q) \<longrightarrow> cs2 c = cs1 c"
    using level_spec [OF inp l L h_def sl ol pl order_refl] by blast
  show ?case
  proof (intro exI conjI)
    show "switches_cycle (concat (map level_order [0..<Suc l])) (sw, cs) = Some (sw2, cs2)"
      using m c(1) by (simp add: switches_append level_order_def)
    show "tree_ok k L input sw2" unfolding tree_ok_def
    proof (intro allI impI)
      fix i j assume "i < L" "j < (2 :: nat) ^ i"
      then show "switch_ok k L i j (?in i j) (sw2 (i, j))" using s1 c(2,3) by (cases "i = l") (simp_all add: tree_ok_def)
    qed
    show "\<forall>j<2 ^ Suc l. pending (cs2 (?in (Suc l) j)) = filter (below L (Suc l) j) ?ps"
    proof (intro allI impI)
      fix q :: nat assume q: "q < 2 ^ Suc l"
      define j where "j = q div 2"
      have j: "j < 2 ^ l" using q by (simp add: j_def)
      have f: "filter P (filter (below L l j) ?ps) = filter P ?ps" if "\<And>p. P p \<Longrightarrow> below L l j p" for P
        using that by (auto intro: filter_cong)
      have a: "filter (below L (Suc l) (2 * j)) (filter (below L l j) ?ps) = filter (below L (Suc l) (2 * j)) ?ps"
        "filter (below L (Suc l) (2 * j + 1)) (filter (below L l j) ?ps) = filter (below L (Suc l) (2 * j + 1)) ?ps"
        using ch(4) by (intro f; blast)+
      have w: "pending (cs2 (Tree k l (2 * j))) = filter (below L (Suc l) (2 * j)) ?ps"
        "pending (cs2 (Tree k l (2 * j + 1))) = filter (below L (Suc l) (2 * j + 1)) ?ps"
        using c(4) w1 j a ch(2,3) by simp_all
      have "q = 2 * j \<or> q = 2 * j + 1" unfolding j_def by presburger
      then show "pending (cs2 (?in (Suc l) q)) = filter (below L (Suc l) q) ?ps"
        using w by (auto simp: into_level_def simp del: One_nat_def)
    qed
    show "\<forall>i<Suc l. \<forall>j<2 ^ i. pending (cs2 (?in i j)) = []"
    proof (intro allI impI)
      fix i j assume i: "i < Suc l" and j: "j < (2 :: nat) ^ i"
      show "pending (cs2 (?in i j)) = []"
      proof (cases "i = l")
        case True
        then show ?thesis using c(4) j by simp
      next
        case False
        then have il: "i < l" using i by simp
        have "?in i j \<noteq> ?in l j'" "?in i j \<noteq> Tree k l q" for j' q
          using il inp by (auto simp: into_level_def)
        then have "cs2 (?in i j) = cs1 (?in i j)" using c(5) by blast
        then show ?thesis using e1 il j by simp
      qed
    qed
    show "\<forall>c. c \<noteq> input \<longrightarrow> (\<forall>i<Suc l. \<forall>q<2 * 2 ^ i. c \<noteq> Tree k i q) \<longrightarrow> cs2 c = cs c"
    proof (intro allI impI)
      fix w assume w: "w \<noteq> input" "\<forall>i<Suc l. \<forall>q<2 * 2 ^ i. w \<noteq> Tree k i q"
      have "w \<noteq> ?in l j" if "j < 2 ^ l" for j
      proof (cases l)
        case 0
        then show ?thesis using w(1) by (simp add: into_level_def)
      next
        case (Suc n)
        then have "j < 2 * 2 ^ n" "n < Suc l" using that by simp_all
        then show ?thesis using w(2) Suc by (simp add: into_level_def)
      qed
      then have "cs2 w = cs1 w" using c(5) w(2) by blast
      then show "cs2 w = cs w" using o1 w by simp
    qed
  qed
qed

section \<open>The network delivers\<close>

definition tree_ready :: "nat \<Rightarrow> nat \<Rightarrow> wire \<Rightarrow> ds_network \<Rightarrow> bool" where
  "tree_ready k L input t \<longleftrightarrow>
     dn_id t = k \<and> dn_nlevels t = L \<and> dn_input t = input \<and> dn_ms_size t = of_nat (2 ^ L) \<and> tree_ok k L input (dn_switches t)"

definition quiet :: "nat \<Rightarrow> nat \<Rightarrow> wires \<Rightarrow> bool" where
  "quiet k L cs \<longleftrightarrow> (\<forall>i<L. \<forall>q<2 * 2 ^ i. pending (cs (Tree k i q)) = [])"

lemma new_ds_network_ready:
  assumes "L < 24"
  shows "\<exists>t. new_ds_network k (of_nat (2 ^ L)) input = Some t \<and> tree_ready k L input t"
proof -
  have "(2 :: nat) ^ L < 2 ^ 32" using assms by (intro power_strict_increasing) simp_all
  then have u: "unat (2 ^ L :: u32) = 2 ^ L" using unat_of_nat [of "2 ^ L", where 'a = 32] by (simp add: take_bit_nat_eq_self)
  have a: "(2 ^ L :: u32) AND (2 ^ L - 1) = 0"
    by (rule bit_eqI) (auto simp: bit_simps mask_eq_exp_minus_1 [symmetric])
  have "(2 ^ L :: u32) \<noteq> 0" using assms by simp
  moreover have "ilog2 (2 ^ L) = L" by (rule ilog2_power)
  ultimately show ?thesis
    using a u by (auto simp: new_ds_network_def tree_ready_def tree_ok_def switch_ok_def new_dswitch_def)
qed

lemma tree_delivers:
  assumes "tree_ready k L input t" "\<forall>a b. input \<noteq> Tree k a b" "L < 24" "quiet k L cs"
    "\<forall>p\<in>set (pending (cs input)). package_ok (2 ^ L) p"
  shows "\<exists>t' cs'. dn_cycle (t, cs) = Some (t', cs') \<and> tree_ready k L input t' \<and>
    (\<forall>j<2 ^ L. pending (cs' (dn_getLastLevelConnections t j)) = filter (\<lambda>p. addressed p j) (pending (cs input))) \<and>
    (\<forall>i<L. \<forall>j<2 ^ i. pending (cs' (into_level k input i j)) = []) \<and>
    (\<forall>c. c \<noteq> input \<longrightarrow> (\<forall>i<L. \<forall>q<2 * 2 ^ i. c \<noteq> Tree k i q) \<longrightarrow> cs' c = cs c)"
proof -
  have t: "dn_id t = k" "dn_nlevels t = L" "dn_input t = input" "tree_ok k L input (dn_switches t)"
    using assms(1) by (simp_all add: tree_ready_def)
  obtain sw cs' where c: "switches_cycle (concat (map level_order [0..<L])) (dn_switches t, cs) = Some (sw, cs')"
    "tree_ok k L input sw" "\<forall>j<2 ^ L. pending (cs' (into_level k input L j)) = filter (below L L j) (pending (cs input))"
    "\<forall>i<L. \<forall>j<2 ^ i. pending (cs' (into_level k input i j)) = []"
    "\<forall>c. c \<noteq> input \<longrightarrow> (\<forall>i<L. \<forall>q<2 * 2 ^ i. c \<noteq> Tree k i q) \<longrightarrow> cs' c = cs c"
    using levels_spec [OF assms(2,3) t(4) assms(4) [unfolded quiet_def] assms(5) order_refl] by blast
  have "dn_cycle (t, cs) = Some (t\<lparr>dn_switches := sw\<rparr>, cs')" using c(1) t(2) by (simp add: dn_cycle_def)
  moreover have "tree_ready k L input (t\<lparr>dn_switches := sw\<rparr>)" using assms(1) c(2) by (simp add: tree_ready_def)
  moreover have "below L L j = (\<lambda>p. addressed p j)" for j by (rule ext) (rule below_leaf)
  ultimately show ?thesis using c(3-5) t by (simp add: dn_getLastLevelConnections_def)
qed

text \<open>The trees from port \<open>a\<close> on.\<close>

definition trees_ready :: "nat \<Rightarrow> nat \<Rightarrow> ds_network list \<Rightarrow> bool" where
  "trees_ready a L ts \<longleftrightarrow> (\<forall>k<length ts. tree_ready (a + k) L (InPort (a + k)) (ts ! k))"

lemma trees_ready_Cons: "trees_ready a L (t # ts) \<longleftrightarrow> tree_ready a L (InPort a) t \<and> trees_ready (Suc a) L ts"
  unfolding trees_ready_def by (auto simp: less_Suc_eq_0_disj)

lemma trees_deliver:
  assumes "L < 24"
  shows "trees_ready a L ts \<Longrightarrow> \<forall>k<length ts. quiet (a + k) L cs \<and> (\<forall>p\<in>set (pending (cs (InPort (a + k)))). package_ok (2 ^ L) p) \<Longrightarrow>
    \<exists>ts' cs'. trees_cycle (ts, cs) = Some (ts', cs') \<and> trees_ready a L ts' \<and> length ts' = length ts \<and>
    (\<forall>k<length ts. \<forall>j<2 ^ L. pending (cs' (dn_getLastLevelConnections (ts ! k) j)) = filter (\<lambda>p. addressed p j) (pending (cs (InPort (a + k))))) \<and>
    (\<forall>w. (\<forall>k<length ts. w \<noteq> InPort (a + k) \<and> (\<forall>i q. w \<noteq> Tree (a + k) i q)) \<longrightarrow> cs' w = cs w)"
proof (induction ts arbitrary: a cs)
  case (Cons t ts)
  have t: "tree_ready a L (InPort a) t" "trees_ready (Suc a) L ts" using Cons.prems(1) by (simp_all add: trees_ready_Cons)
  have p: "quiet a L cs" "\<forall>p\<in>set (pending (cs (InPort a))). package_ok (2 ^ L) p" using Cons.prems(2) by force+
  obtain t' cs1 where c: "dn_cycle (t, cs) = Some (t', cs1)" "tree_ready a L (InPort a) t'"
    "\<forall>j<2 ^ L. pending (cs1 (dn_getLastLevelConnections t j)) = filter (\<lambda>p. addressed p j) (pending (cs (InPort a)))"
    "\<forall>w. w \<noteq> InPort a \<longrightarrow> (\<forall>i<L. \<forall>q<2 * 2 ^ i. w \<noteq> Tree a i q) \<longrightarrow> cs1 w = cs w"
    using tree_delivers [OF t(1) _ assms p] by auto
  have same: "cs1 (InPort (Suc a + k)) = cs (InPort (Suc a + k))" "cs1 (Tree (Suc a + k) i q) = cs (Tree (Suc a + k) i q)" for k i q
    using c(4) by simp_all
  have "\<forall>k<length ts. quiet (Suc a + k) L cs1 \<and> (\<forall>p\<in>set (pending (cs1 (InPort (Suc a + k)))). package_ok (2 ^ L) p)"
    unfolding quiet_def same using Cons.prems(2) unfolding quiet_def by auto
  then obtain ts' cs2 where d: "trees_cycle (ts, cs1) = Some (ts', cs2)" "trees_ready (Suc a) L ts'" "length ts' = length ts"
    "\<forall>k<length ts. \<forall>j<2 ^ L. pending (cs2 (dn_getLastLevelConnections (ts ! k) j)) = filter (\<lambda>p. addressed p j) (pending (cs1 (InPort (Suc a + k))))"
    "\<forall>w. (\<forall>k<length ts. w \<noteq> InPort (Suc a + k) \<and> (\<forall>i q. w \<noteq> Tree (Suc a + k) i q)) \<longrightarrow> cs2 w = cs1 w"
    using Cons.IH [OF t(2)] by blast
  have leaf: "cs2 (dn_getLastLevelConnections t j) = cs1 (dn_getLastLevelConnections t j)" for j
    using d(5) t(1) by (auto simp: dn_getLastLevelConnections_def into_level_def tree_ready_def)
  show ?case
  proof (intro exI conjI)
    show "trees_cycle (t # ts, cs) = Some (t' # ts', cs2)" using c(1) d(1) by simp
    show "trees_ready a L (t' # ts')" using c(2) d(2) by (simp add: trees_ready_Cons)
    show "length (t' # ts') = length (t # ts)" using d(3) by simp
    show "\<forall>k<length (t # ts). \<forall>j<2 ^ L. pending (cs2 (dn_getLastLevelConnections ((t # ts) ! k) j)) =
        filter (\<lambda>p. addressed p j) (pending (cs (InPort (a + k))))"
      using c(3) d(4) leaf same by (auto simp: less_Suc_eq_0_disj)
    show "\<forall>w. (\<forall>k<length (t # ts). w \<noteq> InPort (a + k) \<and> (\<forall>i q. w \<noteq> Tree (a + k) i q)) \<longrightarrow> cs2 w = cs w"
    proof (intro allI impI)
      fix w assume w: "\<forall>k<length (t # ts). w \<noteq> InPort (a + k) \<and> (\<forall>i q. w \<noteq> Tree (a + k) i q)"
      have "w \<noteq> InPort a" "\<forall>i q. w \<noteq> Tree a i q" using w by force+
      moreover have "\<forall>k<length ts. w \<noteq> InPort (Suc a + k) \<and> (\<forall>i q. w \<noteq> Tree (Suc a + k) i q)"
        using w by (auto dest: spec [of _ "Suc _"])
      ultimately show "cs2 w = cs w" using c(4) d(5) by simp
    qed
  qed
qed (simp add: trees_ready_def)

text \<open>The network over all ports.\<close>

definition network_ready :: "nat \<Rightarrow> u32 \<times> ds_network list \<Rightarrow> bool" where
  "network_ready L = (\<lambda>(per, ts). L < 24 \<and> per = of_nat (2 ^ L) \<and> trees_ready 0 L ts)"

lemma new_trees_ready:
  assumes "L < 24"
  shows "\<exists>ts. new_trees (of_nat (2 ^ L)) [a..<a + n] = Some ts \<and> trees_ready a L ts \<and> length ts = n"
proof (induction n arbitrary: a)
  case 0
  then show ?case by (simp add: trees_ready_def)
next
  case (Suc n)
  obtain t where "new_ds_network a (of_nat (2 ^ L)) (InPort a) = Some t" "tree_ready a L (InPort a) t"
    using new_ds_network_ready [OF assms] by blast
  moreover have "[a..<a + Suc n] = a # [Suc a..<Suc a + n]" by (simp add: upt_conv_Cons)
  ultimately show ?case using Suc [of "Suc a"] by (auto simp: trees_ready_Cons simp del: upt_Suc)
qed

lemma new_ds_top_ready:
  assumes "ports \<noteq> 0" "(rows + cols) div ports = of_nat (2 ^ L)" "L < 24"
  shows "\<exists>ts. new_ds_top rows cols ports = Some (of_nat (2 ^ L), ts) \<and> network_ready L (of_nat (2 ^ L), ts) \<and> length ts = unat ports"
  using new_trees_ready [OF assms(3), of 0 "unat ports"] assms by (auto simp: new_ds_top_def network_ready_def)

lemma network_delivers:
  assumes "network_ready L (per, ts)" "\<forall>k<length ts. quiet k L cs"
    "\<forall>k<length ts. \<forall>p\<in>set (pending (cs (InPort k))). package_ok (2 ^ L) p"
  shows "\<exists>ts' cs'. trees_cycle (ts, cs) = Some (ts', cs') \<and> network_ready L (per, ts') \<and> length ts' = length ts \<and>
    (\<forall>d<length ts * 2 ^ L. pending (cs' (dt_getLastLevelConnections (per, ts) d)) =
      filter (\<lambda>p. addressed p (d mod 2 ^ L)) (pending (cs (InPort (d div 2 ^ L))))) \<and>
    (\<forall>w. (\<forall>k<length ts. w \<noteq> InPort k \<and> (\<forall>i q. w \<noteq> Tree k i q)) \<longrightarrow> cs' w = cs w)"
proof -
  have r: "L < 24" "per = of_nat (2 ^ L)" "trees_ready 0 L ts" using assms(1) by (simp_all add: network_ready_def)
  have "(2 :: nat) ^ L < 2 ^ 32" using r(1) by (intro power_strict_increasing) simp_all
  then have u: "unat per = 2 ^ L" unfolding r(2) unat_of_nat by simp
  obtain ts' cs' where c: "trees_cycle (ts, cs) = Some (ts', cs')" "trees_ready 0 L ts'" "length ts' = length ts"
    "\<forall>k<length ts. \<forall>j<2 ^ L. pending (cs' (dn_getLastLevelConnections (ts ! k) j)) = filter (\<lambda>p. addressed p j) (pending (cs (InPort k)))"
    "\<forall>w. (\<forall>k<length ts. w \<noteq> InPort k \<and> (\<forall>i q. w \<noteq> Tree k i q)) \<longrightarrow> cs' w = cs w"
    using trees_deliver [OF r(1,3), of cs] assms(2,3) by auto
  have "pending (cs' (dt_getLastLevelConnections (per, ts) d)) =
      filter (\<lambda>p. addressed p (d mod 2 ^ L)) (pending (cs (InPort (d div 2 ^ L))))" if "d < length ts * 2 ^ L" for d
  proof -
    have "d div 2 ^ L < length ts" using that by (simp add: less_mult_imp_div_less)
    then show ?thesis using c(4) by (simp add: dt_getLastLevelConnections_def u)
  qed
  then show ?thesis using c r by (simp add: network_ready_def)
qed

section \<open>Properties\<close>

text \<open>
  C20. The distribution network delivers in the cycle in which a package is on a read port: after one cycle of the
  trees, the leaf \<open>d\<close> of the array holds exactly the packages of its port that are addressed to it, in their order,
  the trees can take the next packages, and no other wire has changed.  A broadcast reaches every leaf of its port,
  a unicast exactly one, a multicast exactly those of its mask.  This holds for trees of up to \<open>2 ^ 23\<close> leaves, in
  which the \<open>float\<close> in which a switch keeps its middle is exact.
\<close>

theorem distribution_network_delivers:
  assumes "network_ready L (per, ts)" "\<forall>k<length ts. quiet k L cs"
    "\<forall>k<length ts. \<forall>p\<in>set (pending (cs (InPort k))). package_ok (2 ^ L) p"
  shows "\<exists>ts' cs'. trees_cycle (ts, cs) = Some (ts', cs') \<and> network_ready L (per, ts') \<and> length ts' = length ts \<and>
    (\<forall>d<length ts * 2 ^ L. pending (cs' (dt_getLastLevelConnections (per, ts) d)) =
      filter (\<lambda>p. addressed p (d mod 2 ^ L)) (pending (cs (InPort (d div 2 ^ L))))) \<and>
    (\<forall>w. (\<forall>k<length ts. w \<noteq> InPort k \<and> (\<forall>i q. w \<noteq> Tree k i q)) \<longrightarrow> cs' w = cs w)"
  by (rule network_delivers [OF assms])

definition demo_multicast :: package where
  "demo_multicast = new_multicast 4 7 IACTIVATION 0 [False, True, False, True]"

definition demo_unicast :: package where
  "demo_unicast = new_unicast 4 9 WEIGHT 0 3"

definition demo_port :: wires where
  "demo_port = wire_send (InPort 1) [demo_multicast, demo_unicast] (\<lambda>_. new_connection 4)"

lemma demo_port_ok:
  "\<forall>k<2. quiet k 2 demo_port" "\<forall>k<2. \<forall>p\<in>set (pending (demo_port (InPort k))). package_ok (2 ^ 2) p"
proof -
  have h: "hits 0 4 demo_multicast"
    unfolding hits_def by (intro exI [of _ 1]) (simp add: addressed_def demo_multicast_def new_multicast_def new_package_def)
  show "\<forall>k<2. quiet k 2 demo_port"
    by (simp add: quiet_def demo_port_def wire_send_def new_connection_def pending_def)
  show "\<forall>k<2. \<forall>p\<in>set (pending (demo_port (InPort k))). package_ok (2 ^ 2) p"
    using h by (simp add: demo_port_def wire_send_def new_connection_def pending_def cn_send_def package_ok_def demo_unicast_def
        demo_multicast_def new_multicast_def new_unicast_def new_package_def less_2_cases_iff)
qed

theorem distribution_network_delivers_witness:
  "\<exists>ts ts' cs'. new_ds_top 4 4 2 = Some (4, ts) \<and> trees_cycle (ts, demo_port) = Some (ts', cs') \<and>
     pending (cs' (dt_getLastLevelConnections (4, ts) 5)) = [demo_multicast] \<and>
     pending (cs' (dt_getLastLevelConnections (4, ts) 6)) = [] \<and>
     pending (cs' (dt_getLastLevelConnections (4, ts) 7)) = [demo_multicast, demo_unicast]"
proof -
  obtain ts where ts: "new_ds_top 4 4 2 = Some (4, ts)" "network_ready 2 (4, ts)" "length ts = 2"
    using new_ds_top_ready [of 2 4 4 2] by auto
  obtain ts' cs' where c: "trees_cycle (ts, demo_port) = Some (ts', cs')"
    "\<forall>d<length ts * 2 ^ 2. pending (cs' (dt_getLastLevelConnections (4, ts) d)) =
      filter (\<lambda>p. addressed p (d mod 2 ^ 2)) (pending (demo_port (InPort (d div 2 ^ 2))))"
    using distribution_network_delivers [OF ts(2), of demo_port] demo_port_ok unfolding ts(3) by blast
  have p: "pending (demo_port (InPort 1)) = [demo_multicast, demo_unicast]" by (simp add: demo_port_def wire_send_def)
  have a: "addressed demo_multicast d = [False, True, False, True] ! d" "addressed demo_unicast d \<longleftrightarrow> 3 = d" for d
    by (simp_all add: addressed_def demo_multicast_def demo_unicast_def new_multicast_def new_package_def new_unicast_def)
  have "pending (cs' (dt_getLastLevelConnections (4, ts) 5)) = [demo_multicast]"
    "pending (cs' (dt_getLastLevelConnections (4, ts) 6)) = []"
    "pending (cs' (dt_getLastLevelConnections (4, ts) 7)) = [demo_multicast, demo_unicast]"
    using c(2) ts(3) by (simp_all add: a p [unfolded One_nat_def])
  then show ?thesis using ts(1) c(1) by blast
qed

end
