(* ===== verification/WSArray.thy ===== *)
theory WSArray
  imports SAController WSMemory DSTree
begin

text \<open>
  The weight-stationary array as the accelerator controller sees it: \<open>Stonne::Stonne\<close> and the connections it makes
  (\<open>sim/src/SA/STONNEModel.cpp\<close>), and the methods of \<open>WSMeshMN\<close>, \<open>WSMeshSDMemory\<close> and \<open>DSNetworkTop\<close> as
  the virtual methods of record \<open>sa_env\<close>.  \<open>None\<close> is an array in which an assertion has failed.
\<close>

section \<open>Construction\<close>

type_synonym ws_net = "ws_memory \<times> ws_mesh \<times> ds_network list \<times> wires"

text \<open>
  \<open>bw\<close> gives the port widths of the wires.  The reduction network, the bus and the lookup table are built by the
  source and not used.
\<close>

definition new_ws_net :: "u32 \<Rightarrow> (wire \<Rightarrow> u64) \<Rightarrow> u32 \<Rightarrow> u32 \<Rightarrow> u32 \<Rightarrow> u32 \<Rightarrow> u32 \<Rightarrow> ws_net option" where
  "new_ws_net junk bw rows cols ports mem_capacity ms_capacity =
     do { m \<leftarrow> new_ws_memory junk rows cols ports mem_capacity;
          ds \<leftarrow> new_ds_top rows cols ports;
          m1 \<leftarrow> sm_setReadConnections (dt_getTopConnections ds) m;
          let w = wm_setInputConnections (dt_getLastLevelConnections ds) (new_ws_mesh ms_capacity (unat rows) (unat cols));
          Some (m1, wm_setOutputConnections w, snd ds, \<lambda>c. new_connection (bw c)) }"

section \<open>The virtual methods\<close>

definition on_mem :: "(ws_memory \<Rightarrow> ws_memory) \<Rightarrow> ws_net option \<Rightarrow> ws_net option" where
  "on_mem f = map_option (\<lambda>(m, w, ts, cs). (f m, w, ts, cs))"

definition on_mesh :: "(ws_mesh \<Rightarrow> ws_mesh) \<Rightarrow> ws_net option \<Rightarrow> ws_net option" where
  "on_mesh f = map_option (\<lambda>(m, w, ts, cs). (m, f w, ts, cs))"

definition net_mem_cycle :: "ws_net option \<Rightarrow> ws_net option" where
  "net_mem_cycle n = do { (m, w, ts, cs) \<leftarrow> n; (m1, cs1) \<leftarrow> sm_cycle (m, cs); Some (m1, w, ts, cs1) }"

definition net_ds_cycle :: "ws_net option \<Rightarrow> ws_net option" where
  "net_ds_cycle n = do { (m, w, ts, cs) \<leftarrow> n; (ts1, cs1) \<leftarrow> trees_cycle (ts, cs); Some (m, w, ts1, cs1) }"

definition net_ms_cycle :: "(package \<Rightarrow> u32) \<Rightarrow> ws_net option \<times> acc_ports \<Rightarrow> ws_net option \<times> acc_ports" where
  "net_ms_cycle freed = (\<lambda>(n, ports).
     case n of None \<Rightarrow> (None, ports)
     | Some (m, w, ts, cs) \<Rightarrow>
         (case wm_cycle freed (w, cs, ports) of None \<Rightarrow> (None, ports) | Some (w1, cs1, ports1) \<Rightarrow> (Some (m, w1, ts, cs1), ports1)))"

text \<open>
  Methods that the two classes do not override abort; the controller calls them for the output-stationary dataflow or
  for a multiplication that stays in the array.
\<close>

definition ws_env :: "(package \<Rightarrow> u32) \<Rightarrow> ws_net option sa_env" where
  "ws_env freed =
     \<lparr>en_weights_preloaded = (\<lambda>n. case n of None \<Rightarrow> False | Some (m, w, ts, cs) \<Rightarrow> wm_weights_preloaded w),
      en_reset_weights_preloaded = on_mesh wm_reset_weights_preloaded,
      en_reset_fifos = on_mesh wm_reset_fifos,
      en_is_compute_finished = (\<lambda>_. False),
      en_psums_received = (\<lambda>_. False),
      en_reset_psums_received = (\<lambda>_. None),
      en_has_array_flipped = (\<lambda>n. case n of None \<Rightarrow> False | Some (m, w, ts, cs) \<Rightarrow> wm_has_array_flipped w),
      en_preload = on_mesh wm_preload,
      en_MatrixMultiply = (\<lambda>t_m t_k t_n. on_mesh (wm_MatrixMultiply t_m t_k t_n)),
      en_MatrixMultiplyStay = (\<lambda>_ _ _ _. None),
      en_MatrixMultiplyFlip = (\<lambda>t_m t_k t_n. on_mesh (wm_MatrixMultiplyFlip t_m t_k t_n)),
      en_setActivationLimit = (\<lambda>limit. on_mesh (wm_setActivationLimit limit)),
      en_msnet_cycle = net_ms_cycle freed,
      en_dsnet_cycle = net_ds_cycle,
      en_mem_is_idle = (\<lambda>n. case n of None \<Rightarrow> False | Some (m, w, ts, cs) \<Rightarrow> sm_is_idle m),
      en_mem_get_command = (\<lambda>n. case n of None \<Rightarrow> None | Some (m, w, ts, cs) \<Rightarrow> sm_get_command m),
      en_mem_reset_compute_finished = (\<lambda>_. None),
      en_mem_preload = (\<lambda>t_n t_k offset c. on_mem (sm_preload t_n t_k offset c)),
      en_mem_MatrixMultiply = (\<lambda>cmd c. on_mem (sm_MatrixMultiply (cm_T_M cmd) (cm_T_K cmd) (cm_T_N cmd)
        (cm_offset_to_MK cmd) (cm_offset_to_MN cmd) c)),
      en_mem_config = (\<lambda>cmd. on_mem (sm_config (cm_M cmd) (cm_N cmd) (cm_K cmd) (cm_T_M cmd) (cm_T_N cmd) (cm_T_K cmd))),
      en_mem_cycle = net_mem_cycle\<rparr>"

section \<open>The array between two cycles of the controller\<close>

text \<open>The rest of \<open>Stonne::cycle\<close>, after the cycle of the controller.\<close>

definition array_cycle :: "'n sa_env \<Rightarrow> 'n \<times> acc_buffer \<Rightarrow> ('n \<times> acc_buffer) option" where
  "array_cycle E = (\<lambda>(n, b).
     do { let n1 = en_mem_cycle E n;
          b1 \<leftarrow> ab_cycle b;
          let (n2, ports) = en_msnet_cycle E (n1, ab_ports b1);
          Some (en_dsnet_cycle E n2, b1\<lparr>ab_ports := ports\<rparr>) })"

fun array_cycles :: "'n sa_env \<Rightarrow> nat \<Rightarrow> 'n \<times> acc_buffer \<Rightarrow> ('n \<times> acc_buffer) option" where
  "array_cycles E 0 x = Some x"
| "array_cycles E (Suc t) x = do { y \<leftarrow> array_cycles E t x; array_cycle E y }"

lemma stonne_cycle_array:
  "stonne_cycle E s = do { s1 \<leftarrow> sa_cycle E s; (n, b) \<leftarrow> array_cycle E (sa_net s1, sa_ab s1); Some (s1\<lparr>sa_net := n, sa_ab := b\<rparr>) }"
proof -
  have c: "s1\<lparr>sa_net := x, sa_net := y, sa_ab := z\<rparr> = s1\<lparr>sa_net := y, sa_ab := z\<rparr>" for s1 :: "'a sa" and x y z by simp
  show ?thesis
    unfolding stonne_cycle_def array_cycle_def by (auto simp: Let_def c split: Option.bind_splits prod.splits)
qed

text \<open>What \<open>execute\<close> does to the array for the two commands that move data, as in \<open>sa_Preload\<close> and \<open>sa_MatrixMultiply\<close>.\<close>

definition array_preload :: "'n sa_env \<Rightarrow> command \<Rightarrow> nat \<Rightarrow> 'n \<times> acc_buffer \<Rightarrow> 'n \<times> acc_buffer" where
  "array_preload E cmd c = (\<lambda>(n, b). (en_preload E (en_mem_preload E (cm_T_N cmd) (cm_T_K cmd) (cm_offset_to_KN cmd) c n), b))"

definition array_multiply :: "'n sa_env \<Rightarrow> command \<Rightarrow> nat \<Rightarrow> bool \<Rightarrow> 'n \<times> acc_buffer \<Rightarrow> 'n \<times> acc_buffer" where
  "array_multiply E cmd c flip = (\<lambda>(n, b).
     let n1 = en_mem_MatrixMultiply E cmd c n
     in (if flip then en_MatrixMultiplyFlip E (cm_T_M cmd) (cm_T_K cmd) (cm_T_N cmd) n1
         else en_MatrixMultiply E (cm_T_M cmd) (cm_T_K cmd) (cm_T_N cmd) n1,
         ab_matrix_multiply (cm_T_M cmd) (cm_T_N cmd) (cm_offset_to_MN cmd) c b))"

lemma execute_preload:
  assumes "cm_op (sa_cmds s c) = PRELOAD" "sa_dataflow s = DATAFLOW_WS"
  shows "\<exists>s'. execute_cmd E c s = Some s' \<and> (sa_net s', sa_ab s') = array_preload E (sa_cmds s c) c (sa_net s, sa_ab s)"
  using assms by (simp add: execute_cmd_def sa_Preload_def array_preload_def Let_def)

lemma execute_multiply:
  assumes "cm_op (sa_cmds s c) = (if flip then MATRIX_MULTIPLY_FLIP else MATRIX_MULTIPLY)" "\<not> cm_stay (sa_cmds s c)"
  shows "\<exists>s'. execute_cmd E c s = Some s' \<and> (sa_net s', sa_ab s') = array_multiply E (sa_cmds s c) c flip (sa_net s, sa_ab s)"
  using assms by (cases flip) (simp_all add: execute_cmd_def sa_MatrixMultiply_def array_multiply_def Let_def)

section \<open>One port per input\<close>

text \<open>With one port per input the trees have no switch and pass the ports on.\<close>

lemma trees_pass:
  "trees_ready a 0 ts \<Longrightarrow> trees_cycle (ts, cs) = Some (ts, cs)"
  by (induction ts arbitrary: a) (auto simp: trees_ready_Cons tree_ready_def dn_cycle_def)

lemma array_cycle_eq:
  assumes "sm_cycle (m, cs) = Some (m1, cs1)" "ab_cycle b = Some b1" "wm_cycle freed (w, cs1, ab_ports b1) = Some (w1, cs2, ports)"
    "trees_ready 0 0 ts"
  shows "array_cycle (ws_env freed) (Some (m, w, ts, cs), b) = Some (Some (m1, w1, ts, cs2), b1\<lparr>ab_ports := ports\<rparr>)"
  using assms(1-3) trees_pass [OF assms(4)]
  by (simp add: array_cycle_def ws_env_def net_mem_cycle_def net_ms_cycle_def net_ds_cycle_def)

lemma ab_drain_length: "ab_drain cs f = (cs', f') \<Longrightarrow> length cs' = length cs"
  by (induction cs arbitrary: f cs' f') (auto simp: Let_def split: if_splits prod.splits)

lemma ab_take_keeps:
  "ab_take n b = Some b' \<Longrightarrow> ab_ms_cols b' = ab_ms_cols b \<and> ab_ports b' = ab_ports b \<and> ab_dataflow b' = ab_dataflow b"
proof (induction n arbitrary: b)
  case (Suc n)
  then obtain f where f: "ab_take n (upd_front (\<lambda>p. p\<lparr>wp_accumulated_psums := wp_accumulated_psums p + 1\<rparr>)
      (b\<lparr>ab_write_fifo := f\<rparr>)) = Some b'"
    by (auto split: bind_splits)
  show ?case using Suc.IH [OF f] by (simp add: upd_front_def)
qed simp

lemma ab_cycle_keeps:
  assumes "ab_cycle b = Some b'"
  shows "ab_ms_cols b' = ab_ms_cols b" "length (ab_ports b') = length (ab_ports b)" "ab_dataflow b' = ab_dataflow b"
proof -
  let ?b = "ab_receive (b\<lparr>ab_local_cycle := ab_local_cycle b + 1\<rparr>)"
  obtain ports f where d: "ab_drain (ab_ports b) (ab_write_fifo b) = (ports, f)" by fastforce
  have r: "ab_ms_cols ?b = ab_ms_cols b" "length (ab_ports ?b) = length (ab_ports b)" "ab_dataflow ?b = ab_dataflow b"
    using ab_drain_length [OF d] by (simp_all add: ab_receive_def d)
  have a: "ab_accumulate ?b = Some b'" using assms by (simp add: ab_cycle_def)
  have "ab_ms_cols b' = ab_ms_cols ?b \<and> ab_ports b' = ab_ports ?b \<and> ab_dataflow b' = ab_dataflow ?b"
  proof (cases "ff_is_empty (ab_write_fifo ?b)")
    case True
    then show ?thesis using a by (simp add: ab_accumulate_def)
  next
    case False
    then obtain b1 where "ab_take (nat (sint (ff_size (ab_write_fifo ?b)))) ?b = Some b1"
      "b' = upd_front (\<lambda>p. p\<lparr>wp_current_row := wp_current_row p + 1\<rparr>) b1"
      using a by (auto simp: ab_accumulate_def split: bind_splits)
    then show ?thesis using ab_take_keeps [of _ ?b b1] by (simp add: upd_front_def)
  qed
  then show "ab_ms_cols b' = ab_ms_cols b" "length (ab_ports b') = length (ab_ports b)" "ab_dataflow b' = ab_dataflow b"
    using r by simp_all
qed

lemma ab_cycle_quiet:
  assumes "ff_queue (ab_write_fifo b) = []" "port_data (ab_ports b) = []"
  shows "\<exists>b'. ab_cycle b = Some b' \<and> ff_queue (ab_write_fifo b') = [] \<and> port_data (ab_ports b') = [] \<and> ab_pending b' = ab_pending b"
  using assms by (auto simp: ab_cycle_def ab_accumulate_def ff_is_empty_def)

text \<open>The number of packages on the ports, when each holds at most one.\<close>

lemma port_data_count:
  assumes "\<forall>j<length ps. pending_at j = (cn_pending_data (ps ! j) \<and> cn_data (ps ! j) \<noteq> [])"
    "\<forall>j<length ps. cn_pending_data (ps ! j) \<longrightarrow> length (cn_data (ps ! j)) \<le> 1"
  shows "length (port_data ps) = card {j. j < length ps \<and> pending_at j}"
  using assms
proof (induction ps arbitrary: pending_at)
  case (Cons p ps)
  have IH: "length (port_data ps) = card {j. j < length ps \<and> pending_at (Suc j)}"
    using Cons.prems by (intro Cons.IH) auto
  have e: "{j. j < length (p # ps) \<and> pending_at j} =
      (if pending_at 0 then {0} else {}) \<union> Suc ` {j. j < length ps \<and> pending_at (Suc j)}"
    by (auto simp: less_Suc_eq_0_disj)
  have c: "card {j. j < length (p # ps) \<and> pending_at j} = (if pending_at 0 then 1 else 0) + length (port_data ps)"
    unfolding e IH by (simp add: card_image card_Un_disjoint)
  have p0: "pending_at 0 \<longleftrightarrow> cn_pending_data p \<and> cn_data p \<noteq> []" "cn_pending_data p \<longrightarrow> length (cn_data p) \<le> 1"
    using Cons.prems by force+
  show ?case
  proof (cases "cn_pending_data p")
    case True
    then show ?thesis unfolding c using p0 by (cases "cn_data p") auto
  next
    case False
    then show ?thesis unfolding c using p0 by simp
  qed
qed simp

lemma port_data_empty:
  "port_data ps = [] \<longleftrightarrow> (\<forall>j<length ps. cn_pending_data (ps ! j) \<longrightarrow> cn_data (ps ! j) = [])"
proof (induction ps)
  case (Cons p ps)
  then show ?case by (auto simp: less_Suc_eq_0_disj split: if_splits)
qed simp

text \<open>The packages the mesh leaves at the ports in a cycle: one per column of the tile, while results come out.\<close>

lemma ports_filled:
  fixes t_n :: u32
  assumes "port_data ports = []" "length ports = n" "length ports' = n" "0 < unat t_n" "unat t_n \<le> n" "n < 2 ^ 32"
    and out: "\<And>j. j < n \<Longrightarrow> \<exists>q :: package option. map_option wk_data q = (if of_nat j \<le> t_n - 1 \<and> G then Some (f j) else None) \<and>
       ports' ! j = (case q of None \<Rightarrow> ports ! j | Some r \<Rightarrow> cn_send [ws_package.truncate r] (ports ! j))"
  shows "length (port_data ports') = (if G then unat t_n else 0)"
proof -
  have le: "of_nat j \<le> t_n - 1 \<longleftrightarrow> j < unat t_n" if "j < n" for j
  proof -
    have "t_n \<noteq> 0" using assms(4) by auto
    then have "unat (t_n - 1) = unat t_n - 1" by (rule unat_minus_one)
    moreover have "unat (of_nat j :: u32) = j" using that assms(6) by (simp add: unat_of_nat take_bit_nat_eq_self)
    ultimately show ?thesis using assms(4) by (auto simp: word_le_nat_alt)
  qed
  have p: "(j < unat t_n \<and> G) = (cn_pending_data (ports' ! j) \<and> cn_data (ports' ! j) \<noteq> []) \<and>
      (cn_pending_data (ports' ! j) \<longrightarrow> length (cn_data (ports' ! j)) \<le> 1)" if j: "j < n" for j
  proof -
    obtain q :: "package option" where q: "map_option wk_data q = (if j < unat t_n \<and> G then Some (f j) else None)"
      "ports' ! j = (case q of None \<Rightarrow> ports ! j | Some r \<Rightarrow> cn_send [ws_package.truncate r] (ports ! j))"
      using out [OF j] unfolding le [OF j] by blast
    have e: "cn_pending_data (ports ! j) \<longrightarrow> cn_data (ports ! j) = []" using assms(1,2) j by (simp add: port_data_empty)
    show ?thesis
    proof (cases q)
      case None
      then have "\<not> (j < unat t_n \<and> G)" using q(1) by (auto split: if_splits)
      then show ?thesis using q(2) e None by auto
    next
      case (Some r)
      then have "j < unat t_n \<and> G" using q(1) by (auto split: if_splits)
      then show ?thesis using q(2) Some by (simp add: cn_send_def)
    qed
  qed
  have "length (port_data ports') = card {j. j < length ports' \<and> (j < unat t_n \<and> G)}"
    by (rule port_data_count) (use p assms(3) in blast)+
  moreover have "{j. j < length ports' \<and> (j < unat t_n \<and> G)} = (if G then {..<unat t_n} else {})"
    using assms(3,5) by auto
  ultimately show ?thesis by simp
qed

section \<open>A multiplication\<close>

text \<open>The array with nothing to do, its clocks at \<open>c0\<close>.\<close>

definition array_idle :: "nat \<Rightarrow> u32 \<Rightarrow> ws_net option \<times> acc_buffer \<Rightarrow> bool" where
  "array_idle n c0 = (\<lambda>(net, b). case net of None \<Rightarrow> False | Some (m, w, ts, cs) \<Rightarrow>
     0 < n \<and> direct n m \<and> (\<forall>q<n + n. queue_at m q = []) \<and> sm_w_state m = WS_IDLE \<and> sm_a_state m = WS_IDLE \<and>
     wm_rows w = n \<and> wm_cols w = n \<and> idle InPort c0 w cs \<and> trees_ready 0 0 ts \<and>
     length (ab_ports b) = n \<and> ab_ms_cols b \<noteq> 0 \<and> ab_dataflow b = DATAFLOW_WS \<and>
     ff_queue (ab_write_fifo b) = [] \<and> port_data (ab_ports b) = [] \<and> ab_pending b = [])"

definition array_holds :: "(nat \<times> nat \<Rightarrow> u32) \<Rightarrow> bool \<Rightarrow> ws_net option \<times> acc_buffer \<Rightarrow> bool" where
  "array_holds W flip = (\<lambda>(net, b). case net of None \<Rightarrow> False | Some (m, w, ts, cs) \<Rightarrow> holds W flip w)"

text \<open>The array \<open>\<tau>\<close> cycles after it was given the multiplication \<open>c\<close> of a tile.\<close>

definition rows_sent :: "nat \<Rightarrow> nat \<Rightarrow> nat \<Rightarrow> stream" where
  "rows_sent n tm = row_stream (\<lambda>_ i. null_input (i + n)) tm"

definition array_flows ::
    "nat \<Rightarrow> u32 \<Rightarrow> (nat \<times> nat \<Rightarrow> u32) \<Rightarrow> bool \<Rightarrow> u32 \<times> u32 \<times> u32 \<Rightarrow> nat \<Rightarrow> nat \<Rightarrow> ws_net option \<times> acc_buffer \<Rightarrow> bool" where
  "array_flows n c0 W flip tile c \<tau> = (\<lambda>(net, b). case net of None \<Rightarrow> False | Some (m, w, ts, cs) \<Rightarrow>
     let tm = unat (fst tile); tn = unat (snd (snd tile)); d = n - 1 + (n - 1) in
     direct n m \<and> (\<forall>q<n + n. queue_at m q = []) \<and> sm_w_state m = WS_IDLE \<and> sm_rows_used m = of_nat tm \<and>
     sm_a_state m = (if \<tau> < tm then WS_DIST_INPUTS else WS_IDLE) \<and> (\<tau> < tm \<longrightarrow> sm_current_M m = of_nat \<tau>) \<and>
     wm_rows w = n \<and> wm_cols w = n \<and> flow_ok InPort (rows_sent n tm) W flip c0 tile \<tau> w cs \<and> trees_ready 0 0 ts \<and>
     length (ab_ports b) = n \<and> ab_ms_cols b \<noteq> 0 \<and> ab_dataflow b = DATAFLOW_WS \<and> ff_queue (ab_write_fifo b) = [] \<and>
     length (port_data (ab_ports b)) = (if d < \<tau> \<and> \<tau> - 1 - d < tm then tn else 0) \<and>
     (\<exists>p. ab_pending b = [p] \<and> wp_cmd p = c \<and> wp_expected_psums p = fst tile * snd (snd tile) \<and>
        wp_accumulated_psums p = of_nat (tn * min (\<tau> - 1 - d) tm)))"

lemma rows_sent_type: "\<forall>i t q. rows_sent n tm i t = Some q \<longrightarrow> pk_type q = IACTIVATION"
  by (auto simp: rows_sent_def row_stream_def null_input_def)

lemma array_flows_step:
  assumes fl: "array_flows n c0 W flip (t_m, t_k, t_n) c \<tau> x" and n: "0 < n" and tn: "0 < unat t_n" "unat t_n \<le> n"
  shows "\<exists>y. array_cycle (ws_env freed) x = Some y \<and> array_flows n c0 W flip (t_m, t_k, t_n) c (Suc \<tau>) y"
proof -
  obtain m w ts cs b where x: "x = (Some (m, w, ts, cs), b)" using fl by (auto simp: array_flows_def split: option.splits)
  define tm where "tm = unat t_m"
  define tn where "tn = unat t_n"
  define d where "d = n - 1 + (n - 1)"
  let ?A = "rows_sent n tm" and ?tile = "(t_m, t_k, t_n)"
  note fl = fl [unfolded array_flows_def x prod.case option.case Let_def fst_conv snd_conv tm_def [symmetric] tn_def [symmetric] d_def [symmetric]]
  from fl obtain p where f: "direct n m" "\<forall>q<n + n. queue_at m q = []" "sm_w_state m = WS_IDLE" "sm_rows_used m = of_nat tm"
    "sm_a_state m = (if \<tau> < tm then WS_DIST_INPUTS else WS_IDLE)" "\<tau> < tm \<longrightarrow> sm_current_M m = of_nat \<tau>"
    and w: "wm_rows w = n" "wm_cols w = n" "flow_ok InPort ?A W flip c0 ?tile \<tau> w cs" "trees_ready 0 0 ts"
    and b: "length (ab_ports b) = n" "ab_ms_cols b \<noteq> 0" "ab_dataflow b = DATAFLOW_WS" "ff_queue (ab_write_fifo b) = []"
      "length (port_data (ab_ports b)) = (if d < \<tau> \<and> \<tau> - 1 - d < tm then tn else 0)"
    and p: "ab_pending b = [p]" "wp_cmd p = c" "wp_expected_psums p = t_m * t_n"
      "wp_accumulated_psums p = of_nat (tn * min (\<tau> - 1 - d) tm)" by blast
  have nb: "n + n < 2 ^ 32" using f(1) by (simp add: direct_def)
  have tmb: "tm < 2 ^ 32" unfolding tm_def using unsigned_less [of t_m] by simp
  have cM: "sm_current_M m + 1 = sm_rows_used m \<longleftrightarrow> Suc \<tau> = tm" if "\<tau> < tm"
  proof -
    have "sm_current_M m + 1 = of_nat (Suc \<tau>)" using f(6) that by simp
    then show ?thesis using of_nat_u32_eq [of "Suc \<tau>" tm] f(4) that tmb by (simp add: add.commute)
  qed
  obtain m1 where m1: "sm_cycle (m, cs) = Some (m1, feed_left InPort n n (\<lambda>i. ?A i \<tau>) cs)" "direct n m1"
    "\<forall>q<n + n. queue_at m1 q = []" "sm_w_state m1 = WS_IDLE" "sm_rows_used m1 = of_nat tm"
    "sm_a_state m1 = (if Suc \<tau> < tm then WS_DIST_INPUTS else WS_IDLE)" "Suc \<tau> < tm \<longrightarrow> sm_current_M m1 = of_nat (Suc \<tau>)"
  proof -
    have g: "(\<lambda>i. if sm_a_state m = WS_DIST_INPUTS then Some (null_input (i + n)) else None) = (\<lambda>i. ?A i \<tau>)"
      using f(5) by (auto simp: rows_sent_def row_stream_def)
    obtain m' where m': "sm_cycle (m, cs) = Some (m', feed_left InPort n n (\<lambda>i. ?A i \<tau>) cs)" "direct n m'"
      "\<forall>q<n + n. queue_at m' q = []" "sm_w_state m' = WS_IDLE" "sm_rows_used m' = of_nat tm"
      "sm_a_state m' = (if sm_a_state m = WS_DIST_INPUTS \<and> sm_current_M m + 1 = sm_rows_used m then WS_IDLE else sm_a_state m)"
      "sm_current_M m' = (if sm_a_state m = WS_DIST_INPUTS then sm_current_M m + 1 else sm_current_M m)"
      using sm_cycle_direct [OF f(1,2), of cs] unfolding g f(3) by (auto simp: feed_top_def f(4))
    have a: "sm_a_state m' = (if Suc \<tau> < tm then WS_DIST_INPUTS else WS_IDLE)" using m'(6) f(5) cM by auto
    have "Suc \<tau> < tm \<longrightarrow> sm_current_M m' = of_nat (Suc \<tau>)" using m'(7) f(5,6) by simp
    then show ?thesis using that m'(1-5) a by blast
  qed
  define k where "k = length (port_data (ab_ports b))"
  have "tn < 2 ^ 31" using tn(2) nb unfolding tn_def by simp
  then have "k < 2 ^ 31" using b(5) unfolding k_def by simp
  then obtain b1 where b1: "ab_cycle b = Some b1" "ff_queue (ab_write_fifo b1) = []" "port_data (ab_ports b1) = []"
    "ab_pending b1 = [p\<lparr>wp_accumulated_psums := wp_accumulated_psums p + of_nat k,
      wp_current_row := wp_current_row p + (if k = 0 then 0 else 1)\<rparr>]"
    using ab_cycle_spec [OF p(1) b(2), of k] b(4) by (auto simp: k_def)
  note keep = ab_cycle_keeps [OF b1(1)]
  have pre: "inputs_ok InPort (wm_cols w + wm_rows w)" "wm_cols w \<le> length (ab_ports b1)" "wm_rows w + wm_cols w \<le> 2 ^ 32"
    using w(1,2) keep(2) b(1) nb by simp_all
  obtain w1 cs1 ports where
    c: "wm_cycle freed (w, feed_left InPort n n (\<lambda>i. ?A i \<tau>) cs, ab_ports b1) = Some (w1, cs1, ports)"
    and w1: "wm_rows w1 = n" "wm_cols w1 = n" "flow_ok InPort ?A W flip c0 ?tile (Suc \<tau>) w1 cs1" "length ports = length (ab_ports b1)"
    and out: "\<And>j. j < n \<Longrightarrow> \<exists>q :: package option. map_option wk_data q = late (column ?A W n t_n j) (n - 1 - j) \<tau> \<and>
         ports ! j = (case q of None \<Rightarrow> ab_ports b1 ! j | Some r \<Rightarrow> cn_send [ws_package.truncate r] (ab_ports b1 ! j))"
    using flow_step [OF pre(1) w(3) rows_sent_type pre(2,3), of freed] n unfolding w(1,2) snd_conv by metis
  have len: "length (port_data ports) = (if d \<le> \<tau> \<and> \<tau> - d < tm then tn else 0)"
    unfolding tn_def
  proof (rule ports_filled [OF b1(3)])
    show "length (ab_ports b1) = n" "length ports = n" using w1(4) keep(2) b(1) by simp_all
    fix j assume j: "j < n"
    have l: "late (column ?A W n t_n j) (n - 1 - j) \<tau> =
        (if of_nat j \<le> t_n - 1 \<and> (d \<le> \<tau> \<and> \<tau> - d < tm)
         then Some (\<Sum>k<n. wk_data (null_input (k + n)) * W (k, j)) else None)"
      unfolding rows_sent_def column_sum [OF j n] d_def ..
    show "\<exists>q :: package option. map_option wk_data q = (if of_nat j \<le> t_n - 1 \<and> (d \<le> \<tau> \<and> \<tau> - d < tm)
         then Some (\<Sum>k<n. wk_data (null_input (k + n)) * W (k, j)) else None) \<and>
       ports ! j = (case q of None \<Rightarrow> ab_ports b1 ! j | Some r \<Rightarrow> cn_send [ws_package.truncate r] (ab_ports b1 ! j))"
      using out [OF j] unfolding l .
  qed (use tn nb in simp_all)
  have count: "tn * min (\<tau> - 1 - d) tm + k = tn * min (\<tau> - d) tm"
  proof (cases "d < \<tau> \<and> \<tau> - 1 - d < tm")
    case True
    then have "min (\<tau> - 1 - d) tm = \<tau> - 1 - d" "min (\<tau> - d) tm = Suc (\<tau> - 1 - d)" "k = tn"
      using b(5) by (auto simp: k_def)
    then show ?thesis by simp
  next
    case False
    then have "k = 0" using b(5) by (auto simp: k_def)
    moreover have "min (\<tau> - 1 - d) tm = min (\<tau> - d) tm" using False by auto
    ultimately show ?thesis by simp
  qed
  have acc: "wp_accumulated_psums p + of_nat k = of_nat (tn * min (\<tau> - d) tm)"
    unfolding p(4) count [symmetric] by simp
  have "array_flows n c0 W flip ?tile c (Suc \<tau>) (Some (m1, w1, ts, cs1), b1\<lparr>ab_ports := ports\<rparr>)"
    unfolding array_flows_def prod.case option.case Let_def fst_conv snd_conv tm_def [symmetric] tn_def [symmetric] d_def [symmetric]
  proof (intro conjI)
    show "length (port_data (ab_ports (b1\<lparr>ab_ports := ports\<rparr>))) = (if d < Suc \<tau> \<and> Suc \<tau> - 1 - d < tm then tn else 0)"
      using len by (simp add: less_Suc_eq_le)
    show "\<exists>q. ab_pending (b1\<lparr>ab_ports := ports\<rparr>) = [q] \<and> wp_cmd q = c \<and> wp_expected_psums q = t_m * t_n \<and>
        wp_accumulated_psums q = of_nat (tn * min (Suc \<tau> - 1 - d) tm)"
      using b1(4) p(2,3) acc by simp
  qed (use m1(2-7) w1 w(4) b(2,3) b1(2) keep b(1) in simp_all)
  moreover have "array_cycle (ws_env freed) x = Some (Some (m1, w1, ts, cs1), b1\<lparr>ab_ports := ports\<rparr>)"
    unfolding x by (rule array_cycle_eq [OF m1(1) b1(1) c w(4)])
  ultimately show ?thesis by blast
qed

lemma array_flows_cycles:
  assumes "array_flows n c0 W flip (t_m, t_k, t_n) c 0 x" "0 < n" "0 < unat t_n" "unat t_n \<le> n"
  shows "\<exists>y. array_cycles (ws_env freed) \<tau> x = Some y \<and> array_flows n c0 W flip (t_m, t_k, t_n) c \<tau> y"
proof (induction \<tau>)
  case (Suc \<tau>)
  then obtain y where y: "array_cycles (ws_env freed) \<tau> x = Some y" "array_flows n c0 W flip (t_m, t_k, t_n) c \<tau> y" by blast
  show ?case using array_flows_step [OF y(2) assms(2-4), of freed] y(1) by auto
qed (use assms(1) in simp)

lemma direct_multiply: "direct n (sm_MatrixMultiply t_m t_k t_n o1 o2 c m) = direct n m"
  "queue_at (sm_MatrixMultiply t_m t_k t_n o1 o2 c m) = queue_at m"
  by (simp_all add: sm_MatrixMultiply_def direct_def queue_at_def fun_eq_iff)

lemma array_idle_cases:
  assumes "array_idle n c0 x"
  obtains m w ts cs b where "x = (Some (m, w, ts, cs), b)" "0 < n"
proof -
  obtain net b where x: "x = (net, b)" by (cases x)
  show ?thesis
  proof (cases net)
    case None
    then show ?thesis using assms by (simp add: array_idle_def x)
  next
    case (Some s)
    obtain m w ts cs where s: "s = (m, w, ts, cs)" by (cases s)
    have "0 < n" using assms unfolding array_idle_def x Some s prod.case option.case by blast
    then show ?thesis using that x Some s by blast
  qed
qed

lemma array_flows_start:
  assumes "array_idle n c0 x" "array_holds W flip x" "0 < unat (cm_T_M cmd)"
  shows "array_flows n c0 W flip (cm_T_M cmd, cm_T_K cmd, cm_T_N cmd) c 0 (array_multiply (ws_env freed) cmd c flip x)"
proof -
  obtain m w ts cs b where x: "x = (Some (m, w, ts, cs), b)" by (rule array_idle_cases [OF assms(1)])
  let ?tile = "(cm_T_M cmd, cm_T_K cmd, cm_T_N cmd)"
  let ?m = "sm_MatrixMultiply (cm_T_M cmd) (cm_T_K cmd) (cm_T_N cmd) (cm_offset_to_MK cmd) (cm_offset_to_MN cmd) c m"
  let ?b = "ab_matrix_multiply (cm_T_M cmd) (cm_T_N cmd) (cm_offset_to_MN cmd) c b"
  note i = assms(1) [unfolded array_idle_def x prod.case option.case]
  have e: "array_multiply (ws_env freed) cmd c flip x = (Some (?m, multiply flip ?tile w, ts, cs), ?b)"
    by (simp add: array_multiply_def x ws_env_def on_mem_def on_mesh_def multiply_def)
  have f: "flow_ok InPort (rows_sent n (unat (cm_T_M cmd))) W flip c0 ?tile 0 (multiply flip ?tile w) cs"
    by (rule idle_starts) (use i assms(2) in \<open>simp_all add: array_holds_def x\<close>)
  have mp: "wm_rows (multiply flip ?tile w) = n" "wm_cols (multiply flip ?tile w) = n"
    using i unfolding multiply_pes(1,2) by blast+
  have m: "direct n ?m" "\<forall>q<n + n. queue_at ?m q = []" using i unfolding direct_multiply by blast+
  have st: "sm_w_state ?m = WS_IDLE" "sm_rows_used ?m = of_nat (unat (cm_T_M cmd))" "sm_a_state ?m = WS_DIST_INPUTS"
    "sm_current_M ?m = of_nat 0" using i by (simp_all add: sm_MatrixMultiply_def)
  have b: "ab_pending ?b = [\<lparr>wp_cmd = c, wp_offset_to_MN = cm_offset_to_MN cmd, wp_expected_psums = cm_T_M cmd * cm_T_N cmd,
      wp_accumulated_psums = 0, wp_expected_rows = cm_T_N cmd, wp_current_row = 0\<rparr>]"
    "ab_ports ?b = ab_ports b" "ab_ms_cols ?b = ab_ms_cols b" "ab_dataflow ?b = ab_dataflow b" "ab_write_fifo ?b = ab_write_fifo b"
    using i by (simp_all add: ab_matrix_multiply_def)
  show ?thesis
    unfolding e array_flows_def prod.case option.case Let_def fst_conv snd_conv b(2-5)
  proof (intro conjI)
    show "\<exists>p. ab_pending ?b = [p] \<and> wp_cmd p = c \<and> wp_expected_psums p = cm_T_M cmd * cm_T_N cmd \<and>
        wp_accumulated_psums p = of_nat (unat (cm_T_N cmd) * min (0 - 1 - (n - 1 + (n - 1))) (unat (cm_T_M cmd)))"
      unfolding b(1) by simp
    show "sm_a_state ?m = (if 0 < unat (cm_T_M cmd) then WS_DIST_INPUTS else WS_IDLE)" using st(3) assms(3) by simp
    show "length (port_data (ab_ports b)) = (if n - 1 + (n - 1) < 0 \<and> 0 - 1 - (n - 1 + (n - 1)) < unat (cm_T_M cmd) then unat (cm_T_N cmd) else 0)"
      using i by simp
  qed (use f mp m st i in blast)+
qed

lemma array_flows_end:
  assumes fl: "array_flows n c0 W flip (t_m, t_k, t_n) c \<tau> (net, b)" and n: "0 < n" "0 < unat t_m" "0 < unat t_n"
    and bound: "unat t_m * unat t_n < 2 ^ 32"
  shows "is_psums_accumulated b \<longleftrightarrow> unat t_m + 2 * n \<le> \<tau> + 1" "get_head_command b = Some c"
    "en_mem_is_idle (ws_env freed) net \<longleftrightarrow> unat t_m \<le> \<tau>"
    "unat t_m + 2 * n \<le> \<tau> + 1 \<Longrightarrow> array_idle n (c0 + of_nat \<tau>) (net, reset_psums_accumulated b)"
    "unat t_m + 2 * n \<le> \<tau> + 1 \<Longrightarrow> array_holds W False (net, b)"
proof -
  obtain m w ts cs where x: "net = Some (m, w, ts, cs)" using fl by (auto simp: array_flows_def split: option.splits)
  define tm where "tm = unat t_m"
  define tn where "tn = unat t_n"
  define d where "d = n - 1 + (n - 1)"
  let ?A = "rows_sent n tm" and ?tile = "(t_m, t_k, t_n)"
  note fl = fl [unfolded array_flows_def x prod.case option.case Let_def fst_conv snd_conv tm_def [symmetric] tn_def [symmetric] d_def [symmetric]]
  from fl obtain p where f: "direct n m" "\<forall>q<n + n. queue_at m q = []" "sm_w_state m = WS_IDLE"
    "sm_a_state m = (if \<tau> < tm then WS_DIST_INPUTS else WS_IDLE)"
    and w: "wm_rows w = n" "wm_cols w = n" "flow_ok InPort ?A W flip c0 ?tile \<tau> w cs" "trees_ready 0 0 ts"
    and b: "length (ab_ports b) = n" "ab_ms_cols b \<noteq> 0" "ab_dataflow b = DATAFLOW_WS" "ff_queue (ab_write_fifo b) = []"
      "length (port_data (ab_ports b)) = (if d < \<tau> \<and> \<tau> - 1 - d < tm then tn else 0)"
    and p: "ab_pending b = [p]" "wp_cmd p = c" "wp_expected_psums p = t_m * t_n"
      "wp_accumulated_psums p = of_nat (tn * min (\<tau> - 1 - d) tm)" by blast
  have e: "t_m * t_n = of_nat (tm * tn)" by (simp add: tm_def tn_def)
  have tb: "tm * tn < 2 ^ 32" "0 < tm" "0 < tn" using bound n by (simp_all add: tm_def tn_def)
  have "tn * min (\<tau> - 1 - d) tm \<le> tm * tn" by (simp add: mult.commute [of tm])
  then have lt: "tn * min (\<tau> - 1 - d) tm < 2 ^ 32" using tb(1) by linarith
  have "is_psums_accumulated b \<longleftrightarrow> (of_nat (tm * tn) :: u32) \<le> of_nat (tn * min (\<tau> - 1 - d) tm)"
    unfolding is_psums_accumulated_def p(1) list.case p(3,4) e ..
  also have "\<dots> \<longleftrightarrow> tm * tn \<le> tn * min (\<tau> - 1 - d) tm"
    by (simp only: linorder_not_less [symmetric] u32_less [OF lt tb(1)])
  also have "\<dots> \<longleftrightarrow> tm \<le> \<tau> - 1 - d" using tb(3) by (auto simp: mult.commute [of tm])
  also have "\<dots> \<longleftrightarrow> tm + 2 * n \<le> \<tau> + 1" using tb(2) n(1) unfolding d_def by arith
  finally show acc: "is_psums_accumulated b \<longleftrightarrow> unat t_m + 2 * n \<le> \<tau> + 1" unfolding tm_def .
  show "get_head_command b = Some c" using p(1,2) by (simp add: get_head_command_def)
  show "en_mem_is_idle (ws_env freed) net \<longleftrightarrow> unat t_m \<le> \<tau>"
    using f(4) by (simp add: ws_env_def x sm_is_idle_def tm_def not_less)
  assume t: "unat t_m + 2 * n \<le> \<tau> + 1"
  then have tt: "tm + wm_rows w + wm_cols w \<le> Suc \<tau>" "\<not> \<tau> < tm" "\<not> (d < \<tau> \<and> \<tau> - 1 - d < tm)"
    using w(1,2) n(1) unfolding tm_def d_def by arith+
  note fe = flow_ends [OF w(3) [unfolded rows_sent_def] tt(1)]
  have r: "reset_psums_accumulated b = b\<lparr>ab_pending := []\<rparr>" using acc t p(1) by (simp add: reset_psums_accumulated_def)
  show "array_holds W False (net, b)" using fe(2) by (simp add: array_holds_def x)
  have "port_data (ab_ports b) = []" using b(5) tt(3) by (simp split: if_splits)
  then show "array_idle n (c0 + of_nat \<tau>) (net, reset_psums_accumulated b)"
    using f w(1,2,4) b(1-4) fe(1) tt(2) n(1) by (simp add: array_idle_def x r)
qed

lemma multiplication_runs:
  assumes "array_idle n c0 x" "array_holds W flip x" "0 < unat (cm_T_M cmd)" "0 < unat (cm_T_N cmd)" "unat (cm_T_N cmd) \<le> n"
    "unat (cm_T_M cmd) * unat (cm_T_N cmd) < 2 ^ 32"
  shows "\<exists>net b. array_cycles (ws_env freed) \<tau> (array_multiply (ws_env freed) cmd c flip x) = Some (net, b) \<and>
    (is_psums_accumulated b \<longleftrightarrow> unat (cm_T_M cmd) + 2 * n \<le> \<tau> + 1) \<and> get_head_command b = Some c \<and>
    (en_mem_is_idle (ws_env freed) net \<longleftrightarrow> unat (cm_T_M cmd) \<le> \<tau>) \<and>
    (unat (cm_T_M cmd) + 2 * n \<le> \<tau> + 1 \<longrightarrow>
       array_idle n (c0 + of_nat \<tau>) (net, reset_psums_accumulated b) \<and> array_holds W False (net, b))"
proof -
  have n: "0 < n" by (rule array_idle_cases [OF assms(1)])
  obtain y where y: "array_cycles (ws_env freed) \<tau> (array_multiply (ws_env freed) cmd c flip x) = Some y"
    "array_flows n c0 W flip (cm_T_M cmd, cm_T_K cmd, cm_T_N cmd) c \<tau> y"
    using array_flows_cycles [OF array_flows_start [OF assms(1-3)] n assms(4,5)] by blast
  obtain net b where nb: "y = (net, b)" by (cases y)
  show ?thesis
    using array_flows_end [OF y(2) [unfolded nb] n assms(3,4,6)] y(1) nb by blast
qed

section \<open>A preload\<close>

definition array_loads ::
    "(package \<Rightarrow> u32) \<Rightarrow> nat \<Rightarrow> u32 \<Rightarrow> (nat \<times> nat \<Rightarrow> u32) \<Rightarrow> nat \<Rightarrow> ws_net option \<times> acc_buffer \<Rightarrow> bool" where
  "array_loads freed n c0 U \<tau> = (\<lambda>(net, b). case net of None \<Rightarrow> False | Some (m, w, ts, cs) \<Rightarrow>
     direct n m \<and> (\<forall>q<n + n. queue_at m q = []) \<and> sm_a_state m = WS_IDLE \<and>
     sm_w_state m = (if \<tau> < n then WS_DIST_WEIGHT else WS_IDLE) \<and> (\<tau> < n \<longrightarrow> sm_current_K m = of_nat (n - 1 - \<tau>)) \<and>
     wm_rows w = n \<and> wm_cols w = n \<and> load_ok InPort (\<lambda>_. null_weight) freed U c0 \<tau> w cs \<and> trees_ready 0 0 ts \<and>
     length (ab_ports b) = n \<and> ab_ms_cols b \<noteq> 0 \<and> ab_dataflow b = DATAFLOW_WS \<and>
     ff_queue (ab_write_fifo b) = [] \<and> port_data (ab_ports b) = [] \<and> ab_pending b = [])"

lemma array_loads_step:
  assumes ld: "array_loads freed n c0 U \<tau> (Some (m, w, ts, cs), b)"
  shows "\<exists>m' w' cs' b'. array_cycle (ws_env freed) (Some (m, w, ts, cs), b) = Some (Some (m', w', ts, cs'), b') \<and>
    array_loads freed n c0 U (Suc \<tau>) (Some (m', w', ts, cs'), b')"
proof -
  let ?V = "\<lambda>_. null_weight"
  from ld [unfolded array_loads_def prod.case option.case]
  have f: "direct n m" "\<forall>q<n + n. queue_at m q = []" "sm_a_state m = WS_IDLE"
    "sm_w_state m = (if \<tau> < n then WS_DIST_WEIGHT else WS_IDLE)" "\<tau> < n \<longrightarrow> sm_current_K m = of_nat (n - 1 - \<tau>)"
    and w: "wm_rows w = n" "wm_cols w = n" "load_ok InPort ?V freed U c0 \<tau> w cs" "trees_ready 0 0 ts"
    and b: "length (ab_ports b) = n" "ab_ms_cols b \<noteq> 0" "ab_dataflow b = DATAFLOW_WS" "ff_queue (ab_write_fifo b) = []"
      "port_data (ab_ports b) = []" "ab_pending b = []" by blast+
  have nb: "n + n < 2 ^ 32" using f(1) by (simp add: direct_def)
  have K: "sm_current_K m = 0 \<longleftrightarrow> \<not> Suc \<tau> < n" if "\<tau> < n"
  proof -
    have "n - 1 - \<tau> < 2 ^ 32" using nb by linarith
    then have z: "(of_nat (n - 1 - \<tau>) :: u32) = 0 \<longleftrightarrow> n - 1 - \<tau> = 0" using of_nat_u32_eq [of "n - 1 - \<tau>" 0] by simp
    show "sm_current_K m = 0 \<longleftrightarrow> \<not> Suc \<tau> < n" using f(5) that z by auto
  qed
  have K1: "sm_current_K m - 1 = of_nat (n - 1 - Suc \<tau>)" if "Suc \<tau> < n"
  proof -
    have "n - 1 - \<tau> = Suc (n - 1 - Suc \<tau>)" using that by simp
    then show ?thesis using f(5) that by simp
  qed
  have g: "(\<lambda>j. if sm_w_state m = WS_DIST_WEIGHT then Some (null_weight j) else None) = (\<lambda>j. row_stream ?V n j \<tau>)"
    using f(4) by (auto simp: row_stream_def)
  obtain m1 where m1: "sm_cycle (m, cs) = Some (m1, feed_top InPort n (\<lambda>j. row_stream ?V n j \<tau>) cs)" "direct n m1"
    "\<forall>q<n + n. queue_at m1 q = []" "sm_a_state m1 = WS_IDLE"
    "sm_w_state m1 = (if sm_w_state m = WS_DIST_WEIGHT \<and> sm_current_K m = 0 then WS_IDLE else sm_w_state m)"
    "sm_current_K m1 = (if sm_w_state m = WS_DIST_WEIGHT \<and> sm_current_K m \<noteq> 0 then sm_current_K m - 1 else sm_current_K m)"
    using sm_cycle_direct [OF f(1,2), of cs] unfolding g f(3) by (auto simp: feed_left_def)
  have wst: "sm_w_state m1 = (if Suc \<tau> < n then WS_DIST_WEIGHT else WS_IDLE)" using m1(5) f(4) K by auto
  have cK: "Suc \<tau> < n \<longrightarrow> sm_current_K m1 = of_nat (n - 1 - Suc \<tau>)" using m1(6) f(4) K K1 by simp
  obtain b1 where b1: "ab_cycle b = Some b1" "ff_queue (ab_write_fifo b1) = []" "port_data (ab_ports b1) = []" "ab_pending b1 = []"
    using ab_cycle_quiet [OF b(4,5)] b(6) by auto
  note keep = ab_cycle_keeps [OF b1(1)]
  have pre: "inputs_ok InPort (wm_cols w + wm_rows w)" "wm_cols w \<le> length (ab_ports b1)" "wm_rows w < 2 ^ 32"
    using w(1,2) keep(2) b(1) nb by simp_all
  have ty: "\<forall>s j. pk_type (?V s j) = WEIGHT" by (simp add: null_weight_def)
  obtain w1 cs1 where c: "wm_cycle freed (w, feed_top InPort n (\<lambda>j. row_stream ?V n j \<tau>) cs, ab_ports b1) = Some (w1, cs1, ab_ports b1)"
    "wm_rows w1 = n" "wm_cols w1 = n" "load_ok InPort ?V freed U c0 (Suc \<tau>) w1 cs1"
    using load_step [OF pre(1) w(3) ty pre(2,3)] unfolding w(1,2) by blast
  have "array_loads freed n c0 U (Suc \<tau>) (Some (m1, w1, ts, cs1), b1\<lparr>ab_ports := ab_ports b1\<rparr>)"
    unfolding array_loads_def prod.case option.case using m1(2-4) wst cK c(2-4) w(4) keep b(1-3) b1(2-4) by simp
  then show ?thesis using array_cycle_eq [OF m1(1) b1(1) c(1) w(4)] by blast
qed

lemma array_loads_cycles:
  assumes "array_loads freed n c0 U 0 (Some (m, w, ts, cs), b)"
  shows "\<exists>m' w' cs' b'. array_cycles (ws_env freed) \<tau> (Some (m, w, ts, cs), b) = Some (Some (m', w', ts, cs'), b') \<and>
    array_loads freed n c0 U \<tau> (Some (m', w', ts, cs'), b')"
proof (induction \<tau>)
  case (Suc \<tau>)
  then obtain m' w' cs' b' where y: "array_cycles (ws_env freed) \<tau> (Some (m, w, ts, cs), b) = Some (Some (m', w', ts, cs'), b')"
    "array_loads freed n c0 U \<tau> (Some (m', w', ts, cs'), b')" by blast
  obtain m2 w2 cs2 b2 where "array_cycle (ws_env freed) (Some (m', w', ts, cs'), b') = Some (Some (m2, w2, ts, cs2), b2)"
    "array_loads freed n c0 U (Suc \<tau>) (Some (m2, w2, ts, cs2), b2)" using array_loads_step [OF y(2)] by blast
  then show ?case using y(1) by simp
qed (use assms in simp)

lemma direct_preload: "direct n (sm_preload t_n t_k off c m) = direct n m"
  "queue_at (sm_preload t_n t_k off c m) = queue_at m"
  by (simp_all add: sm_preload_def direct_def queue_at_def fun_eq_iff)

lemma preload_runs:
  assumes "array_idle n c0 x" "array_holds U False x" "2 * n \<le> \<tau> + 1"
  shows "\<exists>net b. array_cycles (ws_env freed) \<tau> (array_preload (ws_env freed) cmd c x) = Some (net, b) \<and>
    array_idle n (c0 + of_nat \<tau>) (net, b) \<and> en_weights_preloaded (ws_env freed) net \<and>
    array_holds (\<lambda>(i, j). freed (null_weight j)) True (net, b) \<and> array_holds U False (net, b)"
proof -
  obtain m w ts cs b where x: "x = (Some (m, w, ts, cs), b)" and n: "0 < n" by (rule array_idle_cases [OF assms(1)])
  let ?m = "sm_preload (cm_T_N cmd) (cm_T_K cmd) (cm_offset_to_KN cmd) c m"
  note i = assms(1) [unfolded array_idle_def x prod.case option.case]
  have e: "array_preload (ws_env freed) cmd c x = (Some (?m, wm_preload w, ts, cs), b)"
    by (simp add: array_preload_def x ws_env_def on_mem_def on_mesh_def)
  have rc: "wm_rows (wm_preload w) = n" "wm_cols (wm_preload w) = n" using i by (simp_all add: wm_preload_def map_pes_def)
  have m: "direct n ?m" "\<forall>q<n + n. queue_at ?m q = []" using i unfolding direct_preload by blast+
  have "sm_ms_cols m = of_nat n" using i by (simp add: direct_def)
  then have st: "sm_w_state ?m = WS_DIST_WEIGHT" "sm_a_state ?m = WS_IDLE" "sm_current_K ?m = of_nat (n - 1 - 0)"
    using i n by (simp_all add: sm_preload_def of_nat_diff)
  have ic: "idle InPort c0 w cs" "holds U False w" using i assms(2) by (simp_all add: array_holds_def x)
  have l: "load_ok InPort (\<lambda>_. null_weight) freed U c0 0 (wm_preload w) cs" by (rule preload_starts [OF ic])
  have "array_loads freed n c0 U 0 (Some (?m, wm_preload w, ts, cs), b)"
    unfolding array_loads_def prod.case option.case using i m st rc l n by simp
  then obtain m' w' cs' b' where r: "array_cycles (ws_env freed) \<tau> (Some (?m, wm_preload w, ts, cs), b) = Some (Some (m', w', ts, cs'), b')"
    "array_loads freed n c0 U \<tau> (Some (m', w', ts, cs'), b')" using array_loads_cycles by blast
  note f = r(2) [unfolded array_loads_def prod.case option.case]
  have t: "\<not> \<tau> < n" "wm_rows w' + wm_cols w' \<le> Suc \<tau>" using f assms(3) n by simp_all
  have lo: "load_ok InPort (\<lambda>_. null_weight) freed U c0 \<tau> w' cs'" using f by blast
  note pe = preload_ends [OF lo t(2)]
  have "array_idle n (c0 + of_nat \<tau>) (Some (m', w', ts, cs'), b')"
    unfolding array_idle_def prod.case option.case using f t(1) n pe(1) by simp
  then show ?thesis
    using r(1) pe(2-4) unfolding e by (simp add: array_holds_def ws_env_def)
qed

section \<open>The array that is built\<close>

lemma idle_inputs:
  assumes "idle input c0 w (\<lambda>_. new_connection 0)" "\<And>k. k < wm_rows w + wm_cols w \<Longrightarrow> input k = input' k"
  shows "idle input' c0 w (\<lambda>c. new_connection (bw c))"
proof -
  have "idle_pe input' (wm_rows w) (wm_cols w) c0 (\<lambda>c. new_connection (bw c)) (i, j) (wm_pes w (i, j))"
    if ij: "i < wm_rows w" "j < wm_cols w" for i j
  proof -
    have e: "top_wire input (i, j) = top_wire input' (i, j)" "left_wire input (wm_cols w) (i, j) = left_wire input' (wm_cols w) (i, j)"
      using assms(2) ij by (simp_all add: top_wire_def left_wire_def)
    have p: "pe_ok input (wm_rows w) (wm_cols w) (i, j) m = pe_ok input' (wm_rows w) (wm_cols w) (i, j) m" for m
      unfolding pe_ok_def prod.case e ..
    have n: "pending (new_connection b) = []" "\<not> cn_pending_data (new_connection b)" for b :: u64
      by (simp_all add: pending_def new_connection_def)
    have "idle_pe input (wm_rows w) (wm_cols w) c0 (\<lambda>_. new_connection 0) (i, j) (wm_pes w (i, j))"
      using assms(1) ij by (simp add: idle_def)
    then show ?thesis unfolding idle_pe_def prod.case p using n by blast
  qed
  then show ?thesis by (simp add: idle_def)
qed

lemma built_array_idle:
  assumes "0 < n" "n + n < 2 ^ 32"
  shows "\<exists>net. new_ws_net junk bw (of_nat n) (of_nat n) (of_nat (n + n)) mem_capacity ms_capacity = Some net \<and>
    array_idle n 0 (Some net, new_acc_buffer junk width (of_nat n) capacity DATAFLOW_WS) \<and>
    array_holds (\<lambda>_. 0) False (Some net, new_acc_buffer junk width (of_nat n) capacity DATAFLOW_WS)"
proof -
  let ?b = "new_acc_buffer junk width (of_nat n) capacity DATAFLOW_WS"
  have u: "unat (of_nat n :: u32) = n" "unat (of_nat (n + n) :: u32) = n + n"
    using assms(2) unat_of_nat [of "n + n", where 'a = 32] by (simp_all add: unat_of_nat take_bit_nat_eq_self)
  have nz: "(of_nat n :: u32) \<noteq> 0" "(of_nat (n + n) :: u32) \<noteq> 0"
    using assms of_nat_u32_eq [of n 0] of_nat_u32_eq [of "n + n" 0] by simp_all
  have "unat ((of_nat n + of_nat n :: u32) div of_nat (n + n)) = 1"
    using u(2) assms(1) by (simp add: unat_div flip: of_nat_add)
  then have per: "(of_nat n + of_nat n :: u32) div of_nat (n + n) = 1" by (metis unat_1 word_unat_eq_iff)
  obtain m where m: "new_ws_memory junk (of_nat n) (of_nat n) (of_nat (n + n)) mem_capacity = Some m"
    "sm_w_state m = WS_IDLE" "sm_a_state m = WS_IDLE" "sm_ms_rows m = of_nat n" "sm_ms_cols m = of_nat n"
    "sm_n_read_ports m = of_nat (n + n)" "sm_per_port m = 1" "sm_input_fifos m = replicate (n + n) (new_fifo mem_capacity)"
    "sm_psum_fifos m = replicate (n + n) (new_fifo mem_capacity)"
    using nz(2) per u(2) by (auto simp: new_ws_memory_def simp del: of_nat_add)
  have "(of_nat n + of_nat n :: u32) div of_nat (n + n) = of_nat (2 ^ 0)" using per by simp
  from new_ds_top_ready [OF nz(2) this] obtain ts where
    ts: "new_ds_top (of_nat n) (of_nat n) (of_nat (n + n)) = Some (1, ts)" "network_ready 0 (1, ts)" "length ts = n + n"
    unfolding u(2) by auto
  have tr: "trees_ready 0 0 ts" using ts(2) by (simp add: network_ready_def)
  let ?m = "m\<lparr>sm_read_connections := map InPort [0..<n + n]\<rparr>"
  have top: "dt_getTopConnections (1, ts) = map InPort [0..<n + n]" using ts(3) by (simp add: dt_getTopConnections_def)
  have m1: "sm_setReadConnections (map InPort [0..<n + n]) m = Some ?m"
    using m(6) u(2) by (simp add: sm_setReadConnections_def del: of_nat_add)
  have leaf: "dt_getLastLevelConnections (1, ts) k = InPort k" if "k < n + n" for k
    using tr ts(3) that by (simp add: dt_getLastLevelConnections_def dn_getLastLevelConnections_def into_level_def trees_ready_def tree_ready_def)
  let ?w = "built_mesh ms_capacity n n (dt_getLastLevelConnections (1, ts))"
  have net: "new_ws_net junk bw (of_nat n) (of_nat n) (of_nat (n + n)) mem_capacity ms_capacity =
      Some (?m, ?w, ts, \<lambda>c. new_connection (bw c))"
    using m(1) ts(1) top m1 by (simp add: new_ws_net_def built_mesh_def u(1) del: of_nat_add)
  have d: "direct n ?m" "\<forall>q<n + n. queue_at ?m q = []"
    using m assms(2) by (simp_all add: direct_def queue_at_def new_fifo_def)
  have nn: "n + n \<le> 2 ^ 32" using assms(2) by simp
  have id: "idle InPort 0 ?w (\<lambda>c. new_connection (bw c))"
    by (rule idle_inputs [OF built_idle(1) [OF nn]]) (simp add: built_dims leaf)
  have pd: "port_data (replicate k (new_connection x)) = []" for k x
    by (induction k) (simp_all add: new_connection_def)
  have b: "length (ab_ports ?b) = n" "ab_ms_cols ?b \<noteq> 0" "ab_dataflow ?b = DATAFLOW_WS" "ff_queue (ab_write_fifo ?b) = []"
    "port_data (ab_ports ?b) = []" "ab_pending ?b = []"
    using u(1) nz(1) pd by (simp_all add: new_acc_buffer_def new_fifo_def)
  have st: "sm_w_state ?m = WS_IDLE" "sm_a_state ?m = WS_IDLE" using m(2,3) by simp_all
  have "array_idle n 0 (Some (?m, ?w, ts, \<lambda>c. new_connection (bw c)), ?b)"
    unfolding array_idle_def prod.case option.case built_dims using assms(1) d st id tr b by blast
  moreover have "array_holds (\<lambda>_. 0) False (Some (?m, ?w, ts, \<lambda>c. new_connection (bw c)), ?b)"
    using built_idle(2) [OF nn] by (simp add: array_holds_def)
  ultimately show ?thesis using net by blast
qed

section \<open>Properties\<close>

text \<open>
  C4. A multiplication completes, and the accelerator notices in the cycle in which the array is free again.  Given to
  an idle array of \<open>n\<close> rows and columns with one port per input, a tile of \<open>T_M\<close> rows and \<open>T_N\<close> columns keeps the
  memory controller busy for \<open>T_M\<close> cycles and has all its partial sums counted in the accumulation buffer after exactly
  \<open>T_M + 2 n - 1\<close> cycles, not earlier; no assertion of the memory controller, the trees, the mesh or the buffer fails on
  the way, the buffer reports the command that was given, and once it has reported the array is idle and ready for the
  next command, with the weights it has used still in use.
\<close>

theorem array_multiplication_completes:
  assumes "array_idle n c0 x" "array_holds W flip x" "0 < unat (cm_T_M cmd)" "0 < unat (cm_T_N cmd)" "unat (cm_T_N cmd) \<le> n"
    "unat (cm_T_M cmd) * unat (cm_T_N cmd) < 2 ^ 32"
  shows "\<exists>net b. array_cycles (ws_env freed) \<tau> (array_multiply (ws_env freed) cmd c flip x) = Some (net, b) \<and>
    (is_psums_accumulated b \<longleftrightarrow> unat (cm_T_M cmd) + 2 * n \<le> \<tau> + 1) \<and> get_head_command b = Some c \<and>
    (en_mem_is_idle (ws_env freed) net \<longleftrightarrow> unat (cm_T_M cmd) \<le> \<tau>) \<and>
    (unat (cm_T_M cmd) + 2 * n \<le> \<tau> + 1 \<longrightarrow>
       array_idle n (c0 + of_nat \<tau>) (net, reset_psums_accumulated b) \<and> array_holds W False (net, b))"
  by (rule multiplication_runs [OF assms])

text \<open>
  C19. A preload completes: given to an idle array of \<open>n\<close> rows and columns with one port per input, it has reached every
  element after \<open>2 n - 1\<close> cycles; then \<open>weights_preloaded\<close> holds, the array is idle, the weights that arrived are in
  the spare registers, and the weights in use are those from before.  The weights are what is left of packages that
  carry 0: the memory controller does not read the matrix, and the last element of a column reads a freed package.
\<close>

theorem array_preload_completes:
  assumes "array_idle n c0 x" "array_holds U False x" "2 * n \<le> \<tau> + 1"
  shows "\<exists>net b. array_cycles (ws_env freed) \<tau> (array_preload (ws_env freed) cmd c x) = Some (net, b) \<and>
    array_idle n (c0 + of_nat \<tau>) (net, b) \<and> en_weights_preloaded (ws_env freed) net \<and>
    array_holds (\<lambda>(i, j). freed (null_weight j)) True (net, b) \<and> array_holds U False (net, b)"
  by (rule preload_runs [OF assms])

definition demo_tile :: command where
  "demo_tile = (new_command 0 EXE MATRIX_MULTIPLY None)\<lparr>cm_T_N := 2, cm_T_K := 2, cm_T_M := 3\<rparr>"

theorem array_multiplication_completes_witness:
  "\<exists>net net1 b1 net2 b2. new_ws_net 0 (\<lambda>_. 4) 2 2 4 64 64 = Some net \<and>
     array_cycles (ws_env wk_data) 5 (array_multiply (ws_env wk_data) demo_tile 7 False
       (Some net, new_acc_buffer 0 4 2 64 DATAFLOW_WS)) = Some (net1, b1) \<and> \<not> is_psums_accumulated b1 \<and>
     array_cycles (ws_env wk_data) 6 (array_multiply (ws_env wk_data) demo_tile 7 False
       (Some net, new_acc_buffer 0 4 2 64 DATAFLOW_WS)) = Some (net2, b2) \<and> is_psums_accumulated b2 \<and>
     get_head_command b2 = Some 7"
proof -
  let ?b = "new_acc_buffer 0 4 2 64 DATAFLOW_WS"
  obtain net where net: "new_ws_net 0 (\<lambda>_. 4) 2 2 4 64 64 = Some net" "array_idle 2 0 (Some net, ?b)"
    "array_holds (\<lambda>_. 0) False (Some net, ?b)"
    using built_array_idle [of 2 0 "\<lambda>_. 4" 64 64 4 64] by auto
  have d: "cm_T_M demo_tile = 3" "cm_T_N demo_tile = 2" by (simp_all add: demo_tile_def new_command_def)
  have h: "0 < unat (cm_T_M demo_tile)" "0 < unat (cm_T_N demo_tile)" "unat (cm_T_N demo_tile) \<le> 2"
    "unat (cm_T_M demo_tile) * unat (cm_T_N demo_tile) < 2 ^ 32" by (simp_all add: d)
  note run = array_multiplication_completes [OF net(2,3) h, of wk_data _ 7, unfolded d]
  from run [of 5] run [of 6] net(1) show ?thesis by auto
qed

theorem array_preload_completes_witness:
  "\<exists>net net1 b1. new_ws_net 0 (\<lambda>_. 4) 2 2 4 64 64 = Some net \<and>
     array_cycles (ws_env (\<lambda>_. 9)) 3 (array_preload (ws_env (\<lambda>_. 9)) demo_tile 7
       (Some net, new_acc_buffer 0 4 2 64 DATAFLOW_WS)) = Some (net1, b1) \<and> en_weights_preloaded (ws_env (\<lambda>_. 9)) net1 \<and>
     array_holds (\<lambda>_. 9) True (net1, b1)"
proof -
  let ?b = "new_acc_buffer 0 4 2 64 DATAFLOW_WS"
  obtain net where net: "new_ws_net 0 (\<lambda>_. 4) 2 2 4 64 64 = Some net" "array_idle 2 0 (Some net, ?b)"
    "array_holds (\<lambda>_. 0) False (Some net, ?b)"
    using built_array_idle [of 2 0 "\<lambda>_. 4" 64 64 4 64] by auto
  have "(\<lambda>(i :: nat, j :: nat). 9 :: u32) = (\<lambda>_. 9)" by auto
  with array_preload_completes [OF net(2,3), of 3 "\<lambda>_. 9" demo_tile 7] net(1) show ?thesis by auto
qed

end
