(* ===== verification/DynInsn.thy ===== *)
theory DynInsn
  imports SAController
begin

text \<open>
  Dynamic instructions of the core: \<open>sim/include/task/dyn_insn.h\<close> and \<open>sim/src/task/dyn_insn.cpp\<close>.
  The subclasses of \<open>DynamicOperation\<close> differ in their kind and in \<open>finish\<close>; what they read from
  LLVM objects (static identifier, static dependences, whether a branch is conditional) is a field.
  Instructions are shared by the queues of the core, so they live in a store and a
  \<open>shared_ptr<DynamicOperation>\<close> is a number; a port is its index in the vector of ports.
\<close>

section \<open>Data\<close>

datatype dyn_status = INIT | ALLOCATED | READY | ISSUED | EXECUTING | FINISHED | COMMITED | SLEEP

text \<open>The code compares statuses in the order of the enumeration.\<close>

fun dyn_rank :: "dyn_status \<Rightarrow> nat" where
  "dyn_rank INIT = 0"
| "dyn_rank ALLOCATED = 1"
| "dyn_rank READY = 2"
| "dyn_rank ISSUED = 3"
| "dyn_rank EXECUTING = 4"
| "dyn_rank FINISHED = 5"
| "dyn_rank COMMITED = 6"
| "dyn_rank SLEEP = 7"

lemma dyn_rank_inj: "dyn_rank a = dyn_rank b \<Longrightarrow> a = b"
  by (cases a; cases b; simp)

instantiation dyn_status :: linorder
begin

definition less_eq_dyn_status :: "dyn_status \<Rightarrow> dyn_status \<Rightarrow> bool" where
  "less_eq_dyn_status a b \<longleftrightarrow> dyn_rank a \<le> dyn_rank b"

definition less_dyn_status :: "dyn_status \<Rightarrow> dyn_status \<Rightarrow> bool" where
  "less_dyn_status a b \<longleftrightarrow> dyn_rank a < dyn_rank b"

instance
  by intro_classes (auto simp: less_eq_dyn_status_def less_dyn_status_def dyn_rank_inj)

end

lemmas dyn_order = less_eq_dyn_status_def less_dyn_status_def

datatype op_kind = OpPlain | OpPhi | OpCall | OpLoad | OpStore | OpArith | OpRet | OpBr | OpSwitch
  | OpInvoke

record inst_config =
  ic_runtime_cycles :: u64
  ic_ports :: "(int \<times> int list) list"
  ic_fus :: "int list list"

record dyn_op =
  do_kind :: op_kind
  do_uid :: u64
  do_static_deps :: "u64 list"
  do_conditional :: bool
  do_dyn_id :: u64
  do_addr :: u64
  do_status :: dyn_status
  do_total_cycle :: u64
  do_current_cycle :: u64
  do_finished :: bool
  do_sent :: bool
  do_is_squashed :: bool
  do_flush_stall :: bool
  do_mispredict :: bool
  do_pred :: bool
  do_cond :: bool
  do_is_extract :: bool
  do_deps :: "nat list"
  do_port_mapping :: "(int \<times> int list) list"
  do_port_stall :: "int list"
  do_allow_ports :: "int list"
  do_fus :: "int list list"
  do_using_fus :: "nat list"
  do_using_ports :: "nat list"
  do_forward_list :: "nat list"
  do_data_forwarded :: bool
  do_forward_op :: "nat option"
  do_cosim_can_issue :: bool
  do_cosim :: cosim_insn
  do_F0 :: u64
  do_F1 :: u64
  do_D :: u64
  do_e :: u64
  do_E :: u64
  do_R :: u64

type_synonym op_store = "nat \<Rightarrow> dyn_op"

definition no_cosim :: cosim_insn where
  "no_cosim = \<lparr>ci_insn = 0, ci_dyn_id = 0, ci_is_cosim_func = False, ci_is_config = False,
     ci_is_fence = False, ci_is_mm = False, ci_is_mm_stay = False, ci_is_mm_flip = False,
     ci_is_preload = False, ci_is_mvin = False, ci_is_mvout = False, ci_is_mvin_acc = False,
     ci_is_fake = False, ci_T_N = 0, ci_T_K = 0, ci_T_M = 0, ci_N = 0, ci_K = 0, ci_M = 0,
     ci_addr_MK = 0, ci_addr_KN = 0, ci_addr_MN = 0, ci_MK_offset = 0, ci_MN_offset = 0,
     ci_KN_offset = 0, ci_sp_a_addr = 0, ci_sp_b_addr = 0, ci_sp_c_addr = 0, ci_dram = 0, ci_sp = 0,
     ci_cols = 0, ci_rows = 0\<rparr>"

text \<open>The constructor; a fresh instruction is in state \<open>INIT\<close> and depends on nothing yet.\<close>

definition new_dyn_op :: "op_kind \<Rightarrow> u64 \<Rightarrow> u64 list \<Rightarrow> inst_config \<Rightarrow> dyn_op" where
  "new_dyn_op kind uid deps config =
     \<lparr>do_kind = kind, do_uid = uid, do_static_deps = deps, do_conditional = False, do_dyn_id = 0,
      do_addr = 0, do_status = INIT, do_total_cycle = ic_runtime_cycles config, do_current_cycle = 0,
      do_finished = False, do_sent = False, do_is_squashed = False, do_flush_stall = False,
      do_mispredict = False, do_pred = False, do_cond = False, do_is_extract = False, do_deps = [],
      do_port_mapping = ic_ports config, do_port_stall = map fst (ic_ports config),
      do_allow_ports = concat (map snd (ic_ports config)), do_fus = ic_fus config,
      do_using_fus = [], do_using_ports = [], do_forward_list = [], do_data_forwarded = False,
      do_forward_op = None, do_cosim_can_issue = False, do_cosim = no_cosim,
      do_F0 = 0, do_F1 = 0, do_D = 0, do_e = 0, do_E = 0, do_R = 0\<rparr>"

section \<open>Operations\<close>

definition isLoad :: "dyn_op \<Rightarrow> bool" where
  "isLoad p \<longleftrightarrow> do_kind p = OpLoad"

definition isStore :: "dyn_op \<Rightarrow> bool" where
  "isStore p \<longleftrightarrow> do_kind p = OpStore"

definition isBr :: "dyn_op \<Rightarrow> bool" where
  "isBr p \<longleftrightarrow> do_kind p = OpBr"

definition isConditional :: "dyn_op \<Rightarrow> bool" where
  "isConditional p = (if isBr p then do_conditional p else False)"

definition isCosimFunc :: "dyn_op \<Rightarrow> bool" where
  "isCosimFunc p = ci_is_cosim_func (do_cosim p)"

definition op_finish :: "dyn_op \<Rightarrow> bool" where
  "op_finish p =
     (if isLoad p \<or> do_kind p = OpCall \<and> do_is_extract p
      then do_finished p \<and> do_current_cycle p \<ge> do_total_cycle p
      else do_current_cycle p \<ge> do_total_cycle p)"

definition upd_op :: "nat \<Rightarrow> (dyn_op \<Rightarrow> dyn_op) \<Rightarrow> op_store \<Rightarrow> op_store" where
  "upd_op i f ops = ops(i := f (ops i))"

text \<open>\<open>updateStatus()\<close> and \<open>updateStatus(s)\<close>.\<close>

fun next_status :: "dyn_status \<Rightarrow> dyn_status" where
  "next_status INIT = ALLOCATED"
| "next_status ALLOCATED = READY"
| "next_status READY = ISSUED"
| "next_status ISSUED = EXECUTING"
| "next_status EXECUTING = FINISHED"
| "next_status FINISHED = COMMITED"
| "next_status COMMITED = COMMITED"
| "next_status SLEEP = SLEEP"

definition advance :: "nat \<Rightarrow> op_store \<Rightarrow> op_store" where
  "advance i = upd_op i (\<lambda>p. p\<lparr>do_status := next_status (do_status p)\<rparr>)"

definition set_status :: "nat \<Rightarrow> dyn_status \<Rightarrow> op_store \<Rightarrow> op_store" where
  "set_status i st = upd_op i (\<lambda>p. p\<lparr>do_status := st\<rparr>)"

definition op_execute :: "nat \<Rightarrow> op_store \<Rightarrow> op_store" where
  "op_execute i ops =
     (let ops1 = (if \<not> isLoad (ops i) \<and> \<not> isStore (ops i) \<and> do_status (ops i) = ISSUED
                  then advance i ops else ops)
      in upd_op i (\<lambda>p. p\<lparr>do_current_cycle := do_current_cycle p + 1\<rparr>) ops1)"

definition addDep :: "nat \<Rightarrow> nat \<Rightarrow> op_store \<Rightarrow> op_store" where
  "addDep i d = upd_op i (\<lambda>p. p\<lparr>do_deps := do_deps p @ [d]\<rparr>)"

definition setFinish :: "nat \<Rightarrow> bool \<Rightarrow> op_store \<Rightarrow> op_store" where
  "setFinish i b = upd_op i (\<lambda>p. p\<lparr>do_finished := b\<rparr>)"

definition setIsSent :: "nat \<Rightarrow> bool \<Rightarrow> op_store \<Rightarrow> op_store" where
  "setIsSent i b = upd_op i (\<lambda>p. p\<lparr>do_sent := b\<rparr>)"

definition op_occupyFU :: "nat \<Rightarrow> nat list \<Rightarrow> nat list \<Rightarrow> op_store \<Rightarrow> op_store" where
  "op_occupyFU i avalIDs avalPorts = upd_op i (\<lambda>p. p\<lparr>do_using_ports := avalPorts, do_using_fus := avalIDs\<rparr>)"

definition op_freeFU :: "nat \<Rightarrow> op_store \<Rightarrow> op_store" where
  "op_freeFU i = upd_op i (\<lambda>p. p\<lparr>do_using_ports := [], do_using_fus := []\<rparr>)"

definition op_reset :: "nat \<Rightarrow> op_store \<Rightarrow> op_store" where
  "op_reset i = upd_op i (\<lambda>p.
     (if isLoad p \<or> isStore p then p\<lparr>do_finished := False\<rparr> else p)
       \<lparr>do_current_cycle := 0, do_is_squashed := False, do_status := INIT, do_E := 0, do_e := 0, do_D := 0,
        do_R := 0, do_using_ports := [], do_using_fus := [], do_mispredict := False\<rparr>)"

section \<open>What a step may do to the instructions\<close>

text \<open>
  Every stage of the core after \<open>rename\<close> leaves the dependences alone and moves statuses in one
  direction: what was issued stays issued, what was finished stays finished (a load may go to sleep
  and wake up as finished, both count as at least \<open>FINISHED\<close>), and an instruction gets past
  \<open>ALLOCATED\<close> only when everything it depends on is at least \<open>FINISHED\<close>.
\<close>

definition deps_done :: "op_store \<Rightarrow> nat \<Rightarrow> bool" where
  "deps_done ops i \<longleftrightarrow> (\<forall>d\<in>set (do_deps (ops i)). FINISHED \<le> do_status (ops d))"

definition same_static :: "dyn_op \<Rightarrow> dyn_op \<Rightarrow> bool" where
  "same_static p q \<longleftrightarrow> do_deps p = do_deps q \<and> do_uid p = do_uid q \<and> do_cosim p = do_cosim q \<and>
     do_dyn_id p = do_dyn_id q \<and> do_static_deps p = do_static_deps q \<and> do_kind p = do_kind q"

definition status_moves :: "dyn_status \<Rightarrow> dyn_status \<Rightarrow> bool" where
  "status_moves s s' \<longleftrightarrow> (FINISHED \<le> s \<longrightarrow> FINISHED \<le> s') \<and> (READY \<le> s \<longrightarrow> READY \<le> s') \<and>
     (ISSUED \<le> s \<longrightarrow> ISSUED \<le> s') \<and> (s = INIT \<longleftrightarrow> s' = INIT)"

definition op_steps :: "op_store \<Rightarrow> op_store \<Rightarrow> bool" where
  "op_steps ops ops' \<longleftrightarrow>
     (\<forall>i. same_static (ops' i) (ops i) \<and> status_moves (do_status (ops i)) (do_status (ops' i)) \<and>
        (READY \<le> do_status (ops' i) \<and> \<not> READY \<le> do_status (ops i) \<longrightarrow> deps_done ops' i))"

lemma same_static_refl [simp]: "same_static p p"
  by (simp add: same_static_def)

lemma status_moves_refl [simp]: "status_moves s s"
  by (simp add: status_moves_def)

lemma op_steps_refl [simp]: "op_steps ops ops"
  by (simp add: op_steps_def)

lemma deps_done_mono:
  assumes "op_steps a b" "deps_done a i"
  shows "deps_done b i"
  using assms by (auto simp: op_steps_def deps_done_def same_static_def status_moves_def)

lemma op_steps_trans:
  assumes "op_steps a b" "op_steps b c"
  shows "op_steps a c"
proof -
  have "deps_done c i" if "READY \<le> do_status (c i)" "\<not> READY \<le> do_status (a i)" for i
  proof (cases "READY \<le> do_status (b i)")
    case True
    with that assms(1) have "deps_done b i" by (simp add: op_steps_def)
    then show ?thesis by (rule deps_done_mono [OF assms(2)])
  next
    case False
    with that assms(2) show ?thesis by (simp add: op_steps_def)
  qed
  with assms show ?thesis
    by (auto simp: op_steps_def same_static_def status_moves_def)
qed

lemma op_steps_upd:
  assumes "\<And>p. same_static (f p) p" "status_moves (do_status (ops i)) (do_status (f (ops i)))"
    "READY \<le> do_status (f (ops i)) \<Longrightarrow> \<not> READY \<le> do_status (ops i) \<Longrightarrow> deps_done ops i"
  shows "op_steps ops (upd_op i f ops)"
proof -
  have d: "deps_done (upd_op i f ops) i" if "deps_done ops i"
    using that assms(1) [of "ops i"] assms(2)
    by (auto simp: deps_done_def upd_op_def same_static_def status_moves_def)
  show ?thesis
    using assms d by (auto simp: op_steps_def upd_op_def)
qed

text \<open>The updates that leave the status alone, and the status changes of the stages.\<close>

lemma op_steps_keep:
  assumes "\<And>p. same_static (f p) p" "\<And>p. do_status (f p) = do_status p"
  shows "op_steps ops (upd_op i f ops)"
  by (rule op_steps_upd) (use assms in simp_all)

lemma op_steps_set:
  assumes "status_moves (do_status (ops i)) st"
    "READY \<le> st \<Longrightarrow> \<not> READY \<le> do_status (ops i) \<Longrightarrow> deps_done ops i"
  shows "op_steps ops (set_status i st ops)"
  unfolding set_status_def by (rule op_steps_upd) (use assms in \<open>simp_all add: same_static_def\<close>)

lemma advance_set: "advance i ops = set_status i (next_status (do_status (ops i))) ops"
  by (simp add: advance_def set_status_def upd_op_def)

lemma keep_steps [simp]:
  "op_steps ops (setFinish i b ops)" "op_steps ops (setIsSent i b ops)"
  "op_steps ops (op_occupyFU i xs ys ops)" "op_steps ops (op_freeFU i ops)"
  unfolding setFinish_def setIsSent_def op_occupyFU_def op_freeFU_def
  by (rule op_steps_keep; simp add: same_static_def)+

lemma upd_op_same [simp]: "upd_op i f ops i = f (ops i)"
  by (simp add: upd_op_def)

lemma upd_op_other [simp]: "j \<noteq> i \<Longrightarrow> upd_op i f ops j = ops j"
  by (simp add: upd_op_def)

lemma dyn_order_simps [simp]:
  "READY \<le> READY" "READY \<le> ISSUED" "READY \<le> EXECUTING" "READY \<le> FINISHED" "READY \<le> COMMITED" "READY \<le> SLEEP"
  "\<not> READY \<le> INIT" "\<not> READY \<le> ALLOCATED" "FINISHED \<le> FINISHED" "FINISHED \<le> COMMITED" "FINISHED \<le> SLEEP"
  "\<not> FINISHED \<le> INIT" "\<not> FINISHED \<le> ALLOCATED" "\<not> FINISHED \<le> READY" "\<not> FINISHED \<le> ISSUED" "\<not> FINISHED \<le> EXECUTING"
  "ISSUED \<le> ISSUED" "ISSUED \<le> EXECUTING" "ISSUED \<le> FINISHED" "ISSUED \<le> COMMITED" "ISSUED \<le> SLEEP"
  "\<not> ISSUED \<le> INIT" "\<not> ISSUED \<le> ALLOCATED" "\<not> ISSUED \<le> READY"
  by (simp_all add: dyn_order)

text \<open>
  The stages other than issue and dispatch change the status of what has issued only, so they are
  steps in a stronger sense.
\<close>

definition late_steps :: "op_store \<Rightarrow> op_store \<Rightarrow> bool" where
  "late_steps ops ops' \<longleftrightarrow>
     (\<forall>i. same_static (ops' i) (ops i) \<and> status_moves (do_status (ops i)) (do_status (ops' i)) \<and>
        (\<not> ISSUED \<le> do_status (ops i) \<longrightarrow> do_status (ops' i) = do_status (ops i)))"

lemma issued_ready: "ISSUED \<le> s \<Longrightarrow> READY \<le> (s :: dyn_status)"
  by (cases s) simp_all

lemma late_steps_op: "late_steps a b \<Longrightarrow> op_steps a b"
  unfolding late_steps_def op_steps_def using issued_ready by metis

lemma late_steps_refl [simp]: "late_steps ops ops"
  by (simp add: late_steps_def)

lemma late_steps_trans: "late_steps a b \<Longrightarrow> late_steps b c \<Longrightarrow> late_steps a c"
  by (auto simp: late_steps_def same_static_def status_moves_def)

lemma late_steps_upd:
  assumes "\<And>p. same_static (f p) p" "status_moves (do_status (ops i)) (do_status (f (ops i)))"
    "\<not> ISSUED \<le> do_status (ops i) \<Longrightarrow> do_status (f (ops i)) = do_status (ops i)"
  shows "late_steps ops (upd_op i f ops)"
  using assms by (auto simp: late_steps_def upd_op_def)

lemma late_steps_keep:
  assumes "\<And>p. same_static (f p) p" "\<And>p. do_status (f p) = do_status p"
  shows "late_steps ops (upd_op i f ops)"
  by (rule late_steps_upd) (use assms in simp_all)

lemma late_steps_set:
  assumes "status_moves (do_status (ops i)) st" "ISSUED \<le> do_status (ops i)"
  shows "late_steps ops (set_status i st ops)"
  unfolding set_status_def by (rule late_steps_upd) (use assms in \<open>simp_all add: same_static_def\<close>)

lemma keep_late [simp]:
  "late_steps ops (setFinish i b ops)" "late_steps ops (setIsSent i b ops)"
  "late_steps ops (op_occupyFU i xs ys ops)" "late_steps ops (op_freeFU i ops)"
  unfolding setFinish_def setIsSent_def op_occupyFU_def op_freeFU_def
  by (rule late_steps_keep; simp add: same_static_def)+

lemma set_finished_late: "ISSUED \<le> do_status (ops i) \<Longrightarrow> late_steps ops (set_status i FINISHED ops)"
  by (rule late_steps_set) (cases "do_status (ops i)"; simp add: status_moves_def)+

lemma op_execute_late: "late_steps ops (op_execute i ops)"
proof -
  let ?o = "if \<not> isLoad (ops i) \<and> \<not> isStore (ops i) \<and> do_status (ops i) = ISSUED then advance i ops else ops"
  have "late_steps ops ?o"
    by (auto simp: advance_set status_moves_def intro!: late_steps_set)
  moreover have "late_steps ?o (upd_op i (\<lambda>p. p\<lparr>do_current_cycle := do_current_cycle p + 1\<rparr>) ?o)"
    by (rule late_steps_keep) (simp_all add: same_static_def)
  ultimately show ?thesis
    unfolding op_execute_def Let_def by (rule late_steps_trans)
qed

text \<open>The invariant: what has left \<open>ALLOCATED\<close> has its operands.\<close>

definition deps_ok :: "op_store \<Rightarrow> bool" where
  "deps_ok ops \<longleftrightarrow> (\<forall>i. READY \<le> do_status (ops i) \<longrightarrow> deps_done ops i)"

lemma deps_ok_steps:
  assumes "deps_ok ops" "op_steps ops ops'"
  shows "deps_ok ops'"
proof -
  have "deps_done ops' i" if "READY \<le> do_status (ops' i)" for i
    using that assms deps_done_mono [OF assms(2), of i] by (auto simp: deps_ok_def op_steps_def)
  then show ?thesis by (simp add: deps_ok_def)
qed

end
