(* ===== verification/Window.thy ===== *)
theory Window
  imports DynInsn BranchPredictor
begin

text \<open>
  The reorder buffer of the core and the counters of its issue queues: \<open>sim/src/window.cpp\<close> and
  \<open>sim/include/window.h\<close>.  \<open>instList\<close> holds the instructions in program order from dispatch to
  retirement.  The per-opcode counts of \<open>Statistic\<close> are left out.
\<close>

section \<open>State\<close>

record window =
  w_windowSize :: u64
  w_retireSize :: int
  w_robSize :: int
  w_robUsed :: int
  w_issueQueueCapacity :: int
  w_issueQueueUsed :: int
  w_cosimQueueSize :: int
  w_usedCosimQueueSize :: int
  w_doneSeqNum :: u64
  w_totalCommit :: u64
  w_mispredictNum :: u64
  w_totalPredictNum :: u64
  w_instList :: "nat list"

definition new_window :: "u64 \<Rightarrow> int \<Rightarrow> int \<Rightarrow> int \<Rightarrow> window" where
  "new_window ws rs robSize issueQSize =
     \<lparr>w_windowSize = ws, w_retireSize = rs, w_robSize = robSize, w_robUsed = 0,
      w_issueQueueCapacity = issueQSize, w_issueQueueUsed = 0, w_cosimQueueSize = issueQSize,
      w_usedCosimQueueSize = 0, w_doneSeqNum = 0, w_totalCommit = 0, w_mispredictNum = 0,
      w_totalPredictNum = 0, w_instList = []\<rparr>"

section \<open>Operations\<close>

definition ifROBFull :: "window \<Rightarrow> bool" where
  "ifROBFull w \<longleftrightarrow> w_robUsed w = w_robSize w"

definition ifROBEmpty :: "window \<Rightarrow> bool" where
  "ifROBEmpty w \<longleftrightarrow> w_robUsed w = 0"

definition stallLoad :: "op_store \<Rightarrow> window \<Rightarrow> bool" where
  "stallLoad ops w \<longleftrightarrow> isLoad (ops (hd (w_instList w)))"

definition w_canDispatch :: "op_store \<Rightarrow> nat \<Rightarrow> window \<Rightarrow> bool" where
  "w_canDispatch ops i w =
     (if isCosimFunc (ops i) then w_usedCosimQueueSize w < w_cosimQueueSize w
      else w_issueQueueUsed w < w_issueQueueCapacity w)"

definition w_addInstruction :: "nat \<Rightarrow> window \<Rightarrow> window" where
  "w_addInstruction i w = w\<lparr>w_instList := w_instList w @ [i], w_robUsed := w_robUsed w + 1\<rparr>"

text \<open>The body of the retirement loop, for an instruction that is finished.\<close>

definition retire_one :: "u64 \<Rightarrow> nat \<Rightarrow> window \<times> op_store \<times> bpred \<Rightarrow> window \<times> op_store \<times> bpred" where
  "retire_one cycle i = (\<lambda>(w, ops, bp).
     (let p = ops i;
          branch = (isBr p \<and> isConditional p);
          bp1 = (if branch \<and> do_mispredict p then updateBP (do_uid p) (do_cond p) bp else bp);
          w1 = (if branch
                then w\<lparr>w_totalPredictNum := w_totalPredictNum w + 1,
                       w_mispredictNum := w_mispredictNum w + of_bool (do_mispredict p)\<rparr>
                else w)
      in (w1\<lparr>w_robUsed := w_robUsed w1 - 1, w_totalCommit := w_totalCommit w1 + 1,
             w_doneSeqNum := do_dyn_id p, w_instList := tl (w_instList w1)\<rparr>,
          advance i (upd_op i (\<lambda>p. p\<lparr>do_R := cycle\<rparr>) ops), bp1)))"

text \<open>
  The loop runs while \<open>n < retireSize\<close>; a cosim instruction that reaches the head is only allowed to
  issue, and ends the loop.
\<close>

fun retire_loop :: "nat \<Rightarrow> u64 \<Rightarrow> window \<times> op_store \<times> bpred \<Rightarrow> window \<times> op_store \<times> bpred" where
  "retire_loop 0 cycle s = s"
| "retire_loop (Suc n) cycle (w, ops, bp) =
     (case w_instList w of
        [] \<Rightarrow> (w, ops, bp)
      | i # _ \<Rightarrow>
          if isCosimFunc (ops i) \<and> do_status (ops i) \<noteq> FINISHED \<and> \<not> do_cosim_can_issue (ops i)
          then (w, upd_op i (\<lambda>p. p\<lparr>do_cosim_can_issue := True\<rparr>) ops, bp)
          else if do_status (ops i) \<noteq> FINISHED then (w, ops, bp)
          else retire_loop n cycle (retire_one cycle i (w, ops, bp)))"

definition retireInstruction :: "u64 \<Rightarrow> window \<times> op_store \<times> bpred \<Rightarrow> window \<times> op_store \<times> bpred" where
  "retireInstruction cycle s = retire_loop (nat (w_retireSize (fst s))) cycle s"

definition checkInsnReady :: "op_store \<Rightarrow> nat \<Rightarrow> bool" where
  "checkInsnReady ops i =
     (let deps = do_deps (ops i)
      in if deps = [] then True else foldl (\<lambda>ready d. ready \<and> do_status (ops d) \<ge> FINISHED) True deps)"

definition canIssue :: "op_store \<Rightarrow> nat \<Rightarrow> bool" where
  "canIssue ops i =
     (if isCosimFunc (ops i) then do_cosim_can_issue (ops i) \<and> checkInsnReady ops i
      else checkInsnReady ops i)"

section \<open>Readiness\<close>

lemma foldl_ready: "foldl (\<lambda>ready d. ready \<and> P d) b ds \<longleftrightarrow> b \<and> (\<forall>d\<in>set ds. P d)"
  by (induction ds arbitrary: b) auto

lemma checkInsnReady_iff: "checkInsnReady ops i \<longleftrightarrow> deps_done ops i"
  by (auto simp: checkInsnReady_def deps_done_def foldl_ready Let_def)

lemma canIssue_deps: "canIssue ops i \<Longrightarrow> deps_done ops i"
  by (auto simp: canIssue_def checkInsnReady_iff split: if_splits)

section \<open>Retirement\<close>

definition done_prefix :: "op_store \<Rightarrow> nat list \<Rightarrow> nat list" where
  "done_prefix ops l = takeWhile (\<lambda>i. do_status (ops i) = FINISHED) l"

lemma retire_one_simps:
  assumes "retire_one cycle i (w, ops, bp) = (w', ops', bp')" "do_status (ops i) = FINISHED"
  shows "w_instList w' = tl (w_instList w)" "w_robUsed w' = w_robUsed w - 1" "w_robSize w' = w_robSize w"
    "w_totalCommit w' = w_totalCommit w + 1" "w_doneSeqNum w' = do_dyn_id (ops i)"
    "w_retireSize w' = w_retireSize w" "do_status (ops' i) = COMMITED" "j \<noteq> i \<Longrightarrow> ops' j = ops j"
    "w_issueQueueUsed w' = w_issueQueueUsed w" "w_usedCosimQueueSize w' = w_usedCosimQueueSize w"
    "w_issueQueueCapacity w' = w_issueQueueCapacity w" "w_cosimQueueSize w' = w_cosimQueueSize w"
    "do_dyn_id (ops' x) = do_dyn_id (ops x)" "late_steps ops ops'"
proof -
  have o: "ops' = advance i (upd_op i (\<lambda>p. p\<lparr>do_R := cycle\<rparr>) ops)"
    using assms(1) by (simp add: retire_one_def Let_def)
  show "w_instList w' = tl (w_instList w)" "w_robUsed w' = w_robUsed w - 1" "w_robSize w' = w_robSize w"
    "w_totalCommit w' = w_totalCommit w + 1" "w_doneSeqNum w' = do_dyn_id (ops i)"
    "w_retireSize w' = w_retireSize w"
    "w_issueQueueUsed w' = w_issueQueueUsed w" "w_usedCosimQueueSize w' = w_usedCosimQueueSize w"
    "w_issueQueueCapacity w' = w_issueQueueCapacity w" "w_cosimQueueSize w' = w_cosimQueueSize w"
    using assms(1) by (auto simp: retire_one_def Let_def)
  show "do_status (ops' i) = COMMITED" "do_dyn_id (ops' x) = do_dyn_id (ops x)"
    using assms(2) by (simp_all add: o advance_def) (simp add: upd_op_def)
  show "j \<noteq> i \<Longrightarrow> ops' j = ops j" by (simp add: o advance_def)
  have a: "late_steps ops (upd_op i (\<lambda>p. p\<lparr>do_R := cycle\<rparr>) ops)"
    by (rule late_steps_keep) (simp_all add: same_static_def)
  have b: "late_steps q (advance i q)" if "do_status (q i) = FINISHED" for q
    using that by (auto simp: advance_set status_moves_def intro!: late_steps_set)
  show "late_steps ops ops'"
    unfolding o by (rule late_steps_trans [OF a b]) (simp add: assms(2))
qed

lemma retire_loop_spec:
  assumes "distinct (w_instList w)" "retire_loop n cycle (w, ops, bp) = (w', ops', bp')"
  shows "let gone = take n (done_prefix ops (w_instList w)) in
     w_instList w = gone @ w_instList w' \<and> w_robUsed w' = w_robUsed w - int (length gone) \<and>
     w_robSize w' = w_robSize w \<and> w_retireSize w' = w_retireSize w \<and>
     w_totalCommit w' = w_totalCommit w + of_nat (length gone) \<and>
     w_doneSeqNum w' = (if gone = [] then w_doneSeqNum w else do_dyn_id (ops (last gone))) \<and>
     (\<forall>i. do_status (ops' i) = (if i \<in> set gone then COMMITED else do_status (ops i)))"
  using assms
proof (induction n arbitrary: w ops bp)
  case (Suc n)
  show ?case
  proof (cases "w_instList w")
    case Nil
    with Suc.prems show ?thesis by (auto simp: done_prefix_def)
  next
    case (Cons i rest)
    show ?thesis
    proof (cases "do_status (ops i) = FINISHED")
      case False
      have "do_status (upd_op i (\<lambda>p. p\<lparr>do_cosim_can_issue := True\<rparr>) ops j) = do_status (ops j)" for j
        by (simp add: upd_op_def)
      with False Suc.prems(2) Cons show ?thesis
        by (auto simp: done_prefix_def split: if_splits)
    next
      case True
      obtain w1 ops1 bp1 where one: "retire_one cycle i (w, ops, bp) = (w1, ops1, bp1)"
        by (cases "retire_one cycle i (w, ops, bp)") auto
      note r = retire_one_simps [OF one True]
      have l: "w_instList w1 = rest" using r(1) Cons by simp
      have i: "i \<notin> set rest" "distinct rest" using Suc.prems(1) Cons by simp_all
      have ro: "retire_loop n cycle (w1, ops1, bp1) = (w', ops', bp')"
        using Suc.prems(2) Cons True one by simp
      have same: "ops1 x = ops x" if "x \<in> set rest" for x using r(8) [of x] i(1) that by metis
      have p: "done_prefix ops1 rest = done_prefix ops rest"
        unfolding done_prefix_def by (intro takeWhile_cong) (simp_all add: same)
      let ?g = "take n (done_prefix ops rest)"
      have g: "take (Suc n) (done_prefix ops (w_instList w)) = i # ?g"
        using Cons True by (simp add: done_prefix_def)
      have n: "i \<notin> set ?g" using i(1) by (auto simp: done_prefix_def dest!: in_set_takeD set_takeWhileD)
      have q: "j \<in> set ?g \<Longrightarrow> j \<noteq> i" for j using n by auto
      note IH = Suc.IH [OF _ ro, unfolded l p Let_def, OF i(2)]
      have d: "do_dyn_id (ops1 (last ?g)) = do_dyn_id (ops (last ?g))" by (rule r(13))
      show ?thesis
        unfolding g Let_def using IH Cons r(2-8) d n
        by (auto simp: algebra_simps split: if_splits)
    qed
  qed
qed simp

lemma retire_loop_late: "late_steps (fst (snd s)) (fst (snd (retire_loop n cycle s)))"
proof (induction n cycle s rule: retire_loop.induct)
  case (2 n cycle w ops bp)
  have k: "late_steps ops (upd_op i (\<lambda>p. p\<lparr>do_cosim_can_issue := True\<rparr>) ops)" for i
    by (rule late_steps_keep) (simp_all add: same_static_def)
  show ?case
  proof (cases "w_instList w")
    case (Cons i rest)
    show ?thesis
    proof (cases "do_status (ops i) = FINISHED")
      case True
      obtain w1 ops1 bp1 where one: "retire_one cycle i (w, ops, bp) = (w1, ops1, bp1)"
        by (cases "retire_one cycle i (w, ops, bp)") auto
      show ?thesis
        using "2.IH" [OF Cons] True Cons one late_steps_trans [OF retire_one_simps(14) [OF one True]] by simp
    qed (use Cons k in simp)
  qed simp
qed simp

text \<open>
  C28. Instructions retire in program order: a call of \<open>retireInstruction\<close> removes from the head of
  the reorder buffer exactly the finished instructions in front of the first unfinished one, at most
  \<open>retireSize\<close> of them; these and no others become committed, the occupancy and the commit count
  move by their number, and \<open>doneSeqNum\<close> is the identifier of the last of them.
\<close>

theorem retires_in_order:
  assumes "distinct (w_instList w)" "retireInstruction cycle (w, ops, bp) = (w', ops', bp')"
  shows "let gone = take (nat (w_retireSize w)) (takeWhile (\<lambda>i. do_status (ops i) = FINISHED) (w_instList w)) in
     w_instList w = gone @ w_instList w' \<and> w_robUsed w' = w_robUsed w - int (length gone) \<and>
     w_totalCommit w' = w_totalCommit w + of_nat (length gone) \<and>
     w_doneSeqNum w' = (if gone = [] then w_doneSeqNum w else do_dyn_id (ops (last gone))) \<and>
     (\<forall>i. do_status (ops' i) = (if i \<in> set gone then COMMITED else do_status (ops i)))"
  using retire_loop_spec [OF assms(1), of "nat (w_retireSize w)" cycle ops bp w' ops' bp'] assms(2)
  by (simp add: retireInstruction_def done_prefix_def Let_def)

definition demo_config :: inst_config where
  "demo_config = \<lparr>ic_runtime_cycles = 1, ic_ports = [(1, [0, 1])], ic_fus = [[7]]\<rparr>"

definition demo_ops :: op_store where
  "demo_ops i = (new_dyn_op OpArith (of_nat i) [] demo_config)
     \<lparr>do_dyn_id := of_nat i, do_status := (if i < 2 then FINISHED else ISSUED)\<rparr>"

theorem retires_in_order_witness:
  "\<exists>w' ops' bp'. retireInstruction 9 ((new_window 4 4 8 8)\<lparr>w_instList := [0, 1, 2], w_robUsed := 3\<rparr>,
       demo_ops, the (Bpred bp_perfect 4 2)) = (w', ops', bp') \<and>
     w_instList w' = [2] \<and> w_doneSeqNum w' = 1 \<and> do_status (ops' 1) = COMMITED \<and> do_status (ops' 2) = ISSUED"
proof -
  let ?w = "(new_window 4 4 8 8)\<lparr>w_instList := [0, 1, 2], w_robUsed := 3\<rparr>"
  obtain w' ops' bp' where r: "retireInstruction 9 (?w, demo_ops, the (Bpred bp_perfect 4 2)) = (w', ops', bp')"
    by (metis prod_cases3)
  have g: "take (nat (w_retireSize ?w)) (takeWhile (\<lambda>i. do_status (demo_ops i) = FINISHED) (w_instList ?w)) = [0, 1]"
    by (simp add: new_window_def demo_ops_def)
  have i: "do_dyn_id (demo_ops 1) = 1" "do_status (demo_ops 2) = ISSUED" by (simp_all add: demo_ops_def)
  have "distinct (w_instList ?w)" by simp
  from retires_in_order [OF this r, unfolded g Let_def] show ?thesis
    using i by (intro exI [of _ w'] exI [of _ ops'] exI [of _ bp'] conjI r) auto
qed

end
