(* ===== verification/LSUnit.thy ===== *)
theory LSUnit
  imports DynInsn
begin

text \<open>
  The load and store queues of the core: \<open>sim/src/lsu.cpp\<close> and \<open>sim/include/lsu.h\<close>.  A load takes its
  data from the youngest older store to its address that is still in the store queue, or asks the L1
  cache; a store asks the cache after it has retired.  The cache is the model of theory \<open>Cache\<close>.
\<close>

section \<open>State\<close>

record ldstq =
  lq_size :: int
  lq_used :: int
  lq_list :: "nat list"

record lsunit =
  ls_ldq :: ldstq
  ls_stq :: ldstq
  ls_responses :: "nat list"
  ls_ldq_full :: int
  ls_stq_full :: int

definition new_ldstq :: "int \<Rightarrow> ldstq" where
  "new_ldstq n = \<lparr>lq_size = n, lq_used = 0, lq_list = []\<rparr>"

definition new_lsunit :: "int \<Rightarrow> int \<Rightarrow> lsunit" where
  "new_lsunit ldq stq = \<lparr>ls_ldq = new_ldstq ldq, ls_stq = new_ldstq stq, ls_responses = [],
     ls_ldq_full = 0, ls_stq_full = 0\<rparr>"

section \<open>Queues\<close>

definition lq_addInstruction :: "op_store \<Rightarrow> nat \<Rightarrow> ldstq \<Rightarrow> ldstq option" where
  "lq_addInstruction ops i q =
     do { assert_that (isLoad (ops i) \<or> isStore (ops i));
          Some (q\<lparr>lq_list := lq_list q @ [i], lq_used := lq_used q + 1\<rparr>) }"

definition completeInstruction :: "nat \<Rightarrow> op_store \<Rightarrow> op_store option" where
  "completeInstruction i ops =
     do { assert_that (do_status (ops i) = EXECUTING \<or> do_status (ops i) = SLEEP);
          Some (set_status i FINISHED (setFinish i True ops)) }"

text \<open>The loop pops the head while it is committed, sent and not younger than \<open>doneSN\<close>.\<close>

definition mem_op_done :: "op_store \<Rightarrow> u64 \<Rightarrow> nat \<Rightarrow> bool" where
  "mem_op_done ops doneSN i \<longleftrightarrow> do_status (ops i) = COMMITED \<and> do_sent (ops i) \<and> do_dyn_id (ops i) \<le> doneSN"

fun commit_mem_ops :: "op_store \<Rightarrow> u64 \<Rightarrow> nat list \<Rightarrow> int \<Rightarrow> nat list \<times> int" where
  "commit_mem_ops ops doneSN [] u = ([], u)"
| "commit_mem_ops ops doneSN (i # is) u =
     (if mem_op_done ops doneSN i then commit_mem_ops ops doneSN is (u - 1) else (i # is, u))"

definition commitMemOps :: "op_store \<Rightarrow> u64 \<Rightarrow> ldstq \<Rightarrow> ldstq" where
  "commitMemOps ops doneSN q =
     (let (l, u) = commit_mem_ops ops doneSN (lq_list q) (lq_used q) in q\<lparr>lq_list := l, lq_used := u\<rparr>)"

definition lq_ifFull :: "ldstq \<Rightarrow> bool" where
  "lq_ifFull q \<longleftrightarrow> lq_used q \<ge> lq_size q"

section \<open>The unit\<close>

definition ls_addInstruction :: "op_store \<Rightarrow> nat \<Rightarrow> lsunit \<Rightarrow> lsunit option" where
  "ls_addInstruction ops i u =
     do { u1 \<leftarrow> (if isLoad (ops i) then do { q \<leftarrow> lq_addInstruction ops i (ls_ldq u); Some (u\<lparr>ls_ldq := q\<rparr>) }
                else Some u);
          if isStore (ops i) then do { q \<leftarrow> lq_addInstruction ops i (ls_stq u1); Some (u1\<lparr>ls_stq := q\<rparr>) }
          else Some u1 }"

definition commitLoads :: "op_store \<Rightarrow> u64 \<Rightarrow> lsunit \<Rightarrow> lsunit" where
  "commitLoads ops doneSN u = u\<lparr>ls_ldq := commitMemOps ops doneSN (ls_ldq u)\<rparr>"

definition commitStores :: "op_store \<Rightarrow> u64 \<Rightarrow> lsunit \<Rightarrow> lsunit" where
  "commitStores ops doneSN u = u\<lparr>ls_stq := commitMemOps ops doneSN (ls_stq u)\<rparr>"

definition commitInstruction :: "op_store \<Rightarrow> u64 \<Rightarrow> lsunit \<Rightarrow> lsunit" where
  "commitInstruction ops seqNum u = commitStores ops seqNum (commitLoads ops seqNum u)"

definition ls_recvResponse :: "nat \<Rightarrow> lsunit \<Rightarrow> lsunit" where
  "ls_recvResponse resp u = u\<lparr>ls_responses := ls_responses u @ [resp]\<rparr>"

text \<open>\<open>wb\<close>: the loads that were answered complete, then every response is deleted.\<close>

fun wb_loop :: "nat list \<Rightarrow> txn_store \<times> op_store \<Rightarrow> (txn_store \<times> op_store) option" where
  "wb_loop [] s = Some s"
| "wb_loop (r # rs) (m, ops) =
     (case t_op (ts_txn m r) of
        None \<Rightarrow> wb_loop rs (delete_txn r m, ops)
      | Some i \<Rightarrow>
          if do_is_squashed (ops i) then wb_loop rs (delete_txn r m, ops)
          else do { ops1 \<leftarrow> completeInstruction i ops; wb_loop rs (delete_txn r m, ops1) })"

definition ls_wb :: "txn_store \<times> op_store \<times> lsunit \<Rightarrow> (txn_store \<times> op_store \<times> lsunit) option" where
  "ls_wb = (\<lambda>(m, ops, u).
     do { (m1, ops1) \<leftarrow> wb_loop (ls_responses u) (m, ops); Some (m1, ops1, u\<lparr>ls_responses := []\<rparr>) })"

definition getExecutingLoads :: "op_store \<Rightarrow> lsunit \<Rightarrow> nat" where
  "getExecutingLoads ops u = length (filter (\<lambda>i. do_status (ops i) = EXECUTING) (lq_list (ls_ldq u)))"

fun forward_all :: "nat list \<Rightarrow> op_store \<Rightarrow> op_store option" where
  "forward_all [] ops = Some ops"
| "forward_all (l # ls) ops =
     do { assert_that (do_status (ops l) = SLEEP);
          ops1 \<leftarrow> completeInstruction l ops;
          forward_all ls (setIsSent l True ops1) }"

definition doForwardData :: "nat \<Rightarrow> op_store \<Rightarrow> op_store option" where
  "doForwardData i ops =
     do { ops1 \<leftarrow> forward_all (do_forward_list (ops i)) ops;
          Some (upd_op i (\<lambda>p. p\<lparr>do_forward_list := []\<rparr>) ops1) }"

text \<open>\<open>forwardData\<close>: \<open>dynID\<close> is 0 as long as no store was found.\<close>

fun forward_scan ::
    "op_store \<Rightarrow> nat \<Rightarrow> nat list \<Rightarrow> nat option \<Rightarrow> u64 \<Rightarrow> nat option option" where
  "forward_scan ops i [] ret dynID = Some ret"
| "forward_scan ops i (s # ss) ret dynID =
     (if do_addr (ops s) = do_addr (ops i) \<and> do_dyn_id (ops s) < do_dyn_id (ops i)
      then do { assert_that (dynID = 0 \<or> do_dyn_id (ops s) \<noteq> dynID);
                if do_dyn_id (ops s) > dynID then forward_scan ops i ss (Some s) (do_dyn_id (ops s))
                else forward_scan ops i ss ret dynID }
      else forward_scan ops i ss ret dynID)"

definition forwardData :: "op_store \<Rightarrow> nat \<Rightarrow> lsunit \<Rightarrow> nat option option" where
  "forwardData ops i u = forward_scan ops i (lq_list (ls_stq u)) None 0"

text \<open>
  A request to the cache: the transaction is allocated first and deleted again when the cache has no
  port.  \<open>MemTransaction\<close> takes the identifier as an \<open>int\<close>.
\<close>

definition send_request ::
    "nat \<Rightarrow> txn_store \<times> op_store \<times> cache \<Rightarrow> (bool \<times> txn_store \<times> cache) option" where
  "send_request i = (\<lambda>(m, ops, c).
     (let (t, m1) = new_txn (MemTransaction (sint (ucast (do_dyn_id (ops i)) :: u32)) 0 (Some i)
                               (do_addr (ops i)) (isLoad (ops i)) False) m
      in if willAcceptTransaction m1 (Some t) c
         then do { c1 \<leftarrow> recvRequest m1 t c; Some (True, m1, c1) }
         else Some (False, delete_txn t m1, c)))"

text \<open>\<open>executeLoad\<close>, with store \<open>f\<close> to forward from and without one.\<close>

definition load_forward :: "nat \<Rightarrow> nat \<Rightarrow> op_store \<Rightarrow> op_store" where
  "load_forward i f ops =
     (let ops1 = upd_op i (\<lambda>p. p\<lparr>do_data_forwarded := True, do_status := SLEEP, do_forward_op := Some f\<rparr>) ops
      in if do_status (ops1 f) \<ge> READY
         then set_status i FINISHED (setIsSent i True (setFinish i True ops1))
         else upd_op f (\<lambda>p. p\<lparr>do_forward_list := do_forward_list p @ [i]\<rparr>) ops1)"

definition load_request ::
    "nat \<Rightarrow> txn_store \<times> op_store \<times> cache \<Rightarrow> (txn_store \<times> op_store \<times> cache) option" where
  "load_request i = (\<lambda>(m, ops, c).
     do { (ok, m1, c1) \<leftarrow> send_request i (m, ops, c);
          Some (m1, if ok then setIsSent i True (advance i ops) else ops, c1) })"

definition executeLoad ::
    "nat \<Rightarrow> lsunit \<Rightarrow> txn_store \<times> op_store \<times> cache \<Rightarrow> (txn_store \<times> op_store \<times> cache) option" where
  "executeLoad i u = (\<lambda>(m, ops, c).
     if do_status (ops i) = ISSUED then
       do { fwd \<leftarrow> forwardData ops i u;
            case fwd of
              Some f \<Rightarrow> Some (m, load_forward i f ops, c)
            | None \<Rightarrow> load_request i (m, ops, c) }
     else Some (m, ops, c))"

text \<open>\<open>executeStore\<close>: the status and the waiting loads, then the request of a retired store.\<close>

definition store_begin :: "nat \<Rightarrow> op_store \<Rightarrow> op_store option" where
  "store_begin i ops =
     (let ops1 = (if do_status (ops i) = ISSUED then advance i ops else ops)
      in if do_status (ops1 i) \<ge> READY then doForwardData i ops1 else Some ops1)"

definition store_send ::
    "nat \<Rightarrow> txn_store \<times> op_store \<times> cache \<Rightarrow> (txn_store \<times> op_store \<times> cache) option" where
  "store_send i = (\<lambda>(m, ops, c).
     if do_status (ops i) = COMMITED \<and> \<not> do_sent (ops i)
     then do { (ok, m1, c1) \<leftarrow> send_request i (m, ops, c);
               Some (m1, if ok then setIsSent i True ops else ops, c1) }
     else Some (m, ops, c))"

definition executeStore ::
    "nat \<Rightarrow> txn_store \<times> op_store \<times> cache \<Rightarrow> (txn_store \<times> op_store \<times> cache) option" where
  "executeStore i = (\<lambda>(m, ops, c). do { ops1 \<leftarrow> store_begin i ops; store_send i (m, ops1, c) })"

text \<open>\<open>canDispatch\<close> counts the refusals of the core.\<close>

definition ls_canDispatch :: "op_store \<Rightarrow> nat \<Rightarrow> bool \<Rightarrow> lsunit \<Rightarrow> bool \<times> lsunit" where
  "ls_canDispatch ops i cpu u =
     (if cpu then
        if isLoad (ops i) \<and> lq_ifFull (ls_ldq u) then (False, u\<lparr>ls_ldq_full := ls_ldq_full u + 1\<rparr>)
        else if isStore (ops i) \<and> lq_ifFull (ls_stq u) then (False, u\<lparr>ls_stq_full := ls_stq_full u + 1\<rparr>)
        else (True, u)
      else (\<not> lq_ifFull (ls_ldq u) \<and> \<not> lq_ifFull (ls_stq u), u))"

definition ls_issue :: "nat \<Rightarrow> op_store \<Rightarrow> op_store option" where
  "ls_issue i ops = do { assert_that (do_status (ops i) = ALLOCATED); Some (advance i ops) }"

section \<open>Status changes\<close>

lemma set_status_at [simp]: "do_status (set_status i st ops j) = (if j = i then st else do_status (ops j))"
  by (simp add: set_status_def upd_op_def)

lemma flags_status [simp]:
  "do_status (setFinish i b ops j) = do_status (ops j)" "do_status (setIsSent i b ops j) = do_status (ops j)"
  by (simp_all add: setFinish_def setIsSent_def upd_op_def)

lemma complete_steps:
  assumes "completeInstruction i ops = Some ops'"
  shows "late_steps ops ops'"
proof -
  have s: "do_status (ops i) = EXECUTING \<or> do_status (ops i) = SLEEP"
    and o: "ops' = set_status i FINISHED (setFinish i True ops)"
    using assms by (auto simp: completeInstruction_def)
  have "ISSUED \<le> do_status (setFinish i True ops i)" using s by auto
  then show ?thesis
    unfolding o by (intro late_steps_trans [OF _ set_finished_late]) simp_all
qed

lemma forward_all_steps: "forward_all ls ops = Some ops' \<Longrightarrow> late_steps ops ops'"
proof (induction ls arbitrary: ops)
  case (Cons l ls)
  then obtain ops1 where o: "completeInstruction l ops = Some ops1" "forward_all ls (setIsSent l True ops1) = Some ops'"
    by (auto split: bind_splits)
  show ?case
    by (rule late_steps_trans [OF complete_steps [OF o(1)] late_steps_trans [OF _ Cons.IH [OF o(2)]]]) simp
qed simp

lemma clear_list_steps: "late_steps ops (upd_op i (\<lambda>p. p\<lparr>do_forward_list := f p\<rparr>) ops)"
  by (rule late_steps_keep) (simp_all add: same_static_def)

lemma doForwardData_steps: "doForwardData i ops = Some ops' \<Longrightarrow> late_steps ops ops'"
  by (auto simp: doForwardData_def split: bind_splits
      intro!: late_steps_trans [OF forward_all_steps clear_list_steps])

lemma wb_loop_late: "wb_loop rs (m, ops) = Some (m', ops') \<Longrightarrow> late_steps ops ops'"
proof (induction rs arbitrary: m ops)
  case (Cons r rs)
  show ?case
  proof (cases "t_op (ts_txn m r)")
    case (Some i)
    with Cons.prems show ?thesis
      using Cons.IH late_steps_trans [OF complete_steps] by (fastforce split: if_splits bind_splits)
  qed (use Cons in simp)
qed simp

lemma store_begin_steps:
  assumes "store_begin i ops = Some ops'"
  shows "late_steps ops ops'"
proof (cases "do_status (ops i) = ISSUED")
  case True
  then have "late_steps ops (advance i ops)" by (auto simp: advance_set status_moves_def intro!: late_steps_set)
  moreover have "late_steps (advance i ops) ops'"
    using assms True doForwardData_steps by (auto simp: store_begin_def Let_def split: if_splits)
  ultimately show ?thesis by (rule late_steps_trans)
qed (use assms doForwardData_steps in \<open>auto simp: store_begin_def Let_def split: if_splits\<close>)

lemma store_send_steps: "store_send i (m, ops, c) = Some (m', ops', c') \<Longrightarrow> late_steps ops ops'"
  by (auto simp: store_send_def split: if_splits bind_splits)

lemma executeStore_steps:
  assumes "executeStore i (m, ops, c) = Some (m', ops', c')"
  shows "late_steps ops ops'"
proof -
  obtain ops1 where "store_begin i ops = Some ops1" "store_send i (m, ops1, c) = Some (m', ops', c')"
    using assms by (auto simp: executeStore_def split: bind_splits)
  then show ?thesis by (rule late_steps_trans [OF store_begin_steps store_send_steps])
qed

lemma load_forward_steps:
  assumes "do_status (ops i) = ISSUED"
  shows "late_steps ops (load_forward i g ops)"
proof -
  let ?o = "upd_op i (\<lambda>p. p\<lparr>do_data_forwarded := True, do_status := SLEEP, do_forward_op := Some g\<rparr>) ops"
  have a: "late_steps ops ?o"
    by (rule late_steps_upd) (use assms in \<open>simp_all add: same_static_def status_moves_def\<close>)
  have "late_steps ?o (setIsSent i True (setFinish i True ?o))"
    by (rule late_steps_trans [of _ "setFinish i True ?o"]) simp_all
  moreover have "late_steps (setIsSent i True (setFinish i True ?o))
      (set_status i FINISHED (setIsSent i True (setFinish i True ?o)))"
    by (rule set_finished_late) simp
  ultimately have b: "late_steps ?o (set_status i FINISHED (setIsSent i True (setFinish i True ?o)))"
    by (rule late_steps_trans)
  show ?thesis
    unfolding load_forward_def Let_def
    by (cases "do_status (?o g) \<ge> READY")
      (simp_all only: if_True if_False late_steps_trans [OF a b] late_steps_trans [OF a clear_list_steps])
qed

lemma load_request_steps:
  assumes "load_request i (m, ops, c) = Some (m', ops', c')" "do_status (ops i) = ISSUED"
  shows "late_steps ops ops'"
proof -
  have "ops' = ops \<or> ops' = setIsSent i True (advance i ops)"
    using assms(1) by (auto simp: load_request_def split: if_splits bind_splits)
  moreover have "late_steps ops (advance i ops)"
    using assms(2) by (auto simp: advance_set status_moves_def intro!: late_steps_set)
  then have "late_steps ops (setIsSent i True (advance i ops))" by (rule late_steps_trans) simp
  ultimately show ?thesis by auto
qed

lemma executeLoad_steps:
  assumes "executeLoad i u (m, ops, c) = Some (m', ops', c')"
  shows "late_steps ops ops'"
proof (cases "do_status (ops i) = ISSUED")
  case True
  then obtain fwd where f: "forwardData ops i u = Some fwd"
    using assms by (auto simp: executeLoad_def split: bind_splits)
  show ?thesis
  proof (cases fwd)
    case None
    then have "load_request i (m, ops, c) = Some (m', ops', c')"
      using assms True f by (simp add: executeLoad_def)
    then show ?thesis using True by (rule load_request_steps)
  next
    case (Some g)
    then have "ops' = load_forward i g ops" using assms True f by (simp add: executeLoad_def)
    then show ?thesis using True by (simp add: load_forward_steps)
  qed
qed (use assms in \<open>simp add: executeLoad_def\<close>)

section \<open>Occupancy\<close>

lemma commit_mem_ops_eq:
  "commit_mem_ops ops sn l u = (dropWhile (mem_op_done ops sn) l, u - int (length (takeWhile (mem_op_done ops sn) l)))"
  by (induction l arbitrary: u) auto

definition lq_ok :: "ldstq \<Rightarrow> bool" where
  "lq_ok q \<longleftrightarrow> lq_used q = int (length (lq_list q)) \<and> lq_used q \<le> lq_size q"

lemma commitMemOps_ok:
  assumes "lq_ok q"
  shows "lq_ok (commitMemOps ops sn q)"
proof -
  have "length (lq_list q) = length (takeWhile (mem_op_done ops sn) (lq_list q)) + length (dropWhile (mem_op_done ops sn) (lq_list q))"
    by (metis length_append takeWhile_dropWhile_id)
  with assms show ?thesis by (simp add: lq_ok_def commitMemOps_def commit_mem_ops_eq)
qed

section \<open>Store-to-load forwarding\<close>

text \<open>The stores a load may take its data from.\<close>

definition older_stores :: "op_store \<Rightarrow> nat \<Rightarrow> nat list \<Rightarrow> nat list" where
  "older_stores ops i l =
     filter (\<lambda>s. do_addr (ops s) = do_addr (ops i) \<and> do_dyn_id (ops s) < do_dyn_id (ops i)) l"

lemma forward_scan_spec:
  assumes "distinct (map (\<lambda>s. do_dyn_id (ops s)) (older_stores ops i l))"
    "\<forall>s\<in>set (older_stores ops i l). do_dyn_id (ops s) \<noteq> d \<or> d = 0"
    "r = None \<and> d = 0 \<or> (\<exists>s. r = Some s \<and> do_dyn_id (ops s) = d \<and> d \<noteq> 0)"
  shows "\<exists>r'. forward_scan ops i l r d = Some r' \<and>
    (r' = None \<longleftrightarrow> r = None \<and> (\<forall>s\<in>set (older_stores ops i l). do_dyn_id (ops s) = 0)) \<and>
    (\<forall>s. r' = Some s \<longrightarrow> (r = Some s \<or> s \<in> set (older_stores ops i l)) \<and> d \<le> do_dyn_id (ops s) \<and>
       do_dyn_id (ops s) \<noteq> 0 \<and> (\<forall>t\<in>set (older_stores ops i l). do_dyn_id (ops t) \<le> do_dyn_id (ops s)))"
  using assms
proof (induction l arbitrary: r d)
  case Nil
  then show ?case by (auto simp: older_stores_def)
next
  case (Cons s l)
  show ?case
  proof (cases "do_addr (ops s) = do_addr (ops i) \<and> do_dyn_id (ops s) < do_dyn_id (ops i)")
    case False
    then have o: "older_stores ops i (s # l) = older_stores ops i l" by (auto simp: older_stores_def)
    have "forward_scan ops i (s # l) r d = forward_scan ops i l r d"
      using False by (simp only: forward_scan.simps if_False)
    with Cons.IH [OF Cons.prems [unfolded o]] show ?thesis unfolding o by (simp only:)
  next
    case True
    then have o: "older_stores ops i (s # l) = s # older_stores ops i l" by (simp add: older_stores_def)
    have d: "distinct (map (\<lambda>s. do_dyn_id (ops s)) (older_stores ops i l))"
      "do_dyn_id (ops s) \<notin> (\<lambda>s. do_dyn_id (ops s)) ` set (older_stores ops i l)"
      "d = 0 \<or> do_dyn_id (ops s) \<noteq> d" "\<forall>s\<in>set (older_stores ops i l). do_dyn_id (ops s) \<noteq> d \<or> d = 0"
      using Cons.prems(1,2) by (auto simp: o)
    show ?thesis
    proof (cases "do_dyn_id (ops s) > d")
      case True
      then have f: "forward_scan ops i (s # l) r d = forward_scan ops i l (Some s) (do_dyn_id (ops s))"
        using \<open>do_addr (ops s) = do_addr (ops i) \<and> _\<close> d(3) by auto
      have "\<forall>t\<in>set (older_stores ops i l). do_dyn_id (ops t) \<noteq> do_dyn_id (ops s) \<or> do_dyn_id (ops s) = 0"
        using d(2) by (auto simp: rev_image_eqI)
      moreover have "do_dyn_id (ops s) \<noteq> 0" using True word_not_simps(1) by auto
      ultimately obtain r' where r': "forward_scan ops i l (Some s) (do_dyn_id (ops s)) = Some r'"
        "r' \<noteq> None" "\<forall>t. r' = Some t \<longrightarrow> (Some s = Some t \<or> t \<in> set (older_stores ops i l)) \<and>
           do_dyn_id (ops s) \<le> do_dyn_id (ops t) \<and> do_dyn_id (ops t) \<noteq> 0 \<and>
           (\<forall>u\<in>set (older_stores ops i l). do_dyn_id (ops u) \<le> do_dyn_id (ops t))"
        using Cons.IH [OF d(1), of "do_dyn_id (ops s)" "Some s"] by auto
      have "d \<le> do_dyn_id (ops t)" if "do_dyn_id (ops s) \<le> do_dyn_id (ops t)" for t
        using True that by simp
      with r' f \<open>do_dyn_id (ops s) \<noteq> 0\<close> show ?thesis by (auto simp: o)
    next
      case False
      then have f: "forward_scan ops i (s # l) r d = forward_scan ops i l r d"
        using \<open>do_addr (ops s) = do_addr (ops i) \<and> _\<close> d(3) by auto
      have z: "do_dyn_id (ops s) \<le> d" "d = 0 \<Longrightarrow> do_dyn_id (ops s) = 0"
        using False word_gt_0 [of "do_dyn_id (ops s)"] by auto
      obtain r' where r': "forward_scan ops i l r d = Some r'"
        "(r' = None \<longleftrightarrow> r = None \<and> (\<forall>s\<in>set (older_stores ops i l). do_dyn_id (ops s) = 0))"
        "\<forall>t. r' = Some t \<longrightarrow> (r = Some t \<or> t \<in> set (older_stores ops i l)) \<and> d \<le> do_dyn_id (ops t) \<and>
           do_dyn_id (ops t) \<noteq> 0 \<and> (\<forall>u\<in>set (older_stores ops i l). do_dyn_id (ops u) \<le> do_dyn_id (ops t))"
        using Cons.IH [OF d(1,4) Cons.prems(3)] by blast
      have n: "do_dyn_id (ops s) = 0" if "r = None" using that Cons.prems(3) z(2) by auto
      have "do_dyn_id (ops s) \<le> do_dyn_id (ops t)" if "d \<le> do_dyn_id (ops t)" for t
        using z(1) that by (rule order_trans)
      with r' f n show ?thesis by (auto simp: o)
    qed
  qed
qed

text \<open>
  C26. A load takes its data from the youngest older store to its address: when the stores to that
  address that are older than the load have distinct identifiers, the search never fails its
  assertion and returns the one with the largest identifier.  It finds none exactly when there is no
  such store, or its identifier is 0: the first instruction of the program never forwards.
\<close>

theorem forwards_youngest_older_store:
  assumes "distinct (map (\<lambda>s. do_dyn_id (ops s)) (older_stores ops i (lq_list (ls_stq u))))"
  shows "\<exists>r. forwardData ops i u = Some r \<and>
    (r = None \<longleftrightarrow> (\<forall>s\<in>set (older_stores ops i (lq_list (ls_stq u))). do_dyn_id (ops s) = 0)) \<and>
    (\<forall>s. r = Some s \<longrightarrow> s \<in> set (older_stores ops i (lq_list (ls_stq u))) \<and>
       (\<forall>t\<in>set (older_stores ops i (lq_list (ls_stq u))). do_dyn_id (ops t) \<le> do_dyn_id (ops s)))"
  unfolding forwardData_def using forward_scan_spec [OF assms, of 0 None] by auto

definition demo_mem_ops :: op_store where
  "demo_mem_ops i = (new_dyn_op (if i = 4 then OpLoad else OpStore) (of_nat i) []
       \<lparr>ic_runtime_cycles = 1, ic_ports = [], ic_fus = []\<rparr>)
     \<lparr>do_dyn_id := of_nat i, do_addr := (if i = 3 then 72 else 64),
      do_status := (if i = 4 then ISSUED else ALLOCATED)\<rparr>"

theorem forwards_youngest_older_store_witness:
  "forwardData demo_mem_ops 4 ((new_lsunit 8 8)\<lparr>ls_stq := \<lparr>lq_size = 8, lq_used = 4, lq_list = [1, 2, 3, 5]\<rparr>\<rparr>) = Some (Some 2)"
proof -
  let ?u = "(new_lsunit 8 8)\<lparr>ls_stq := \<lparr>lq_size = 8, lq_used = 4, lq_list = [1, 2, 3, 5]\<rparr>\<rparr>"
  have l: "lq_list (ls_stq ?u) = [1, 2, 3, 5]" by simp
  have o: "older_stores demo_mem_ops 4 [1, 2, 3, 5] = [1, 2]"
    by (simp add: older_stores_def demo_mem_ops_def)
  have i: "do_dyn_id (demo_mem_ops 1) = 1" "do_dyn_id (demo_mem_ops 2) = 2" by (simp_all add: demo_mem_ops_def)
  have "\<not> (2 :: u64) \<le> 1" by (simp add: word_le_nat_alt)
  have "distinct (map (\<lambda>s. do_dyn_id (demo_mem_ops s)) (older_stores demo_mem_ops 4 (lq_list (ls_stq ?u))))"
    unfolding l o using i by simp
  from forwards_youngest_older_store [OF this, unfolded l o] show ?thesis
    using i \<open>\<not> (2 :: u64) \<le> 1\<close> by auto
qed

end
