(* ===== verification/IssueUnit.thy ===== *)
theory IssueUnit
  imports Window
begin

text \<open>
  The issue unit of the core: \<open>sim/src/issue_unit.cpp\<close>, \<open>sim/include/issue_unit.h\<close> and the ports of
  \<open>sim/include/port.h\<close>.  A port has several functional units; a unit that is not pipelined is busy
  until its instruction finishes.  \<open>fuAvalMap\<close> counts, for every kind of unit, those that are free.

  The maps are total functions with the value 0 that \<open>operator[]\<close> inserts for a missing key; the
  check that a key is present before its count is decremented is subsumed by the check that the
  count is positive.  \<open>std::sort\<close> is the stable sort it is in libstdc++ for up to 16 elements.
\<close>

section \<open>Ports and units\<close>

record port =
  pt_id :: int
  pt_fus :: "int list"
  pt_usage :: "bool list"
  pt_release :: u64

definition new_port :: "int \<Rightarrow> int list \<Rightarrow> port" where
  "new_port portID fus = \<lparr>pt_id = portID, pt_fus = fus, pt_usage = replicate (length fus) False, pt_release = 0\<rparr>"

record issue_unit =
  iu_aval :: "int \<Rightarrow> int"
  iu_pipe :: "int \<Rightarrow> int"
  iu_naive :: bool
  iu_fuStall :: u64

definition count_fu :: "int list \<Rightarrow> issue_unit \<Rightarrow> int \<Rightarrow> issue_unit" where
  "count_fu notPipelined u fu =
     u\<lparr>iu_aval := (iu_aval u)(fu := iu_aval u fu + 1),
       iu_pipe := (iu_pipe u)(fu := (if fu \<in> set notPipelined then 0 else 1))\<rparr>"

definition new_issue_unit :: "(int \<times> int list) list \<Rightarrow> int list \<Rightarrow> bool \<Rightarrow> issue_unit" where
  "new_issue_unit portConfigs notPipelined naive =
     foldl (\<lambda>u config. foldl (count_fu notPipelined) u (snd config))
       \<lparr>iu_aval = (\<lambda>_. 0), iu_pipe = (\<lambda>_. 0), iu_naive = naive, iu_fuStall = 0\<rparr> portConfigs"

definition upd_port :: "nat \<Rightarrow> (port \<Rightarrow> port) \<Rightarrow> port list \<Rightarrow> port list" where
  "upd_port p f ports = ports[p := f (ports ! p)]"

text \<open>A unit is named by its port and its position there.\<close>

definition slot_fu :: "port list \<Rightarrow> nat \<times> nat \<Rightarrow> int" where
  "slot_fu ports = (\<lambda>(p, k). pt_fus (ports ! p) ! k)"

definition occupy_one :: "issue_unit \<Rightarrow> nat \<times> nat \<Rightarrow> port list \<Rightarrow> port list" where
  "occupy_one u s ports =
     (if iu_pipe u (slot_fu ports s) = 0
      then upd_port (fst s) (\<lambda>q. q\<lparr>pt_usage := (pt_usage q)[snd s := True]\<rparr>) ports else ports)"

definition occupyFU :: "issue_unit \<Rightarrow> nat list \<Rightarrow> nat list \<Rightarrow> port list \<Rightarrow> port list" where
  "occupyFU u fuIDs usingPorts = fold (occupy_one u) (zip usingPorts fuIDs)"

definition free_one :: "nat \<times> nat \<Rightarrow> issue_unit \<times> port list \<Rightarrow> issue_unit \<times> port list" where
  "free_one s = (\<lambda>(u, ports).
     (let fu = slot_fu ports s
      in if iu_pipe u fu = 0
         then (u\<lparr>iu_aval := (iu_aval u)(fu := iu_aval u fu + 1)\<rparr>,
               upd_port (fst s) (\<lambda>q. q\<lparr>pt_usage := (pt_usage q)[snd s := False]\<rparr>) ports)
         else (u, ports)))"

definition freeFU :: "nat list \<Rightarrow> nat list \<Rightarrow> issue_unit \<times> port list \<Rightarrow> issue_unit \<times> port list" where
  "freeFU fuIDs usingPorts = fold free_one (zip usingPorts fuIDs)"

section \<open>Finding a port\<close>

definition free_position :: "int \<Rightarrow> port \<Rightarrow> nat option" where
  "free_position fu q = find (\<lambda>k. pt_fus q ! k = fu \<and> \<not> pt_usage q ! k) [0..<length (pt_fus q)]"

fun getAvailablePort ::
    "issue_unit \<Rightarrow> port list \<Rightarrow> int \<Rightarrow> int list \<Rightarrow> nat list \<Rightarrow> int list \<Rightarrow> u64 \<Rightarrow> (nat \<times> nat) option" where
  "getAvailablePort u ports fu allowPorts [] occupied cycle = None"
| "getAvailablePort u ports fu allowPorts (p # ps) occupied cycle =
     (let q = ports ! p; rest = getAvailablePort u ports fu allowPorts ps occupied cycle
      in if pt_id q \<notin> set allowPorts then rest
         else if pt_id q \<in> set occupied then rest
         else if \<not> iu_naive u \<and> pt_release q > cycle then rest
         else case free_position fu q of Some k \<Rightarrow> Some (p, k) | None \<Rightarrow> rest)"

definition sortFUs :: "issue_unit \<Rightarrow> int list \<Rightarrow> int list" where
  "sortFUs u fus = sort_key (iu_aval u) fus"

text \<open>\<open>scheduleUops\<close>: the first free port of every micro-operation, all or none.\<close>

fun uop_port :: "port list \<Rightarrow> int list \<Rightarrow> int list \<Rightarrow> u64 \<Rightarrow> int list \<Rightarrow> int option option" where
  "uop_port ports tmp occupied cycle [] = Some None"
| "uop_port ports tmp occupied cycle (x # xs) =
     do { assert_that (0 \<le> x \<and> nat x < length ports \<and> x = pt_id (ports ! nat x));
          if x \<in> set tmp \<or> x \<in> set occupied \<or> pt_release (ports ! nat x) > cycle
          then uop_port ports tmp occupied cycle xs
          else Some (Some x) }"

fun uop_ports ::
    "port list \<Rightarrow> int list \<Rightarrow> u64 \<Rightarrow> (int \<times> int list) list \<Rightarrow> int list \<Rightarrow> int list option" where
  "uop_ports ports occupied cycle [] tmp = Some tmp"
| "uop_ports ports occupied cycle (mapping # ms) tmp =
     do { r \<leftarrow> uop_port ports tmp occupied cycle (snd mapping);
          uop_ports ports occupied cycle ms (case r of None \<Rightarrow> tmp | Some x \<Rightarrow> tmp @ [x]) }"

definition scheduleUops ::
    "issue_unit \<Rightarrow> dyn_op \<Rightarrow> int list \<Rightarrow> port list \<Rightarrow> u64 \<Rightarrow> (int list \<times> int list) option" where
  "scheduleUops u p occupied ports cycle =
     do { assert_that (\<not> iu_naive u);
          tmp \<leftarrow> uop_ports ports occupied cycle (do_port_mapping p) [];
          assert_that (length tmp \<le> length (do_port_mapping p));
          if length tmp = length (do_port_mapping p) then Some (tmp, occupied @ tmp)
          else Some ([], occupied) }"

section \<open>Scheduling\<close>

text \<open>
  The inner loop: the units of one alternative, with the units that are not pipelined collected in
  \<open>aval\<close> and the ports used so far in \<open>tmp\<close>.  The flag says whether all were found.
\<close>

fun find_units ::
    "issue_unit \<Rightarrow> port list \<Rightarrow> int list \<Rightarrow> nat list \<Rightarrow> u64 \<Rightarrow> int list
     \<Rightarrow> (nat \<times> nat) list \<times> int list \<Rightarrow> bool \<times> (nat \<times> nat) list \<times> int list" where
  "find_units u ports allow cands cycle [] (aval, tmp) = (True, aval, tmp)"
| "find_units u ports allow cands cycle (fu # fus) (aval, tmp) =
     (case getAvailablePort u ports fu allow cands tmp cycle of
        None \<Rightarrow> (False, aval, tmp)
      | Some s \<Rightarrow>
          find_units u ports allow cands cycle fus
            (if iu_pipe u fu = 0 then aval @ [s] else aval, tmp @ [pt_id (ports ! fst s)]))"

text \<open>The counts of the units taken, with the assertions of the loop.\<close>

fun take_units :: "port list \<Rightarrow> (nat \<times> nat) list \<Rightarrow> issue_unit \<Rightarrow> issue_unit option" where
  "take_units ports [] u = Some u"
| "take_units ports (s # ss) u =
     (let fu = slot_fu ports s
      in do { assert_that (iu_aval u fu > 0);
              take_units ports ss
                (if iu_pipe u fu = 0 then u\<lparr>iu_aval := (iu_aval u)(fu := iu_aval u fu - 1)\<rparr> else u) })"

record issue_state =
  is_unit :: issue_unit
  is_ports :: "port list"
  is_ops :: op_store
  is_occupied :: "int list"
  is_ready :: "nat list"
  is_used :: int

definition claim_units :: "nat \<Rightarrow> (nat \<times> nat) list \<Rightarrow> issue_state \<Rightarrow> issue_state option" where
  "claim_units i aval st =
     do { u \<leftarrow> take_units (is_ports st) aval (is_unit st);
          Some (st\<lparr>is_unit := u, is_ops := op_occupyFU i (map snd aval) (map fst aval) (is_ops st),
                   is_ports := occupyFU u (map snd aval) (map fst aval) (is_ports st)\<rparr>) }"

fun block_ports :: "u64 \<Rightarrow> (nat \<times> int) list \<Rightarrow> port list \<Rightarrow> port list" where
  "block_ports cycle [] ports = ports"
| "block_ports cycle ((p, stall) # ps) ports =
     block_ports cycle ps (upd_port p (\<lambda>q. q\<lparr>pt_release := cycle + word_of_int stall\<rparr>) ports)"

text \<open>The alternatives of the port model; what a failed one collected stays in \<open>aval\<close> and \<open>tmp\<close>.\<close>

fun try_ports ::
    "nat \<Rightarrow> int list \<Rightarrow> u64 \<Rightarrow> int list list \<Rightarrow> (nat \<times> nat) list \<times> int list \<Rightarrow> issue_state
     \<Rightarrow> (bool \<times> issue_state) option" where
  "try_ports i portIDs cycle [] acc st = Some (False, st)"
| "try_ports i portIDs cycle (fus # alts) acc st =
     (let p = is_ops st i; work = map nat portIDs;
          (ok, aval, tmp) = find_units (is_unit st) (is_ports st) (do_allow_ports p) work cycle
                              (sortFUs (is_unit st) fus) acc
      in if ok
         then do { let st1 = st\<lparr>is_occupied := is_occupied st @ portIDs,
                                is_ports := block_ports cycle (zip work (do_port_stall p)) (is_ports st)\<rparr>;
                   st2 \<leftarrow> claim_units i aval st1;
                   Some (True, st2) }
         else try_ports i portIDs cycle alts (aval, tmp) st)"

definition schedulePortModel :: "nat \<Rightarrow> u64 \<Rightarrow> issue_state \<Rightarrow> (bool \<times> issue_state) option" where
  "schedulePortModel i cycle st =
     do { (portIDs, occ) \<leftarrow> scheduleUops (is_unit st) (is_ops st i) (is_occupied st) (is_ports st) cycle;
          let st1 = st\<lparr>is_occupied := occ\<rparr>;
          if portIDs = [] then Some (False, st1)
          else try_ports i portIDs cycle (do_fus (is_ops st i)) ([], []) st1 }"

fun try_naive :: "nat \<Rightarrow> u64 \<Rightarrow> int list list \<Rightarrow> issue_state \<Rightarrow> (bool \<times> issue_state) option" where
  "try_naive i cycle [] st = Some (False, st)"
| "try_naive i cycle (fus # alts) st =
     (let (ok, aval, tmp) = find_units (is_unit st) (is_ports st) (do_allow_ports (is_ops st i))
                              [0..<length (is_ports st)] cycle (sortFUs (is_unit st) fus) ([], is_occupied st)
      in if ok
         then do { st1 \<leftarrow> claim_units i aval
                     (st\<lparr>is_occupied := is_occupied st @ map (\<lambda>s. pt_id (is_ports st ! fst s)) aval\<rparr>);
                   Some (True, st1) }
         else try_naive i cycle alts st)"

definition schedule :: "nat \<Rightarrow> u64 \<Rightarrow> issue_state \<Rightarrow> (bool \<times> issue_state) option" where
  "schedule i cycle st =
     (if iu_naive (is_unit st) then try_naive i cycle (do_fus (is_ops st i)) st
      else schedulePortModel i cycle st)"

section \<open>Issue\<close>

definition doIssue :: "nat \<Rightarrow> u64 \<Rightarrow> issue_state \<Rightarrow> issue_state option" where
  "doIssue i cycle st =
     (let st1 = (if do_status (is_ops st i) = ALLOCATED then st\<lparr>is_ops := advance i (is_ops st)\<rparr> else st)
      in do { (ok, st2) \<leftarrow> schedule i cycle st1;
              if ok
              then do { assert_that (do_status (is_ops st2 i) = READY);
                        Some (st2\<lparr>is_ops := upd_op i (\<lambda>p. p\<lparr>do_e := cycle\<rparr>) (advance i (is_ops st2)),
                                  is_ready := is_ready st2 @ [i]\<rparr>) }
              else Some (st2\<lparr>is_unit := (is_unit st2)\<lparr>iu_fuStall := iu_fuStall (is_unit st2) + 1\<rparr>\<rparr>) })"

fun issue_loop :: "u64 \<Rightarrow> nat list \<Rightarrow> issue_state \<Rightarrow> (nat list \<times> issue_state) option" where
  "issue_loop cycle [] st = Some ([], st)"
| "issue_loop cycle (i # q) st =
     do { st1 \<leftarrow> (if canIssue (is_ops st) i then doIssue i cycle st else Some st);
          let kept = (if do_status (is_ops st1 i) \<noteq> ISSUED then [i] else []);
          let st2 = (if do_status (is_ops st1 i) \<noteq> ISSUED then st1 else st1\<lparr>is_used := is_used st1 - 1\<rparr>);
          if length (is_occupied st2) = length (is_ports st2) then Some (kept @ q, st2)
          else do { (rest, st3) \<leftarrow> issue_loop cycle q st2; Some (kept @ rest, st3) } }"

text \<open>\<open>IssueUnit::issue\<close>: the queue that is left, and the state with the instructions issued.\<close>

definition issue_insns ::
    "u64 \<Rightarrow> nat list \<Rightarrow> issue_unit \<times> port list \<times> op_store \<times> int \<Rightarrow> (nat list \<times> issue_state) option" where
  "issue_insns cycle issueQueue = (\<lambda>(u, ports, ops, used).
     issue_loop cycle issueQueue
       \<lparr>is_unit = u, is_ports = ports, is_ops = ops, is_occupied = [], is_ready = [], is_used = used\<rparr>)"

section \<open>What issuing does to the instructions\<close>

lemma claim_units_simps:
  assumes "claim_units i aval st = Some st'"
  shows "is_ops st' = op_occupyFU i (map snd aval) (map fst aval) (is_ops st)" "is_used st' = is_used st"
    "is_ready st' = is_ready st" "is_occupied st' = is_occupied st"
  using assms by (auto simp: claim_units_def split: bind_splits)

text \<open>A schedule only writes the units of the instruction it is for.\<close>

definition only_units :: "nat \<Rightarrow> issue_state \<Rightarrow> issue_state \<Rightarrow> bool" where
  "only_units i st st' \<longleftrightarrow> is_used st' = is_used st \<and> is_ready st' = is_ready st \<and>
     (\<exists>xs ys. is_ops st' = is_ops st \<or> is_ops st' = op_occupyFU i xs ys (is_ops st))"

lemma claim_units_only: "claim_units i aval st = Some st' \<Longrightarrow> only_units i st st'"
  using claim_units_simps [of i aval st st'] by (auto simp: only_units_def)

lemma only_units_rebase:
  assumes "only_units i st1 st'" "is_used st1 = is_used st" "is_ready st1 = is_ready st" "is_ops st1 = is_ops st"
  shows "only_units i st st'"
  using assms by (simp add: only_units_def)

lemma try_ports_only: "try_ports i ids cycle alts acc st = Some (ok, st') \<Longrightarrow> only_units i st st'"
proof (induction i ids cycle alts acc st rule: try_ports.induct)
  case (2 i ids cycle fus alts acc st)
  obtain k aval tmp where f: "find_units (is_unit st) (is_ports st) (do_allow_ports (is_ops st i)) (map nat ids) cycle
      (sortFUs (is_unit st) fus) acc = (k, aval, tmp)" by (cases "find_units (is_unit st) (is_ports st)
        (do_allow_ports (is_ops st i)) (map nat ids) cycle (sortFUs (is_unit st) fus) acc") auto
  show ?case
  proof (cases k)
    case True
    then show ?thesis
      using 2 f by (auto simp: Let_def split: bind_splits intro: only_units_rebase [OF claim_units_only])
  next
    case False
    with 2 f show ?thesis by (simp add: Let_def)
  qed
qed (simp add: only_units_def)

lemma try_naive_only: "try_naive i cycle alts st = Some (ok, st') \<Longrightarrow> only_units i st st'"
proof (induction i cycle alts st rule: try_naive.induct)
  case (2 i cycle fus alts st)
  obtain k aval tmp where f: "find_units (is_unit st) (is_ports st) (do_allow_ports (is_ops st i)) [0..<length (is_ports st)]
      cycle (sortFUs (is_unit st) fus) ([], is_occupied st) = (k, aval, tmp)"
    by (cases "find_units (is_unit st) (is_ports st) (do_allow_ports (is_ops st i)) [0..<length (is_ports st)]
      cycle (sortFUs (is_unit st) fus) ([], is_occupied st)") auto
  show ?case
  proof (cases k)
    case True
    then show ?thesis
      using 2 f by (auto simp: Let_def split: bind_splits intro: only_units_rebase [OF claim_units_only])
  next
    case False
    with 2 f show ?thesis by (simp add: Let_def)
  qed
qed (simp add: only_units_def)

lemma schedule_only:
  assumes "schedule i cycle st = Some (ok, st')"
  shows "only_units i st st'"
proof (cases "iu_naive (is_unit st)")
  case True
  then show ?thesis using assms try_naive_only by (simp add: schedule_def)
next
  case False
  then obtain ids occ where "scheduleUops (is_unit st) (is_ops st i) (is_occupied st) (is_ports st) cycle = Some (ids, occ)"
    and r: "(if ids = [] then Some (False, st\<lparr>is_occupied := occ\<rparr>)
      else try_ports i ids cycle (do_fus (is_ops st i)) ([], []) (st\<lparr>is_occupied := occ\<rparr>)) = Some (ok, st')"
    using assms by (auto simp: schedule_def schedulePortModel_def Let_def split: bind_splits)
  show ?thesis
  proof (cases "ids = []")
    case True
    then show ?thesis using r by (auto simp: only_units_def)
  next
    case False
    with r have "only_units i (st\<lparr>is_occupied := occ\<rparr>) st'" using try_ports_only by simp
    then show ?thesis by (simp add: only_units_def)
  qed
qed

lemma occupy_status [simp]: "do_status (op_occupyFU i xs ys ops j) = do_status (ops j)"
  by (simp add: op_occupyFU_def upd_op_def)

lemma only_units_ops:
  assumes "only_units i st st'"
  shows "op_steps (is_ops st) (is_ops st')" "do_status (is_ops st' j) = do_status (is_ops st j)"
    "is_used st' = is_used st" "is_ready st' = is_ready st"
  using assms by (auto simp: only_units_def)

lemma doIssue_spec:
  assumes "doIssue i cycle st = Some st'" "deps_done (is_ops st) i"
  shows "op_steps (is_ops st) (is_ops st') \<and> is_used st' = is_used st \<and>
    (is_ready st' = is_ready st \<or> is_ready st' = is_ready st @ [i] \<and> do_status (is_ops st' i) = ISSUED)"
proof -
  let ?s = "if do_status (is_ops st i) = ALLOCATED then st\<lparr>is_ops := advance i (is_ops st)\<rparr> else st"
  obtain ok st2 where s: "schedule i cycle ?s = Some (ok, st2)"
    and r: "(if ok
              then do { assert_that (do_status (is_ops st2 i) = READY);
                        Some (st2\<lparr>is_ops := upd_op i (\<lambda>p. p\<lparr>do_e := cycle\<rparr>) (advance i (is_ops st2)),
                                  is_ready := is_ready st2 @ [i]\<rparr>) }
              else Some (st2\<lparr>is_unit := (is_unit st2)\<lparr>iu_fuStall := iu_fuStall (is_unit st2) + 1\<rparr>\<rparr>)) = Some st'"
    using assms(1) unfolding doIssue_def Let_def by (auto split: bind_splits)
  note o = only_units_ops [OF schedule_only [OF s]]
  have a: "op_steps (is_ops st) (is_ops ?s)"
    using assms(2) by (auto simp: advance_set status_moves_def intro!: op_steps_set)
  have b: "op_steps (is_ops st) (is_ops st2)" by (rule op_steps_trans [OF a o(1)])
  have u: "is_used ?s = is_used st" "is_ready ?s = is_ready st" by simp_all
  show ?thesis
  proof (cases ok)
    case False
    with r b o u show ?thesis by auto
  next
    case True
    then have t: "do_status (is_ops st2 i) = READY"
      "st' = st2\<lparr>is_ops := upd_op i (\<lambda>p. p\<lparr>do_e := cycle\<rparr>) (advance i (is_ops st2)), is_ready := is_ready st2 @ [i]\<rparr>"
      using r by auto
    have c: "op_steps (is_ops st2) (advance i (is_ops st2))"
      using t(1) by (auto simp: advance_set status_moves_def intro!: op_steps_set)
    have "op_steps (advance i (is_ops st2)) (is_ops st')"
      unfolding t(2) by (simp add: op_steps_keep same_static_def)
    with b c have "op_steps (is_ops st) (is_ops st')" by (blast intro: op_steps_trans)
    then show ?thesis using t o u by (auto simp: advance_def)
  qed
qed

lemma issue_loop_spec:
  assumes "issue_loop cycle q st = Some (rest, st')"
  shows "op_steps (is_ops st) (is_ops st') \<and> is_used st' = is_used st - int (length q - length rest) \<and>
    length rest \<le> length q \<and> set rest \<subseteq> set q \<and>
    (\<exists>new. is_ready st' = is_ready st @ new \<and> set new \<subseteq> set q \<and> (\<forall>i\<in>set new. ISSUED \<le> do_status (is_ops st' i)))"
  using assms
proof (induction cycle q st arbitrary: rest st' rule: issue_loop.induct)
  case (2 cycle i q st)
  obtain st1 where one: "(if canIssue (is_ops st) i then doIssue i cycle st else Some st) = Some st1"
    using "2.prems" by (auto split: bind_splits)
  have d: "op_steps (is_ops st) (is_ops st1) \<and> is_used st1 = is_used st \<and>
    (is_ready st1 = is_ready st \<or> is_ready st1 = is_ready st @ [i] \<and> do_status (is_ops st1 i) = ISSUED)"
    using one doIssue_spec canIssue_deps by (auto split: if_splits)
  let ?k = "if do_status (is_ops st1 i) \<noteq> ISSUED then [i] else []"
  let ?s = "if do_status (is_ops st1 i) \<noteq> ISSUED then st1 else st1\<lparr>is_used := is_used st1 - 1\<rparr>"
  have s: "is_ops ?s = is_ops st1" "is_ready ?s = is_ready st1"
    "is_used ?s = is_used st - (1 - int (length ?k))" "length ?k \<le> 1" "set ?k \<subseteq> {i}"
    using d by auto
  show ?case
  proof (cases "length (is_occupied ?s) = length (is_ports ?s)")
    case True
    have "rest = ?k @ q \<and> st' = ?s"
      using "2.prems" True unfolding issue_loop.simps one Let_def by simp
    with s d show ?thesis by auto
  next
    case False
    have "issue_loop cycle q ?s \<bind> (\<lambda>(rest, st3). Some (?k @ rest, st3)) = Some (rest, st')"
      using "2.prems" False unfolding issue_loop.simps one Let_def by simp
    then obtain r3 where r: "issue_loop cycle q ?s = Some (r3, st')" "rest = ?k @ r3"
      by (auto split: bind_splits)
    note IH = "2.IH" [OF one refl refl False r(1)]
    obtain new where new: "is_ready st' = is_ready ?s @ new" "set new \<subseteq> set q"
      "\<forall>i\<in>set new. ISSUED \<le> do_status (is_ops st' i)" using IH by blast
    have st: "op_steps (is_ops st1) (is_ops st')" using IH s(1) by simp
    have "ISSUED \<le> do_status (is_ops st' i)" if "do_status (is_ops st1 i) = ISSUED"
      using st that by (simp add: op_steps_def status_moves_def)
    then have "\<exists>new. is_ready st' = is_ready st @ new \<and> set new \<subseteq> set (i # q) \<and>
        (\<forall>i\<in>set new. ISSUED \<le> do_status (is_ops st' i))"
      using d new s(2) by (cases "is_ready st1 = is_ready st") auto
    moreover have "op_steps (is_ops st) (is_ops st')" using d st by (blast intro: op_steps_trans)
    ultimately show ?thesis using IH r(2) s d by auto
  qed
qed simp

section \<open>Accounting of the functional units\<close>

definition slots :: "dyn_op \<Rightarrow> (nat \<times> nat) list" where
  "slots p = zip (do_using_ports p) (do_using_fus p)"

definition all_slots :: "port list \<Rightarrow> (nat \<times> nat) set" where
  "all_slots ports = Sigma {..<length ports} (\<lambda>p. {..<length (pt_fus (ports ! p))})"

definition busy :: "port list \<Rightarrow> nat \<times> nat \<Rightarrow> bool" where
  "busy ports = (\<lambda>(p, k). pt_usage (ports ! p) ! k)"

definition free_units :: "port list \<Rightarrow> int \<Rightarrow> (nat \<times> nat) set" where
  "free_units ports fu = {s \<in> all_slots ports. slot_fu ports s = fu \<and> \<not> busy ports s}"

text \<open>
  Every busy unit is held by exactly one instruction, and the count of every kind that is not
  pipelined is the number of its free units.
\<close>

definition held_ok :: "(int \<Rightarrow> int) \<Rightarrow> port list \<Rightarrow> op_store \<Rightarrow> bool" where
  "held_ok pipe ports ops \<longleftrightarrow>
     (\<forall>i. distinct (slots (ops i)) \<and>
        (\<forall>s\<in>set (slots (ops i)). s \<in> all_slots ports \<and> pipe (slot_fu ports s) = 0 \<and> busy ports s)) \<and>
     (\<forall>i j. i \<noteq> j \<longrightarrow> set (slots (ops i)) \<inter> set (slots (ops j)) = {}) \<and>
     (\<forall>s\<in>all_slots ports. busy ports s \<longrightarrow> (\<exists>i. s \<in> set (slots (ops i))))"

definition counts_ok :: "issue_unit \<Rightarrow> port list \<Rightarrow> bool" where
  "counts_ok u ports \<longleftrightarrow> (\<forall>fu. iu_pipe u fu = 0 \<longrightarrow> iu_aval u fu = int (card (free_units ports fu)))"

definition ports_wf :: "port list \<Rightarrow> bool" where
  "ports_wf ports \<longleftrightarrow>
     (\<forall>p<length ports. pt_id (ports ! p) = int p \<and> length (pt_usage (ports ! p)) = length (pt_fus (ports ! p)))"

definition fu_ok :: "issue_unit \<Rightarrow> port list \<Rightarrow> op_store \<Rightarrow> bool" where
  "fu_ok u ports ops \<longleftrightarrow> ports_wf ports \<and> held_ok (iu_pipe u) ports ops \<and> counts_ok u ports"

definition same_ports :: "port list \<Rightarrow> port list \<Rightarrow> bool" where
  "same_ports ps qs \<longleftrightarrow> length ps = length qs \<and>
     (\<forall>p<length qs. pt_id (ps ! p) = pt_id (qs ! p) \<and> pt_fus (ps ! p) = pt_fus (qs ! p))"

lemma finite_all_slots [simp]: "finite (all_slots ports)"
  by (simp add: all_slots_def)

lemma finite_free_units [simp]: "finite (free_units ports fu)"
  by (rule finite_subset [OF _ finite_all_slots [of ports]]) (auto simp: free_units_def)

lemma same_portsD:
  assumes "same_ports ps qs"
  shows "all_slots ps = all_slots qs" "s \<in> all_slots qs \<Longrightarrow> slot_fu ps s = slot_fu qs s"
  using assms by (auto simp: same_ports_def all_slots_def slot_fu_def)

text \<open>Marking one unit.\<close>

definition mark :: "nat \<times> nat \<Rightarrow> bool \<Rightarrow> port list \<Rightarrow> port list" where
  "mark s b ports = upd_port (fst s) (\<lambda>q. q\<lparr>pt_usage := (pt_usage q)[snd s := b]\<rparr>) ports"

lemma mark_props:
  assumes "ports_wf ports" "s \<in> all_slots ports"
  shows "same_ports (mark s b ports) ports" "ports_wf (mark s b ports)"
    "t \<in> all_slots ports \<Longrightarrow> busy (mark s b ports) t = (if t = s then b else busy ports t)"
  using assms
  by (auto simp: mark_def upd_port_def same_ports_def ports_wf_def all_slots_def busy_def nth_list_update
      split: if_split_asm)

lemma free_units_mark:
  assumes "ports_wf ports" "s \<in> all_slots ports"
  shows "free_units (mark s b ports) fu =
    (if slot_fu ports s = fu then if b then free_units ports fu - {s} else insert s (free_units ports fu)
     else free_units ports fu)"
proof (rule set_eqI)
  fix x
  note m = mark_props [OF assms, where b = b]
  have "x \<in> free_units (mark s b ports) fu \<longleftrightarrow>
      x \<in> all_slots ports \<and> slot_fu ports x = fu \<and> \<not> (if x = s then b else busy ports x)"
    using m(3) [of x] same_portsD(1) [OF m(1)] same_portsD(2) [OF m(1), of x] by (auto simp: free_units_def)
  then show "x \<in> free_units (mark s b ports) fu \<longleftrightarrow>
      x \<in> (if slot_fu ports s = fu then if b then free_units ports fu - {s} else insert s (free_units ports fu)
     else free_units ports fu)"
    using assms(2) by (auto simp: free_units_def)
qed

lemma same_ports_refl [simp]: "same_ports ps ps"
  by (simp add: same_ports_def)

lemma same_ports_trans: "same_ports a b \<Longrightarrow> same_ports b c \<Longrightarrow> same_ports a c"
  by (simp add: same_ports_def)

text \<open>Taking the units of a list: first the counts, then the marks.\<close>

definition takes :: "port list \<Rightarrow> (nat \<times> nat) list \<Rightarrow> int \<Rightarrow> nat" where
  "takes ports ss fu = length (filter (\<lambda>s. slot_fu ports s = fu) ss)"

lemma take_units_spec:
  assumes "\<forall>s\<in>set ss. iu_pipe u (slot_fu ports s) = 0"
    "\<forall>fu. iu_pipe u fu = 0 \<longrightarrow> int (takes ports ss fu) \<le> iu_aval u fu"
  shows "\<exists>u'. take_units ports ss u = Some u' \<and> iu_pipe u' = iu_pipe u \<and> iu_naive u' = iu_naive u \<and>
    (\<forall>fu. iu_pipe u fu = 0 \<longrightarrow> iu_aval u' fu = iu_aval u fu - int (takes ports ss fu))"
  using assms
proof (induction ss arbitrary: u)
  case Nil
  then show ?case by (simp add: takes_def)
next
  case (Cons s ss)
  let ?f = "slot_fu ports s"
  let ?u = "u\<lparr>iu_aval := (iu_aval u)(?f := iu_aval u ?f - 1)\<rparr>"
  have p: "iu_pipe u ?f = 0" "int (takes ports (s # ss) ?f) \<le> iu_aval u ?f" using Cons.prems by auto
  then have a: "iu_aval u ?f > 0" by (simp add: takes_def)
  have "\<forall>fu. iu_pipe ?u fu = 0 \<longrightarrow> int (takes ports ss fu) \<le> iu_aval ?u fu"
    using Cons.prems(2) by (auto simp: takes_def split: if_splits)
  then obtain u' where "take_units ports ss ?u = Some u'" "iu_pipe u' = iu_pipe u" "iu_naive u' = iu_naive u"
    "\<forall>fu. iu_pipe u fu = 0 \<longrightarrow> iu_aval u' fu = iu_aval ?u fu - int (takes ports ss fu)"
    using Cons.IH [of ?u] Cons.prems(1) by auto
  then show ?case using p a by (auto simp: Let_def takes_def)
qed

lemma occupyFU_spec:
  assumes "ports_wf ports" "set ss \<subseteq> all_slots ports" "\<forall>s\<in>set ss. iu_pipe u (slot_fu ports s) = 0"
  shows "same_ports (occupyFU u (map snd ss) (map fst ss) ports) ports \<and>
    ports_wf (occupyFU u (map snd ss) (map fst ss) ports) \<and>
    (\<forall>t\<in>all_slots ports. busy (occupyFU u (map snd ss) (map fst ss) ports) t \<longleftrightarrow> t \<in> set ss \<or> busy ports t)"
  using assms
proof (induction ss arbitrary: ports)
  case (Cons s ss)
  have z: "zip (map fst ss) (map snd ss) = ss" for ss :: "(nat \<times> nat) list" by (rule zip_map_fst_snd)
  have s: "s \<in> all_slots ports" "iu_pipe u (slot_fu ports s) = 0" using Cons.prems by auto
  have e: "occupyFU u (map snd (s # ss)) (map fst (s # ss)) ports =
      occupyFU u (map snd ss) (map fst ss) (mark s True ports)"
    using s by (simp add: occupyFU_def z occupy_one_def mark_def)
  note m = mark_props [OF Cons.prems(1) s(1), where b = True]
  note sp = same_portsD [OF m(1)]
  have "same_ports (occupyFU u (map snd ss) (map fst ss) (mark s True ports)) (mark s True ports) \<and>
    ports_wf (occupyFU u (map snd ss) (map fst ss) (mark s True ports)) \<and>
    (\<forall>t\<in>all_slots (mark s True ports). busy (occupyFU u (map snd ss) (map fst ss) (mark s True ports)) t
       \<longleftrightarrow> t \<in> set ss \<or> busy (mark s True ports) t)"
    by (rule Cons.IH) (use Cons.prems sp m in auto)
  then show ?case unfolding e using m sp by (auto intro: same_ports_trans)
qed (simp add: occupyFU_def)

lemma takes_card: "distinct ss \<Longrightarrow> takes ports ss fu = card {s \<in> set ss. slot_fu ports s = fu}"
  by (simp add: takes_def flip: distinct_card)

lemma free_units_after:
  assumes "same_ports ports' ports" "\<forall>t\<in>all_slots ports. busy ports' t \<longleftrightarrow> t \<in> X \<or> busy ports t"
  shows "free_units ports' fu = free_units ports fu - {s \<in> X. slot_fu ports s = fu}"
proof (rule set_eqI)
  fix x show "x \<in> free_units ports' fu \<longleftrightarrow> x \<in> free_units ports fu - {s \<in> X. slot_fu ports s = fu}"
    using assms(2) same_portsD(1) [OF assms(1)] same_portsD(2) [OF assms(1), of x] by (auto simp: free_units_def)
qed

lemma slots_occupy [simp]:
  "slots (op_occupyFU i (map snd ss) (map fst ss) ops j) = (if j = i then ss else slots (ops j))"
  using zip_map_fst_snd [of ss] by (simp add: slots_def op_occupyFU_def upd_op_def)

lemma held_ok_ports:
  assumes "same_ports ports' ports"
  shows "held_ok pipe ports' ops \<longleftrightarrow>
     (\<forall>i. distinct (slots (ops i)) \<and>
        (\<forall>s\<in>set (slots (ops i)). s \<in> all_slots ports \<and> pipe (slot_fu ports s) = 0 \<and> busy ports' s)) \<and>
     (\<forall>i j. i \<noteq> j \<longrightarrow> set (slots (ops i)) \<inter> set (slots (ops j)) = {}) \<and>
     (\<forall>s\<in>all_slots ports. busy ports' s \<longrightarrow> (\<exists>i. s \<in> set (slots (ops i))))"
proof -
  note d = same_portsD [OF assms]
  have "(s \<in> all_slots ports' \<and> pipe (slot_fu ports' s) = 0 \<and> busy ports' s) \<longleftrightarrow>
      (s \<in> all_slots ports \<and> pipe (slot_fu ports s) = 0 \<and> busy ports' s)" for s
    using d(1) d(2) [of s] by auto
  then show ?thesis by (simp add: held_ok_def d(1))
qed

lemma claim_ok:
  assumes "fu_ok u ports ops" "slots (ops i) = []" "distinct ss"
    "\<forall>s\<in>set ss. s \<in> all_slots ports \<and> \<not> busy ports s \<and> iu_pipe u (slot_fu ports s) = 0"
  shows "\<exists>u'. take_units ports ss u = Some u' \<and> iu_pipe u' = iu_pipe u \<and> iu_naive u' = iu_naive u \<and>
    same_ports (occupyFU u' (map snd ss) (map fst ss) ports) ports \<and>
    fu_ok u' (occupyFU u' (map snd ss) (map fst ss) ports) (op_occupyFU i (map snd ss) (map fst ss) ops)"
proof -
  have w: "ports_wf ports" and h: "held_ok (iu_pipe u) ports ops" and c: "counts_ok u ports"
    using assms(1) by (simp_all add: fu_ok_def)
  have sub: "{s \<in> set ss. slot_fu ports s = fu} \<subseteq> free_units ports fu" for fu
    using assms(4) by (auto simp: free_units_def)
  have le: "takes ports ss fu \<le> card (free_units ports fu)" for fu
    using card_mono [OF finite_free_units sub] by (simp add: takes_card [OF assms(3)])
  obtain u' where t: "take_units ports ss u = Some u'" "iu_pipe u' = iu_pipe u" "iu_naive u' = iu_naive u"
    "\<forall>fu. iu_pipe u fu = 0 \<longrightarrow> iu_aval u' fu = iu_aval u fu - int (takes ports ss fu)"
    using take_units_spec [of ss u ports] assms(4) c le by (auto simp: counts_ok_def)
  let ?p = "occupyFU u' (map snd ss) (map fst ss) ports"
  have o: "same_ports ?p ports" "ports_wf ?p" "\<forall>t\<in>all_slots ports. busy ?p t \<longleftrightarrow> t \<in> set ss \<or> busy ports t"
    using occupyFU_spec [OF w, of ss u'] assms(4) t(2) by auto
  have "counts_ok u' ?p"
    using c t(2,4) takes_card [OF assms(3), of ports] card_Diff_subset [OF _ sub] le
    by (auto simp: counts_ok_def free_units_after [OF o(1,3)])
  moreover have "held_ok (iu_pipe u') ?p (op_occupyFU i (map snd ss) (map fst ss) ops)"
  proof -
    have b: "busy ?p s \<longleftrightarrow> s \<in> set ss \<or> busy ports s" if "s \<in> all_slots ports" for s using o(3) that by blast
    have f: "set ss \<inter> set (slots (ops j)) = {}" for j
      using h assms(4) by (auto simp: held_ok_def)
    show ?thesis
      unfolding held_ok_ports [OF o(1)]
    proof (intro conjI allI ballI impI)
      fix j show "distinct (slots (op_occupyFU i (map snd ss) (map fst ss) ops j))"
        using h assms(3) by (simp add: held_ok_def)
      fix s assume s: "s \<in> set (slots (op_occupyFU i (map snd ss) (map fst ss) ops j))"
      then have "s \<in> set ss \<or> s \<in> set (slots (ops j))" by (auto split: if_splits)
      then show "s \<in> all_slots ports" "iu_pipe u' (slot_fu ports s) = 0" "busy ?p s"
        using h assms(4) t(2) b [of s] by (auto simp: held_ok_def)
    next
      fix j k :: nat assume "j \<noteq> k"
      then show "set (slots (op_occupyFU i (map snd ss) (map fst ss) ops j)) \<inter>
          set (slots (op_occupyFU i (map snd ss) (map fst ss) ops k)) = {}"
        using h f by (auto simp: held_ok_def)
    next
      fix s assume "s \<in> all_slots ports" "busy ?p s"
      then show "\<exists>j. s \<in> set (slots (op_occupyFU i (map snd ss) (map fst ss) ops j))"
      proof (cases "s \<in> set ss")
        case True
        then show ?thesis by (intro exI [of _ i]) simp
      next
        case False
        then have "busy ports s" using b [of s] \<open>s \<in> all_slots ports\<close> \<open>busy ?p s\<close> by simp
        then obtain j where j: "s \<in> set (slots (ops j))" using h \<open>s \<in> all_slots ports\<close> by (auto simp: held_ok_def)
        then have "j \<noteq> i" using assms(2) by auto
        with j show ?thesis by (intro exI [of _ j]) simp
      qed
    qed
  qed
  ultimately show ?thesis using t(1-3) o by (auto simp: fu_ok_def)
qed

lemma freeFU_spec:
  assumes "ports_wf ports" "distinct ss"
    "\<forall>s\<in>set ss. s \<in> all_slots ports \<and> busy ports s \<and> iu_pipe u (slot_fu ports s) = 0"
    "freeFU (map snd ss) (map fst ss) (u, ports) = (u', ports')"
  shows "same_ports ports' ports \<and> ports_wf ports' \<and> iu_pipe u' = iu_pipe u \<and> iu_naive u' = iu_naive u \<and>
    (\<forall>t\<in>all_slots ports. busy ports' t \<longleftrightarrow> t \<notin> set ss \<and> busy ports t) \<and>
    (\<forall>fu. iu_aval u' fu - int (card (free_units ports' fu)) = iu_aval u fu - int (card (free_units ports fu)))"
  using assms
proof (induction ss arbitrary: ports u)
  case (Cons s ss)
  let ?f = "slot_fu ports s"
  let ?u = "u\<lparr>iu_aval := (iu_aval u)(?f := iu_aval u ?f + 1)\<rparr>"
  have z: "zip (map fst ss) (map snd ss) = ss" for ss :: "(nat \<times> nat) list" by (rule zip_map_fst_snd)
  have s: "s \<in> all_slots ports" "iu_pipe u ?f = 0" "busy ports s" using Cons.prems by auto
  have e: "freeFU (map snd ss) (map fst ss) (?u, mark s False ports) = (u', ports')"
    using Cons.prems(4) s by (simp add: freeFU_def z free_one_def mark_def Let_def)
  note m = mark_props [OF Cons.prems(1) s(1), where b = False]
  note sp = same_portsD [OF m(1)]
  have a: "\<forall>t\<in>set ss. t \<in> all_slots (mark s False ports) \<and> busy (mark s False ports) t \<and>
      iu_pipe ?u (slot_fu (mark s False ports) t) = 0"
    using Cons.prems(2,3) sp m(3) by auto
  have IH: "same_ports ports' (mark s False ports)" "ports_wf ports'" "iu_pipe u' = iu_pipe u" "iu_naive u' = iu_naive u"
    "\<forall>t\<in>all_slots (mark s False ports). busy ports' t \<longleftrightarrow> t \<notin> set ss \<and> busy (mark s False ports) t"
    "\<forall>fu. iu_aval u' fu - int (card (free_units ports' fu)) =
       iu_aval ?u fu - int (card (free_units (mark s False ports) fu))"
    using Cons.IH [OF m(2) _ a e] Cons.prems(2) by simp_all
  have n: "s \<notin> free_units ports ?f" using s(3) by (simp add: free_units_def)
  have "iu_aval ?u fu - int (card (free_units (mark s False ports) fu)) = iu_aval u fu - int (card (free_units ports fu))" for fu
    using n by (simp add: free_units_mark [OF Cons.prems(1) s(1)])
  then show ?case
    using IH m(1) m(3) sp(1) by (auto intro: same_ports_trans)
qed (simp add: freeFU_def)

lemma free_ok:
  assumes "fu_ok u ports ops" "freeFU (do_using_fus (ops i)) (do_using_ports (ops i)) (u, ports) = (u', ports')"
  shows "fu_ok u' ports' (op_freeFU i ops) \<and> same_ports ports' ports \<and> iu_pipe u' = iu_pipe u \<and> iu_naive u' = iu_naive u"
proof -
  have w: "ports_wf ports" and h: "held_ok (iu_pipe u) ports ops" and c: "counts_ok u ports"
    using assms(1) by (simp_all add: fu_ok_def)
  let ?ss = "slots (ops i)"
  have "freeFU (map snd ?ss) (map fst ?ss) (u, ports) = (u', ports')"
    using assms(2) by (simp add: slots_def freeFU_def zip_map_fst_snd)
  then have f: "same_ports ports' ports" "ports_wf ports'" "iu_pipe u' = iu_pipe u" "iu_naive u' = iu_naive u"
    "\<forall>t\<in>all_slots ports. busy ports' t \<longleftrightarrow> t \<notin> set ?ss \<and> busy ports t"
    "\<forall>fu. iu_aval u' fu - int (card (free_units ports' fu)) = iu_aval u fu - int (card (free_units ports fu))"
    using freeFU_spec [OF w, of ?ss u] h by (simp_all add: held_ok_def)
  have s: "slots (op_freeFU i ops j) = (if j = i then [] else slots (ops j))" for j
    by (simp add: slots_def op_freeFU_def upd_op_def)
  have "counts_ok u' ports'" using c f(3,6) unfolding counts_ok_def by (metis eq_iff_diff_eq_0)
  moreover have "held_ok (iu_pipe u') ports' (op_freeFU i ops)"
    unfolding held_ok_ports [OF f(1)] s f(3)
  proof (intro conjI allI ballI impI)
    fix j show "distinct (if j = i then [] else slots (ops j))" using h by (simp add: held_ok_def)
    fix x assume x: "x \<in> set (if j = i then [] else slots (ops j))"
    then have j: "j \<noteq> i" "x \<in> set (slots (ops j))" by (auto split: if_splits)
    then show "x \<in> all_slots ports" "iu_pipe u (slot_fu ports x) = 0" using h by (auto simp: held_ok_def)
    moreover have "set (slots (ops j)) \<inter> set ?ss = {}" using h j(1) by (simp add: held_ok_def)
    then have "x \<notin> set ?ss" using j(2) by auto
    moreover have "busy ports x" using h j(2) by (auto simp: held_ok_def)
    ultimately show "busy ports' x" using f(5) by simp
  next
    fix j k :: nat assume "j \<noteq> k"
    then show "set (if j = i then [] else slots (ops j)) \<inter> set (if k = i then [] else slots (ops k)) = {}"
      using h by (auto simp: held_ok_def)
  next
    fix x assume "x \<in> all_slots ports" "busy ports' x"
    with f(5) h obtain j where "x \<in> set (slots (ops j))" "x \<notin> set ?ss" by (auto simp: held_ok_def)
    then show "\<exists>j. x \<in> set (if j = i then [] else slots (ops j))" by (intro exI [of _ j]) auto
  qed
  ultimately show ?thesis using f by (simp add: fu_ok_def)
qed

section \<open>Issuing never aborts\<close>

lemma free_position_spec:
  assumes "free_position fu q = Some k"
  shows "k < length (pt_fus q) \<and> pt_fus q ! k = fu \<and> \<not> pt_usage q ! k"
  using assms by (auto simp: free_position_def find_Some_iff)

lemma getAvailablePort_spec:
  "getAvailablePort u ports fu allow cands occ cycle = Some (p, k) \<Longrightarrow>
     p \<in> set cands \<and> pt_id (ports ! p) \<notin> set occ \<and> k < length (pt_fus (ports ! p)) \<and>
     pt_fus (ports ! p) ! k = fu \<and> \<not> pt_usage (ports ! p) ! k"
  by (induction cands) (auto simp: Let_def split: if_splits option.splits dest: free_position_spec)

definition collected :: "issue_unit \<Rightarrow> port list \<Rightarrow> (nat \<times> nat) list \<Rightarrow> int list \<Rightarrow> bool" where
  "collected u ports aval tmp \<longleftrightarrow> distinct aval \<and>
     (\<forall>s\<in>set aval. s \<in> all_slots ports \<and> \<not> busy ports s \<and> iu_pipe u (slot_fu ports s) = 0 \<and>
        pt_id (ports ! fst s) \<in> set tmp)"

lemma find_units_spec:
  assumes "find_units u ports allow cands cycle fus (aval, tmp) = (ok, aval', tmp')"
    "set cands \<subseteq> {..<length ports}" "collected u ports aval tmp"
  shows "collected u ports aval' tmp'"
  using assms
proof (induction fus arbitrary: aval tmp)
  case (Cons fu fus)
  show ?case
  proof (cases "getAvailablePort u ports fu allow cands tmp cycle")
    case (Some s)
    obtain p k where s: "s = (p, k)" by (cases s)
    note g = getAvailablePort_spec [OF Some [unfolded s]]
    let ?a = "if iu_pipe u fu = 0 then aval @ [s] else aval"
    have "collected u ports ?a (tmp @ [pt_id (ports ! fst s)])"
      using Cons.prems(2,3) g by (auto simp: collected_def s all_slots_def busy_def slot_fu_def)
    with Cons.IH Cons.prems(1,2) Some show ?thesis by auto
  qed (use Cons in simp)
qed simp

lemma block_ports_same:
  "same_ports (block_ports cycle bs ports) ports \<and> (\<forall>p<length ports. pt_usage (block_ports cycle bs ports ! p) = pt_usage (ports ! p))"
proof (induction cycle bs ports rule: block_ports.induct)
  case (2 cycle p stall ps ports)
  let ?u = "upd_port p (\<lambda>q. q\<lparr>pt_release := cycle + word_of_int stall\<rparr>) ports"
  have "same_ports ?u ports" "\<forall>p<length ports. pt_usage (?u ! p) = pt_usage (ports ! p)" "length ?u = length ports"
    by (cases "p < length ports"; auto simp: upd_port_def same_ports_def nth_list_update)+
  with 2 show ?case by (auto intro: same_ports_trans)
qed simp

lemma busy_cong:
  assumes "same_ports ports' ports" "\<forall>p<length ports. pt_usage (ports' ! p) = pt_usage (ports ! p)" "s \<in> all_slots ports"
  shows "busy ports' s = busy ports s"
  using assms(2,3) by (auto simp: all_slots_def busy_def)

lemma usage_kept:
  assumes "same_ports ports' ports" "\<forall>p<length ports. pt_usage (ports' ! p) = pt_usage (ports ! p)"
  shows "fu_ok u ports ops \<Longrightarrow> fu_ok u ports' ops" "collected u ports aval tmp \<Longrightarrow> collected u ports' aval tmp"
proof -
  note b = busy_cong [OF assms] and d = same_portsD [OF assms(1)]
  have f: "free_units ports' fu = free_units ports fu" for fu
    using free_units_after [OF assms(1), of "{}"] b by simp
  have w: "ports_wf ports' = ports_wf ports" using assms by (simp add: ports_wf_def same_ports_def)
  have l: "length ports' = length ports" "p < length ports \<Longrightarrow> pt_id (ports' ! p) = pt_id (ports ! p)" for p
    using assms(1) by (simp_all add: same_ports_def)
  have p: "s \<in> all_slots ports \<Longrightarrow> pt_id (ports' ! fst s) = pt_id (ports ! fst s)" for s
    using l(2) [of "fst s"] by (auto simp: all_slots_def)
  show "fu_ok u ports ops \<Longrightarrow> fu_ok u ports' ops"
    using b unfolding fu_ok_def w held_ok_ports [OF assms(1)] counts_ok_def f by (auto simp: held_ok_def)
  show "collected u ports aval tmp \<Longrightarrow> collected u ports' aval tmp"
    using b d p by (auto simp: collected_def)
qed

definition mapped_ok :: "nat \<Rightarrow> dyn_op \<Rightarrow> bool" where
  "mapped_ok n p \<longleftrightarrow> (\<forall>mp\<in>set (do_port_mapping p). \<forall>x\<in>set (snd mp). 0 \<le> x \<and> nat x < n)"

lemma uop_port_total:
  assumes "ports_wf ports" "\<forall>x\<in>set xs. 0 \<le> x \<and> nat x < length ports"
  shows "\<exists>r. uop_port ports tmp occ cycle xs = Some r \<and> (\<forall>x. r = Some x \<longrightarrow> 0 \<le> x \<and> nat x < length ports)"
  using assms by (induction xs) (auto simp: ports_wf_def)

lemma uop_ports_total:
  assumes "ports_wf ports" "\<forall>mp\<in>set ms. \<forall>x\<in>set (snd mp). 0 \<le> x \<and> nat x < length ports"
    "\<forall>x\<in>set tmp. 0 \<le> x \<and> nat x < length ports"
  shows "\<exists>r. uop_ports ports occ cycle ms tmp = Some r \<and> length r \<le> length tmp + length ms \<and>
    (\<forall>x\<in>set r. 0 \<le> x \<and> nat x < length ports)"
  using assms(2,3)
proof (induction ms arbitrary: tmp)
  case (Cons mp ms)
  obtain r where r: "uop_port ports tmp occ cycle (snd mp) = Some r" "\<forall>x. r = Some x \<longrightarrow> 0 \<le> x \<and> nat x < length ports"
    using uop_port_total [OF assms(1), of "snd mp" tmp occ cycle] Cons.prems(1) by auto
  let ?t = "case r of None \<Rightarrow> tmp | Some x \<Rightarrow> tmp @ [x]"
  have "\<forall>x\<in>set ?t. 0 \<le> x \<and> nat x < length ports" using r(2) Cons.prems(2) by (cases r) auto
  then obtain r' where "uop_ports ports occ cycle ms ?t = Some r'" "length r' \<le> length ?t + length ms"
    "\<forall>x\<in>set r'. 0 \<le> x \<and> nat x < length ports"
    using Cons.IH [of ?t] Cons.prems(1) by auto
  moreover have "length ?t \<le> Suc (length tmp)" by (cases r) auto
  ultimately show ?case using r(1) by auto
qed auto

definition state_ok :: "issue_state \<Rightarrow> bool" where
  "state_ok st \<longleftrightarrow> fu_ok (is_unit st) (is_ports st) (is_ops st)"

lemma claim_total:
  assumes "state_ok st" "slots (is_ops st i) = []" "collected (is_unit st) (is_ports st) aval tmp"
  shows "\<exists>st'. claim_units i aval st = Some st' \<and> state_ok st' \<and> same_ports (is_ports st') (is_ports st)"
  using claim_ok [of "is_unit st" "is_ports st" "is_ops st" i aval] assms
  by (auto simp: state_ok_def collected_def claim_units_def)

lemma try_ports_total:
  assumes "state_ok st" "slots (is_ops st i) = []" "collected (is_unit st) (is_ports st) (fst acc) (snd acc)"
    "set (map nat ids) \<subseteq> {..<length (is_ports st)}"
  shows "\<exists>ok st'. try_ports i ids cycle alts acc st = Some (ok, st') \<and> state_ok st' \<and>
    same_ports (is_ports st') (is_ports st) \<and> (\<not> ok \<longrightarrow> is_ops st' = is_ops st)"
  using assms(3)
proof (induction alts arbitrary: acc)
  case (Cons fus alts)
  obtain k aval tmp where f: "find_units (is_unit st) (is_ports st) (do_allow_ports (is_ops st i)) (map nat ids) cycle
      (sortFUs (is_unit st) fus) (fst acc, snd acc) = (k, aval, tmp)"
    by (metis prod_cases3)
  have c: "collected (is_unit st) (is_ports st) aval tmp" by (rule find_units_spec [OF f assms(4) Cons.prems])
  show ?case
  proof (cases k)
    case False
    with f Cons.IH [of "(aval, tmp)"] c show ?thesis by (simp add: Let_def)
  next
    case True
    let ?p = "block_ports cycle (zip (map nat ids) (do_port_stall (is_ops st i))) (is_ports st)"
    let ?s = "st\<lparr>is_occupied := is_occupied st @ ids, is_ports := ?p\<rparr>"
    note b = block_ports_same [of cycle "zip (map nat ids) (do_port_stall (is_ops st i))" "is_ports st"]
    have "state_ok ?s" "collected (is_unit ?s) (is_ports ?s) aval tmp"
      using usage_kept [OF conjunct1 [OF b] conjunct2 [OF b]] assms(1) c by (simp_all add: state_ok_def)
    moreover have "slots (is_ops ?s i) = []" using assms(2) by simp
    ultimately obtain st' where "claim_units i aval ?s = Some st'" "state_ok st'" "same_ports (is_ports st') ?p"
      using claim_total [of ?s i aval tmp] by auto
    with f True b show ?thesis by (auto simp: Let_def intro: same_ports_trans)
  qed
qed (use assms in auto)

lemma try_naive_total:
  assumes "state_ok st" "slots (is_ops st i) = []"
  shows "\<exists>ok st'. try_naive i cycle alts st = Some (ok, st') \<and> state_ok st' \<and>
    same_ports (is_ports st') (is_ports st) \<and> (\<not> ok \<longrightarrow> is_ops st' = is_ops st)"
proof (induction alts)
  case (Cons fus alts)
  obtain k aval tmp where f: "find_units (is_unit st) (is_ports st) (do_allow_ports (is_ops st i))
      [0..<length (is_ports st)] cycle (sortFUs (is_unit st) fus) ([], is_occupied st) = (k, aval, tmp)"
    by (metis prod_cases3)
  have c: "collected (is_unit st) (is_ports st) aval tmp"
    by (rule find_units_spec [OF f]) (auto simp: collected_def)
  show ?case
  proof (cases k)
    case False
    with f Cons.IH show ?thesis by (simp add: Let_def)
  next
    case True
    let ?s = "st\<lparr>is_occupied := is_occupied st @ map (\<lambda>s. pt_id (is_ports st ! fst s)) aval\<rparr>"
    obtain st' where "claim_units i aval ?s = Some st'" "state_ok st'" "same_ports (is_ports st') (is_ports st)"
      using claim_total [of ?s i aval tmp] assms c by (auto simp: state_ok_def)
    with f True show ?thesis by (auto simp: Let_def)
  qed
qed (use assms in auto)

lemma schedule_total:
  assumes "state_ok st" "slots (is_ops st i) = []" "mapped_ok (length (is_ports st)) (is_ops st i)"
  shows "\<exists>ok st'. schedule i cycle st = Some (ok, st') \<and> state_ok st' \<and>
    same_ports (is_ports st') (is_ports st) \<and> (\<not> ok \<longrightarrow> is_ops st' = is_ops st)"
proof (cases "iu_naive (is_unit st)")
  case True
  then show ?thesis using try_naive_total [OF assms(1,2)] by (simp add: schedule_def)
next
  case False
  have w: "ports_wf (is_ports st)" using assms(1) by (simp add: state_ok_def fu_ok_def)
  obtain r where r: "uop_ports (is_ports st) (is_occupied st) cycle (do_port_mapping (is_ops st i)) [] = Some r"
    "length r \<le> length (do_port_mapping (is_ops st i))" "\<forall>x\<in>set r. 0 \<le> x \<and> nat x < length (is_ports st)"
    using uop_ports_total [OF w, of "do_port_mapping (is_ops st i)" "[]" "is_occupied st" cycle] assms(3)
    by (auto simp: mapped_ok_def)
  define ids where "ids = (if length r = length (do_port_mapping (is_ops st i)) then r else [])"
  have s: "scheduleUops (is_unit st) (is_ops st i) (is_occupied st) (is_ports st) cycle = Some (ids, is_occupied st @ ids)"
    using False r(1,2) by (simp add: scheduleUops_def ids_def)
  let ?s = "st\<lparr>is_occupied := is_occupied st @ ids\<rparr>"
  have "state_ok ?s" "slots (is_ops ?s i) = []" using assms(1,2) by (simp_all add: state_ok_def)
  moreover have "set (map nat ids) \<subseteq> {..<length (is_ports ?s)}" using r(3) by (auto simp: ids_def)
  ultimately have "\<exists>ok st'. try_ports i ids cycle (do_fus (is_ops st i)) ([], []) ?s = Some (ok, st') \<and> state_ok st' \<and>
    same_ports (is_ports st') (is_ports ?s) \<and> (\<not> ok \<longrightarrow> is_ops st' = is_ops ?s)"
    by (intro try_ports_total) (auto simp: collected_def)
  then show ?thesis
    using False s \<open>state_ok ?s\<close> by (auto simp: schedule_def schedulePortModel_def Let_def)
qed

text \<open>An instruction the issue queue may hold.\<close>

definition issuable :: "nat \<Rightarrow> dyn_op \<Rightarrow> bool" where
  "issuable n p \<longleftrightarrow> (do_status p = ALLOCATED \<or> do_status p = READY) \<and> slots p = [] \<and> mapped_ok n p"

lemma fu_ok_cong:
  assumes "\<And>j. slots (ops' j) = slots (ops j)"
  shows "fu_ok u ports ops' = fu_ok u ports ops"
  by (simp add: fu_ok_def held_ok_def assms)

lemma slots_keep:
  assumes "\<And>p. do_using_ports (f p) = do_using_ports p \<and> do_using_fus (f p) = do_using_fus p"
  shows "slots (upd_op i f ops j) = slots (ops j)"
  using assms [of "ops i"] by (simp add: slots_def upd_op_def)

lemma slots_advance [simp]: "slots (advance i ops j) = slots (ops j)"
  by (simp add: advance_def slots_keep)

lemma only_units_other: "only_units i st st' \<Longrightarrow> j \<noteq> i \<Longrightarrow> is_ops st' j = is_ops st j"
  by (auto simp: only_units_def op_occupyFU_def)

lemma mapped_advance [simp]: "mapped_ok n (advance i ops j) = mapped_ok n (ops j)"
  by (simp add: mapped_ok_def advance_def upd_op_def)

lemma doIssue_total:
  assumes "state_ok st" "issuable (length (is_ports st)) (is_ops st i)"
  shows "\<exists>st'. doIssue i cycle st = Some st' \<and> state_ok st' \<and> same_ports (is_ports st') (is_ports st) \<and>
    (\<forall>j. j \<noteq> i \<longrightarrow> is_ops st' j = is_ops st j) \<and>
    (do_status (is_ops st' i) = ISSUED \<or> issuable (length (is_ports st)) (is_ops st' i))"
proof -
  let ?s = "if do_status (is_ops st i) = ALLOCATED then st\<lparr>is_ops := advance i (is_ops st)\<rparr> else st"
  have s: "state_ok ?s" "slots (is_ops ?s i) = []" "mapped_ok (length (is_ports ?s)) (is_ops ?s i)" "is_ports ?s = is_ports st"
    "do_status (is_ops ?s i) = READY" "j \<noteq> i \<Longrightarrow> is_ops ?s j = is_ops st j" for j
    using assms fu_ok_cong [of "advance i (is_ops st)" "is_ops st"]
    by (auto simp: state_ok_def issuable_def) (auto simp: advance_def)
  obtain ok st2 where r: "schedule i cycle ?s = Some (ok, st2)" "state_ok st2" "same_ports (is_ports st2) (is_ports ?s)"
    "\<not> ok \<longrightarrow> is_ops st2 = is_ops ?s"
    using schedule_total [OF s(1-3)] by blast
  note o = only_units_ops(2) [OF schedule_only [OF r(1)], of i] only_units_other [OF schedule_only [OF r(1)]]
  show ?thesis
  proof (cases ok)
    case True
    let ?r = "st2\<lparr>is_ops := upd_op i (\<lambda>p. p\<lparr>do_e := cycle\<rparr>) (advance i (is_ops st2)), is_ready := is_ready st2 @ [i]\<rparr>"
    have "doIssue i cycle st = Some ?r" using r(1) True o(1) s(5) unfolding doIssue_def Let_def by simp
    moreover have "state_ok ?r"
      using r(2) fu_ok_cong [of "is_ops ?r" "is_ops st2"] by (simp add: state_ok_def slots_keep)
    moreover have "j \<noteq> i \<Longrightarrow> is_ops ?r j = is_ops st j" for j using o(2) [of j] s(6) [of j] by (simp add: advance_def)
    moreover have "do_status (is_ops ?r i) = ISSUED" using o(1) s(5) by (simp add: advance_def)
    ultimately show ?thesis using r(3) s(4) by auto
  next
    case False
    let ?r = "st2\<lparr>is_unit := (is_unit st2)\<lparr>iu_fuStall := iu_fuStall (is_unit st2) + 1\<rparr>\<rparr>"
    have "doIssue i cycle st = Some ?r" using r(1) False unfolding doIssue_def Let_def by simp
    moreover have "state_ok ?r" using r(2) by (simp add: state_ok_def fu_ok_def counts_ok_def)
    moreover have "issuable (length (is_ports st)) (is_ops ?r i)" using False r(4) s(2-5) by (simp add: issuable_def)
    ultimately show ?thesis using r(3,4) False s(4,6) by auto
  qed
qed

lemma issue_loop_total:
  assumes "state_ok st" "distinct q" "\<forall>i\<in>set q. issuable (length (is_ports st)) (is_ops st i)"
  shows "\<exists>rest st'. issue_loop cycle q st = Some (rest, st') \<and> state_ok st' \<and>
    same_ports (is_ports st') (is_ports st) \<and> (\<forall>i. i \<notin> set q \<longrightarrow> is_ops st' i = is_ops st i) \<and>
    distinct rest \<and> set rest \<subseteq> set q \<and> (\<forall>i\<in>set rest. issuable (length (is_ports st)) (is_ops st' i)) \<and>
    (\<forall>i\<in>set q - set rest. do_status (is_ops st' i) = ISSUED \<and> deps_done (is_ops st') i)"
  using assms
proof (induction q arbitrary: st)
  case (Cons i q)
  let ?n = "length (is_ports st)"
  have "\<exists>st1. (if canIssue (is_ops st) i then doIssue i cycle st else Some st) = Some st1 \<and> state_ok st1 \<and>
      same_ports (is_ports st1) (is_ports st) \<and> (\<forall>j. j \<noteq> i \<longrightarrow> is_ops st1 j = is_ops st j) \<and>
      (do_status (is_ops st1 i) = ISSUED \<and> deps_done (is_ops st) i \<and> op_steps (is_ops st) (is_ops st1) \<or>
       issuable ?n (is_ops st1 i))"
  proof (cases "canIssue (is_ops st) i")
    case True
    have "issuable ?n (is_ops st i)" using Cons.prems(3) by simp
    from doIssue_total [OF Cons.prems(1) this, of cycle] True doIssue_spec canIssue_deps [OF True] show ?thesis by auto
  qed (use Cons.prems in auto)
  then obtain st1 where one: "(if canIssue (is_ops st) i then doIssue i cycle st else Some st) = Some st1"
    and s1: "state_ok st1" "same_ports (is_ports st1) (is_ports st)" "\<And>j. j \<noteq> i \<Longrightarrow> is_ops st1 j = is_ops st j"
      "do_status (is_ops st1 i) = ISSUED \<and> deps_done (is_ops st) i \<and> op_steps (is_ops st) (is_ops st1) \<or>
       issuable ?n (is_ops st1 i)"
    by blast
  have dd: "do_status (is_ops st1 i) = ISSUED \<Longrightarrow> deps_done (is_ops st1) i"
    using s1(4) deps_done_mono by (auto simp: issuable_def)
  have l: "length (is_ports st1) = ?n" using s1(2) by (simp add: same_ports_def)
  let ?k = "if do_status (is_ops st1 i) \<noteq> ISSUED then [i] else []"
  let ?s = "if do_status (is_ops st1 i) \<noteq> ISSUED then st1 else st1\<lparr>is_used := is_used st1 - 1\<rparr>"
  have s: "is_ops ?s = is_ops st1" "state_ok ?s" "is_ports ?s = is_ports st1" using s1(1) by (simp_all add: state_ok_def)
  have iq: "i \<notin> set q" "distinct q" using Cons.prems(2) by simp_all
  have qi: "issuable ?n (is_ops st1 j)" if "j \<in> set q" for j
    using that Cons.prems(3) s1(3) [of j] iq by (metis list.set_intros(2))
  show ?case
  proof (cases "length (is_occupied ?s) = length (is_ports ?s)")
    case True
    have "issue_loop cycle (i # q) st = Some (?k @ q, ?s)"
      using True unfolding issue_loop.simps one Let_def by simp
    then show ?thesis using s s1 qi iq dd by auto
  next
    case False
    obtain rest st' where r: "issue_loop cycle q ?s = Some (rest, st')" "state_ok st'"
      "same_ports (is_ports st') (is_ports st1)" "\<forall>j. j \<notin> set q \<longrightarrow> is_ops st' j = is_ops st1 j"
      "distinct rest" "set rest \<subseteq> set q" "\<forall>j\<in>set rest. issuable ?n (is_ops st' j)"
      "\<forall>j\<in>set q - set rest. do_status (is_ops st' j) = ISSUED \<and> deps_done (is_ops st') j"
      using Cons.IH [OF s(2) iq(2)] qi s l by auto
    have "issue_loop cycle (i # q) st = Some (?k @ rest, st')"
      using False r(1) unfolding issue_loop.simps one Let_def by simp
    moreover have "op_steps (is_ops st1) (is_ops st')" using issue_loop_spec [OF r(1)] s(1) by simp
    then have "do_status (is_ops st1 i) = ISSUED \<Longrightarrow> deps_done (is_ops st') i"
      using dd deps_done_mono by blast
    moreover have "is_ops st' i = is_ops st1 i" using r(4) iq(1) by blast
    ultimately show ?thesis
      using r s1(2-4) iq(1) by (auto intro: same_ports_trans)
  qed
qed auto

text \<open>
  C25. Issue keeps the books of the functional units and never aborts: when every busy unit is held
  by exactly one instruction, the counts agree with the free units, and the queue holds instructions
  that wait (none of them twice, with port mappings that name ports that exist), then \<open>issue\<close> passes
  all its assertions, the books are right afterwards, the instructions that left the queue are issued
  and have their operands, and the others are untouched or still wait.
\<close>

theorem issue_keeps_unit_accounts:
  assumes "fu_ok u ports ops" "distinct q" "\<forall>i\<in>set q. issuable (length ports) (ops i)"
  shows "\<exists>rest st. issue_insns cycle q (u, ports, ops, used) = Some (rest, st) \<and>
    fu_ok (is_unit st) (is_ports st) (is_ops st) \<and> (\<forall>i. i \<notin> set q \<longrightarrow> is_ops st i = ops i) \<and>
    set rest \<subseteq> set q \<and> (\<forall>i\<in>set rest. issuable (length ports) (is_ops st i)) \<and>
    (\<forall>i\<in>set q - set rest. do_status (is_ops st i) = ISSUED \<and> deps_done (is_ops st) i)"
proof -
  let ?s = "\<lparr>is_unit = u, is_ports = ports, is_ops = ops, is_occupied = [], is_ready = [], is_used = used\<rparr>"
  have "state_ok ?s" using assms(1) by (simp add: state_ok_def)
  then obtain rest st where "issue_loop cycle q ?s = Some (rest, st)" "state_ok st"
    "\<forall>i. i \<notin> set q \<longrightarrow> is_ops st i = ops i" "set rest \<subseteq> set q"
    "\<forall>i\<in>set rest. issuable (length ports) (is_ops st i)"
    "\<forall>i\<in>set q - set rest. do_status (is_ops st i) = ISSUED \<and> deps_done (is_ops st) i"
    using issue_loop_total [of ?s q cycle] assms(2,3) by auto
  then show ?thesis unfolding issue_insns_def state_ok_def by (intro exI [of _ rest] exI [of _ st]) simp
qed

text \<open>A unit that is not pipelined, one instruction that takes it and one that has to wait.\<close>

definition demo_wait :: op_store where
  "demo_wait i = (new_dyn_op OpArith 0 [] \<lparr>ic_runtime_cycles = 1, ic_ports = [(1, [0])], ic_fus = [[7]]\<rparr>)
     \<lparr>do_status := ALLOCATED\<rparr>"

lemma fu_ok_new:
  "fu_ok (new_issue_unit [(0, [7])] [7] False) [new_port 0 [7]] demo_wait"
proof -
  have a: "all_slots [new_port 0 [7]] = {(0, 0)}" by (auto simp: all_slots_def new_port_def)
  have f: "free_units [new_port 0 [7]] fu = (if fu = 7 then {(0, 0)} else {})" for fu
  proof -
    have "slot_fu [new_port 0 [7]] (0, 0) = 7" "\<not> busy [new_port 0 [7]] (0, 0)"
      by (simp_all add: slot_fu_def busy_def new_port_def)
    then show ?thesis unfolding free_units_def a by (simp add: Collect_conv_if)
  qed
  show ?thesis
    by (simp add: fu_ok_def ports_wf_def held_ok_def counts_ok_def f a)
      (simp add: new_port_def demo_wait_def new_dyn_op_def slots_def busy_def new_issue_unit_def count_fu_def)
qed

theorem issue_keeps_unit_accounts_witness:
  "\<exists>rest st. issue_insns 5 [1, 2] (new_issue_unit [(0, [7])] [7] False, [new_port 0 [7]], demo_wait, 2) = Some (rest, st) \<and>
     set rest \<subseteq> {1, 2} \<and> fu_ok (is_unit st) (is_ports st) (is_ops st)"
proof -
  have "issuable (length [new_port 0 [7]]) (demo_wait i)" for i
    by (simp add: issuable_def demo_wait_def new_dyn_op_def slots_def mapped_ok_def)
  with issue_keeps_unit_accounts [OF fu_ok_new, of "[1, 2]" 5 2] show ?thesis by auto
qed

end
