(* ===== verification/IFU.thy ===== *)
theory IFU
  imports DynInsn MemSystem
begin

text \<open>
  The fetch unit (\<open>sim/src/ifu.cpp\<close>, \<open>sim/include/ifu.h\<close>), the queue between decode and rename
  (\<open>sim/src/alloc_queue.cpp\<close>) and the split of a basic block into cache lines in \<open>Core::fetch\<close>.

  The fetch target queue \<open>FTQ\<close> has the first instruction of every group that lies in one cache line,
  \<open>fetchCount\<close> the sizes of the groups and \<open>processedOps\<close> the instructions.  The unit asks the
  instruction cache for a group; the answer moves the group to the fetch buffer.
\<close>

section \<open>Fetch unit\<close>

record ifu =
  if_occupied :: bool
  if_responses :: "nat list"
  if_pfPtr :: int

definition new_ifu :: ifu where
  "new_ifu = \<lparr>if_occupied = False, if_responses = [], if_pfPtr = 0\<rparr>"

definition if_recvResponse :: "nat \<Rightarrow> ifu \<Rightarrow> ifu" where
  "if_recvResponse resp f = f\<lparr>if_responses := if_responses f @ [resp]\<rparr>"

definition notifyNoStall :: "ifu \<Rightarrow> ifu" where
  "notifyNoStall f = f\<lparr>if_occupied := False\<rparr>"

text \<open>What the fetch unit reads and writes.\<close>

record fetch_state =
  fs_ops :: op_store
  fs_ifu :: ifu
  fs_txns :: txn_store
  fs_icache :: cache
  fs_FTQ :: "nat list"
  fs_processed :: "nat list"
  fs_buffer :: "nat list"
  fs_count :: "nat list"

text \<open>The loop that moves a group of \<open>n\<close> instructions, shared by \<open>fakeIF\<close> and \<open>IF1\<close>.\<close>

fun move_group :: "nat \<Rightarrow> u64 \<Rightarrow> fetch_state \<Rightarrow> fetch_state" where
  "move_group 0 F0 s = s"
| "move_group (Suc n) F0 s =
     (case fs_processed s of
        [] \<Rightarrow> s
      | i # rest \<Rightarrow>
          move_group n F0
            (s\<lparr>fs_buffer := fs_buffer s @ [i], fs_ops := upd_op i (\<lambda>p. p\<lparr>do_F0 := F0\<rparr>) (fs_ops s),
               fs_processed := rest\<rparr>))"

text \<open>\<open>front\<close> of an empty container is undefined; the model stops there.\<close>

definition fakeIF :: "u64 \<Rightarrow> fetch_state \<Rightarrow> fetch_state option" where
  "fakeIF cycle s =
     do { assert_that (fs_count s \<noteq> []);
          let n = hd (fs_count s);
          let s1 = s\<lparr>fs_count := tl (fs_count s)\<rparr>;
          assert_that (fs_FTQ s1 \<noteq> [] \<and> fs_processed s1 \<noteq> []);
          assert_that (do_uid (fs_ops s1 (hd (fs_processed s1))) = do_uid (fs_ops s1 (hd (fs_FTQ s1))));
          let s2 = move_group n cycle s1;
          Some (s2\<lparr>fs_FTQ := tl (fs_FTQ s2)\<rparr>) }"

definition IF0 :: "u64 \<Rightarrow> fetch_state \<Rightarrow> fetch_state option" where
  "IF0 cycle s =
     (case fs_FTQ s of
        [] \<Rightarrow> Some s
      | i # rest \<Rightarrow>
          let f1 = (fs_ifu s)\<lparr>if_pfPtr := (if_pfPtr (fs_ifu s) + 1) mod 32\<rparr>
          in if if_occupied f1 then Some (s\<lparr>fs_ifu := f1\<rparr>)
             else let p = fs_ops s i;
                      (t, m1) = new_txn (MemTransaction (sint (ucast (do_dyn_id p) :: u32)) 0 (Some i)
                                           (do_uid p * 4) True True) (fs_txns s)
                  in if willAcceptTransaction m1 (Some t) (fs_icache s)
                     then do { c1 \<leftarrow> recvRequest m1 t (fs_icache s);
                               Some (s\<lparr>fs_ops := upd_op i (\<lambda>p. p\<lparr>do_F0 := cycle\<rparr>) (fs_ops s), fs_txns := m1,
                                       fs_icache := c1, fs_FTQ := rest,
                                       fs_ifu := f1\<lparr>if_occupied := True, if_pfPtr := if_pfPtr f1 - 1\<rparr>\<rparr>) }
                     else Some (s\<lparr>fs_ifu := f1, fs_txns := delete_txn t m1\<rparr>))"

definition IF1 :: "fetch_state \<Rightarrow> fetch_state option" where
  "IF1 s =
     (case if_responses (fs_ifu s) of
        [] \<Rightarrow> Some s
      | resp # rest \<Rightarrow>
          (case t_op (ts_txn (fs_txns s) resp) of
             None \<Rightarrow> None
           | Some i \<Rightarrow>
               do { assert_that (\<not> do_is_squashed (fs_ops s i));
                    assert_that (fs_count s \<noteq> []);
                    let n = hd (fs_count s);
                    let s1 = s\<lparr>fs_count := tl (fs_count s)\<rparr>;
                    assert_that (fs_processed s1 \<noteq> []);
                    assert_that (do_uid (fs_ops s1 (hd (fs_processed s1))) = do_uid (fs_ops s1 i));
                    let s2 = move_group n (do_F0 (fs_ops s1 i)) s1;
                    let occ = (if t_signal_no_stall (ts_txn (fs_txns s) resp) then False else if_occupied (fs_ifu s2));
                    Some (s2\<lparr>fs_ifu := (fs_ifu s2)\<lparr>if_occupied := occ, if_responses := rest\<rparr>,
                             fs_txns := delete_txn resp (fs_txns s2)\<rparr>) }))"

section \<open>Groups of a basic block\<close>

definition get_cache_line_addr :: "u64 \<Rightarrow> nat \<Rightarrow> u64 option" where
  "get_cache_line_addr addr cache_line_size =
     do { assert_that ((of_nat cache_line_size :: u64) \<noteq> 0);
          Some (addr div of_nat cache_line_size * of_nat cache_line_size) }"

text \<open>The size of the first group of \<open>bs\<close>: up to the first instruction of another line.\<close>

definition group_size :: "op_store \<Rightarrow> u64 \<Rightarrow> nat \<Rightarrow> nat list \<Rightarrow> nat" where
  "group_size ops line n bs =
     (case find (\<lambda>j. do_uid (ops (bs ! j)) \<ge> line + of_nat n) [1..<min (length bs) n] of
        Some j \<Rightarrow> j
      | None \<Rightarrow> if length bs > n then n else length bs)"

lemma group_size_pos:
  assumes "bs \<noteq> []" "0 < n"
  shows "1 \<le> group_size ops line n bs" "group_size ops line n bs \<le> n" "group_size ops line n bs \<le> length bs"
  using assms by (auto simp: group_size_def find_Some_iff Suc_le_eq split: option.splits)

text \<open>
  The loop over \<open>bbOps\<close>: what it appends to \<open>FTQ\<close> and \<open>fetchCount\<close>.  A line of fewer than four bytes
  has no instruction; the division by its size aborts.
\<close>

function split_block :: "op_store \<Rightarrow> nat \<Rightarrow> nat list \<Rightarrow> (nat list \<times> nat list) option" where
  "split_block ops n [] = Some ([], [])"
| "split_block ops n (b # bs) =
     (case get_cache_line_addr (do_uid (ops b)) n of
        None \<Rightarrow> None
      | Some line \<Rightarrow>
          let k = group_size ops line n (b # bs)
          in do { (firsts, counts) \<leftarrow> split_block ops n (drop k (b # bs));
                  Some (b # firsts, k # counts) })"
  by pat_completeness auto
termination
proof (relation "measure (\<lambda>(ops, n, bs). length bs)")
  fix ops n b bs line k
  assume l: "get_cache_line_addr (do_uid (ops b)) n = Some line" and k: "k = group_size ops line n (b # bs)"
  have "0 < n" using l by (cases n) (auto simp: get_cache_line_addr_def)
  then have "1 \<le> k" using group_size_pos(1) [of "b # bs" n ops line] k by simp
  then show "((ops, n, drop k (b # bs)), ops, n, b # bs) \<in> measure (\<lambda>(ops, n, bs). length bs)" by simp
qed simp

declare split_block.simps [simp del]

text \<open>
  C27. The loop that splits a basic block into fetch groups ends for every block, when a cache line
  holds at least one instruction (and its size fits the machine integer): the groups are not empty,
  none is larger than a line, together they are the block in order, and the fetch target queue gets
  the first instruction of each.
\<close>

theorem fetch_split_terminates:
  assumes "0 < n" "n < 2 ^ 64"
  shows "\<exists>firsts counts. split_block ops n bs = Some (firsts, counts) \<and>
    (\<forall>c\<in>set counts. 1 \<le> c \<and> c \<le> n) \<and> sum_list counts = length bs \<and>
    firsts = map (\<lambda>k. bs ! sum_list (take k counts)) [0..<length counts]"
  using assms
proof (induction ops n bs rule: split_block.induct)
  case (2 ops n b bs)
  have "\<not> 2 ^ 64 dvd n" using "2.prems" by (auto dest: dvd_imp_le)
  then have "(of_nat n :: u64) \<noteq> 0" by (simp add: word_of_nat_eq_0_iff)
  then obtain line where l: "get_cache_line_addr (do_uid (ops b)) n = Some line"
    by (auto simp: get_cache_line_addr_def)
  define k where "k = group_size ops line n (b # bs)"
  have k: "1 \<le> k" "k \<le> n" "k \<le> length (b # bs)"
    using group_size_pos [of "b # bs" n ops line] "2.prems"(1) by (simp_all add: k_def)
  obtain firsts counts where r: "split_block ops n (drop k (b # bs)) = Some (firsts, counts)"
    "\<forall>c\<in>set counts. 1 \<le> c \<and> c \<le> n" "sum_list counts = length (drop k (b # bs))"
    "firsts = map (\<lambda>j. drop k (b # bs) ! sum_list (take j counts)) [0..<length counts]"
    using "2.IH" [OF l k_def "2.prems"] by blast
  have "split_block ops n (b # bs) = Some (b # firsts, k # counts)"
    using l r(1) by (simp add: split_block.simps(2) Let_def flip: k_def)
  moreover have "b # firsts = map (\<lambda>j. (b # bs) ! sum_list (take j (k # counts))) [0..<length (k # counts)]"
  proof -
    have "[0..<length (k # counts)] = 0 # map Suc [0..<length counts]" by (simp add: upt_conv_Cons map_Suc_upt del: upt_Suc)
    then show ?thesis using k(3) by (simp add: r(4) nth_append del: upt_Suc)
  qed
  ultimately show ?case using r(2,3) k by auto
qed (simp add: split_block.simps)

section \<open>Allocation queue\<close>

record alloc_queue =
  aq_instList :: "nat list"
  aq_toRename :: "nat list"
  aq_freeEntries :: u32
  aq_numEntries :: u32
  aq_totalWidth :: u32

definition new_alloc_queue :: "u32 \<Rightarrow> u32 \<Rightarrow> alloc_queue" where
  "new_alloc_queue n width =
     \<lparr>aq_instList = [], aq_toRename = [], aq_freeEntries = n, aq_numEntries = n, aq_totalWidth = width\<rparr>"

definition aq_isFull :: "alloc_queue \<Rightarrow> bool" where
  "aq_isFull q \<longleftrightarrow> aq_freeEntries q = 0"

definition aq_isEmpty :: "alloc_queue \<Rightarrow> bool" where
  "aq_isEmpty q \<longleftrightarrow> aq_freeEntries q = aq_numEntries q"

definition aq_insert :: "nat \<Rightarrow> alloc_queue \<Rightarrow> (bool \<times> alloc_queue) option" where
  "aq_insert i q =
     do { assert_that (aq_freeEntries q \<noteq> 0);
          Some (False, q\<lparr>aq_instList := aq_instList q @ [i], aq_freeEntries := aq_freeEntries q - 1\<rparr>) }"

fun aq_send :: "nat \<Rightarrow> alloc_queue \<Rightarrow> alloc_queue" where
  "aq_send 0 q = q"
| "aq_send (Suc k) q =
     (case aq_instList q of
        [] \<Rightarrow> q
      | i # rest \<Rightarrow> aq_send k (q\<lparr>aq_toRename := aq_toRename q @ [i], aq_instList := rest,
                                  aq_freeEntries := aq_freeEntries q + 1\<rparr>))"

definition sendInstToRename :: "alloc_queue \<Rightarrow> alloc_queue" where
  "sendInstToRename q = aq_send (unat (aq_totalWidth q)) q"

definition getInstAtPos :: "int \<Rightarrow> alloc_queue \<Rightarrow> nat option" where
  "getInstAtPos pos q =
     do { assert_that (0 \<le> pos \<and> pos < int (length (aq_instList q))); Some (aq_instList q ! nat pos) }"

definition getInstToRename :: "alloc_queue \<Rightarrow> nat option \<times> alloc_queue" where
  "getInstToRename q =
     (case aq_toRename q of [] \<Rightarrow> (None, q) | i # rest \<Rightarrow> (Some i, q\<lparr>aq_toRename := rest\<rparr>))"

definition hasNoAvalInstToRename :: "alloc_queue \<Rightarrow> bool" where
  "hasNoAvalInstToRename q \<longleftrightarrow> length (aq_toRename q) = 0"

definition demo_block :: op_store where
  "demo_block i = new_dyn_op OpArith (of_nat (i + 14)) [] \<lparr>ic_runtime_cycles = 1, ic_ports = [], ic_fus = []\<rparr>"

text \<open>Instructions 14 to 18 with lines of 16: one group up to the line boundary and one after it.\<close>

theorem fetch_split_terminates_witness:
  "\<exists>firsts counts. split_block demo_block 16 [0, 1, 2, 3, 4] = Some (firsts, counts) \<and> sum_list counts = 5 \<and>
     group_size demo_block 0 16 [0, 1, 2, 3, 4] = 2"
proof -
  have "group_size demo_block 0 16 [0, 1, 2, 3, 4] = 2"
    by (simp add: group_size_def demo_block_def new_dyn_op_def upt_conv_Cons word_le_nat_alt)
  then show ?thesis using fetch_split_terminates [of 16 demo_block "[0, 1, 2, 3, 4]"] by auto
qed

end
