(* ===== verification/Core.thy ===== *)
theory Core
  imports IssueUnit LSUnit IFU
begin

text \<open>
  The out-of-order core: the stages of \<open>sim/src/core.cpp\<close> and the order in which \<open>Core::run\<close> calls
  them, with the caches, the accelerator and the memory.

  \<open>Core::preprocess\<close> walks the LLVM objects of the program and its trace; it is a parameter: a
  function from the state of the program, the instructions and the branch predictor to the next
  basic block (the instructions it creates or none) and the new states.  The widths of the
  configuration are small, so their conversions between \<open>int\<close> and \<open>uint64_t\<close> are the identity.
\<close>

section \<open>State\<close>

record core_stats =
  st_flushN :: u64
  st_rb_flushedN :: u64
  st_stalls_mem_any :: u64
  st_stalls_fetch :: u64
  st_flush_stalls_fetch :: u64
  st_ftq0_stalls_fetch :: u64
  st_mispredict_stalls_fetch :: u64
  st_stalls_total :: u64
  st_ge_1 :: u64
  st_ge_2 :: u64
  st_ge_3 :: u64
  st_rs_empty_cycles :: u64
  st_rob_full :: u64
  st_iq_full :: u64
  st_stall_load :: u64
  st_cosim_insn_num :: u64
  st_cosim_mm_num :: u64
  st_cosim_preload_num :: u64

record ('n, 'm, 'p) core =
  co_ops :: op_store
  co_window :: window
  co_bp :: bpred
  co_lsu :: lsunit
  co_ifu :: ifu
  co_unit :: issue_unit
  co_ports :: "port list"
  co_txns :: txn_store
  co_levels :: levels
  co_dram :: "'m dram"
  co_sa :: "'n sa"
  co_next_cmd :: nat
  co_prog :: 'p
  co_FTQ :: "nat list"
  co_processedOps :: "nat list"
  co_fetchBuffer :: "nat list"
  co_fetchCount :: "nat list"
  co_flushedInsns :: "nat list"
  co_to_decode :: "nat list"
  co_to_rename :: "nat list"
  co_insnQueue :: "nat list"
  co_issueQueue :: "nat list"
  co_cosimIssueQueue :: "nat list"
  co_inFlight :: "nat list"
  co_instList :: "nat list"
  co_allocQueue :: alloc_queue
  co_uidDynOpMap :: "u64 \<rightharpoonup> nat"
  co_lastOp :: "nat option"
  co_last_fetch_line :: u64
  co_flushStall :: bool
  co_flushStallCycle :: int
  co_flushPenalty :: int
  co_l1i_CLSize :: nat
  co_cycles :: u64
  co_running :: bool
  co_stats :: core_stats

type_synonym 'p preprocess = "'p \<times> op_store \<times> bpred \<Rightarrow> nat list \<times> 'p \<times> op_store \<times> bpred"

section \<open>Decode and rename\<close>

fun decode_loop :: "nat \<Rightarrow> nat \<Rightarrow> nat list \<times> nat list \<Rightarrow> nat list \<times> nat list" where
  "decode_loop w 0 s = s"
| "decode_loop w (Suc j) (ren, dec) =
     (if length ren \<ge> w then (ren, dec)
      else case dec of [] \<Rightarrow> (ren, dec) | i # ds \<Rightarrow> decode_loop w j (ren @ [i], ds))"

definition core_decode :: "('n, 'm, 'p) core \<Rightarrow> ('n, 'm, 'p) core" where
  "core_decode s =
     (if co_flushStall s then s
      else if co_to_rename s \<noteq> [] then s
      else let w = nat (w_retireSize (co_window s));
               (ren, dec) = decode_loop w w (co_to_rename s, co_to_decode s)
           in s\<lparr>co_to_rename := ren, co_to_decode := dec\<rparr>)"

text \<open>
  The dependences of one instruction: on the latest instance of every static instruction it names.
  The map is updated first, so an instruction that names itself depends on itself.
\<close>

definition rename_one :: "nat \<Rightarrow> op_store \<times> (u64 \<rightharpoonup> nat) \<Rightarrow> op_store \<times> (u64 \<rightharpoonup> nat)" where
  "rename_one i = (\<lambda>(ops, mp).
     (let mp1 = mp(do_uid (ops i) \<mapsto> i)
      in (foldl (\<lambda>o1 dep. case mp1 dep of None \<Rightarrow> o1 | Some d \<Rightarrow> addDep i d o1) ops (do_static_deps (ops i)), mp1)))"

fun rename_loop :: "nat \<Rightarrow> nat \<Rightarrow> ('n, 'm, 'p) core \<Rightarrow> ('n, 'm, 'p) core" where
  "rename_loop w 0 s = s"
| "rename_loop w (Suc j) s =
     (case co_to_rename s of
        [] \<Rightarrow> s
      | i # rest \<Rightarrow>
          if length (co_insnQueue s) \<ge> w then s
          else let (ops, mp) = rename_one i (co_ops s, co_uidDynOpMap s)
               in rename_loop w j (s\<lparr>co_ops := ops, co_uidDynOpMap := mp,
                                     co_insnQueue := co_insnQueue s @ [i], co_to_rename := rest\<rparr>))"

definition core_rename :: "('n, 'm, 'p) core \<Rightarrow> ('n, 'm, 'p) core" where
  "core_rename s =
     (if co_flushStall s then s
      else if co_insnQueue s \<noteq> [] then s
      else let w = nat (w_retireSize (co_window s)) in rename_loop w w s)"

section \<open>Fetch\<close>

definition fs_view :: "('n, 'm, 'p) core \<Rightarrow> fetch_state" where
  "fs_view s = \<lparr>fs_ops = co_ops s, fs_ifu = co_ifu s, fs_txns = co_txns s, fs_icache = lv_l1i (co_levels s),
     fs_FTQ = co_FTQ s, fs_processed = co_processedOps s, fs_buffer = co_fetchBuffer s,
     fs_count = co_fetchCount s\<rparr>"

definition fs_store :: "fetch_state \<Rightarrow> ('n, 'm, 'p) core \<Rightarrow> ('n, 'm, 'p) core" where
  "fs_store f s = s\<lparr>co_ops := fs_ops f, co_ifu := fs_ifu f, co_txns := fs_txns f,
     co_levels := (co_levels s)\<lparr>lv_l1i := fs_icache f\<rparr>, co_FTQ := fs_FTQ f,
     co_processedOps := fs_processed f, co_fetchBuffer := fs_buffer f, co_fetchCount := fs_count f\<rparr>"

definition on_fetch :: "(fetch_state \<Rightarrow> fetch_state option) \<Rightarrow> ('n, 'm, 'p) core \<Rightarrow> ('n, 'm, 'p) core option" where
  "on_fetch g s = map_option (\<lambda>f. fs_store f s) (g (fs_view s))"

definition upd_stats :: "(core_stats \<Rightarrow> core_stats) \<Rightarrow> ('n, 'm, 'p) core \<Rightarrow> ('n, 'm, 'p) core" where
  "upd_stats f s = s\<lparr>co_stats := f (co_stats s)\<rparr>"

text \<open>
  A mispredicted branch at the end of the last block: nothing new is fetched until it has retired;
  the flags are \<open>notWaiting\<close> and \<open>shouldStall\<close>.
\<close>

definition wait_branch :: "bool \<Rightarrow> ('n, 'm, 'p) core \<Rightarrow> bool \<times> bool \<times> ('n, 'm, 'p) core" where
  "wait_branch notWaiting s =
     (case co_lastOp s of
        None \<Rightarrow> (notWaiting, False, s)
      | Some i \<Rightarrow>
          let p = co_ops s i
          in if isBr p \<and> do_mispredict p
             then if do_status p \<le> FINISHED
                  then (False, False, upd_stats (\<lambda>t. t\<lparr>st_mispredict_stalls_fetch := st_mispredict_stalls_fetch t + 1\<rparr>) s)
                  else (notWaiting, True, s\<lparr>co_lastOp := None\<rparr>)
             else (notWaiting, False, s))"

definition next_block :: "'p preprocess \<Rightarrow> bool \<Rightarrow> ('n, 'm, 'p) core \<Rightarrow> nat list \<times> ('n, 'm, 'p) core" where
  "next_block pp notWaiting s =
     (if notWaiting
      then let (bbOps, prog, ops, bp) = pp (co_prog s, co_ops s, co_bp s)
           in (bbOps, s\<lparr>co_prog := prog, co_ops := ops, co_bp := bp\<rparr>)
      else ([], s))"

definition enqueue_block :: "nat list \<Rightarrow> ('n, 'm, 'p) core \<Rightarrow> ('n, 'm, 'p) core option" where
  "enqueue_block bbOps s =
     do { let s1 = (if bbOps \<noteq> [] then s\<lparr>co_lastOp := Some (last bbOps)\<rparr> else s);
          (firsts, counts) \<leftarrow> split_block (co_ops s1) (co_l1i_CLSize s1 div 4) bbOps;
          Some (s1\<lparr>co_FTQ := co_FTQ s1 @ firsts, co_fetchCount := co_fetchCount s1 @ counts,
                   co_processedOps := co_processedOps s1 @ take (sum_list counts) bbOps\<rparr>) }"

text \<open>The flush after a misprediction marks the next group; then the request to the cache.\<close>

definition mark_flush :: "bool \<Rightarrow> ('n, 'm, 'p) core \<Rightarrow> ('n, 'm, 'p) core" where
  "mark_flush shouldStall s =
     (if shouldStall \<and> co_flushPenalty s > 0
      then upd_stats (\<lambda>t. t\<lparr>st_rb_flushedN := st_rb_flushedN t + 1, st_flushN := st_flushN t + 1\<rparr>)
             (s\<lparr>co_ops := upd_op (hd (co_FTQ s)) (\<lambda>p. p\<lparr>do_flush_stall := True\<rparr>) (co_ops s),
                co_flushStallCycle := co_flushPenalty s, co_flushStall := True\<rparr>)
      else s)"

definition in_last_line :: "('n, 'm, 'p) core \<Rightarrow> bool option" where
  "in_last_line s =
     (let p = co_ops s (hd (co_FTQ s)); n = co_l1i_CLSize s div 4
      in do { line \<leftarrow> (if do_dyn_id p \<noteq> 0 then get_cache_line_addr (do_uid p) n else Some 0);
              Some (do_dyn_id p \<noteq> 0 \<and> co_last_fetch_line s = line \<and> \<not> if_occupied (co_ifu s) \<and>
                    \<not> do_mispredict p) })"

definition ask_icache :: "bool \<Rightarrow> ('n, 'm, 'p) core \<Rightarrow> ('n, 'm, 'p) core option" where
  "ask_icache shouldFetch s =
     (if shouldFetch
      then do { line \<leftarrow> get_cache_line_addr (do_uid (co_ops s (hd (co_FTQ s)))) (co_l1i_CLSize s div 4);
                on_fetch (IF0 (co_cycles s)) (s\<lparr>co_last_fetch_line := line\<rparr>) }
      else Some s)"

definition fetch_request :: "bool \<Rightarrow> ('n, 'm, 'p) core \<Rightarrow> ('n, 'm, 'p) core option" where
  "fetch_request shouldFetch s =
     (if \<not> do_flush_stall (co_ops s (hd (co_FTQ s)))
      then do { hit \<leftarrow> in_last_line s;
                if hit then on_fetch (fakeIF (co_cycles s)) s else ask_icache shouldFetch s }
      else Some (upd_stats (\<lambda>t. t\<lparr>st_flush_stalls_fetch := st_flush_stalls_fetch t + 1\<rparr>) s))"

fun buffer_to_decode :: "nat \<Rightarrow> nat \<Rightarrow> ('n, 'm, 'p) core \<Rightarrow> ('n, 'm, 'p) core" where
  "buffer_to_decode w 0 s = s"
| "buffer_to_decode w (Suc j) s =
     (case co_fetchBuffer s of
        [] \<Rightarrow> s
      | i # rest \<Rightarrow>
          if length (co_to_decode s) \<ge> w then s
          else buffer_to_decode w j
                 (s\<lparr>co_ops := upd_op i (\<lambda>p. p\<lparr>do_F1 := co_cycles s\<rparr>) (co_ops s),
                    co_to_decode := co_to_decode s @ [i], co_instList := co_instList s @ [i],
                    co_fetchBuffer := rest\<rparr>))"

text \<open>
  \<open>fetch\<close> up to the call of \<open>preprocess\<close>, and from there on; the flags are \<open>shouldFetch\<close>,
  \<open>notWaiting\<close> and \<open>shouldStall\<close>.
\<close>

definition take_flushed :: "('n, 'm, 'p) core \<Rightarrow> ('n, 'm, 'p) core" where
  "take_flushed s =
     (if co_flushedInsns s \<noteq> []
      then s\<lparr>co_processedOps := co_flushedInsns s @ co_processedOps s, co_flushedInsns := []\<rparr> else s)"

definition fetch_begin :: "('n, 'm, 'p) core \<Rightarrow> (bool \<times> bool \<times> bool \<times> ('n, 'm, 'p) core) option" where
  "fetch_begin s =
     (let s0 = take_flushed s;
          fetchWidth = unat (w_windowSize (co_window s0));
          shouldFetch = (length (co_fetchBuffer s0) \<le> fetchWidth - length (co_to_decode s0) \<or> co_fetchBuffer s0 = []);
          notWaiting = (shouldFetch \<and> co_FTQ s0 = [])
      in do { s1 \<leftarrow> on_fetch IF1 s0; Some (shouldFetch, wait_branch notWaiting s1) })"

definition fetch_group :: "bool \<Rightarrow> bool \<Rightarrow> ('n, 'm, 'p) core \<Rightarrow> ('n, 'm, 'p) core option" where
  "fetch_group shouldFetch shouldStall s =
     (if co_FTQ s \<noteq> [] then fetch_request shouldFetch (mark_flush shouldStall s)
      else Some (upd_stats (\<lambda>t. t\<lparr>st_ftq0_stalls_fetch := st_ftq0_stalls_fetch t + 1\<rparr>) s))"

definition count_stall :: "('n, 'm, 'p) core \<Rightarrow> ('n, 'm, 'p) core" where
  "count_stall s =
     (if co_fetchBuffer s = [] then upd_stats (\<lambda>t. t\<lparr>st_stalls_fetch := st_stalls_fetch t + 1\<rparr>) s else s)"

definition fetch_end :: "bool \<Rightarrow> bool \<Rightarrow> nat list \<Rightarrow> ('n, 'm, 'p) core \<Rightarrow> ('n, 'm, 'p) core option" where
  "fetch_end shouldFetch shouldStall bbOps s =
     do { s4 \<leftarrow> enqueue_block bbOps s;
          s5 \<leftarrow> fetch_group shouldFetch shouldStall s4;
          let s6 = count_stall s5;
          let fetchWidth = unat (w_windowSize (co_window s6));
          Some (buffer_to_decode fetchWidth fetchWidth s6) }"

definition core_fetch :: "'p preprocess \<Rightarrow> ('n, 'm, 'p) core \<Rightarrow> ('n, 'm, 'p) core option" where
  "core_fetch pp s =
     (if co_flushStall s then Some s
      else if co_to_decode s \<noteq> [] then Some s
      else do { (shouldFetch, notWaiting, shouldStall, s2) \<leftarrow> fetch_begin s;
                let (bbOps, s3) = next_block pp notWaiting s2;
                fetch_end shouldFetch shouldStall bbOps s3 })"

section \<open>Issue and dispatch\<close>

definition insnToIssueQueues :: "nat list \<Rightarrow> ('n, 'm, 'p) core \<Rightarrow> ('n, 'm, 'p) core" where
  "insnToIssueQueues insns s =
     foldl (\<lambda>s i. if isCosimFunc (co_ops s i) then s\<lparr>co_cosimIssueQueue := co_cosimIssueQueue s @ [i]\<rparr>
                 else s\<lparr>co_issueQueue := co_issueQueue s @ [i]\<rparr>) s insns"

text \<open>The view of an instruction that \<open>cosim_issue\<close> of the controller takes, and the counters.\<close>

definition core_cosim_issue :: "nat \<Rightarrow> ('n, 'm, 'p) core \<Rightarrow> ('n, 'm, 'p) core option" where
  "core_cosim_issue i s =
     (let p = co_ops s i; v = (do_cosim p)\<lparr>ci_insn := i, ci_dyn_id := do_dyn_id p\<rparr>;
          mm = (\<not> ci_is_config v \<and> \<not> ci_is_fence v \<and> (ci_is_mm v \<or> ci_is_mm_stay v \<or> ci_is_mm_flip v));
          pre = (\<not> ci_is_config v \<and> \<not> ci_is_fence v \<and> \<not> ci_is_mm v \<and> \<not> ci_is_mm_stay v \<and> \<not> ci_is_mm_flip v \<and>
                 ci_is_preload v)
      in do { sa \<leftarrow> cosim_issue v (co_next_cmd s) (co_sa s);
              Some (upd_stats (\<lambda>t. if ci_is_cosim_func v
                      then t\<lparr>st_cosim_insn_num := st_cosim_insn_num t + 1,
                             st_cosim_mm_num := st_cosim_mm_num t + of_bool mm,
                             st_cosim_preload_num := st_cosim_preload_num t + of_bool pre\<rparr> else t)
                     (s\<lparr>co_sa := sa, co_next_cmd := co_next_cmd s + 1\<rparr>)) })"

text \<open>The issue unit, and the instructions that take no time.\<close>

definition finish_at_once :: "u64 \<Rightarrow> nat list \<Rightarrow> op_store \<Rightarrow> op_store" where
  "finish_at_once cycle insns ops =
     foldl (\<lambda>ops i. if op_finish (ops i) then upd_op i (\<lambda>p. p\<lparr>do_E := cycle, do_status := FINISHED\<rparr>) ops else ops) ops insns"

definition issue_cpu :: "('n, 'm, 'p) core \<Rightarrow> (nat list \<times> ('n, 'm, 'p) core) option" where
  "issue_cpu s =
     do { (rest, st) \<leftarrow> issue_insns (co_cycles s) (co_issueQueue s)
                          (co_unit s, co_ports s, co_ops s, w_issueQueueUsed (co_window s));
          Some (is_ready st,
            s\<lparr>co_unit := is_unit st, co_ports := is_ports st,
              co_ops := finish_at_once (co_cycles s) (is_ready st) (is_ops st), co_issueQueue := rest,
              co_window := (co_window s)\<lparr>w_issueQueueUsed := is_used st\<rparr>\<rparr>) }"

text \<open>One cosim instruction per cycle, when the accelerator has room.\<close>

definition issue_cosim :: "nat list \<Rightarrow> ('n, 'm, 'p) core \<Rightarrow> (nat list \<times> ('n, 'm, 'p) core) option" where
  "issue_cosim readyInsns s =
     (case co_cosimIssueQueue s of
        [] \<Rightarrow> Some (readyInsns, s)
      | i # rest \<Rightarrow>
          if canIssue (co_ops s) i \<and> can_receive (co_sa s)
          then do { assert_that (do_status (co_ops s i) = ALLOCATED);
                    let s1 = s\<lparr>co_cosimIssueQueue := rest,
                               co_window := (co_window s)\<lparr>w_usedCosimQueueSize := w_usedCosimQueueSize (co_window s) - 1\<rparr>,
                               co_ops := upd_op i (\<lambda>p. p\<lparr>do_status := ISSUED, do_e := co_cycles s\<rparr>) (co_ops s)\<rparr>;
                    s2 \<leftarrow> core_cosim_issue i s1;
                    Some (readyInsns @ [i], s2) }
          else Some (readyInsns, s))"

definition issue_stats :: "nat \<Rightarrow> ('n, 'm, 'p) core \<Rightarrow> ('n, 'm, 'p) core" where
  "issue_stats n s =
     upd_stats (\<lambda>t. t\<lparr>
       st_rs_empty_cycles := st_rs_empty_cycles t + of_bool (ifROBEmpty (co_window s)),
       st_stalls_mem_any := st_stalls_mem_any t + of_bool (n = 0 \<and> getExecutingLoads (co_ops s) (co_lsu s) > 0),
       st_stalls_total := st_stalls_total t + of_bool (n = 0),
       st_ge_3 := st_ge_3 t + of_bool (n \<ge> 3), st_ge_2 := st_ge_2 t + of_bool (n \<ge> 2),
       st_ge_1 := st_ge_1 t + of_bool (n \<ge> 1)\<rparr>) s"

definition core_issue :: "('n, 'm, 'p) core \<Rightarrow> ('n, 'm, 'p) core option" where
  "core_issue s =
     (if co_flushStall s then Some s
      else do { (ready1, s1) \<leftarrow> issue_cpu s;
                (ready2, s2) \<leftarrow> issue_cosim ready1 s1;
                let s3 = issue_stats (length ready2) s2;
                Some (s3\<lparr>co_inFlight := co_inFlight s3 @ ready2\<rparr>) })"

text \<open>The counters of a dispatch that finds a structure full.\<close>

definition dispatch_stats :: "nat \<Rightarrow> ('n, 'm, 'p) core \<Rightarrow> ('n, 'm, 'p) core" where
  "dispatch_stats i s =
     upd_stats (\<lambda>t. t\<lparr>
       st_rob_full := st_rob_full t + of_bool (ifROBFull (co_window s)),
       st_stall_load := st_stall_load t + of_bool (ifROBFull (co_window s) \<and> stallLoad (co_ops s) (co_window s)),
       st_iq_full := st_iq_full t + of_bool (\<not> w_canDispatch (co_ops s) i (co_window s))\<rparr>) s"

definition dispatch_one :: "nat \<Rightarrow> ('n, 'm, 'p) core \<Rightarrow> ('n, 'm, 'p) core option" where
  "dispatch_one i s =
     (let w = co_window s;
          w1 = (if isCosimFunc (co_ops s i) then w\<lparr>w_usedCosimQueueSize := w_usedCosimQueueSize w + 1\<rparr>
                else w\<lparr>w_issueQueueUsed := w_issueQueueUsed w + 1\<rparr>)
      in do { assert_that (do_status (co_ops s i) = INIT);
              let ops1 = advance i (co_ops s);
              u \<leftarrow> ls_addInstruction ops1 i (co_lsu s);
              Some (s\<lparr>co_window := w_addInstruction i w1, co_lsu := u, co_insnQueue := tl (co_insnQueue s),
                      co_ops := upd_op i (\<lambda>p. p\<lparr>do_D := co_cycles s\<rparr>) ops1\<rparr>) })"

fun dispatch_loop :: "nat \<Rightarrow> nat list \<Rightarrow> ('n, 'm, 'p) core \<Rightarrow> (nat list \<times> ('n, 'm, 'p) core) option" where
  "dispatch_loop 0 out s = Some (out, s)"
| "dispatch_loop (Suc k) out s =
     (case co_insnQueue s of
        [] \<Rightarrow> Some (out, s)
      | i # _ \<Rightarrow>
          let s1 = dispatch_stats i s
          in if w_canDispatch (co_ops s1) i (co_window s1) \<and> \<not> ifROBFull (co_window s1)
             then let (ok, u) = ls_canDispatch (co_ops s1) i True (co_lsu s1); s2 = s1\<lparr>co_lsu := u\<rparr>
                  in if ok then do { s3 \<leftarrow> dispatch_one i s2; dispatch_loop k (out @ [i]) s3 }
                     else Some (out, s2)
             else Some (out, s1))"

definition core_dispatch :: "('n, 'm, 'p) core \<Rightarrow> ('n, 'm, 'p) core option" where
  "core_dispatch s =
     (if co_flushStall s then Some s
      else do { (dispatched, s1) \<leftarrow> dispatch_loop (unat (w_windowSize (co_window s))) [] s;
                Some (insnToIssueQueues dispatched s1) })"

section \<open>Write-back, execution and commit\<close>

definition release_units :: "nat \<Rightarrow> op_store \<times> issue_unit \<times> port list \<Rightarrow> op_store \<times> issue_unit \<times> port list" where
  "release_units i = (\<lambda>(ops, u, ports).
     (let (u1, ports1) = freeFU (do_using_fus (ops i)) (do_using_ports (ops i)) (u, ports)
      in (op_freeFU i ops, u1, ports1)))"

definition wb_one :: "u64 \<Rightarrow> nat \<Rightarrow> op_store \<times> issue_unit \<times> port list \<Rightarrow> (op_store \<times> issue_unit \<times> port list) option" where
  "wb_one cycle i = (\<lambda>(ops, u, ports).
     (let st = do_status (ops i)
      in if isCosimFunc (ops i) then Some (upd_op i (\<lambda>p. p\<lparr>do_E := cycle\<rparr>) ops, u, ports)
         else if st = COMMITED then Some (ops, u, ports)
         else do { assert_that (st = EXECUTING \<or> st = SLEEP \<or> st = FINISHED);
                   ops1 \<leftarrow> (if st \<noteq> FINISHED \<and> op_finish (ops i)
                            then do { assert_that (st = EXECUTING);
                                      Some (upd_op i (\<lambda>p. p\<lparr>do_E := cycle, do_status := FINISHED\<rparr>) ops) }
                            else Some ops);
                   Some (if do_status (ops1 i) = FINISHED then release_units i (ops1, u, ports)
                         else (ops1, u, ports)) }))"

fun wb_insns :: "u64 \<Rightarrow> nat list \<Rightarrow> op_store \<times> issue_unit \<times> port list \<Rightarrow> (op_store \<times> issue_unit \<times> port list) option" where
  "wb_insns cycle [] x = Some x"
| "wb_insns cycle (i # is) x = wb_one cycle i x \<bind> wb_insns cycle is"

definition core_writeBack :: "('n, 'm, 'p) core \<Rightarrow> ('n, 'm, 'p) core option" where
  "core_writeBack s =
     (if co_flushStall s then Some s
      else do { (m, ops, lsu) \<leftarrow> ls_wb (co_txns s, co_ops s, co_lsu s);
                (ops1, u, ports) \<leftarrow> wb_insns (co_cycles s) (co_inFlight s) (ops, co_unit s, co_ports s);
                Some (s\<lparr>co_txns := m, co_lsu := lsu, co_ops := ops1, co_unit := u, co_ports := ports\<rparr>) })"

record exec_state =
  ex_txns :: txn_store
  ex_ops :: op_store
  ex_l1d :: cache
  ex_unit :: issue_unit
  ex_ports :: "port list"

definition on_cache ::
    "(txn_store \<times> op_store \<times> cache \<Rightarrow> (txn_store \<times> op_store \<times> cache) option) \<Rightarrow> exec_state \<Rightarrow> exec_state option" where
  "on_cache g x =
     do { (m, ops, c) \<leftarrow> g (ex_txns x, ex_ops x, ex_l1d x);
          Some (x\<lparr>ex_txns := m, ex_ops := ops, ex_l1d := c\<rparr>) }"

definition exec_one :: "lsunit \<Rightarrow> nat \<Rightarrow> exec_state \<Rightarrow> exec_state option" where
  "exec_one lsu i x =
     (let p = ex_ops x i
      in if isCosimFunc p \<and> \<not> ci_is_fence (do_cosim p) then Some (x\<lparr>ex_ops := set_status i FINISHED (ex_ops x)\<rparr>)
         else if do_status p = FINISHED then Some x
         else do { let x1 = x\<lparr>ex_ops := op_execute i (ex_ops x)\<rparr>;
                   x2 \<leftarrow> (if isLoad (ex_ops x1 i) then on_cache (executeLoad i lsu) x1 else Some x1);
                   x3 \<leftarrow> (if isStore (ex_ops x2 i) then on_cache (executeStore i) x2 else Some x2);
                   Some (if do_status (ex_ops x3 i) = SLEEP
                         then let (ops, u, ports) = release_units i (ex_ops x3, ex_unit x3, ex_ports x3)
                              in x3\<lparr>ex_ops := ops, ex_unit := u, ex_ports := ports\<rparr>
                         else x3) })"

fun exec_insns :: "lsunit \<Rightarrow> nat list \<Rightarrow> exec_state \<Rightarrow> exec_state option" where
  "exec_insns lsu [] x = Some x"
| "exec_insns lsu (i # is) x = exec_one lsu i x \<bind> exec_insns lsu is"

definition core_execute :: "('n, 'm, 'p) core \<Rightarrow> ('n, 'm, 'p) core option" where
  "core_execute s =
     (if co_flushStall s then Some s
      else do { x \<leftarrow> exec_insns (co_lsu s) (co_inFlight s)
                       \<lparr>ex_txns = co_txns s, ex_ops = co_ops s, ex_l1d = lv_l1d (co_levels s),
                        ex_unit = co_unit s, ex_ports = co_ports s\<rparr>;
                Some (s\<lparr>co_txns := ex_txns x, co_ops := ex_ops x, co_levels := (co_levels s)\<lparr>lv_l1d := ex_l1d x\<rparr>,
                        co_unit := ex_unit x, co_ports := ex_ports x\<rparr>) })"

definition commitInsn :: "op_store \<Rightarrow> u64 \<Rightarrow> nat list \<Rightarrow> nat list" where
  "commitInsn ops doneSN l = dropWhile (\<lambda>i. do_dyn_id (ops i) \<le> doneSN) l"

definition leaves_flight :: "op_store \<Rightarrow> nat \<Rightarrow> bool" where
  "leaves_flight ops i \<longleftrightarrow> do_status (ops i) = COMMITED \<and>
     (if isLoad (ops i) \<or> isStore (ops i) then do_sent (ops i) else True)"

definition core_commit :: "('n, 'm, 'p) core \<Rightarrow> ('n, 'm, 'p) core" where
  "core_commit s =
     (if co_flushStall s then s
      else let (w, ops, bp) = retireInstruction (co_cycles s) (co_window s, co_ops s, co_bp s)
           in s\<lparr>co_window := w, co_ops := ops, co_bp := bp,
                co_lsu := commitInstruction ops (w_doneSeqNum w) (co_lsu s),
                co_instList := commitInsn ops (w_doneSeqNum w) (co_instList s),
                co_inFlight := filter (\<lambda>i. \<not> leaves_flight ops i) (co_inFlight s)\<rparr>)"

section \<open>One cycle\<close>

text \<open>
  \<open>stonne->cycle()\<close>: the accelerator works on the L2 and the transactions of the core; the
  instructions of the commands it retires are set to \<open>FINISHED\<close>.
\<close>

definition core_stonne :: "'n sa_env \<Rightarrow> ('n, 'm, 'p) core \<Rightarrow> ('n, 'm, 'p) core option" where
  "core_stonne E s =
     do { let a = (co_sa s)\<lparr>sa_l2 := lv_l2 (co_levels s), sa_txns := co_txns s\<rparr>;
          a1 \<leftarrow> stonne_cycle E a;
          let done_insns = drop (length (sa_finished a)) (sa_finished a1);
          Some (s\<lparr>co_sa := a1, co_txns := sa_txns a1, co_levels := (co_levels s)\<lparr>lv_l2 := sa_l2 a1\<rparr>,
                  co_ops := foldl (\<lambda>ops i. if isCosimFunc (ops i) then set_status i FINISHED ops else ops)
                              (co_ops s) done_insns\<rparr>) }"

text \<open>The bubble: the counter moves by one and the stall ends in the cycle in which it began.\<close>

definition flush_bubble :: "('n, 'm, 'p) core \<Rightarrow> ('n, 'm, 'p) core option" where
  "flush_bubble s =
     (if co_flushStall s
      then do { let s1 = (if co_flushStallCycle s > 0 then s\<lparr>co_flushStallCycle := co_flushStallCycle s - 1\<rparr> else s);
                assert_that (co_flushStallCycle s1 \<ge> 0);
                assert_that (co_FTQ s1 \<noteq> []);
                Some (s1\<lparr>co_flushStall := False,
                         co_ops := upd_op (hd (co_FTQ s1)) (\<lambda>p. p\<lparr>do_flush_stall := False\<rparr>) (co_ops s1)\<rparr>) }
      else Some s)"

text \<open>Deliver what the L1 caches and the L2 hand to the LSU, the fetch unit and the DMA engine.\<close>

definition deliver :: "routed \<Rightarrow> ('n, 'm, 'p) core \<Rightarrow> ('n, 'm, 'p) core" where
  "deliver r s = s\<lparr>co_lsu := fold ls_recvResponse (to_lsu r) (co_lsu s),
                   co_ifu := fold if_recvResponse (to_ifu r) (co_ifu s)\<rparr>"

fun dma_answers :: "txn_store \<Rightarrow> nat list \<Rightarrow> dma_engine \<Rightarrow> dma_engine option" where
  "dma_answers m [] e = Some e"
| "dma_answers m (r # rs) e = dma_recvResponse m r e \<bind> dma_answers m rs"

definition core_caches :: "'m backend \<Rightarrow> ('n, 'm, 'p) core \<Rightarrow> ('n, 'm, 'p) core option" where
  "core_caches mb s =
     do { let lv = co_levels s;
          (m1, i1, l2a, ri) \<leftarrow> l1_process (co_txns s, lv_l1i lv, lv_l2 lv);
          (m2, d2, l2b, rd) \<leftarrow> l1_process (m1, lv_l1d lv, l2a);
          (m3, lv3, dr3, dma) \<leftarrow> l2_process mb (de_has_l2 (sa_dma (co_sa s)))
                                   (m2, \<lparr>lv_l1i = i1, lv_l1d = d2, lv_l2 = l2b\<rparr>, co_dram s);
          e \<leftarrow> dma_answers m3 dma (sa_dma (co_sa s));
          Some (deliver rd (deliver ri
                 (s\<lparr>co_txns := m3, co_levels := lv3, co_dram := dr3, co_sa := (co_sa s)\<lparr>sa_dma := e\<rparr>\<rparr>))) }"

definition core_drained :: "('n, 'm, 'p) core \<Rightarrow> bool" where
  "core_drained s \<longleftrightarrow>
     co_processedOps s = [] \<and> co_insnQueue s = [] \<and> co_issueQueue s = [] \<and> co_inFlight s = [] \<and>
     ifROBEmpty (co_window s) \<and> co_flushedInsns s = [] \<and> co_to_decode s = [] \<and> co_to_rename s = [] \<and>
     co_fetchBuffer s = [] \<and> aq_isEmpty (co_allocQueue s) \<and> is_execution_finished (co_sa s) \<and>
     hasNoAvalInstToRename (co_allocQueue s)"

text \<open>The stages of \<open>run\<close> before fetch, and the whole.\<close>

definition core_backend :: "'n sa_env \<Rightarrow> ('n, 'm, 'p) core \<Rightarrow> ('n, 'm, 'p) core option" where
  "core_backend E s =
     do { s1 \<leftarrow> core_stonne E (core_commit s);
          s2 \<leftarrow> core_execute s1;
          s3 \<leftarrow> core_writeBack s2;
          s4 \<leftarrow> core_issue s3;
          s5 \<leftarrow> core_dispatch s4;
          Some (core_decode (core_rename s5)) }"

definition core_run ::
    "'n sa_env \<Rightarrow> 'm backend \<Rightarrow> 'p preprocess \<Rightarrow> ('n, 'm, 'p) core \<Rightarrow> ('n, 'm, 'p) core option" where
  "core_run E mb pp s =
     do { s5 \<leftarrow> core_backend E s;
          s6 \<leftarrow> core_fetch pp s5;
          s7 \<leftarrow> flush_bubble s6;
          s8 \<leftarrow> core_caches mb (s7\<lparr>co_cycles := co_cycles s7 + 1\<rparr>);
          Some (if core_drained s8 then s8\<lparr>co_running := False\<rparr> else s8) }"

text \<open>The loop of \<open>main\<close>: the core, then the memory.\<close>

definition sim_cycle ::
    "'n sa_env \<Rightarrow> 'm backend \<Rightarrow> 'p preprocess \<Rightarrow> ('n, 'm, 'p) core \<Rightarrow> ('n, 'm, 'p) core option" where
  "sim_cycle E mb pp s =
     do { s1 \<leftarrow> core_run E mb pp s;
          (dr, l2) \<leftarrow> dram_process mb (co_dram s1, lv_l2 (co_levels s1));
          Some (s1\<lparr>co_dram := dr, co_levels := (co_levels s1)\<lparr>lv_l2 := l2\<rparr>\<rparr>) }"

end
