(* ===== verification/CoreOrder.thy ===== *)
theory CoreOrder
  imports Core
begin

text \<open>
  What a cycle of the core does to the order of the instructions and to the occupancy of its queues,
  over the stages of theory \<open>Core\<close>.

  The containers of the core from \<open>processedOps\<close> to the reorder buffer form one line of instructions;
  the abstract specification of the pipeline is a queue: a cycle takes what it retires from the head
  of the line and puts the block it fetches at the end.
\<close>

section \<open>The line of instructions\<close>

definition line :: "('n, 'm, 'p) core \<Rightarrow> nat list" where
  "line s = w_instList (co_window s) @ co_insnQueue s @ co_to_rename s @ co_to_decode s @
     co_fetchBuffer s @ co_flushedInsns s @ co_processedOps s"

text \<open>What \<open>commit\<close> takes from the head, and the block that \<open>fetch\<close> gets from \<open>preprocess\<close>.\<close>

definition retired_in :: "('n, 'm, 'p) core \<Rightarrow> nat list" where
  "retired_in s = take (length (w_instList (co_window s)) - length (w_instList (co_window (core_commit s))))
     (w_instList (co_window s))"

definition fetched_in :: "'n sa_env \<Rightarrow> 'p preprocess \<Rightarrow> ('n, 'm, 'p) core \<Rightarrow> nat list" where
  "fetched_in E pp s =
     (case core_backend E s of
        None \<Rightarrow> []
      | Some s1 \<Rightarrow>
          if co_flushStall s1 \<or> co_to_decode s1 \<noteq> [] then []
          else case fetch_begin s1 of
                 None \<Rightarrow> []
               | Some (shouldFetch, notWaiting, shouldStall, s2) \<Rightarrow> fst (next_block pp notWaiting s2))"

text \<open>The lists of the line; the stages after commit and before dispatch leave them alone.\<close>

definition order_view :: "('n, 'm, 'p) core \<Rightarrow> nat list list" where
  "order_view s = [w_instList (co_window s), co_insnQueue s, co_to_rename s, co_to_decode s,
     co_fetchBuffer s, co_flushedInsns s, co_processedOps s]"

lemma line_view: "order_view s' = order_view s \<Longrightarrow> line s' = line s"
  by (simp add: order_view_def line_def)

lemma upd_stats_simps [simp]:
  "order_view (upd_stats f s) = order_view s" "co_window (upd_stats f s) = co_window s"
  "co_ops (upd_stats f s) = co_ops s" "co_lsu (upd_stats f s) = co_lsu s" "co_FTQ (upd_stats f s) = co_FTQ s"
  "co_insnQueue (upd_stats f s) = co_insnQueue s" "co_issueQueue (upd_stats f s) = co_issueQueue s"
  "co_cosimIssueQueue (upd_stats f s) = co_cosimIssueQueue s" "co_inFlight (upd_stats f s) = co_inFlight s"
  "co_flushedInsns (upd_stats f s) = co_flushedInsns s" "co_fetchBuffer (upd_stats f s) = co_fetchBuffer s"
  "co_to_decode (upd_stats f s) = co_to_decode s" "co_flushStall (upd_stats f s) = co_flushStall s"
  "co_sa (upd_stats f s) = co_sa s" "co_prog (upd_stats f s) = co_prog s" "line (upd_stats f s) = line s"
  by (simp_all add: upd_stats_def order_view_def line_def)

section \<open>Commit to issue\<close>

lemma retire_loop_drop:
  "retire_loop n cycle (w, ops, bp) = (w', ops', bp') \<Longrightarrow> \<exists>k. w_instList w' = drop k (w_instList w)"
proof (induction n arbitrary: w ops bp)
  case 0
  then show ?case by (auto intro: exI [of _ 0])
next
  case (Suc n)
  show ?case
  proof (cases "w_instList w")
    case Nil
    with Suc.prems show ?thesis by auto
  next
    case (Cons i rest)
    show ?thesis
    proof (cases "do_status (ops i) = FINISHED")
      case False
      with Suc.prems Cons show ?thesis by (auto intro: exI [of _ 0] split: if_splits)
    next
      case True
      obtain w1 ops1 bp1 where one: "retire_one cycle i (w, ops, bp) = (w1, ops1, bp1)"
        by (cases "retire_one cycle i (w, ops, bp)") auto
      have "retire_loop n cycle (w1, ops1, bp1) = (w', ops', bp')" using Suc.prems Cons True one by simp
      then obtain k where "w_instList w' = drop k (w_instList w1)" using Suc.IH by blast
      then show ?thesis
        using retire_one_simps(1) [OF one True] Cons by (auto intro: exI [of _ "Suc k"])
    qed
  qed
qed

lemma take_from_end: "take (length xs - (length xs - k)) xs @ drop k xs = xs"
  by (cases "k \<le> length xs") simp_all

lemma commit_line: "retired_in s @ line (core_commit s) = line s"
proof -
  obtain w ops bp where r: "retireInstruction (co_cycles s) (co_window s, co_ops s, co_bp s) = (w, ops, bp)"
    by (metis prod_cases3)
  then have "retire_loop (nat (w_retireSize (co_window s))) (co_cycles s) (co_window s, co_ops s, co_bp s) = (w, ops, bp)"
    by (simp add: retireInstruction_def)
  then obtain k where "w_instList w = drop k (w_instList (co_window s))" using retire_loop_drop by blast
  then have "retired_in s @ w_instList (co_window (core_commit s)) = w_instList (co_window s)"
    using r by (auto simp: retired_in_def core_commit_def Let_def take_from_end)
  then show ?thesis by (auto simp: line_def core_commit_def Let_def split: prod.splits)
qed

lemma stonne_view: "core_stonne E s = Some s' \<Longrightarrow> order_view s' = order_view s"
  by (auto simp: core_stonne_def order_view_def Let_def split: bind_splits)

lemma execute_view: "core_execute s = Some s' \<Longrightarrow> order_view s' = order_view s"
  by (auto simp: core_execute_def order_view_def split: if_splits bind_splits)

lemma writeBack_view: "core_writeBack s = Some s' \<Longrightarrow> order_view s' = order_view s"
  by (auto simp: core_writeBack_def order_view_def split: if_splits bind_splits)

lemma issue_cpu_view: "issue_cpu s = Some (r, s') \<Longrightarrow> order_view s' = order_view s"
  by (auto simp: issue_cpu_def order_view_def split: bind_splits)

lemma cosim_issue_view: "core_cosim_issue i s = Some s' \<Longrightarrow> order_view s' = order_view s"
  unfolding core_cosim_issue_def Let_def by (auto simp: order_view_def upd_stats_def split: bind_splits)

lemma issue_cosim_view: "issue_cosim r s = Some (r', s') \<Longrightarrow> order_view s' = order_view s"
  by (auto simp: issue_cosim_def Let_def order_view_def split: list.splits if_splits bind_splits
      dest!: cosim_issue_view)

lemma issue_view: "core_issue s = Some s' \<Longrightarrow> order_view s' = order_view s"
  by (auto simp: core_issue_def issue_stats_def Let_def split: if_splits bind_splits
      dest!: issue_cpu_view issue_cosim_view) (simp_all add: order_view_def upd_stats_def)

section \<open>Dispatch, rename and decode\<close>

lemma dispatch_one_line:
  assumes "dispatch_one i s = Some s'" "co_insnQueue s = i # rest"
  shows "line s' = line s"
  using assms by (auto simp: dispatch_one_def Let_def line_def w_addInstruction_def split: bind_splits if_splits)

lemma dispatch_loop_line: "dispatch_loop k out s = Some (out', s') \<Longrightarrow> line s' = line s"
proof (induction k arbitrary: out s)
  case (Suc k)
  show ?case
  proof (cases "co_insnQueue s")
    case (Cons i rest)
    let ?s1 = "dispatch_stats i s"
    have s1: "line ?s1 = line s" "co_insnQueue ?s1 = i # rest" using Cons by (simp_all add: dispatch_stats_def)
    obtain ok u where ls: "ls_canDispatch (co_ops ?s1) i True (co_lsu ?s1) = (ok, u)" by fastforce
    let ?s2 = "?s1\<lparr>co_lsu := u\<rparr>"
    have s2: "line ?s2 = line s" "co_insnQueue ?s2 = i # rest" using s1 by (simp_all add: line_def)
    consider (no) "s' = ?s1" | (full) "s' = ?s2"
      | (go) s3 where "dispatch_one i ?s2 = Some s3" "dispatch_loop k (out @ [i]) s3 = Some (out', s')"
      using Suc.prems Cons ls by (auto simp: Let_def split: if_splits bind_splits)
    then show ?thesis
    proof cases
      case go
      then show ?thesis using Suc.IH [OF go(2)] dispatch_one_line [OF go(1) s2(2)] s2(1) by simp
    qed (use s1 s2 in simp_all)
  qed (use Suc.prems in auto)
qed simp

lemma to_queues_view: "order_view (insnToIssueQueues is s) = order_view s"
  unfolding insnToIssueQueues_def
  by (induction "is" arbitrary: s) (simp_all add: order_view_def)

lemma dispatch_line: "core_dispatch s = Some s' \<Longrightarrow> line s' = line s"
  by (auto simp: core_dispatch_def line_view [OF to_queues_view] dispatch_loop_line split: if_splits bind_splits)

lemma rename_loop_line: "line (rename_loop w k s) = line s"
  by (induction w k s rule: rename_loop.induct) (auto simp: line_def split: list.splits prod.splits)

lemma decode_loop_line: "decode_loop w k (ren, dec) = (ren', dec') \<Longrightarrow> ren' @ dec' = ren @ dec"
  by (induction w k "(ren, dec)" arbitrary: ren dec rule: decode_loop.induct)
    (auto split: if_splits list.splits)

lemma rename_line: "line (core_rename s) = line s"
  by (simp add: core_rename_def rename_loop_line Let_def)

lemma decode_line: "line (core_decode s) = line s"
proof -
  obtain ren dec where d: "decode_loop (nat (w_retireSize (co_window s))) (nat (w_retireSize (co_window s)))
      (co_to_rename s, co_to_decode s) = (ren, dec)" by fastforce
  show ?thesis
  proof (cases "co_flushStall s \<or> co_to_rename s \<noteq> []")
    case False
    then have "core_decode s = s\<lparr>co_to_rename := ren, co_to_decode := dec\<rparr>" using d by (simp add: core_decode_def Let_def)
    then show ?thesis using decode_loop_line [OF d] by (simp add: line_def)
  qed (auto simp: core_decode_def)
qed

lemma backend_line:
  assumes "core_backend E s = Some s'"
  shows "retired_in s @ line s' = line s"
proof -
  obtain s1 s2 s3 s4 s5 where "core_stonne E (core_commit s) = Some s1" "core_execute s1 = Some s2"
    "core_writeBack s2 = Some s3" "core_issue s3 = Some s4" "core_dispatch s4 = Some s5"
    and s': "s' = core_decode (core_rename s5)"
    using assms by (auto simp: core_backend_def split: bind_splits)
  then have "line s5 = line (core_commit s)"
    by (metis dispatch_line execute_view issue_view line_view stonne_view writeBack_view)
  then show ?thesis using s' by (simp add: decode_line rename_line commit_line)
qed

section \<open>Fetch\<close>

lemma move_group_line:
  "fs_buffer (move_group n F0 f) @ fs_processed (move_group n F0 f) = fs_buffer f @ fs_processed f"
  by (induction n F0 f rule: move_group.induct) (auto split: list.splits)

lemma fetch_unit_line:
  "fakeIF cycle f = Some f' \<Longrightarrow> fs_buffer f' @ fs_processed f' = fs_buffer f @ fs_processed f"
  "IF1 f = Some f' \<Longrightarrow> fs_buffer f' @ fs_processed f' = fs_buffer f @ fs_processed f"
  "IF0 cycle f = Some f' \<Longrightarrow> fs_buffer f' @ fs_processed f' = fs_buffer f @ fs_processed f"
  by (auto simp: fakeIF_def IF1_def IF0_def Let_def move_group_line split: bind_splits list.splits option.splits
      if_splits prod.splits)

lemma on_fetch_line:
  assumes "on_fetch g s = Some s'" "co_flushedInsns s = []"
    "\<And>f f'. g f = Some f' \<Longrightarrow> fs_buffer f' @ fs_processed f' = fs_buffer f @ fs_processed f"
  shows "line s' = line s" "co_flushedInsns s' = []"
proof -
  obtain f where f: "g (fs_view s) = Some f" "s' = fs_store f s" using assms(1) by (auto simp: on_fetch_def)
  have "fs_buffer f @ fs_processed f = co_fetchBuffer s @ co_processedOps s"
    using assms(3) [OF f(1)] by (simp add: fs_view_def)
  then show "line s' = line s" "co_flushedInsns s' = []"
    using assms(2) f(2) by (simp_all add: line_def fs_store_def)
qed

lemma take_flushed_line: "line (take_flushed s) = line s" "co_flushedInsns (take_flushed s) = []"
  by (simp_all add: take_flushed_def line_def)

lemma wait_branch_line:
  assumes "wait_branch b s = (nw, st, s')"
  shows "line s' = line s" "co_flushedInsns s' = co_flushedInsns s"
  using assms by (auto simp: wait_branch_def Let_def line_def upd_stats_def split: option.splits if_splits)

lemma fetch_begin_line:
  assumes "fetch_begin s = Some (sf, nw, st, s')"
  shows "line s' = line s" "co_flushedInsns s' = []"
proof -
  obtain s1 b where s1: "on_fetch IF1 (take_flushed s) = Some s1" and w: "wait_branch b s1 = (nw, st, s')"
    using assms by (auto simp: fetch_begin_def Let_def split: bind_splits)
  note o = on_fetch_line [OF s1 take_flushed_line(2) fetch_unit_line(2)]
  show "line s' = line s" "co_flushedInsns s' = []"
    using wait_branch_line [OF w] o take_flushed_line(1) [of s] by simp_all
qed

lemma split_block_sum: "split_block ops n bs = Some (fs, cs) \<Longrightarrow> sum_list cs = length bs"
proof (induction ops n bs arbitrary: fs cs rule: split_block.induct)
  case (2 ops n b bs)
  obtain l where l: "get_cache_line_addr (do_uid (ops b)) n = Some l"
    using "2.prems" by (auto simp: split_block.simps split: option.splits)
  define k where "k = group_size ops l n (b # bs)"
  obtain fs' cs' where r: "split_block ops n (drop k (b # bs)) = Some (fs', cs')" "cs = k # cs'"
    using "2.prems" l by (auto simp: split_block.simps k_def Let_def split: bind_splits)
  have "0 < n" using l by (cases n) (auto simp: get_cache_line_addr_def)
  then have "k \<le> length (b # bs)" unfolding k_def by (intro group_size_pos(3)) simp_all
  then show ?case using "2.IH" [OF l k_def r(1)] r(2) by simp
qed (simp add: split_block.simps)

lemma enqueue_line:
  assumes "enqueue_block bs s = Some s'"
  shows "line s' = line s @ bs" "co_flushedInsns s' = co_flushedInsns s"
proof -
  let ?s1 = "if bs \<noteq> [] then s\<lparr>co_lastOp := Some (last bs)\<rparr> else s"
  obtain fs cs where c: "split_block (co_ops ?s1) (co_l1i_CLSize ?s1 div 4) bs = Some (fs, cs)"
    and s': "s' = ?s1\<lparr>co_FTQ := co_FTQ ?s1 @ fs, co_fetchCount := co_fetchCount ?s1 @ cs,
                      co_processedOps := co_processedOps ?s1 @ take (sum_list cs) bs\<rparr>"
    using assms unfolding enqueue_block_def Let_def by (auto split: bind_splits)
  show "line s' = line s @ bs" "co_flushedInsns s' = co_flushedInsns s"
    using split_block_sum [OF c] by (simp_all add: s' line_def)
qed

lemma mark_flush_line: "line (mark_flush b s) = line s" "co_flushedInsns (mark_flush b s) = co_flushedInsns s"
  by (simp_all add: mark_flush_def line_def upd_stats_def)

lemma ask_icache_line:
  assumes "ask_icache sf s = Some s'" "co_flushedInsns s = []"
  shows "line s' = line s"
proof (cases sf)
  case True
  then obtain l where "on_fetch (IF0 (co_cycles s)) (s\<lparr>co_last_fetch_line := l\<rparr>) = Some s'"
    using assms(1) by (auto simp: ask_icache_def split: bind_splits)
  then have "line s' = line (s\<lparr>co_last_fetch_line := l\<rparr>)"
    by (rule on_fetch_line(1)) (use assms(2) in \<open>simp_all add: fetch_unit_line(3)\<close>)
  then show ?thesis by (simp add: line_def)
qed (use assms in \<open>simp add: ask_icache_def\<close>)

lemma fetch_request_line:
  assumes "fetch_request sf s = Some s'" "co_flushedInsns s = []"
  shows "line s' = line s"
proof (cases "do_flush_stall (co_ops s (hd (co_FTQ s)))")
  case False
  then obtain hit where h: "(if hit then on_fetch (fakeIF (co_cycles s)) s else ask_icache sf s) = Some s'"
    using assms(1) by (auto simp: fetch_request_def split: bind_splits)
  then show ?thesis
    using ask_icache_line [OF _ assms(2)] on_fetch_line(1) [OF _ assms(2) fetch_unit_line(1)]
    by (cases hit) auto
qed (use assms in \<open>auto simp: fetch_request_def\<close>)

lemma buffer_to_decode_line: "line (buffer_to_decode w k s) = line s"
  by (induction w k s rule: buffer_to_decode.induct) (auto simp: line_def split: list.splits)

lemma fetch_group_line:
  assumes "fetch_group sf st s = Some s'" "co_flushedInsns s = []"
  shows "line s' = line s"
proof (cases "co_FTQ s = []")
  case False
  then have "fetch_request sf (mark_flush st s) = Some s'" using assms(1) by (simp add: fetch_group_def)
  then show ?thesis using fetch_request_line assms(2) mark_flush_line by metis
qed (use assms in \<open>auto simp: fetch_group_def\<close>)

lemma count_stall_line [simp]: "line (count_stall s) = line s"
  by (simp add: count_stall_def)

lemma fetch_end_line:
  assumes "fetch_end sf st bs s = Some s'" "co_flushedInsns s = []"
  shows "line s' = line s @ bs"
proof -
  obtain s4 s5 where s4: "enqueue_block bs s = Some s4" and s5: "fetch_group sf st s4 = Some s5"
    and s': "line s' = line s5"
    using assms(1) by (auto simp: fetch_end_def Let_def buffer_to_decode_line split: bind_splits)
  show ?thesis
    using s' fetch_group_line [OF s5] enqueue_line [OF s4] assms(2) by simp
qed

lemma next_block_line:
  assumes "next_block pp nw s = (bs, s')"
  shows "line s' = line s" "co_flushedInsns s' = co_flushedInsns s"
  using assms by (auto simp: next_block_def line_def split: if_splits prod.splits)

lemma fetch_line:
  assumes "core_backend E s0 = Some s" "core_fetch pp s = Some s'"
  shows "line s' = line s @ fetched_in E pp s0"
proof (cases "co_flushStall s \<or> co_to_decode s \<noteq> []")
  case True
  then show ?thesis using assms by (auto simp: core_fetch_def fetched_in_def split: if_splits)
next
  case False
  then obtain sf nw st s2 where b: "fetch_begin s = Some (sf, nw, st, s2)"
    and r: "(let (bs, s3) = next_block pp nw s2 in fetch_end sf st bs s3) = Some s'"
    using assms(2) by (auto simp: core_fetch_def split: bind_splits)
  obtain bs s3 where n: "next_block pp nw s2 = (bs, s3)" by fastforce
  have "line s' = line s3 @ bs"
    using r n fetch_end_line next_block_line(2) [OF n] fetch_begin_line(2) [OF b] by simp
  moreover have "fetched_in E pp s0 = bs" using assms(1) False b n by (simp add: fetched_in_def)
  ultimately show ?thesis using next_block_line(1) [OF n] fetch_begin_line(1) [OF b] by simp
qed

section \<open>A cycle\<close>

lemma bubble_view: "flush_bubble s = Some s' \<Longrightarrow> order_view s' = order_view s"
  unfolding flush_bubble_def Let_def by (auto simp: order_view_def split: if_splits bind_splits)

lemma caches_view: "core_caches mb s = Some s' \<Longrightarrow> order_view s' = order_view s"
  unfolding core_caches_def Let_def by (auto simp: order_view_def deliver_def split: bind_splits)

lemma sim_cycle_line:
  assumes "sim_cycle E mb pp s = Some s'"
  shows "retired_in s @ line s' = line s @ fetched_in E pp s"
proof -
  obtain s5 s6 s7 s8 where b: "core_backend E s = Some s5" and f: "core_fetch pp s5 = Some s6"
    and v: "flush_bubble s6 = Some s7" "core_caches mb (s7\<lparr>co_cycles := co_cycles s7 + 1\<rparr>) = Some s8"
    and s': "order_view s' = order_view s8"
    using assms unfolding sim_cycle_def core_run_def by (auto simp: order_view_def split: bind_splits if_splits)
  have "order_view s' = order_view s6"
    using s' bubble_view [OF v(1)] caches_view [OF v(2)] by (simp add: order_view_def)
  then have "line s' = line s5 @ fetched_in E pp s"
    using fetch_line [OF b f] line_view by metis
  then show ?thesis using backend_line [OF b] by simp
qed

section \<open>Occupancy of the queues\<close>

definition occupancy_ok :: "('n, 'm, 'p) core \<Rightarrow> bool" where
  "occupancy_ok s \<longleftrightarrow>
     w_robUsed (co_window s) = int (length (w_instList (co_window s))) \<and>
     w_robUsed (co_window s) \<le> w_robSize (co_window s) \<and>
     w_issueQueueUsed (co_window s) = int (length (co_issueQueue s)) \<and>
     w_issueQueueUsed (co_window s) \<le> w_issueQueueCapacity (co_window s) \<and>
     w_usedCosimQueueSize (co_window s) = int (length (co_cosimIssueQueue s)) \<and>
     w_usedCosimQueueSize (co_window s) \<le> w_cosimQueueSize (co_window s) \<and>
     lq_ok (ls_ldq (co_lsu s)) \<and> lq_ok (ls_stq (co_lsu s))"

text \<open>The invariant while the instructions \<open>out\<close> are dispatched but in no issue queue yet.\<close>

definition dispatching_ok :: "nat list \<Rightarrow> ('n, 'm, 'p) core \<Rightarrow> bool" where
  "dispatching_ok out s \<longleftrightarrow>
     w_robUsed (co_window s) = int (length (w_instList (co_window s))) \<and>
     w_robUsed (co_window s) \<le> w_robSize (co_window s) \<and>
     w_issueQueueUsed (co_window s) =
       int (length (co_issueQueue s) + length (filter (\<lambda>i. \<not> isCosimFunc (co_ops s i)) out)) \<and>
     w_issueQueueUsed (co_window s) \<le> w_issueQueueCapacity (co_window s) \<and>
     w_usedCosimQueueSize (co_window s) =
       int (length (co_cosimIssueQueue s) + length (filter (\<lambda>i. isCosimFunc (co_ops s i)) out)) \<and>
     w_usedCosimQueueSize (co_window s) \<le> w_cosimQueueSize (co_window s) \<and>
     lq_ok (ls_ldq (co_lsu s)) \<and> lq_ok (ls_stq (co_lsu s))"

lemma occupancy_dispatching: "occupancy_ok s \<longleftrightarrow> dispatching_ok [] s"
  by (simp add: occupancy_ok_def dispatching_ok_def)

definition occ_view :: "('n, 'm, 'p) core \<Rightarrow> window \<times> nat list \<times> nat list \<times> ldstq \<times> ldstq" where
  "occ_view s = (co_window s, co_issueQueue s, co_cosimIssueQueue s, ls_ldq (co_lsu s), ls_stq (co_lsu s))"

lemma occ_view_ok: "occ_view s' = occ_view s \<Longrightarrow> occupancy_ok s' = occupancy_ok s"
  by (simp add: occ_view_def occupancy_ok_def)

lemma retire_loop_rob:
  "retire_loop n cycle (w, ops, bp) = (w', ops', bp') \<Longrightarrow>
     w_robUsed w' - int (length (w_instList w')) = w_robUsed w - int (length (w_instList w)) \<and>
     w_robUsed w' \<le> w_robUsed w \<and> w_robSize w' = w_robSize w \<and>
     w_issueQueueUsed w' = w_issueQueueUsed w \<and> w_usedCosimQueueSize w' = w_usedCosimQueueSize w \<and>
     w_issueQueueCapacity w' = w_issueQueueCapacity w \<and> w_cosimQueueSize w' = w_cosimQueueSize w"
proof (induction n arbitrary: w ops bp)
  case (Suc n)
  show ?case
  proof (cases "w_instList w")
    case (Cons i rest)
    show ?thesis
    proof (cases "do_status (ops i) = FINISHED")
      case False
      with Suc.prems Cons show ?thesis by (auto split: if_splits)
    next
      case True
      obtain w1 ops1 bp1 where one: "retire_one cycle i (w, ops, bp) = (w1, ops1, bp1)"
        by (cases "retire_one cycle i (w, ops, bp)") auto
      have "retire_loop n cycle (w1, ops1, bp1) = (w', ops', bp')" using Suc.prems Cons True one by simp
      from Suc.IH [OF this] retire_one_simps(1-3,9-12) [OF one True] Cons show ?thesis by auto
    qed
  qed (use Suc.prems in auto)
qed auto

lemma commit_occ:
  assumes "occupancy_ok s"
  shows "occupancy_ok (core_commit s)"
proof -
  obtain w ops bp where r: "retire_loop (nat (w_retireSize (co_window s))) (co_cycles s) (co_window s, co_ops s, co_bp s) = (w, ops, bp)"
    by (metis prod_cases3)
  have q: "lq_ok (ls_ldq (commitInstruction ops sn u))" "lq_ok (ls_stq (commitInstruction ops sn u))"
    if "lq_ok (ls_ldq u)" "lq_ok (ls_stq u)" for sn u
    using that by (simp_all add: commitInstruction_def commitLoads_def commitStores_def commitMemOps_ok)
  show ?thesis
    using assms r retire_loop_rob [OF r] q
    by (auto simp: core_commit_def retireInstruction_def Let_def occupancy_ok_def)
qed

lemma stonne_occ: "core_stonne E s = Some s' \<Longrightarrow> occ_view s' = occ_view s"
  by (auto simp: core_stonne_def occ_view_def Let_def split: bind_splits)

lemma execute_occ: "core_execute s = Some s' \<Longrightarrow> occ_view s' = occ_view s"
  by (auto simp: core_execute_def occ_view_def split: if_splits bind_splits)

lemma writeBack_occ: "core_writeBack s = Some s' \<Longrightarrow> occ_view s' = occ_view s"
  by (auto simp: core_writeBack_def occ_view_def ls_wb_def split: if_splits bind_splits)

lemma issue_cpu_occ:
  assumes "issue_cpu s = Some (r, s')" "occupancy_ok s"
  shows "occupancy_ok s'"
proof -
  obtain rest st where i: "issue_insns (co_cycles s) (co_issueQueue s)
      (co_unit s, co_ports s, co_ops s, w_issueQueueUsed (co_window s)) = Some (rest, st)"
    and s': "co_issueQueue s' = rest" "co_window s' = (co_window s)\<lparr>w_issueQueueUsed := is_used st\<rparr>"
      "co_cosimIssueQueue s' = co_cosimIssueQueue s" "co_lsu s' = co_lsu s"
    using assms(1) by (auto simp: issue_cpu_def split: bind_splits)
  have "is_used st = w_issueQueueUsed (co_window s) - int (length (co_issueQueue s) - length rest)"
    "length rest \<le> length (co_issueQueue s)"
    using issue_loop_spec [of "co_cycles s" "co_issueQueue s"] i by (simp_all add: issue_insns_def)
  with s' assms(2) show ?thesis by (auto simp: occupancy_ok_def)
qed

lemma cosim_issue_occ: "core_cosim_issue i s = Some s' \<Longrightarrow> occ_view s' = occ_view s"
  unfolding core_cosim_issue_def Let_def by (auto simp: occ_view_def upd_stats_def split: bind_splits)

lemma issue_cosim_occ:
  assumes "issue_cosim r s = Some (r', s')" "occupancy_ok s"
  shows "occupancy_ok s'"
proof (cases "co_cosimIssueQueue s")
  case (Cons i rest)
  let ?s1 = "s\<lparr>co_cosimIssueQueue := rest,
     co_window := (co_window s)\<lparr>w_usedCosimQueueSize := w_usedCosimQueueSize (co_window s) - 1\<rparr>,
     co_ops := upd_op i (\<lambda>p. p\<lparr>do_status := ISSUED, do_e := co_cycles s\<rparr>) (co_ops s)\<rparr>"
  consider "s' = s" | "core_cosim_issue i ?s1 = Some s'"
    using assms(1) Cons by (auto simp: issue_cosim_def Let_def split: if_splits bind_splits)
  moreover have "occupancy_ok ?s1" using assms(2) Cons by (simp add: occupancy_ok_def)
  ultimately show ?thesis using assms(2) cosim_issue_occ occ_view_ok by cases blast+
qed (use assms in \<open>simp add: issue_cosim_def\<close>)

lemma issue_occ:
  assumes "core_issue s = Some s'" "occupancy_ok s"
  shows "occupancy_ok s'"
proof (cases "co_flushStall s")
  case False
  then obtain r1 s1 r2 s2 where "issue_cpu s = Some (r1, s1)" "issue_cosim r1 s1 = Some (r2, s2)"
    and v: "occ_view s' = occ_view s2"
    using assms(1) by (auto simp: core_issue_def issue_stats_def Let_def occ_view_def upd_stats_def split: bind_splits)
  then have "occupancy_ok s2" using assms(2) issue_cpu_occ issue_cosim_occ by blast
  then show ?thesis using occ_view_ok [OF v] by simp
qed (use assms in \<open>simp add: core_issue_def\<close>)

lemma lq_add_ok:
  "lq_addInstruction ops i q = Some q' \<Longrightarrow> lq_ok q \<Longrightarrow> \<not> lq_ifFull q \<Longrightarrow> lq_ok q'"
  by (auto simp: lq_addInstruction_def lq_ok_def lq_ifFull_def)

lemma ls_add_ok:
  assumes "ls_addInstruction ops i u = Some u'" "lq_ok (ls_ldq u)" "lq_ok (ls_stq u)"
    "isLoad (ops i) \<longrightarrow> \<not> lq_ifFull (ls_ldq u)" "isStore (ops i) \<longrightarrow> \<not> lq_ifFull (ls_stq u)"
  shows "lq_ok (ls_ldq u')" "lq_ok (ls_stq u')"
  using assms lq_add_ok by (auto simp: ls_addInstruction_def split: if_splits bind_splits)

lemma dispatch_one_ok:
  assumes "dispatch_one i s = Some s'" "dispatching_ok out s" "w_canDispatch (co_ops s) i (co_window s)"
    "\<not> ifROBFull (co_window s)" "isLoad (co_ops s i) \<longrightarrow> \<not> lq_ifFull (ls_ldq (co_lsu s))"
    "isStore (co_ops s i) \<longrightarrow> \<not> lq_ifFull (ls_stq (co_lsu s))"
  shows "dispatching_ok (out @ [i]) s'"
proof -
  let ?w = "co_window s"
  let ?w1 = "if isCosimFunc (co_ops s i) then ?w\<lparr>w_usedCosimQueueSize := w_usedCosimQueueSize ?w + 1\<rparr>
             else ?w\<lparr>w_issueQueueUsed := w_issueQueueUsed ?w + 1\<rparr>"
  let ?o = "advance i (co_ops s)"
  obtain u where u: "ls_addInstruction ?o i (co_lsu s) = Some u"
    and s': "co_window s' = w_addInstruction i ?w1" "co_lsu s' = u"
      "co_ops s' = upd_op i (\<lambda>p. p\<lparr>do_D := co_cycles s\<rparr>) ?o"
      "co_issueQueue s' = co_issueQueue s" "co_cosimIssueQueue s' = co_cosimIssueQueue s"
    using assms(1) by (auto simp: dispatch_one_def Let_def split: bind_splits)
  have k: "isCosimFunc (co_ops s' j) = isCosimFunc (co_ops s j)" for j
    by (simp add: s'(3) isCosimFunc_def advance_def upd_op_def)
  have "isLoad (?o i) = isLoad (co_ops s i)" "isStore (?o i) = isStore (co_ops s i)"
    by (simp_all add: isLoad_def isStore_def advance_def)
  then have "lq_ok (ls_ldq u)" "lq_ok (ls_stq u)"
    using ls_add_ok [OF u] assms(2,5,6) by (simp_all add: dispatching_ok_def)
  then show ?thesis
    using assms(2-4) k
    by (auto simp: dispatching_ok_def s' w_addInstruction_def w_canDispatch_def ifROBFull_def split: if_splits)
qed

lemma dispatch_loop_ok:
  "dispatch_loop k out s = Some (out', s') \<Longrightarrow> dispatching_ok out s \<Longrightarrow> dispatching_ok out' s'"
proof (induction k arbitrary: out s)
  case (Suc k)
  show ?case
  proof (cases "co_insnQueue s")
    case (Cons i rest)
    let ?s1 = "dispatch_stats i s"
    have s1: "dispatching_ok out ?s1" using Suc.prems(2) by (simp add: dispatch_stats_def dispatching_ok_def)
    obtain ok u where ls: "ls_canDispatch (co_ops ?s1) i True (co_lsu ?s1) = (ok, u)" by fastforce
    let ?s2 = "?s1\<lparr>co_lsu := u\<rparr>"
    have u: "ls_ldq u = ls_ldq (co_lsu ?s1)" "ls_stq u = ls_stq (co_lsu ?s1)"
      "ok \<Longrightarrow> isLoad (co_ops ?s1 i) \<longrightarrow> \<not> lq_ifFull (ls_ldq (co_lsu ?s1))"
      "ok \<Longrightarrow> isStore (co_ops ?s1 i) \<longrightarrow> \<not> lq_ifFull (ls_stq (co_lsu ?s1))"
      using ls by (auto simp: ls_canDispatch_def split: if_splits)
    have s2: "dispatching_ok out ?s2" using s1 u(1,2) by (simp add: dispatching_ok_def)
    consider (no) "s' = ?s1" "out' = out" | (full) "s' = ?s2" "out' = out"
      | (go) s3 where "w_canDispatch (co_ops ?s1) i (co_window ?s1)" "\<not> ifROBFull (co_window ?s1)" ok
          "dispatch_one i ?s2 = Some s3" "dispatch_loop k (out @ [i]) s3 = Some (out', s')"
      using Suc.prems(1) Cons ls by (auto simp: Let_def split: if_splits bind_splits)
    then show ?thesis
    proof cases
      case go
      have "dispatching_ok (out @ [i]) s3"
        by (rule dispatch_one_ok [OF go(4) s2]) (use go(1,2) u(3,4) [OF go(3)] u(1,2) in simp_all)
      then show ?thesis by (rule Suc.IH [OF go(5)])
    qed (use s1 s2 in simp_all)
  qed (use Suc.prems in auto)
qed simp

lemma to_queues_occ: "dispatching_ok out s \<Longrightarrow> occupancy_ok (insnToIssueQueues out s)"
proof (induction out arbitrary: s)
  case (Cons i out)
  let ?s = "if isCosimFunc (co_ops s i) then s\<lparr>co_cosimIssueQueue := co_cosimIssueQueue s @ [i]\<rparr>
     else s\<lparr>co_issueQueue := co_issueQueue s @ [i]\<rparr>"
  have "dispatching_ok out ?s"
    using Cons.prems by (cases "isCosimFunc (co_ops s i)") (simp_all add: dispatching_ok_def)
  then show ?case using Cons.IH by (simp add: insnToIssueQueues_def)
qed (simp add: insnToIssueQueues_def occupancy_dispatching)

lemma dispatch_occ: "core_dispatch s = Some s' \<Longrightarrow> occupancy_ok s \<Longrightarrow> occupancy_ok s'"
  unfolding occupancy_dispatching [of s]
  by (auto simp: core_dispatch_def occupancy_dispatching [symmetric] split: if_splits bind_splits
      dest: dispatch_loop_ok intro: to_queues_occ)

lemma rename_loop_occ: "occ_view (rename_loop w k s) = occ_view s"
  by (induction w k s rule: rename_loop.induct) (auto simp: occ_view_def split: list.splits prod.splits)

lemma rename_occ: "occ_view (core_rename s) = occ_view s"
  by (simp add: core_rename_def rename_loop_occ Let_def)

lemma decode_occ: "occ_view (core_decode s) = occ_view s"
  by (auto simp: core_decode_def occ_view_def Let_def split: prod.splits)

lemma backend_occ:
  assumes "core_backend E s = Some s'" "occupancy_ok s"
  shows "occupancy_ok s'"
proof -
  obtain s1 s2 s3 s4 s5 where s: "core_stonne E (core_commit s) = Some s1" "core_execute s1 = Some s2"
    "core_writeBack s2 = Some s3" "core_issue s3 = Some s4" "core_dispatch s4 = Some s5"
    and s': "s' = core_decode (core_rename s5)"
    using assms(1) by (auto simp: core_backend_def split: bind_splits)
  have "occ_view s3 = occ_view (core_commit s)"
    using stonne_occ [OF s(1)] execute_occ [OF s(2)] writeBack_occ [OF s(3)] by simp
  then have "occupancy_ok s3" using commit_occ [OF assms(2)] occ_view_ok by blast
  then have "occupancy_ok s5" using issue_occ [OF s(4)] dispatch_occ [OF s(5)] by simp
  then show ?thesis
    using s' occ_view_ok [OF decode_occ] occ_view_ok [OF rename_occ] by blast
qed

lemma on_fetch_occ: "on_fetch g s = Some s' \<Longrightarrow> occ_view s' = occ_view s"
  by (auto simp: on_fetch_def fs_store_def occ_view_def)

lemma upd_stats_occ [simp]: "occ_view (upd_stats f s) = occ_view s"
  by (simp add: upd_stats_def occ_view_def)

lemma buffer_to_decode_occ [simp]: "occ_view (buffer_to_decode w k s) = occ_view s"
  by (induction w k s rule: buffer_to_decode.induct) (auto simp: occ_view_def split: list.splits)

lemma fetch_begin_occ:
  assumes "fetch_begin s = Some (sf, nw, st, s')"
  shows "occ_view s' = occ_view s"
proof -
  obtain s1 b where s1: "on_fetch IF1 (take_flushed s) = Some s1" and w: "wait_branch b s1 = (nw, st, s')"
    using assms by (auto simp: fetch_begin_def Let_def split: bind_splits)
  have "occ_view s' = occ_view s1"
    using w by (auto simp: wait_branch_def Let_def occ_view_def upd_stats_def split: option.splits if_splits)
  then show ?thesis using on_fetch_occ [OF s1] by (simp add: take_flushed_def occ_view_def)
qed

lemma enqueue_occ:
  assumes "enqueue_block bs s = Some s'"
  shows "occ_view s' = occ_view s"
  using assms unfolding enqueue_block_def Let_def by (cases bs) (auto simp: occ_view_def split: bind_splits)

lemma fetch_request_occ:
  assumes "fetch_request sf s = Some s'"
  shows "occ_view s' = occ_view s"
proof (cases "do_flush_stall (co_ops s (hd (co_FTQ s)))")
  case False
  then obtain hit where h: "(if hit then on_fetch (fakeIF (co_cycles s)) s else ask_icache sf s) = Some s'"
    using assms by (auto simp: fetch_request_def split: bind_splits)
  have i: "occ_view s' = occ_view s" if "ask_icache sf s = Some s'"
    using that by (auto simp: ask_icache_def dest!: on_fetch_occ split: if_splits bind_splits) (simp add: occ_view_def)
  show ?thesis using h i on_fetch_occ by (cases hit) auto
qed (use assms in \<open>auto simp: fetch_request_def\<close>)

lemma fetch_end_occ:
  assumes "fetch_end sf st bs s = Some s'"
  shows "occ_view s' = occ_view s"
proof -
  obtain s4 s5 where s4: "enqueue_block bs s = Some s4" and s5: "fetch_group sf st s4 = Some s5"
    and s': "occ_view s' = occ_view s5"
    using assms by (auto simp: fetch_end_def Let_def count_stall_def split: bind_splits)
  have m: "occ_view (mark_flush st s4) = occ_view s4" by (simp add: mark_flush_def occ_view_def upd_stats_def)
  have "occ_view s5 = occ_view s4"
  proof (cases "co_FTQ s4 = []")
    case False
    then have "fetch_request sf (mark_flush st s4) = Some s5" using s5 by (simp add: fetch_group_def)
    then show ?thesis using fetch_request_occ m by metis
  qed (use s5 in \<open>auto simp: fetch_group_def\<close>)
  then show ?thesis using s' enqueue_occ [OF s4] by simp
qed

lemma fetch_occ:
  assumes "core_fetch pp s = Some s'"
  shows "occ_view s' = occ_view s"
proof (cases "co_flushStall s \<or> co_to_decode s \<noteq> []")
  case False
  then obtain sf nw st s2 where b: "fetch_begin s = Some (sf, nw, st, s2)"
    and r: "(let (bs, s3) = next_block pp nw s2 in fetch_end sf st bs s3) = Some s'"
    using assms by (auto simp: core_fetch_def split: bind_splits)
  obtain bs s3 where n: "next_block pp nw s2 = (bs, s3)" by fastforce
  have "occ_view s3 = occ_view s2" using n by (auto simp: next_block_def occ_view_def split: if_splits prod.splits)
  moreover have "fetch_end sf st bs s3 = Some s'" using r n by simp
  ultimately show ?thesis using fetch_end_occ fetch_begin_occ [OF b] by metis
qed (use assms in \<open>auto simp: core_fetch_def split: if_splits\<close>)

lemma bubble_occ: "flush_bubble s = Some s' \<Longrightarrow> occ_view s' = occ_view s"
  unfolding flush_bubble_def Let_def by (auto simp: occ_view_def split: if_splits bind_splits)

lemma responses_occ: "ls_ldq (fold ls_recvResponse rs u) = ls_ldq u" "ls_stq (fold ls_recvResponse rs u) = ls_stq u"
  by (induction rs arbitrary: u) (simp_all add: ls_recvResponse_def)

lemma caches_occ: "core_caches mb s = Some s' \<Longrightarrow> occ_view s' = occ_view s"
  unfolding core_caches_def Let_def by (auto simp: occ_view_def deliver_def responses_occ split: bind_splits)

lemma sim_cycle_occ:
  assumes "sim_cycle E mb pp s = Some s'" "occupancy_ok s"
  shows "occupancy_ok s'"
proof -
  obtain s5 s6 s7 s8 where b: "core_backend E s = Some s5" and f: "core_fetch pp s5 = Some s6"
    and v: "flush_bubble s6 = Some s7" "core_caches mb (s7\<lparr>co_cycles := co_cycles s7 + 1\<rparr>) = Some s8"
    and s': "occ_view s' = occ_view s8"
    using assms(1) unfolding sim_cycle_def core_run_def by (auto simp: occ_view_def split: bind_splits if_splits)
  have "occ_view s' = occ_view s5"
    using s' fetch_occ [OF f] bubble_occ [OF v(1)] caches_occ [OF v(2)] by (simp add: occ_view_def)
  then show ?thesis using backend_occ [OF b assms(2)] occ_view_ok by blast
qed

section \<open>Runs\<close>

text \<open>Runs of the simulation loop, with the instructions retired and fetched in their order.\<close>

inductive core_runs ::
    "'n sa_env \<Rightarrow> 'm backend \<Rightarrow> 'p preprocess \<Rightarrow> ('n, 'm, 'p) core \<Rightarrow> nat list \<Rightarrow> nat list \<Rightarrow> ('n, 'm, 'p) core \<Rightarrow> bool"
  for E mb pp s0 where
  start: "core_runs E mb pp s0 [] [] s0"
| cycle: "core_runs E mb pp s0 r f s \<Longrightarrow> sim_cycle E mb pp s = Some s' \<Longrightarrow>
    core_runs E mb pp s0 (r @ retired_in s) (f @ fetched_in E pp s) s'"

lemma core_runs_line: "core_runs E mb pp s0 r f s \<Longrightarrow> r @ line s = line s0 @ f"
proof (induction rule: core_runs.induct)
  case (cycle r f s s')
  have "(r @ retired_in s) @ line s' = (r @ line s) @ fetched_in E pp s"
    using sim_cycle_line [OF cycle.hyps(2)] by simp
  then show ?case using cycle.IH by simp
qed simp

lemma core_runs_occ: "core_runs E mb pp s0 r f s \<Longrightarrow> occupancy_ok s0 \<Longrightarrow> occupancy_ok s"
  by (induction rule: core_runs.induct) (auto intro: sim_cycle_occ)

end
