(* ===== verification/CoreRuns.thy ===== *)
theory CoreRuns
  imports CoreOrder SASafety
begin

text \<open>
  Runs of the core: a concrete machine with one cycle of it evaluated, and what the lemmas of
  \<open>CoreOrder\<close> say of every run of the simulation loop.
\<close>

section \<open>A concrete cycle\<close>

text \<open>A hierarchy with nothing to do only moves its clocks.\<close>

definition idle_cache :: "cache \<Rightarrow> bool" where
  "idle_cache c \<longleftrightarrow> c_incomingRequests c = [] \<and> c_incomingResponses c = [] \<and> c_outcomingRequests c = [] \<and>
     c_outcomingResponses c = [] \<and> c_stalledTransactions c = [] \<and> c_pq c = [] \<and> c_evictAddresses c = [] \<and>
     c_to_prefetch c = []"

lemma idle_cache_process: "idle_cache c \<Longrightarrow> cache_process (m, c) = (m, c)"
  by (simp add: cache_process_def idle_cache_def process_ready.simps)

lemma idle_same:
  assumes "idle_cache c"
  shows "c\<lparr>c_to_prefetch := []\<rparr> = c" "c\<lparr>c_incomingResponses := [], c_outcomingResponses := []\<rparr> = c"
    "c\<lparr>c_incomingResponses := [], c_outcomingResponses := [], c_outcomingRequests := [], c_evictAddresses := []\<rparr> = c"
    "c\<lparr>c_incomingResponses := [], c_outcomingResponses := [], c_outcomingRequests := [],
        c_portStall := c_portStall c, c_evictAddresses := []\<rparr> = c"
    "c\<lparr>c_outcomingRequests := [], c_evictAddresses := []\<rparr> = c"
  using assms by (cases c; simp add: idle_cache_def)+

lemma idle_l1_process:
  assumes "idle_cache c"
  shows "l1_process (m, c, nxt) = Some (m, end_cycle_l1 c, nxt, \<lparr>to_lsu = [], to_ifu = []\<rparr>)"
  using assms idle_cache_process [OF assms, of m]
  by (simp add: idle_same [OF assms] l1_process_def handleRequests_def handleResponses_def l1_sendResponses_def l1_sendRequests_def
      idle_cache_def)

lemma idle_l2_process:
  assumes "idle_cache (lv_l2 lv)"
  shows "l2_process mb b (m, lv, d) = Some (m, lv\<lparr>lv_l2 := end_cycle (lv_l2 lv)\<rparr>, d, [])"
  using assms idle_cache_process [OF assms, of m]
  by (simp add: idle_same [OF assms] l2_process_def handleRequests_def handleResponses_def l2_sendResponses_def l2_sendRequests_def
      idle_cache_def)

definition demo_config :: inst_config where
  "demo_config = \<lparr>ic_runtime_cycles = 1, ic_ports = [(1, [0])], ic_fus = [[0]]\<rparr>"

definition demo_op :: "nat \<Rightarrow> u64 list \<Rightarrow> dyn_op" where
  "demo_op n deps = (new_dyn_op OpArith (of_nat n) deps demo_config)\<lparr>do_dyn_id := of_nat n\<rparr>"

text \<open>A program of \<open>k\<close> blocks of two instructions, the second needs the first.\<close>

definition demo_pp :: "(nat \<times> nat) preprocess" where
  "demo_pp = (\<lambda>((n, k), ops, bp).
     case k of 0 \<Rightarrow> ([], (n, 0), ops, bp)
     | Suc j \<Rightarrow> ([n, n + 1], (n + 2, j), ops(n := demo_op n [], n + 1 := demo_op (n + 1) [of_nat n]), bp))"

definition demo_levels :: levels where
  "demo_levels = \<lparr>lv_l1i = new_cache 1 True 1 64 4096 4 1 4 4, lv_l1d = new_cache 1 False 1 64 4096 4 1 4 4,
     lv_l2 = demo_l2\<rparr>"

definition demo_window :: window where
  "demo_window = (new_window 2 2 8 4)\<lparr>w_robUsed := 1, w_instList := [0]\<rparr>"

text \<open>Instruction 0 has finished and waits at the head of the reorder buffer.\<close>

definition demo_core :: "nat \<Rightarrow> (unit, (bool \<times> u64) list, nat \<times> nat) core" where
  "demo_core k =
     \<lparr>co_ops = (\<lambda>i. demo_op i [])(0 := (demo_op 0 [])\<lparr>do_status := FINISHED\<rparr>), co_window = demo_window,
      co_bp = \<lparr>bp_type = bp_onebit, bht_size = 1, bht = [1], gshare_global_hist_bits = 10,
        gshare_global_hist = 0, tagePredictor = None\<rparr>,
      co_lsu = new_lsunit 4 4, co_ifu = new_ifu, co_unit = new_issue_unit [(0, [0])] [] False,
      co_ports = [new_port 0 [0]], co_txns = demo_store, co_levels = demo_levels,
      co_dram = new_dram 4 4 False (new_simple_dram 1 12) [],
      co_sa = demo_sa 0 (\<lambda>_. new_command 9 EXE FAKE None) [] [] [] [] False, co_next_cmd = 0, co_prog = (1, k), co_FTQ = [],
      co_processedOps = [], co_fetchBuffer = [], co_fetchCount = [], co_flushedInsns = [],
      co_to_decode = [], co_to_rename = [], co_insnQueue = [], co_issueQueue = [],
      co_cosimIssueQueue = [], co_inFlight = [], co_instList = [0], co_allocQueue = new_alloc_queue 8 2,
      co_uidDynOpMap = Map.empty, co_lastOp = None, co_last_fetch_line = 0, co_flushStall = False,
      co_flushStallCycle = 0, co_flushPenalty = 0, co_l1i_CLSize = 64, co_cycles = 0, co_running = True,
      co_stats = \<lparr>st_flushN = 0, st_rb_flushedN = 0, st_stalls_mem_any = 0, st_stalls_fetch = 0,
        st_flush_stalls_fetch = 0, st_ftq0_stalls_fetch = 0, st_mispredict_stalls_fetch = 0, st_stalls_total = 0,
        st_ge_1 = 0, st_ge_2 = 0, st_ge_3 = 0, st_rs_empty_cycles = 0, st_rob_full = 0, st_iq_full = 0,
        st_stall_load = 0, st_cosim_insn_num = 0, st_cosim_mm_num = 0, st_cosim_preload_num = 0\<rparr>\<rparr>"

lemma demo_idle: "idle_cache (new_cache a b c d e f g h i)" "idle_cache demo_l2"
  by (simp_all add: idle_cache_def new_cache_def demo_l2_def)

lemma demo_retire:
  "\<exists>ops. core_commit (demo_core k) = (demo_core k)\<lparr>co_window := demo_window\<lparr>w_robUsed := 0, w_totalCommit := 1, w_instList := []\<rparr>,
     co_ops := ops, co_instList := []\<rparr>"
  by (simp add: core_commit_def demo_core_def retireInstruction_def demo_window_def new_window_def numeral_2_eq_2
      retire_one_def isCosimFunc_def demo_op_def new_dyn_op_def no_cosim_def isBr_def commitInsn_def Let_def
      commitInstruction_def commitLoads_def commitStores_def commitMemOps_def new_lsunit_def new_ldstq_def
      advance_def upd_op_def)

lemma demo_stonne:
  "\<exists>a. stonne_cycle quick_env (demo_sa 0 (\<lambda>_. new_command 9 EXE FAKE None) [] [] [] [] False) = Some a \<and>
     sa_txns a = demo_store \<and> sa_l2 a = demo_l2 \<and> sa_finished a = [] \<and> sa_dma a = new_dma \<and>
     is_execution_finished a"
  by (rule exI, intro conjI, rule demo_stages [OF _ _ _ _ refl]) (simp add: stage_defs is_execution_finished_def)+


lemma demo_caches:
  assumes "co_levels s = demo_levels\<lparr>lv_l2 := demo_l2\<rparr>"
  shows "core_caches mb s = Some (s\<lparr>co_levels := demo_levels\<lparr>lv_l1i := end_cycle_l1 (lv_l1i demo_levels),
     lv_l1d := end_cycle_l1 (lv_l1d demo_levels), lv_l2 := end_cycle demo_l2\<rparr>\<rparr>)"
  by (simp add: core_caches_def assms demo_levels_def demo_idle idle_l1_process idle_l2_process deliver_def)

lemma demo_dram: "\<exists>d. dram_process fifo_backend (new_dram 4 4 False (new_simple_dram 1 12) [], c) = Some (d, c)"
  by (simp add: dram_process_def new_dram_def fifo_backend_def Let_def)

lemma demo_quiet:
  assumes "co_inFlight s = []" "co_issueQueue s = []" "co_cosimIssueQueue s = []" "co_insnQueue s = []" "co_to_rename s = []"
    "co_to_decode s = []" "\<not> co_flushStall s" "ls_responses (co_lsu s) = []" "w_windowSize (co_window s) = 2"
  shows "core_execute s = Some s" "core_writeBack s = Some s"
    "core_issue s = Some (issue_stats 0 s)" "core_dispatch s = Some s" "core_rename s = s" "core_decode s = s"
proof -
  have "(co_levels s)\<lparr>lv_l1d := lv_l1d (co_levels s)\<rparr> = co_levels s" by simp
  then show "core_execute s = Some s" using assms by (simp add: core_execute_def)
  show "core_writeBack s = Some s" using assms by (simp add: core_writeBack_def ls_wb_def)
  show "core_issue s = Some (issue_stats 0 s)"
    using assms by (simp add: core_issue_def issue_cpu_def issue_insns_def finish_at_once_def issue_cosim_def
        issue_stats_def upd_stats_def)
  have "dispatch_loop k [] s = Some ([], s)" for k using assms by (cases k) simp_all
  then show "core_dispatch s = Some s" using assms by (simp add: core_dispatch_def insnToIssueQueues_def)
  show "core_rename s = s" "core_decode s = s"
    using assms by (cases "nat (w_retireSize (co_window s))"; simp add: core_rename_def core_decode_def Let_def)+
qed


text \<open>The cycle: instruction 0 retires, then a block is fetched that is in the line of its instruction cache.\<close>

definition demo_after ::
    "nat \<Rightarrow> op_store \<Rightarrow> unit sa \<Rightarrow> core_stats \<Rightarrow> (unit, (bool \<times> u64) list, nat \<times> nat) core" where
  "demo_after k ops a st = (demo_core k)\<lparr>co_window := demo_window\<lparr>w_robUsed := 0, w_totalCommit := 1, w_instList := []\<rparr>,
     co_ops := ops, co_instList := [], co_sa := a, co_stats := st\<rparr>"

lemma demo_after_simps:
  "co_to_decode (demo_after k ops a st) = []" "\<not> co_flushStall (demo_after k ops a st)"
  "co_flushedInsns (demo_after k ops a st) = []" "co_fetchBuffer (demo_after k ops a st) = []"
  "co_FTQ (demo_after k ops a st) = []" "co_fetchCount (demo_after k ops a st) = []"
  "co_processedOps (demo_after k ops a st) = []" "if_responses (co_ifu (demo_after k ops a st)) = []"
  "\<not> if_occupied (co_ifu (demo_after k ops a st))" "co_lastOp (demo_after k ops a st) = None"
  "co_prog (demo_after k ops a st) = (1, k)" "co_last_fetch_line (demo_after k ops a st) = 0"
  "co_l1i_CLSize (demo_after k ops a st) = 64" "w_windowSize (co_window (demo_after k ops a st)) = 2"
  by (simp_all add: demo_after_def demo_core_def new_ifu_def demo_window_def new_window_def)

lemma demo_backend:
  "\<exists>ops a st. core_backend quick_env (demo_core k) = Some (demo_after k ops a st) \<and> is_execution_finished a"
proof -
  obtain ops where c: "core_commit (demo_core k) = (demo_core k)\<lparr>co_window := demo_window\<lparr>w_robUsed := 0, w_totalCommit := 1, w_instList := []\<rparr>,
     co_ops := ops, co_instList := []\<rparr>" using demo_retire by blast
  let ?s = "(demo_core k)\<lparr>co_window := demo_window\<lparr>w_robUsed := 0, w_totalCommit := 1, w_instList := []\<rparr>,
     co_ops := ops, co_instList := []\<rparr>"
  have v: "co_sa ?s = demo_sa 0 (\<lambda>_. new_command 9 EXE FAKE None) [] [] [] [] False" "co_levels ?s = demo_levels"
    "co_txns ?s = demo_store" by (simp_all add: demo_core_def)
  let ?sa = "demo_sa 0 (\<lambda>_. new_command 9 EXE FAKE None) [] [] [] [] False"
  have same: "?sa\<lparr>sa_l2 := demo_l2, sa_txns := demo_store\<rparr> = ?sa"
    by (simp add: demo_sa_def new_sa_def)
  have l: "lv_l2 demo_levels = demo_l2" "demo_levels\<lparr>lv_l2 := demo_l2\<rparr> = demo_levels" by (simp_all add: demo_levels_def)
  obtain a where a: "stonne_cycle quick_env ?sa = Some a" "sa_txns a = demo_store" "sa_l2 a = demo_l2" "sa_finished a = []"
    "is_execution_finished a"
    using demo_stonne by blast
  let ?t = "?s\<lparr>co_sa := a, co_txns := demo_store, co_levels := demo_levels\<rparr>"
  have t: "core_stonne quick_env ?s = Some ?t"
    using a by (simp add: core_stonne_def v same l Let_def)
  have q: "co_inFlight ?t = []" "co_issueQueue ?t = []" "co_cosimIssueQueue ?t = []" "co_insnQueue ?t = []" "co_to_rename ?t = []"
    "co_to_decode ?t = []" "\<not> co_flushStall ?t" "ls_responses (co_lsu ?t) = []" "w_windowSize (co_window ?t) = 2"
    by (simp_all add: demo_core_def new_lsunit_def demo_window_def new_window_def)
  obtain st where st: "issue_stats 0 ?t = ?t\<lparr>co_stats := st\<rparr>" by (simp add: issue_stats_def upd_stats_def)
  let ?u = "?t\<lparr>co_stats := st\<rparr>"
  have u: "co_inFlight ?u = []" "co_issueQueue ?u = []" "co_cosimIssueQueue ?u = []" "co_insnQueue ?u = []" "co_to_rename ?u = []"
    "co_to_decode ?u = []" "\<not> co_flushStall ?u" "ls_responses (co_lsu ?u) = []" "w_windowSize (co_window ?u) = 2"
    using q by simp_all
  have "core_backend quick_env (demo_core k) = Some ?u"
    by (simp add: core_backend_def c t demo_quiet [OF q] st demo_quiet [OF u])
  moreover have "?u = demo_after k ops a st" by (simp add: demo_after_def demo_core_def)
  ultimately show ?thesis using a(5) by metis
qed

text \<open>The fetch of the cycle.\<close>

lemma demo_fetch:
  assumes "co_to_decode s = []" "\<not> co_flushStall s" "co_flushedInsns s = []" "co_fetchBuffer s = []" "co_FTQ s = []"
    "co_fetchCount s = []" "co_processedOps s = []" "if_responses (co_ifu s) = []" "\<not> if_occupied (co_ifu s)"
    "co_lastOp s = None" "co_prog s = (1, k)" "co_last_fetch_line s = 0" "co_l1i_CLSize s = 64" "w_windowSize (co_window s) = 2"
  shows "fetch_begin s = Some (True, True, False, s)"
    "k = 1 \<Longrightarrow> fst (next_block demo_pp True s) = [1, 2]" "k = 0 \<Longrightarrow> fst (next_block demo_pp True s) = []"
proof -
  have v: "fs_store (fs_view s) s = s"
    by (simp add: fs_store_def fs_view_def)
  have t: "take_flushed s = s" by (simp add: take_flushed_def assms)
  have "IF1 (fs_view s) = Some (fs_view s)" by (simp add: IF1_def fs_view_def assms)
  then have i: "on_fetch IF1 s = Some s" by (simp add: on_fetch_def v)
  show "fetch_begin s = Some (True, True, False, s)"
    by (simp add: fetch_begin_def t i wait_branch_def assms Let_def)
  show "k = 1 \<Longrightarrow> fst (next_block demo_pp True s) = [1, 2]" "k = 0 \<Longrightarrow> fst (next_block demo_pp True s) = []"
    by (simp_all add: next_block_def assms demo_pp_def)
qed


lemma demo_split:
  "split_block (ops(1 := demo_op 1 [], 2 := demo_op 2 [1])) 16 [1, 2] = Some ([1], [2])"
proof -
  have "get_cache_line_addr 1 16 = Some 0" by (simp add: get_cache_line_addr_def)
  moreover have "group_size (ops(1 := demo_op 1 [], 2 := demo_op 2 [1])) 0 16 [1, 2] = 2"
    by (simp add: group_size_def demo_op_def new_dyn_op_def upt_conv_Cons word_le_nat_alt)
  moreover have "do_uid ((ops(1 := demo_op 1 [], 2 := demo_op 2 [1])) 1) = 1" by (simp add: demo_op_def new_dyn_op_def)
  ultimately show ?thesis by (simp add: split_block.simps)
qed

lemma fetch_tail_frame:
  "co_levels (buffer_to_decode w k x) = co_levels x" "co_flushStall (buffer_to_decode w k x) = co_flushStall x"
  "co_dram (buffer_to_decode w k x) = co_dram x" "co_levels (count_stall x) = co_levels x"
  "co_flushStall (count_stall x) = co_flushStall x" "co_dram (count_stall x) = co_dram x"
  by (induction w k x rule: buffer_to_decode.induct) (auto simp: count_stall_def upd_stats_def split: list.splits)

lemma demo_fetch_end:
  assumes "co_fetchBuffer s = []" "co_FTQ s = []" "co_fetchCount s = []" "co_processedOps s = []"
    "\<not> if_occupied (co_ifu s)" "co_last_fetch_line s = 0" "co_l1i_CLSize s = 64"
    "co_ops s = ops(1 := demo_op 1 [], 2 := demo_op 2 [1])"
  shows "\<exists>s'. fetch_end True False [1, 2] s = Some s' \<and> co_levels s' = co_levels s \<and> co_flushStall s' = co_flushStall s \<and>
    co_dram s' = co_dram s"
proof -
  let ?o = "ops(1 := demo_op 1 [], 2 := demo_op 2 [1])"
  have u: "do_uid (?o 1) = 1" "do_dyn_id (?o 1) = 1" "\<not> do_flush_stall (?o 1)" "\<not> do_mispredict (?o 1)"
    by (simp_all add: demo_op_def new_dyn_op_def)
  let ?s4 = "s\<lparr>co_lastOp := Some 2, co_FTQ := [1], co_fetchCount := [2], co_processedOps := [1, 2]\<rparr>"
  have e: "enqueue_block [1, 2] s = Some ?s4"
    using demo_split [of ops] by (simp add: enqueue_block_def assms)
  have l: "in_last_line ?s4 = Some True"
    using u by (simp add: in_last_line_def assms get_cache_line_addr_def)
  have "\<exists>f. fakeIF (co_cycles s) (fs_view ?s4) = Some f \<and> fs_icache f = lv_l1i (co_levels s)"
    using u by (simp add: fakeIF_def fs_view_def assms numeral_2_eq_2)
  then obtain f where f: "fakeIF (co_cycles s) (fs_view ?s4) = Some f" "fs_icache f = lv_l1i (co_levels s)" by blast
  have g: "fetch_group True False ?s4 = Some (fs_store f ?s4)"
    using u l f by (simp add: fetch_group_def mark_flush_def fetch_request_def assms on_fetch_def)
  show ?thesis using e g f(2) by (simp add: fetch_end_def fetch_tail_frame Let_def) (simp add: fs_store_def)
qed

lemma demo_retired: "retired_in (demo_core k) = [0]"
proof -
  obtain ops where "core_commit (demo_core k) = (demo_core k)\<lparr>co_window := demo_window\<lparr>w_robUsed := 0, w_totalCommit := 1, w_instList := []\<rparr>,
     co_ops := ops, co_instList := []\<rparr>" using demo_retire by blast
  then show ?thesis by (simp add: retired_in_def demo_core_def demo_window_def)
qed

text \<open>The rest of the cycle after fetch.\<close>

lemma demo_end_of_cycle:
  assumes "core_backend quick_env (demo_core k) = Some s" "core_fetch demo_pp s = Some s'" "\<not> co_flushStall s'"
    "co_levels s' = demo_levels" "co_dram s' = co_dram (demo_core k)"
  shows "\<exists>s9. sim_cycle quick_env fifo_backend demo_pp (demo_core k) = Some s9 \<and> core_drained s9 = core_drained s'"
proof -
  have u: "flush_bubble s' = Some s'" using assms(3) by (simp add: flush_bubble_def)
  let ?t = "s'\<lparr>co_cycles := co_cycles s' + 1\<rparr>"
  have "core_caches fifo_backend ?t = Some (?t\<lparr>co_levels := demo_levels\<lparr>lv_l1i := end_cycle_l1 (lv_l1i demo_levels),
     lv_l1d := end_cycle_l1 (lv_l1d demo_levels), lv_l2 := end_cycle demo_l2\<rparr>\<rparr>)"
    by (rule demo_caches) (simp add: assms(4), simp add: demo_levels_def)
  then obtain s8 where c: "core_caches fifo_backend ?t = Some s8" "co_dram s8 = co_dram (demo_core k)"
    "core_drained s8 = core_drained s'"
    using assms(5) by (auto simp: core_drained_def)
  let ?s9 = "if core_drained s8 then s8\<lparr>co_running := False\<rparr> else s8"
  have r: "core_run quick_env fifo_backend demo_pp (demo_core k) = Some ?s9"
    by (simp only: core_run_def assms(1,2) u c(1) bind.bind_lunit)
  obtain d where d: "dram_process fifo_backend (co_dram ?s9, lv_l2 (co_levels ?s9)) = Some (d, lv_l2 (co_levels ?s9))"
    using demo_dram c(2) by (fastforce simp: demo_core_def)
  let ?e = "?s9\<lparr>co_dram := d, co_levels := (co_levels ?s9)\<lparr>lv_l2 := lv_l2 (co_levels ?s9)\<rparr>\<rparr>"
  have "sim_cycle quick_env fifo_backend demo_pp (demo_core k) = Some ?e"
    using d by (simp only: sim_cycle_def r bind.bind_lunit prod.case)
  moreover have "core_drained ?e = core_drained s8" by (simp add: core_drained_def)
  ultimately show ?thesis using c(3) by blast
qed

lemma demo_run: "\<exists>s. core_runs quick_env fifo_backend demo_pp (demo_core 1) [0] [1, 2] s"
proof -
  obtain ops a st where b: "core_backend quick_env (demo_core 1) = Some (demo_after 1 ops a st)"
    using demo_backend by blast
  let ?s = "demo_after 1 ops a st"
  note f = demo_fetch [OF demo_after_simps, of 1 ops a st]
  have fi: "fetched_in quick_env demo_pp (demo_core 1) = [1, 2]"
    using b f(1,2) by (simp add: fetched_in_def demo_after_simps)
  let ?s3 = "?s\<lparr>co_prog := (3, 0), co_ops := (co_ops ?s)(1 := demo_op 1 [], 2 := demo_op 2 [1])\<rparr>"
  have n: "next_block demo_pp True ?s = ([1, 2], ?s3)"
    by (simp add: next_block_def demo_after_simps demo_pp_def numeral_eq_Suc)
  obtain s' where e: "fetch_end True False [1, 2] ?s3 = Some s'" "co_levels s' = co_levels ?s3" "\<not> co_flushStall s'"
    "co_dram s' = co_dram ?s3"
    using demo_fetch_end [of ?s3 "co_ops ?s"] by (auto simp: demo_after_simps)
  have "core_fetch demo_pp ?s = Some s'"
    using f(1) n e(1) by (simp add: core_fetch_def demo_after_simps)
  moreover have "co_levels s' = demo_levels" "co_dram s' = co_dram (demo_core 1)"
    using e(2,4) by (simp_all add: demo_after_def demo_core_def)
  ultimately obtain s where "sim_cycle quick_env fifo_backend demo_pp (demo_core 1) = Some s"
    using demo_end_of_cycle [OF b _ e(3)] by blast
  from core_runs.cycle [OF core_runs.start this] show ?thesis unfolding demo_retired fi by auto
qed

text \<open>Without a block left the core is drained after the cycle.\<close>

lemma demo_drain: "\<exists>s. sim_cycle quick_env fifo_backend demo_pp (demo_core 0) = Some s \<and> core_drained s"
proof -
  obtain ops a st where b: "core_backend quick_env (demo_core 0) = Some (demo_after 0 ops a st)" "is_execution_finished a"
    using demo_backend by blast
  let ?s = "demo_after 0 ops a st"
  note f = demo_fetch [OF demo_after_simps, of 0 ops a st]
  obtain s3 where n: "next_block demo_pp True ?s = ([], s3)" "s3 = ?s\<lparr>co_prog := (1, 0)\<rparr>"
    by (simp add: next_block_def demo_after_simps demo_pp_def)
  have "enqueue_block [] s3 = Some s3"
    by (simp add: enqueue_block_def split_block.simps)
  moreover have "fetch_group True False s3 = Some (upd_stats (\<lambda>t. t\<lparr>st_ftq0_stalls_fetch := st_ftq0_stalls_fetch t + 1\<rparr>) s3)"
    by (simp add: fetch_group_def n(2) demo_after_simps)
  moreover have "buffer_to_decode w k x = x" if "co_fetchBuffer x = []" for w k and x :: "(unit, (bool \<times> u64) list, nat \<times> nat) core"
    using that by (cases k) simp_all
  ultimately have "\<exists>v. fetch_end True False [] s3 = Some (s3\<lparr>co_stats := v\<rparr>)"
    by (simp add: fetch_end_def count_stall_def n(2) demo_after_simps upd_stats_def) (rule exI, rule refl)
  then obtain v where "core_fetch demo_pp ?s = Some (s3\<lparr>co_stats := v\<rparr>)"
    using f(1) n(1) by (auto simp: core_fetch_def demo_after_simps)
  moreover have "\<not> co_flushStall (s3\<lparr>co_stats := v\<rparr>)" "co_levels (s3\<lparr>co_stats := v\<rparr>) = demo_levels"
    "co_dram (s3\<lparr>co_stats := v\<rparr>) = co_dram (demo_core 0)" "core_drained (s3\<lparr>co_stats := v\<rparr>)"
    using b(2) by (simp_all add: n(2) demo_after_def demo_core_def core_drained_def ifROBEmpty_def aq_isEmpty_def
        hasNoAvalInstToRename_def new_alloc_queue_def)
  ultimately show ?thesis using demo_end_of_cycle [OF b(1)] by blast
qed

lemma demo_occupancy: "occupancy_ok (demo_core k)"
  by (simp add: occupancy_ok_def demo_core_def demo_window_def new_window_def new_lsunit_def new_ldstq_def lq_ok_def)

section \<open>Properties\<close>

text \<open>
  C1. The pipeline is a queue of instructions: over any run of the simulation loop, what has retired
  followed by the instructions in the reorder buffer, the queues between the stages and the fetch
  buffers is what was there at the start followed by the blocks fetched.  No stage loses, duplicates
  or reorders an instruction.
\<close>

theorem program_order_kept:
  assumes "core_runs E mb pp s0 retired fetched s"
  shows "retired @ line s = line s0 @ fetched"
  by (rule core_runs_line [OF assms])

theorem program_order_kept_witness:
  "\<exists>s. core_runs quick_env fifo_backend demo_pp (demo_core 1) [0] [1, 2] s \<and> line s = [1, 2]"
proof -
  obtain s where r: "core_runs quick_env fifo_backend demo_pp (demo_core 1) [0] [1, 2] s" using demo_run by blast
  have "line (demo_core 1) = [0]" by (simp add: line_def demo_core_def demo_window_def)
  with program_order_kept [OF r] r show ?thesis by auto
qed

text \<open>
  C11. The queues of the core never overflow, and their counters are exact: over any run the reorder
  buffer, the issue queue, the queue of accelerator instructions and the load and store queues hold at most
  their configured number of instructions, and \<open>robUsed\<close>, \<open>issueQueueUsed\<close>, \<open>usedCosimQueueSize\<close> and the
  \<open>usedSize\<close> of both memory queues are the lengths of their containers.
\<close>

theorem core_queues_bounded:
  assumes "occupancy_ok s0" "core_runs E mb pp s0 retired fetched s"
  shows "occupancy_ok s \<and>
    int (length (w_instList (co_window s))) \<le> w_robSize (co_window s) \<and>
    int (length (co_issueQueue s)) \<le> w_issueQueueCapacity (co_window s) \<and>
    int (length (co_cosimIssueQueue s)) \<le> w_cosimQueueSize (co_window s) \<and>
    int (length (lq_list (ls_ldq (co_lsu s)))) \<le> lq_size (ls_ldq (co_lsu s)) \<and>
    int (length (lq_list (ls_stq (co_lsu s)))) \<le> lq_size (ls_stq (co_lsu s))"
  using core_runs_occ [OF assms(2,1)] by (simp add: occupancy_ok_def lq_ok_def)

theorem core_queues_bounded_witness:
  "\<exists>s. core_runs quick_env fifo_backend demo_pp (demo_core 1) [0] [1, 2] s \<and>
     int (length (w_instList (co_window s))) \<le> w_robSize (co_window s)"
  using core_queues_bounded [OF demo_occupancy] demo_run by blast

text \<open>
  C12. The core is never found drained with work left in it.  When, at the end of a cycle of a run, the core
  finds itself drained, which is what ends the loop of \<open>main\<close>, then nothing was fetched in this cycle, and what
  has retired up to and including this cycle is exactly what was in the core at the start followed by all
  that was fetched, in program order.  (Whether \<open>preprocess\<close> has more to give is not part of the test, and
  not of this statement.)
\<close>

theorem drained_core_retired_all:
  assumes "occupancy_ok s0" "core_runs E mb pp s0 retired fetched s" "sim_cycle E mb pp s = Some s'" "core_drained s'"
  shows "fetched_in E pp s = [] \<and> retired @ retired_in s = line s0 @ fetched"
proof -
  have "w_robUsed (co_window s') = int (length (w_instList (co_window s')))"
    using core_runs_occ [OF core_runs.cycle [OF assms(2,3)] assms(1)] by (simp add: occupancy_ok_def)
  then have "line s' = []" using assms(4) by (simp add: line_def core_drained_def ifROBEmpty_def)
  then have e: "retired_in s = line s @ fetched_in E pp s" using sim_cycle_line [OF assms(3)] by simp
  have "length (retired_in s) \<le> length (line s)" by (simp add: retired_in_def line_def)
  then have "fetched_in E pp s = []" unfolding e by simp
  then show ?thesis using e core_runs_line [OF assms(2)] by simp
qed

theorem drained_core_retired_all_witness:
  "\<exists>s. sim_cycle quick_env fifo_backend demo_pp (demo_core 0) = Some s \<and> core_drained s \<and>
     retired_in (demo_core 0) = line (demo_core 0)"
  using demo_drain drained_core_retired_all [OF demo_occupancy core_runs.start] by fastforce

lemma stage_stall:
  "core_stonne E s = Some s' \<Longrightarrow> co_flushStall s' = co_flushStall s"
  "core_execute s = Some s' \<Longrightarrow> co_flushStall s' = co_flushStall s"
  "core_writeBack s = Some s' \<Longrightarrow> co_flushStall s' = co_flushStall s"
  "co_flushStall (core_commit s) = co_flushStall s" "co_flushStall (core_decode s) = co_flushStall s"
  by (auto simp: core_stonne_def core_execute_def core_writeBack_def core_commit_def core_decode_def Let_def
      split: if_splits bind_splits prod.splits)

lemma issue_stall: "core_issue s = Some s' \<Longrightarrow> co_flushStall s' = co_flushStall s"
proof -
  have c: "core_cosim_issue i s = Some s' \<Longrightarrow> co_flushStall s' = co_flushStall s" for i and s s' :: "('n, 'm, 'p) core"
    unfolding core_cosim_issue_def Let_def by (auto split: bind_splits)
  assume "core_issue s = Some s'"
  then show ?thesis
    by (auto simp: core_issue_def issue_cpu_def issue_cosim_def issue_stats_def Let_def
        split: if_splits bind_splits list.splits dest!: c)
qed

lemma dispatch_one_stall: "dispatch_one i s = Some s' \<Longrightarrow> co_flushStall s' = co_flushStall s"
  by (auto simp: dispatch_one_def Let_def split: bind_splits)

lemma dispatch_loop_stall: "dispatch_loop k out s = Some (out', s') \<Longrightarrow> co_flushStall s' = co_flushStall s"
proof (induction k arbitrary: out s)
  case (Suc k)
  show ?case
  proof (cases "co_insnQueue s")
    case (Cons i rest)
    let ?s1 = "dispatch_stats i s"
    obtain ok u where ls: "ls_canDispatch (co_ops ?s1) i True (co_lsu ?s1) = (ok, u)" by fastforce
    consider "s' = ?s1" | "s' = ?s1\<lparr>co_lsu := u\<rparr>"
      | s3 where "dispatch_one i (?s1\<lparr>co_lsu := u\<rparr>) = Some s3" "dispatch_loop k (out @ [i]) s3 = Some (out', s')"
      using Suc.prems Cons ls by (auto simp: Let_def split: if_splits bind_splits)
    then show ?thesis
      using Suc.IH dispatch_one_stall by cases (fastforce simp: dispatch_stats_def)+
  qed (use Suc.prems in auto)
qed simp

lemma dispatch_stall: "core_dispatch s = Some s' \<Longrightarrow> co_flushStall s' = co_flushStall s"
proof -
  have q: "co_flushStall (insnToIssueQueues is s) = co_flushStall s" for "is" and s :: "('n, 'm, 'p) core"
    unfolding insnToIssueQueues_def by (induction "is" arbitrary: s) simp_all
  assume "core_dispatch s = Some s'"
  then show ?thesis by (auto simp: core_dispatch_def q dispatch_loop_stall split: if_splits bind_splits)
qed

lemma rename_stall: "co_flushStall (core_rename s) = co_flushStall s"
proof -
  have "co_flushStall (rename_loop w k s) = co_flushStall s" for w k
    by (induction w k s rule: rename_loop.induct) (auto split: list.splits prod.splits)
  then show ?thesis by (simp add: core_rename_def Let_def)
qed

lemma backend_stall: "core_backend E s = Some s' \<Longrightarrow> co_flushStall s' = co_flushStall s"
  by (auto simp: core_backend_def stage_stall(4,5) rename_stall split: bind_splits
      dest!: stage_stall(1-3) issue_stall dispatch_stall)

lemma sim_cycle_stall:
  fixes s s' :: "('n, 'm, 'p) core"
  assumes "sim_cycle E mb pp s = Some s'"
  shows "\<not> co_flushStall s'"
proof -
  obtain s6 s7 s8 :: "('n, 'm, 'p) core" where v: "flush_bubble s6 = Some s7" "core_caches mb (s7\<lparr>co_cycles := co_cycles s7 + 1\<rparr>) = Some s8"
    and s': "co_flushStall s' = co_flushStall s8"
    using assms unfolding sim_cycle_def core_run_def by (auto split: bind_splits if_splits)
  have "\<not> co_flushStall s7"
    using v(1) unfolding flush_bubble_def Let_def by (auto split: if_splits bind_splits)
  moreover have "co_flushStall s8 = co_flushStall s7"
    using v(2) unfolding core_caches_def Let_def by (auto simp: deliver_def split: bind_splits)
  ultimately show ?thesis using s' by simp
qed

text \<open>
  C39. The stall after a misprediction stalls no stage: in a run that starts with the flag \<open>flushStall\<close> clear,
  it is clear at the start of every cycle and still clear when all stages before fetch have run, so no stage
  that tests it finds it set.
\<close>

theorem flush_stall_never_seen:
  assumes "\<not> co_flushStall s0" "core_runs E mb pp s0 retired fetched s"
  shows "\<not> co_flushStall s \<and> (\<forall>s'. core_backend E s = Some s' \<longrightarrow> \<not> co_flushStall s')"
proof -
  have "\<not> co_flushStall s" using assms(2,1) by (induction rule: core_runs.induct) (auto dest: sim_cycle_stall)
  then show ?thesis using backend_stall by metis
qed

theorem flush_stall_never_seen_witness:
  "\<exists>s. core_runs quick_env fifo_backend demo_pp (demo_core 1) [0] [1, 2] s \<and> \<not> co_flushStall s"
proof -
  have "\<not> co_flushStall (demo_core 1)" by (simp add: demo_core_def)
  from flush_stall_never_seen [OF this] demo_run show ?thesis by blast
qed

end
