(* ===== verification/CoreAccel.thy ===== *)
theory CoreAccel
  imports CoreRuns
begin

text \<open>
  The instructions that wait for the accelerator: which commands name an instruction of the core, that no
  stage of the controller changes that, and that it reports only such instructions as finished.
\<close>

section \<open>Instructions the accelerator will finish\<close>

definition sa_insts :: "'n sa \<Rightarrow> nat set" where
  "sa_insts a = {i. \<exists>c. cm_dyn_inst (sa_cmds a c) = Some i}"

definition insts_kept :: "'n sa \<Rightarrow> 'n sa \<Rightarrow> bool" where
  "insts_kept a b \<longleftrightarrow> (\<forall>c. cm_dyn_inst (sa_cmds b c) = cm_dyn_inst (sa_cmds a c)) \<and>
     (\<exists>new. sa_finished b = sa_finished a @ new \<and> set new \<subseteq> sa_insts a)"

lemma insts_kept_refl [simp]: "insts_kept a a"
  by (simp add: insts_kept_def)

lemma insts_kept_sa_insts: "insts_kept a b \<Longrightarrow> sa_insts b = sa_insts a"
  by (simp add: insts_kept_def sa_insts_def)

lemma insts_kept_trans [trans]:
  assumes "insts_kept a b" "insts_kept b c"
  shows "insts_kept a c"
  using assms insts_kept_sa_insts [OF assms(1)] unfolding insts_kept_def by auto

lemma insts_keptI:
  "(\<And>c. cm_dyn_inst (sa_cmds b c) = cm_dyn_inst (sa_cmds a c)) \<Longrightarrow> sa_finished b = sa_finished a \<Longrightarrow> insts_kept a b"
  by (simp add: insts_kept_def)

lemma dyn_inst_simps [simp]:
  "cm_dyn_inst (update_status c st cs x) = cm_dyn_inst (cs x)" "cm_dyn_inst (set_done c cs x) = cm_dyn_inst (cs x)"
  "cm_dyn_inst (insert_parent c p cs x) = cm_dyn_inst (cs x)" "cm_dyn_inst (insert_child c p cs x) = cm_dyn_inst (cs x)"
  "cm_dyn_inst (remove_parent c p cs x) = cm_dyn_inst (cs x)"
  by (simp_all add: update_status_def set_done_def insert_parent_def insert_child_def remove_parent_def upd_cmd_def)

lemma build_deps_dyn [simp]: "cm_dyn_inst (build_deps c ps cs x) = cm_dyn_inst (cs x)"
  by (induction c ps cs rule: build_deps.induct) simp_all

lemma fold_remove_dyn [simp]: "cm_dyn_inst (fold (\<lambda>ch. remove_parent ch c) chs cs x) = cm_dyn_inst (cs x)"
  by (induction chs arbitrary: cs) simp_all

lemma commit_one_dyn:
  assumes "commit_one c (cs, r, lg) = (cs', r', lg')"
  shows "cm_dyn_inst (cs' x) = cm_dyn_inst (cs x)"
    "set (cl_finished lg') \<subseteq> set (cl_finished lg) \<union> {i. \<exists>c. cm_dyn_inst (cs c) = Some i}"
  using assms by (auto simp: commit_one_def Let_def split: option.splits)

lemma commit_loop_dyn:
  "commit_loop n (cs, r, lg) = (cs', r', lg') \<Longrightarrow>
     (\<forall>x. cm_dyn_inst (cs' x) = cm_dyn_inst (cs x)) \<and>
     set (cl_finished lg') \<subseteq> set (cl_finished lg) \<union> {i. \<exists>c. cm_dyn_inst (cs c) = Some i}"
proof (induction n arbitrary: cs r lg)
  case (Suc n)
  show ?case
  proof (cases "bq_is_empty (rb_queue r) \<or> get_commit_head cs r = None")
    case False
    then obtain c where c: "get_commit_head cs r = Some c" "\<not> bq_is_empty (rb_queue r)" by auto
    obtain cs1 r1 lg1 where one: "commit_one c (cs, r, lg) = (cs1, r1, lg1)" by (metis prod_cases3)
    have "commit_loop n (cs1, r1, lg1) = (cs', r', lg')" using Suc.prems c one by simp
    from Suc.IH [OF this] commit_one_dyn [OF one] show ?thesis by auto
  qed (use Suc.prems in \<open>auto split: if_splits\<close>)
qed auto

lemma sa_commit_kept: "insts_kept s (sa_commit s)"
proof -
  obtain cs r lg where l: "commit_loop (nat (rb_commit_width (sa_rob s) + 1)) (sa_cmds s, sa_rob s,
      \<lparr>cl_finished = [], cl_deleted = []\<rparr>) = (cs, r, lg)" by (metis prod_cases3)
  show ?thesis
    using commit_loop_dyn [OF l] l by (auto simp: insts_kept_def sa_commit_def rob_commit_def sa_insts_def)
qed

lemma queue_stages_kept:
  "issue_store s = Some s' \<Longrightarrow> insts_kept s s'" "issue_load s = Some s' \<Longrightarrow> insts_kept s s'"
  "issue_exe s = Some s' \<Longrightarrow> insts_kept s s'"
  by (auto simp: issue_store_def issue_load_def issue_exe_def issue_cmd_def upd_status_def intro!: insts_keptI
      split: if_splits bind_splits command_type.splits)

lemma finish_cmd_kept: "insts_kept s (finish_cmd c s)"
  by (rule insts_keptI) (simp_all add: finish_cmd_def complete_op_def)

lemma sa_submit_kept: "sa_submit c b s = Some s' \<Longrightarrow> insts_kept s s'"
  by (auto simp: sa_submit_def Let_def intro!: insts_keptI split: bind_splits)

lemma execute_cmd_kept: "execute_cmd E c s = Some s' \<Longrightarrow> insts_kept s s'"
  by (auto simp: execute_cmd_def Let_def sa_Preload_def sa_MatrixMultiply_def configMem_def finish_cmd_def complete_op_def
      intro!: insts_keptI split: operation_type.splits dataflow_type.splits)

lemma exec_blocks_kept:
  "exec_weights E s = Some s' \<Longrightarrow> insts_kept s s'" "exec_psums_ws E s = Some s' \<Longrightarrow> insts_kept s s'"
  "exec_mm_os E s = Some s' \<Longrightarrow> insts_kept s s'" "exec_psums_os E s = Some s' \<Longrightarrow> insts_kept s s'"
  by (auto simp: exec_weights_def exec_psums_ws_def exec_mm_os_def exec_psums_os_def remove_tracked_mm_cmd_def Let_def
      finish_cmd_def complete_op_def intro!: insts_keptI split: if_splits list.splits option.splits bind_splits)

lemma exec_exe_kept: "exec_exe E s = Some s' \<Longrightarrow> insts_kept s s'"
proof (cases "bq_is_empty (sa_exe_contlr s)")
  case False
  assume "exec_exe E s = Some s'"
  then have "\<exists>c. s' = s \<or> (\<exists>s1. execute_cmd E c (upd_status c COSIM_EXECUTING s) = Some s1 \<and>
      sa_cmds s' = sa_cmds s1 \<and> sa_finished s' = sa_finished s1)"
    using False by (fastforce simp: exec_exe_def split: if_splits bind_splits)
  then obtain c where "s' = s \<or> (\<exists>s1. execute_cmd E c (upd_status c COSIM_EXECUTING s) = Some s1 \<and>
      sa_cmds s' = sa_cmds s1 \<and> sa_finished s' = sa_finished s1)" ..
  then show ?thesis
    using execute_cmd_kept [of E c "upd_status c COSIM_EXECUTING s"]
    by (auto simp: insts_kept_def upd_status_def sa_insts_def)
qed (simp add: exec_exe_def)

lemma exec_moves_kept: "exec_load E s = Some s' \<Longrightarrow> insts_kept s s'" "exec_store E s = Some s' \<Longrightarrow> insts_kept s s'"
  by (auto simp: exec_load_def exec_store_def sa_load_def sa_store_def sa_submit_def upd_status_def Let_def
      intro!: insts_keptI split: if_splits bind_splits)

lemma sa_execute_kept:
  assumes "sa_execute E s = Some s'"
  shows "insts_kept s s'"
proof -
  obtain s1 s2 s3 s4 s5 s6 where "exec_weights E s = Some s1" "exec_psums_ws E s1 = Some s2" "exec_mm_os E s2 = Some s3"
    "exec_psums_os E s3 = Some s4" "exec_exe E s4 = Some s5" "exec_load E s5 = Some s6" "exec_store E s6 = Some s'"
    using assms by (auto simp: sa_execute_def split: bind_splits)
  then show ?thesis
    by (meson exec_blocks_kept exec_exe_kept exec_moves_kept insts_kept_trans)
qed

lemma sa_issue_kept: "sa_issue s = Some s' \<Longrightarrow> insts_kept s s'"
  by (auto simp: sa_issue_def split: bind_splits dest!: queue_stages_kept intro: insts_kept_trans)

lemma dispatch_cmd_kept: "dispatch_cmd c s = Some s' \<Longrightarrow> insts_kept s s'"
  by (auto simp: dispatch_cmd_def build_data_dep_def Let_def intro!: insts_keptI split: bind_splits command_type.splits)

lemma sa_dispatch_kept:
  assumes "sa_dispatch s = Some s'"
  shows "insts_kept s s'"
proof -
  let ?c = "hd (bq_list (sa_inst_queue s))"
  consider "s' = s" | s1 where "dispatch_cmd ?c (upd_status ?c COSIM_WAITING s) = Some s1"
      "sa_cmds s' = sa_cmds s1" "sa_finished s' = sa_finished s1"
    using assms by (auto simp: sa_dispatch_def Let_def split: if_splits bind_splits)
  then show ?thesis
  proof cases
    case 2
    from dispatch_cmd_kept [OF 2(1)] 2(2,3) show ?thesis by (auto simp: insts_kept_def upd_status_def sa_insts_def)
  qed simp
qed

lemma try_complete_fence_kept: "insts_kept s (try_complete_fence s)"
  by (rule insts_keptI) (auto simp: try_complete_fence_def complete_op_def split: option.splits)

lemma retire_dma_kept: "retire_dma cs s = Some s' \<Longrightarrow> insts_kept s s'"
proof (induction cs arbitrary: s)
  case (Cons c cs)
  have k: "insts_kept s t" if "sa_cmds t = sa_cmds (finish_cmd c s)" "sa_finished t = sa_finished (finish_cmd c s)" for t
    using that finish_cmd_kept [of s c] by (simp add: insts_kept_def)
  from Cons.prems obtain t where "retire_dma cs t = Some s'" "sa_cmds t = sa_cmds (finish_cmd c s)"
    "sa_finished t = sa_finished (finish_cmd c s)"
    by (auto simp: Let_def split: command_type.splits)
  then show ?case using k Cons.IH insts_kept_trans by blast
qed simp

lemma run_dma_kept:
  assumes "run_dma s = Some s'"
  shows "insts_kept s s'"
proof -
  obtain cs t where "retire_dma cs t = Some s'" "sa_cmds t = sa_cmds s" "sa_finished t = sa_finished s"
    using assms by (auto simp: run_dma_def split: bind_splits prod.splits)
  then show ?thesis using retire_dma_kept [of cs t s'] by (simp add: insts_kept_def sa_insts_def)
qed

lemma stonne_kept:
  assumes "stonne_cycle E s = Some s'"
  shows "insts_kept s s'"
proof -
  obtain s1 where c: "sa_cycle E s = Some s1" "sa_cmds s' = sa_cmds s1" "sa_finished s' = sa_finished s1"
    using assms by (auto simp: stonne_cycle_def Let_def split: bind_splits prod.splits)
  let ?s0 = "(count_cycle s)\<lparr>sa_local_cycle := sa_local_cycle (count_cycle s) + 1\<rparr>"
  obtain t1 t2 t3 where "run_dma ?s0 = Some t1" "sa_execute E (sa_commit t1) = Some t2"
    "sa_issue (try_complete_fence t2) = Some t3" "sa_dispatch t3 = Some s1"
    using c(1) by (auto simp: sa_cycle_def Let_def split: bind_splits)
  then have "insts_kept ?s0 s1"
    by (meson insts_kept_trans run_dma_kept sa_commit_kept sa_dispatch_kept sa_execute_kept sa_issue_kept try_complete_fence_kept)
  then show ?thesis using c(2,3) by (auto simp: insts_kept_def sa_insts_def count_cycle_def split: if_splits)
qed

end
