(* ===== verification/CoreTyped.thy ===== *)
theory CoreTyped
  imports CoreAccel
begin

text \<open>
  What holds of the instructions in every reachable state of the core: each container holds
  instructions whose status belongs there, and nothing gets past \<open>ALLOCATED\<close> before everything it
  depends on has finished.  Every stage of theory \<open>Core\<close> is shown to keep the invariant \<open>core_typed\<close>;
  \<open>preprocess\<close> is assumed to create fresh instructions and to leave the others alone (\<open>allocates\<close>).
\<close>

section \<open>What each container holds\<close>

definition front :: "('n, 'm, 'p) core \<Rightarrow> nat list" where
  "front s = co_insnQueue s @ co_to_rename s @ co_to_decode s @ co_fetchBuffer s @ co_flushedInsns s @ co_processedOps s"

lemma line_front: "line s = w_instList (co_window s) @ front s"
  by (simp add: line_def front_def)

text \<open>
  The invariant over the store of instructions, the number \<open>n\<close> of the next instruction, the line, its
  part before dispatch, both issue queues, the instructions in flight and those of the accelerator's
  commands.
\<close>

definition typed ::
    "op_store \<Rightarrow> nat \<Rightarrow> nat list \<Rightarrow> nat list \<Rightarrow> nat list \<Rightarrow> nat list \<Rightarrow> nat list \<Rightarrow> nat set \<Rightarrow> bool" where
  "typed ops n l fr iq cq fl X \<longleftrightarrow>
     distinct l \<and> set fr \<subseteq> set l \<and> distinct iq \<and> distinct cq \<and> (\<forall>i\<in>set l. i < n) \<and>
     (\<forall>i. n \<le> i \<longrightarrow> do_status (ops i) = INIT) \<and> (\<forall>i\<in>set fr. do_status (ops i) = INIT) \<and>
     (\<forall>i\<in>set iq. do_status (ops i) \<in> {ALLOCATED, READY} \<and> \<not> isCosimFunc (ops i)) \<and>
     (\<forall>i\<in>set cq. do_status (ops i) = ALLOCATED \<and> isCosimFunc (ops i)) \<and>
     (\<forall>i\<in>set fl \<union> X. ISSUED \<le> do_status (ops i)) \<and> deps_ok ops"

definition core_typed :: "('p \<Rightarrow> nat) \<Rightarrow> ('n, 'm, 'p) core \<Rightarrow> bool" where
  "core_typed nxt s \<longleftrightarrow> typed (co_ops s) (nxt (co_prog s)) (line s) (front s) (co_issueQueue s)
     (co_cosimIssueQueue s) (co_inFlight s) (sa_insts (co_sa s))"

lemma late_steps_simps:
  assumes "late_steps ops ops'"
  shows "do_status (ops' i) = INIT \<longleftrightarrow> do_status (ops i) = INIT" "isCosimFunc (ops' i) = isCosimFunc (ops i)"
    "ISSUED \<le> do_status (ops i) \<Longrightarrow> ISSUED \<le> do_status (ops' i)"
    "\<not> ISSUED \<le> do_status (ops i) \<Longrightarrow> do_status (ops' i) = do_status (ops i)"
  using assms by (auto simp: late_steps_def status_moves_def same_static_def isCosimFunc_def)

lemma typed_late:
  assumes "typed ops n l fr iq cq fl X" "late_steps ops ops'"
  shows "typed ops' n l fr iq cq fl X"
proof -
  note l = late_steps_simps [OF assms(2)]
  have "deps_ok ops'" using assms deps_ok_steps late_steps_op by (auto simp: typed_def)
  moreover have "do_status (ops' i) = do_status (ops i)" if "do_status (ops i) \<in> {ALLOCATED, READY}" for i
    using l(4) [of i] that by auto
  ultimately show ?thesis using assms(1) l(1-3) by (auto simp: typed_def)
qed

lemma typed_sub:
  assumes "typed ops n l fr iq cq fl X" "distinct l'" "set l' \<subseteq> set l" "set fr' \<subseteq> set fr" "set fr' \<subseteq> set l'" "set fl' \<subseteq> set fl"
  shows "typed ops n l' fr' iq cq fl' X"
  using assms by (auto simp: typed_def)

section \<open>Commit, accelerator, execution and write-back\<close>

lemma commit_typed:
  assumes "core_typed nxt s"
  shows "core_typed nxt (core_commit s)"
proof (cases "co_flushStall s")
  case False
  obtain w ops bp where r: "retireInstruction (co_cycles s) (co_window s, co_ops s, co_bp s) = (w, ops, bp)"
    by (metis prod_cases3)
  then have late: "late_steps (co_ops s) ops"
    using retire_loop_late [of "(co_window s, co_ops s, co_bp s)" "nat (w_retireSize (co_window s))" "co_cycles s"]
    by (simp add: retireInstruction_def)
  let ?t = "core_commit s"
  have t: "co_ops ?t = ops" "co_prog ?t = co_prog s" "front ?t = front s" "co_issueQueue ?t = co_issueQueue s"
    "co_cosimIssueQueue ?t = co_cosimIssueQueue s" "set (co_inFlight ?t) \<subseteq> set (co_inFlight s)" "co_sa ?t = co_sa s"
    using False r by (auto simp: core_commit_def front_def)
  have l: "line s = retired_in s @ line ?t" by (simp add: commit_line)
  have "typed ops (nxt (co_prog s)) (line s) (front s) (co_issueQueue s) (co_cosimIssueQueue s) (co_inFlight s)
      (sa_insts (co_sa s))"
    using assms late typed_late by (auto simp: core_typed_def)
  then show ?thesis
    unfolding core_typed_def t(1-5,7)
  proof (rule typed_sub)
    have "distinct (line s)" using assms by (simp add: core_typed_def typed_def)
    then show "distinct (line ?t)" "set (line ?t) \<subseteq> set (line s)" unfolding l by simp_all
    show "set (front s) \<subseteq> set (line ?t)" using t(3) line_front [of ?t] by simp
  qed (use t(6) in simp_all)
qed (use assms in \<open>simp add: core_commit_def\<close>)

lemma finish_insts_late:
  "\<forall>i\<in>set is. ISSUED \<le> do_status (ops i) \<Longrightarrow>
     late_steps ops (foldl (\<lambda>ops i. if isCosimFunc (ops i) then set_status i FINISHED ops else ops) ops is)"
proof (induction "is" arbitrary: ops)
  case (Cons i "is")
  let ?o = "if isCosimFunc (ops i) then set_status i FINISHED ops else ops"
  have a: "late_steps ops ?o" using Cons.prems set_finished_late by simp
  then have "\<forall>j\<in>set is. ISSUED \<le> do_status (?o j)" using Cons.prems late_steps_simps(3) by (metis list.set_intros(2))
  from late_steps_trans [OF a Cons.IH [OF this]] show ?case by simp
qed simp

lemma front_view: "order_view s' = order_view s \<Longrightarrow> front s' = front s"
  by (simp add: order_view_def front_def)

text \<open>A stage that changes the store of instructions by late steps and keeps the containers.\<close>

lemma typed_keep:
  assumes "core_typed nxt s" "late_steps (co_ops s) (co_ops s')" "order_view s' = order_view s" "co_prog s' = co_prog s"
    "co_issueQueue s' = co_issueQueue s" "co_cosimIssueQueue s' = co_cosimIssueQueue s"
    "co_inFlight s' = co_inFlight s" "sa_insts (co_sa s') = sa_insts (co_sa s)"
  shows "core_typed nxt s'"
  using assms typed_late by (simp add: core_typed_def line_view [OF assms(3)] front_view [OF assms(3)])

lemma stonne_typed:
  assumes "core_stonne E s = Some s'" "core_typed nxt s"
  shows "core_typed nxt s'"
proof -
  let ?a = "(co_sa s)\<lparr>sa_l2 := lv_l2 (co_levels s), sa_txns := co_txns s\<rparr>"
  obtain a1 where a: "stonne_cycle E ?a = Some a1" and s': "co_sa s' = a1" "co_prog s' = co_prog s"
    "co_issueQueue s' = co_issueQueue s" "co_cosimIssueQueue s' = co_cosimIssueQueue s" "co_inFlight s' = co_inFlight s"
    "co_ops s' = foldl (\<lambda>ops i. if isCosimFunc (ops i) then set_status i FINISHED ops else ops) (co_ops s)
       (drop (length (sa_finished ?a)) (sa_finished a1))"
    using assms(1) by (auto simp: core_stonne_def Let_def split: bind_splits)
  have k: "insts_kept ?a a1" by (rule stonne_kept [OF a])
  then have i: "sa_insts a1 = sa_insts (co_sa s)" by (auto simp: insts_kept_def sa_insts_def)
  have "set (drop (length (sa_finished ?a)) (sa_finished a1)) \<subseteq> sa_insts (co_sa s)"
    using k by (auto simp: insts_kept_def sa_insts_def)
  then have "\<forall>i\<in>set (drop (length (sa_finished ?a)) (sa_finished a1)). ISSUED \<le> do_status (co_ops s i)"
    using assms(2) by (auto simp: core_typed_def typed_def)
  from finish_insts_late [OF this] show ?thesis
    by (intro typed_keep [OF assms(2)]) (simp_all add: s' i stonne_view [OF assms(1)])
qed

lemma release_late: "release_units i (ops, u, ports) = (ops', u', ports') \<Longrightarrow> ops' = op_freeFU i ops"
  by (auto simp: release_units_def Let_def split: prod.splits)

lemma on_cache_ops:
  assumes "on_cache g x = Some y" "\<And>m ops c m' ops' c'. g (m, ops, c) = Some (m', ops', c') \<Longrightarrow> late_steps ops ops'"
  shows "late_steps (ex_ops x) (ex_ops y)"
  using assms by (auto simp: on_cache_def split: bind_splits)

lemma exec_one_late:
  assumes "exec_one lsu i x = Some y" "ISSUED \<le> do_status (ex_ops x i)"
  shows "late_steps (ex_ops x) (ex_ops y)"
proof (cases "isCosimFunc (ex_ops x i) \<and> \<not> ci_is_fence (do_cosim (ex_ops x i))")
  case True
  then have "ex_ops y = set_status i FINISHED (ex_ops x)" using assms(1) by (auto simp: exec_one_def Let_def)
  then show ?thesis using assms(2) set_finished_late by simp
next
  case c: False
  show ?thesis
  proof (cases "do_status (ex_ops x i) = FINISHED")
    case True
    with c assms(1) show ?thesis by (auto simp: exec_one_def Let_def)
  next
    case False
    let ?x1 = "x\<lparr>ex_ops := op_execute i (ex_ops x)\<rparr>"
    obtain x2 x3 where x2: "(if isLoad (ex_ops ?x1 i) then on_cache (executeLoad i lsu) ?x1 else Some ?x1) = Some x2"
      and x3: "(if isStore (ex_ops x2 i) then on_cache (executeStore i) x2 else Some x2) = Some x3"
      and y: "y = (if do_status (ex_ops x3 i) = SLEEP
                   then let (ops, u, ports) = release_units i (ex_ops x3, ex_unit x3, ex_ports x3)
                        in x3\<lparr>ex_ops := ops, ex_unit := u, ex_ports := ports\<rparr>
                   else x3)"
      using assms(1) c False unfolding exec_one_def Let_def by (auto simp del: split_paired_Ex split: bind_splits)
    have a: "late_steps (ex_ops x) (ex_ops ?x1)" by (simp add: op_execute_late)
    have b: "late_steps (ex_ops ?x1) (ex_ops x2)"
      using x2 on_cache_ops [of "executeLoad i lsu" ?x1 x2] executeLoad_steps by (auto split: if_splits)
    have d: "late_steps (ex_ops x2) (ex_ops x3)"
      using x3 on_cache_ops [of "executeStore i" x2 x3] executeStore_steps by (auto split: if_splits)
    obtain ops u ports where r: "release_units i (ex_ops x3, ex_unit x3, ex_ports x3) = (ops, u, ports)" by (metis prod_cases3)
    have "late_steps (ex_ops x3) (ex_ops y)"
      using y r release_late [OF r] by (auto split: if_splits)
    then show ?thesis using a b d by (blast intro: late_steps_trans)
  qed
qed

lemma exec_insns_late:
  "exec_insns lsu is x = Some y \<Longrightarrow> \<forall>i\<in>set is. ISSUED \<le> do_status (ex_ops x i) \<Longrightarrow> late_steps (ex_ops x) (ex_ops y)"
proof (induction "is" arbitrary: x)
  case (Cons i "is")
  obtain z where z: "exec_one lsu i x = Some z" "exec_insns lsu is z = Some y" using Cons.prems(1) by (auto split: bind_splits)
  have a: "late_steps (ex_ops x) (ex_ops z)" using exec_one_late [OF z(1)] Cons.prems(2) by simp
  then have "\<forall>j\<in>set is. ISSUED \<le> do_status (ex_ops z j)"
    using Cons.prems(2) late_steps_simps(3) by (metis list.set_intros(2))
  then show ?case using Cons.IH [OF z(2)] a late_steps_trans by blast
qed simp

lemma execute_typed:
  assumes "core_execute s = Some s'" "core_typed nxt s"
  shows "core_typed nxt s'"
proof (cases "co_flushStall s")
  case False
  let ?x = "\<lparr>ex_txns = co_txns s, ex_ops = co_ops s, ex_l1d = lv_l1d (co_levels s), ex_unit = co_unit s, ex_ports = co_ports s\<rparr>"
  obtain x where x: "exec_insns (co_lsu s) (co_inFlight s) ?x = Some x" and s': "co_ops s' = ex_ops x" "co_prog s' = co_prog s"
    "co_issueQueue s' = co_issueQueue s" "co_cosimIssueQueue s' = co_cosimIssueQueue s" "co_inFlight s' = co_inFlight s"
    "co_sa s' = co_sa s"
    using assms(1) False by (auto simp: core_execute_def split: bind_splits)
  have "\<forall>i\<in>set (co_inFlight s). ISSUED \<le> do_status (ex_ops ?x i)"
    using assms(2) by (auto simp: core_typed_def typed_def)
  from exec_insns_late [OF x this] show ?thesis
    by (intro typed_keep [OF assms(2)]) (simp_all add: s' execute_view [OF assms(1)])
qed (use assms in \<open>simp add: core_execute_def\<close>)

lemma wb_one_late:
  assumes "wb_one cycle i (ops, u, ports) = Some (ops', u', ports')"
  shows "late_steps ops ops'"
proof -
  let ?st = "do_status (ops i)"
  consider "isCosimFunc (ops i)" | "ops' = ops"
    | ops1 where "ops1 = ops \<or> ?st = EXECUTING \<and> ops1 = upd_op i (\<lambda>p. p\<lparr>do_E := cycle, do_status := FINISHED\<rparr>) ops"
        "ops' = ops1 \<or> (\<exists>u1 p1. release_units i (ops1, u, ports) = (ops', u1, p1))"
    using assms unfolding wb_one_def Let_def prod.case
    by (cases "?st = COMMITED") (auto split: if_splits bind_splits)
  then show ?thesis
  proof cases
    case 1
    then have "ops' = upd_op i (\<lambda>p. p\<lparr>do_E := cycle\<rparr>) ops" using assms by (simp add: wb_one_def)
    then show ?thesis by (simp add: late_steps_keep same_static_def)
  next
    case 3
    have "late_steps ops ops1"
      using 3(1) by (auto simp: same_static_def status_moves_def intro!: late_steps_upd)
    moreover have "late_steps ops1 ops'" using 3(2) by (auto dest!: release_late)
    ultimately show ?thesis by (rule late_steps_trans)
  qed simp
qed

lemma wb_insns_late: "wb_insns cycle is (ops, u, ports) = Some (ops', u', ports') \<Longrightarrow> late_steps ops ops'"
proof (induction "is" arbitrary: ops u ports)
  case (Cons i "is")
  obtain x where x: "wb_one cycle i (ops, u, ports) = Some x" "wb_insns cycle is x = Some (ops', u', ports')"
    using Cons.prems by (auto split: bind_splits)
  obtain o1 u1 p1 where "x = (o1, u1, p1)" by (cases x)
  then show ?case using x wb_one_late Cons.IH late_steps_trans by blast
qed simp

lemma writeBack_typed:
  assumes "core_writeBack s = Some s'" "core_typed nxt s"
  shows "core_typed nxt s'"
proof (cases "co_flushStall s")
  case False
  obtain m ops lsu ops1 u ports where l: "ls_wb (co_txns s, co_ops s, co_lsu s) = Some (m, ops, lsu)"
    and w: "wb_insns (co_cycles s) (co_inFlight s) (ops, co_unit s, co_ports s) = Some (ops1, u, ports)"
    and s': "co_ops s' = ops1" "co_prog s' = co_prog s" "co_issueQueue s' = co_issueQueue s"
      "co_cosimIssueQueue s' = co_cosimIssueQueue s" "co_inFlight s' = co_inFlight s" "co_sa s' = co_sa s"
    using assms(1) False by (auto simp: core_writeBack_def split: bind_splits)
  have "late_steps (co_ops s) ops"
    using l wb_loop_late by (auto simp: ls_wb_def split: bind_splits)
  then have "late_steps (co_ops s) ops1" using wb_insns_late [OF w] by (rule late_steps_trans)
  then show ?thesis by (intro typed_keep [OF assms(2)]) (simp_all add: s' writeBack_view [OF assms(1)])
qed (use assms in \<open>simp add: core_writeBack_def\<close>)


section \<open>Issue\<close>

lemma doIssue_frame:
  assumes "doIssue i cycle st = Some st'"
  shows "j \<noteq> i \<Longrightarrow> is_ops st' j = is_ops st j"
    "do_status (is_ops st i) \<in> {ALLOCATED, READY} \<Longrightarrow> do_status (is_ops st' i) \<in> {ALLOCATED, READY, ISSUED}"
proof -
  let ?s = "if do_status (is_ops st i) = ALLOCATED then st\<lparr>is_ops := advance i (is_ops st)\<rparr> else st"
  obtain ok st2 where s: "schedule i cycle ?s = Some (ok, st2)"
    and r: "(if ok
              then do { assert_that (do_status (is_ops st2 i) = READY);
                        Some (st2\<lparr>is_ops := upd_op i (\<lambda>p. p\<lparr>do_e := cycle\<rparr>) (advance i (is_ops st2)),
                                  is_ready := is_ready st2 @ [i]\<rparr>) }
              else Some (st2\<lparr>is_unit := (is_unit st2)\<lparr>iu_fuStall := iu_fuStall (is_unit st2) + 1\<rparr>\<rparr>)) = Some st'"
    using assms unfolding doIssue_def Let_def by (auto split: bind_splits)
  note o = only_units_other [OF schedule_only [OF s]] only_units_ops(2) [OF schedule_only [OF s], of i]
  show "j \<noteq> i \<Longrightarrow> is_ops st' j = is_ops st j"
    using r o(1) [of j] by (auto simp: advance_def split: if_splits)
  show "do_status (is_ops st' i) \<in> {ALLOCATED, READY, ISSUED}" if "do_status (is_ops st i) \<in> {ALLOCATED, READY}"
    using r o(2) that by (auto simp: advance_def split: if_splits)
qed

lemma issue_loop_frame:
  "issue_loop cycle q st = Some (rest, st') \<Longrightarrow> distinct q \<Longrightarrow>
     \<forall>i\<in>set q. do_status (is_ops st i) \<in> {ALLOCATED, READY} \<Longrightarrow>
     (\<forall>j. j \<notin> set q \<longrightarrow> is_ops st' j = is_ops st j) \<and> distinct rest \<and> set rest \<subseteq> set q \<and>
     (\<forall>i\<in>set rest. do_status (is_ops st' i) \<in> {ALLOCATED, READY})"
proof (induction cycle q st arbitrary: rest st' rule: issue_loop.induct)
  case (2 cycle i q st)
  obtain st1 where one: "(if canIssue (is_ops st) i then doIssue i cycle st else Some st) = Some st1"
    using "2.prems"(1) by (auto split: bind_splits)
  have f: "\<And>j. j \<noteq> i \<Longrightarrow> is_ops st1 j = is_ops st j" "do_status (is_ops st1 i) \<in> {ALLOCATED, READY, ISSUED}"
    using one doIssue_frame "2.prems"(3) by (auto split: if_splits)
  let ?k = "if do_status (is_ops st1 i) \<noteq> ISSUED then [i] else []"
  let ?s = "if do_status (is_ops st1 i) \<noteq> ISSUED then st1 else st1\<lparr>is_used := is_used st1 - 1\<rparr>"
  have s: "is_ops ?s = is_ops st1" by simp
  have iq: "i \<notin> set q" "distinct q" using "2.prems"(2) by simp_all
  have q: "\<forall>j\<in>set q. do_status (is_ops ?s j) \<in> {ALLOCATED, READY}"
    using "2.prems"(3) f(1) iq(1) unfolding s by (metis list.set_intros(2))
  show ?case
  proof (cases "length (is_occupied ?s) = length (is_ports ?s)")
    case True
    have "rest = ?k @ q \<and> st' = ?s"
      using "2.prems"(1) True unfolding issue_loop.simps one Let_def by simp
    with s f q iq show ?thesis by auto
  next
    case False
    have "issue_loop cycle q ?s \<bind> (\<lambda>(rest, st3). Some (?k @ rest, st3)) = Some (rest, st')"
      using "2.prems"(1) False unfolding issue_loop.simps one Let_def by simp
    then obtain r3 where r: "issue_loop cycle q ?s = Some (r3, st')" "rest = ?k @ r3"
      by (auto split: bind_splits)
    note IH = "2.IH" [OF one refl refl False r(1) iq(2) q]
    have "is_ops st' i = is_ops st1 i" using IH iq(1) s by simp
    with IH r(2) s f iq show ?thesis by auto
  qed
qed simp

lemma finish_at_once_late:
  "\<forall>i\<in>set is. ISSUED \<le> do_status (ops i) \<Longrightarrow> late_steps ops (finish_at_once cycle is ops)"
  unfolding finish_at_once_def
proof (induction "is" arbitrary: ops)
  case (Cons i "is")
  let ?o = "if op_finish (ops i) then upd_op i (\<lambda>p. p\<lparr>do_E := cycle, do_status := FINISHED\<rparr>) ops else ops"
  have "ISSUED \<le> do_status (ops i)" using Cons.prems by simp
  then have a: "late_steps ops ?o"
    by (cases "do_status (ops i)") (auto simp: same_static_def status_moves_def intro!: late_steps_upd)
  then have "\<forall>j\<in>set is. ISSUED \<le> do_status (?o j)" using Cons.prems late_steps_simps(3) by (metis list.set_intros(2))
  from late_steps_trans [OF a Cons.IH [OF this]] show ?case by simp
qed simp

lemma op_steps_simps:
  assumes "op_steps ops ops'"
  shows "do_status (ops' i) = INIT \<longleftrightarrow> do_status (ops i) = INIT" "isCosimFunc (ops' i) = isCosimFunc (ops i)"
    "ISSUED \<le> do_status (ops i) \<Longrightarrow> ISSUED \<le> do_status (ops' i)"
  using assms by (auto simp: op_steps_def status_moves_def same_static_def isCosimFunc_def)

lemma typedD:
  assumes "typed ops n l fr iq cq fl X"
  shows "distinct l" "set fr \<subseteq> set l" "distinct iq" "distinct cq" "\<And>i. i \<in> set l \<Longrightarrow> i < n"
    "\<And>i. n \<le> i \<Longrightarrow> do_status (ops i) = INIT" "\<And>i. i \<in> set fr \<Longrightarrow> do_status (ops i) = INIT"
    "\<And>i. i \<in> set iq \<Longrightarrow> do_status (ops i) \<in> {ALLOCATED, READY} \<and> \<not> isCosimFunc (ops i)"
    "\<And>i. i \<in> set cq \<Longrightarrow> do_status (ops i) = ALLOCATED \<and> isCosimFunc (ops i)"
    "\<And>i. i \<in> set fl \<Longrightarrow> ISSUED \<le> do_status (ops i)" "\<And>i. i \<in> X \<Longrightarrow> ISSUED \<le> do_status (ops i)" "deps_ok ops"
  using assms unfolding typed_def by blast+

lemma typedI:
  assumes "distinct l" "set fr \<subseteq> set l" "distinct iq" "distinct cq" "\<And>i. i \<in> set l \<Longrightarrow> i < n"
    "\<And>i. n \<le> i \<Longrightarrow> do_status (ops i) = INIT" "\<And>i. i \<in> set fr \<Longrightarrow> do_status (ops i) = INIT"
    "\<And>i. i \<in> set iq \<Longrightarrow> do_status (ops i) \<in> {ALLOCATED, READY} \<and> \<not> isCosimFunc (ops i)"
    "\<And>i. i \<in> set cq \<Longrightarrow> do_status (ops i) = ALLOCATED \<and> isCosimFunc (ops i)"
    "\<And>i. i \<in> set fl \<Longrightarrow> ISSUED \<le> do_status (ops i)" "\<And>i. i \<in> X \<Longrightarrow> ISSUED \<le> do_status (ops i)" "deps_ok ops"
  shows "typed ops n l fr iq cq fl X"
  using assms unfolding typed_def by blast

text \<open>Issue takes instructions out of the queues.\<close>

lemma typed_issue:
  assumes "typed ops n l fr iq cq fl X" "op_steps ops ops'" "distinct iq'" "set iq' \<subseteq> set iq"
    "\<And>i. i \<in> set iq' \<Longrightarrow> do_status (ops' i) \<in> {ALLOCATED, READY}" "distinct cq'" "set cq' \<subseteq> set cq"
    "\<And>i. i \<in> set cq' \<Longrightarrow> do_status (ops' i) = do_status (ops i)"
    "\<And>i. i \<in> X' \<Longrightarrow> i \<notin> X \<Longrightarrow> ISSUED \<le> do_status (ops' i)"
  shows "typed ops' n l fr iq' cq' fl X'"
proof (rule typedI)
  note t = typedD [OF assms(1)] and o = op_steps_simps [OF assms(2)]
  show "deps_ok ops'" by (rule deps_ok_steps [OF t(12) assms(2)])
  show "do_status (ops' i) \<in> {ALLOCATED, READY} \<and> \<not> isCosimFunc (ops' i)" if "i \<in> set iq'" for i
    using that assms(4,5) t(8) o(2) by blast
  show "do_status (ops' i) = ALLOCATED \<and> isCosimFunc (ops' i)" if "i \<in> set cq'" for i
    using that assms(7) assms(8) [of i] t(9) [of i] o(2) [of i] by auto
  show "ISSUED \<le> do_status (ops' i)" if "i \<in> X'" for i
    using that assms(9) t(11) o(3) by (cases "i \<in> X") blast+
qed (use typedD [OF assms(1)] op_steps_simps [OF assms(2)] assms(3,6) in blast)+

lemma issue_cpu_typed:
  assumes "issue_cpu s = Some (r, s')" "core_typed nxt s"
  shows "core_typed nxt s'" "\<forall>i\<in>set r. ISSUED \<le> do_status (co_ops s' i)"
proof -
  obtain rest st where i: "issue_insns (co_cycles s) (co_issueQueue s)
      (co_unit s, co_ports s, co_ops s, w_issueQueueUsed (co_window s)) = Some (rest, st)"
    and r: "r = is_ready st" and s': "co_ops s' = finish_at_once (co_cycles s) (is_ready st) (is_ops st)"
      "co_issueQueue s' = rest" "co_cosimIssueQueue s' = co_cosimIssueQueue s" "co_inFlight s' = co_inFlight s"
      "co_prog s' = co_prog s" "co_sa s' = co_sa s"
    using assms(1) by (auto simp: issue_cpu_def split: bind_splits)
  let ?st = "\<lparr>is_unit = co_unit s, is_ports = co_ports s, is_ops = co_ops s, is_occupied = [], is_ready = [],
    is_used = w_issueQueueUsed (co_window s)\<rparr>"
  have l: "issue_loop (co_cycles s) (co_issueQueue s) ?st = Some (rest, st)" using i by (simp add: issue_insns_def)
  have t: "typed (co_ops s) (nxt (co_prog s)) (line s) (front s) (co_issueQueue s) (co_cosimIssueQueue s) (co_inFlight s)
      (sa_insts (co_sa s))" using assms(2) by (simp add: core_typed_def)
  have st: "op_steps (co_ops s) (is_ops st)" and rd: "\<forall>i\<in>set (is_ready st). ISSUED \<le> do_status (is_ops st i)"
    using issue_loop_spec [OF l] by auto
  have f: "\<And>j. j \<notin> set (co_issueQueue s) \<Longrightarrow> is_ops st j = co_ops s j" "distinct rest" "set rest \<subseteq> set (co_issueQueue s)"
    "\<forall>i\<in>set rest. do_status (is_ops st i) \<in> {ALLOCATED, READY}"
    using issue_loop_frame [OF l] t by (auto simp: typed_def)
  note o = op_steps_simps [OF st]
  have cq: "is_ops st j = co_ops s j" if "j \<in> set (co_cosimIssueQueue s)" for j
    using f(1) [of j] that typedD(8) [OF t, of j] typedD(9) [OF t, of j] by auto
  have "typed (is_ops st) (nxt (co_prog s)) (line s) (front s) rest (co_cosimIssueQueue s) (co_inFlight s)
      (sa_insts (co_sa s))"
    by (rule typed_issue [OF t st f(2,3)]) (use f(4) typedD(4) [OF t] cq in auto)
  from typed_late [OF this finish_at_once_late [OF rd]] show "core_typed nxt s'"
    by (simp add: core_typed_def s' line_view [OF issue_cpu_view [OF assms(1)]] front_view [OF issue_cpu_view [OF assms(1)]])
  show "\<forall>i\<in>set r. ISSUED \<le> do_status (co_ops s' i)"
    unfolding s'(1) r using late_steps_simps(3) [OF finish_at_once_late [OF rd]] rd by blast
qed

lemma params_dyn [simp]:
  "cm_dyn_inst (set_params_config a b c d e f g h i cmd) = cm_dyn_inst cmd" "cm_dyn_inst (exe_params v cmd) = cm_dyn_inst cmd"
  "cm_dyn_inst (move_params v cmd) = cm_dyn_inst cmd" "cm_dyn_inst (new_command n t op0 d') = d'"
  by (simp_all add: set_params_config_def exe_params_def set_params_exe_def compute_sp_addr_range_def move_params_def
      set_params_move_def new_command_def Let_def)

lemma cosim_command_pred: "pred_option (\<lambda>cmd. cm_dyn_inst cmd = Some (ci_insn v)) (cosim_command v)"
  by (simp add: cosim_command_def Let_def)

lemma cosim_command_dyn: "cosim_command v = Some cmd \<Longrightarrow> cm_dyn_inst cmd = Some (ci_insn v)"
  using cosim_command_pred [of v] by simp

lemma cosim_issue_insts:
  assumes "cosim_issue v c a = Some a'"
  shows "sa_insts a' \<subseteq> insert (ci_insn v) (sa_insts a)"
proof (cases "ci_is_cosim_func v")
  case True
  then obtain cmd where "cosim_command v = Some cmd" "sa_cmds a' = (sa_cmds a)(c := cmd)"
    using assms by (auto simp: cosim_issue_def sa_receive_def split: bind_splits)
  then show ?thesis using cosim_command_dyn by (auto simp: sa_insts_def)
qed (use assms in \<open>auto simp: cosim_issue_def\<close>)

lemma issue_cosim_typed:
  assumes "issue_cosim r s = Some (r', s')" "core_typed nxt s" "\<forall>i\<in>set r. ISSUED \<le> do_status (co_ops s i)"
  shows "core_typed nxt s'" "\<forall>i\<in>set r'. ISSUED \<le> do_status (co_ops s' i)" "co_inFlight s' = co_inFlight s"
proof -
  have "core_typed nxt s' \<and> (\<forall>i\<in>set r'. ISSUED \<le> do_status (co_ops s' i)) \<and> co_inFlight s' = co_inFlight s"
  proof (cases "s' = s \<and> r' = r")
    case False
    then obtain i rest where q: "co_cosimIssueQueue s = i # rest" "canIssue (co_ops s) i" "do_status (co_ops s i) = ALLOCATED"
      and c: "core_cosim_issue i (s\<lparr>co_cosimIssueQueue := rest,
         co_window := (co_window s)\<lparr>w_usedCosimQueueSize := w_usedCosimQueueSize (co_window s) - 1\<rparr>,
         co_ops := upd_op i (\<lambda>p. p\<lparr>do_status := ISSUED, do_e := co_cycles s\<rparr>) (co_ops s)\<rparr>) = Some s'" and r': "r' = r @ [i]"
      using assms(1) by (auto simp: issue_cosim_def Let_def split: list.splits if_splits bind_splits)
    let ?o = "upd_op i (\<lambda>p. p\<lparr>do_status := ISSUED, do_e := co_cycles s\<rparr>) (co_ops s)"
    have s': "co_ops s' = ?o" "co_cosimIssueQueue s' = rest" "co_issueQueue s' = co_issueQueue s"
      "co_inFlight s' = co_inFlight s" "co_prog s' = co_prog s"
      "\<exists>v c. ci_insn v = i \<and> cosim_issue v c (co_sa s) = Some (co_sa s')"
      using c unfolding core_cosim_issue_def Let_def
      by (auto simp: upd_stats_def split: bind_splits) (intro exI conjI, assumption?, simp_all)
    have X: "sa_insts (co_sa s') \<subseteq> insert i (sa_insts (co_sa s))" using s'(6) cosim_issue_insts by blast
    have t: "typed (co_ops s) (nxt (co_prog s)) (line s) (front s) (co_issueQueue s) (co_cosimIssueQueue s) (co_inFlight s)
      (sa_insts (co_sa s))" using assms(2) by (simp add: core_typed_def)
    have st: "op_steps (co_ops s) ?o"
      by (rule op_steps_upd) (use q canIssue_deps in \<open>simp_all add: same_static_def status_moves_def\<close>)
    have n: "i \<notin> set rest" "distinct rest" using typedD(4) [OF t] q(1) by simp_all
    have n2: "i \<notin> set (co_issueQueue s)" using typedD(8) [OF t, of i] typedD(9) [OF t, of i] q(1) by auto
    have "typed ?o (nxt (co_prog s)) (line s) (front s) (co_issueQueue s) rest (co_inFlight s) (sa_insts (co_sa s'))"
    proof (rule typed_issue [OF t st typedD(3) [OF t] subset_refl _ n(2)])
      show "do_status (?o j) \<in> {ALLOCATED, READY}" if "j \<in> set (co_issueQueue s)" for j
        using that n2 typedD(8) [OF t that] by (cases "j = i") simp_all
      show "do_status (?o j) = do_status (co_ops s j)" if "j \<in> set rest" for j
        using that n(1) by (cases "j = i") simp_all
      show "ISSUED \<le> do_status (?o j)" if "j \<in> sa_insts (co_sa s')" "j \<notin> sa_insts (co_sa s)" for j
        using that X by auto
    qed (use q(1) in auto)
    moreover have "line s' = line s" "front s' = front s"
      by (rule line_view [OF issue_cosim_view [OF assms(1)]], rule front_view [OF issue_cosim_view [OF assms(1)]])
    moreover have "\<forall>j\<in>set r'. ISSUED \<le> do_status (?o j)"
      using assms(3) op_steps_simps(3) [OF st] r' by auto
    ultimately show ?thesis by (simp add: core_typed_def s')
  qed (use assms in auto)
  then show "core_typed nxt s'" "\<forall>i\<in>set r'. ISSUED \<le> do_status (co_ops s' i)" "co_inFlight s' = co_inFlight s" by auto
qed

lemma issue_typed:
  assumes "core_issue s = Some s'" "core_typed nxt s"
  shows "core_typed nxt s'"
proof (cases "co_flushStall s")
  case False
  then obtain r1 s1 r2 s2 where c: "issue_cpu s = Some (r1, s1)" "issue_cosim r1 s1 = Some (r2, s2)"
    and s': "s' = (issue_stats (length r2) s2)\<lparr>co_inFlight := co_inFlight s2 @ r2\<rparr>"
    using assms(1) by (auto simp: core_issue_def issue_stats_def Let_def upd_stats_def split: bind_splits)
  note a = issue_cpu_typed [OF c(1) assms(2)]
  note b = issue_cosim_typed [OF c(2) a]
  have "line s' = line s2" "front s' = front s2" by (simp_all add: s' line_def front_def issue_stats_def upd_stats_def)
  moreover have "co_ops s' = co_ops s2" "co_prog s' = co_prog s2" "co_issueQueue s' = co_issueQueue s2"
    "co_cosimIssueQueue s' = co_cosimIssueQueue s2" "co_inFlight s' = co_inFlight s2 @ r2" "co_sa s' = co_sa s2"
    by (simp_all add: s' issue_stats_def upd_stats_def)
  ultimately show ?thesis using b(1,2) by (auto simp: core_typed_def typed_def)
qed (use assms in \<open>simp add: core_issue_def\<close>)


section \<open>Dispatch, rename and decode\<close>

text \<open>Dispatch moves the head of the part before dispatch into a queue.\<close>

lemma deps_ok_cong:
  assumes "deps_ok ops" "\<And>j. READY \<le> do_status (ops' j) \<longleftrightarrow> READY \<le> do_status (ops j)"
    "\<And>j. FINISHED \<le> do_status (ops j) \<Longrightarrow> FINISHED \<le> do_status (ops' j)"
    "\<And>j. READY \<le> do_status (ops j) \<Longrightarrow> do_deps (ops' j) = do_deps (ops j)"
  shows "deps_ok ops'"
  using assms by (simp add: deps_ok_def deps_done_def)

lemma typed_dispatch:
  assumes "typed ops n l (i # fr) iq cq fl X" "distinct (i # fr)"
    "\<And>j. j \<noteq> i \<Longrightarrow> ops' j = ops j" "same_static (ops' i) (ops i)" "do_status (ops' i) = ALLOCATED"
    "iq' = (if isCosimFunc (ops i) then iq else iq @ [i])" "cq' = (if isCosimFunc (ops i) then cq @ [i] else cq)"
  shows "typed ops' n l fr iq' cq' fl X"
proof -
  note t = typedD [OF assms(1)]
  have i: "do_status (ops i) = INIT" using t(7) by simp
  have k: "isCosimFunc (ops' i) = isCosimFunc (ops i)" using assms(4) by (simp add: same_static_def isCosimFunc_def)
  have "i \<in> set l" using t(2) by simp
  then have n: "i < n" by (rule t(5))
  have out: "i \<notin> set iq" "i \<notin> set cq" "i \<notin> set fl" "i \<notin> X" "i \<notin> set fr"
    using t(8) [of i] t(9) [of i] t(10) [of i] t(11) [of i] i assms(2) by auto
  have d: "deps_ok ops'"
  proof (rule deps_ok_cong [OF t(12)])
    show "(READY \<le> do_status (ops' j)) = (READY \<le> do_status (ops j))" for j
      using assms(3,5) i by (cases "j = i") simp_all
    show "FINISHED \<le> do_status (ops' j)" if "FINISHED \<le> do_status (ops j)" for j
      using that assms(3) i by (cases "j = i") simp_all
    show "do_deps (ops' j) = do_deps (ops j)" for j
      using assms(3,4) by (cases "j = i") (simp_all add: same_static_def)
  qed
  have eq: "ops' j = ops j" if "j \<in> set iq \<union> set cq \<union> set fl \<union> X \<union> set fr \<or> n \<le> j" for j
    using assms(3) out n that by (cases "j = i") auto
  show ?thesis
  proof (rule typedI)
    show "distinct iq'" "distinct cq'" using assms(6,7) t(3,4) out by simp_all
    show "do_status (ops' j) \<in> {ALLOCATED, READY} \<and> \<not> isCosimFunc (ops' j)" if "j \<in> set iq'" for j
    proof (cases "j = i")
      case False
      then have "j \<in> set iq" using that assms(6) by (auto split: if_splits)
      then show ?thesis using eq t(8) by simp
    qed (use that assms(5,6) k out in \<open>auto split: if_splits\<close>)
    show "do_status (ops' j) = ALLOCATED \<and> isCosimFunc (ops' j)" if "j \<in> set cq'" for j
    proof (cases "j = i")
      case False
      then have "j \<in> set cq" using that assms(7) by (auto split: if_splits)
      then show ?thesis using eq t(9) by simp
    qed (use that assms(5,7) k out in \<open>auto split: if_splits\<close>)
  qed (use t d eq in auto)
qed

definition rest_view :: "('n, 'm, 'p) core \<Rightarrow> nat list \<times> nat set \<times> 'p" where
  "rest_view s = (co_inFlight s, sa_insts (co_sa s), co_prog s)"

lemma dispatch_one_view: "dispatch_one i s = Some s' \<Longrightarrow> rest_view s' = rest_view s"
  unfolding dispatch_one_def Let_def by (auto simp: rest_view_def split: bind_splits)

definition waiting_typed :: "('p \<Rightarrow> nat) \<Rightarrow> nat list \<Rightarrow> ('n, 'm, 'p) core \<Rightarrow> bool" where
  "waiting_typed nxt out s \<longleftrightarrow> typed (co_ops s) (nxt (co_prog s)) (line s) (front s)
     (co_issueQueue s @ filter (\<lambda>i. \<not> isCosimFunc (co_ops s i)) out)
     (co_cosimIssueQueue s @ filter (\<lambda>i. isCosimFunc (co_ops s i)) out) (co_inFlight s) (sa_insts (co_sa s))"

lemma dispatch_one_waiting:
  assumes "dispatch_one i s = Some s'" "co_insnQueue s = i # rest" "waiting_typed nxt out s"
  shows "waiting_typed nxt (out @ [i]) s'"
proof -
  let ?o = "upd_op i (\<lambda>p. p\<lparr>do_D := co_cycles s\<rparr>) (advance i (co_ops s))"
  have init: "do_status (co_ops s i) = INIT" and s': "co_ops s' = ?o" "co_insnQueue s' = rest"
    "co_issueQueue s' = co_issueQueue s" "co_cosimIssueQueue s' = co_cosimIssueQueue s"
    "co_inFlight s' = co_inFlight s" "co_sa s' = co_sa s" "co_prog s' = co_prog s" "i # front s' = front s"
    using assms(1,2) unfolding dispatch_one_def Let_def by (auto simp: front_def split: bind_splits)
  have k: "isCosimFunc (?o j) = isCosimFunc (co_ops s j)" for j
    by (simp add: isCosimFunc_def advance_def upd_op_def)
  have t: "typed (co_ops s) (nxt (co_prog s)) (line s) (i # front s')
     (co_issueQueue s @ filter (\<lambda>i. \<not> isCosimFunc (co_ops s i)) out)
     (co_cosimIssueQueue s @ filter (\<lambda>i. isCosimFunc (co_ops s i)) out) (co_inFlight s) (sa_insts (co_sa s))"
    using assms(3) s'(8) by (simp add: waiting_typed_def)
  have "distinct (i # front s')" using typedD(1) [OF t] line_front [of s] s'(8) by simp
  moreover have "same_static (?o i) (co_ops s i)" "do_status (?o i) = ALLOCATED" "\<And>j. j \<noteq> i \<Longrightarrow> ?o j = co_ops s j"
    using init by (simp_all add: advance_def same_static_def)
  ultimately have "typed ?o (nxt (co_prog s)) (line s) (front s')
     (co_issueQueue s @ filter (\<lambda>i. \<not> isCosimFunc (co_ops s i)) (out @ [i]))
     (co_cosimIssueQueue s @ filter (\<lambda>i. isCosimFunc (co_ops s i)) (out @ [i])) (co_inFlight s) (sa_insts (co_sa s))"
    by (intro typed_dispatch [OF t]) simp_all
  then show ?thesis
    unfolding waiting_typed_def s'(1,3-7) k dispatch_one_line [OF assms(1,2)] .
qed

lemma dispatch_loop_waiting:
  "dispatch_loop k out s = Some (out', s') \<Longrightarrow> waiting_typed nxt out s \<Longrightarrow> waiting_typed nxt out' s'"
proof (induction k arbitrary: out s)
  case (Suc k)
  show ?case
  proof (cases "co_insnQueue s")
    case (Cons i rest)
    let ?s1 = "dispatch_stats i s"
    obtain ok u where ls: "ls_canDispatch (co_ops ?s1) i True (co_lsu ?s1) = (ok, u)" by fastforce
    let ?s2 = "?s1\<lparr>co_lsu := u\<rparr>"
    have t: "waiting_typed nxt out ?s1" "waiting_typed nxt out ?s2" "co_insnQueue ?s2 = i # rest"
      using Suc.prems(2) Cons by (simp_all add: waiting_typed_def dispatch_stats_def upd_stats_def line_def front_def)
    consider (no) "s' = ?s1" "out' = out" | (full) "s' = ?s2" "out' = out"
      | (go) s3 where "dispatch_one i ?s2 = Some s3" "dispatch_loop k (out @ [i]) s3 = Some (out', s')"
      using Suc.prems(1) Cons ls by (auto simp: Let_def split: if_splits bind_splits)
    then show ?thesis
      by cases (use t Suc.IH dispatch_one_waiting in blast)+
  qed (use Suc.prems in auto)
qed simp

lemma to_queues_typed: "waiting_typed nxt out s \<Longrightarrow> core_typed nxt (insnToIssueQueues out s)"
proof (induction out arbitrary: s)
  case (Cons i out)
  let ?s = "if isCosimFunc (co_ops s i) then s\<lparr>co_cosimIssueQueue := co_cosimIssueQueue s @ [i]\<rparr>
     else s\<lparr>co_issueQueue := co_issueQueue s @ [i]\<rparr>"
  have "waiting_typed nxt out ?s"
    using Cons.prems by (cases "isCosimFunc (co_ops s i)") (simp_all add: waiting_typed_def line_def front_def)
  then show ?case using Cons.IH by (simp add: insnToIssueQueues_def)
qed (simp add: insnToIssueQueues_def waiting_typed_def core_typed_def)

lemma dispatch_typed: "core_dispatch s = Some s' \<Longrightarrow> core_typed nxt s \<Longrightarrow> core_typed nxt s'"
proof -
  assume d: "core_dispatch s = Some s'" and t: "core_typed nxt s"
  have "waiting_typed nxt [] s" using t by (simp add: waiting_typed_def core_typed_def)
  then show ?thesis
    using d t dispatch_loop_waiting to_queues_typed by (fastforce simp: core_dispatch_def split: if_splits bind_splits)
qed

text \<open>Rename adds dependences to instructions that have not been dispatched.\<close>

lemma typed_rename:
  assumes "typed ops n l fr iq cq fl X" "i \<in> set fr" "\<And>j. do_status (ops' j) = do_status (ops j)"
    "\<And>j. isCosimFunc (ops' j) = isCosimFunc (ops j)" "\<And>j. j \<noteq> i \<Longrightarrow> do_deps (ops' j) = do_deps (ops j)"
  shows "typed ops' n l fr iq cq fl X"
proof (rule typedI)
  have i: "do_status (ops i) = INIT" using typedD(7) [OF assms(1,2)] .
  show "deps_ok ops'"
  proof (rule deps_ok_cong [OF typedD(12) [OF assms(1)]])
    show "do_deps (ops' j) = do_deps (ops j)" if "READY \<le> do_status (ops j)" for j
      using that i assms(5) by (cases "j = i") simp_all
  qed (simp_all add: assms(3))
qed (use typedD [OF assms(1)] in \<open>simp_all add: assms(3,4)\<close>)

lemma add_deps_simps:
  fixes mp :: "u64 \<Rightarrow> nat option"
  defines "g \<equiv> \<lambda>i ops ds. foldl (\<lambda>o1 dep. case mp dep of None \<Rightarrow> o1 | Some d \<Rightarrow> addDep i d o1) ops ds"
  shows "do_status (g i ops ds j) = do_status (ops j)" "isCosimFunc (g i ops ds j) = isCosimFunc (ops j)"
    "j \<noteq> i \<Longrightarrow> do_deps (g i ops ds j) = do_deps (ops j)"
  unfolding g_def
  by (induction ds arbitrary: ops) (simp_all add: addDep_def upd_op_def isCosimFunc_def split: option.splits)

lemma rename_loop_typed: "core_typed nxt s \<Longrightarrow> core_typed nxt (rename_loop w k s)"
proof (induction w k s rule: rename_loop.induct)
  case (2 w k s)
  show ?case
  proof (cases "co_to_rename s = [] \<or> length (co_insnQueue s) \<ge> w")
    case False
    then obtain i rest where q: "co_to_rename s = i # rest" "\<not> length (co_insnQueue s) \<ge> w"
      by (cases "co_to_rename s") auto
    obtain ops mp where r: "rename_one i (co_ops s, co_uidDynOpMap s) = (ops, mp)" by fastforce
    let ?s = "s\<lparr>co_ops := ops, co_uidDynOpMap := mp, co_insnQueue := co_insnQueue s @ [i], co_to_rename := rest\<rparr>"
    have v: "line ?s = line s" "front ?s = front s" "i \<in> set (front s)" using q by (simp_all add: line_def front_def)
    have o: "ops = foldl (\<lambda>o1 dep. case mp dep of None \<Rightarrow> o1 | Some d \<Rightarrow> addDep i d o1) (co_ops s) (do_static_deps (co_ops s i))"
      using r by (auto simp: rename_one_def Let_def simp del: fun_upd_apply)
    have "typed ops (nxt (co_prog s)) (line s) (front s) (co_issueQueue s) (co_cosimIssueQueue s) (co_inFlight s)
        (sa_insts (co_sa s))"
      by (rule typed_rename [OF _ v(3)]) (use "2.prems" in \<open>simp_all add: core_typed_def o add_deps_simps\<close>)
    then have "core_typed nxt ?s" by (simp add: core_typed_def v)
    then show ?thesis using "2.IH" [OF q(1,2) r [symmetric] refl] q r by simp
  qed (use "2.prems" in \<open>auto split: list.splits\<close>)
qed simp

lemma rename_typed: "core_typed nxt s \<Longrightarrow> core_typed nxt (core_rename s)"
  by (simp add: core_rename_def rename_loop_typed Let_def)


text \<open>
  A stage given by what it does to the line, to the queues and to the store of instructions.
\<close>

lemma front_line: "line s' = line s \<Longrightarrow> co_window s' = co_window s \<Longrightarrow> front s' = front s"
  by (simp add: line_front)

lemma typed_frame:
  assumes "core_typed nxt s" "line s' = line s" "occ_view s' = occ_view s" "rest_view s' = rest_view s"
    "late_steps (co_ops s) (co_ops s')"
  shows "core_typed nxt s'"
proof -
  have w: "co_window s' = co_window s" "co_issueQueue s' = co_issueQueue s" "co_cosimIssueQueue s' = co_cosimIssueQueue s"
    using assms(3) by (simp_all add: occ_view_def)
  have r: "co_inFlight s' = co_inFlight s" "sa_insts (co_sa s') = sa_insts (co_sa s)" "co_prog s' = co_prog s"
    using assms(4) by (simp_all add: rest_view_def)
  show ?thesis
    using assms(1) typed_late [OF _ assms(5)]
    by (simp add: core_typed_def w r assms(2) front_line [OF assms(2) w(1)])
qed

lemma decode_typed: "core_typed nxt s \<Longrightarrow> core_typed nxt (core_decode s)"
proof (rule typed_frame)
  show "rest_view (core_decode s) = rest_view s" "late_steps (co_ops s) (co_ops (core_decode s))"
    by (auto simp: core_decode_def rest_view_def Let_def split: prod.splits)
qed (simp_all add: decode_line decode_occ)

section \<open>Fetch\<close>

lemma move_group_late: "late_steps (fs_ops f) (fs_ops (move_group n F0 f))"
proof (induction n F0 f rule: move_group.induct)
  case (2 n F0 f)
  show ?case
  proof (cases "fs_processed f")
    case (Cons i rest)
    have "late_steps (fs_ops f) (upd_op i (\<lambda>p. p\<lparr>do_F0 := F0\<rparr>) (fs_ops f))"
      by (rule late_steps_keep) (simp_all add: same_static_def)
    with "2.IH" [OF Cons] Cons show ?thesis by (auto intro: late_steps_trans)
  qed simp
qed simp

lemma fetch_unit_late:
  "fakeIF cycle f = Some f' \<Longrightarrow> late_steps (fs_ops f) (fs_ops f')"
  "IF1 f = Some f' \<Longrightarrow> late_steps (fs_ops f) (fs_ops f')"
  "IF0 cycle f = Some f' \<Longrightarrow> late_steps (fs_ops f) (fs_ops f')"
proof -
  have m: "late_steps (fs_ops f) (fs_ops (move_group n F0 (f\<lparr>fs_count := c\<rparr>)))" for n F0 c
    using move_group_late [of "f\<lparr>fs_count := c\<rparr>"] by simp
  have u: "late_steps (fs_ops f) (upd_op i (\<lambda>p. p\<lparr>do_F0 := cycle\<rparr>) (fs_ops f))" for i
    by (rule late_steps_keep) (simp_all add: same_static_def)
  show "fakeIF cycle f = Some f' \<Longrightarrow> late_steps (fs_ops f) (fs_ops f')"
    using m by (auto simp: fakeIF_def Let_def split: bind_splits)
  show "IF1 f = Some f' \<Longrightarrow> late_steps (fs_ops f) (fs_ops f')"
    using m by (auto simp: IF1_def Let_def split: bind_splits list.splits option.splits)
  show "IF0 cycle f = Some f' \<Longrightarrow> late_steps (fs_ops f) (fs_ops f')"
    using u by (auto simp: IF0_def Let_def split: bind_splits list.splits if_splits prod.splits)
qed

lemma on_fetch_typed:
  assumes "on_fetch g s = Some s'" "core_typed nxt s" "co_flushedInsns s = []"
    "\<And>f f'. g f = Some f' \<Longrightarrow> fs_buffer f' @ fs_processed f' = fs_buffer f @ fs_processed f"
    "\<And>f f'. g f = Some f' \<Longrightarrow> late_steps (fs_ops f) (fs_ops f')"
  shows "core_typed nxt s'"
proof -
  obtain f where f: "g (fs_view s) = Some f" "s' = fs_store f s" using assms(1) by (auto simp: on_fetch_def)
  show ?thesis
    by (rule typed_frame [OF assms(2) on_fetch_line(1) [OF assms(1,3,4)] on_fetch_occ [OF assms(1)]])
      (use assms(5) [OF f(1)] in \<open>simp_all add: f(2) fs_store_def fs_view_def rest_view_def\<close>)
qed

lemma fetch_begin_typed:
  assumes "fetch_begin s = Some (sf, nw, st, s')" "core_typed nxt s"
  shows "core_typed nxt s'"
proof -
  obtain s1 b where s1: "on_fetch IF1 (take_flushed s) = Some s1" and w: "wait_branch b s1 = (nw, st, s')"
    using assms(1) by (auto simp: fetch_begin_def Let_def split: bind_splits)
  have "core_typed nxt (take_flushed s)"
    by (rule typed_frame [OF assms(2) take_flushed_line(1)])
      (simp_all add: take_flushed_def occ_view_def rest_view_def)
  then have t: "core_typed nxt s1"
    by (rule on_fetch_typed [OF s1 _ take_flushed_line(2) fetch_unit_line(2) fetch_unit_late(2)])
  show ?thesis
    by (rule typed_frame [OF t wait_branch_line(1) [OF w]])
      (use w in \<open>auto simp: wait_branch_def Let_def upd_stats_def occ_view_def rest_view_def split: option.splits if_splits\<close>)
qed

text \<open>
  What \<open>preprocess\<close> is assumed to do: the instructions of the block are new and not started, those
  that exist keep what they are and their status.
\<close>

definition allocates :: "('p \<Rightarrow> nat) \<Rightarrow> 'p preprocess \<Rightarrow> bool" where
  "allocates nxt pp \<longleftrightarrow> (\<forall>p ops bp bs p' ops' bp'. pp (p, ops, bp) = (bs, p', ops', bp') \<longrightarrow>
     nxt p \<le> nxt p' \<and> distinct bs \<and> set bs \<subseteq> {nxt p..<nxt p'} \<and> (\<forall>i\<in>set bs. do_status (ops' i) = INIT) \<and>
     (\<forall>i. i \<notin> set bs \<longrightarrow> same_static (ops' i) (ops i) \<and> do_status (ops' i) = do_status (ops i)))"

lemma typed_block:
  assumes "typed ops n l fr iq cq fl X" "n \<le> n'" "distinct bs" "set bs \<subseteq> {n..<n'}"
    "\<And>i. i \<in> set bs \<Longrightarrow> do_status (ops' i) = INIT"
    "\<And>i. i \<notin> set bs \<Longrightarrow> same_static (ops' i) (ops i) \<and> do_status (ops' i) = do_status (ops i)"
  shows "typed ops' n' (l @ bs) (fr @ bs) iq cq fl X"
proof -
  note t = typedD [OF assms(1)]
  have old: "do_status (ops i) = INIT" if "i \<in> set bs" for i using that assms(4) t(6) by force
  have st: "do_status (ops' i) = do_status (ops i)" for i
    using assms(5,6) old by (cases "i \<in> set bs") simp_all
  have out: "i \<notin> set bs" if "do_status (ops i) \<noteq> INIT" for i using that old by blast
  have k: "isCosimFunc (ops' i) = isCosimFunc (ops i)" "do_deps (ops' i) = do_deps (ops i)" if "do_status (ops i) \<noteq> INIT" for i
    using assms(6) [OF out [OF that]] by (simp_all add: same_static_def isCosimFunc_def)
  have lb: "i \<notin> set bs" if "i \<in> set l" for i using t(5) [OF that] assms(4) by auto
  show ?thesis
  proof (rule typedI)
    show "distinct (l @ bs)" using t(1) assms(3) lb by auto
    show "set (fr @ bs) \<subseteq> set (l @ bs)" using t(2) by auto
    show "i < n'" if "i \<in> set (l @ bs)" for i using that t(5) [of i] assms(2,4) by auto
    show "do_status (ops' i) = INIT" if "i \<in> set (fr @ bs)" for i using that t(7) old by (auto simp: st)
    show "do_status (ops' i) \<in> {ALLOCATED, READY} \<and> \<not> isCosimFunc (ops' i)" if "i \<in> set iq" for i
      using t(8) [OF that] k(1) [of i] by (auto simp: st)
    show "do_status (ops' i) = ALLOCATED \<and> isCosimFunc (ops' i)" if "i \<in> set cq" for i
      using t(9) [OF that] k(1) [of i] by (auto simp: st)
    show "deps_ok ops'"
    proof (rule deps_ok_cong [OF t(12)])
      show "do_deps (ops' j) = do_deps (ops j)" if "READY \<le> do_status (ops j)" for j
        using that by (intro k(2)) auto
    qed (simp_all add: st)
  qed (use t assms(2) in \<open>simp_all add: st\<close>)
qed

lemma block_typed:
  assumes "next_block pp nw s = (bs, s1)" "enqueue_block bs s1 = Some s2" "core_typed nxt s" "allocates nxt pp"
  shows "core_typed nxt s2"
proof -
  obtain ops bp p where c: "co_ops s1 = ops" "co_prog s1 = p" "line s1 = line s" "occ_view s1 = occ_view s"
    "co_inFlight s1 = co_inFlight s" "co_sa s1 = co_sa s"
    "\<not> nw \<and> bs = [] \<and> ops = co_ops s \<and> p = co_prog s \<or> pp (co_prog s, co_ops s, co_bp s) = (bs, p, ops, bp)"
    using assms(1) by (auto simp: next_block_def line_def occ_view_def split: if_splits prod.splits)
  have e: "co_ops s2 = co_ops s1" "rest_view s2 = rest_view s1"
    using assms(2) unfolding enqueue_block_def Let_def by (cases bs; auto simp: rest_view_def split: bind_splits)+
  have w: "co_window s2 = co_window s" "co_issueQueue s2 = co_issueQueue s" "co_cosimIssueQueue s2 = co_cosimIssueQueue s"
    using enqueue_occ [OF assms(2)] c(4) by (simp_all add: occ_view_def)
  have l: "line s2 = line s @ bs" using enqueue_line(1) [OF assms(2)] c(3) by simp
  then have fr: "front s2 = front s @ bs" using w(1) by (simp add: line_front)
  have t: "typed (co_ops s) (nxt (co_prog s)) (line s) (front s) (co_issueQueue s) (co_cosimIssueQueue s) (co_inFlight s)
      (sa_insts (co_sa s))" using assms(3) by (simp add: core_typed_def)
  have "typed ops (nxt p) (line s @ bs) (front s @ bs) (co_issueQueue s) (co_cosimIssueQueue s) (co_inFlight s)
      (sa_insts (co_sa s))"
    using c(7)
  proof
    assume "pp (co_prog s, co_ops s, co_bp s) = (bs, p, ops, bp)"
    with assms(4) have "nxt (co_prog s) \<le> nxt p" "distinct bs" "set bs \<subseteq> {nxt (co_prog s)..<nxt p}"
      "\<forall>i\<in>set bs. do_status (ops i) = INIT"
      "\<forall>i. i \<notin> set bs \<longrightarrow> same_static (ops i) (co_ops s i) \<and> do_status (ops i) = do_status (co_ops s i)"
      unfolding allocates_def by blast+
    then show ?thesis by (intro typed_block [OF t]) simp_all
  qed (use t in simp)
  then show ?thesis
    using e c(1,2,5,6) by (simp add: core_typed_def l fr w rest_view_def)
qed


lemma mark_flush_typed: "core_typed nxt s \<Longrightarrow> core_typed nxt (mark_flush b s)"
  by (rule typed_frame [OF _ mark_flush_line(1)])
    (auto simp: mark_flush_def upd_stats_def occ_view_def rest_view_def same_static_def intro!: late_steps_keep)

lemma ask_icache_typed:
  assumes "ask_icache sf s = Some s'" "core_typed nxt s" "co_flushedInsns s = []"
  shows "core_typed nxt s'"
proof (cases sf)
  case True
  then obtain l where o: "on_fetch (IF0 (co_cycles s)) (s\<lparr>co_last_fetch_line := l\<rparr>) = Some s'"
    using assms(1) by (auto simp: ask_icache_def split: bind_splits)
  have "core_typed nxt (s\<lparr>co_last_fetch_line := l\<rparr>)" using assms(2) by (simp add: core_typed_def line_def front_def)
  then show ?thesis
    by (rule on_fetch_typed [OF o _ _ fetch_unit_line(3) fetch_unit_late(3)]) (use assms(3) in simp)
qed (use assms in \<open>simp add: ask_icache_def\<close>)

lemma upd_stats_typed: "core_typed nxt s \<Longrightarrow> core_typed nxt (upd_stats f s)"
  by (simp add: core_typed_def front_def) (simp add: upd_stats_def)

lemma fetch_request_typed:
  assumes "fetch_request sf s = Some s'" "core_typed nxt s" "co_flushedInsns s = []"
  shows "core_typed nxt s'"
proof (cases "do_flush_stall (co_ops s (hd (co_FTQ s)))")
  case False
  then obtain hit where h: "(if hit then on_fetch (fakeIF (co_cycles s)) s else ask_icache sf s) = Some s'"
    using assms(1) by (auto simp: fetch_request_def split: bind_splits)
  then show ?thesis
    using ask_icache_typed [OF _ assms(2,3)] on_fetch_typed [OF _ assms(2,3) fetch_unit_line(1) fetch_unit_late(1)]
    by (cases hit) auto
qed (use assms upd_stats_typed in \<open>auto simp: fetch_request_def\<close>)

lemma buffer_to_decode_typed: "core_typed nxt s \<Longrightarrow> core_typed nxt (buffer_to_decode w k s)"
proof (rule typed_frame [OF _ buffer_to_decode_line buffer_to_decode_occ])
  show "rest_view (buffer_to_decode w k s) = rest_view s"
    by (induction w k s rule: buffer_to_decode.induct) (auto simp: rest_view_def split: list.splits)
  show "late_steps (co_ops s) (co_ops (buffer_to_decode w k s))"
  proof (induction w k s rule: buffer_to_decode.induct)
    case (2 w j s)
    have "late_steps (co_ops s) (upd_op i (\<lambda>p. p\<lparr>do_F1 := co_cycles s\<rparr>) (co_ops s))" for i
      by (rule late_steps_keep) (simp_all add: same_static_def)
    then show ?case
      using "2.IH" by (auto split: list.splits intro: late_steps_trans)
  qed simp
qed

lemma fetch_end_typed:
  assumes "next_block pp nw s = (bs, s1)" "fetch_end sf st bs s1 = Some s'" "core_typed nxt s" "allocates nxt pp"
    "co_flushedInsns s = []"
  shows "core_typed nxt s'"
proof -
  obtain s4 s5 w where s4: "enqueue_block bs s1 = Some s4" and s5: "fetch_group sf st s4 = Some s5"
    and s': "s' = buffer_to_decode w w (count_stall s5)"
    using assms(2) by (auto simp: fetch_end_def Let_def split: bind_splits)
  have t: "core_typed nxt s4" by (rule block_typed [OF assms(1) s4 assms(3,4)])
  have f: "co_flushedInsns (mark_flush st s4) = []"
    using mark_flush_line(2) [of st s4] enqueue_line(2) [OF s4] next_block_line(2) [OF assms(1)] assms(5) by simp
  have "core_typed nxt s5"
  proof (cases "co_FTQ s4 = []")
    case False
    then have "fetch_request sf (mark_flush st s4) = Some s5" using s5 by (simp add: fetch_group_def)
    then show ?thesis using fetch_request_typed mark_flush_typed [OF t] f by blast
  qed (use s5 t upd_stats_typed in \<open>auto simp: fetch_group_def\<close>)
  then have "core_typed nxt (count_stall s5)" by (simp add: count_stall_def upd_stats_typed)
  then show ?thesis by (simp add: s' buffer_to_decode_typed)
qed

lemma fetch_typed:
  assumes "core_fetch pp s = Some s'" "core_typed nxt s" "allocates nxt pp"
  shows "core_typed nxt s'"
proof (cases "co_flushStall s \<or> co_to_decode s \<noteq> []")
  case False
  then obtain sf nw st s2 where b: "fetch_begin s = Some (sf, nw, st, s2)"
    and r: "(let (bs, s3) = next_block pp nw s2 in fetch_end sf st bs s3) = Some s'"
    using assms(1) by (auto simp: core_fetch_def split: bind_splits)
  obtain bs s3 where n: "next_block pp nw s2 = (bs, s3)" by fastforce
  then have e: "fetch_end sf st bs s3 = Some s'" using r by simp
  show ?thesis
    by (rule fetch_end_typed [OF n e fetch_begin_typed [OF b assms(2)] assms(3) fetch_begin_line(2) [OF b]])
qed (use assms in \<open>auto simp: core_fetch_def split: if_splits\<close>)

section \<open>A cycle, and runs\<close>

lemma bubble_typed: "flush_bubble s = Some s' \<Longrightarrow> core_typed nxt s \<Longrightarrow> core_typed nxt s'"
proof (rule typed_frame [OF _ line_view [OF bubble_view] bubble_occ])
  assume b: "flush_bubble s = Some s'"
  then show "rest_view s' = rest_view s"
    unfolding flush_bubble_def Let_def by (auto simp: rest_view_def split: if_splits bind_splits)
  show "late_steps (co_ops s) (co_ops s')"
    using b unfolding flush_bubble_def Let_def
    by (auto simp: same_static_def intro!: late_steps_keep split: if_splits bind_splits)
qed

lemma sa_insts_dma [simp]: "sa_insts (a\<lparr>sa_dma := e\<rparr>) = sa_insts a"
  by (simp add: sa_insts_def)

lemma caches_typed: "core_caches mb s = Some s' \<Longrightarrow> core_typed nxt s \<Longrightarrow> core_typed nxt s'"
proof (rule typed_frame [OF _ line_view [OF caches_view] caches_occ])
  assume b: "core_caches mb s = Some s'"
  have "rest_view s' = rest_view s \<and> co_ops s' = co_ops s"
    using b unfolding core_caches_def Let_def by (auto simp: rest_view_def deliver_def split: bind_splits)
  then show "rest_view s' = rest_view s" "late_steps (co_ops s) (co_ops s')" by simp_all
qed

lemma backend_typed:
  assumes "core_backend E s = Some s'" "core_typed nxt s"
  shows "core_typed nxt s'"
proof -
  obtain s1 s2 s3 s4 s5 where s: "core_stonne E (core_commit s) = Some s1" "core_execute s1 = Some s2"
    "core_writeBack s2 = Some s3" "core_issue s3 = Some s4" "core_dispatch s4 = Some s5"
    and s': "s' = core_decode (core_rename s5)"
    using assms(1) by (auto simp: core_backend_def split: bind_splits)
  have "core_typed nxt s5"
    by (rule dispatch_typed [OF s(5) issue_typed [OF s(4) writeBack_typed [OF s(3)
          execute_typed [OF s(2) stonne_typed [OF s(1) commit_typed [OF assms(2)]]]]]])
  then show ?thesis by (simp add: s' rename_typed decode_typed)
qed

lemma sim_cycle_typed:
  assumes "sim_cycle E mb pp s = Some s'" "core_typed nxt s" "allocates nxt pp"
  shows "core_typed nxt s'"
proof -
  obtain s5 s6 s7 s8 where b: "core_backend E s = Some s5" and f: "core_fetch pp s5 = Some s6"
    and v: "flush_bubble s6 = Some s7" "core_caches mb (s7\<lparr>co_cycles := co_cycles s7 + 1\<rparr>) = Some s8"
    and s': "order_view s' = order_view s8" "occ_view s' = occ_view s8" "rest_view s' = rest_view s8" "co_ops s' = co_ops s8"
    using assms(1) unfolding sim_cycle_def core_run_def
    by (auto simp: order_view_def occ_view_def rest_view_def split: bind_splits if_splits)
  have t: "core_typed nxt s7"
    by (rule bubble_typed [OF v(1) fetch_typed [OF f backend_typed [OF b assms(2)] assms(3)]])
  then have "core_typed nxt (s7\<lparr>co_cycles := co_cycles s7 + 1\<rparr>)" by (simp add: core_typed_def line_def front_def)
  from typed_frame [OF caches_typed [OF v(2) this] line_view [OF s'(1)] s'(2,3)] s'(4) show ?thesis by simp
qed

lemma core_runs_typed:
  "core_runs E mb pp s0 retired fetched s \<Longrightarrow> allocates nxt pp \<Longrightarrow> core_typed nxt s0 \<Longrightarrow> core_typed nxt s"
  by (induction rule: core_runs.induct) (auto intro: sim_cycle_typed)


text \<open>
  C10. Every container holds instructions whose status belongs there, in every state of a run: what is
  fetched, decoded, renamed or waits for dispatch is in state \<open>INIT\<close>, the issue queue holds instructions of
  the processor that are \<open>ALLOCATED\<close> or \<open>READY\<close>, the queue of the accelerator holds its instructions, all
  \<open>ALLOCATED\<close>, what is in flight or belongs to a command of the accelerator has been issued, and nothing is
  in the pipeline or in a queue twice.  \<open>preprocess\<close> is assumed to allocate new instructions.
\<close>

theorem instructions_typed:
  assumes "allocates nxt pp" "core_typed nxt s0" "core_runs E mb pp s0 retired fetched s"
  shows "(\<forall>i\<in>set (front s). do_status (co_ops s i) = INIT) \<and>
    (\<forall>i\<in>set (co_issueQueue s). do_status (co_ops s i) \<in> {ALLOCATED, READY} \<and> \<not> isCosimFunc (co_ops s i)) \<and>
    (\<forall>i\<in>set (co_cosimIssueQueue s). do_status (co_ops s i) = ALLOCATED \<and> isCosimFunc (co_ops s i)) \<and>
    (\<forall>i\<in>set (co_inFlight s) \<union> sa_insts (co_sa s). ISSUED \<le> do_status (co_ops s i)) \<and>
    distinct (line s) \<and> distinct (co_issueQueue s) \<and> distinct (co_cosimIssueQueue s)"
  using core_runs_typed [OF assms(3,1,2)] by (simp add: core_typed_def typed_def)

lemma demo_allocates: "allocates fst demo_pp"
  by (auto simp: allocates_def demo_pp_def demo_op_def new_dyn_op_def split: nat.splits)

lemma demo_typed: "core_typed fst (demo_core k)"
  by (simp add: core_typed_def typed_def demo_core_def line_def front_def demo_window_def new_window_def sa_insts_def
      demo_sa_def new_sa_def new_command_def demo_op_def new_dyn_op_def deps_ok_def deps_done_def)

theorem instructions_typed_witness:
  "\<exists>s. core_runs quick_env fifo_backend demo_pp (demo_core 1) [0] [1, 2] s \<and> line s = [1, 2] \<and>
     (\<forall>i\<in>set (front s). do_status (co_ops s i) = INIT)"
proof -
  obtain s where r: "core_runs quick_env fifo_backend demo_pp (demo_core 1) [0] [1, 2] s" using demo_run by blast
  have "line (demo_core 1) = [0]" by (simp add: line_def demo_core_def demo_window_def new_window_def)
  then have "line s = [1, 2]" using core_runs_line [OF r] by simp
  then show ?thesis using r instructions_typed [OF demo_allocates demo_typed r] by blast
qed

text \<open>
  C9. No instruction runs ahead of its operands: in every state of a run, whatever has become ready, has
  been issued, is in flight or has finished depends on instructions that are at least \<open>FINISHED\<close> only.
  (\<open>SLEEP\<close>, the state of a load that waits for the store it takes its data from, counts as at least
  \<open>FINISHED\<close> for this test, as the last lemma of this theory shows.)
\<close>

theorem operands_ready:
  assumes "allocates nxt pp" "core_typed nxt s0" "core_runs E mb pp s0 retired fetched s"
  shows "(\<forall>i. READY \<le> do_status (co_ops s i) \<longrightarrow> (\<forall>d\<in>set (do_deps (co_ops s i)). FINISHED \<le> do_status (co_ops s d))) \<and>
    (\<forall>i\<in>set (co_inFlight s). \<forall>d\<in>set (do_deps (co_ops s i)). FINISHED \<le> do_status (co_ops s d))"
proof -
  note t = core_runs_typed [OF assms(3,1,2), unfolded core_typed_def]
  have "READY \<le> do_status (co_ops s i)" if "i \<in> set (co_inFlight s)" for i
    using typedD(10) [OF t that] by (rule issued_ready)
  then show ?thesis using typedD(12) [OF t] unfolding deps_ok_def deps_done_def by blast
qed

text \<open>Instruction 1 is in flight, it depends on instruction 0, which has finished.\<close>

definition demo_issued :: "(unit, (bool \<times> u64) list, nat \<times> nat) core" where
  "demo_issued = (demo_core 1)\<lparr>co_ops := (co_ops (demo_core 1))(1 := (demo_op 1 [0])\<lparr>do_status := ISSUED, do_deps := [0]\<rparr>),
     co_window := demo_window\<lparr>w_robUsed := 2, w_instList := [0, 1]\<rparr>, co_instList := [0, 1], co_inFlight := [1],
     co_prog := (2, 1)\<rparr>"

lemma demo_issued_typed: "core_typed fst demo_issued"
  by (simp add: core_typed_def typed_def demo_issued_def demo_core_def line_def front_def sa_insts_def demo_sa_def new_sa_def
      new_command_def demo_op_def new_dyn_op_def deps_ok_def deps_done_def demo_window_def new_window_def isCosimFunc_def no_cosim_def)

theorem operands_ready_witness:
  "\<exists>s. core_runs quick_env fifo_backend demo_pp demo_issued [] [] s \<and> 1 \<in> set (co_inFlight s) \<and>
     do_deps (co_ops s 1) = [0] \<and> FINISHED \<le> do_status (co_ops s 0)"
proof -
  have i: "1 \<in> set (co_inFlight demo_issued)" "do_deps (co_ops demo_issued 1) = [0]" by (simp_all add: demo_issued_def)
  have r: "core_runs quick_env fifo_backend demo_pp demo_issued [] [] demo_issued" by (rule core_runs.start)
  from operands_ready [OF demo_allocates demo_issued_typed r] i have "FINISHED \<le> do_status (co_ops demo_issued 0)" by simp
  with r i show ?thesis by blast
qed

text \<open>A load that sleeps counts as an operand that is there.\<close>

lemma sleeping_load_is_ready:
  "let ops = (\<lambda>i. demo_op i [])(0 := (demo_op 0 [])\<lparr>do_kind := OpLoad, do_status := SLEEP\<rparr>,
                                1 := (demo_op 1 [])\<lparr>do_status := ALLOCATED, do_deps := [0]\<rparr>)
   in canIssue ops 1"
  by (simp add: canIssue_def checkInsnReady_def isCosimFunc_def demo_op_def new_dyn_op_def no_cosim_def)

end
