(* ===== verification/Spec2Isabelle.thy ===== *)
theory Spec2Isabelle
  imports Prelude PriorityQueue CacheSet FunctionalCache SimpleDRAM Transactions Cache DRAM
    MemSystem Command SAQueue DMAEngine TagePredictor BranchPredictor
    Fifo AccBuffer ArrayWires MultiplierWS WSMesh WSFlow WSLoad WSProduct SAController SASafety
    WSMemory DSTree WSArray
    DynInsn Window LSUnit IssueUnit IFU Core CoreOrder CoreRuns CoreAccel CoreTyped
begin

text \<open>
  A verification library for CoSim, a cycle-level simulator of an out-of-order core with a cache hierarchy and a
  systolic-array accelerator (\<open>src/sim\<close>).  The core runs the trace of an LLVM program; instructions that
  call the accelerator are handed to it as commands; core, accelerator and fetch unit share the memory
  hierarchy.  One turn of the loop of \<open>main\<close> is \<open>Core.sim_cycle\<close>: \<open>Core::run\<close> and then the memory.

  \<^bold>\<open>Parts and theories\<close>

  \<^item> Shared vocabulary.  \<open>Prelude\<close>: word types of the C++ integers, failed assertions as \<open>None\<close> in the
    option monad, generic lemmas.  \<open>PriorityQueue\<close>: \<open>std::priority_queue\<close> as a heap in a vector (locale
    \<open>priority_queue\<close>).  \<open>Transactions\<close>: \<open>MemTransaction\<close> pointers as numbers in a store.
  \<^item> Memory.  \<open>CacheSet\<close> and \<open>FunctionalCache\<close>: \<open>FunctionalCache.cpp\<close>, the sets as linked lists in a store
    of nodes, refined to a list in least-recently-used order (locale \<open>line_store\<close>).  \<open>Cache\<close>: one level of
    \<open>cache.cpp\<close>, ports, MSHRs and queues (locale \<open>request_port\<close>).  \<open>MemSystem\<close>: the L1 caches over the L2 and
    the inclusion by recursive invalidation.  \<open>SimpleDRAM\<close> and \<open>DRAM\<close>: \<open>SimpleDRAM.cpp\<close> and \<open>DRAM.cpp\<close>; the
    vendored DRAMSim2 is the parameter \<open>backend\<close>.
  \<^item> Accelerator.  \<open>Command\<close>: \<open>Command.cpp\<close>, address ranges and hazards.  \<open>SAQueue\<close>: the queues and the
    reorder buffer of \<open>SAController.cpp\<close>.  \<open>DMAEngine\<close>: \<open>DMAEngine.cpp\<close> in both modes (locale
    \<open>dma_invariant\<close>).  \<open>Fifo\<close>: \<open>Connection.cpp\<close>, \<open>Fifo.cpp\<close> and the delay lines.  \<open>AccBuffer\<close>:
    \<open>WSAccumulationBuffer.cpp\<close>.  \<open>SAController\<close>: the controller, \<open>Stonne::cycle\<close> and
    \<open>Core::cosim_issue\<close>; \<open>SASafety\<close>: its invariants.  It sees the array and its memory controller as the
    parameter \<open>sa_env\<close>, one field per virtual method.
  \<^item> Systolic array, weight stationary.  \<open>ArrayWires\<close>: packages and connections (\<open>DataPackage.cpp\<close>).
    \<open>MultiplierWS\<close>: the processing element (\<open>MultiplierWS.cpp\<close>) and the synchronous step it makes.
    \<open>WSMesh\<close>: the mesh (\<open>WSMeshMN.cpp\<close>).  \<open>WSFlow\<close>, \<open>WSLoad\<close> and \<open>WSProduct\<close>: where every value is in every
    cycle, for the preload of weights and for the multiplication.  \<open>WSMemory\<close>: the memory controller
    (\<open>WSMeshSDMemory.cpp\<close>).  \<open>DSTree\<close>: the distribution trees (\<open>DSwitch.cpp\<close>, \<open>DSNetwork.cpp\<close>,
    \<open>DSNetworkTop.cpp\<close>).  \<open>WSArray\<close>: all of it as \<open>STONNEModel.cpp\<close> builds it, as the value \<open>ws_env\<close> of the
    parameter \<open>sa_env\<close>.
  \<^item> Branch prediction.  \<open>TagePredictor\<close>: \<open>tage_branch_predictor.cpp\<close>; \<open>BranchPredictor\<close>:
    \<open>branch_predictor.cpp\<close>.
  \<^item> Core.  \<open>DynInsn\<close>: dynamic instructions and their status machine.  \<open>Window\<close>: the reorder buffer
    (\<open>window.cpp\<close>).  \<open>LSUnit\<close>: \<open>lsu.cpp\<close>.  \<open>IssueUnit\<close>: ports, functional units and both schedulers
    (\<open>issue_unit.cpp\<close>).  \<open>IFU\<close>: \<open>ifu.cpp\<close> and \<open>alloc_queue.cpp\<close>.  \<open>Core\<close>: every stage of \<open>Core::run\<close> in
    \<open>core.cpp\<close>, in the order of the code, and the loop of \<open>main.cpp\<close>.
  \<^item> The core as a whole.  \<open>CoreOrder\<close>: the abstract specification, a queue of instructions, and the exact
    occupancy of the queues.  \<open>CoreRuns\<close>: runs of the simulation loop (\<open>core_runs\<close>), with a machine evaluated
    for one cycle.  \<open>CoreAccel\<close> and \<open>CoreTyped\<close>: what each container of the core holds, and that no
    instruction runs ahead of its operands.

  \<^bold>\<open>Correspondence\<close>

  A class is a record whose fields carry a short prefix and the name of the member; a method is a definition
  of the method's name, or of that name with a prefix where it is taken.  Objects that are shared
  by pointer (instructions, transactions, commands, cache nodes) are numbers into a store, which is passed
  on explicitly.  An \<open>assert\<close> that fails, and a dereference of an empty container, is \<open>None\<close>; an operation
  without assertions is a total function.  Machine integers are words of the width of the C++ type; \<open>int\<close>
  counters that cannot overflow in use (occupancies of queues) are mathematical integers.  Loops with a bound are
  recursive functions over it (the width of a stage, the length of a list); \<open>split_block\<close> of theory \<open>IFU\<close>,
  whose step depends on the data, has a termination proof.  There is no fuel anywhere.

  \<^bold>\<open>What is shown\<close>

  \<^item> Core: the pipeline is a queue, no stage loses, repeats or reorders an instruction
    (\<open>program_order_kept\<close>, \<open>retires_in_order\<close>), in the cycle that ends the loop nothing is fetched and everything
    fetched before has retired (\<open>drained_core_retired_all\<close>), the queues never overflow (\<open>core_queues_bounded\<close>), the containers are typed
    by status (\<open>instructions_typed\<close>), operands are there before an instruction is ready (\<open>operands_ready\<close>), and
    the accounts of the functional units stay exact (\<open>issue_keeps_unit_accounts\<close>).
  \<^item> Accelerator: the controller never fails an assertion, refines a scoreboard, executes no command before what
    it depends on has finished, and treats fences as barriers; every transfer completes at most once; the partial sums
    are counted exactly.
  \<^item> Array: a call of \<open>cycle\<close> is one clock edge of all elements (\<open>mesh_is_synchronous\<close>), the preload puts
    every weight into its register (\<open>mesh_preloads\<close>), and the mesh puts out the product of the matrices,
    every row at its time and nothing else (\<open>mesh_multiplies\<close>, \<open>systolic_gemm\<close>), for every size of the mesh; the weights are
    those the code reads from packages it has deleted (\<open>freed\<close>).  The trees deliver exactly what is addressed to a
    leaf, up to \<open>2 ^ 23\<close> leaves, where the \<open>float\<close> in a switch is exact (\<open>distribution_network_delivers\<close>).  Memory controller, trees, mesh and
    accumulation buffer together: a preload and a multiplication end after a known number of cycles with the
    array idle (\<open>array_preload_completes\<close>, \<open>array_multiplication_completes\<close>); these two are for square arrays
    with one read port per input, the default configuration.
  \<^item> Memory: the cache sets refine least-recently-used lists, no request is lost or answered twice in a
    round, every read the DRAM takes is answered, evictions keep inclusion, the timing model keeps to its
    bandwidth and latency.
  \<^item> Prediction: the folded histories of TAGE are exact, all table accesses are in bounds, the longest match
    provides the prediction.
  \<^item> Some theorems show that the code does not do what it means to, for example \<open>flush_stall_never_seen\<close>,
    \<open>dma_zero_bytes_never_completes\<close> and \<open>rob_retires_finished_prefix\<close> (one command more than the width).

  \<^bold>\<open>Hypotheses on code outside\<close>

  \<open>preprocess\<close> of \<open>core.cpp\<close> walks LLVM objects and the trace; it is a parameter, and the theorems of \<open>CoreTyped\<close> assume
  that it allocates new instructions (\<open>allocates\<close>).  The theorems on the DRAM assume of the backend that
  it answers what it accepted.  Each such theorem has a witness with a concrete parameter.

  \<^bold>\<open>Not modelled\<close>

  The set-up code and the reports (\<open>hardware.cpp\<close>, \<open>statistc.cpp\<close>, \<open>power_area_model.cpp\<close>, the printing
  methods), the translation of LLVM IR (\<open>task\<close> other than dynamic instructions), the unused legacy predictor
  (\<open>tage.cpp\<close>), the networks of STONNE that the accelerator never builds (\<open>ASNetwork\<close>, \<open>FENetwork\<close>,
  \<open>MSNetwork\<close>, \<open>SDMemory\<close> and their compilers), the output-stationary array (\<open>OSMeshMN\<close>, \<open>MultiplierOS\<close>,
  \<open>OSMeshSDMemory\<close>), code under \<open>#if 0\<close>, and vendored code (DRAMSim2,
  cpptoml, the Gemmini tests and headers).
\<close>

end
